(* ===== verification/Prelude.thy ===== *)
theory Prelude
  imports Main "HOL-Library.Word"
begin

text \<open>
  Shared vocabulary of the development: the integer types of \<open>rtdef.h\<close>, the error codes,
  the fact collections the component theories feed, and generic facts on list segments
  (\<open>seg\<close>, \<open>blit\<close>), on updates of a family of lists and on single bits of a word.
  Nothing in this theory models a line of the program except the macros named below.
\<close>

unbundle bit_operations_syntax

section \<open>Types and error codes of rtdef.h\<close>

type_synonym u8 = "8 word"
type_synonym u16 = "16 word"
type_synonym u32 = "32 word"
type_synonym tick = "32 word"
type_synonym err = int

abbreviation (input) RT_EOK :: err where "RT_EOK \<equiv> 0"
abbreviation (input) RT_ERROR :: err where "RT_ERROR \<equiv> 1"
abbreviation (input) RT_ETIMEOUT :: err where "RT_ETIMEOUT \<equiv> 2"
abbreviation (input) RT_EFULL :: err where "RT_EFULL \<equiv> 3"
abbreviation (input) RT_EEMPTY :: err where "RT_EEMPTY \<equiv> 4"
abbreviation (input) RT_ENOMEM :: err where "RT_ENOMEM \<equiv> 5"
abbreviation (input) RT_ENOSYS :: err where "RT_ENOSYS \<equiv> 6"
abbreviation (input) RT_EBUSY :: err where "RT_EBUSY \<equiv> 7"
abbreviation (input) RT_EIO :: err where "RT_EIO \<equiv> 8"
abbreviation (input) RT_EINTR :: err where "RT_EINTR \<equiv> 9"

text \<open>
  A call that may block: either it returned, or the calling thread was suspended and the
  processor handed to another thread; the code after \<open>rt_schedule()\<close> then runs later, as a
  definition of its own.
\<close>

datatype 'a outcome = Ret 'a | Blocked

section \<open>Fact collections\<close>

named_theorems wf_intros \<open>preservation of a component's well-formedness by its operations\<close>
named_theorems frame_simps \<open>fields an operation does not write\<close>
named_theorems seg_simps \<open>list segments: seg and blit\<close>

section \<open>List segments\<close>

definition seg :: "nat \<Rightarrow> nat \<Rightarrow> 'a list \<Rightarrow> 'a list" where
  "seg i j xs = take (j - i) (drop i xs)"

text \<open>\<open>blit xs i ys\<close> is \<open>memcpy(&xs[i], ys, length ys)\<close> inside the bounds of \<open>xs\<close>.\<close>

definition blit :: "'a list \<Rightarrow> nat \<Rightarrow> 'a list \<Rightarrow> 'a list" where
  "blit xs i ys = take i xs @ ys @ drop (i + length ys) xs"

lemma length_seg [simp]: "j \<le> length xs \<Longrightarrow> length (seg i j xs) = j - i"
  by (simp add: seg_def)

lemma seg_self [simp]: "seg i i xs = []"
  by (simp add: seg_def)

lemma seg_empty [simp]: "j \<le> i \<Longrightarrow> seg i j xs = []"
  by (simp add: seg_def)

lemma length_blit [simp]: "i + length ys \<le> length xs \<Longrightarrow> length (blit xs i ys) = length xs"
  by (simp add: blit_def)

lemma nth_seg: "j \<le> length xs \<Longrightarrow> n < j - i \<Longrightarrow> seg i j xs ! n = xs ! (i + n)"
  by (simp add: seg_def)

lemma nth_blit:
  "i + length ys \<le> length xs \<Longrightarrow> n < length xs \<Longrightarrow>
   blit xs i ys ! n = (if i \<le> n \<and> n < i + length ys then ys ! (n - i) else xs ! n)"
  by (auto simp: blit_def nth_append min_def)

lemma seg_split: "i \<le> j \<Longrightarrow> j \<le> k \<Longrightarrow> seg i k xs = seg i j xs @ seg j k xs"
  using take_add [of "j - i" "k - j" "drop i xs"] by (simp add: seg_def add.commute)

lemma seg_blit_before [seg_simps]:
  "i + length ys \<le> length xs \<Longrightarrow> k \<le> i \<Longrightarrow> seg j k (blit xs i ys) = seg j k xs"
  by (rule nth_equalityI) (auto simp: nth_seg nth_blit)

lemma seg_blit_after [seg_simps]:
  "i + length ys \<le> length xs \<Longrightarrow> i + length ys \<le> j \<Longrightarrow> k \<le> length xs \<Longrightarrow>
   seg j k (blit xs i ys) = seg j k xs"
  by (rule nth_equalityI) (auto simp: nth_seg nth_blit)

lemma seg_blit_exact [seg_simps]:
  "i + length ys \<le> length xs \<Longrightarrow> seg i (i + length ys) (blit xs i ys) = ys"
  by (rule nth_equalityI) (auto simp: nth_seg nth_blit)

lemma seg_blit_extend:
  assumes "j \<le> i" "i + length ys \<le> length xs" "k = i + length ys"
  shows "seg j k (blit xs i ys) = seg j i xs @ ys"
  using assms seg_split [of j i "i + length ys" "blit xs i ys"] by (simp add: seg_simps)

lemma take_seg: "n \<le> j - i \<Longrightarrow> take n (seg i j xs) = seg i (i + n) xs"
  by (simp add: seg_def min_def)

lemma drop_seg: "drop n (seg i j xs) = seg (i + n) j xs"
  by (simp add: seg_def drop_take add.commute)

lemma seg_update_other: "n < i \<or> k \<le> n \<Longrightarrow> seg i k (xs[n := x]) = seg i k xs"
  by (auto simp: seg_def list_eq_iff_nth_eq)

lemma seg_snoc_update:
  assumes "i \<le> n" "n < length xs"
  shows "seg i (Suc n) (xs[n := x]) = seg i n xs @ [x]"
proof -
  have "seg i (Suc n) (xs[n := x]) = seg i n (xs[n := x]) @ seg n (Suc n) (xs[n := x])"
    using assms by (intro seg_split) auto
  moreover have "seg n (Suc n) (xs[n := x]) = [x]"
    using assms by (intro nth_equalityI) (auto simp: nth_seg)
  ultimately show ?thesis by (simp add: seg_update_other)
qed

lemma seg_Cons:
  assumes "i < j" "j \<le> length xs"
  shows "seg i j xs = xs ! i # seg (Suc i) j xs"
proof -
  have "seg i (Suc i) xs = [xs ! i]"
    using assms by (intro nth_equalityI) (auto simp: nth_seg)
  with seg_split [of i "Suc i" j xs] assms show ?thesis by simp
qed

section \<open>Families of lists\<close>

text \<open>
  The kernel links a node into at most one of many lists. A family of lists is a function from
  list heads to lists; \<open>removed\<close> unlinks a node wherever it is.
\<close>

definition removed :: "'n \<Rightarrow> ('l \<Rightarrow> 'n list) \<Rightarrow> 'l \<Rightarrow> 'n list" where
  "removed n f = (\<lambda>l. removeAll n (f l))"

definition disjoint_lists :: "('l \<Rightarrow> 'n list) \<Rightarrow> bool" where
  "disjoint_lists f \<longleftrightarrow> (\<forall>l. distinct (f l)) \<and> (\<forall>l l' n. n \<in> set (f l) \<and> n \<in> set (f l') \<longrightarrow> l = l')"

lemma removed_apply [simp]: "set (removed n f l) = set (f l) - {n}"
  by (simp add: removed_def)

lemma removed_id: "\<forall>l. n \<notin> set (f l) \<Longrightarrow> removed n f = f"
  by (auto simp: removed_def)

lemma disjoint_lists_removed: "disjoint_lists f \<Longrightarrow> disjoint_lists (removed n f)"
  unfolding disjoint_lists_def removed_def by (auto simp: distinct_removeAll)

lemma disjoint_lists_upd:
  assumes "disjoint_lists f" "\<forall>l. n \<notin> set (f l)" "set xs = insert n (set (f l))" "distinct xs"
  shows "disjoint_lists (f(l := xs))"
  using assms unfolding disjoint_lists_def by (simp split: if_splits) blast

lemma disjoint_listsD:
  "disjoint_lists f \<Longrightarrow> n \<in> set (f l) \<Longrightarrow> n \<in> set (f l') \<Longrightarrow> l = l'"
  unfolding disjoint_lists_def by blast

lemma disjoint_lists_distinct: "disjoint_lists f \<Longrightarrow> distinct (f l)"
  unfolding disjoint_lists_def by blast

lemma removed_hd:
  assumes "disjoint_lists f" "f l = n # ns"
  shows "removed n f = f(l := ns)"
proof
  fix l'
  show "removed n f l' = (f(l := ns)) l'"
  proof (cases "l' = l")
    case True
    have "n \<notin> set ns" using disjoint_lists_distinct [OF assms(1), of l] assms(2) by simp
    with True assms(2) show ?thesis by (simp add: removed_def)
  next
    case False
    then have "n \<notin> set (f l')" using disjoint_listsD [OF assms(1), of n l l'] assms(2) by auto
    with False show ?thesis by (simp add: removed_def)
  qed
qed

section \<open>Rings\<close>

text \<open>The \<open>n\<close> elements of the ring \<open>xs\<close> from index \<open>b\<close> on, around the end.\<close>

definition cyc :: "'a list \<Rightarrow> nat \<Rightarrow> nat \<Rightarrow> 'a list" where
  "cyc xs b n = map (\<lambda>i. xs ! ((b + i) mod length xs)) [0..<n]"

lemma length_cyc [simp]: "length (cyc xs b n) = n"
  by (simp add: cyc_def)

lemma cyc_0 [simp]: "cyc xs b 0 = []"
  by (simp add: cyc_def)

lemma cyc_mod [simp]: "cyc xs (b mod length xs) n = cyc xs b n"
  by (simp add: cyc_def mod_add_left_eq)

lemma mod_add_distinct:
  assumes "i < j" "j < (n :: nat)"
  shows "(b + i) mod n \<noteq> (b + j) mod n"
proof
  assume "(b + i) mod n = (b + j) mod n"
  then have "n dvd j - i" using assms(1) mod_eq_dvd_iff_nat [of "b + i" "b + j" n] by simp
  then show False using assms by (auto dest: dvd_imp_le)
qed

lemma cyc_put:
  assumes "n < length xs"
  shows "cyc (xs[(b + n) mod length xs := v]) b (Suc n) = cyc xs b n @ [v]"
proof -
  have "xs[(b + n) mod length xs := v] ! ((b + i) mod length xs) = xs ! ((b + i) mod length xs)" if "i < n" for i
    using mod_add_distinct [OF that assms, of b] by simp
  moreover have "xs[(b + n) mod length xs := v] ! ((b + n) mod length xs) = v"
    using assms by (intro nth_list_update_eq mod_less_divisor) auto
  ultimately show ?thesis by (simp add: cyc_def)
qed

lemma cyc_get: "cyc xs b (Suc n) = xs ! (b mod length xs) # cyc xs (Suc b) n"
proof -
  have "[0..<Suc n] = 0 # map Suc [0..<n]" by (simp only: upt_conv_Cons map_Suc_upt zero_less_Suc)
  then show ?thesis by (simp add: cyc_def)
qed

lemma wrap_mod: "i < n \<Longrightarrow> (if n \<le> Suc i then 0 else Suc i) = Suc i mod n"
  by (cases "n = Suc i") auto

section \<open>Counters\<close>

lemma unat_inc:
  fixes x :: "'a :: len word"
  assumes "x < y"
  shows "unat (x + 1) = Suc (unat x)"
proof -
  have "unat x + 1 \<le> unat y" using assms by (simp add: word_less_nat_alt Suc_le_eq)
  also have "\<dots> < 2 ^ LENGTH('a)" by (rule unsigned_less)
  finally have "unat x + 1 < 2 ^ LENGTH('a)" .
  then show ?thesis using unat_add_lem [of x 1] by simp
qed

lemma unat_dec:
  fixes x :: "'a :: len word"
  assumes "x \<noteq> 0"
  shows "unat (x - 1) = unat x - 1"
proof -
  have "1 \<le> x" using assms by (metis word_le_def word_gt_0 uint_1 int_one_le_iff_zero_less unsigned_0 word_less_def)
  then show ?thesis using unat_sub [of 1 x] by simp
qed

lemma ucast_u16_u32 [simp]: "unat (ucast (x :: u16) :: u32) = unat x"
proof -
  have "unat x < 2 ^ 16" using unsigned_less [where 'a = nat, of x] by simp
  then show ?thesis by (simp add: unsigned_ucast_eq take_bit_nat_eq_self)
qed

lemma uint_ucast_u16_u32 [simp]: "uint (ucast (x :: u16) :: u32) = uint x"
  using ucast_u16_u32 [of x] by (metis uint_nat)

end
