(* ===== verification/Bounded_Fifo.thy ===== *)
theory Bounded_Fifo
  imports Prelude
begin

text \<open>
  The contract of a bounded first-in first-out store, as its clients (serial drivers, the USB
  virtual COM port, pipes) rely on it: what \<open>put\<close> accepts and where \<open>get\<close> takes from. The
  client lemma is about whole runs: no sequence of puts and gets loses, duplicates or reorders
  an accepted element. The interpretation on the ring buffer is in theory \<open>Ring_Buffer\<close>.
\<close>

datatype 'a fifo_op = Put "'a list" | Get nat

text \<open>A run of operations: the final store, the elements accepted and the elements delivered.\<close>

fun fifo_run :: "('q \<Rightarrow> 'a list \<Rightarrow> nat \<times> 'q) \<Rightarrow> ('q \<Rightarrow> nat \<Rightarrow> 'a list \<times> 'q) \<Rightarrow>
    'q \<Rightarrow> 'a fifo_op list \<Rightarrow> 'q \<times> 'a list \<times> 'a list" where
  "fifo_run put get q [] = (q, [], [])"
| "fifo_run put get q (Put xs # ops) =
     (let (n, q1) = put q xs; (q2, ins, outs) = fifo_run put get q1 ops
      in (q2, take n xs @ ins, outs))"
| "fifo_run put get q (Get n # ops) =
     (let (ys, q1) = get q n; (q2, ins, outs) = fifo_run put get q1 ops
      in (q2, ins, ys @ outs))"

fun ok_op :: "(nat \<Rightarrow> bool) \<Rightarrow> 'a fifo_op \<Rightarrow> bool" where
  "ok_op ok (Put xs) = ok (length xs)"
| "ok_op ok (Get n) = ok n"

locale bounded_fifo =
  fixes invar :: "'q \<Rightarrow> bool"
    and contents :: "'q \<Rightarrow> 'a list"
    and capacity :: "'q \<Rightarrow> nat"
    and ok_len :: "nat \<Rightarrow> bool"
    and put :: "'q \<Rightarrow> 'a list \<Rightarrow> nat \<times> 'q"
    and get :: "'q \<Rightarrow> nat \<Rightarrow> 'a list \<times> 'q"
  assumes put_spec: "invar q \<Longrightarrow> ok_len (length xs) \<Longrightarrow> put q xs = (n, q') \<Longrightarrow>
      n = min (length xs) (capacity q - length (contents q)) \<and>
      contents q' = contents q @ take n xs \<and> capacity q' = capacity q \<and> invar q'"
    and get_spec: "invar q \<Longrightarrow> ok_len n \<Longrightarrow> get q n = (ys, q') \<Longrightarrow>
      ys = take n (contents q) \<and> contents q' = drop n (contents q) \<and>
      capacity q' = capacity q \<and> invar q'"
    and bounded: "invar q \<Longrightarrow> length (contents q) \<le> capacity q"
begin

lemma run_stream:
  assumes "invar q" "list_all (ok_op ok_len) ops" "fifo_run put get q ops = (q', ins, outs)"
  shows "invar q' \<and> capacity q' = capacity q \<and> contents q @ ins = outs @ contents q'"
  using assms
proof (induction ops arbitrary: q q' ins outs)
  case Nil
  then show ?case by simp
next
  case (Cons x ops)
  show ?case
  proof (cases x)
    case (Put xs)
    obtain n q1 where p: "put q xs = (n, q1)" by fastforce
    obtain q2 i o' where r: "fifo_run put get q1 ops = (q2, i, o')" by (metis prod_cases3)
    note s = put_spec [OF Cons.prems(1) _ p]
    show ?thesis using s Cons.IH [OF _ _ r] Cons.prems Put p r by simp
  next
    case (Get n)
    obtain ys q1 where g: "get q n = (ys, q1)" by fastforce
    obtain q2 i o' where r: "fifo_run put get q1 ops = (q2, i, o')" by (metis prod_cases3)
    note s = get_spec [OF Cons.prems(1) _ g]
    have "contents q = ys @ contents q1" using s Cons.prems Get by simp
    then show ?thesis using s Cons.IH [OF _ _ r] Cons.prems Get g r by simp
  qed
qed

text \<open>Filling an empty store and reading as much back returns what was put.\<close>

lemma put_get_roundtrip:
  assumes "invar q" "contents q = []" "ok_len (length xs)" "length xs \<le> capacity q"
  shows "\<exists>q1 q2. put q xs = (length xs, q1) \<and> get q1 (length xs) = (xs, q2) \<and> contents q2 = []"
proof -
  obtain n q1 where p: "put q xs = (n, q1)" by fastforce
  obtain ys q2 where g: "get q1 (length xs) = (ys, q2)" by fastforce
  have "n = length xs" "contents q1 = xs" "invar q1"
    using put_spec [OF assms(1) assms(3) p] assms by simp_all
  with get_spec [OF _ assms(3) g] p g show ?thesis by simp
qed

end

end
