(* ===== verification/Ring_Buffer.thy ===== *)
theory Ring_Buffer
  imports Bounded_Fifo
begin

text \<open>
  The mirrored ring buffer of \<open>components/drivers/src/ringbuffer.c\<close>. The record is the C struct;
  \<open>buffer\<close> is the memory behind \<open>buffer_ptr\<close>. The two mirror bits are Booleans (\<open>~\<close> on a one-bit
  field is negation), the 15-bit indices are \<open>nat\<close> with the truncation of the bit-field store
  written out (\<open>idx15\<close>), \<open>buffer_size\<close> is the signed 16-bit value as \<open>int\<close>. The operations return
  the C result and the new struct. Abstractly the buffer is the list of its bytes, oldest first
  (\<open>contents\<close>); every operation is shown to act on it as a bounded queue does.
\<close>

section \<open>State and operations\<close>

record rt_ringbuffer =
  buffer :: "u8 list"
  read_mirror :: bool
  read_index :: nat
  write_mirror :: bool
  write_index :: nat
  buffer_size :: int

datatype rt_ringbuffer_state = RT_RINGBUFFER_EMPTY | RT_RINGBUFFER_FULL | RT_RINGBUFFER_HALFFULL

definition idx15 :: "int \<Rightarrow> nat" where
  "idx15 x = nat (x mod 2 ^ 15)"

definition as_u16 :: "int \<Rightarrow> nat" where
  "as_u16 x = nat (x mod 2 ^ 16)"

definition as_u32 :: "int \<Rightarrow> nat" where
  "as_u32 x = nat (x mod 2 ^ 32)"

definition as_s16 :: "int \<Rightarrow> int" where
  "as_s16 x = (x + 2 ^ 15) mod 2 ^ 16 - 2 ^ 15"

text \<open>\<open>RT_ALIGN_DOWN(size, 4)\<close>, i.e. \<open>size & ~3\<close> on two's complement integers.\<close>

definition RT_ALIGN_DOWN4 :: "int \<Rightarrow> int" where
  "RT_ALIGN_DOWN4 sz = sz - sz mod 4"

definition rt_ringbuffer_status :: "rt_ringbuffer \<Rightarrow> rt_ringbuffer_state" where
  "rt_ringbuffer_status rb =
     (if read_index rb = write_index rb then
        (if read_mirror rb = write_mirror rb then RT_RINGBUFFER_EMPTY else RT_RINGBUFFER_FULL)
      else RT_RINGBUFFER_HALFFULL)"

definition rt_ringbuffer_init :: "u8 list \<Rightarrow> int \<Rightarrow> rt_ringbuffer" where
  "rt_ringbuffer_init pool sz =
     \<lparr>buffer = pool, read_mirror = False, read_index = 0, write_mirror = False, write_index = 0,
      buffer_size = RT_ALIGN_DOWN4 sz\<rparr>"

definition rt_ringbuffer_reset :: "rt_ringbuffer \<Rightarrow> rt_ringbuffer" where
  "rt_ringbuffer_reset rb =
     rb\<lparr>read_mirror := False, read_index := 0, write_mirror := False, write_index := 0\<rparr>"

definition rt_ringbuffer_data_len :: "rt_ringbuffer \<Rightarrow> nat" where
  "rt_ringbuffer_data_len rb =
     (case rt_ringbuffer_status rb of
        RT_RINGBUFFER_EMPTY \<Rightarrow> 0
      | RT_RINGBUFFER_FULL \<Rightarrow> as_u32 (buffer_size rb)
      | RT_RINGBUFFER_HALFFULL \<Rightarrow>
          (if read_index rb < write_index rb
           then as_u32 (int (write_index rb) - int (read_index rb))
           else as_u32 (buffer_size rb - (int (read_index rb) - int (write_index rb)))))"

definition rt_ringbuffer_space_len :: "rt_ringbuffer \<Rightarrow> nat" where
  "rt_ringbuffer_space_len rb = as_u32 (buffer_size rb - int (rt_ringbuffer_data_len rb))"

definition rt_ringbuffer_get_size :: "rt_ringbuffer \<Rightarrow> nat" where
  "rt_ringbuffer_get_size rb = as_u16 (buffer_size rb)"

definition rt_ringbuffer_put :: "rt_ringbuffer \<Rightarrow> u8 list \<Rightarrow> nat \<Rightarrow> nat \<times> rt_ringbuffer" where
  "rt_ringbuffer_put rb ptr len =
     (let sz = as_u16 (int (rt_ringbuffer_space_len rb)) in
      if sz = 0 then (0, rb)
      else
        let len = (if sz < len then sz else len);
            room = buffer_size rb - int (write_index rb)
        in if room > int len
           then (len, rb\<lparr>buffer := blit (buffer rb) (write_index rb) (take len ptr),
                         write_index := idx15 (int (write_index rb) + int len)\<rparr>)
           else (len, rb\<lparr>buffer := blit (blit (buffer rb) (write_index rb) (take (nat room) ptr)) 0
                                     (take (nat (int len - room)) (drop (nat room) ptr)),
                         write_mirror := \<not> write_mirror rb,
                         write_index := idx15 (int len - room)\<rparr>))"

definition rt_ringbuffer_put_force :: "rt_ringbuffer \<Rightarrow> u8 list \<Rightarrow> nat \<Rightarrow> nat \<times> rt_ringbuffer" where
  "rt_ringbuffer_put_force rb ptr len =
     (let space_length = as_u16 (int (rt_ringbuffer_space_len rb));
          (ptr, len) = (if int len > buffer_size rb
                        then (drop (nat (int len - buffer_size rb)) ptr, as_u16 (buffer_size rb))
                        else (ptr, len));
          room = buffer_size rb - int (write_index rb)
      in if room > int len
         then let rb1 = rb\<lparr>buffer := blit (buffer rb) (write_index rb) (take len ptr),
                           write_index := idx15 (int (write_index rb) + int len)\<rparr>
              in (len, if len > space_length then rb1\<lparr>read_index := write_index rb1\<rparr> else rb1)
         else let rb1 = rb\<lparr>buffer := blit (blit (buffer rb) (write_index rb) (take (nat room) ptr)) 0
                                       (take (nat (int len - room)) (drop (nat room) ptr)),
                           write_mirror := \<not> write_mirror rb,
                           write_index := idx15 (int len - room)\<rparr>
              in (len, if len > space_length
                       then rb1\<lparr>read_mirror := \<not> read_mirror rb1, read_index := write_index rb1\<rparr>
                       else rb1))"

text \<open>\<open>rt_ringbuffer_get\<close> and \<open>rt_ringbuffer_getchar\<close> return the bytes stored through the pointer.\<close>

definition rt_ringbuffer_get :: "rt_ringbuffer \<Rightarrow> nat \<Rightarrow> u8 list \<times> rt_ringbuffer" where
  "rt_ringbuffer_get rb len =
     (let sz = rt_ringbuffer_data_len rb in
      if sz = 0 then ([], rb)
      else
        let len = (if sz < len then as_u16 (int sz) else len);
            room = buffer_size rb - int (read_index rb)
        in if room > int len
           then (seg (read_index rb) (read_index rb + len) (buffer rb),
                 rb\<lparr>read_index := idx15 (int (read_index rb) + int len)\<rparr>)
           else (seg (read_index rb) (read_index rb + nat room) (buffer rb) @
                   seg 0 (nat (int len - room)) (buffer rb),
                 rb\<lparr>read_mirror := \<not> read_mirror rb, read_index := idx15 (int len - room)\<rparr>))"

definition rt_ringbuffer_putchar :: "rt_ringbuffer \<Rightarrow> u8 \<Rightarrow> nat \<times> rt_ringbuffer" where
  "rt_ringbuffer_putchar rb ch =
     (if rt_ringbuffer_space_len rb = 0 then (0, rb)
      else
        let rb1 = rb\<lparr>buffer := (buffer rb)[write_index rb := ch]\<rparr>
        in if int (write_index rb1) = buffer_size rb1 - 1
           then (1, rb1\<lparr>write_mirror := \<not> write_mirror rb1, write_index := 0\<rparr>)
           else (1, rb1\<lparr>write_index := idx15 (int (write_index rb1) + 1)\<rparr>))"

definition rt_ringbuffer_putchar_force :: "rt_ringbuffer \<Rightarrow> u8 \<Rightarrow> nat \<times> rt_ringbuffer" where
  "rt_ringbuffer_putchar_force rb ch =
     (let old_state = rt_ringbuffer_status rb;
          rb1 = rb\<lparr>buffer := (buffer rb)[write_index rb := ch]\<rparr>
      in if int (write_index rb1) = buffer_size rb1 - 1
         then let rb2 = rb1\<lparr>write_mirror := \<not> write_mirror rb1, write_index := 0\<rparr>
              in (1, if old_state = RT_RINGBUFFER_FULL
                     then rb2\<lparr>read_mirror := \<not> read_mirror rb2, read_index := write_index rb2\<rparr>
                     else rb2)
         else let rb2 = rb1\<lparr>write_index := idx15 (int (write_index rb1) + 1)\<rparr>
              in (1, if old_state = RT_RINGBUFFER_FULL
                     then rb2\<lparr>read_index := write_index rb2\<rparr> else rb2))"

definition rt_ringbuffer_getchar :: "rt_ringbuffer \<Rightarrow> u8 option \<times> rt_ringbuffer" where
  "rt_ringbuffer_getchar rb =
     (if rt_ringbuffer_data_len rb = 0 then (None, rb)
      else
        let ch = buffer rb ! read_index rb
        in if int (read_index rb) = buffer_size rb - 1
           then (Some ch, rb\<lparr>read_mirror := \<not> read_mirror rb, read_index := 0\<rparr>)
           else (Some ch, rb\<lparr>read_index := idx15 (int (read_index rb) + 1)\<rparr>))"

text \<open>
  \<open>rt_ringbuffer_create\<close>: the heap's answers to the two \<open>rt_malloc\<close> calls are arguments (\<open>rb_ok\<close>:
  the struct was allocated, \<open>pool\<close>: the memory of the pool, if any). The C parameter is unsigned,
  \<open>rt_ringbuffer_init\<close> takes it as a signed 16-bit value. When the pool cannot be allocated the
  struct is freed, but the function still returns its address: \<open>Inl ()\<close> is that dangling pointer.
\<close>

definition rt_ringbuffer_create :: "nat \<Rightarrow> bool \<Rightarrow> u8 list option \<Rightarrow> (unit + rt_ringbuffer) option" where
  "rt_ringbuffer_create sz rb_ok pool =
     (let sz = RT_ALIGN_DOWN4 (int sz) in
      if \<not> rb_ok then None
      else case pool of
             None \<Rightarrow> Some (Inl ())
           | Some p \<Rightarrow> Some (Inr (rt_ringbuffer_init p (as_s16 sz))))"

section \<open>Well-formedness and abstraction\<close>

definition cap :: "rt_ringbuffer \<Rightarrow> nat" where
  "cap rb = nat (buffer_size rb)"

definition rb_wf :: "rt_ringbuffer \<Rightarrow> bool" where
  "rb_wf rb \<longleftrightarrow>
     0 < buffer_size rb \<and> buffer_size rb < 2 ^ 15 \<and> cap rb \<le> length (buffer rb) \<and>
     read_index rb < cap rb \<and> write_index rb < cap rb \<and>
     (if read_mirror rb = write_mirror rb then read_index rb \<le> write_index rb
      else write_index rb \<le> read_index rb)"

definition contents :: "rt_ringbuffer \<Rightarrow> u8 list" where
  "contents rb =
     (if read_mirror rb = write_mirror rb
      then seg (read_index rb) (write_index rb) (buffer rb)
      else seg (read_index rb) (cap rb) (buffer rb) @ seg 0 (write_index rb) (buffer rb))"

lemma trunc_simps [simp]:
  "0 \<le> x \<Longrightarrow> x < 2 ^ 15 \<Longrightarrow> idx15 x = nat x"
  "0 \<le> x \<Longrightarrow> x < 2 ^ 16 \<Longrightarrow> as_u16 x = nat x"
  "0 \<le> x \<Longrightarrow> x < 2 ^ 32 \<Longrightarrow> as_u32 x = nat x"
  by (simp_all add: idx15_def as_u16_def as_u32_def)

lemma nat_int_diff_diff:
  "b \<le> a \<Longrightarrow> nat (int a - int b) = a - b"
  "c \<le> b \<Longrightarrow> b \<le> a + c \<Longrightarrow> nat (int a - (int b - int c)) = a - (b - c)"
  by simp_all

lemma rb_wfD:
  assumes "rb_wf rb"
  shows "buffer_size rb = int (cap rb)" "0 < cap rb" "cap rb < 32768"
    "read_index rb < cap rb" "write_index rb < cap rb" "cap rb \<le> length (buffer rb)"
    "read_mirror rb = write_mirror rb \<Longrightarrow> read_index rb \<le> write_index rb"
    "read_mirror rb \<noteq> write_mirror rb \<Longrightarrow> write_index rb \<le> read_index rb"
  using assms by (auto simp: rb_wf_def cap_def split: if_splits)

lemma cap_simps [simp]:
  "cap (rb\<lparr>buffer := b\<rparr>) = cap rb" "cap (rb\<lparr>read_mirror := m\<rparr>) = cap rb"
  "cap (rb\<lparr>write_mirror := m\<rparr>) = cap rb" "cap (rb\<lparr>read_index := i\<rparr>) = cap rb"
  "cap (rb\<lparr>write_index := i\<rparr>) = cap rb"
  by (simp_all add: cap_def)

lemma rb_wf_iff:
  "rb_wf rb \<longleftrightarrow> buffer_size rb = int (cap rb) \<and> 0 < cap rb \<and> cap rb < 32768 \<and>
     cap rb \<le> length (buffer rb) \<and> read_index rb < cap rb \<and> write_index rb < cap rb \<and>
     (if read_mirror rb = write_mirror rb then read_index rb \<le> write_index rb
      else write_index rb \<le> read_index rb)"
  by (auto simp: rb_wf_def cap_def)

lemma length_contents:
  "rb_wf rb \<Longrightarrow> length (contents rb) =
     (if read_mirror rb = write_mirror rb then write_index rb - read_index rb
      else cap rb - (read_index rb - write_index rb))"
  using rb_wfD [of rb] by (auto simp: contents_def)

lemma data_len_contents: "rb_wf rb \<Longrightarrow> rt_ringbuffer_data_len rb = length (contents rb)"
  using rb_wfD [of rb]
  by (cases "read_mirror rb = write_mirror rb")
    (simp_all add: rt_ringbuffer_data_len_def rt_ringbuffer_status_def length_contents
       nat_int_diff_diff)

lemma length_contents_le: "rb_wf rb \<Longrightarrow> length (contents rb) \<le> cap rb"
  using rb_wfD [of rb] by (auto simp: length_contents)

lemma space_len_contents: "rb_wf rb \<Longrightarrow> rt_ringbuffer_space_len rb = cap rb - length (contents rb)"
  using rb_wfD [of rb] length_contents_le [of rb]
  by (simp add: rt_ringbuffer_space_len_def data_len_contents)

lemma status_contents:
  "rb_wf rb \<Longrightarrow> rt_ringbuffer_status rb =
     (if contents rb = [] then RT_RINGBUFFER_EMPTY
      else if length (contents rb) = cap rb then RT_RINGBUFFER_FULL else RT_RINGBUFFER_HALFFULL)"
  using rb_wfD [of rb] length_contents [of rb]
  by (cases "read_mirror rb = write_mirror rb")
    (auto simp: rt_ringbuffer_status_def simp flip: length_0_conv)

section \<open>The operations act as a bounded queue\<close>

text \<open>Advancing the write index inside the current mirror, and across its end.\<close>

lemma write_advance:
  assumes wf: "rb_wf rb" and room: "write_index rb + length xs < cap rb"
    and space: "length xs \<le> cap rb - length (contents rb)"
    and rb': "rb' = rb\<lparr>buffer := blit (buffer rb) (write_index rb) xs,
                       write_index := write_index rb + length xs\<rparr>"
  shows "rb_wf rb' \<and> contents rb' = contents rb @ xs \<and> cap rb' = cap rb"
proof -
  note d = rb_wfD [OF wf] length_contents [OF wf]
  show ?thesis
  proof (cases "read_mirror rb = write_mirror rb")
    case True
    with d room rb' show ?thesis
      by (auto simp: rb_wf_iff contents_def seg_blit_extend)
  next
    case False
    then have "write_index rb + length xs \<le> read_index rb" using d space by simp
    with False d room rb' show ?thesis
      by (auto simp: rb_wf_iff contents_def seg_blit_extend seg_blit_after)
  qed
qed

lemma write_wrap:
  assumes wf: "rb_wf rb" and same: "read_mirror rb = write_mirror rb"
    and lxs: "length xs = cap rb - write_index rb" and lys: "length ys \<le> read_index rb"
    and rb': "rb' = rb\<lparr>buffer := blit (blit (buffer rb) (write_index rb) xs) 0 ys,
                       write_mirror := \<not> write_mirror rb, write_index := length ys\<rparr>"
  shows "rb_wf rb' \<and> contents rb' = contents rb @ xs @ ys \<and> cap rb' = cap rb"
proof -
  note d = rb_wfD [OF wf]
  let ?b = "blit (buffer rb) (write_index rb) xs"
  have len: "length ?b = length (buffer rb)" using d lxs by simp
  have "seg (read_index rb) (cap rb) (blit ?b 0 ys) = seg (read_index rb) (cap rb) ?b"
    using d len lxs lys same by (intro seg_blit_after) auto
  also have "\<dots> = seg (read_index rb) (write_index rb) (buffer rb) @ xs"
    using d lxs same by (intro seg_blit_extend) auto
  finally have hi: "seg (read_index rb) (cap rb) (blit ?b 0 ys) =
    seg (read_index rb) (write_index rb) (buffer rb) @ xs" .
  have lo: "seg 0 (length ys) (blit ?b 0 ys) = ys"
    using seg_blit_exact [of 0 ys ?b] d len lys by simp
  show ?thesis using d len lxs lys same hi lo rb'
    by (auto simp: rb_wf_iff contents_def)
qed

text \<open>\<open>rt_ringbuffer_put\<close> with the length already cut to the free space.\<close>

lemma put_unfold:
  assumes wf: "rb_wf rb" and m: "m = min len (cap rb - length (contents rb))"
    and room: "room = cap rb - write_index rb"
  shows "rt_ringbuffer_put rb ptr len =
    (if cap rb = length (contents rb) then (0, rb)
     else if m < room
     then (m, rb\<lparr>buffer := blit (buffer rb) (write_index rb) (take m ptr),
                 write_index := write_index rb + m\<rparr>)
     else (m, rb\<lparr>buffer := blit (blit (buffer rb) (write_index rb) (take room ptr)) 0
                             (take (m - room) (drop room ptr)),
                 write_mirror := \<not> write_mirror rb, write_index := m - room\<rparr>))"
proof -
  note d = rb_wfD [OF wf]
  have sz: "as_u16 (int (rt_ringbuffer_space_len rb)) = cap rb - length (contents rb)"
    using d by (simp add: space_len_contents [OF wf])
  have r: "buffer_size rb - int (write_index rb) = int room" using d room by simp
  have m': "(if cap rb - length (contents rb) < len then cap rb - length (contents rb) else len) = m"
    using m by simp
  have "m \<le> cap rb" "room \<le> cap rb" using m room by simp_all
  moreover have "cap rb = length (contents rb) \<longleftrightarrow> cap rb - length (contents rb) = 0"
    using length_contents_le [OF wf] by auto
  ultimately show ?thesis using d(3,5) room
    unfolding rt_ringbuffer_put_def Let_def sz r m' by (auto simp: nat_int_diff_diff)
qed

lemma put_spec:
  assumes wf: "rb_wf rb" and l: "len \<le> length ptr" "len < 2 ^ 16"
    and put: "rt_ringbuffer_put rb ptr len = (n, rb')"
  shows "n = min len (cap rb - length (contents rb)) \<and> contents rb' = contents rb @ take n ptr \<and>
    cap rb' = cap rb \<and> rb_wf rb'"
proof -
  note d = rb_wfD [OF wf] length_contents [OF wf] length_contents_le [OF wf]
  define m where "m = min len (cap rb - length (contents rb))"
  define room where "room = cap rb - write_index rb"
  note u = put_unfold [OF wf m_def room_def, of ptr]
  have m: "m \<le> len" "m \<le> cap rb - length (contents rb)" by (simp_all add: m_def)
  consider "cap rb = length (contents rb)" | "cap rb \<noteq> length (contents rb)" "m < room"
    | "cap rb \<noteq> length (contents rb)" "room \<le> m" by linarith
  then show ?thesis
  proof cases
    case 1
    then have "m = 0" by (simp add: m_def)
    with 1 put u wf show ?thesis by (simp add: m_def)
  next
    case 2
    let ?rb = "rb\<lparr>buffer := blit (buffer rb) (write_index rb) (take m ptr),
                  write_index := write_index rb + length (take m ptr)\<rparr>"
    have lm: "length (take m ptr) = m" using m l by simp
    have "rb_wf ?rb \<and> contents ?rb = contents rb @ take m ptr \<and> cap ?rb = cap rb"
      using 2 d(5) lm m by (intro write_advance [OF wf _ _ refl]) (simp_all add: room_def)
    moreover have "n = m" "rb' = ?rb" using 2 put u lm by auto
    ultimately show ?thesis by (simp add: m_def)
  next
    case 3
    let ?xs = "take room ptr" and ?ys = "take (m - room) (drop room ptr)"
    let ?rb = "rb\<lparr>buffer := blit (blit (buffer rb) (write_index rb) ?xs) 0 ?ys,
                  write_mirror := \<not> write_mirror rb, write_index := length ?ys\<rparr>"
    have same: "read_mirror rb = write_mirror rb"
      using 3(2) d(4,5,8,9) m(2) by (auto simp: room_def split: if_splits)
    have lx: "length ?xs = room" and ly: "length ?ys = m - room" using 3 m l by simp_all
    have "length (contents rb) = write_index rb - read_index rb" using same d(9) by simp
    then have le: "m - room \<le> read_index rb"
      using m(2) d(4,5) d(7) [OF same] unfolding room_def by linarith
    have "rb_wf ?rb \<and> contents ?rb = contents rb @ ?xs @ ?ys \<and> cap ?rb = cap rb"
      using le lx ly by (intro write_wrap [OF wf same _ _ refl]) (simp_all add: room_def)
    moreover have "?xs @ ?ys = take m ptr" using 3 take_add [of room "m - room" ptr] by simp
    moreover have "n = m" "rb' = ?rb" using 3 put u ly by auto
    ultimately show ?thesis by (simp add: m_def)
  qed
qed

text \<open>\<open>rt_ringbuffer_get\<close> with the length already cut to the stored bytes.\<close>

lemma get_unfold:
  assumes wf: "rb_wf rb" and m: "m = min len (length (contents rb))"
    and room: "room = cap rb - read_index rb"
  shows "rt_ringbuffer_get rb len =
    (if contents rb = [] then ([], rb)
     else if m < room
     then (seg (read_index rb) (read_index rb + m) (buffer rb), rb\<lparr>read_index := read_index rb + m\<rparr>)
     else (seg (read_index rb) (cap rb) (buffer rb) @ seg 0 (m - room) (buffer rb),
           rb\<lparr>read_mirror := \<not> read_mirror rb, read_index := m - room\<rparr>))"
proof -
  note d = rb_wfD [OF wf] length_contents_le [OF wf]
  have r: "buffer_size rb - int (read_index rb) = int room" using d room by simp
  have "as_u16 (int (length (contents rb))) = length (contents rb)" using d by simp
  then have m': "(if length (contents rb) < len then as_u16 (int (length (contents rb))) else len) = m"
    using m by simp
  have "m \<le> cap rb" "room \<le> cap rb" "read_index rb + room = cap rb" using m room d by simp_all
  then show ?thesis using d(3) room
    unfolding rt_ringbuffer_get_def Let_def data_len_contents [OF wf] r m'
    by (auto simp: nat_int_diff_diff)
qed

lemma get_spec:
  assumes wf: "rb_wf rb" and get: "rt_ringbuffer_get rb len = (ys, rb')"
  shows "ys = take len (contents rb) \<and> contents rb' = drop len (contents rb) \<and>
    cap rb' = cap rb \<and> rb_wf rb'"
proof -
  note d = rb_wfD [OF wf] length_contents [OF wf]
  define m where "m = min len (length (contents rb))"
  define room where "room = cap rb - read_index rb"
  note u = get_unfold [OF wf m_def room_def]
  have tk: "take len (contents rb) = take m (contents rb)"
    and dr: "drop len (contents rb) = drop m (contents rb)" by (simp_all add: m_def min_def)
  have m: "m \<le> length (contents rb)" by (simp add: m_def)
  consider "contents rb = []" | "contents rb \<noteq> []" "m < room" | "contents rb \<noteq> []" "room \<le> m"
    by linarith
  then show ?thesis
  proof cases
    case 1
    with get u wf show ?thesis by simp
  next
    case 2
    let ?rb = "rb\<lparr>read_index := read_index rb + m\<rparr>"
    have lt: "read_index rb + m < cap rb" using 2 by (simp add: room_def)
    have "rb_wf ?rb \<and> contents ?rb = drop m (contents rb) \<and> cap ?rb = cap rb \<and>
      take m (contents rb) = seg (read_index rb) (read_index rb + m) (buffer rb)"
    proof (cases "read_mirror rb = write_mirror rb")
      case True
      with d m lt show ?thesis
        by (simp add: rb_wf_iff contents_def drop_seg take_seg)
    next
      case False
      have "length (seg (read_index rb) (cap rb) (buffer rb)) = cap rb - read_index rb"
        using d by simp
      with False d m lt show ?thesis
        by (simp add: rb_wf_iff contents_def drop_seg take_seg)
    qed
    moreover have "ys = seg (read_index rb) (read_index rb + m) (buffer rb)" "rb' = ?rb"
      using 2 get u by auto
    ultimately show ?thesis using tk dr by simp
  next
    case 3
    let ?rb = "rb\<lparr>read_mirror := \<not> read_mirror rb, read_index := m - room\<rparr>"
    have diff: "read_mirror rb \<noteq> write_mirror rb"
      using 3 d m by (auto simp: room_def split: if_splits)
    have le: "m - room \<le> write_index rb" "m - room < cap rb"
      using d diff m by (simp_all add: room_def)
    have lseg: "length (seg (read_index rb) (cap rb) (buffer rb)) = room"
      using d by (simp add: room_def)
    have "rb_wf ?rb \<and> contents ?rb = drop m (contents rb) \<and> cap ?rb = cap rb"
      using d diff le lseg 3 by (simp add: rb_wf_iff contents_def drop_seg)
    moreover have "take m (contents rb) =
        seg (read_index rb) (cap rb) (buffer rb) @ seg 0 (m - room) (buffer rb)"
      using diff lseg 3 le by (simp add: contents_def take_seg)
    moreover have "ys = seg (read_index rb) (cap rb) (buffer rb) @ seg 0 (m - room) (buffer rb)"
      "rb' = ?rb" using 3 get u by auto
    ultimately show ?thesis using tk dr by simp
  qed
qed

text \<open>The byte-wise operations are the block operations on one byte.\<close>

lemma putchar_put:
  assumes wf: "rb_wf rb"
  shows "rt_ringbuffer_putchar rb ch = rt_ringbuffer_put rb [ch] 1"
proof -
  note d = rb_wfD(1-6) [OF wf] length_contents_le [OF wf]
  have sp: "rt_ringbuffer_space_len rb = 0 \<longleftrightarrow> cap rb = length (contents rb)"
    using space_len_contents [OF wf] d by auto
  show ?thesis
  proof (cases "cap rb = length (contents rb)")
    case True
    then show ?thesis using sp by (simp add: rt_ringbuffer_putchar_def put_unfold [OF wf refl refl])
  next
    case False
    have b: "blit (buffer rb) (write_index rb) [ch] = (buffer rb)[write_index rb := ch]"
      using d by (simp add: blit_def upd_conv_take_nth_drop)
    have e: "blit xs 0 [] = xs" for xs :: "u8 list" by (simp add: blit_def)
    have m: "(1::nat) = min 1 (cap rb - length (contents rb))" using False d by simp
    note p = put_unfold [OF wf m refl, of "[ch]", unfolded One_nat_def]
    show ?thesis
    proof (cases "Suc (write_index rb) = cap rb")
      case True
      then have "cap rb - write_index rb = 1" by simp
      with True False sp d b e show ?thesis
        by (simp add: rt_ringbuffer_putchar_def p Let_def)
    next
      case ne: False
      then have "1 < cap rb - write_index rb" using d by simp
      moreover have "nat (int (write_index rb) + 1) = Suc (write_index rb)" by simp
      moreover have "int (write_index rb) \<noteq> int (cap rb) - 1" using ne by auto
      ultimately show ?thesis using ne False sp d b
        by (simp add: rt_ringbuffer_putchar_def p Let_def)
    qed
  qed
qed

lemma getchar_get:
  assumes wf: "rb_wf rb"
  shows "rt_ringbuffer_getchar rb =
    (let (ys, rb') = rt_ringbuffer_get rb 1 in (if ys = [] then None else Some (hd ys), rb'))"
proof -
  note d = rb_wfD(1-6) [OF wf]
  show ?thesis
  proof (cases "contents rb = []")
    case True
    then show ?thesis
      by (simp add: rt_ringbuffer_getchar_def data_len_contents [OF wf] get_unfold [OF wf refl refl])
  next
    case False
    then have m: "(1::nat) = min 1 (length (contents rb))" by (cases "contents rb") auto
    note g = get_unfold [OF wf m refl, unfolded One_nat_def]
    have s1: "seg (read_index rb) (Suc (read_index rb)) (buffer rb) = [buffer rb ! read_index rb]"
      using d seg_Cons [of "read_index rb" "Suc (read_index rb)" "buffer rb"] by simp
    show ?thesis
    proof (cases "Suc (read_index rb) = cap rb")
      case True
      then have "cap rb - read_index rb = 1" by simp
      with True False d s1 show ?thesis
        by (simp add: rt_ringbuffer_getchar_def data_len_contents [OF wf] g)
    next
      case ne: False
      then have "1 < cap rb - read_index rb" using d by simp
      moreover have "nat (int (read_index rb) + 1) = Suc (read_index rb)" by simp
      moreover have "int (read_index rb) \<noteq> int (cap rb) - 1" using ne by auto
      ultimately show ?thesis using False d s1
        by (simp add: rt_ringbuffer_getchar_def data_len_contents [OF wf] g)
    qed
  qed
qed

section \<open>The overwriting operations\<close>

text \<open>The bytes \<open>rt_ringbuffer_put_force\<close> really stores: the last ones, at most a buffer full.\<close>

definition force_data :: "rt_ringbuffer \<Rightarrow> u8 list \<Rightarrow> nat \<Rightarrow> u8 list" where
  "force_data rb ptr len = drop (len - cap rb) (take len ptr)"

lemma put_force_unfold:
  assumes wf: "rb_wf rb" and l: "len \<le> length ptr" and xs: "xs = force_data rb ptr len"
    and room: "room = cap rb - write_index rb"
  shows "rt_ringbuffer_put_force rb ptr len =
    (let over = cap rb - length (contents rb) < length xs in
     if length xs < room
     then let rb1 = rb\<lparr>buffer := blit (buffer rb) (write_index rb) xs,
                       write_index := write_index rb + length xs\<rparr>
          in (length xs, if over then rb1\<lparr>read_index := write_index rb + length xs\<rparr> else rb1)
     else let rb1 = rb\<lparr>buffer := blit (blit (buffer rb) (write_index rb) (take room xs)) 0 (drop room xs),
                       write_mirror := \<not> write_mirror rb, write_index := length xs - room\<rparr>
          in (length xs, if over then rb1\<lparr>read_mirror := \<not> read_mirror rb,
                                          read_index := length xs - room\<rparr> else rb1))"
proof -
  note d = rb_wfD(1-6) [OF wf] length_contents_le [OF wf]
  have sz: "as_u16 (int (rt_ringbuffer_space_len rb)) = cap rb - length (contents rb)"
    using d by (simp add: space_len_contents [OF wf])
  have r: "buffer_size rb - int (write_index rb) = int room" using d room by simp
  have lx: "length xs = min len (cap rb)" using xs l by (simp add: force_data_def)
  obtain ptr' where ptr': "(if int len > buffer_size rb
       then (drop (nat (int len - buffer_size rb)) ptr, as_u16 (buffer_size rb)) else (ptr, len)) =
       (ptr', length xs)" and tk: "take (length xs) ptr' = xs"
  proof (cases "int len > buffer_size rb")
    case True
    then have "xs = take (cap rb) (drop (len - cap rb) ptr)" "length xs = cap rb"
      using d lx xs by (simp_all add: force_data_def drop_take)
    with True d that [of "drop (nat (int len - buffer_size rb)) ptr"] show ?thesis
      by (simp add: nat_int_diff_diff)
  next
    case False
    then have "xs = take len ptr" "length xs = len" using d lx xs by (simp_all add: force_data_def)
    with False that [of ptr] show ?thesis by simp
  qed
  have bounds: "length xs \<le> cap rb" "room \<le> cap rb" using lx room by simp_all
  have t1: "room \<le> length xs \<Longrightarrow> take room ptr' = take room xs"
    using arg_cong [OF tk, of "take room"] by (simp add: min_def)
  have t2: "room \<le> length xs \<Longrightarrow> take (length xs - room) (drop room ptr') = drop room xs"
    using arg_cong [OF tk, of "drop room"] by (simp add: drop_take)
  show ?thesis
  proof (cases "length xs < room")
    case True
    with bounds d(3,5) room tk show ?thesis
      unfolding rt_ringbuffer_put_force_def Let_def sz ptr' r by (simp add: nat_int_diff_diff)
  next
    case False
    with bounds d(3,5) room t1 t2 show ?thesis
      unfolding rt_ringbuffer_put_force_def Let_def sz ptr' r by (simp add: nat_int_diff_diff)
  qed
qed

lemma length_force_data: "len \<le> length ptr \<Longrightarrow> length (force_data rb ptr len) = min len (cap rb)"
  by (simp add: force_data_def)

text \<open>Overwriting while the write side is already one mirror ahead keeps the newest bytes.\<close>

lemma overwrite_advance:
  assumes wf: "rb_wf rb" and diff: "read_mirror rb \<noteq> write_mirror rb"
    and room: "write_index rb + length xs < cap rb"
    and over: "cap rb - length (contents rb) < length xs"
    and rb': "rb' = rb\<lparr>buffer := blit (buffer rb) (write_index rb) xs,
      write_index := write_index rb + length xs, read_index := write_index rb + length xs\<rparr>"
  shows "rb_wf rb' \<and> cap rb' = cap rb \<and>
    contents rb' = drop (length (contents rb) + length xs - cap rb) (contents rb @ xs)"
proof -
  note d = rb_wfD [OF wf] length_contents [OF wf]
  let ?w = "write_index rb + length xs"
  have k: "length (contents rb) + length xs - cap rb = ?w - read_index rb" "read_index rb < ?w"
    using d over diff by simp_all
  have s1: "seg ?w (cap rb) (blit (buffer rb) (write_index rb) xs) = seg ?w (cap rb) (buffer rb)"
    using d room by (intro seg_blit_after) auto
  have s2: "seg 0 ?w (blit (buffer rb) (write_index rb) xs) = seg 0 (write_index rb) (buffer rb) @ xs"
    using d room by (intro seg_blit_extend) auto
  have "drop (?w - read_index rb) (contents rb @ xs) =
      seg ?w (cap rb) (buffer rb) @ seg 0 (write_index rb) (buffer rb) @ xs"
    using diff d k room by (simp add: contents_def drop_seg)
  with k s1 s2 d diff room rb' show ?thesis by (simp add: rb_wf_iff contents_def)
qed

lemma overwrite_wrap:
  assumes wf: "rb_wf rb" and diff: "read_mirror rb \<noteq> write_mirror rb"
    and room: "room = cap rb - write_index rb" "room \<le> length xs" "length xs \<le> cap rb"
    and rb': "rb' = rb\<lparr>buffer := blit (blit (buffer rb) (write_index rb) (take room xs)) 0 (drop room xs),
      write_mirror := \<not> write_mirror rb, write_index := length xs - room,
      read_mirror := \<not> read_mirror rb, read_index := length xs - room\<rparr>"
  shows "rb_wf rb' \<and> cap rb' = cap rb \<and>
    contents rb' = drop (length (contents rb) + length xs - cap rb) (contents rb @ xs)"
proof -
  note d = rb_wfD [OF wf] length_contents [OF wf]
  let ?w = "length xs - room" and ?b = "blit (buffer rb) (write_index rb) (take room xs)"
  have w: "?w \<le> write_index rb" "?w < cap rb" using d(5) room by linarith+
  have lb: "length ?b = length (buffer rb)" using d room by simp
  have "seg ?w (cap rb) (blit ?b 0 (drop room xs)) = seg ?w (cap rb) ?b"
    using d w lb by (intro seg_blit_after) auto
  also have "\<dots> = seg ?w (write_index rb) (buffer rb) @ take room xs"
    using d w room by (intro seg_blit_extend) auto
  finally have s1: "seg ?w (cap rb) (blit ?b 0 (drop room xs)) =
    seg ?w (write_index rb) (buffer rb) @ take room xs" .
  have s2: "seg 0 ?w (blit ?b 0 (drop room xs)) = drop room xs"
    using seg_blit_exact [of 0 "drop room xs" ?b] d w lb by simp
  have k: "length (contents rb) + length xs - cap rb = (cap rb - read_index rb) + ?w"
    using d diff room by simp
  have "drop ((cap rb - read_index rb) + ?w) (contents rb @ xs) = seg ?w (write_index rb) (buffer rb) @ xs"
    using diff d w by (simp add: contents_def drop_seg)
  with k s1 s2 d diff w rb' lb show ?thesis by (simp add: rb_wf_iff contents_def)
qed

text \<open>Forced put: if the write side is already in the other mirror, or the data fits, then
  \<open>rt_ringbuffer_put_force\<close> stores the last bytes of the block (at most a buffer full) behind the
  old contents and drops just as many of the oldest bytes as do not fit any more.\<close>

theorem rt_ringbuffer_put_force_keeps_newest:
  assumes wf: "rb_wf rb" and l: "len \<le> length ptr"
    and ok: "read_mirror rb \<noteq> write_mirror rb \<or> min len (cap rb) \<le> cap rb - length (contents rb)"
    and put: "rt_ringbuffer_put_force rb ptr len = (n, rb')"
  shows "n = min len (cap rb) \<and> rb_wf rb' \<and> cap rb' = cap rb \<and>
    contents rb' = drop (length (contents rb) + n - cap rb) (contents rb @ force_data rb ptr len)"
proof -
  note d = rb_wfD [OF wf] length_contents [OF wf] length_contents_le [OF wf]
  define xs where "xs = force_data rb ptr len"
  define room where "room = cap rb - write_index rb"
  have lx: "length xs = min len (cap rb)" using l by (simp add: xs_def length_force_data)
  note u = put_force_unfold [OF wf l xs_def room_def]
  consider (over_in) "cap rb - length (contents rb) < length xs" "length xs < room"
    | (over_wrap) "cap rb - length (contents rb) < length xs" "room \<le> length xs"
    | (fit_in) "length xs \<le> cap rb - length (contents rb)" "length xs < room"
    | (fit_wrap) "length xs \<le> cap rb - length (contents rb)" "room \<le> length xs" by linarith
  then have "n = length xs \<and> rb_wf rb' \<and> cap rb' = cap rb \<and>
    contents rb' = drop (length (contents rb) + length xs - cap rb) (contents rb @ xs)"
  proof cases
    case over_in
    have diff: "read_mirror rb \<noteq> write_mirror rb" using over_in ok lx by auto
    have w: "write_index rb + length xs < cap rb" using over_in by (simp add: room_def)
    from over_in put u show ?thesis using overwrite_advance [OF wf diff w over_in(1) refl] by auto
  next
    case over_wrap
    have diff: "read_mirror rb \<noteq> write_mirror rb" using over_wrap ok lx by auto
    have le: "length xs \<le> cap rb" using lx by simp
    from over_wrap put u show ?thesis using overwrite_wrap [OF wf diff room_def over_wrap(2) le refl]
      by (auto simp: Let_def)
  next
    case fit_in
    have w: "write_index rb + length xs < cap rb" using fit_in by (simp add: room_def)
    from fit_in put u d(10) show ?thesis using write_advance [OF wf w fit_in(1) refl] by auto
  next
    case fit_wrap
    have same: "read_mirror rb = write_mirror rb"
      using fit_wrap d(4,5,8,9) by (auto simp: room_def split: if_splits)
    have "length (contents rb) = write_index rb - read_index rb" using same d(9) by simp
    then have "length (drop room xs) \<le> read_index rb"
      using fit_wrap(1) d(4,5) d(7) [OF same] unfolding room_def length_drop by linarith
    moreover have "length (take room xs) = cap rb - write_index rb"
      using fit_wrap by (simp add: room_def)
    ultimately show ?thesis using fit_wrap put u d(10) write_wrap [OF wf same _ _ refl, of "take room xs" "drop room xs"]
      by auto
  qed
  then show ?thesis using lx by (simp add: xs_def)
qed

text \<open>Forced put of one byte: the byte is always stored; a full buffer gives up exactly its
  oldest byte, any other buffer gives up nothing.\<close>

theorem rt_ringbuffer_putchar_force_window:
  assumes wf: "rb_wf rb" and put: "rt_ringbuffer_putchar_force rb ch = (n, rb')"
  shows "n = 1 \<and> rb_wf rb' \<and> cap rb' = cap rb \<and>
    contents rb' = (if length (contents rb) = cap rb then tl (contents rb) else contents rb) @ [ch]"
proof (cases "length (contents rb) = cap rb")
  case False
  note d = rb_wfD [OF wf]
  have "rt_ringbuffer_status rb \<noteq> RT_RINGBUFFER_FULL"
    using False by (simp add: status_contents [OF wf])
  moreover have "rt_ringbuffer_space_len rb \<noteq> 0"
    using False space_len_contents [OF wf] length_contents_le [OF wf] by simp
  ultimately have "rt_ringbuffer_putchar rb ch = (n, rb')"
    using put by (auto simp: rt_ringbuffer_putchar_force_def rt_ringbuffer_putchar_def Let_def
        split: if_splits)
  then have "rt_ringbuffer_put rb [ch] 1 = (n, rb')" by (simp add: putchar_put [OF wf])
  from put_spec [OF wf _ _ this] False length_contents_le [OF wf] show ?thesis
    by (auto simp: min_def split: if_splits)
next
  case True
  note d = rb_wfD [OF wf] length_contents [OF wf]
  have full: "rt_ringbuffer_status rb = RT_RINGBUFFER_FULL"
    using True d by (auto simp: status_contents [OF wf])
  have e: "read_index rb = write_index rb" "read_mirror rb \<noteq> write_mirror rb"
    using True d by (auto split: if_splits)
  let ?w = "write_index rb" and ?b = "(buffer rb)[write_index rb := ch]"
  have old: "tl (contents rb) = seg (Suc ?w) (cap rb) (buffer rb) @ seg 0 ?w (buffer rb)"
    using e d seg_Cons [of ?w "cap rb" "buffer rb"] by (simp add: contents_def)
  have new: "seg (Suc ?w) (cap rb) ?b = seg (Suc ?w) (cap rb) (buffer rb)"
    "seg 0 (Suc ?w) ?b = seg 0 ?w (buffer rb) @ [ch]"
    using d by (simp_all add: seg_update_other seg_snoc_update)
  show ?thesis
  proof (cases "Suc ?w = cap rb")
    case last: True
    with put full d e old new True show ?thesis
      by (auto simp: rt_ringbuffer_putchar_force_def Let_def rb_wf_iff contents_def)
  next
    case False
    have "int ?w \<noteq> int (cap rb) - 1" "nat (int ?w + 1) = Suc ?w" using False d by auto
    with put full d e old new True False show ?thesis
      by (auto simp: rt_ringbuffer_putchar_force_def Let_def rb_wf_iff contents_def)
  qed
qed

theorem rt_ringbuffer_putchar_force_window_witness:
  "\<exists>rb'. rt_ringbuffer_putchar_force
      (rt_ringbuffer_init [1, 2, 3, 4] 4\<lparr>write_mirror := True\<rparr>) 9 = (1, rb') \<and> contents rb' = [2, 3, 4, 9]"
proof -
  let ?rb = "rt_ringbuffer_init [1, 2, 3, 4] 4\<lparr>write_mirror := True\<rparr>"
  have wf: "rb_wf ?rb" "contents ?rb = [1, 2, 3, 4]"
    by (simp_all add: rt_ringbuffer_init_def RT_ALIGN_DOWN4_def rb_wf_def cap_def contents_def seg_def)
  obtain n rb' where p: "rt_ringbuffer_putchar_force ?rb 9 = (n, rb')" by fastforce
  have "cap ?rb = 4" by (simp add: rt_ringbuffer_init_def RT_ALIGN_DOWN4_def cap_def)
  with rt_ringbuffer_putchar_force_window [OF wf(1) p] wf p show ?thesis by auto
qed

lemma init_wf:
  assumes "4 \<le> sz" "sz < 2 ^ 15" "nat sz \<le> length pool"
  shows "rb_wf (rt_ringbuffer_init pool sz) \<and> contents (rt_ringbuffer_init pool sz) = [] \<and>
    int (cap (rt_ringbuffer_init pool sz)) = sz - sz mod 4"
proof -
  have "0 < sz - sz mod 4" "sz - sz mod 4 \<le> sz" using assms by presburger+
  moreover from this have "nat (sz - sz mod 4) \<le> length pool" "sz - sz mod 4 < 2 ^ 15"
    using assms by linarith+
  ultimately show ?thesis
    by (simp add: rt_ringbuffer_init_def rb_wf_def cap_def contents_def RT_ALIGN_DOWN4_def)
qed

lemma reset_wf:
  assumes "rb_wf rb"
  shows "rb_wf (rt_ringbuffer_reset rb) \<and> contents (rt_ringbuffer_reset rb) = []"
  using rb_wfD(1-3,6) [OF assms] by (simp add: rt_ringbuffer_reset_def rb_wf_iff contents_def)

section \<open>The ring buffer as a bounded queue\<close>

interpretation rb: bounded_fifo rb_wf contents cap "\<lambda>n. n < 2 ^ 16"
  "\<lambda>rb xs. rt_ringbuffer_put rb xs (length xs)" rt_ringbuffer_get
proof
  fix q q' xs n
  assume "rb_wf q" "length xs < 2 ^ 16" "rt_ringbuffer_put q xs (length xs) = (n, q')"
  then show "n = min (length xs) (cap q - length (contents q)) \<and>
      contents q' = contents q @ take n xs \<and> cap q' = cap q \<and> rb_wf q'"
    by (intro put_spec) simp_all
next
  fix q q' ys n
  assume "rb_wf q" "rt_ringbuffer_get q n = (ys, q')"
  then show "ys = take n (contents q) \<and> contents q' = drop n (contents q) \<and> cap q' = cap q \<and> rb_wf q'"
    by (rule get_spec)
next
  fix q
  assume "rb_wf q"
  then show "length (contents q) \<le> cap q" by (rule length_contents_le)
qed

section \<open>Properties\<close>

text \<open>C21. Stream integrity: over any sequence of \<open>rt_ringbuffer_put\<close> and \<open>rt_ringbuffer_get\<close> calls
  (each with a 16-bit length) the bytes already stored followed by the bytes the puts accepted are
  exactly the bytes the gets delivered followed by the bytes still stored: nothing is lost,
  duplicated or reordered, and the structure stays well-formed with its capacity.\<close>

theorem rt_ringbuffer_stream_integrity:
  assumes "rb_wf rb" "list_all (ok_op (\<lambda>n. n < 2 ^ 16)) ops"
    and "fifo_run (\<lambda>rb xs. rt_ringbuffer_put rb xs (length xs)) rt_ringbuffer_get rb ops = (rb', ins, outs)"
  shows "rb_wf rb' \<and> cap rb' = cap rb \<and> contents rb @ ins = outs @ contents rb'"
  using rb.run_stream [OF assms(1) assms(2) assms(3)] by simp

theorem rt_ringbuffer_stream_integrity_witness:
  "\<exists>rb'. fifo_run (\<lambda>rb xs. rt_ringbuffer_put rb xs (length xs)) rt_ringbuffer_get
      (rt_ringbuffer_init [0, 0, 0, 0] 4) [Put [1, 2, 3], Get 2, Put [4, 5, 6, 7], Get 1] =
      (rb', [1, 2, 3, 4, 5, 6], [1, 2, 3]) \<and> contents rb' = [4, 5, 6]"
proof -
  let ?put = "\<lambda>rb xs. rt_ringbuffer_put rb xs (length xs)"
  let ?ops = "[Put [1, 2, 3], Get 2, Put [4, 5, 6, 7], Get 1] :: u8 fifo_op list"
  let ?rb = "rt_ringbuffer_init [0, 0, 0, 0] 4"
  obtain rb' where r: "fifo_run ?put rt_ringbuffer_get ?rb ?ops = (rb', [1, 2, 3, 4, 5, 6], [1, 2, 3])"
    by (simp add: rt_ringbuffer_init_def rt_ringbuffer_put_def rt_ringbuffer_get_def Let_def
        rt_ringbuffer_space_len_def rt_ringbuffer_data_len_def rt_ringbuffer_status_def
        RT_ALIGN_DOWN4_def blit_def seg_def)
  have "rb_wf ?rb" "contents ?rb = []" using init_wf [of 4 "[0, 0, 0, 0]"] by simp_all
  with rt_ringbuffer_stream_integrity [OF _ _ r] have "contents rb' = [4, 5, 6]" by simp
  with r show ?thesis by blast
qed

theorem rt_ringbuffer_put_force_keeps_newest_witness:
  "\<exists>rb'. rt_ringbuffer_put_force (rt_ringbuffer_init [1, 2, 3, 4] 4\<lparr>write_mirror := True\<rparr>)
      [5, 6, 7] 3 = (3, rb') \<and> contents rb' = [4, 5, 6, 7]"
proof -
  let ?rb = "rt_ringbuffer_init [1, 2, 3, 4] 4\<lparr>write_mirror := True\<rparr>"
  have wf: "rb_wf ?rb" "contents ?rb = [1, 2, 3, 4]" "cap ?rb = 4" "read_mirror ?rb \<noteq> write_mirror ?rb"
    by (simp_all add: rt_ringbuffer_init_def RT_ALIGN_DOWN4_def rb_wf_def cap_def contents_def seg_def)
  obtain n rb' where p: "rt_ringbuffer_put_force ?rb [5, 6, 7] 3 = (n, rb')" by fastforce
  with rt_ringbuffer_put_force_keeps_newest [OF wf(1) _ _ p] wf show ?thesis
    by (auto simp: force_data_def)
qed

text \<open>C31. Forced put of more than the free space while both indices are in the same mirror: the
  write crosses the end of the buffer, both mirror bits are flipped, and the buffer reports itself
  empty. All stored and all new bytes are lost, where the comment of the function promises that
  only old data is discarded.\<close>

theorem rt_ringbuffer_put_force_loses_all:
  assumes wf: "rb_wf rb" and l: "len \<le> length ptr"
    and same: "read_mirror rb = write_mirror rb"
    and over: "cap rb - length (contents rb) < min len (cap rb)"
    and put: "rt_ringbuffer_put_force rb ptr len = (n, rb')"
  shows "n = min len (cap rb) \<and> contents rb' = [] \<and> rt_ringbuffer_data_len rb' = 0"
proof -
  note d = rb_wfD(1-6) [OF wf] rb_wfD(7) [OF wf same] length_contents [OF wf]
  define xs where "xs = force_data rb ptr len"
  define room where "room = cap rb - write_index rb"
  have lx: "length xs = min len (cap rb)" using l by (simp add: xs_def length_force_data)
  have "length (contents rb) = write_index rb - read_index rb" using d(8) same by simp
  then have "room \<le> length xs" using over d(4,5,7) lx unfolding room_def by linarith
  moreover have "cap rb - length (contents rb) < length xs" using over lx by simp
  ultimately have "rt_ringbuffer_put_force rb ptr len =
      (length xs, rb\<lparr>buffer := blit (blit (buffer rb) (write_index rb) (take room xs)) 0 (drop room xs),
         write_mirror := \<not> write_mirror rb, write_index := length xs - room,
         read_mirror := \<not> read_mirror rb, read_index := length xs - room\<rparr>)" (is "_ = (_, ?rb)")
    by (simp add: put_force_unfold [OF wf l xs_def room_def] Let_def)
  with put have "n = length xs" "rb' = ?rb" by auto
  then show ?thesis using lx same
    by (simp add: contents_def rt_ringbuffer_data_len_def rt_ringbuffer_status_def)
qed

theorem rt_ringbuffer_put_force_loses_all_witness:
  "\<exists>rb'. rt_ringbuffer_put_force (rt_ringbuffer_init [1, 2, 3, 0] 4\<lparr>write_index := 3\<rparr>) [4, 5] 2 = (2, rb') \<and>
     rt_ringbuffer_data_len (rt_ringbuffer_init [1, 2, 3, 0] 4\<lparr>write_index := 3\<rparr>) = 3 \<and>
     rt_ringbuffer_data_len rb' = 0"
proof -
  let ?rb = "rt_ringbuffer_init [1, 2, 3, 0] 4\<lparr>write_index := 3\<rparr>"
  have wf: "rb_wf ?rb" "contents ?rb = [1, 2, 3]" "cap ?rb = 4" "read_mirror ?rb = write_mirror ?rb"
    by (simp_all add: rt_ringbuffer_init_def RT_ALIGN_DOWN4_def rb_wf_def cap_def contents_def seg_def)
  obtain n rb' where p: "rt_ringbuffer_put_force ?rb [4, 5] 2 = (n, rb')" by fastforce
  with rt_ringbuffer_put_force_loses_all [OF wf(1) _ wf(4) _ p] wf data_len_contents [OF wf(1)]
  show ?thesis by auto
qed

text \<open>A buffer made by \<open>rt_ringbuffer_init\<close> over a pool of at least the given size hands any block
  that fits back unchanged, and is empty again.\<close>

theorem rt_ringbuffer_init_put_get_roundtrip:
  assumes "4 \<le> sz" "sz < 2 ^ 15" "nat sz \<le> length pool" "int (length xs) \<le> sz - sz mod 4"
  shows "\<exists>rb1 rb2. rt_ringbuffer_put (rt_ringbuffer_init pool sz) xs (length xs) = (length xs, rb1) \<and>
    rt_ringbuffer_get rb1 (length xs) = (xs, rb2) \<and> contents rb2 = []"
proof -
  have "rb_wf (rt_ringbuffer_init pool sz)" "contents (rt_ringbuffer_init pool sz) = []"
    "int (cap (rt_ringbuffer_init pool sz)) = sz - sz mod 4" using init_wf [OF assms(1-3)] by simp_all
  moreover have "length xs < 2 ^ 16"
  proof -
    have "0 \<le> sz mod 4" by simp
    then have "int (length xs) < 2 ^ 15" using assms(2,4) by linarith
    then show ?thesis by simp
  qed
  ultimately show ?thesis using assms(4) by (intro rb.put_get_roundtrip) linarith+
qed

theorem rt_ringbuffer_init_put_get_roundtrip_witness:
  "\<exists>rb1 rb2. rt_ringbuffer_put (rt_ringbuffer_init (replicate 10 0) 10) [1, 2, 3, 4, 5, 6, 7, 8] 8 = (8, rb1) \<and>
    rt_ringbuffer_get rb1 8 = ([1, 2, 3, 4, 5, 6, 7, 8], rb2) \<and> contents rb2 = []"
  using rt_ringbuffer_init_put_get_roundtrip [of 10 "replicate 10 0" "[1, 2, 3, 4, 5, 6, 7, 8]"]
  by (simp add: eval_nat_numeral)

end
