(* ===== verification/Rt_List.thy ===== *)
theory Rt_List
  imports Prelude
begin

text \<open>
  The intrusive doubly linked lists of \<open>include/rtservice.h\<close>, on an explicit heap: a node is an
  address, \<open>next\<close> and \<open>prev\<close> are the two pointer fields. A list head \<open>l\<close> and its nodes form a ring;
  an unlinked node points to itself. \<open>represents\<close> relates a heap to the family of lists its heads
  stand for, and the operations are shown to act on that family as the list operations the rest
  of the kernel model uses (append at a head, insert in front of a node, remove wherever linked).
\<close>

section \<open>Heap and operations\<close>

record list_heap =
  nxt :: "nat \<Rightarrow> nat"
  prv :: "nat \<Rightarrow> nat"

definition rt_list_init :: "nat \<Rightarrow> list_heap \<Rightarrow> list_heap" where
  "rt_list_init l h = h\<lparr>nxt := (nxt h)(l := l), prv := (prv h)(l := l)\<rparr>"

definition rt_list_insert_after :: "nat \<Rightarrow> nat \<Rightarrow> list_heap \<Rightarrow> list_heap" where
  "rt_list_insert_after l n h =
     (let h = h\<lparr>prv := (prv h)(nxt h l := n)\<rparr>;
          h = h\<lparr>nxt := (nxt h)(n := nxt h l)\<rparr>;
          h = h\<lparr>nxt := (nxt h)(l := n)\<rparr>
      in h\<lparr>prv := (prv h)(n := l)\<rparr>)"

definition rt_list_insert_before :: "nat \<Rightarrow> nat \<Rightarrow> list_heap \<Rightarrow> list_heap" where
  "rt_list_insert_before l n h =
     (let h = h\<lparr>nxt := (nxt h)(prv h l := n)\<rparr>;
          h = h\<lparr>prv := (prv h)(n := prv h l)\<rparr>;
          h = h\<lparr>prv := (prv h)(l := n)\<rparr>
      in h\<lparr>nxt := (nxt h)(n := l)\<rparr>)"

definition rt_list_remove :: "nat \<Rightarrow> list_heap \<Rightarrow> list_heap" where
  "rt_list_remove n h =
     (let h = h\<lparr>prv := (prv h)(nxt h n := prv h n)\<rparr>;
          h = h\<lparr>nxt := (nxt h)(prv h n := nxt h n)\<rparr>
      in h\<lparr>nxt := (nxt h)(n := n), prv := (prv h)(n := n)\<rparr>)"

definition rt_list_isempty :: "nat \<Rightarrow> list_heap \<Rightarrow> bool" where
  "rt_list_isempty l h \<longleftrightarrow> nxt h l = l"

text \<open>The loop of \<open>rt_list_len\<close>; \<open>None\<close> is a walk that never comes back to the head.\<close>

partial_function (option) rt_list_len_loop :: "list_heap \<Rightarrow> nat \<Rightarrow> nat \<Rightarrow> nat \<Rightarrow> nat option" where
  "rt_list_len_loop h l p len =
     (if nxt h p \<noteq> l then rt_list_len_loop h l (nxt h p) (Suc len) else Some len)"

definition rt_list_len :: "nat \<Rightarrow> list_heap \<Rightarrow> nat option" where
  "rt_list_len l h = rt_list_len_loop h l l 0"

section \<open>Rings\<close>

fun linked :: "list_heap \<Rightarrow> nat list \<Rightarrow> bool" where
  "linked h (a # b # xs) \<longleftrightarrow> nxt h a = b \<and> prv h b = a \<and> linked h (b # xs)"
| "linked h _ \<longleftrightarrow> True"

definition ring :: "list_heap \<Rightarrow> nat \<Rightarrow> nat list \<Rightarrow> bool" where
  "ring h l xs \<longleftrightarrow> linked h (l # xs @ [l]) \<and> distinct (l # xs)"

text \<open>
  The heads \<open>H\<close> carry the lists \<open>f\<close>: every head and its nodes form a ring, a node is in one ring
  only, no node is a head, and every other address is an unlinked node.
\<close>

definition represents :: "nat set \<Rightarrow> list_heap \<Rightarrow> (nat \<Rightarrow> nat list) \<Rightarrow> bool" where
  "represents H h f \<longleftrightarrow>
     (\<forall>l \<in> H. ring h l (f l)) \<and> (\<forall>l. l \<notin> H \<longrightarrow> f l = []) \<and>
     disjoint_lists f \<and> (\<forall>l. set (f l) \<inter> H = {}) \<and>
     (\<forall>n. n \<notin> H \<and> (\<forall>l. n \<notin> set (f l)) \<longrightarrow> nxt h n = n \<and> prv h n = n)"

lemma linked_append: "linked h (xs @ a # ys) \<longleftrightarrow> linked h (xs @ [a]) \<and> linked h (a # ys)"
proof (induction xs)
  case Nil
  then show ?case by simp
next
  case (Cons x xs)
  then show ?case by (cases xs) auto
qed

lemma linked_cong:
  "(\<forall>a \<in> set (butlast xs). nxt h' a = nxt h a) \<Longrightarrow> (\<forall>b \<in> set (tl xs). prv h' b = prv h b) \<Longrightarrow>
   linked h' xs = linked h xs"
  by (induction h xs rule: linked.induct) auto

lemma linked_last: "linked h (xs @ [p, s] @ ys) \<Longrightarrow> nxt h p = s \<and> prv h s = p"
  using linked_append [of h xs p "s # ys"] by simp

text \<open>Insertion of \<open>n\<close> between \<open>p\<close> and its successor \<open>s\<close>, and removal of \<open>n\<close> from between them.\<close>

lemma linked_insert:
  assumes "linked h (us @ [p, s] @ vs)" "n \<notin> set (us @ [p, s] @ vs)"
    "p \<notin> set us" "p \<notin> set (butlast (s # vs))" "s \<notin> set (tl (us @ [p]))" "s \<notin> set vs"
    "nxt h' = (nxt h)(p := n, n := s)" "prv h' = (prv h)(s := n, n := p)"
  shows "linked h' (us @ [p, n, s] @ vs)"
proof -
  have ntl: "n \<notin> set (tl (us @ [p]))" using assms(2) by (cases us) auto
  from assms(1) have "linked h (us @ [p])" "linked h (s # vs)"
    using linked_append [of h us p "s # vs"] by simp_all
  moreover have "linked h' (us @ [p]) = linked h (us @ [p])"
  proof (rule linked_cong)
    show "\<forall>a \<in> set (butlast (us @ [p])). nxt h' a = nxt h a" using assms(2,3,7) by auto
    show "\<forall>b \<in> set (tl (us @ [p])). prv h' b = prv h b" using assms(5,8) ntl by auto
  qed
  moreover have "linked h' (s # vs) = linked h (s # vs)"
  proof (rule linked_cong)
    show "\<forall>a \<in> set (butlast (s # vs)). nxt h' a = nxt h a"
      using assms(2,4,7) in_set_butlastD [of _ "s # vs"] by fastforce
    show "\<forall>b \<in> set (tl (s # vs)). prv h' b = prv h b" using assms(2,6,8) by auto
  qed
  moreover have "nxt h' p = n" "prv h' n = p" "nxt h' n = s" "prv h' s = n" using assms by auto
  ultimately show ?thesis using linked_append [of h' us p "n # s # vs"] by simp
qed

lemma linked_remove:
  assumes "linked h (us @ [p, n, s] @ vs)" "n \<notin> set (us @ [p, s] @ vs)"
    "p \<notin> set us" "p \<notin> set (butlast (s # vs))" "s \<notin> set (tl (us @ [p]))" "s \<notin> set vs"
    "nxt h' = (nxt h)(p := s, n := n)" "prv h' = (prv h)(s := p, n := n)"
  shows "linked h' (us @ [p, s] @ vs)"
proof -
  have ntl: "n \<notin> set (tl (us @ [p]))" using assms(2) by (cases us) auto
  from assms(1) have "linked h (us @ [p])" "linked h (s # vs)"
    using linked_append [of h us p "n # s # vs"] by simp_all
  moreover have "linked h' (us @ [p]) = linked h (us @ [p])"
  proof (rule linked_cong)
    show "\<forall>a \<in> set (butlast (us @ [p])). nxt h' a = nxt h a" using assms(2,3,7) by auto
    show "\<forall>b \<in> set (tl (us @ [p])). prv h' b = prv h b" using assms(5,8) ntl by auto
  qed
  moreover have "linked h' (s # vs) = linked h (s # vs)"
  proof (rule linked_cong)
    show "\<forall>a \<in> set (butlast (s # vs)). nxt h' a = nxt h a"
      using assms(2,4,7) in_set_butlastD [of _ "s # vs"] by fastforce
    show "\<forall>b \<in> set (tl (s # vs)). prv h' b = prv h b" using assms(2,6,8) by auto
  qed
  moreover have "nxt h' p = s" "prv h' s = p" using assms by auto
  ultimately show ?thesis using linked_append [of h' us p "s # vs"] by simp
qed

lemma representsD:
  assumes "represents H h f"
  shows "l \<in> H \<Longrightarrow> ring h l (f l)" "l \<notin> H \<Longrightarrow> f l = []" "disjoint_lists f"
    "n \<in> set (f l) \<Longrightarrow> n \<notin> H" "n \<in> set (f l) \<Longrightarrow> l \<in> H"
    "n \<notin> H \<Longrightarrow> (\<And>l. n \<notin> set (f l)) \<Longrightarrow> nxt h n = n \<and> prv h n = n"
  using assms by (force simp: represents_def)+

text \<open>A change of the pointer fields of one ring and of an unlinked node leaves the other rings alone.\<close>

lemma represents_change:
  assumes rep: "represents H h f" and l: "l \<in> H"
    and ring': "ring h' l xs" and set_xs: "set xs \<inter> H = {}" "\<forall>l'. l' \<noteq> l \<longrightarrow> set xs \<inter> set (f l') = {}"
    and frame: "\<And>a. a \<noteq> l \<Longrightarrow> a \<notin> set (f l) \<Longrightarrow> a \<notin> set xs \<Longrightarrow> nxt h' a = nxt h a \<and> prv h' a = prv h a"
    and out: "\<And>a. a \<in> set (f l) \<Longrightarrow> a \<notin> set xs \<Longrightarrow> nxt h' a = a \<and> prv h' a = a"
  shows "represents H h' (f(l := xs))"
proof -
  note d = representsD [OF rep]
  have dis: "disjoint_lists (f(l := xs))"
    using d(3) set_xs ring' unfolding disjoint_lists_def ring_def by auto
  have other: "ring h' l' (f l')" if "l' \<in> H" "l' \<noteq> l" for l'
  proof -
    have "\<forall>a \<in> set (l' # f l' @ [l']). nxt h' a = nxt h a \<and> prv h' a = prv h a"
    proof
      fix a assume "a \<in> set (l' # f l' @ [l'])"
      then have "a = l' \<or> a \<in> set (f l')" by auto
      then have "a \<noteq> l" "a \<notin> set (f l)" "a \<notin> set xs"
        using that d(4) [of a] l disjoint_listsD [OF d(3), of a l' l] set_xs by auto
      then show "nxt h' a = nxt h a \<and> prv h' a = prv h a" by (rule frame)
    qed
    then have "linked h' (l' # f l' @ [l']) = linked h (l' # f l' @ [l'])"
      by (intro linked_cong) (auto dest!: in_set_butlastD)
    then show ?thesis using d(1) [OF that(1)] by (simp add: ring_def)
  qed
  have free: "nxt h' n = n \<and> prv h' n = n" if "n \<notin> H" "\<forall>l'. n \<notin> set ((f(l := xs)) l')" for n
  proof (cases "n \<in> set (f l)")
    case True
    then show ?thesis using that by (intro out) (auto dest: spec [of _ l])
  next
    case False
    then have "\<And>l'. n \<notin> set (f l')" using that(2) by (metis fun_upd_other)
    with that have "nxt h n = n \<and> prv h n = n" by (intro d(6))
    moreover have "n \<noteq> l" "n \<notin> set xs" using that l by (auto dest: spec [of _ l])
    ultimately show ?thesis using frame [of n] False by simp
  qed
  show ?thesis unfolding represents_def
    using l ring' d(2,4) set_xs dis other free by (auto simp: fun_upd_def)
qed

lemma represents_insert_before:
  assumes rep: "represents H h f" and l: "l \<in> H" and fresh: "n \<notin> H" "\<And>l'. n \<notin> set (f l')"
    and pos: "s = l \<and> bs = [] \<and> f l = as \<and> xs = as @ [n] \<or> f l = as @ s # bs \<and> xs = as @ n # s # bs"
  shows "represents H (rt_list_insert_before s n h) (f(l := xs))"
proof -
  note d = representsD [OF rep]
  have rg: "linked h (l # f l @ [l])" "distinct (l # f l)" using d(1) [OF l] by (simp_all add: ring_def)
  have nl: "n \<noteq> l" "n \<notin> set (f l)" using fresh l by auto
  obtain us p vs where path: "l # f l @ [l] = us @ [p, s] @ vs" "l # xs @ [l] = us @ [p, n, s] @ vs"
    and pv: "p \<notin> set us" "p \<notin> set (butlast (s # vs))" "s \<notin> set (tl (us @ [p]))" "s \<notin> set vs"
    and ps: "p \<in> set (l # f l)" "s \<in> set (l # f l)"
  proof (cases as rule: rev_cases)
    case Nil
    with pos rg(2) show ?thesis
      by (intro that [of "[]" l "if s = l \<and> f l = [] then [] else bs @ [l]"]) (auto split: if_splits)
  next
    case (snoc as' p)
    with pos rg(2) show ?thesis
      by (intro that [of "l # as'" p "if s = l then [] else bs @ [l]"]) (auto split: if_splits)
  qed
  have p: "prv h s = p" using rg(1) path(1) linked_last by metis
  let ?h = "rt_list_insert_before s n h"
  have sn: "s \<noteq> n" "p \<noteq> n" using ps nl by auto
  have upd: "nxt ?h = (nxt h)(p := n, n := s)" "prv ?h = (prv h)(s := n, n := p)"
    using sn p by (auto simp: rt_list_insert_before_def Let_def)
  have "n \<notin> set (us @ [p, s] @ vs)" unfolding path(1) [symmetric] using nl by auto
  then have "linked ?h (us @ [p, n, s] @ vs)"
    using linked_insert [OF _ _ pv upd] rg(1) path(1) by metis
  then have "linked ?h (l # xs @ [l])" using path(2) by simp
  moreover have "distinct (l # xs)" using pos rg(2) nl by auto
  ultimately have ring': "ring ?h l xs" by (simp add: ring_def)
  have sx: "set xs = insert n (set (f l))" using pos by auto
  show ?thesis
  proof (rule represents_change [OF rep l ring'])
    show "set xs \<inter> H = {}" using sx fresh(1) d(4) by auto
    show "\<forall>l'. l' \<noteq> l \<longrightarrow> set xs \<inter> set (f l') = {}"
      using sx fresh(2) disjoint_listsD [OF d(3), of _ l] by auto
    fix a
    show "nxt ?h a = nxt h a \<and> prv ?h a = prv h a" if "a \<noteq> l" "a \<notin> set (f l)" "a \<notin> set xs"
      using that ps sx upd by auto
    show "nxt ?h a = a \<and> prv ?h a = a" if "a \<in> set (f l)" "a \<notin> set xs" using that sx by auto
  qed
qed

lemma represents_insert_after:
  assumes rep: "represents H h f" and l: "l \<in> H" and fresh: "n \<notin> H" "\<And>l'. n \<notin> set (f l')"
  shows "represents H (rt_list_insert_after l n h) (f(l := n # f l))"
proof -
  have rg: "linked h (l # f l @ [l])" "distinct (l # f l)"
    using representsD(1) [OF rep l] by (simp_all add: ring_def)
  have nl: "n \<noteq> l" "n \<notin> set (f l)" using fresh l by auto
  define s where "s = hd (f l @ [l])"
  have s: "nxt h l = s" "prv h s = l" "s \<in> set (l # f l)"
    and first: "s = l \<and> f l = [] \<or> (\<exists>bs. f l = s # bs)"
    using rg(1) by (cases "f l"; simp add: s_def)+
  have "n \<noteq> s" using s(3) nl by auto
  then have "rt_list_insert_after l n h = rt_list_insert_before s n h" using s(1,2) nl(1)
    by (simp add: rt_list_insert_after_def rt_list_insert_before_def Let_def
        fun_upd_twist [of l n] fun_upd_twist [of n s])
  moreover have "represents H (rt_list_insert_before s n h) (f(l := n # f l))"
    using first
  proof (elim disjE exE)
    assume "s = l \<and> f l = []"
    then show ?thesis by (intro represents_insert_before [OF rep l fresh, of s "[]" "[]"]) simp
  next
    fix bs assume "f l = s # bs"
    then show ?thesis by (intro represents_insert_before [OF rep l fresh, of s bs "[]"]) simp
  qed
  ultimately show ?thesis by simp
qed

lemma represents_remove:
  assumes rep: "represents H h f" and n: "n \<notin> H"
  shows "represents H (rt_list_remove n h) (removed n f)"
proof (cases "\<exists>l. n \<in> set (f l)")
  case False
  then have "nxt h n = n" "prv h n = n" using representsD(6) [OF rep n] by auto
  then have "rt_list_remove n h = h" by (cases h) (auto simp: rt_list_remove_def Let_def)
  with False rep show ?thesis by (simp add: removed_id)
next
  case True
  then obtain l where nl: "n \<in> set (f l)" by blast
  note d = representsD [OF rep]
  have l: "l \<in> H" using d(5) [OF nl] .
  have rg: "linked h (l # f l @ [l])" "distinct (l # f l)" using d(1) [OF l] by (simp_all add: ring_def)
  obtain as bs where f: "f l = as @ n # bs" using nl by (meson split_list)
  define p where "p = last (l # as)"
  define us where "us = butlast (l # as)"
  define s where "s = hd (bs @ [l])"
  define vs where "vs = tl (bs @ [l])"
  have up: "us @ [p] = l # as" unfolding us_def p_def by (rule append_butlast_last_id) simp
  have sv: "s # vs = bs @ [l]" by (cases bs) (simp_all add: s_def vs_def)
  have path: "l # f l @ [l] = us @ [p, n, s] @ vs"
    using f up sv by (metis append.assoc append_Cons append_Nil)
  have new: "l # (as @ bs) @ [l] = us @ [p, s] @ vs"
    using up sv by (metis append.assoc append_Cons append_Nil)
  have lk: "nxt h p = n" "prv h n = p" "nxt h n = s" "prv h s = n"
    using rg(1) linked_last [of h us p n "s # vs"] linked_last [of h "us @ [p]" n s vs] path by simp_all
  have dl: "distinct (us @ [p])" "distinct (bs @ [l])" "n \<notin> set (us @ [p])" "n \<notin> set (bs @ [l])"
    "set as \<inter> set bs = {}" using rg(2) f up by auto
  have pv: "p \<notin> set us" "s \<notin> set (tl (us @ [p]))" "s \<notin> set vs" "p \<notin> set (butlast (s # vs))"
  proof -
    show "p \<notin> set us" using dl(1) by simp
    have "s \<in> set (bs @ [l])" using sv by (metis list.set_intros(1))
    then show "s \<notin> set (tl (us @ [p]))" using up dl(5) rg(2) f by auto
    show "s \<notin> set vs" using sv dl(2) by (metis distinct.simps(2))
    have "p \<in> set (l # as)" using up by (metis in_set_conv_decomp)
    then show "p \<notin> set (butlast (s # vs))" using sv dl(5) rg(2) f by (auto simp: butlast_append)
  qed
  let ?h = "rt_list_remove n h"
  have "s \<in> set (bs @ [l])" using sv by (metis list.set_intros(1))
  then have "s \<noteq> n" "p \<noteq> n" using dl(3,4) by auto
  then have upd: "nxt ?h = (nxt h)(p := s, n := n)" "prv ?h = (prv h)(s := p, n := n)"
    using lk by (auto simp: rt_list_remove_def Let_def)
  have nn: "n \<notin> set (us @ [p, s] @ vs)" unfolding new [symmetric] using rg(2) f by auto
  have "linked ?h (us @ [p, s] @ vs)"
    using linked_remove [OF _ nn pv(1) pv(4) pv(2,3) upd] rg(1) path by metis
  then have ring': "ring ?h l (as @ bs)" using new rg(2) f by (simp add: ring_def)
  have "removed n f = f(l := as @ bs)"
  proof
    fix l'
    show "removed n f l' = (f(l := as @ bs)) l'"
    proof (cases "l' = l")
      case True
      have "n \<notin> set as" "n \<notin> set bs" using rg(2) f by simp_all
      with True f show ?thesis by (simp add: removed_def)
    next
      case False
      then have "n \<notin> set (f l')" using disjoint_listsD [OF d(3) nl, of l'] by blast
      with False show ?thesis by (simp add: removed_def)
    qed
  qed
  moreover have "represents H ?h (f(l := as @ bs))"
  proof (rule represents_change [OF rep l ring'])
    show "set (as @ bs) \<inter> H = {}" using d(4) [of _ l] f by auto
    show "\<forall>l'. l' \<noteq> l \<longrightarrow> set (as @ bs) \<inter> set (f l') = {}"
      using disjoint_listsD [OF d(3), of _ l] f by auto
    have ps: "p \<in> set (l # as)" "s \<in> set (bs @ [l])"
      using up sv by (metis in_set_conv_decomp) (metis list.set_intros(1) sv)
    fix a
    show "nxt ?h a = nxt h a \<and> prv ?h a = prv h a" if "a \<noteq> l" "a \<notin> set (f l)" "a \<notin> set (as @ bs)"
      using that ps f upd by auto
    show "nxt ?h a = a \<and> prv ?h a = a" if "a \<in> set (f l)" "a \<notin> set (as @ bs)"
      using that f upd by auto
  qed
  ultimately show ?thesis by simp
qed

lemma represents_isempty: "represents H h f \<Longrightarrow> l \<in> H \<Longrightarrow> rt_list_isempty l h \<longleftrightarrow> f l = []"
  using representsD(1) [of H h f l] by (cases "f l") (auto simp: ring_def rt_list_isempty_def)

lemma len_loop:
  "linked h (p # xs @ [l]) \<Longrightarrow> l \<notin> set xs \<Longrightarrow> rt_list_len_loop h l p len = Some (len + length xs)"
proof (induction xs arbitrary: p len)
  case Nil
  then show ?case by (subst rt_list_len_loop.simps) simp
next
  case (Cons x xs)
  then show ?case by (subst rt_list_len_loop.simps) simp
qed

lemma represents_len: "represents H h f \<Longrightarrow> l \<in> H \<Longrightarrow> rt_list_len l h = Some (length (f l))"
  using representsD(1) [of H h f l] len_loop [of h l "f l" l 0] by (simp add: ring_def rt_list_len_def)

section \<open>The contract the kernel relies on\<close>

text \<open>
  What every user of intrusive lists needs of them, over any representation: \<open>rel s f\<close> says that the
  state \<open>s\<close> carries the lists \<open>f\<close>. It is interpreted here on the pointer heap, and in theory
  \<open>Kernel_State\<close> on the thread lists of the kernel state.
\<close>

locale node_lists =
  fixes rel :: "'s \<Rightarrow> ('l \<Rightarrow> 'n list) \<Rightarrow> bool"
    and head :: "'l \<Rightarrow> bool"
    and node :: "'n \<Rightarrow> bool"
    and insert_tail :: "'l \<Rightarrow> 'n \<Rightarrow> 's \<Rightarrow> 's"
    and remove :: "'n \<Rightarrow> 's \<Rightarrow> 's"
    and is_empty :: "'l \<Rightarrow> 's \<Rightarrow> bool"
  assumes insert_tail: "rel s f \<Longrightarrow> head l \<Longrightarrow> node n \<Longrightarrow> (\<And>l'. n \<notin> set (f l')) \<Longrightarrow>
      rel (insert_tail l n s) (f(l := f l @ [n]))"
    and remove: "rel s f \<Longrightarrow> node n \<Longrightarrow> rel (remove n s) (removed n f)"
    and is_empty: "rel s f \<Longrightarrow> head l \<Longrightarrow> is_empty l s \<longleftrightarrow> f l = []"
    and disjoint: "rel s f \<Longrightarrow> disjoint_lists f"
begin

lemma move_to_tail:
  assumes "rel s f" "head l" "node n"
  shows "rel (insert_tail l n (remove n s)) ((removed n f)(l := removed n f l @ [n]))"
  by (intro insert_tail remove assms) simp

lemma pop_first:
  assumes "rel s f" "node n" "f l = n # ns"
  shows "rel (remove n s) (f(l := ns))"
  using remove [OF assms(1,2)] removed_hd [where f = f, OF disjoint [OF assms(1)] assms(3)] by simp

lemma emptied:
  assumes "rel s f" "head l" "node n" "f l = [n]"
  shows "is_empty l (remove n s)"
  using is_empty [OF pop_first [OF assms(1,3,4)] assms(2)] by simp

end

interpretation heap: node_lists "represents H" "\<lambda>l. l \<in> H" "\<lambda>n. n \<notin> H"
  rt_list_insert_before rt_list_remove rt_list_isempty for H
proof
  fix h f l n
  assume "represents H h f" "l \<in> H" "n \<notin> H" "\<And>l'. n \<notin> set (f l')"
  then show "represents H (rt_list_insert_before l n h) (f(l := f l @ [n]))"
    by (intro represents_insert_before) auto
qed (auto intro: represents_remove simp: represents_isempty dest: representsD(3))

section \<open>Properties\<close>

text \<open>Requeueing a node: on a heap whose heads \<open>H\<close> carry the lists \<open>f\<close>, unlinking a node
  (\<open>rt_list_remove\<close>, wherever it is linked, or if it is not linked at all) and inserting it before a
  head (\<open>rt_list_insert_before\<close>) makes it the last node of that list, leaves every other list as it
  was but for the node, and the length loop of \<open>rt_list_len\<close> ends with the number of nodes.\<close>

theorem rt_list_requeue:
  assumes "represents H h f" "l \<in> H" "n \<notin> H"
  shows "represents H (rt_list_insert_before l n (rt_list_remove n h))
      ((removed n f)(l := removed n f l @ [n])) \<and>
    rt_list_len l (rt_list_insert_before l n (rt_list_remove n h)) = Some (length (removed n f l) + 1)"
proof -
  note m = heap.move_to_tail [OF assms]
  from represents_len [OF m assms(2)] m show ?thesis by simp
qed

theorem rt_list_requeue_witness:
  "rt_list_len 1 (rt_list_insert_before 1 7 (rt_list_remove 7
     (rt_list_insert_after 2 7 \<lparr>nxt = (\<lambda>n. n), prv = (\<lambda>n. n)\<rparr>))) = Some 1"
proof -
  have "represents {1, 2} \<lparr>nxt = (\<lambda>n. n), prv = (\<lambda>n. n)\<rparr> (\<lambda>l. [])"
    by (simp add: represents_def ring_def disjoint_lists_def)
  then have "represents {1, 2} (rt_list_insert_after 2 7 \<lparr>nxt = (\<lambda>n. n), prv = (\<lambda>n. n)\<rparr>)
      ((\<lambda>l. [])(2 := [7]))"
    using represents_insert_after [of "{1, 2}" _ "\<lambda>l. []" 2 7] by simp
  from rt_list_requeue [OF this, of 1 7] show ?thesis by (simp add: removed_def)
qed

end
