(* ===== verification/Kernel_State.thy ===== *)
theory Kernel_State
  imports Rt_List
begin

text \<open>
  The state of the RT-Thread kernel as the configuration of this board builds it (\<open>rtconfig.h\<close>: one
  processor, 32 priorities, no signals, hard timers only, \<open>RT_DEBUG\<close> off, so \<open>RT_ASSERT\<close> and the
  context checks expand to nothing). One record holds what the C code keeps in static variables and
  in the structs it is handed pointers to; a struct is found through its address in a total function,
  as memory is. A function of the kernel is a function on this record. Code between
  \<open>rt_hw_interrupt_disable\<close> and \<open>rt_hw_interrupt_enable\<close> is one atomic update; hooks are null.

  Thread priorities, which the code only copies and compares, are \<open>nat\<close>; counters that are
  incremented or decremented are words of the C width, so that they wrap as in C.
\<close>

section \<open>Identities\<close>

type_synonym tid = nat

text \<open>The heads a thread's \<open>tlist\<close> node can be linked to.\<close>

datatype lid =
    LReady nat      \<comment> \<open>\<open>rt_thread_priority_table[p]\<close>\<close>
  | LDefunct        \<comment> \<open>\<open>rt_thread_defunct\<close>\<close>
  | LSem nat | LMutex nat | LEvent nat | LMailBox nat | LMbSender nat | LMq nat | LMp nat | LCompletion nat | LDqPush nat | LDqPop nat

text \<open>A timer is the one inside a thread, or one of its own.\<close>

datatype timer_id = TThread tid | TTimer nat

text \<open>Timeout functions with their parameter: \<open>rt_thread_timeout(thread)\<close>, or code outside the kernel.\<close>

datatype timeout_func = F_thread_timeout tid | F_user nat

datatype obj =
    OThread tid | OSem nat | OMutex nat | OEvent nat | OMailBox nat | OMq nat | OMemPool nat | ODevice nat | OTimer timer_id

text \<open>The classes of \<open>enum rt_object_class_type\<close> that have a container here, with their values.\<close>

abbreviation (input) RT_Object_Class_Thread :: u8 where "RT_Object_Class_Thread \<equiv> 1"
abbreviation (input) RT_Object_Class_Semaphore :: u8 where "RT_Object_Class_Semaphore \<equiv> 2"
abbreviation (input) RT_Object_Class_Mutex :: u8 where "RT_Object_Class_Mutex \<equiv> 3"
abbreviation (input) RT_Object_Class_Event :: u8 where "RT_Object_Class_Event \<equiv> 4"
abbreviation (input) RT_Object_Class_MailBox :: u8 where "RT_Object_Class_MailBox \<equiv> 5"
abbreviation (input) RT_Object_Class_MessageQueue :: u8 where "RT_Object_Class_MessageQueue \<equiv> 6"
abbreviation (input) RT_Object_Class_MemPool :: u8 where "RT_Object_Class_MemPool \<equiv> 8"
abbreviation (input) RT_Object_Class_Device :: u8 where "RT_Object_Class_Device \<equiv> 9"
abbreviation (input) RT_Object_Class_Timer :: u8 where "RT_Object_Class_Timer \<equiv> 10"
abbreviation (input) RT_Object_Class_Static :: u8 where "RT_Object_Class_Static \<equiv> 0x80"

section \<open>Structs\<close>

record rt_object =
  ob_name :: string
  ob_type :: u8
  ob_flag :: u8

datatype thread_stat =
  RT_THREAD_INIT | RT_THREAD_READY | RT_THREAD_SUSPEND | RT_THREAD_RUNNING | RT_THREAD_CLOSE

record rt_thread =
  th_error :: err
  th_stat :: thread_stat
  th_current_priority :: nat
  th_init_priority :: nat
  th_number_mask :: u32
  th_event_set :: u32
  th_event_info :: u8
  th_init_tick :: tick
  th_remaining_tick :: tick
  th_entry :: nat
  th_parameter :: nat
  th_sp :: nat
  th_stack_addr :: nat
  th_stack_size :: nat
  th_stack_guard :: char      \<comment> \<open>the byte at \<open>stack_addr\<close>\<close>
  th_cleanup :: "nat option"  \<comment> \<open>cleanup function, \<open>None\<close> for \<open>RT_NULL\<close>\<close>
  th_user_data :: u32

record rt_timer =
  tm_timeout_func :: timeout_func
  tm_init_tick :: tick
  tm_timeout_tick :: tick

record rt_semaphore =
  sem_value :: u16

record rt_mutex =
  mtx_value :: u16
  mtx_original_priority :: nat
  mtx_hold :: u8
  mtx_owner :: "tid option"

record rt_event =
  ev_set :: u32

record rt_mailbox =
  mb_msg_pool :: "u32 list"
  mb_size :: u16
  mb_entry :: u16
  mb_in_offset :: u16
  mb_out_offset :: u16

text \<open>
  A message queue: the pool is cut into \<open>max_msgs\<close> nodes, numbered from 0; \<open>mq_next\<close> is the link word
  at the start of a node, \<open>mq_data\<close> the \<open>msg_size\<close> bytes behind it.
\<close>

record rt_messagequeue =
  mq_msg_size :: u16
  mq_max_msgs :: u16
  mq_entry :: u16
  mq_next :: "nat \<Rightarrow> nat option"
  mq_data :: "nat \<Rightarrow> u8 list"
  mq_head :: "nat option"
  mq_tail :: "nat option"
  mq_free :: "nat option"

text \<open>
  A memory pool. The word in front of a block holds the address of the next free block while the
  block is free, and the address of its pool while it is in use.
\<close>

datatype mp_word = MpNext "nat option" | MpPool nat

record rt_mempool =
  mp_start_address :: nat
  mp_size :: u32
  mp_block_size :: u32
  mp_block_list :: "nat option"
  mp_block_total_count :: u32
  mp_block_free_count :: u32
  mp_suspend_thread_count :: u32

text \<open>A data queue of pointers with sizes; its indices count pushes and pops.\<close>

record rt_data_queue =
  dq_size :: u16
  dq_lwm :: u16
  dq_get_index :: u16
  dq_put_index :: u16
  dq_queue :: "(nat \<times> u32) list"

record kernel =
  threads :: "tid \<Rightarrow> rt_thread"
  tlists :: "lid \<Rightarrow> tid list"
  rt_thread_ready_priority_group :: u32
  rt_scheduler_lock_nest :: int
  rt_current_thread :: "tid option"
  rt_current_priority :: nat
  rt_interrupt_nest :: u8
  rt_tick :: tick
  timers :: "timer_id \<Rightarrow> rt_timer"
  rt_timer_list :: "timer_id list"
  objects :: "obj \<Rightarrow> rt_object"
  rt_object_container :: "u8 \<Rightarrow> obj list"
  sems :: "nat \<Rightarrow> rt_semaphore"
  mutexes :: "nat \<Rightarrow> rt_mutex"
  events :: "nat \<Rightarrow> rt_event"
  mailboxes :: "nat \<Rightarrow> rt_mailbox"
  mqs :: "nat \<Rightarrow> rt_messagequeue"
  mempools :: "nat \<Rightarrow> rt_mempool"
  mp_words :: "nat \<Rightarrow> mp_word"
  completions :: "nat \<Rightarrow> bool"      \<comment> \<open>the flag of a completion, \<open>True\<close> for \<open>RT_COMPLETED\<close>\<close>
  dataqueues :: "nat \<Rightarrow> rt_data_queue"
  rt_errno :: err             \<comment> \<open>\<open>__rt_errno\<close>\<close>
  halted :: bool              \<comment> \<open>the processor spins in the stack overflow check\<close>

text \<open>\<open>rt_thread_self()\<close>.\<close>

abbreviation self :: "kernel \<Rightarrow> tid" where
  "self k \<equiv> the (rt_current_thread k)"

abbreviation stat :: "kernel \<Rightarrow> tid \<Rightarrow> thread_stat" where
  "stat k t \<equiv> th_stat (threads k t)"

abbreviation prio :: "kernel \<Rightarrow> tid \<Rightarrow> nat" where
  "prio k t \<equiv> th_current_priority (threads k t)"

section \<open>Updates of one struct\<close>

definition upd_thread :: "tid \<Rightarrow> (rt_thread \<Rightarrow> rt_thread) \<Rightarrow> kernel \<Rightarrow> kernel" where
  "upd_thread t g k = k\<lparr>threads := (threads k)(t := g (threads k t))\<rparr>"

definition upd_object :: "obj \<Rightarrow> (rt_object \<Rightarrow> rt_object) \<Rightarrow> kernel \<Rightarrow> kernel" where
  "upd_object x g k = k\<lparr>objects := (objects k)(x := g (objects k x))\<rparr>"

definition upd_timer :: "timer_id \<Rightarrow> (rt_timer \<Rightarrow> rt_timer) \<Rightarrow> kernel \<Rightarrow> kernel" where
  "upd_timer x g k = k\<lparr>timers := (timers k)(x := g (timers k x))\<rparr>"

section \<open>Thread lists\<close>

text \<open>\<open>rt_list_insert_before(head, &thread->tlist)\<close>, \<open>rt_list_insert_after(head, &thread->tlist)\<close>,
  \<open>rt_list_remove(&thread->tlist)\<close> and \<open>rt_list_isempty(head)\<close> on the lists the rings stand for; theory
  \<open>Rt_List\<close> shows that the pointer code acts so.\<close>

definition tlist_insert_tail :: "lid \<Rightarrow> tid \<Rightarrow> kernel \<Rightarrow> kernel" where
  "tlist_insert_tail l t k = k\<lparr>tlists := (tlists k)(l := tlists k l @ [t])\<rparr>"

definition tlist_insert_head :: "lid \<Rightarrow> tid \<Rightarrow> kernel \<Rightarrow> kernel" where
  "tlist_insert_head l t k = k\<lparr>tlists := (tlists k)(l := t # tlists k l)\<rparr>"

definition tlist_remove :: "tid \<Rightarrow> kernel \<Rightarrow> kernel" where
  "tlist_remove t k = k\<lparr>tlists := removed t (tlists k)\<rparr>"

definition tlist_isempty :: "lid \<Rightarrow> kernel \<Rightarrow> bool" where
  "tlist_isempty l k \<longleftrightarrow> tlists k l = []"

interpretation tl: node_lists "\<lambda>(k :: kernel) f. tlists k = f \<and> disjoint_lists f" "\<lambda>l. True" "\<lambda>t. True"
  tlist_insert_tail tlist_remove tlist_isempty
proof
  fix k :: kernel and f l n
  assume "tlists k = f \<and> disjoint_lists f" "\<And>l'. n \<notin> set (f l')"
  then show "tlists (tlist_insert_tail l n k) = f(l := f l @ [n]) \<and> disjoint_lists (f(l := f l @ [n]))"
    using disjoint_lists_upd [of f n "f l @ [n]" l] disjoint_lists_distinct [of f l]
    by (auto simp: tlist_insert_tail_def)
qed (auto simp: tlist_remove_def tlist_isempty_def disjoint_lists_removed)

lemmas state_defs = upd_thread_def upd_object_def upd_timer_def
  tlist_insert_tail_def tlist_insert_head_def tlist_remove_def tlist_isempty_def


section \<open>A concrete state\<close>

text \<open>
  Memory as the start-up code leaves it, zeroed, but for the thread structs: thread \<open>t\<close> has
  priority \<open>10 + t\<close> for \<open>t < 20\<close>. Concrete instances of theorems start from it.
\<close>

definition demo_thread :: "thread_stat \<Rightarrow> nat \<Rightarrow> rt_thread" where
  "demo_thread s p =
     \<lparr>th_error = 0, th_stat = s, th_current_priority = p, th_init_priority = p,
      th_number_mask = push_bit p 1, th_event_set = 0, th_event_info = 0, th_init_tick = 10,
      th_remaining_tick = 10, th_entry = 0, th_parameter = 0, th_sp = 100, th_stack_addr = 50,
      th_stack_size = 100, th_stack_guard = CHR ''#'', th_cleanup = None, th_user_data = 0\<rparr>"

definition demo_kernel :: kernel where
  "demo_kernel =
     \<lparr>threads = (\<lambda>t. demo_thread RT_THREAD_INIT (if t < 20 then 10 + t else 31)),
      tlists = (\<lambda>l. []), rt_thread_ready_priority_group = 0, rt_scheduler_lock_nest = 0,
      rt_current_thread = None, rt_current_priority = 31, rt_interrupt_nest = 0, rt_tick = 0,
      timers = (\<lambda>x. \<lparr>tm_timeout_func = (case x of TThread t \<Rightarrow> F_thread_timeout t | TTimer n \<Rightarrow> F_user n),
                       tm_init_tick = 0, tm_timeout_tick = 0\<rparr>),
      rt_timer_list = [], objects = (\<lambda>x. \<lparr>ob_name = [], ob_type = 0, ob_flag = 0\<rparr>),
      rt_object_container = (\<lambda>c. []), sems = (\<lambda>n. \<lparr>sem_value = 0\<rparr>),
      mutexes = (\<lambda>n. \<lparr>mtx_value = 1, mtx_original_priority = 255, mtx_hold = 0, mtx_owner = None\<rparr>),
      events = (\<lambda>n. \<lparr>ev_set = 0\<rparr>),
      mailboxes = (\<lambda>n. \<lparr>mb_msg_pool = [], mb_size = 0, mb_entry = 0, mb_in_offset = 0, mb_out_offset = 0\<rparr>),
      mqs = (\<lambda>n. \<lparr>mq_msg_size = 0, mq_max_msgs = 0, mq_entry = 0, mq_next = (\<lambda>i. None),
                    mq_data = (\<lambda>i. []), mq_head = None, mq_tail = None, mq_free = None\<rparr>),
      mempools = (\<lambda>n. \<lparr>mp_start_address = 0, mp_size = 0, mp_block_size = 0, mp_block_list = None,
                         mp_block_total_count = 0, mp_block_free_count = 0, mp_suspend_thread_count = 0\<rparr>),
      mp_words = (\<lambda>a. MpNext None), completions = (\<lambda>n. False),
      dataqueues = (\<lambda>n. \<lparr>dq_size = 0, dq_lwm = 0, dq_get_index = 0, dq_put_index = 0, dq_queue = []\<rparr>),
      rt_errno = 0, halted = False\<rparr>"

text \<open>\<open>demo_kernel\<close> with the thread \<open>c\<close> running, the threads \<open>rs\<close> ready in this order and the threads
  of \<open>ws\<close> suspended on list \<open>l\<close>.\<close>

definition demo_running :: "tid \<Rightarrow> tid list \<Rightarrow> lid \<Rightarrow> tid list \<Rightarrow> kernel" where
  "demo_running c rs l ws =
     demo_kernel\<lparr>
       threads := (\<lambda>t. (threads demo_kernel t)\<lparr>th_stat :=
         if t = c \<or> t \<in> set rs then RT_THREAD_READY
         else if t \<in> set ws then RT_THREAD_SUSPEND else RT_THREAD_INIT\<rparr>),
       tlists := (\<lambda>l'. case l' of LReady p \<Rightarrow> filter (\<lambda>t. prio demo_kernel t = p) rs
                      | _ \<Rightarrow> if l' = l then ws else []),
       rt_thread_ready_priority_group := foldr (OR) (map (\<lambda>t. push_bit (prio demo_kernel t) 1) rs) 0,
       rt_current_thread := Some c\<rparr>"

end
