(* ===== verification/Ffs.thy ===== *)
theory Ffs
  imports Prelude
begin

text \<open>
  \<open>__rt_ffs\<close> of \<open>src/kservice.c\<close>: the position of the lowest set bit of a 32-bit word, counted from
  one, by a table of the lowest set bit of each byte. The scheduler finds the highest ready
  priority with it.
\<close>

definition lowest_bit_bitmap :: "nat list" where
  "lowest_bit_bitmap =
    [0, 0, 1, 0, 2, 0, 1, 0, 3, 0, 1, 0, 2, 0, 1, 0,
     4, 0, 1, 0, 2, 0, 1, 0, 3, 0, 1, 0, 2, 0, 1, 0,
     5, 0, 1, 0, 2, 0, 1, 0, 3, 0, 1, 0, 2, 0, 1, 0,
     4, 0, 1, 0, 2, 0, 1, 0, 3, 0, 1, 0, 2, 0, 1, 0,
     6, 0, 1, 0, 2, 0, 1, 0, 3, 0, 1, 0, 2, 0, 1, 0,
     4, 0, 1, 0, 2, 0, 1, 0, 3, 0, 1, 0, 2, 0, 1, 0,
     5, 0, 1, 0, 2, 0, 1, 0, 3, 0, 1, 0, 2, 0, 1, 0,
     4, 0, 1, 0, 2, 0, 1, 0, 3, 0, 1, 0, 2, 0, 1, 0,
     7, 0, 1, 0, 2, 0, 1, 0, 3, 0, 1, 0, 2, 0, 1, 0,
     4, 0, 1, 0, 2, 0, 1, 0, 3, 0, 1, 0, 2, 0, 1, 0,
     5, 0, 1, 0, 2, 0, 1, 0, 3, 0, 1, 0, 2, 0, 1, 0,
     4, 0, 1, 0, 2, 0, 1, 0, 3, 0, 1, 0, 2, 0, 1, 0,
     6, 0, 1, 0, 2, 0, 1, 0, 3, 0, 1, 0, 2, 0, 1, 0,
     4, 0, 1, 0, 2, 0, 1, 0, 3, 0, 1, 0, 2, 0, 1, 0,
     5, 0, 1, 0, 2, 0, 1, 0, 3, 0, 1, 0, 2, 0, 1, 0,
     4, 0, 1, 0, 2, 0, 1, 0, 3, 0, 1, 0, 2, 0, 1, 0]"

definition rt_ffs :: "u32 \<Rightarrow> nat" where
  "rt_ffs v =
     (if v = 0 then 0
      else if v AND 0xff \<noteq> 0 then lowest_bit_bitmap ! unat (v AND 0xff) + 1
      else if v AND 0xff00 \<noteq> 0 then lowest_bit_bitmap ! unat (drop_bit 8 (v AND 0xff00)) + 9
      else if v AND 0xff0000 \<noteq> 0 then lowest_bit_bitmap ! unat (drop_bit 16 (v AND 0xff0000)) + 17
      else lowest_bit_bitmap ! unat (drop_bit 24 (v AND 0xff000000)) + 25)"

text \<open>The table, byte by byte.\<close>

fun bitmap_ok :: "nat \<Rightarrow> nat list \<Rightarrow> bool" where
  "bitmap_ok b [] \<longleftrightarrow> True"
| "bitmap_ok b (t # ts) \<longleftrightarrow> t < 8 \<and> (b = 0 \<or> b mod 2 ^ t = 0 \<and> odd (b div 2 ^ t)) \<and> bitmap_ok (b + 1) ts"

lemma bitmap_ok_nth:
  "bitmap_ok b ts \<Longrightarrow> i < length ts \<Longrightarrow> b + i \<noteq> 0 \<Longrightarrow>
   ts ! i < 8 \<and> (b + i) mod 2 ^ (ts ! i) = 0 \<and> odd ((b + i) div 2 ^ (ts ! i))"
proof (induction b ts arbitrary: i rule: bitmap_ok.induct)
  case (1 b)
  then show ?case by simp
next
  case (2 b t ts)
  show ?case
  proof (cases i)
    case 0
    with 2 show ?thesis by simp
  next
    case (Suc j)
    with "2.IH" [of j] "2.prems" show ?thesis by simp
  qed
qed

lemma bitmap_bytes: "bitmap_ok 0 lowest_bit_bitmap"
  by (simp add: lowest_bit_bitmap_def)

lemma length_bitmap: "length lowest_bit_bitmap = 256"
  by (simp add: lowest_bit_bitmap_def)

lemma bitmap_lowest:
  fixes b :: u32
  assumes "unat b < 256" "b \<noteq> 0"
  shows "lowest_bit_bitmap ! unat b < 8" "bit b (lowest_bit_bitmap ! unat b)"
    "i < lowest_bit_bitmap ! unat b \<Longrightarrow> \<not> bit b i"
proof -
  let ?t = "lowest_bit_bitmap ! unat b"
  have "unat b \<noteq> 0" using assms by (simp add: unat_eq_zero)
  with bitmap_ok_nth [OF bitmap_bytes, of "unat b"] assms(1) length_bitmap
  have *: "?t < 8" "unat b mod 2 ^ ?t = 0" "odd (unat b div 2 ^ ?t)" by auto
  have bu: "bit b j \<longleftrightarrow> odd (unat b div 2 ^ j)" for j
  proof -
    have "bit b j \<longleftrightarrow> bit (unat b) j" by (simp add: bit_unsigned_iff)
    then show ?thesis unfolding bit_iff_odd [of "unat b"] .
  qed
  show "?t < 8" by (rule *(1))
  show "bit b ?t" using *(3) bu by simp
  show "\<not> bit b i" if "i < ?t"
  proof -
    have "(2::nat) ^ Suc i dvd 2 ^ ?t" using that by (intro le_imp_power_dvd) simp
    moreover have "2 ^ ?t dvd unat b" using *(2) by (rule mod_0_imp_dvd)
    ultimately have "2 ^ Suc i dvd unat b" by (rule dvd_trans)
    then obtain c where "unat b = 2 ^ i * (2 * c)" by (auto simp: dvd_def)
    then show ?thesis using bu by simp
  qed
qed

text \<open>Each masked and shifted byte of the word.\<close>

lemma bit_ff: "bit (0xff :: u32) j \<longleftrightarrow> j < 8"
proof -
  have e: "(0xff :: u32) = mask 8" by (simp add: mask_eq_exp_minus_1)
  show ?thesis unfolding e bit_mask_iff by auto
qed

lemma masked_byte:
  fixes v M :: u32
  assumes m: "\<And>j. bit M j \<longleftrightarrow> j < 8" and s: "s \<le> 24" and b: "b = drop_bit s (v AND push_bit s M)"
  shows "bit b j \<longleftrightarrow> bit v (s + j) \<and> j < 8"
    and "bit (v AND push_bit s M) n \<Longrightarrow> s \<le> n \<and> bit b (n - s)"
  using s unfolding b by (auto simp: bit_simps m)

lemma byte_bits:
  fixes v :: u32 and s :: nat
  defines "b \<equiv> drop_bit s (v AND push_bit s 0xff)"
  assumes s: "s \<le> 24"
  shows "unat b < 256" "b = 0 \<longleftrightarrow> v AND push_bit s 0xff = 0"
    "j < 8 \<Longrightarrow> bit b j \<longleftrightarrow> bit v (s + j)"
proof -
  note mb = masked_byte [OF bit_ff s b_def [THEN meta_eq_to_obj_eq]]
  have "b = take_bit 8 b" by (rule bit_eqI) (auto simp: mb(1) bit_take_bit_iff)
  then have "unat b = take_bit 8 (unat b)" by (metis unsigned_take_bit_eq)
  then show "unat b < 256" using take_bit_nat_less_exp [of 8 "unat b"] by simp
  show "b = 0 \<longleftrightarrow> v AND push_bit s 0xff = 0"
  proof
    assume "b = 0"
    show "v AND push_bit s 0xff = 0"
    proof (rule bit_eqI)
      fix n
      show "bit (v AND push_bit s 0xff) n \<longleftrightarrow> bit 0 n" using mb(2) [of n] \<open>b = 0\<close> by auto
    qed
  qed (simp add: b_def)
  show "j < 8 \<Longrightarrow> bit b j \<longleftrightarrow> bit v (s + j)" using mb(1) by simp
qed

lemma ffs_byte:
  fixes v :: u32 and s :: nat
  assumes s: "s \<le> 24" and ne: "v AND push_bit s 0xff \<noteq> 0" and below: "\<And>i. i < s \<Longrightarrow> \<not> bit v i"
  defines "r \<equiv> lowest_bit_bitmap ! unat (drop_bit s (v AND push_bit s 0xff))"
  shows "r < 8" "bit v (s + r)" "i < s + r \<Longrightarrow> \<not> bit v i"
proof -
  let ?b = "drop_bit s (v AND push_bit s 0xff)"
  note bb = byte_bits [OF s, where v = v]
  have "?b \<noteq> 0" using ne bb(2) by simp
  note t = bitmap_lowest [OF bb(1) this, folded r_def]
  show r: "r < 8" by (rule t(1))
  show "bit v (s + r)" using t(2) bb(3) [OF r] by simp
  show "\<not> bit v i" if "i < s + r"
  proof (cases "i < s")
    case False
    with that have "i - s < r" by simp
    from t(3) [OF this] bb(3) [of "i - s"] r \<open>i - s < r\<close> False show ?thesis by simp
  qed (rule below)
qed

lemma masked_byte_zero:
  fixes v :: u32
  assumes "s \<le> 24" "v AND push_bit s 0xff = 0" "s \<le> i" "i < s + 8"
  shows "\<not> bit v i"
  using byte_bits(2,3) [OF assms(1), where v = v] assms(2-4) by (metis add_diff_inverse_nat bit_0_eq bot_apply
      bot_bool_def less_diff_conv2 nat_add_left_cancel_less not_less add.commute)

lemma rt_ffs_spec:
  assumes "v \<noteq> 0"
  shows "\<exists>p. rt_ffs v = p + 1 \<and> p < 32 \<and> bit v p \<and> (\<forall>i < p. \<not> bit v i)"
proof -
  have m: "push_bit 0 0xff = (0xff :: u32)" "push_bit 8 0xff = (0xff00 :: u32)"
    "push_bit 16 0xff = (0xff0000 :: u32)" "push_bit 24 0xff = (0xff000000 :: u32)"
    by (simp_all add: push_bit_eq_mult)
  have b0: "v AND 0xff = 0 \<Longrightarrow> \<not> bit v i" if "i < 8" for i
    using that masked_byte_zero [of 0 v i, unfolded m] by simp
  have b1: "v AND 0xff00 = 0 \<Longrightarrow> \<not> bit v i" if "8 \<le> i" "i < 16" for i
    using that masked_byte_zero [of 8 v i, unfolded m] by simp
  have b2: "v AND 0xff0000 = 0 \<Longrightarrow> \<not> bit v i" if "16 \<le> i" "i < 24" for i
    using that masked_byte_zero [of 16 v i, unfolded m] by simp
  have b3: "v AND 0xff000000 = 0 \<Longrightarrow> \<not> bit v i" if "24 \<le> i" "i < 32" for i
    using that masked_byte_zero [of 24 v i, unfolded m] by simp
  consider (0) "v AND 0xff \<noteq> 0" | (1) "v AND 0xff = 0" "v AND 0xff00 \<noteq> 0"
    | (2) "v AND 0xff = 0" "v AND 0xff00 = 0" "v AND 0xff0000 \<noteq> 0"
    | (3) "v AND 0xff = 0" "v AND 0xff00 = 0" "v AND 0xff0000 = 0" by blast
  then show ?thesis
  proof cases
    case 0
    define r where "r = lowest_bit_bitmap ! unat (v AND 0xff)"
    have ne: "v AND 0xff \<noteq> 0" using 0 .
    have low: "\<not> bit v i" if "i < 0" for i using that by simp
    have "r < 8" "bit v (0 + r)" "\<forall>i < 0 + r. \<not> bit v i"
      using ffs_byte [of 0 v, unfolded m, OF _ ne low] by (simp_all add: r_def)
    moreover have "rt_ffs v = 0 + r + 1" using 0 ne assms by (simp add: rt_ffs_def r_def)
    ultimately show ?thesis by (intro exI [of _ "0 + r"]) simp
  next
    case 1
    define r where "r = lowest_bit_bitmap ! unat (drop_bit 8 (v AND 0xff00))"
    have ne: "v AND 0xff00 \<noteq> 0" using 1 by simp
    have low: "\<not> bit v i" if "i < 8" for i using 1 b0 that by simp
    have "r < 8" "bit v (8 + r)" "\<forall>i < 8 + r. \<not> bit v i"
      using ffs_byte [of 8 v, unfolded m, OF _ ne low] by (simp_all add: r_def)
    moreover have "rt_ffs v = 8 + r + 1" using 1 ne assms by (simp add: rt_ffs_def r_def)
    ultimately show ?thesis by (intro exI [of _ "8 + r"]) simp
  next
    case 2
    define r where "r = lowest_bit_bitmap ! unat (drop_bit 16 (v AND 0xff0000))"
    have ne: "v AND 0xff0000 \<noteq> 0" using 2 by simp
    have low: "\<not> bit v i" if "i < 16" for i using 2 b0 b1 that by (cases "i < 8") auto
    have "r < 8" "bit v (16 + r)" "\<forall>i < 16 + r. \<not> bit v i"
      using ffs_byte [of 16 v, unfolded m, OF _ ne low] by (simp_all add: r_def)
    moreover have "rt_ffs v = 16 + r + 1" using 2 ne assms by (simp add: rt_ffs_def r_def)
    ultimately show ?thesis by (intro exI [of _ "16 + r"]) simp
  next
    case 3
    define r where "r = lowest_bit_bitmap ! unat (drop_bit 24 (v AND 0xff000000))"
    have low: "\<not> bit v i" if "i < 24" for i
      using 3 b0 b1 b2 that by (cases "i < 8"; cases "i < 16") auto
    obtain i where i: "bit v i" using assms by (auto simp: bit_eq_iff)
    then have "\<not> i < 24" "i < 32" using low bit_imp_le_length [of v i] by auto
    then have ne: "v AND 0xff000000 \<noteq> 0" using b3 [of i] i by auto
    have "r < 8" "bit v (24 + r)" "\<forall>i < 24 + r. \<not> bit v i"
      using ffs_byte [of 24 v, unfolded m, OF _ ne low] by (simp_all add: r_def)
    moreover have "rt_ffs v = 24 + r + 1" using 3 ne assms by (simp add: rt_ffs_def r_def)
    ultimately show ?thesis by (intro exI [of _ "24 + r"]) simp
  qed
qed

text \<open>\<open>__rt_ffs\<close> is zero exactly on the zero word, and is \<open>p + 1\<close> exactly when bit \<open>p\<close> is set and no
  lower bit is: the table-driven code finds the lowest set bit of every 32-bit word.\<close>

theorem rt_ffs_lowest_set_bit:
  "(rt_ffs v = 0 \<longleftrightarrow> v = 0) \<and> (rt_ffs v = Suc p \<longleftrightarrow> bit v p \<and> (\<forall>i < p. \<not> bit v i))"
proof (cases "v = 0")
  case True
  then show ?thesis by (simp add: rt_ffs_def)
next
  case False
  then obtain q where q: "rt_ffs v = q + 1" "bit v q" "\<forall>i < q. \<not> bit v i" using rt_ffs_spec by blast
  then have "bit v p \<and> (\<forall>i < p. \<not> bit v i) \<longleftrightarrow> p = q" using linorder_neqE_nat [of p q] by blast
  then show ?thesis using False q(1) by auto
qed

theorem rt_ffs_lowest_set_bit_witness:
  "rt_ffs 0x300000 = 21 \<and> bit (0x300000 :: u32) 20 \<and> \<not> bit (0x300000 :: u32) 7"
proof -
  have "rt_ffs 0x300000 = Suc 20" by (simp add: rt_ffs_def lowest_bit_bitmap_def)
  with rt_ffs_lowest_set_bit [of "0x300000" 20] show ?thesis by auto
qed

end
