(* ===== verification/Scheduler.thy ===== *)
theory Scheduler
  imports Kernel_State Ffs
begin

text \<open>
  The scheduler of \<open>src/scheduler.c\<close>, uniprocessor branches: the ready lists per priority, the
  bitmap of non-empty lists, and the choice of the thread to run. \<open>rt_hw_context_switch\<close> and
  \<open>rt_hw_context_switch_interrupt\<close> are assembly: at the level of the kernel state a switch is the
  assignment of \<open>rt_current_thread\<close>. The well-formedness predicate \<open>sched_wf\<close> is what all kernel
  services keep; the main result is that after \<open>rt_schedule\<close> the current thread is a ready thread
  of the highest priority.
\<close>

section \<open>Operations\<close>

definition rt_system_scheduler_init :: "kernel \<Rightarrow> kernel" where
  "rt_system_scheduler_init k =
     k\<lparr>rt_scheduler_lock_nest := 0,
       tlists := (\<lambda>l. case l of
                    LReady p \<Rightarrow> if p < 32 then [] else tlists k l
                  | LDefunct \<Rightarrow> []
                  | _ \<Rightarrow> tlists k l),
       rt_thread_ready_priority_group := 0\<rparr>"

definition get_highest_priority_thread :: "kernel \<Rightarrow> tid \<times> nat" where
  "get_highest_priority_thread k =
     (let highest_ready_priority = rt_ffs (rt_thread_ready_priority_group k) - 1
      in (hd (tlists k (LReady highest_ready_priority)), highest_ready_priority))"

definition rt_schedule_insert_thread :: "tid \<Rightarrow> kernel \<Rightarrow> kernel" where
  "rt_schedule_insert_thread t k =
     (let k = upd_thread t (\<lambda>th. th\<lparr>th_stat := RT_THREAD_READY\<rparr>) k in
      if rt_current_thread k = Some t then k
      else
        let k = tlist_insert_tail (LReady (prio k t)) t k
        in k\<lparr>rt_thread_ready_priority_group :=
               rt_thread_ready_priority_group k OR th_number_mask (threads k t)\<rparr>)"

definition rt_schedule_remove_thread :: "tid \<Rightarrow> kernel \<Rightarrow> kernel" where
  "rt_schedule_remove_thread t k =
     (let k = tlist_remove t k in
      if tlist_isempty (LReady (prio k t)) k
      then k\<lparr>rt_thread_ready_priority_group :=
               rt_thread_ready_priority_group k AND NOT (th_number_mask (threads k t))\<rparr>
      else k)"

text \<open>\<open>_rt_scheduler_stack_check\<close>: on an overflow the code prints, disables interrupts (they are
  already disabled) and spins. The warning branch only prints.\<close>

definition stack_overflow :: "rt_thread \<Rightarrow> bool" where
  "stack_overflow th \<longleftrightarrow>
     th_stack_guard th \<noteq> CHR ''#'' \<or> th_sp th \<le> th_stack_addr th \<or>
     th_sp th > th_stack_addr th + th_stack_size th"

definition rt_scheduler_stack_check :: "tid \<Rightarrow> kernel \<Rightarrow> kernel" where
  "rt_scheduler_stack_check t k = (if stack_overflow (threads k t) then k\<lparr>halted := True\<rparr> else k)"

definition rt_system_scheduler_start :: "kernel \<Rightarrow> kernel" where
  "rt_system_scheduler_start k =
     (let (to_thread, _) = get_highest_priority_thread k;
          k = k\<lparr>rt_current_thread := Some to_thread\<rparr>
      in rt_schedule_remove_thread to_thread k)"

definition rt_schedule :: "kernel \<Rightarrow> kernel" where
  "rt_schedule k =
     (if rt_scheduler_lock_nest k = 0 then
        if rt_thread_ready_priority_group k \<noteq> 0 then
          let (to_thread, highest_ready_priority) = get_highest_priority_thread k;
              cur = self k;
              (to_thread, need_insert_from_thread) =
                (if stat k cur = RT_THREAD_READY then
                   if prio k cur < highest_ready_priority then (cur, False) else (to_thread, True)
                 else (to_thread, False))
          in if to_thread \<noteq> cur then
               let from_thread = cur;
                   k = k\<lparr>rt_current_priority := highest_ready_priority,
                         rt_current_thread := Some to_thread\<rparr>;
                   k = (if need_insert_from_thread then rt_schedule_insert_thread from_thread k else k);
                   k = rt_schedule_remove_thread to_thread k
               in rt_scheduler_stack_check to_thread k
             else rt_schedule_remove_thread cur k
        else k
      else k)"

text \<open>The lock counter is a signed 16-bit static; \<open>++\<close> on it wraps at that width.\<close>

definition as_s16 :: "int \<Rightarrow> int" where
  "as_s16 x = (x + 2 ^ 15) mod 2 ^ 16 - 2 ^ 15"

definition rt_enter_critical :: "kernel \<Rightarrow> kernel" where
  "rt_enter_critical k = k\<lparr>rt_scheduler_lock_nest := as_s16 (rt_scheduler_lock_nest k + 1)\<rparr>"

definition rt_exit_critical :: "kernel \<Rightarrow> kernel" where
  "rt_exit_critical k =
     (let k = k\<lparr>rt_scheduler_lock_nest := as_s16 (rt_scheduler_lock_nest k - 1)\<rparr> in
      if rt_scheduler_lock_nest k \<le> 0
      then rt_schedule (k\<lparr>rt_scheduler_lock_nest := 0\<rparr>)
      else k)"

definition rt_critical_level :: "kernel \<Rightarrow> nat" where
  "rt_critical_level k = nat (rt_scheduler_lock_nest k mod 2 ^ 16)"

section \<open>Well-formed scheduler states\<close>

text \<open>
  \<open>started\<close> threads have a priority below 32 and the matching bit mask. A thread is linked into at
  most one list; the ready lists hold exactly the ready threads but the current one, under their
  priority; the bitmap says which ready lists are non-empty; waiting lists hold suspended threads.
\<close>

definition started :: "rt_thread \<Rightarrow> bool" where
  "started th \<longleftrightarrow> th_stat th = RT_THREAD_READY \<or> th_stat th = RT_THREAD_SUSPEND"

definition mask_ok :: "rt_thread \<Rightarrow> bool" where
  "mask_ok th \<longleftrightarrow> th_current_priority th < 32 \<and>
     th_number_mask th = push_bit (th_current_priority th) 1"

fun is_wait_list :: "lid \<Rightarrow> bool" where
  "is_wait_list (LReady p) = False"
| "is_wait_list LDefunct = False"
| "is_wait_list l = True"

definition sched_wf :: "kernel \<Rightarrow> bool" where
  "sched_wf k \<longleftrightarrow>
     disjoint_lists (tlists k) \<and>
     (\<forall>p. bit (rt_thread_ready_priority_group k) p \<longleftrightarrow> tlists k (LReady p) \<noteq> []) \<and>
     (\<forall>p t. t \<in> set (tlists k (LReady p)) \<longrightarrow>
        stat k t = RT_THREAD_READY \<and> prio k t = p \<and> rt_current_thread k \<noteq> Some t) \<and>
     (\<forall>l t. is_wait_list l \<and> t \<in> set (tlists k l) \<longrightarrow> stat k t = RT_THREAD_SUSPEND) \<and>
     (\<forall>t. t \<in> set (tlists k LDefunct) \<longrightarrow> stat k t = RT_THREAD_CLOSE) \<and>
     (\<forall>t. started (threads k t) \<longrightarrow> mask_ok (threads k t)) \<and>
     (\<forall>t. stat k t = RT_THREAD_READY \<longrightarrow>
        rt_current_thread k = Some t \<or> t \<in> set (tlists k (LReady (prio k t))))"

lemma sched_wfD:
  assumes "sched_wf k"
  shows "disjoint_lists (tlists k)"
    and "bit (rt_thread_ready_priority_group k) p \<longleftrightarrow> tlists k (LReady p) \<noteq> []"
    and "t \<in> set (tlists k (LReady p)) \<Longrightarrow> stat k t = RT_THREAD_READY"
    and "t \<in> set (tlists k (LReady p)) \<Longrightarrow> prio k t = p"
    and "t \<in> set (tlists k (LReady p)) \<Longrightarrow> rt_current_thread k \<noteq> Some t"
    and "is_wait_list l \<Longrightarrow> t \<in> set (tlists k l) \<Longrightarrow> stat k t = RT_THREAD_SUSPEND"
    and "t \<in> set (tlists k LDefunct) \<Longrightarrow> stat k t = RT_THREAD_CLOSE"
    and "started (threads k t) \<Longrightarrow> mask_ok (threads k t)"
    and "stat k t = RT_THREAD_READY \<Longrightarrow> rt_current_thread k \<noteq> Some t \<Longrightarrow>
         t \<in> set (tlists k (LReady (prio k t)))"
  using assms by (auto simp: sched_wf_def)

lemma bit_or_push: "bit (g OR push_bit p 1 :: u32) q \<longleftrightarrow> bit g q \<or> q = p \<and> p < 32"
  by (auto simp: bit_simps)

lemma bit_and_not_push: "bit (g AND NOT (push_bit p 1) :: u32) q \<longleftrightarrow> bit g q \<and> q \<noteq> p"
  using bit_imp_le_length [of g q] by (auto simp: bit_simps)

text \<open>
  Inside a kernel service a thread may be in transit: unlinked, with a state that does not say so
  yet. \<open>sched_ok X c\<close> is well-formedness with the threads of \<open>X\<close> in transit and \<open>c\<close> in the role of the
  current thread.
\<close>

definition sched_ok :: "tid set \<Rightarrow> tid option \<Rightarrow> kernel \<Rightarrow> bool" where
  "sched_ok X c k \<longleftrightarrow>
     disjoint_lists (tlists k) \<and>
     (\<forall>p. bit (rt_thread_ready_priority_group k) p \<longleftrightarrow> tlists k (LReady p) \<noteq> []) \<and>
     (\<forall>t l. t \<in> X \<longrightarrow> t \<notin> set (tlists k l)) \<and>
     (\<forall>p t. t \<in> set (tlists k (LReady p)) \<longrightarrow> stat k t = RT_THREAD_READY \<and> prio k t = p \<and> c \<noteq> Some t) \<and>
     (\<forall>l t. is_wait_list l \<and> t \<in> set (tlists k l) \<longrightarrow> stat k t = RT_THREAD_SUSPEND) \<and>
     (\<forall>t. t \<in> set (tlists k LDefunct) \<longrightarrow> stat k t = RT_THREAD_CLOSE) \<and>
     (\<forall>t. t \<notin> X \<and> started (threads k t) \<longrightarrow> mask_ok (threads k t)) \<and>
     (\<forall>t. t \<notin> X \<and> stat k t = RT_THREAD_READY \<longrightarrow> c = Some t \<or> t \<in> set (tlists k (LReady (prio k t))))"

lemma sched_wf_ok: "sched_wf k \<longleftrightarrow> sched_ok {} (rt_current_thread k) k"
  by (simp add: sched_wf_def sched_ok_def)

lemma sched_okD:
  assumes "sched_ok X c k"
  shows "disjoint_lists (tlists k)"
    and "bit (rt_thread_ready_priority_group k) p \<longleftrightarrow> tlists k (LReady p) \<noteq> []"
    and "t \<in> X \<Longrightarrow> t \<notin> set (tlists k l)"
    and "t \<in> set (tlists k (LReady p)) \<Longrightarrow> stat k t = RT_THREAD_READY \<and> prio k t = p \<and> c \<noteq> Some t"
    and "is_wait_list l \<Longrightarrow> t \<in> set (tlists k l) \<Longrightarrow> stat k t = RT_THREAD_SUSPEND"
    and "t \<in> set (tlists k LDefunct) \<Longrightarrow> stat k t = RT_THREAD_CLOSE"
    and "t \<notin> X \<Longrightarrow> started (threads k t) \<Longrightarrow> mask_ok (threads k t)"
    and "t \<notin> X \<Longrightarrow> stat k t = RT_THREAD_READY \<Longrightarrow> c \<noteq> Some t \<Longrightarrow>
         t \<in> set (tlists k (LReady (prio k t)))"
  using assms by (auto simp: sched_ok_def)

text \<open>Only the thread structs, the thread lists and the bitmap matter.\<close>

lemma sched_ok_cong:
  "threads k' = threads k \<Longrightarrow> tlists k' = tlists k \<Longrightarrow>
   rt_thread_ready_priority_group k' = rt_thread_ready_priority_group k \<Longrightarrow>
   sched_ok X c k' = sched_ok X c k"
  by (simp add: sched_ok_def)

lemma linked_by_stat:
  assumes "sched_ok X c k" "t \<in> set (tlists k l)"
  shows "stat k t = RT_THREAD_READY \<and> l = LReady (prio k t) \<and> c \<noteq> Some t \<or>
    stat k t = RT_THREAD_SUSPEND \<and> is_wait_list l \<or> stat k t = RT_THREAD_CLOSE \<and> l = LDefunct"
proof (cases "is_wait_list l")
  case True
  then show ?thesis using sched_okD(5) [OF assms(1) True assms(2)] by simp
next
  case False
  then show ?thesis using sched_okD(4,6) [OF assms(1)] assms(2) by (cases l) auto
qed

lemma current_ready_unlinked:
  "sched_ok X (Some t) k \<Longrightarrow> stat k t = RT_THREAD_READY \<Longrightarrow> t \<notin> set (tlists k l)"
  using linked_by_stat [of X "Some t" k t l] by auto

lemma init_unlinked: "sched_ok X c k \<Longrightarrow> stat k t = RT_THREAD_INIT \<Longrightarrow> t \<notin> set (tlists k l)"
  using linked_by_stat [of X c k t l] by auto

section \<open>Preservation\<close>

lemma unlinked_transit:
  "sched_ok X c k \<Longrightarrow> (\<And>l. t \<notin> set (tlists k l)) \<Longrightarrow> sched_ok (insert t X) c k"
  by (auto simp: sched_ok_def)

lemma transit_upd_thread:
  assumes "sched_ok (insert t X) c k"
  shows "sched_ok (insert t X) c (upd_thread t g k)"
  using assms sched_okD(3) [OF assms, of t] unfolding sched_ok_def by (auto simp: upd_thread_def)

text \<open>Arrival: a thread in transit may stop being so once its state tells the truth.\<close>

lemma transit_done:
  assumes "sched_ok (insert t X) c k" "t \<notin> X"
    and "started (threads k t) \<Longrightarrow> mask_ok (threads k t)"
    and "stat k t = RT_THREAD_READY \<Longrightarrow> c = Some t"
  shows "sched_ok X c k"
proof -
  note d = sched_okD [OF assms(1)]
  have "mask_ok (threads k u)" if "u \<notin> X" "started (threads k u)" for u
    using d(7) [of u] assms(3) that by (cases "u = t") simp_all
  moreover have "c = Some u \<or> u \<in> set (tlists k (LReady (prio k u)))"
    if "u \<notin> X" "stat k u = RT_THREAD_READY" for u
    using d(8) [of u] assms(4) that by (cases "u = t"; cases "c = Some u") simp_all
  ultimately show ?thesis using d(1-6) unfolding sched_ok_def by blast
qed

text \<open>Changing the thread in the role of the current one.\<close>

lemma current_change:
  assumes "sched_ok X c k"
    and "\<And>t. c' = Some t \<Longrightarrow> (\<And>p. t \<notin> set (tlists k (LReady p)))"
    and "\<And>t. c = Some t \<Longrightarrow> c' \<noteq> c \<Longrightarrow> t \<in> X \<or> stat k t \<noteq> RT_THREAD_READY"
  shows "sched_ok X c' k"
  using assms unfolding sched_ok_def by blast

lemma insert_ready:
  assumes ok: "sched_ok {t} c k" and cur: "rt_current_thread k \<noteq> Some t" "c \<noteq> Some t"
    and mask: "mask_ok (threads k t)"
  shows "sched_ok {} c (rt_schedule_insert_thread t k)"
proof -
  note d = sched_okD [OF ok]
  have un: "t \<notin> set (tlists k l)" for l using d(3) by simp
  let ?p = "prio k t"
  let ?k = "rt_schedule_insert_thread t k"
  have tl: "tlists ?k = (tlists k)(LReady ?p := tlists k (LReady ?p) @ [t])"
    and th: "threads ?k = (threads k)(t := (threads k t)\<lparr>th_stat := RT_THREAD_READY\<rparr>)"
    and gr: "rt_thread_ready_priority_group ?k = rt_thread_ready_priority_group k OR push_bit ?p 1"
    using cur mask by (simp_all add: rt_schedule_insert_thread_def state_defs Let_def mask_ok_def)
  have "disjoint_lists (tlists ?k)"
    using tl.insert_tail [of k "tlists k" t "LReady ?p"] d(1) un unfolding tl by (simp add: state_defs)
  moreover have "\<forall>p. bit (rt_thread_ready_priority_group ?k) p \<longleftrightarrow> tlists ?k (LReady p) \<noteq> []"
    using d(2) mask unfolding tl gr bit_or_push by (auto simp: mask_ok_def)
  moreover have "\<forall>u. started (threads ?k u) \<longrightarrow> mask_ok (threads ?k u)"
    using d(7) mask unfolding th by (auto simp: mask_ok_def)
  moreover have "\<forall>p u. u \<in> set (tlists ?k (LReady p)) \<longrightarrow>
      stat ?k u = RT_THREAD_READY \<and> prio ?k u = p \<and> c \<noteq> Some u"
    using d(4) cur un unfolding tl th by auto
  moreover have "\<forall>l u. is_wait_list l \<and> u \<in> set (tlists ?k l) \<longrightarrow> stat ?k u = RT_THREAD_SUSPEND"
    using d(5) un unfolding tl th by (auto split: if_splits)
  moreover have "\<forall>u. u \<in> set (tlists ?k LDefunct) \<longrightarrow> stat ?k u = RT_THREAD_CLOSE"
    using d(6) un unfolding tl th by auto
  moreover have "c = Some u \<or> u \<in> set (tlists ?k (LReady (prio ?k u)))"
    if "stat ?k u = RT_THREAD_READY" for u
  proof (cases "u = t")
    case True
    then show ?thesis unfolding tl th by simp
  next
    case False
    then have "c = Some u \<or> u \<in> set (tlists k (LReady (prio k u)))"
      using d(8) [of u] that unfolding th by (cases "c = Some u") simp_all
    then show ?thesis using False unfolding tl th by auto
  qed
  ultimately show ?thesis unfolding sched_ok_def by simp
qed

lemma insert_ready_current:
  assumes "sched_ok {t} (Some t) k" "rt_current_thread k = Some t" "mask_ok (threads k t)"
  shows "sched_ok {} (Some t) (rt_schedule_insert_thread t k)"
proof -
  have "rt_schedule_insert_thread t k = upd_thread t (\<lambda>th. th\<lparr>th_stat := RT_THREAD_READY\<rparr>) k"
    using assms(2) by (simp add: rt_schedule_insert_thread_def upd_thread_def)
  moreover have "sched_ok {} (Some t) (upd_thread t (\<lambda>th. th\<lparr>th_stat := RT_THREAD_READY\<rparr>) k)"
    by (rule transit_done [OF transit_upd_thread [OF assms(1)]])
      (use assms(3) in \<open>simp_all add: upd_thread_def mask_ok_def\<close>)
  ultimately show ?thesis by simp
qed

lemma remove_ready:
  assumes ok: "sched_ok X c k" and mask: "mask_ok (threads k t) \<or> th_number_mask (threads k t) = 0"
    and cl: "\<And>p. t \<in> set (tlists k (LReady p)) \<Longrightarrow> mask_ok (threads k t)"
  shows "sched_ok (insert t X) c (rt_schedule_remove_thread t k)"
proof -
  note d = sched_okD [OF ok]
  let ?k = "rt_schedule_remove_thread t k"
  have tl: "tlists ?k = removed t (tlists k)" and th: "threads ?k = threads k"
    by (simp_all add: rt_schedule_remove_thread_def state_defs Let_def)
  have other: "removed t (tlists k) (LReady p) = tlists k (LReady p)" if "p \<noteq> prio k t" for p
  proof -
    have "t \<notin> set (tlists k (LReady p))" using d(4) [of t p] that by auto
    then show ?thesis by (simp add: removed_def)
  qed
  have "bit (rt_thread_ready_priority_group ?k) p \<longleftrightarrow> tlists ?k (LReady p) \<noteq> []" for p
  proof (cases "mask_ok (threads k t)")
    case True
    then have m: "th_number_mask (threads k t) = push_bit (prio k t) 1" by (simp add: mask_ok_def)
    have "bit (rt_thread_ready_priority_group ?k) p \<longleftrightarrow> bit (rt_thread_ready_priority_group k) p \<and>
        (p = prio k t \<longrightarrow> removed t (tlists k) (LReady p) \<noteq> [])"
      by (auto simp: rt_schedule_remove_thread_def state_defs Let_def m bit_and_not_push simp del: push_bit_of_1)
    moreover have "removed t (tlists k) (LReady p) \<noteq> [] \<Longrightarrow> tlists k (LReady p) \<noteq> []"
      by (auto simp: removed_def)
    ultimately show ?thesis
      using other [of p] d(2) [of p] unfolding tl by (cases "p = prio k t") auto
  next
    case False
    with mask cl have "th_number_mask (threads k t) = 0" "\<And>p. t \<notin> set (tlists k (LReady p))" by auto
    then have "rt_thread_ready_priority_group ?k = rt_thread_ready_priority_group k"
      "removed t (tlists k) (LReady p) = tlists k (LReady p)"
      by (simp_all add: rt_schedule_remove_thread_def state_defs Let_def removed_def)
    then show ?thesis using d(2) unfolding tl by simp
  qed
  moreover have "disjoint_lists (tlists ?k)" unfolding tl using d(1) by (rule disjoint_lists_removed)
  ultimately show ?thesis using d(3-8) unfolding sched_ok_def th
    by (simp only: tl removed_apply) blast
qed

lemma insert_fields [simp]:
  "rt_current_thread (rt_schedule_insert_thread t k) = rt_current_thread k"
  "threads (rt_schedule_insert_thread t k) = (threads k)(t := (threads k t)\<lparr>th_stat := RT_THREAD_READY\<rparr>)"
  "rt_scheduler_lock_nest (rt_schedule_insert_thread t k) = rt_scheduler_lock_nest k"
  by (simp_all add: rt_schedule_insert_thread_def state_defs Let_def)

lemma insert_tlists:
  "tlists (rt_schedule_insert_thread t k) =
     (if rt_current_thread k = Some t then tlists k
      else (tlists k)(LReady (prio k t) := tlists k (LReady (prio k t)) @ [t]))"
  by (simp add: rt_schedule_insert_thread_def state_defs Let_def)

lemma remove_fields [simp]:
  "rt_current_thread (rt_schedule_remove_thread t k) = rt_current_thread k"
  "threads (rt_schedule_remove_thread t k) = threads k"
  "tlists (rt_schedule_remove_thread t k) = removed t (tlists k)"
  "rt_scheduler_lock_nest (rt_schedule_remove_thread t k) = rt_scheduler_lock_nest k"
  by (simp_all add: rt_schedule_remove_thread_def state_defs Let_def)

lemma stack_check_fields [simp]:
  "rt_current_thread (rt_scheduler_stack_check t k) = rt_current_thread k"
  "threads (rt_scheduler_stack_check t k) = threads k"
  "tlists (rt_scheduler_stack_check t k) = tlists k"
  "rt_thread_ready_priority_group (rt_scheduler_stack_check t k) = rt_thread_ready_priority_group k"
  by (simp_all add: rt_scheduler_stack_check_def)


lemma remove_frame [simp]:
  "halted (rt_schedule_remove_thread t k) = halted k"
  by (simp add: rt_schedule_remove_thread_def state_defs Let_def)

section \<open>Choosing the thread to run\<close>

lemma highest_ready:
  assumes ok: "sched_ok X c k" and g: "rt_thread_ready_priority_group k \<noteq> 0"
    and h: "get_highest_priority_thread k = (t, p)"
  shows "t \<in> set (tlists k (LReady p))" and "p < 32"
    and "tlists k (LReady p) = t # tl (tlists k (LReady p))"
    and "\<And>u q. u \<in> set (tlists k (LReady q)) \<Longrightarrow> p \<le> q"
proof -
  obtain q where q: "rt_ffs (rt_thread_ready_priority_group k) = q + 1" "q < 32"
    "bit (rt_thread_ready_priority_group k) q" "\<forall>i<q. \<not> bit (rt_thread_ready_priority_group k) i"
    using rt_ffs_spec [OF g] by blast
  have pq: "p = q" "t = hd (tlists k (LReady p))"
    using h q(1) by (auto simp: get_highest_priority_thread_def Let_def)
  have ne: "tlists k (LReady p) \<noteq> []" using sched_okD(2) [OF ok, of p] q(3) pq(1) by simp
  show "t \<in> set (tlists k (LReady p))" using ne pq(2) by simp
  show "p < 32" using q(2) pq(1) by simp
  show "tlists k (LReady p) = t # tl (tlists k (LReady p))" using ne pq(2) by simp
  show "p \<le> r" if "u \<in> set (tlists k (LReady r))" for u r
  proof (rule ccontr)
    assume "\<not> p \<le> r"
    then have "\<not> bit (rt_thread_ready_priority_group k) r" using q(4) pq(1) by simp
    then show False using sched_okD(2) [OF ok, of r] that by auto
  qed
qed


lemma switch_to:
  assumes ok: "sched_ok {} None k" and h: "h \<in> set (tlists k (LReady p))"
  shows "sched_ok {} (Some h) (rt_schedule_remove_thread h k)"
proof -
  have m: "mask_ok (threads k h)"
    using sched_okD(7) [OF ok, of h] sched_okD(4) [OF ok h] by (simp add: started_def)
  have "sched_ok {h} None (rt_schedule_remove_thread h k)"
    using remove_ready [OF ok, of h] m by simp
  then have "sched_ok {h} (Some h) (rt_schedule_remove_thread h k)"
    by (rule current_change) simp_all
  then show ?thesis by (rule transit_done) (simp_all add: m)
qed

text \<open>The four ways through \<open>rt_schedule\<close>.\<close>

lemma rt_schedule_cases:
  assumes "sched_wf k" "rt_current_thread k = Some cur"
  obtains (idle) "rt_scheduler_lock_nest k \<noteq> 0 \<or> rt_thread_ready_priority_group k = 0" "rt_schedule k = k"
  | (stay) h p where "get_highest_priority_thread k = (h, p)" "rt_thread_ready_priority_group k \<noteq> 0"
      "stat k cur = RT_THREAD_READY" "prio k cur < p" "rt_schedule k = rt_schedule_remove_thread cur k"
  | (preempt) h p k1 where "get_highest_priority_thread k = (h, p)" "rt_thread_ready_priority_group k \<noteq> 0"
      "stat k cur = RT_THREAD_READY" "p \<le> prio k cur" "h \<noteq> cur"
      "k1 = k\<lparr>rt_current_priority := p, rt_current_thread := Some h\<rparr>"
      "rt_schedule k = rt_scheduler_stack_check h
         (rt_schedule_remove_thread h (rt_schedule_insert_thread cur k1))"
  | (switch) h p k1 where "get_highest_priority_thread k = (h, p)" "rt_thread_ready_priority_group k \<noteq> 0"
      "stat k cur \<noteq> RT_THREAD_READY" "h \<noteq> cur"
      "k1 = k\<lparr>rt_current_priority := p, rt_current_thread := Some h\<rparr>"
      "rt_schedule k = rt_scheduler_stack_check h (rt_schedule_remove_thread h k1)"
proof (cases "rt_scheduler_lock_nest k \<noteq> 0 \<or> rt_thread_ready_priority_group k = 0")
  case True
  then show ?thesis by (intro idle) (auto simp: rt_schedule_def)
next
  case False
  obtain h p where hp: "get_highest_priority_thread k = (h, p)" by fastforce
  have g: "rt_thread_ready_priority_group k \<noteq> 0" using False by simp
  have ok: "sched_ok {} (Some cur) k" using assms sched_wf_ok by simp
  have "h \<in> set (tlists k (LReady p))" by (rule highest_ready(1) [OF ok g hp])
  then have h: "stat k h = RT_THREAD_READY" "h \<noteq> cur" using sched_okD(4) [OF ok, of h p] by auto
  consider "stat k cur = RT_THREAD_READY" "prio k cur < p"
    | "stat k cur = RT_THREAD_READY" "p \<le> prio k cur" | "stat k cur \<noteq> RT_THREAD_READY" by linarith
  then show ?thesis
  proof cases
    case 1
    with False hp assms(2) show ?thesis by (intro stay [OF hp g]) (simp_all add: rt_schedule_def)
  next
    case 2
    with False hp assms(2) h show ?thesis
      by (intro preempt [OF hp g _ _ _ refl]) (simp_all add: rt_schedule_def)
  next
    case 3
    with False hp assms(2) h show ?thesis
      by (intro switch [OF hp g _ _ refl]) (simp_all add: rt_schedule_def)
  qed
qed

lemma rt_schedule_wf [wf_intros]:
  assumes wf: "sched_wf k" and cur: "rt_current_thread k = Some cur"
  shows "sched_wf (rt_schedule k)"
  using wf cur
proof (cases rule: rt_schedule_cases)
  case idle
  then show ?thesis using wf by simp
next
  case (stay h p)
  have ok: "sched_ok {} (Some cur) k" using wf cur sched_wf_ok by simp
  have m: "mask_ok (threads k cur)" using sched_okD(7) [OF ok, of cur] stay by (simp add: started_def)
  have "sched_ok {cur} (Some cur) (rt_schedule_remove_thread cur k)"
    using remove_ready [OF ok, of cur] m by simp
  then have "sched_ok {} (Some cur) (rt_schedule_remove_thread cur k)"
    by (rule transit_done) (simp_all add: m)
  then show ?thesis using stay cur by (simp add: sched_wf_ok)
next
  case (preempt h p k1)
  have ok: "sched_ok {} (Some cur) k" using wf cur sched_wf_ok by simp
  have m: "mask_ok (threads k cur)" using sched_okD(7) [OF ok, of cur] preempt by (simp add: started_def)
  have "sched_ok {cur} (Some cur) k"
    by (rule unlinked_transit [OF ok]) (rule current_ready_unlinked [OF ok preempt(3)])
  then have "sched_ok {cur} None k" by (rule current_change) simp_all
  then have "sched_ok {cur} None k1" using sched_ok_cong [of k1 k] preempt(6) by simp
  then have ok2: "sched_ok {} None (rt_schedule_insert_thread cur k1)"
    by (rule insert_ready) (use preempt m in simp_all)
  have "h \<in> set (tlists (rt_schedule_insert_thread cur k1) (LReady p))"
    using highest_ready(1) [OF ok preempt(2,1)] preempt(5,6)
    by (auto simp: insert_tlists)
  from switch_to [OF ok2 this] show ?thesis
    using preempt(6,7) sched_ok_cong [of "rt_schedule k" "rt_schedule_remove_thread h (rt_schedule_insert_thread cur k1)"]
    by (simp add: sched_wf_ok)
next
  case (switch h p k1)
  have ok: "sched_ok {} (Some cur) k" using wf cur sched_wf_ok by simp
  have "sched_ok {} None k" by (rule current_change [OF ok]) (use switch(3) in simp_all)
  then have ok2: "sched_ok {} None k1" using sched_ok_cong [of k1 k] switch(5) by simp
  have "h \<in> set (tlists k1 (LReady p))" using highest_ready(1) [OF ok switch(2,1)] switch(5) by simp
  from switch_to [OF ok2 this] show ?thesis
    using switch(5,6) sched_ok_cong [of "rt_schedule k" "rt_schedule_remove_thread h k1"]
    by (simp add: sched_wf_ok)
qed


lemma rt_schedule_threads [simp]:
  assumes "sched_wf k" "rt_current_thread k = Some cur"
  shows "threads (rt_schedule k) = threads k"
  using assms by (cases rule: rt_schedule_cases) (simp_all add: fun_upd_idem)

lemma rt_schedule_frame [frame_simps]:
  "rt_scheduler_lock_nest (rt_schedule k) = rt_scheduler_lock_nest k"
  "rt_interrupt_nest (rt_schedule k) = rt_interrupt_nest k" "rt_tick (rt_schedule k) = rt_tick k"
  "timers (rt_schedule k) = timers k" "rt_timer_list (rt_schedule k) = rt_timer_list k"
  "objects (rt_schedule k) = objects k" "rt_object_container (rt_schedule k) = rt_object_container k"
  "sems (rt_schedule k) = sems k" "mutexes (rt_schedule k) = mutexes k"
  "events (rt_schedule k) = events k" "mailboxes (rt_schedule k) = mailboxes k" "mqs (rt_schedule k) = mqs k" "mempools (rt_schedule k) = mempools k" "mp_words (rt_schedule k) = mp_words k"
  "completions (rt_schedule k) = completions k"
  "dataqueues (rt_schedule k) = dataqueues k"
  by (simp_all add: rt_schedule_def rt_scheduler_stack_check_def rt_schedule_insert_thread_def
      rt_schedule_remove_thread_def state_defs Let_def split: prod.split)

text \<open>Lists other than the ready lists keep their content; the current thread is never lost.\<close>

lemma removed_other_list:
  assumes "sched_ok X c k" "stat k t = RT_THREAD_READY" "l \<noteq> LReady (prio k t)"
  shows "removed t (tlists k) l = tlists k l"
proof -
  have "t \<notin> set (tlists k l)" using linked_by_stat [OF assms(1), of t l] assms(2,3) by auto
  then show ?thesis by (simp add: removed_def)
qed

lemma rt_schedule_wait_lists:
  assumes wf: "sched_wf k" and cur: "rt_current_thread k = Some cur" and l: "\<And>p. l \<noteq> LReady p"
  shows "tlists (rt_schedule k) l = tlists k l"
  using wf cur
proof (cases rule: rt_schedule_cases)
  case idle
  then show ?thesis by simp
next
  case (stay h p)
  have "sched_ok {} (Some cur) k" using wf cur sched_wf_ok by simp
  then show ?thesis using removed_other_list [of "{}" "Some cur" k cur l] stay l by simp
next
  case (preempt h p k1)
  have ok: "sched_ok {} (Some cur) k" using wf cur sched_wf_ok by simp
  have "stat k h = RT_THREAD_READY" using sched_okD(4) [OF ok highest_ready(1) [OF ok preempt(2,1)]] by simp
  then have "h \<notin> set (tlists k l)" using linked_by_stat [OF ok, of h l] l by auto
  then show ?thesis using preempt(5-7) l by (simp add: removed_def insert_tlists)
next
  case (switch h p k1)
  have ok: "sched_ok {} (Some cur) k" using wf cur sched_wf_ok by simp
  have "stat k h = RT_THREAD_READY" using sched_okD(4) [OF ok highest_ready(1) [OF ok switch(2,1)]] by simp
  then have "h \<notin> set (tlists k l)" using linked_by_stat [OF ok, of h l] l by auto
  then show ?thesis using switch(5,6) by (simp add: removed_def)
qed


lemma rt_schedule_current:
  assumes wf: "sched_wf k" and cur: "rt_current_thread k = Some cur"
  obtains t where "rt_current_thread (rt_schedule k) = Some t" "t = cur \<or> stat k t = RT_THREAD_READY"
  using wf cur
proof (cases rule: rt_schedule_cases)
  case (preempt h p k1)
  have ok: "sched_ok {} (Some cur) k" using wf cur sched_wf_ok by simp
  show ?thesis using that preempt(6,7) sched_okD(4) [OF ok highest_ready(1) [OF ok preempt(2,1)]] by simp
next
  case (switch h p k1)
  have ok: "sched_ok {} (Some cur) k" using wf cur sched_wf_ok by simp
  show ?thesis using that switch(5,6) sched_okD(4) [OF ok highest_ready(1) [OF ok switch(2,1)]] by simp
qed (use cur that in simp_all)

text \<open>Who runs after an unlocked \<open>rt_schedule\<close>.\<close>

lemma rt_schedule_highest:
  assumes wf: "sched_wf k" and cur: "rt_current_thread k = Some cur"
    and unlocked: "rt_scheduler_lock_nest k = 0" and some: "stat k u = RT_THREAD_READY"
  shows "stat k (self (rt_schedule k)) = RT_THREAD_READY" "prio k (self (rt_schedule k)) \<le> prio k u"
proof -
  have ok: "sched_ok {} (Some cur) k" using wf cur sched_wf_ok by simp
  have bound: "p \<le> prio k u" if "get_highest_priority_thread k = (h, p)"
    "rt_thread_ready_priority_group k \<noteq> 0" "u \<noteq> cur" for h p
    using highest_ready(4) [OF ok that(2,1)] sched_okD(8) [OF ok, of u] some that(3) by simp
  have hp: "stat k h = RT_THREAD_READY \<and> prio k h = p" if "get_highest_priority_thread k = (h, p)"
    "rt_thread_ready_priority_group k \<noteq> 0" for h p
    using sched_okD(4) [OF ok highest_ready(1) [OF ok that(2,1)]] by simp
  have "stat k (self (rt_schedule k)) = RT_THREAD_READY \<and> prio k (self (rt_schedule k)) \<le> prio k u"
    using wf cur
  proof (cases rule: rt_schedule_cases)
    case idle
    then have "tlists k (LReady p) = []" for p using unlocked sched_okD(2) [OF ok, of p] by simp
    then have "u = cur" using sched_okD(8) [OF ok, of u] some by auto
    then show ?thesis using idle cur some by simp
  next
    case (stay h p)
    then show ?thesis using bound [of h p] cur by (cases "u = cur") auto
  next
    case (preempt h p k1)
    then show ?thesis using bound [of h p] hp [of h p] cur by (cases "u = cur") auto
  next
    case (switch h p k1)
    then show ?thesis using bound [of h p] hp [of h p] cur some by (cases "u = cur") auto
  qed
  then show "stat k (self (rt_schedule k)) = RT_THREAD_READY"
    "prio k (self (rt_schedule k)) \<le> prio k u" by simp_all
qed


section \<open>Concrete states are well-formed\<close>

lemma demo_group:
  "bit (foldr (OR) (map (\<lambda>t. push_bit (prio demo_kernel t) 1) rs) (0 :: u32)) p \<longleftrightarrow>
   filter (\<lambda>t. prio demo_kernel t = p) rs \<noteq> []"
proof (induction rs)
  case (Cons t rs)
  have "prio demo_kernel t < 32" by (simp add: demo_kernel_def demo_thread_def)
  then show ?case using Cons.IH by (simp only: foldr.simps list.map comp_apply bit_or_iff) (auto simp: bit_simps)
qed simp

lemma demo_running_wf:
  assumes "distinct (c # rs @ ws)" "is_wait_list l"
  shows "sched_wf (demo_running c rs l ws)"
proof -
  have 1: "disjoint_lists (tlists (demo_running c rs l ws))"
    using assms unfolding disjoint_lists_def demo_running_def by (auto split: lid.splits if_splits)
  have 2: "bit (rt_thread_ready_priority_group (demo_running c rs l ws)) p \<longleftrightarrow>
      tlists (demo_running c rs l ws) (LReady p) \<noteq> []" for p
    using demo_group [of rs p] by (simp add: demo_running_def del: push_bit_of_1)
  have 3: "mask_ok (threads (demo_running c rs l ws) t)" for t
    by (simp add: demo_running_def demo_kernel_def demo_thread_def mask_ok_def)
  show ?thesis unfolding sched_wf_def using 1 2 3 assms
    by (auto simp: demo_running_def split: lid.splits if_splits)
qed


section \<open>Properties\<close>

text \<open>
  C7. \<open>rt_schedule\<close>, with the scheduler not locked and some thread \<open>u\<close> ready, keeps the scheduler
  state well-formed, changes no thread struct, and leaves a ready thread running that no ready
  thread exceeds in priority (a smaller number is a higher priority).
\<close>

theorem rt_schedule_runs_highest_priority:
  assumes "sched_wf k" "rt_current_thread k = Some cur" "rt_scheduler_lock_nest k = 0"
    and "stat k u = RT_THREAD_READY"
  shows "sched_wf (rt_schedule k) \<and> threads (rt_schedule k) = threads k \<and>
    (\<exists>t. rt_current_thread (rt_schedule k) = Some t \<and> stat (rt_schedule k) t = RT_THREAD_READY \<and>
         prio (rt_schedule k) t \<le> prio (rt_schedule k) u)"
proof -
  obtain t where t: "rt_current_thread (rt_schedule k) = Some t" using rt_schedule_current [OF assms(1,2)] .
  show ?thesis
    using rt_schedule_wf [OF assms(1,2)] rt_schedule_threads [OF assms(1,2)]
      rt_schedule_highest [OF assms] t by simp
qed

theorem rt_schedule_runs_highest_priority_witness:
  "let k = demo_running 7 [9, 3, 5] (LSem 0) [1]
   in stat k 5 = RT_THREAD_READY \<and> sched_wf k \<and>
      (\<exists>t. rt_current_thread (rt_schedule k) = Some t \<and> stat (rt_schedule k) t = RT_THREAD_READY \<and>
         prio (rt_schedule k) t \<le> prio (rt_schedule k) 5)"
proof -
  let ?k = "demo_running 7 [9, 3, 5] (LSem 0) [1]"
  have h: "sched_wf ?k" "rt_current_thread ?k = Some 7" "rt_scheduler_lock_nest ?k = 0"
    "stat ?k 5 = RT_THREAD_READY"
    by (rule demo_running_wf) (simp_all add: demo_running_def demo_kernel_def)
  show ?thesis using rt_schedule_runs_highest_priority [OF h] h by (simp add: Let_def)
qed

text \<open>
  Round robin: when the running thread is ready and the best ready list is the one of its own
  priority, \<open>rt_schedule\<close> runs the head of that list and queues the running thread behind the
  others, so threads of equal priority take turns in the order of the list.
\<close>

theorem rt_schedule_round_robin:
  assumes "sched_wf k" "rt_current_thread k = Some cur" "rt_scheduler_lock_nest k = 0"
    and "stat k cur = RT_THREAD_READY" "tlists k (LReady (prio k cur)) = h # ts"
    and "\<And>q. q < prio k cur \<Longrightarrow> tlists k (LReady q) = []"
  shows "rt_current_thread (rt_schedule k) = Some h \<and>
    tlists (rt_schedule k) = (tlists k)(LReady (prio k cur) := ts @ [cur])"
proof -
  let ?p = "prio k cur"
  have ok: "sched_ok {} (Some cur) k" using assms sched_wf_ok by simp
  have un: "cur \<notin> set (tlists k l)" for l by (rule current_ready_unlinked [OF ok assms(4)])
  have g: "rt_thread_ready_priority_group k \<noteq> 0"
    using sched_okD(2) [OF ok, of ?p] assms(5) by auto
  obtain h' p where hp: "get_highest_priority_thread k = (h', p)" by fastforce
  note hr = highest_ready [OF ok g hp]
  have "p = ?p" using hr(1) hr(4) [of h ?p] assms(5,6) by (metis empty_iff empty_set leI le_antisym list.set_intros(1))
  then have h: "h' = h" "p = ?p" using hr(3) assms(5) by auto
  have ne: "h \<noteq> cur" using un [of "LReady ?p"] assms(5) by auto
  have d: "h \<notin> set (tlists k l)" if "l \<noteq> LReady ?p" for l
    using disjoint_listsD [OF sched_okD(1) [OF ok], of h l "LReady ?p"] assms(5) that by auto
  have dist: "h \<notin> set ts" using disjoint_lists_distinct [OF sched_okD(1) [OF ok], of "LReady ?p"] assms(5) by simp
  show ?thesis using assms(1,2)
  proof (cases rule: rt_schedule_cases)
    case (preempt h2 p2 k1)
    then show ?thesis using hp h ne d dist assms(5) by (auto simp: insert_tlists removed_def fun_eq_iff)
  qed (use assms hp h g in auto)
qed

theorem rt_schedule_round_robin_witness:
  "let k = (demo_running 9 [3, 4] LDefunct [])\<lparr>threads :=
       (\<lambda>t. demo_thread (if t \<in> {3, 4, 9} then RT_THREAD_READY else RT_THREAD_INIT) 5),
       tlists := (\<lambda>l. if l = LReady 5 then [3, 4] else []), rt_thread_ready_priority_group := 0x20\<rparr>
   in rt_current_thread (rt_schedule k) = Some 3 \<and> tlists (rt_schedule k) (LReady 5) = [4, 9]"
proof -
  let ?k = "(demo_running 9 [3, 4] LDefunct [])\<lparr>threads :=
       (\<lambda>t. demo_thread (if t \<in> {3, 4, 9} then RT_THREAD_READY else RT_THREAD_INIT) 5),
       tlists := (\<lambda>l. if l = LReady 5 then [3, 4] else []), rt_thread_ready_priority_group := 0x20\<rparr>"
  have e: "(0x20 :: int) = push_bit 5 1" by simp
  have g: "bit (0x20 :: int) p \<longleftrightarrow> p = 5" for p
    unfolding e bit_push_bit_iff_int bit_1_iff by auto
  have "sched_wf ?k"
    by (auto simp: sched_wf_def disjoint_lists_def demo_running_def demo_thread_def g started_def mask_ok_def)
  moreover have "rt_current_thread ?k = Some 9" "rt_scheduler_lock_nest ?k = 0" "stat ?k 9 = RT_THREAD_READY"
    "tlists ?k (LReady (prio ?k 9)) = [3, 4]" "\<And>q. q < prio ?k 9 \<Longrightarrow> tlists ?k (LReady q) = []"
    by (simp_all add: demo_running_def demo_kernel_def demo_thread_def)
  ultimately show ?thesis using rt_schedule_round_robin [of ?k 9 3 "[4]"]
    by (simp add: Let_def demo_thread_def)
qed

lemma as_s16_id: "- (2 ^ 15) \<le> x \<Longrightarrow> x < 2 ^ 15 \<Longrightarrow> as_s16 x = x"
  by (simp add: as_s16_def)

lemma enter_critical_pow:
  "rt_scheduler_lock_nest k = 0 \<Longrightarrow> n < 2 ^ 15 \<Longrightarrow>
   (rt_enter_critical ^^ n) k = k\<lparr>rt_scheduler_lock_nest := int n\<rparr>"
proof (induction n)
  case (Suc n)
  then show ?case by (simp add: rt_enter_critical_def as_s16_id add.commute)
qed simp

lemma exit_critical_pow:
  "m < n \<Longrightarrow> n < 2 ^ 15 \<Longrightarrow>
   (rt_exit_critical ^^ m) (k\<lparr>rt_scheduler_lock_nest := int n\<rparr>) = k\<lparr>rt_scheduler_lock_nest := int (n - m)\<rparr>"
proof (induction m)
  case (Suc m)
  then show ?case by (simp add: rt_exit_critical_def as_s16_id Let_def of_nat_diff)
qed simp

text \<open>
  Nested critical sections: after \<open>n\<close> calls of \<open>rt_enter_critical\<close> a reschedule does nothing,
  after fewer than \<open>n\<close> calls of \<open>rt_exit_critical\<close> it still does nothing, and the last one performs
  exactly the reschedule of the state before the section. The 16-bit counter allows \<open>n < 2^15\<close>.
\<close>

theorem critical_section_defers_schedule:
  assumes "rt_scheduler_lock_nest k = 0" "0 < n" "n < 2 ^ 15" "m < n"
  shows "(let locked = (rt_exit_critical ^^ m) ((rt_enter_critical ^^ n) k) in
            rt_schedule locked = locked \<and> locked = k\<lparr>rt_scheduler_lock_nest := int (n - m)\<rparr>) \<and>
    (rt_exit_critical ^^ n) ((rt_enter_critical ^^ n) k) = rt_schedule k"
proof -
  obtain j where j: "n = Suc j" using assms(2) by (cases n) auto
  have e: "k\<lparr>rt_scheduler_lock_nest := 0\<rparr> = k" using assms(1) by (cases k) simp
  have "(rt_exit_critical ^^ n) ((rt_enter_critical ^^ n) k) = rt_exit_critical (k\<lparr>rt_scheduler_lock_nest := 1\<rparr>)"
    using exit_critical_pow [of j n k] enter_critical_pow [OF assms(1,3)] assms(3) j by simp
  also have "\<dots> = rt_schedule (k\<lparr>rt_scheduler_lock_nest := 0\<rparr>)" by (simp add: rt_exit_critical_def as_s16_id)
  also note e
  finally show ?thesis
    using exit_critical_pow [OF assms(4,3), of k] enter_critical_pow [OF assms(1,3)] assms(4)
    by (simp add: rt_schedule_def)
qed

theorem critical_section_defers_schedule_witness:
  "(rt_exit_critical ^^ 2) ((rt_enter_critical ^^ 2) (demo_running 7 [3] LDefunct [])) =
   rt_schedule (demo_running 7 [3] LDefunct [])"
  using critical_section_defers_schedule [of "demo_running 7 [3] LDefunct []" 2 1]
  by (simp add: demo_running_def demo_kernel_def)

end
