(* ===== verification/Object.thy ===== *)
theory Object
  imports Scheduler
begin

text \<open>
  The object containers of \<open>src/object.c\<close>: every kernel object is linked into the list of its
  class and found again by name. The two string routines of \<open>src/kservice.c\<close> it rests on come
  first. The lists are inserted at the head, so the latest object of a name is the one found.
\<close>

section \<open>Bounded strings\<close>

abbreviation NUL :: char where "NUL \<equiv> CHR 0x00"

text \<open>A C string is the list of its characters; reading behind the end yields the terminator.\<close>

fun deref :: "string \<Rightarrow> char" where
  "deref [] = NUL"
| "deref (c # _) = c"

text \<open>\<open>rt_strncpy\<close>: the \<open>n\<close> bytes written to the destination.\<close>

fun rt_strncpy :: "string \<Rightarrow> nat \<Rightarrow> string" where
  "rt_strncpy src 0 = []"
| "rt_strncpy src (Suc n) =
     (if deref src = NUL then NUL # replicate n NUL else deref src # rt_strncpy (tl src) n)"

text \<open>\<open>rt_strncmp\<close>: \<open>__res\<close> is a signed char.\<close>

fun rt_strncmp :: "string \<Rightarrow> string \<Rightarrow> nat \<Rightarrow> int" where
  "rt_strncmp cs ct 0 = 0"
| "rt_strncmp cs ct (Suc count) =
     (let res = sint (of_char (deref cs) - of_char (deref ct) :: u8) in
      if res \<noteq> 0 \<or> deref cs = NUL then res else rt_strncmp (tl cs) (tl ct) count)"

abbreviation RT_NAME_MAX :: nat where "RT_NAME_MAX \<equiv> 8"

section \<open>Operations\<close>

text \<open>\<open>rt_object_get_information\<close>: the index loop over the initialised container array, whose
  classes follow the enum from \<open>Thread\<close> to \<open>Timer\<close>.\<close>

definition rt_object_classes :: "u8 list" where
  "rt_object_classes = [1, 2, 3, 4, 5, 6, 7, 8, 9, 10]"

definition rt_object_get_information :: "u8 \<Rightarrow> u8 option" where
  "rt_object_get_information ty = find (\<lambda>c. c = ty) rt_object_classes"

definition rt_object_init :: "obj \<Rightarrow> u8 \<Rightarrow> string \<Rightarrow> kernel \<Rightarrow> kernel" where
  "rt_object_init x ty name k =
     (let k = upd_object x (\<lambda>ob. ob\<lparr>ob_type := ty OR RT_Object_Class_Static,
                                   ob_name := rt_strncpy name RT_NAME_MAX\<rparr>) k
      in k\<lparr>rt_object_container := (rt_object_container k)(ty := x # rt_object_container k ty)\<rparr>)"

definition rt_object_detach :: "obj \<Rightarrow> kernel \<Rightarrow> kernel" where
  "rt_object_detach x k =
     (let k = upd_object x (\<lambda>ob. ob\<lparr>ob_type := 0\<rparr>) k
      in k\<lparr>rt_object_container := removed x (rt_object_container k)\<rparr>)"

text \<open>\<open>rt_memset(object, 0, object_size)\<close>, the object's struct by its class.\<close>

definition zero_thread :: rt_thread where
  "zero_thread =
     \<lparr>th_error = 0, th_stat = RT_THREAD_INIT, th_current_priority = 0, th_init_priority = 0,
      th_number_mask = 0, th_event_set = 0, th_event_info = 0, th_init_tick = 0,
      th_remaining_tick = 0, th_entry = 0, th_parameter = 0, th_sp = 0, th_stack_addr = 0,
      th_stack_size = 0, th_stack_guard = NUL, th_cleanup = None, th_user_data = 0\<rparr>"

definition zero_struct :: "obj \<Rightarrow> kernel \<Rightarrow> kernel" where
  "zero_struct x k = (case x of
       OThread t \<Rightarrow> k\<lparr>threads := (threads k)(t := zero_thread)\<rparr>
     | OSem n \<Rightarrow> k\<lparr>sems := (sems k)(n := \<lparr>sem_value = 0\<rparr>)\<rparr>
     | OMutex n \<Rightarrow> k\<lparr>mutexes := (mutexes k)(n :=
         \<lparr>mtx_value = 0, mtx_original_priority = 0, mtx_hold = 0, mtx_owner = None\<rparr>)\<rparr>
     | OEvent n \<Rightarrow> k\<lparr>events := (events k)(n := \<lparr>ev_set = 0\<rparr>)\<rparr>
     | OMailBox n \<Rightarrow> k\<lparr>mailboxes := (mailboxes k)(n :=
         \<lparr>mb_msg_pool = [], mb_size = 0, mb_entry = 0, mb_in_offset = 0, mb_out_offset = 0\<rparr>)\<rparr>
     | OMq n \<Rightarrow> k\<lparr>mqs := (mqs k)(n :=
         \<lparr>mq_msg_size = 0, mq_max_msgs = 0, mq_entry = 0, mq_next = (\<lambda>i. None),
          mq_data = (\<lambda>i. []), mq_head = None, mq_tail = None, mq_free = None\<rparr>)\<rparr>
     | OMemPool n \<Rightarrow> k\<lparr>mempools := (mempools k)(n :=
         \<lparr>mp_start_address = 0, mp_size = 0, mp_block_size = 0, mp_block_list = None,
          mp_block_total_count = 0, mp_block_free_count = 0, mp_suspend_thread_count = 0\<rparr>)\<rparr>
     | ODevice n \<Rightarrow> k   \<comment> \<open>a device is not created here but by \<open>rt_device_create\<close>\<close>
     | OTimer x \<Rightarrow> k\<lparr>timers := (timers k)(x :=
         \<lparr>tm_timeout_func = F_user 0, tm_init_tick = 0, tm_timeout_tick = 0\<rparr>)\<rparr>)"

text \<open>\<open>rt_object_allocate\<close>: the result of \<open>RT_KERNEL_MALLOC\<close> is the argument \<open>mem\<close>.\<close>

definition rt_object_allocate :: "u8 \<Rightarrow> string \<Rightarrow> obj option \<Rightarrow> kernel \<Rightarrow> obj option \<times> kernel" where
  "rt_object_allocate ty name mem k =
     (case mem of
        None \<Rightarrow> (None, k)
      | Some x \<Rightarrow>
          let k = zero_struct x k;
              k = upd_object x (\<lambda>ob. \<lparr>ob_name = rt_strncpy name RT_NAME_MAX, ob_type = ty, ob_flag = 0\<rparr>) k
          in (Some x, k\<lparr>rt_object_container :=
                (rt_object_container k)(ty := x # rt_object_container k ty)\<rparr>))"

text \<open>\<open>rt_object_delete\<close> up to \<open>RT_KERNEL_FREE\<close>, which acts on the heap only.\<close>

definition rt_object_delete :: "obj \<Rightarrow> kernel \<Rightarrow> kernel" where
  "rt_object_delete x k =
     (let k = upd_object x (\<lambda>ob. ob\<lparr>ob_type := 0\<rparr>) k
      in k\<lparr>rt_object_container := removed x (rt_object_container k)\<rparr>)"

definition rt_object_is_systemobject :: "obj \<Rightarrow> kernel \<Rightarrow> bool" where
  "rt_object_is_systemobject x k \<longleftrightarrow> ob_type (objects k x) AND RT_Object_Class_Static \<noteq> 0"

definition rt_object_get_type :: "obj \<Rightarrow> kernel \<Rightarrow> u8" where
  "rt_object_get_type x k = ob_type (objects k x) AND NOT RT_Object_Class_Static"

text \<open>
  \<open>rt_object_find\<close>: the search runs with the scheduler locked and ends in \<open>rt_exit_critical\<close>, which
  may switch threads. A class without container (0, 11, 12 pass the range check) makes the code
  read through a null pointer; the model stops there.
\<close>

definition rt_object_find :: "string \<Rightarrow> u8 \<Rightarrow> kernel \<Rightarrow> obj option \<times> kernel" where
  "rt_object_find name ty k =
     (if ty > 12 then (None, k)
      else
        let k = rt_enter_critical k in
        case rt_object_get_information ty of
          None \<Rightarrow> (None, k\<lparr>halted := True\<rparr>)
        | Some c \<Rightarrow>
            (find (\<lambda>x. rt_strncmp (ob_name (objects k x)) name RT_NAME_MAX = 0) (rt_object_container k c),
             rt_exit_critical k))"

section \<open>Facts on names\<close>

lemma of_char_u8_eq: "(of_char c :: u8) = of_char d \<longleftrightarrow> c = d"
proof
  assume "(of_char c :: u8) = of_char d"
  then have "unat (of_nat (of_char c) :: u8) = unat (of_nat (of_char d) :: u8)"
    by (simp add: of_nat_of_char)
  then show "c = d" by (simp add: unat_of_nat)
qed simp

lemma sint_char_diff_0: "sint (of_char c - of_char d :: u8) = 0 \<longleftrightarrow> c = d"
  using of_char_u8_eq [of c d] by (simp add: signed_eq_0_iff)

text \<open>A name is stored cut to eight characters; two names match when the cut names are equal.\<close>

definition cut_name :: "nat \<Rightarrow> string \<Rightarrow> string" where
  "cut_name n s = take n (takeWhile (\<lambda>c. c \<noteq> NUL) s)"

lemma cut_name_Suc:
  "cut_name (Suc n) s = (if deref s = NUL then [] else deref s # cut_name n (tl s))"
  by (cases s) (simp_all add: cut_name_def)

lemma rt_strncmp_cut: "rt_strncmp cs ct n = 0 \<longleftrightarrow> cut_name n cs = cut_name n ct"
proof (induction n arbitrary: cs ct)
  case 0
  then show ?case by (simp add: cut_name_def)
next
  case (Suc n)
  show ?case
    using Suc [of "tl cs" "tl ct"] sint_char_diff_0 [of "deref cs" "deref ct"]
    by (auto simp: cut_name_Suc Let_def)
qed

lemma cut_name_rt_strncpy: "cut_name n (rt_strncpy s n) = cut_name n s"
proof (induction n arbitrary: s)
  case (Suc n)
  show ?case using Suc [of "tl s"] by (simp add: cut_name_Suc)
qed (simp add: cut_name_def)

lemma rt_strncmp_rt_strncpy: "rt_strncmp (rt_strncpy s n) t n = 0 \<longleftrightarrow> cut_name n s = cut_name n t"
  by (simp add: rt_strncmp_cut cut_name_rt_strncpy)

lemma length_rt_strncpy: "length (rt_strncpy s n) = n"
  by (induction n arbitrary: s) simp_all

section \<open>The containers as a registry\<close>

text \<open>Objects are registered in one container at most, under the class in their type field.\<close>

definition obj_wf :: "kernel \<Rightarrow> bool" where
  "obj_wf k \<longleftrightarrow> disjoint_lists (rt_object_container k) \<and>
     (\<forall>c x. x \<in> set (rt_object_container k c) \<longrightarrow> rt_object_get_type x k = c)"

definition registered :: "obj \<Rightarrow> kernel \<Rightarrow> bool" where
  "registered x k \<longleftrightarrow> (\<exists>c. x \<in> set (rt_object_container k c))"

text \<open>
  The contract of a registry keyed by class and name: what is registered is found, the latest
  first; what is unregistered leaves the rest as it was. \<open>same\<close> says when two names are
  indistinguishable.
\<close>

locale name_registry =
  fixes inv :: "'s \<Rightarrow> bool"
    and known :: "'x \<Rightarrow> 's \<Rightarrow> bool"
    and class_ok :: "'c \<Rightarrow> bool"
    and same :: "'n \<Rightarrow> 'n \<Rightarrow> bool"
    and insert_obj :: "'x \<Rightarrow> 'c \<Rightarrow> 'n \<Rightarrow> 's \<Rightarrow> 's"
    and remove_obj :: "'x \<Rightarrow> 's \<Rightarrow> 's"
    and lookup :: "'n \<Rightarrow> 'c \<Rightarrow> 's \<Rightarrow> 'x option"
  assumes insert_inv: "inv s \<Longrightarrow> \<not> known x s \<Longrightarrow> class_ok c \<Longrightarrow> inv (insert_obj x c n s)"
    and insert_known: "known y (insert_obj x c n s) \<longleftrightarrow> y = x \<or> known y s"
    and remove_inv: "inv s \<Longrightarrow> inv (remove_obj x s)"
    and remove_known: "known y (remove_obj x s) \<longleftrightarrow> y \<noteq> x \<and> known y s"
    and lookup_insert: "inv s \<Longrightarrow> \<not> known x s \<Longrightarrow> class_ok c \<Longrightarrow>
      lookup m d (insert_obj x c n s) = (if d = c \<and> same n m then Some x else lookup m d s)"
    and lookup_remove: "inv s \<Longrightarrow> lookup m d s \<noteq> Some x \<Longrightarrow> lookup m d (remove_obj x s) = lookup m d s"
    and lookup_known: "lookup m d s = Some x \<Longrightarrow> known x s"
    and same_refl: "same n n"
begin

lemma register_unregister:
  assumes "inv s" "\<not> known x s" "class_ok c" "\<not> (d = c \<and> same n m)"
  shows "lookup m d (remove_obj x (insert_obj x c n s)) = lookup m d s"
proof -
  have 1: "lookup m d (insert_obj x c n s) = lookup m d s"
    using lookup_insert [OF assms(1-3)] assms(4) by auto
  have "lookup m d s \<noteq> Some x" using lookup_known [of m d s x] assms(2) by blast
  then show ?thesis using lookup_remove [OF insert_inv [OF assms(1-3)], where x = x and m = m and d = d] 1 by simp
qed

text \<open>A batch of registrations: each object is found under its name unless a later one shadows it.\<close>

lemma registered_found:
  assumes "inv s" "\<not> known x s" "class_ok c"
    and "distinct (map fst ys)" "x \<notin> fst ` set ys"
    and "\<forall>(y, d, m) \<in> set ys. \<not> known y s \<and> class_ok d \<and> \<not> (d = c \<and> same m n)"
  shows "lookup n c (foldr (\<lambda>(y, d, m). insert_obj y d m) ys (insert_obj x c n s)) = Some x \<and>
    inv (foldr (\<lambda>(y, d, m). insert_obj y d m) ys (insert_obj x c n s)) \<and>
    (\<forall>z. known z (foldr (\<lambda>(y, d, m). insert_obj y d m) ys (insert_obj x c n s)) \<longleftrightarrow>
       z = x \<or> z \<in> fst ` set ys \<or> known z s)"
  using assms(4-6)
proof (induction ys)
  case Nil
  then show ?case using lookup_insert [OF assms(1-3), of n c] same_refl insert_inv [OF assms(1-3)] insert_known by simp
next
  case (Cons e ys)
  obtain y d m where e: "e = (y, d, m)" by (cases e)
  let ?s = "foldr (\<lambda>(y, d, m). insert_obj y d m) ys (insert_obj x c n s)"
  have IH: "lookup n c ?s = Some x" "inv ?s" "\<And>z. known z ?s \<longleftrightarrow> z = x \<or> z \<in> fst ` set ys \<or> known z s"
    using Cons by (auto simp: e)
  have new: "\<not> known y ?s" "class_ok d" "\<not> (d = c \<and> same m n)"
    using Cons.prems IH(3) [of y] by (auto simp: e)
  show ?case
    using lookup_insert [OF IH(2) new(1,2), of n c m] IH insert_inv [OF IH(2) new(1,2)] new(3)
    by (auto simp: e insert_known)
qed

end

text \<open>The search result of \<open>rt_object_find\<close> alone.\<close>

definition lookup_object :: "string \<Rightarrow> u8 \<Rightarrow> kernel \<Rightarrow> obj option" where
  "lookup_object name c k =
     find (\<lambda>x. rt_strncmp (ob_name (objects k x)) name RT_NAME_MAX = 0) (rt_object_container k c)"

lemma find_cong: "(\<And>x. x \<in> set xs \<Longrightarrow> P x = Q x) \<Longrightarrow> find P xs = find Q xs"
  by (induction xs) auto

lemma find_removeAll: "find P xs \<noteq> Some x \<Longrightarrow> find P (removeAll x xs) = find P xs"
  by (induction xs) auto

lemma class_ok_plain: "c \<in> set rt_object_classes \<Longrightarrow> (c OR 0x80) AND NOT 0x80 = c \<and> c \<noteq> 0"
  by (auto simp: rt_object_classes_def)

interpretation reg: name_registry obj_wf registered "\<lambda>c. c \<in> set rt_object_classes"
  "\<lambda>n m. cut_name RT_NAME_MAX n = cut_name RT_NAME_MAX m" rt_object_init rt_object_detach lookup_object
proof
  fix s x c n m d
  assume a: "obj_wf s" "\<not> registered x s" "c \<in> set rt_object_classes"
  have un: "x \<notin> set (rt_object_container s e)" for e using a(2) by (auto simp: registered_def)
  show "obj_wf (rt_object_init x c n s)"
    using a(1) un class_ok_plain [OF a(3)]
      disjoint_lists_upd [of "rt_object_container s" x "x # rt_object_container s c" c]
      disjoint_lists_distinct [of "rt_object_container s" c]
    by (auto simp: obj_wf_def rt_object_init_def state_defs Let_def rt_object_get_type_def)
  have "find (\<lambda>y. rt_strncmp (ob_name (objects (rt_object_init x c n s) y)) m RT_NAME_MAX = 0)
      (rt_object_container s d) = lookup_object m d s"
    unfolding lookup_object_def using un
    by (intro find_cong) (auto simp: rt_object_init_def state_defs Let_def)
  moreover have "rt_object_container (rt_object_init x c n s) =
      (rt_object_container s)(c := x # rt_object_container s c)"
    "ob_name (objects (rt_object_init x c n s) x) = rt_strncpy n RT_NAME_MAX"
    by (simp_all add: rt_object_init_def state_defs Let_def)
  ultimately show "lookup_object m d (rt_object_init x c n s) =
      (if d = c \<and> cut_name RT_NAME_MAX n = cut_name RT_NAME_MAX m then Some x else lookup_object m d s)"
    by (cases "d = c") (simp_all add: lookup_object_def [of m _ "rt_object_init x c n s"] rt_strncmp_rt_strncpy)
next
  fix s m d x
  assume "obj_wf s" "lookup_object m d s \<noteq> Some x"
  moreover have "ob_name (objects (rt_object_detach x s) y) = ob_name (objects s y)"
    "rt_object_container (rt_object_detach x s) d = removeAll x (rt_object_container s d)" for y
    by (simp_all add: rt_object_detach_def state_defs Let_def removed_def)
  ultimately show "lookup_object m d (rt_object_detach x s) = lookup_object m d s"
    using find_removeAll [of _ "rt_object_container s d" x] by (simp add: lookup_object_def)
next
  fix s x
  assume "obj_wf s"
  then show "obj_wf (rt_object_detach x s)"
    by (auto simp: obj_wf_def rt_object_detach_def state_defs Let_def disjoint_lists_removed rt_object_get_type_def)
next
  fix y x c n s
  show "registered y (rt_object_init x c n s) \<longleftrightarrow> y = x \<or> registered y s"
    by (simp add: registered_def rt_object_init_def state_defs Let_def) (metis list.set_intros)
next
  fix m d s x
  assume "lookup_object m d s = Some x"
  then have "x \<in> set (rt_object_container s d)"
    unfolding lookup_object_def find_Some_iff by (metis nth_mem)
  then show "registered x s" by (auto simp: registered_def)
qed (auto simp: registered_def rt_object_detach_def state_defs Let_def)


section \<open>Properties\<close>

lemma get_information_ok: "c \<in> set rt_object_classes \<Longrightarrow> rt_object_get_information c = Some c"
  by (auto simp: rt_object_get_information_def rt_object_classes_def)

lemma class_le_12: "c \<in> set rt_object_classes \<Longrightarrow> \<not> c > 12"
  by (auto simp: rt_object_classes_def)

lemma exit_enter:
  assumes "rt_scheduler_lock_nest k = 0"
  shows "rt_exit_critical (rt_enter_critical k) = rt_schedule k"
proof -
  have e: "k\<lparr>rt_scheduler_lock_nest := 0\<rparr> = k" using assms by (cases k) simp
  have "rt_exit_critical (rt_enter_critical k) = rt_schedule (k\<lparr>rt_scheduler_lock_nest := 0\<rparr>)"
    using assms by (simp add: rt_exit_critical_def rt_enter_critical_def as_s16_id)
  then show ?thesis unfolding e .
qed

lemma rt_object_find_eq:
  assumes "c \<in> set rt_object_classes" "rt_scheduler_lock_nest k = 0"
  shows "rt_object_find name c k = (lookup_object name c k, rt_schedule k)"
  using class_le_12 [OF assms(1)] get_information_ok [OF assms(1)] exit_enter [OF assms(2)]
  by (simp add: rt_object_find_def lookup_object_def Let_def) (simp add: rt_enter_critical_def)

text \<open>
  C29. The object registry. After \<open>rt_object_init(x, c, name)\<close> of an unregistered object, a search
  finds \<open>x\<close> for this class and every name that agrees with \<open>name\<close> in its first eight characters, and
  any other search answers as before; detaching \<open>x\<close> gives back the answers from before the
  registration for the other names. A search ends in a reschedule.
\<close>

theorem rt_object_registry:
  assumes "obj_wf k" "\<not> registered x k" "c \<in> set rt_object_classes" "d \<in> set rt_object_classes"
    and "rt_scheduler_lock_nest k = 0"
  shows "obj_wf (rt_object_init x c name k) \<and>
    rt_object_find m d (rt_object_init x c name k) =
      (if d = c \<and> cut_name 8 name = cut_name 8 m then Some x else fst (rt_object_find m d k),
       rt_schedule (rt_object_init x c name k)) \<and>
    (\<not> (d = c \<and> cut_name 8 name = cut_name 8 m) \<longrightarrow>
       fst (rt_object_find m d (rt_object_detach x (rt_object_init x c name k))) = fst (rt_object_find m d k))"
proof -
  let ?k = "rt_object_init x c name k"
  have l: "rt_scheduler_lock_nest ?k = 0" "rt_scheduler_lock_nest (rt_object_detach x ?k) = 0"
    using assms(5) by (simp_all add: rt_object_init_def rt_object_detach_def state_defs Let_def)
  show ?thesis
    using reg.insert_inv [OF assms(1-3)] reg.lookup_insert [OF assms(1-3)]
      reg.register_unregister [OF assms(1-3), of d name m]
      rt_object_find_eq [OF assms(4)] l assms(5) by auto
qed

theorem rt_object_registry_witness:
  "let k = rt_object_init (OSem 3) 2 ''vcom_tx_semaphore'' demo_kernel
   in rt_object_find ''vcom_tx_lock'' 2 k = (Some (OSem 3), rt_schedule k) \<and>
      fst (rt_object_find ''vcom_rx'' 2 k) = None"
proof -
  have h: "obj_wf demo_kernel" "\<not> registered (OSem 3) demo_kernel" "2 \<in> set rt_object_classes"
    "rt_scheduler_lock_nest demo_kernel = 0"
    by (simp_all add: obj_wf_def registered_def demo_kernel_def disjoint_lists_def rt_object_classes_def)
  have "fst (rt_object_find ''vcom_rx'' 2 demo_kernel) = None"
    using rt_object_find_eq [OF h(3,4)] by (simp add: lookup_object_def demo_kernel_def)
  then show ?thesis
    using rt_object_registry [OF h(1-3) h(3,4), of "''vcom_tx_semaphore''" "''vcom_tx_lock''"]
      rt_object_registry [OF h(1-3) h(3,4), of "''vcom_tx_semaphore''" "''vcom_rx''"]
    by (simp add: Let_def cut_name_def)
qed

lemma object_sched_frame [frame_simps]:
  "sched_wf (rt_object_init x c n k) = sched_wf k" "sched_wf (rt_object_detach x k) = sched_wf k"
  "sched_wf (rt_object_delete x k) = sched_wf k"
  by (simp_all add: sched_wf_def rt_object_init_def rt_object_detach_def rt_object_delete_def state_defs Let_def)

end
