(* ===== verification/Timer.thy ===== *)
theory Timer
  imports Object
begin

text \<open>
  The hard timers of \<open>src/timer.c\<close> with one skip-list level (the default of \<open>rtdef.h\<close>; with one
  level the counter \<open>random_nr\<close> is without effect and the list is a plain sorted list). Ticks are
  32-bit words and every comparison is on the wrapped difference, as in the code. Sortedness is
  relative to a base tick: the theorems hold across the wrap of the tick counter.
\<close>

section \<open>Operations\<close>

abbreviation (input) RT_TIMER_FLAG_ACTIVATED :: u8 where "RT_TIMER_FLAG_ACTIVATED \<equiv> 1"
abbreviation (input) RT_TIMER_FLAG_PERIODIC :: u8 where "RT_TIMER_FLAG_PERIODIC \<equiv> 2"
abbreviation (input) RT_TICK_MAX :: tick where "RT_TICK_MAX \<equiv> 0xffffffff"
abbreviation (input) HALF_TICK_MAX :: tick where "HALF_TICK_MAX \<equiv> 0x7fffffff"

definition set_flag :: "timer_id \<Rightarrow> u8 \<Rightarrow> kernel \<Rightarrow> kernel" where
  "set_flag x f k = upd_object (OTimer x) (\<lambda>ob. ob\<lparr>ob_flag := ob_flag ob OR f\<rparr>) k"

definition clear_flag :: "timer_id \<Rightarrow> u8 \<Rightarrow> kernel \<Rightarrow> kernel" where
  "clear_flag x f k = upd_object (OTimer x) (\<lambda>ob. ob\<lparr>ob_flag := ob_flag ob AND NOT f\<rparr>) k"

definition has_flag :: "timer_id \<Rightarrow> u8 \<Rightarrow> kernel \<Rightarrow> bool" where
  "has_flag x f k \<longleftrightarrow> ob_flag (objects k (OTimer x)) AND f \<noteq> 0"

text \<open>\<open>_rt_timer_remove\<close> and \<open>_rt_timer_init\<close>. Initialising the row of a timer that is still in the
  list would leave the list broken; the code relies on a timer that is not.\<close>

definition rt_timer_remove :: "timer_id \<Rightarrow> kernel \<Rightarrow> kernel" where
  "rt_timer_remove x k = k\<lparr>rt_timer_list := removeAll x (rt_timer_list k)\<rparr>"

definition rt_timer_init0 :: "timer_id \<Rightarrow> timeout_func \<Rightarrow> tick \<Rightarrow> u8 \<Rightarrow> kernel \<Rightarrow> kernel" where
  "rt_timer_init0 x timeout time flag k =
     (let k = upd_object (OTimer x) (\<lambda>ob. ob\<lparr>ob_flag := flag AND NOT RT_TIMER_FLAG_ACTIVATED\<rparr>) k
      in upd_timer x (\<lambda>tm. \<lparr>tm_timeout_func = timeout, tm_init_tick = time, tm_timeout_tick = 0\<rparr>) k)"

definition rt_timer_init :: "timer_id \<Rightarrow> string \<Rightarrow> timeout_func \<Rightarrow> tick \<Rightarrow> u8 \<Rightarrow> kernel \<Rightarrow> kernel" where
  "rt_timer_init x name timeout time flag k =
     rt_timer_init0 x timeout time flag (rt_object_init (OTimer x) RT_Object_Class_Timer name k)"

definition rt_timer_detach :: "timer_id \<Rightarrow> kernel \<Rightarrow> err \<times> kernel" where
  "rt_timer_detach x k = (RT_EOK, rt_object_detach (OTimer x) (rt_timer_remove x k))"

definition rt_timer_create ::
  "string \<Rightarrow> timeout_func \<Rightarrow> tick \<Rightarrow> u8 \<Rightarrow> nat option \<Rightarrow> kernel \<Rightarrow> timer_id option \<times> kernel" where
  "rt_timer_create name timeout time flag mem k =
     (case mem of
        None \<Rightarrow> (None, k)
      | Some n \<Rightarrow>
          let k = snd (rt_object_allocate RT_Object_Class_Timer name (Some (OTimer (TTimer n))) k)
          in (Some (TTimer n), rt_timer_init0 (TTimer n) timeout time flag k))"

definition rt_timer_delete :: "timer_id \<Rightarrow> kernel \<Rightarrow> err \<times> kernel" where
  "rt_timer_delete x k = (RT_EOK, rt_object_delete (OTimer x) (rt_timer_remove x k))"

text \<open>The insertion loop of \<open>rt_timer_start\<close>: past timers of the same timeout, before the first
  timer whose timeout is ahead by less than half the tick range.\<close>

fun timer_insert :: "(timer_id \<Rightarrow> tick) \<Rightarrow> timer_id \<Rightarrow> timer_id list \<Rightarrow> timer_id list" where
  "timer_insert tt x [] = [x]"
| "timer_insert tt x (t # ts) =
     (if tt t - tt x = 0 then t # timer_insert tt x ts
      else if tt t - tt x < HALF_TICK_MAX then x # t # ts
      else t # timer_insert tt x ts)"

text \<open>\<open>rt_timer_start\<close>; it always returns \<open>RT_EOK\<close>.\<close>

definition rt_timer_start :: "timer_id \<Rightarrow> kernel \<Rightarrow> kernel" where
  "rt_timer_start x k =
     (let k = rt_timer_remove x k;
          k = clear_flag x RT_TIMER_FLAG_ACTIVATED k;
          k = upd_timer x (\<lambda>tm. tm\<lparr>tm_timeout_tick := rt_tick k + tm_init_tick tm\<rparr>) k;
          k = k\<lparr>rt_timer_list := timer_insert (\<lambda>t. tm_timeout_tick (timers k t)) x (rt_timer_list k)\<rparr>
      in set_flag x RT_TIMER_FLAG_ACTIVATED k)"

definition rt_timer_stop :: "timer_id \<Rightarrow> kernel \<Rightarrow> err \<times> kernel" where
  "rt_timer_stop x k =
     (if \<not> has_flag x RT_TIMER_FLAG_ACTIVATED k then (- RT_ERROR, k)
      else (RT_EOK, clear_flag x RT_TIMER_FLAG_ACTIVATED (rt_timer_remove x k)))"

text \<open>\<open>rt_timer_control\<close>: the word behind \<open>arg\<close> is passed and returned.\<close>

definition rt_timer_control :: "timer_id \<Rightarrow> int \<Rightarrow> tick \<Rightarrow> kernel \<Rightarrow> err \<times> tick \<times> kernel" where
  "rt_timer_control x cmd arg k =
     (if cmd = 1 then (RT_EOK, tm_init_tick (timers k x), k)
      else if cmd = 0 then (RT_EOK, arg, upd_timer x (\<lambda>tm. tm\<lparr>tm_init_tick := arg\<rparr>) k)
      else if cmd = 2 then (RT_EOK, arg, clear_flag x RT_TIMER_FLAG_PERIODIC k)
      else if cmd = 3 then (RT_EOK, arg, set_flag x RT_TIMER_FLAG_PERIODIC k)
      else (RT_EOK, arg, k))"

definition rt_timer_list_next_timeout :: "kernel \<Rightarrow> tick" where
  "rt_timer_list_next_timeout k =
     (case rt_timer_list k of [] \<Rightarrow> RT_TICK_MAX | t # _ \<Rightarrow> tm_timeout_tick (timers k t))"

definition rt_timer_next_timeout_tick :: "kernel \<Rightarrow> tick" where
  "rt_timer_next_timeout_tick k = rt_timer_list_next_timeout k"

definition rt_system_timer_init :: "kernel \<Rightarrow> kernel" where
  "rt_system_timer_init k = k\<lparr>rt_timer_list := []\<rparr>"

text \<open>
  \<open>rt_timer_check\<close>. The timeout functions are a parameter; \<open>timer_fire\<close> is the body of the loop for
  an expired timer, and a loop that does not end has the value \<open>None\<close>.
\<close>

definition timer_fire :: "(timeout_func \<Rightarrow> kernel \<Rightarrow> kernel) \<Rightarrow> timer_id \<Rightarrow> kernel \<Rightarrow> kernel" where
  "timer_fire cb t k =
     (let k = rt_timer_remove t k;
          k = cb (tm_timeout_func (timers k t)) k
      in if has_flag t RT_TIMER_FLAG_PERIODIC k \<and> has_flag t RT_TIMER_FLAG_ACTIVATED k
         then rt_timer_start t (clear_flag t RT_TIMER_FLAG_ACTIVATED k)
         else clear_flag t RT_TIMER_FLAG_ACTIVATED k)"

partial_function (option) rt_timer_check_loop ::
  "(timeout_func \<Rightarrow> kernel \<Rightarrow> kernel) \<Rightarrow> tick \<Rightarrow> kernel \<Rightarrow> kernel option" where
  "rt_timer_check_loop cb current_tick k =
     (if rt_timer_list k = [] then Some k
      else
        let t = hd (rt_timer_list k) in
        if current_tick - tm_timeout_tick (timers k t) < HALF_TICK_MAX
        then let k = timer_fire cb t k in rt_timer_check_loop cb (rt_tick k) k
        else Some k)"

definition rt_timer_check :: "(timeout_func \<Rightarrow> kernel \<Rightarrow> kernel) \<Rightarrow> kernel \<Rightarrow> kernel option" where
  "rt_timer_check cb k = rt_timer_check_loop cb (rt_tick k) k"

section \<open>Wrapped time\<close>

text \<open>Ticks are compared by their distance from a base tick \<open>b\<close>, inside half the range.\<close>

abbreviation dist :: "tick \<Rightarrow> tick \<Rightarrow> nat" where
  "dist b t \<equiv> unat (t - b)"

abbreviation window :: nat where "window \<equiv> 0x7fffffff"

lemma unat_diff_tick:
  fixes u v :: tick
  shows "unat (u - v) = (if unat v \<le> unat u then unat u - unat v else unat u + 2 ^ 32 - unat v)"
  by (simp add: unat_sub_if_size word_size)

lemma dist_diff:
  fixes x y b :: tick
  shows "unat (x - y) = (if dist b y \<le> dist b x then dist b x - dist b y else dist b x + 2 ^ 32 - dist b y)"
  using unat_diff_tick [of "x - b" "y - b"] by simp

lemma ahead_iff:
  fixes x y b :: tick
  assumes "dist b x < window" "dist b y < window"
  shows "x - y < HALF_TICK_MAX \<longleftrightarrow> dist b y \<le> dist b x" "x - y = 0 \<longleftrightarrow> dist b x = dist b y"
proof -
  have "x - y < HALF_TICK_MAX \<longleftrightarrow> unat (x - y) < window" by (simp add: word_less_nat_alt)
  then show "x - y < HALF_TICK_MAX \<longleftrightarrow> dist b y \<le> dist b x"
    using assms dist_diff [of x y b] by auto
  show "x - y = 0 \<longleftrightarrow> dist b x = dist b y" by (simp add: word_unat_eq_iff [symmetric])
qed


section \<open>The sorted list\<close>

abbreviation timeout_of :: "kernel \<Rightarrow> timer_id \<Rightarrow> tick" where
  "timeout_of k t \<equiv> tm_timeout_tick (timers k t)"

text \<open>Well-formed relative to a base tick \<open>b\<close>: no timer twice, all timeouts in the window after \<open>b\<close>,
  sorted by distance from \<open>b\<close>, and the timers in the list are the activated ones.\<close>

definition timers_wf :: "tick \<Rightarrow> kernel \<Rightarrow> bool" where
  "timers_wf b k \<longleftrightarrow>
     distinct (rt_timer_list k) \<and>
     (\<forall>t \<in> set (rt_timer_list k). dist b (timeout_of k t) < window) \<and>
     sorted (map (\<lambda>t. dist b (timeout_of k t)) (rt_timer_list k)) \<and>
     (\<forall>t. has_flag t RT_TIMER_FLAG_ACTIVATED k \<longleftrightarrow> t \<in> set (rt_timer_list k))"

lemma set_timer_insert [simp]: "set (timer_insert tt x ts) = insert x (set ts)"
  by (induction ts) auto

lemma distinct_timer_insert: "distinct (timer_insert tt x ts) \<longleftrightarrow> x \<notin> set ts \<and> distinct ts"
  by (induction ts) auto

lemma removeAll_timer_insert: "x \<notin> set ts \<Longrightarrow> removeAll x (timer_insert tt x ts) = ts"
  by (induction ts) auto

text \<open>On a window the insertion loop is the insertion after all timers that are not later.\<close>

lemma timer_insert_split:
  assumes "\<forall>t \<in> set ts. dist b (tt t) < window" "dist b (tt x) < window"
  shows "timer_insert tt x ts =
    takeWhile (\<lambda>t. dist b (tt t) \<le> dist b (tt x)) ts @ x #
    dropWhile (\<lambda>t. dist b (tt t) \<le> dist b (tt x)) ts"
  using assms(1)
proof (induction ts)
  case (Cons t ts)
  have "tt t - tt x < HALF_TICK_MAX \<longleftrightarrow> dist b (tt x) \<le> dist b (tt t)"
    "tt t - tt x = 0 \<longleftrightarrow> dist b (tt t) = dist b (tt x)"
    using ahead_iff [of "tt t" b "tt x"] Cons.prems assms(2) by simp_all
  then show ?case using Cons by auto
qed simp

lemma sorted_split_insert:
  fixes f :: "'a \<Rightarrow> nat"
  assumes "sorted (map f xs)"
  shows "sorted (map f (takeWhile (\<lambda>t. f t \<le> f x) xs @ x # dropWhile (\<lambda>t. f t \<le> f x) xs))"
  using assms
proof (induction xs)
  case (Cons a xs)
  have "f u \<in> f ` set (takeWhile (\<lambda>t. f t \<le> f x) xs @ x # dropWhile (\<lambda>t. f t \<le> f x) xs) \<Longrightarrow>
    f u = f x \<or> f u \<in> f ` set xs" for u
    by (auto dest: set_takeWhileD set_dropWhileD)
  then show ?case using Cons by (auto dest!: set_takeWhileD set_dropWhileD)
qed simp

lemma clear_then_flags [simp]:
  "has_flag y f (set_flag x g k) \<longleftrightarrow> (if y = x then (ob_flag (objects k (OTimer x)) OR g) AND f \<noteq> 0 else has_flag y f k)"
  "has_flag y f (clear_flag x g k) \<longleftrightarrow> (if y = x then (ob_flag (objects k (OTimer x)) AND NOT g) AND f \<noteq> 0 else has_flag y f k)"
  by (auto simp: has_flag_def set_flag_def clear_flag_def state_defs)

lemma flag_bits [simp]:
  "(w OR 1) AND 1 = (1 :: u8)" "(w AND - 2) AND 1 = (0 :: u8)" "(w AND - 2) AND 2 = w AND (2 :: u8)"
  "(w OR 1) AND 2 = w AND (2 :: u8)"
  by (rule bit_word_eqI, auto simp: bit_simps, simp_all add: and.assoc bit.conj_disj_distrib2)

lemma flag_fields [simp]:
  "timers (set_flag x f k) = timers k" "rt_timer_list (set_flag x f k) = rt_timer_list k"
  "rt_tick (set_flag x f k) = rt_tick k"
  "timers (clear_flag x f k) = timers k" "rt_timer_list (clear_flag x f k) = rt_timer_list k"
  "rt_tick (clear_flag x f k) = rt_tick k"
  "timers (rt_timer_remove x k) = timers k" "rt_tick (rt_timer_remove x k) = rt_tick k"
  "rt_timer_list (rt_timer_remove x k) = removeAll x (rt_timer_list k)"
  "has_flag y f (rt_timer_remove x k) = has_flag y f k" "objects (rt_timer_remove x k) = objects k"
  by (simp_all add: set_flag_def clear_flag_def rt_timer_remove_def has_flag_def state_defs)

lemma rt_timer_start_timers:
  "timers (rt_timer_start x k) = (timers k)(x := (timers k x)\<lparr>tm_timeout_tick := rt_tick k + tm_init_tick (timers k x)\<rparr>)"
  by (simp add: rt_timer_start_def Let_def upd_timer_def)

lemma rt_timer_start_fields:
  "rt_tick (rt_timer_start x k) = rt_tick k"
  "rt_timer_list (rt_timer_start x k) =
     timer_insert (\<lambda>t. timeout_of (rt_timer_start x k) t) x (removeAll x (rt_timer_list k))"
  "has_flag y RT_TIMER_FLAG_ACTIVATED (rt_timer_start x k) \<longleftrightarrow> y = x \<or> has_flag y RT_TIMER_FLAG_ACTIVATED k"
proof -
  show "rt_timer_list (rt_timer_start x k) =
      timer_insert (\<lambda>t. timeout_of (rt_timer_start x k) t) x (removeAll x (rt_timer_list k))"
    unfolding rt_timer_start_timers by (simp add: rt_timer_start_def Let_def upd_timer_def cong: if_cong)
qed (auto simp: rt_timer_start_def Let_def upd_timer_def has_flag_def set_flag_def clear_flag_def upd_object_def
    rt_timer_remove_def)

lemma rt_timer_start_periodic [simp]:
  "has_flag y RT_TIMER_FLAG_PERIODIC (rt_timer_start x k) \<longleftrightarrow> has_flag y RT_TIMER_FLAG_PERIODIC k"
  by (auto simp: rt_timer_start_def Let_def upd_timer_def has_flag_def set_flag_def clear_flag_def upd_object_def
    rt_timer_remove_def)

lemma sorted_removeAll: "sorted (map f xs) \<Longrightarrow> sorted (map f (removeAll x xs))"
  by (induction xs) auto

lemma rt_timer_start_wf:
  assumes wf: "timers_wf b k" and time: "dist b (rt_tick k + tm_init_tick (timers k x)) < window"
  shows "timers_wf b (rt_timer_start x k)"
proof -
  let ?k = "rt_timer_start x k" and ?ts = "removeAll x (rt_timer_list k)"
  have same: "timeout_of ?k t = timeout_of k t" if "t \<in> set ?ts" for t
    using that by (auto simp: rt_timer_start_timers)
  have w: "\<forall>t \<in> set ?ts. dist b (timeout_of ?k t) < window" "dist b (timeout_of ?k x) < window"
    using wf time same by (auto simp: timers_wf_def rt_timer_start_timers)
  have "sorted (map (\<lambda>t. dist b (timeout_of ?k t)) ?ts)"
  proof -
    have "map (\<lambda>t. dist b (timeout_of ?k t)) ?ts = map (\<lambda>t. dist b (timeout_of k t)) ?ts"
      using same by (intro map_cong) simp_all
    then show ?thesis
      using wf sorted_removeAll [of "\<lambda>t. dist b (timeout_of k t)" "rt_timer_list k" x]
      by (simp only: timers_wf_def)
  qed
  from sorted_split_insert [OF this, of x]
  have "sorted (map (\<lambda>t. dist b (timeout_of ?k t)) (rt_timer_list ?k))"
    using timer_insert_split [OF w] rt_timer_start_fields(2) [of x k] by simp
  moreover have "distinct (rt_timer_list ?k)"
    using wf rt_timer_start_fields(2) [of x k] by (simp add: distinct_timer_insert timers_wf_def distinct_removeAll)
  moreover have "set (rt_timer_list ?k) = insert x (set (rt_timer_list k))"
    using rt_timer_start_fields(2) [of x k] by auto
  ultimately show ?thesis using w wf rt_timer_start_fields(3) [of _ x k] by (auto simp: timers_wf_def)
qed

lemma rt_timer_stop_wf:
  assumes "timers_wf b k"
  shows "timers_wf b (snd (rt_timer_stop x k))"
  using assms sorted_removeAll [of _ "rt_timer_list k" x]
  by (auto simp: timers_wf_def rt_timer_stop_def distinct_removeAll)


section \<open>Expiry\<close>

text \<open>What the loop needs of the timeout functions: they leave ticks, timers and timer flags alone.\<close>

definition quiet :: "(timeout_func \<Rightarrow> kernel \<Rightarrow> kernel) \<Rightarrow> bool" where
  "quiet cb \<longleftrightarrow> (\<forall>f k. rt_tick (cb f k) = rt_tick k \<and> timers (cb f k) = timers k \<and>
     rt_timer_list (cb f k) = rt_timer_list k \<and> (\<forall>t. objects (cb f k) (OTimer t) = objects k (OTimer t)))"

text \<open>Periodic timers must have a period of at least one tick: with a period of 0 a timer expires again
  in the same check, for ever.\<close>

definition periods_ok :: "tick \<Rightarrow> kernel \<Rightarrow> bool" where
  "periods_ok b k \<longleftrightarrow> (\<forall>t \<in> set (rt_timer_list k). has_flag t RT_TIMER_FLAG_PERIODIC k \<longrightarrow>
     1 \<le> unat (tm_init_tick (timers k t)) \<and>
     dist b (rt_tick k) + unat (tm_init_tick (timers k t)) < window)"

abbreviation expired :: "kernel \<Rightarrow> timer_id \<Rightarrow> bool" where
  "expired k t \<equiv> rt_tick k - timeout_of k t < HALF_TICK_MAX"

lemma expired_iff:
  assumes "timers_wf b k" "dist b (rt_tick k) < window" "t \<in> set (rt_timer_list k)"
  shows "expired k t \<longleftrightarrow> dist b (timeout_of k t) \<le> dist b (rt_tick k)"
  using ahead_iff(1) [of "rt_tick k" b "timeout_of k t"] assms by (auto simp: timers_wf_def)

lemma dist_add:
  fixes b u v :: tick
  assumes "dist b u + unat v < window"
  shows "dist b (u + v) = dist b u + unat v"
proof -
  have "u + v - b = (u - b) + v" by simp
  then have "dist b (u + v) = unat ((u - b) + v)" by (simp only:)
  then show ?thesis using assms unat_add_lem [of "u - b" v] by simp
qed

text \<open>The two ways a fired timer leaves the loop body.\<close>

lemma timer_fire_cases:
  assumes wf: "timers_wf b k" and q: "quiet cb" and l: "rt_timer_list k = t # ts"
  shows "rt_tick (timer_fire cb t k) = rt_tick k"
    and "\<And>u. tm_init_tick (timers (timer_fire cb t k) u) = tm_init_tick (timers k u)"
    and "\<And>u. u \<noteq> t \<Longrightarrow> timeout_of (timer_fire cb t k) u = timeout_of k u"
    and "\<And>u. has_flag u RT_TIMER_FLAG_PERIODIC (timer_fire cb t k) \<longleftrightarrow> has_flag u RT_TIMER_FLAG_PERIODIC k"
    and "\<And>u. u \<noteq> t \<Longrightarrow> has_flag u RT_TIMER_FLAG_ACTIVATED (timer_fire cb t k) \<longleftrightarrow> u \<in> set ts"
    and "has_flag t RT_TIMER_FLAG_ACTIVATED (timer_fire cb t k) \<longleftrightarrow> has_flag t RT_TIMER_FLAG_PERIODIC k"
    and "rt_timer_list (timer_fire cb t k) =
      (if has_flag t RT_TIMER_FLAG_PERIODIC k then timer_insert (timeout_of (timer_fire cb t k)) t ts else ts)"
    and "has_flag t RT_TIMER_FLAG_PERIODIC k \<Longrightarrow>
      timeout_of (timer_fire cb t k) t = rt_tick k + tm_init_tick (timers k t)"
proof -
  have nt: "t \<notin> set ts" "removeAll t ts = ts" using wf l by (auto simp: timers_wf_def)
  have act: "has_flag u RT_TIMER_FLAG_ACTIVATED k \<longleftrightarrow> u = t \<or> u \<in> set ts" for u
    using wf l by (auto simp: timers_wf_def)
  define k1 where "k1 = cb (tm_timeout_func (timers k t)) (rt_timer_remove t k)"
  have k1: "rt_tick k1 = rt_tick k" "timers k1 = timers k" "rt_timer_list k1 = ts"
    "\<And>u f. has_flag u f k1 \<longleftrightarrow> has_flag u f k" "\<And>u. objects k1 (OTimer u) = objects k (OTimer u)"
    using q l nt by (simp_all add: k1_def quiet_def has_flag_def)
  have fire: "timer_fire cb t k = (if has_flag t RT_TIMER_FLAG_PERIODIC k
      then rt_timer_start t (clear_flag t RT_TIMER_FLAG_ACTIVATED k1) else clear_flag t RT_TIMER_FLAG_ACTIVATED k1)"
    using k1(4) act [of t] by (simp add: timer_fire_def k1_def Let_def)
  show "rt_timer_list (timer_fire cb t k) =
      (if has_flag t RT_TIMER_FLAG_PERIODIC k then timer_insert (timeout_of (timer_fire cb t k)) t ts else ts)"
    using k1 nt by (simp add: fire rt_timer_start_fields(2))
  show "has_flag u RT_TIMER_FLAG_PERIODIC (timer_fire cb t k) \<longleftrightarrow> has_flag u RT_TIMER_FLAG_PERIODIC k" for u
    using k1(4,5) by (simp add: fire) (simp add: has_flag_def)
  show "u \<noteq> t \<Longrightarrow> has_flag u RT_TIMER_FLAG_ACTIVATED (timer_fire cb t k) \<longleftrightarrow> u \<in> set ts" for u
    using k1 act [of u] by (simp add: fire rt_timer_start_fields)
  show "has_flag t RT_TIMER_FLAG_ACTIVATED (timer_fire cb t k) \<longleftrightarrow> has_flag t RT_TIMER_FLAG_PERIODIC k"
    by (simp add: fire rt_timer_start_fields)
  show "has_flag t RT_TIMER_FLAG_PERIODIC k \<Longrightarrow>
      timeout_of (timer_fire cb t k) t = rt_tick k + tm_init_tick (timers k t)"
    using k1 by (simp add: fire rt_timer_start_timers)
qed (use q l in \<open>simp_all add: timer_fire_def Let_def rt_timer_start_fields rt_timer_start_timers quiet_def\<close>)


lemma takeWhile_split_insert:
  fixes f :: "'a \<Rightarrow> nat"
  assumes "n < f x"
  shows "takeWhile (\<lambda>u. f u \<le> n) (takeWhile (\<lambda>u. f u \<le> f x) ts @ x # dropWhile (\<lambda>u. f u \<le> f x) ts) =
    takeWhile (\<lambda>u. f u \<le> n) ts"
proof (induction ts)
  case Nil
  then show ?case using assms by simp
next
  case (Cons t ts)
  then show ?case using assms by (cases "f t \<le> n"; cases "f t \<le> f x") simp_all
qed

lemma takeWhile_timer_insert:
  assumes "\<forall>u \<in> set ts. dist b (tt u) < window" "dist b (tt x) < window"
    and "n < dist b (tt x)"
  shows "takeWhile (\<lambda>u. dist b (tt u) \<le> n) (timer_insert tt x ts) = takeWhile (\<lambda>u. dist b (tt u) \<le> n) ts"
  unfolding timer_insert_split [OF assms(1,2)]
  using takeWhile_split_insert [of n "\<lambda>u. dist b (tt u)" x ts] assms(3) by simp

lemma timer_fire_wf:
  assumes wf: "timers_wf b k" and q: "quiet cb" and l: "rt_timer_list k = t # ts"
    and now: "dist b (rt_tick k) < window" and per: "periods_ok b k"
  shows "timers_wf b (timer_fire cb t k)" and "periods_ok b (timer_fire cb t k)"
    and "takeWhile (expired (timer_fire cb t k)) (rt_timer_list (timer_fire cb t k)) = takeWhile (expired k) ts"
proof -
  let ?k = "timer_fire cb t k" and ?d = "\<lambda>k u. dist b (timeout_of k u)" and ?n = "dist b (rt_tick k)"
  note f = timer_fire_cases [OF wf q l]
  have nt: "t \<notin> set ts" using wf l by (auto simp: timers_wf_def)
  have same: "?d ?k u = ?d k u" if "u \<in> set ts" for u using f(3) [of u] that nt by metis
  have ts: "map (?d ?k) ts = map (?d k) ts" "\<forall>u \<in> set ts. ?d ?k u < window" "sorted (map (?d k) ts)" "distinct ts"
    "takeWhile (\<lambda>u. ?d ?k u \<le> ?n) ts = takeWhile (\<lambda>u. ?d k u \<le> ?n) ts"
    using wf l nt same by (auto simp: timers_wf_def intro!: takeWhile_cong)
  have new: "?d ?k t = ?n + unat (tm_init_tick (timers k t))" "?d ?k t < window" "?n < ?d ?k t"
    if "has_flag t RT_TIMER_FLAG_PERIODIC k"
    using that per l f(8) dist_add [where b = b and u = "rt_tick k" and v = "tm_init_tick (timers k t)"] by (auto simp: periods_ok_def)
  show wf': "timers_wf b ?k"
  proof (cases "has_flag t RT_TIMER_FLAG_PERIODIC k")
    case True
    have "sorted (map (?d ?k) (timer_insert (timeout_of ?k) t ts))"
      unfolding timer_insert_split [OF ts(2) new(2) [OF True]]
      by (rule sorted_split_insert) (simp only: ts)
    moreover have "has_flag u 1 ?k \<longleftrightarrow> u = t \<or> u \<in> set ts" for u
      using f(5) [of u] f(6) True by (cases "u = t") simp_all
    ultimately show ?thesis using True f(7) new(2) ts nt by (simp add: timers_wf_def distinct_timer_insert)
  next
    case False
    have "has_flag u 1 ?k \<longleftrightarrow> u \<in> set ts" for u
      using f(5) [of u] f(6) False nt by (cases "u = t") simp_all
    moreover have "rt_timer_list ?k = ts" using False f(7) by simp
    moreover have "sorted (map (?d ?k) ts)" using ts by (simp only:)
    ultimately show ?thesis using ts(2,4) by (simp only: timers_wf_def) blast
  qed
  show "periods_ok b ?k" using per l f(1,2,4,7) by (auto simp: periods_ok_def split: if_splits)
  have "takeWhile (expired ?k) (rt_timer_list ?k) = takeWhile (\<lambda>u. ?d ?k u \<le> ?n) (rt_timer_list ?k)"
    using expired_iff [OF wf'] now f(1) by (intro takeWhile_cong) simp_all
  also have "\<dots> = takeWhile (\<lambda>u. ?d ?k u \<le> ?n) ts"
    using f(7) takeWhile_timer_insert [OF ts(2) new(2,3)] by simp
  also have "\<dots> = takeWhile (expired k) ts"
    unfolding ts(5) using expired_iff [OF wf now] l by (intro takeWhile_cong) simp_all
  finally show "takeWhile (expired ?k) (rt_timer_list ?k) = takeWhile (expired k) ts" .
qed

lemma rt_timer_check_fold:
  assumes "timers_wf b k" "quiet cb" "dist b (rt_tick k) < window" "periods_ok b k"
    and "takeWhile (expired k) (rt_timer_list k) = es"
  shows "rt_timer_check cb k = Some (fold (timer_fire cb) es k) \<and>
    timers_wf b (fold (timer_fire cb) es k) \<and> rt_tick (fold (timer_fire cb) es k) = rt_tick k \<and>
    (\<forall>t \<in> set (rt_timer_list (fold (timer_fire cb) es k)). \<not> expired (fold (timer_fire cb) es k) t)"
  using assms
proof (induction es arbitrary: k)
  case Nil
  have "\<not> expired k t" if "t \<in> set (rt_timer_list k)" for t
  proof (cases "rt_timer_list k")
    case (Cons u us)
    then have "\<not> expired k u" using Nil.prems(5) by (simp split: if_splits)
    moreover have "dist b (timeout_of k u) \<le> dist b (timeout_of k t)"
      using Nil.prems(1) Cons that by (auto simp: timers_wf_def)
    ultimately show ?thesis using expired_iff [OF Nil.prems(1,3)] Cons that by force
  qed (use that in simp)
  moreover have "rt_timer_check cb k = Some k"
    unfolding rt_timer_check_def using calculation [of "hd (rt_timer_list k)"]
    by (cases "rt_timer_list k = []") (simp_all add: rt_timer_check_loop.simps Let_def)
  ultimately show ?case using Nil by simp
next
  case (Cons t es)
  obtain ts where l: "rt_timer_list k = t # ts" using Cons.prems(5)
    by (cases "rt_timer_list k") (auto split: if_splits)
  have t: "expired k t" "takeWhile (expired k) ts = es" using Cons.prems(5) l by (auto split: if_splits)
  note fire = timer_fire_wf [OF Cons.prems(1,2) l Cons.prems(3,4)]
  have tick: "rt_tick (timer_fire cb t k) = rt_tick k" by (rule timer_fire_cases(1) [OF Cons.prems(1,2) l])
  have "rt_timer_check cb k = rt_timer_check cb (timer_fire cb t k)"
    unfolding rt_timer_check_def using t(1) l tick by (subst rt_timer_check_loop.simps) (simp add: Let_def)
  moreover have "takeWhile (expired (timer_fire cb t k)) (rt_timer_list (timer_fire cb t k)) = es"
    using fire(3) t(2) by (rule trans)
  moreover have "dist b (rt_tick (timer_fire cb t k)) < window" using Cons.prems(3) tick by simp
  ultimately show ?case
    using Cons.IH [OF fire(1) Cons.prems(2) _ fire(2)] tick unfolding fold_simps by metis
qed


text \<open>Who is in the list afterwards: the timers that did not fire, and the periodic ones.\<close>

lemma fold_fire_timers:
  assumes "timers_wf b k" "quiet cb" "dist b (rt_tick k) < window" "periods_ok b k"
    and "takeWhile (expired k) (rt_timer_list k) = es"
  defines "k' \<equiv> fold (timer_fire cb) es k"
  shows "\<forall>y. tm_init_tick (timers k' y) = tm_init_tick (timers k y) \<and>
    (has_flag y RT_TIMER_FLAG_PERIODIC k' \<longleftrightarrow> has_flag y RT_TIMER_FLAG_PERIODIC k) \<and>
    (y \<notin> set es \<longrightarrow> timeout_of k' y = timeout_of k y) \<and>
    (y \<in> set (rt_timer_list k') \<longleftrightarrow>
       y \<in> set (rt_timer_list k) \<and> (y \<notin> set es \<or> has_flag y RT_TIMER_FLAG_PERIODIC k))"
  using assms(1-5) unfolding k'_def
proof (induction es arbitrary: k)
  case (Cons t es)
  obtain ts where l: "rt_timer_list k = t # ts" using Cons.prems(5)
    by (cases "rt_timer_list k") (auto split: if_splits)
  have t: "takeWhile (expired k) ts = es" using Cons.prems(5) l by (auto split: if_splits)
  have nt: "t \<notin> set ts" "t \<notin> set es" using Cons.prems(1) l t set_takeWhileD [of t "expired k" ts]
    by (auto simp: timers_wf_def)
  note fire = timer_fire_wf [OF Cons.prems(1,2) l Cons.prems(3,4)]
  note f = timer_fire_cases [OF Cons.prems(1,2) l]
  have es: "takeWhile (expired (timer_fire cb t k)) (rt_timer_list (timer_fire cb t k)) = es"
    using fire(3) t by (rule trans)
  have now: "dist b (rt_tick (timer_fire cb t k)) < window" using Cons.prems(3) f(1) by simp
  show ?case
    using Cons.IH [OF fire(1) Cons.prems(2) now fire(2) es] f(2-4,7) nt l by (auto split: if_splits)
qed simp

lemma sorted_takeWhile_filter:
  fixes f :: "'a \<Rightarrow> nat"
  shows "sorted (map f xs) \<Longrightarrow> takeWhile (\<lambda>u. f u \<le> n) xs = filter (\<lambda>u. f u \<le> n) xs"
proof (induction xs)
  case (Cons x xs)
  have "filter (\<lambda>u. f u \<le> n) xs = []" if "\<not> f x \<le> n"
    using Cons.prems that by (auto simp: filter_empty_conv)
  then show ?case using Cons by auto
qed simp

lemma sorted_dropWhile_filter:
  fixes f :: "'a \<Rightarrow> nat"
  shows "sorted (map f xs) \<Longrightarrow> dropWhile (\<lambda>u. f u \<le> n) xs = filter (\<lambda>u. n < f u) xs"
proof (induction xs)
  case (Cons x xs)
  have "filter (\<lambda>u. n < f u) xs = xs" if "n < f x" using Cons.prems that by (auto simp: filter_id_conv)
  then show ?case using Cons by (cases "f x \<le> n") auto
qed simp

lemma expired_prefix:
  assumes "timers_wf b k" "dist b (rt_tick k) < window"
  shows "takeWhile (expired k) (rt_timer_list k) = filter (expired k) (rt_timer_list k)"
proof -
  let ?P = "\<lambda>t. dist b (timeout_of k t) \<le> dist b (rt_tick k)"
  have "takeWhile (expired k) (rt_timer_list k) = takeWhile ?P (rt_timer_list k)"
    using expired_iff [OF assms] by (intro takeWhile_cong) simp_all
  also have "\<dots> = filter ?P (rt_timer_list k)"
    using assms(1) by (intro sorted_takeWhile_filter) (simp add: timers_wf_def)
  also have "\<dots> = filter (expired k) (rt_timer_list k)"
    using expired_iff [OF assms] by (intro filter_cong) simp_all
  finally show ?thesis .
qed

section \<open>Properties\<close>

text \<open>
  C13. \<open>rt_timer_check\<close> returns, and what it does is to fire exactly the expired timers, once each,
  in the order of the list, that is by timeout; afterwards the list is well-formed and holds no
  expired timer. It holds for all timeouts within half the tick range, across the wrap of the
  counter, for timeout functions that do not touch timers, and periods of at least one tick.
\<close>

theorem rt_timer_check_fires_expired:
  assumes "timers_wf b k" "quiet cb" "dist b (rt_tick k) < window" "periods_ok b k"
  defines "k' \<equiv> fold (timer_fire cb) (filter (expired k) (rt_timer_list k)) k"
  shows "rt_timer_check cb k = Some k' \<and> timers_wf b k' \<and> rt_tick k' = rt_tick k \<and>
    (\<forall>t \<in> set (rt_timer_list k'). \<not> expired k' t)"
  using rt_timer_check_fold [OF assms(1-4) expired_prefix [OF assms(1,3)]] unfolding k'_def by blast

theorem rt_timer_check_fires_expired_witness:
  "let k = demo_kernel\<lparr>rt_tick := 1, rt_timer_list := [TTimer 4, TTimer 7, TTimer 2],
         timers := (timers demo_kernel)
           (TTimer 4 := \<lparr>tm_timeout_func = F_user 0, tm_init_tick = 5, tm_timeout_tick = 0xffffffff\<rparr>,
            TTimer 7 := \<lparr>tm_timeout_func = F_user 1, tm_init_tick = 5, tm_timeout_tick = 1\<rparr>,
            TTimer 2 := \<lparr>tm_timeout_func = F_user 2, tm_init_tick = 9, tm_timeout_tick = 2\<rparr>),
         objects := (\<lambda>x. if x \<in> {OTimer (TTimer 4), OTimer (TTimer 2)}
           then \<lparr>ob_name = [], ob_type = 10, ob_flag = 1\<rparr> else if x = OTimer (TTimer 7)
           then \<lparr>ob_name = [], ob_type = 10, ob_flag = 3\<rparr> else \<lparr>ob_name = [], ob_type = 0, ob_flag = 0\<rparr>)\<rparr>
   in \<exists>k'. rt_timer_check (\<lambda>f k. k) k = Some k' \<and> (\<forall>t \<in> set (rt_timer_list k'). \<not> expired k' t)"
proof -
  let ?k = "demo_kernel\<lparr>rt_tick := 1, rt_timer_list := [TTimer 4, TTimer 7, TTimer 2],
         timers := (timers demo_kernel)
           (TTimer 4 := \<lparr>tm_timeout_func = F_user 0, tm_init_tick = 5, tm_timeout_tick = 0xffffffff\<rparr>,
            TTimer 7 := \<lparr>tm_timeout_func = F_user 1, tm_init_tick = 5, tm_timeout_tick = 1\<rparr>,
            TTimer 2 := \<lparr>tm_timeout_func = F_user 2, tm_init_tick = 9, tm_timeout_tick = 2\<rparr>),
         objects := (\<lambda>x. if x \<in> {OTimer (TTimer 4), OTimer (TTimer 2)}
           then \<lparr>ob_name = [], ob_type = 10, ob_flag = 1\<rparr> else if x = OTimer (TTimer 7)
           then \<lparr>ob_name = [], ob_type = 10, ob_flag = 3\<rparr> else \<lparr>ob_name = [], ob_type = 0, ob_flag = 0\<rparr>)\<rparr>"
  have "timers_wf 0xfffffff0 ?k" by (auto simp: timers_wf_def has_flag_def)
  moreover have "quiet (\<lambda>f k. k)" by (simp add: quiet_def)
  moreover have "dist 0xfffffff0 (rt_tick ?k) < window" "periods_ok 0xfffffff0 ?k"
    by (simp_all add: periods_ok_def has_flag_def)
  ultimately show ?thesis using rt_timer_check_fires_expired [of "0xfffffff0" ?k "\<lambda>f k. k"] by (auto simp: Let_def)
qed

text \<open>
  C27. \<open>rt_timer_start\<close> keeps the list sorted and activates the timer: it stands behind all timers
  that expire no later and before all that expire later, so timers of the same timeout fire in the
  order they were started, and \<open>rt_timer_next_timeout_tick\<close> is the earliest timeout.
\<close>

theorem rt_timer_start_sorted:
  assumes "timers_wf b k" "dist b (rt_tick k + tm_init_tick (timers k x)) < window"
  defines "k' \<equiv> rt_timer_start x k" and "others \<equiv> removeAll x (rt_timer_list k)"
  shows "timers_wf b k' \<and> has_flag x RT_TIMER_FLAG_ACTIVATED k' \<and>
    rt_timer_list k' =
      filter (\<lambda>t. dist b (timeout_of k' t) \<le> dist b (timeout_of k' x)) others @ [x] @
      filter (\<lambda>t. dist b (timeout_of k' x) < dist b (timeout_of k' t)) others \<and>
    (\<forall>t \<in> set (rt_timer_list k'). dist b (rt_timer_next_timeout_tick k') \<le> dist b (timeout_of k' t))"
proof -
  have wf: "timers_wf b k'" unfolding k'_def by (rule rt_timer_start_wf [OF assms(1,2)])
  have eq: "rt_timer_list k' = timer_insert (timeout_of k') x others"
    unfolding k'_def others_def by (rule rt_timer_start_fields)
  have w: "\<forall>t \<in> set others. dist b (timeout_of k' t) < window" "dist b (timeout_of k' x) < window"
    using wf eq by (auto simp: timers_wf_def)
  have "x \<notin> set others" by (simp add: others_def)
  then have "others = removeAll x (rt_timer_list k')" unfolding eq by (simp add: removeAll_timer_insert)
  then have s: "sorted (map (\<lambda>t. dist b (timeout_of k' t)) others)"
    using wf sorted_removeAll [of "\<lambda>t. dist b (timeout_of k' t)" "rt_timer_list k'" x] by (simp add: timers_wf_def)
  have "dist b (rt_timer_next_timeout_tick k') \<le> dist b (timeout_of k' t)" if "t \<in> set (rt_timer_list k')" for t
    using wf that unfolding rt_timer_next_timeout_tick_def rt_timer_list_next_timeout_def timers_wf_def
    by (cases "rt_timer_list k'") auto
  moreover have "has_flag x RT_TIMER_FLAG_ACTIVATED k'" unfolding k'_def by (simp add: rt_timer_start_fields)
  moreover have "rt_timer_list k' =
      filter (\<lambda>t. dist b (timeout_of k' t) \<le> dist b (timeout_of k' x)) others @ [x] @
      filter (\<lambda>t. dist b (timeout_of k' x) < dist b (timeout_of k' t)) others"
    unfolding eq timer_insert_split [OF w]
    using sorted_takeWhile_filter [OF s] sorted_dropWhile_filter [OF s] by simp
  ultimately show ?thesis using wf by blast
qed

theorem rt_timer_start_sorted_witness:
  "let k = rt_timer_start (TThread 3) (demo_kernel\<lparr>rt_tick := 0xffffffff\<rparr>)
   in timers_wf 0xffffffff k \<and> rt_timer_next_timeout_tick k = 0xffffffff"
proof -
  have "timers_wf 0xffffffff (demo_kernel\<lparr>rt_tick := 0xffffffff\<rparr>)"
    by (simp add: timers_wf_def demo_kernel_def has_flag_def)
  then show ?thesis
    using rt_timer_start_sorted [of "0xffffffff" "demo_kernel\<lparr>rt_tick := 0xffffffff\<rparr>" "TThread 3"]
    by (simp add: Let_def rt_timer_next_timeout_tick_def rt_timer_list_next_timeout_def
        rt_timer_start_timers demo_kernel_def)
qed

text \<open>
  C35. A one-shot timer whose timeout function starts it again stays in the list but is marked as
  not activated by the end of the loop body: \<open>rt_timer_stop\<close> then refuses to stop it.
\<close>

theorem restarted_one_shot_cannot_be_stopped:
  assumes "\<not> has_flag t RT_TIMER_FLAG_PERIODIC k"
  shows "let k' = timer_fire (\<lambda>f. rt_timer_start t) t k
    in t \<in> set (rt_timer_list k') \<and> rt_timer_stop t k' = (- RT_ERROR, k')"
  using assms by (simp add: timer_fire_def Let_def rt_timer_stop_def rt_timer_start_fields)

theorem restarted_one_shot_cannot_be_stopped_witness:
  "let k' = timer_fire (\<lambda>f. rt_timer_start (TTimer 1)) (TTimer 1) (rt_timer_start (TTimer 1) demo_kernel)
   in TTimer 1 \<in> set (rt_timer_list k') \<and> rt_timer_stop (TTimer 1) k' = (- RT_ERROR, k')"
  by (rule restarted_one_shot_cannot_be_stopped, unfold rt_timer_start_periodic)
    (simp add: has_flag_def demo_kernel_def)


section \<open>Frame\<close>

text \<open>Timers leave the scheduler's part of the state alone.\<close>

lemma timer_frame [simp]:
  "threads (rt_timer_start x k) = threads k" "tlists (rt_timer_start x k) = tlists k"
  "rt_thread_ready_priority_group (rt_timer_start x k) = rt_thread_ready_priority_group k"
  "rt_current_thread (rt_timer_start x k) = rt_current_thread k"
  "rt_scheduler_lock_nest (rt_timer_start x k) = rt_scheduler_lock_nest k"
  "rt_interrupt_nest (rt_timer_start x k) = rt_interrupt_nest k"
  "sems (rt_timer_start x k) = sems k" "mutexes (rt_timer_start x k) = mutexes k"
  "events (rt_timer_start x k) = events k" "mailboxes (rt_timer_start x k) = mailboxes k"
  "mqs (rt_timer_start x k) = mqs k" "mempools (rt_timer_start x k) = mempools k" "mp_words (rt_timer_start x k) = mp_words k"
  "completions (rt_timer_start x k) = completions k"
  "dataqueues (rt_timer_start x k) = dataqueues k"
  by (simp_all add: rt_timer_start_def Let_def set_flag_def clear_flag_def rt_timer_remove_def state_defs)

lemma timer_stop_frame [simp]:
  "threads (snd (rt_timer_stop x k)) = threads k" "tlists (snd (rt_timer_stop x k)) = tlists k"
  "rt_thread_ready_priority_group (snd (rt_timer_stop x k)) = rt_thread_ready_priority_group k"
  "rt_current_thread (snd (rt_timer_stop x k)) = rt_current_thread k"
  "rt_scheduler_lock_nest (snd (rt_timer_stop x k)) = rt_scheduler_lock_nest k"
  "rt_interrupt_nest (snd (rt_timer_stop x k)) = rt_interrupt_nest k" "rt_tick (snd (rt_timer_stop x k)) = rt_tick k"
  "sems (snd (rt_timer_stop x k)) = sems k" "mutexes (snd (rt_timer_stop x k)) = mutexes k"
  "events (snd (rt_timer_stop x k)) = events k" "mailboxes (snd (rt_timer_stop x k)) = mailboxes k"
  "mqs (snd (rt_timer_stop x k)) = mqs k" "mempools (snd (rt_timer_stop x k)) = mempools k" "mp_words (snd (rt_timer_stop x k)) = mp_words k"
  "completions (snd (rt_timer_stop x k)) = completions k"
  "dataqueues (snd (rt_timer_stop x k)) = dataqueues k"
  by (simp_all add: rt_timer_stop_def set_flag_def clear_flag_def rt_timer_remove_def state_defs)

lemma upd_timer_frame [simp]:
  "threads (upd_timer x g k) = threads k" "tlists (upd_timer x g k) = tlists k"
  "rt_thread_ready_priority_group (upd_timer x g k) = rt_thread_ready_priority_group k"
  "rt_current_thread (upd_timer x g k) = rt_current_thread k"
  "rt_scheduler_lock_nest (upd_timer x g k) = rt_scheduler_lock_nest k"
  "rt_interrupt_nest (upd_timer x g k) = rt_interrupt_nest k" "rt_tick (upd_timer x g k) = rt_tick k"
  "sems (upd_timer x g k) = sems k" "mutexes (upd_timer x g k) = mutexes k"
  "events (upd_timer x g k) = events k" "mailboxes (upd_timer x g k) = mailboxes k"
  "mqs (upd_timer x g k) = mqs k" "mempools (upd_timer x g k) = mempools k" "mp_words (upd_timer x g k) = mp_words k"
  "completions (upd_timer x g k) = completions k"
  "dataqueues (upd_timer x g k) = dataqueues k"
  by (simp_all add: upd_timer_def)

end
