(* ===== verification/Thread.thy ===== *)
theory Thread
  imports Timer
begin

text \<open>
  Threads (\<open>src/thread.c\<close>), the tick (\<open>src/clock.c\<close>), interrupt nesting (\<open>src/irq.c\<close>) and the clean-up of
  dead threads by the idle thread (\<open>src/idle.c\<close>). A call that suspends its caller is split at
  \<open>rt_schedule()\<close>: what follows in the C function is a definition of its own, named \<open>..._resume\<close>,
  that runs when the thread is scheduled again. Results of the heap and code behind function
  pointers (timeout and clean-up functions) are arguments.
\<close>

section \<open>Thread operations\<close>

text \<open>\<open>rt_hw_stack_init\<close> of \<open>libcpu/arm/cortex-m4/cpuport.c\<close>: the returned stack pointer; the frame has
  17 words with the FPU flag of this build. Its contents are for the context switch only.\<close>

definition rt_hw_stack_init :: "nat \<Rightarrow> nat" where
  "rt_hw_stack_init stack_addr = (stack_addr + 4) div 8 * 8 - 17 * 4"

definition rt_thread_init0 ::
  "tid \<Rightarrow> nat \<Rightarrow> nat \<Rightarrow> nat \<Rightarrow> nat \<Rightarrow> nat \<Rightarrow> tick \<Rightarrow> kernel \<Rightarrow> kernel" where
  "rt_thread_init0 t entry parameter stack_start stack_size priority tick k =
     (let k = tlist_remove t k;
          k = upd_thread t (\<lambda>th. th\<lparr>
                th_entry := entry, th_parameter := parameter,
                th_stack_addr := stack_start, th_stack_size := stack_size, th_stack_guard := CHR ''#'',
                th_sp := rt_hw_stack_init (stack_start + stack_size - 4),
                th_init_priority := priority, th_current_priority := priority,
                th_number_mask := 0, th_init_tick := tick, th_remaining_tick := tick,
                th_error := RT_EOK, th_stat := RT_THREAD_INIT, th_cleanup := None, th_user_data := 0\<rparr>) k
      in rt_timer_init (TThread t) (ob_name (objects k (OThread t))) (F_thread_timeout t) 0 0 k)"

definition rt_thread_init ::
  "tid \<Rightarrow> string \<Rightarrow> nat \<Rightarrow> nat \<Rightarrow> nat \<Rightarrow> nat \<Rightarrow> nat \<Rightarrow> tick \<Rightarrow> kernel \<Rightarrow> err \<times> kernel" where
  "rt_thread_init t name entry parameter stack_start stack_size priority tick k =
     (RT_EOK, rt_thread_init0 t entry parameter stack_start stack_size priority tick
        (rt_object_init (OThread t) RT_Object_Class_Thread name k))"

definition rt_thread_self :: "kernel \<Rightarrow> tid option" where
  "rt_thread_self k = rt_current_thread k"

definition rt_thread_suspend :: "tid \<Rightarrow> kernel \<Rightarrow> err \<times> kernel" where
  "rt_thread_suspend t k =
     (if stat k t \<noteq> RT_THREAD_READY then (- RT_ERROR, k)
      else
        let k = upd_thread t (\<lambda>th. th\<lparr>th_stat := RT_THREAD_SUSPEND\<rparr>) k;
            k = rt_schedule_remove_thread t k;
            (_, k) = rt_timer_stop (TThread t) k
        in (RT_EOK, k))"

definition rt_thread_resume :: "tid \<Rightarrow> kernel \<Rightarrow> err \<times> kernel" where
  "rt_thread_resume t k =
     (if stat k t \<noteq> RT_THREAD_SUSPEND then (- RT_ERROR, k)
      else
        let k = tlist_remove t k;
            (_, k) = rt_timer_stop (TThread t) k
        in (RT_EOK, rt_schedule_insert_thread t k))"

definition rt_thread_startup :: "tid \<Rightarrow> kernel \<Rightarrow> err \<times> kernel" where
  "rt_thread_startup t k =
     (let k = upd_thread t (\<lambda>th. th\<lparr>th_current_priority := th_init_priority th\<rparr>) k;
          k = upd_thread t (\<lambda>th. th\<lparr>th_number_mask := push_bit (th_current_priority th) 1\<rparr>) k;
          k = upd_thread t (\<lambda>th. th\<lparr>th_stat := RT_THREAD_SUSPEND\<rparr>) k;
          (_, k) = rt_thread_resume t k
      in (RT_EOK, if rt_thread_self k \<noteq> None then rt_schedule k else k))"

definition rt_thread_exit :: "kernel \<Rightarrow> kernel" where
  "rt_thread_exit k =
     (let t = self k;
          k = rt_schedule_remove_thread t k;
          k = upd_thread t (\<lambda>th. th\<lparr>th_stat := RT_THREAD_CLOSE\<rparr>) k;
          (_, k) = rt_timer_detach (TThread t) k;
          k = (if rt_object_is_systemobject (OThread t) k \<and> th_cleanup (threads k t) = None
               then rt_object_detach (OThread t) k
               else tlist_insert_head LDefunct t k)
      in rt_schedule k)"

definition rt_thread_detach :: "tid \<Rightarrow> kernel \<Rightarrow> err \<times> kernel" where
  "rt_thread_detach t k =
     (let k = (if stat k t \<noteq> RT_THREAD_INIT then rt_schedule_remove_thread t k else k);
          (_, k) = rt_timer_detach (TThread t) k;
          k = upd_thread t (\<lambda>th. th\<lparr>th_stat := RT_THREAD_CLOSE\<rparr>) k;
          k = rt_object_detach (OThread t) k;
          k = (if th_cleanup (threads k t) \<noteq> None then tlist_insert_head LDefunct t k else k)
      in (RT_EOK, k))"

text \<open>\<open>rt_thread_create\<close>: \<open>mem\<close> is the thread struct the heap gives, \<open>stack\<close> the stack area.\<close>

definition rt_thread_create ::
  "string \<Rightarrow> nat \<Rightarrow> nat \<Rightarrow> nat \<Rightarrow> nat \<Rightarrow> tick \<Rightarrow> tid option \<Rightarrow> nat option \<Rightarrow> kernel \<Rightarrow> tid option \<times> kernel" where
  "rt_thread_create name entry parameter stack_size priority tick mem stack k =
     (case mem of
        None \<Rightarrow> (None, k)
      | Some t \<Rightarrow>
          let k = snd (rt_object_allocate RT_Object_Class_Thread name (Some (OThread t)) k) in
          case stack of
            None \<Rightarrow> (None, rt_object_delete (OThread t) k)
          | Some stack_start \<Rightarrow>
              (Some t, rt_thread_init0 t entry parameter stack_start stack_size priority tick k))"

definition rt_thread_delete :: "tid \<Rightarrow> kernel \<Rightarrow> err \<times> kernel" where
  "rt_thread_delete t k =
     (let k = (if stat k t \<noteq> RT_THREAD_INIT then rt_schedule_remove_thread t k else k);
          (_, k) = rt_timer_detach (TThread t) k;
          k = upd_thread t (\<lambda>th. th\<lparr>th_stat := RT_THREAD_CLOSE\<rparr>) k
      in (RT_EOK, tlist_insert_head LDefunct t k))"

definition rt_thread_yield :: "kernel \<Rightarrow> err \<times> kernel" where
  "rt_thread_yield k = (RT_EOK, rt_schedule k)"

text \<open>\<open>rt_thread_sleep\<close> up to and including \<open>rt_schedule()\<close>, and what the thread does when it runs again.\<close>

definition rt_thread_sleep :: "tick \<Rightarrow> kernel \<Rightarrow> kernel" where
  "rt_thread_sleep tick k =
     (let t = self k;
          (_, k) = rt_thread_suspend t k;
          (_, _, k) = rt_timer_control (TThread t) 0 tick k;
          k = rt_timer_start (TThread t) k
      in rt_schedule k)"

definition rt_thread_sleep_resume :: "tid \<Rightarrow> kernel \<Rightarrow> err \<times> kernel" where
  "rt_thread_sleep_resume t k =
     (RT_EOK, if th_error (threads k t) = - RT_ETIMEOUT
              then upd_thread t (\<lambda>th. th\<lparr>th_error := RT_EOK\<rparr>) k else k)"

definition rt_thread_delay :: "tick \<Rightarrow> kernel \<Rightarrow> kernel" where
  "rt_thread_delay tick k = rt_thread_sleep tick k"

text \<open>\<open>rt_thread_control\<close>: \<open>arg\<close> is the byte behind the pointer.\<close>

definition rt_thread_control :: "tid \<Rightarrow> int \<Rightarrow> nat \<Rightarrow> kernel \<Rightarrow> err \<times> kernel" where
  "rt_thread_control t cmd arg k =
     (let change = (\<lambda>k. upd_thread t (\<lambda>th. th\<lparr>th_number_mask := push_bit (th_current_priority th) 1\<rparr>)
                         (upd_thread t (\<lambda>th. th\<lparr>th_current_priority := arg\<rparr>) k))
      in if cmd = 2 then
           (RT_EOK,
            if stat k t = RT_THREAD_READY
            then rt_schedule_insert_thread t (change (rt_schedule_remove_thread t k))
            else change k)
         else if cmd = 0 then rt_thread_startup t k
         else if cmd = 1 then rt_thread_delete t k
         else (RT_EOK, k))"

definition rt_thread_timeout :: "tid \<Rightarrow> kernel \<Rightarrow> kernel" where
  "rt_thread_timeout t k =
     (let k = upd_thread t (\<lambda>th. th\<lparr>th_error := - RT_ETIMEOUT\<rparr>) k;
          k = tlist_remove t k;
          k = rt_schedule_insert_thread t k
      in rt_schedule k)"

definition rt_thread_find :: "string \<Rightarrow> kernel \<Rightarrow> obj option \<times> kernel" where
  "rt_thread_find name k =
     (let k = (if rt_thread_self k \<noteq> None then rt_enter_critical k else k);
          r = find (\<lambda>x. rt_strncmp (ob_name (objects k x)) name RT_NAME_MAX = 0)
                (rt_object_container k RT_Object_Class_Thread)
      in (r, if rt_thread_self k \<noteq> None then rt_exit_critical k else k))"

section \<open>Interrupt nesting\<close>

definition rt_interrupt_enter :: "kernel \<Rightarrow> kernel" where
  "rt_interrupt_enter k = k\<lparr>rt_interrupt_nest := rt_interrupt_nest k + 1\<rparr>"

definition rt_interrupt_leave :: "kernel \<Rightarrow> kernel" where
  "rt_interrupt_leave k = k\<lparr>rt_interrupt_nest := rt_interrupt_nest k - 1\<rparr>"

definition rt_interrupt_get_nest :: "kernel \<Rightarrow> u8" where
  "rt_interrupt_get_nest k = rt_interrupt_nest k"

section \<open>The tick\<close>

definition rt_tick_get :: "kernel \<Rightarrow> tick" where
  "rt_tick_get k = rt_tick k"

definition rt_tick_set :: "tick \<Rightarrow> kernel \<Rightarrow> kernel" where
  "rt_tick_set t k = k\<lparr>rt_tick := t\<rparr>"

text \<open>The timeout functions: the kernel's own, and \<open>user\<close> for the others.\<close>

definition run_timeout :: "(nat \<Rightarrow> kernel \<Rightarrow> kernel) \<Rightarrow> timeout_func \<Rightarrow> kernel \<Rightarrow> kernel" where
  "run_timeout user f k = (case f of F_thread_timeout t \<Rightarrow> rt_thread_timeout t k | F_user n \<Rightarrow> user n k)"

definition rt_tick_increase :: "(nat \<Rightarrow> kernel \<Rightarrow> kernel) \<Rightarrow> kernel \<Rightarrow> kernel option" where
  "rt_tick_increase user k =
     (let k = k\<lparr>rt_tick := rt_tick k + 1\<rparr>;
          t = self k;
          k = upd_thread t (\<lambda>th. th\<lparr>th_remaining_tick := th_remaining_tick th - 1\<rparr>) k;
          k = (if th_remaining_tick (threads k t) = 0
               then snd (rt_thread_yield
                      (upd_thread t (\<lambda>th. th\<lparr>th_remaining_tick := th_init_tick th\<rparr>) k))
               else k)
      in rt_timer_check (run_timeout user) k)"

text \<open>\<open>rt_tick_from_millisecond\<close> with 100 ticks per second: \<open>int\<close> has 32 bits and wraps, and division
  truncates towards zero.\<close>

definition as_s32 :: "int \<Rightarrow> int" where
  "as_s32 x = (x + 2 ^ 31) mod 2 ^ 32 - 2 ^ 31"

definition c_div :: "int \<Rightarrow> int \<Rightarrow> int" where
  "c_div a b = sgn a * sgn b * (\<bar>a\<bar> div \<bar>b\<bar>)"

abbreviation (input) RT_TICK_PER_SECOND :: int where "RT_TICK_PER_SECOND \<equiv> 100"
abbreviation (input) RT_WAITING_FOREVER :: int where "RT_WAITING_FOREVER \<equiv> - 1"

definition rt_tick_from_millisecond :: "int \<Rightarrow> int" where
  "rt_tick_from_millisecond ms =
     (if ms < 0 then RT_WAITING_FOREVER
      else c_div (as_s32 (as_s32 (RT_TICK_PER_SECOND * ms) + 999)) 1000)"

definition rt_thread_mdelay :: "int \<Rightarrow> kernel \<Rightarrow> kernel" where
  "rt_thread_mdelay ms k = rt_thread_sleep (word_of_int (rt_tick_from_millisecond ms)) k"

section \<open>The idle thread's clean-up\<close>

text \<open>
  \<open>rt_thread_idle_excute\<close>. The clean-up functions are the parameter \<open>cleanup\<close>; the list that is
  returned names the threads whose stack and struct were given back to the heap. The second
  test of \<open>_has_defunct_thread\<close> answers as the first: nothing runs in between.
\<close>

partial_function (option) rt_thread_idle_excute ::
  "(nat \<Rightarrow> tid \<Rightarrow> kernel \<Rightarrow> kernel) \<Rightarrow> tid list \<Rightarrow> kernel \<Rightarrow> (tid list \<times> kernel) option" where
  "rt_thread_idle_excute cleanup freed k =
     (if tlist_isempty LDefunct k then Some (freed, k)
      else
        let t = hd (tlists k LDefunct);
            k = tlist_remove t k;
            k = rt_enter_critical k;
            k = (case th_cleanup (threads k t) of None \<Rightarrow> k | Some c \<Rightarrow> cleanup c t k)
        in if rt_object_is_systemobject (OThread t) k then Some (freed, rt_exit_critical k)
           else
             let k = rt_exit_critical k
             in rt_thread_idle_excute cleanup (freed @ [t]) (rt_object_delete (OThread t) k))"

text \<open>The idle hooks: four slots.\<close>

fun set_slot :: "'a \<Rightarrow> 'a option list \<Rightarrow> 'a option list option" where
  "set_slot h [] = None"
| "set_slot h (None # hs) = Some (Some h # hs)"
| "set_slot h (Some g # hs) = map_option (\<lambda>hs'. Some g # hs') (set_slot h hs)"

definition rt_thread_idle_sethook :: "'a \<Rightarrow> 'a option list \<Rightarrow> err \<times> 'a option list" where
  "rt_thread_idle_sethook hook hooks =
     (case set_slot hook hooks of None \<Rightarrow> (- RT_EFULL, hooks) | Some hooks' \<Rightarrow> (RT_EOK, hooks'))"

fun clear_slot :: "'a \<Rightarrow> 'a option list \<Rightarrow> 'a option list option" where
  "clear_slot h [] = None"
| "clear_slot h (x # hs) = (if x = Some h then Some (None # hs) else map_option (\<lambda>hs'. x # hs') (clear_slot h hs))"

definition rt_thread_idle_delhook :: "'a \<Rightarrow> 'a option list \<Rightarrow> err \<times> 'a option list" where
  "rt_thread_idle_delhook hook hooks =
     (case clear_slot hook hooks of None \<Rightarrow> (- RT_ENOSYS, hooks) | Some hooks' \<Rightarrow> (RT_EOK, hooks'))"

section \<open>Preservation of the scheduler's invariant\<close>

lemma insert_wf:
  assumes "sched_ok {t} (rt_current_thread k) k" "mask_ok (threads k t)"
  shows "sched_wf (rt_schedule_insert_thread t k)"
proof (cases "rt_current_thread k = Some t")
  case True
  then show ?thesis using insert_ready_current [of t k] assms by (simp add: sched_wf_ok)
next
  case False
  then show ?thesis using insert_ready [OF assms(1) False False assms(2)] by (simp add: sched_wf_ok)
qed

text \<open>Unlinking a thread that is not ready.\<close>

lemma unlink_not_ready:
  assumes "sched_ok X c k" "stat k t \<noteq> RT_THREAD_READY"
  shows "sched_ok (insert t X) c (tlist_remove t k)"
proof -
  note d = sched_okD [OF assms(1)]
  have "t \<notin> set (tlists k (LReady p))" for p using d(4) assms(2) by blast
  then have r: "removed t (tlists k) (LReady p) = tlists k (LReady p)" for p by (simp add: removed_def)
  have tl: "tlists (tlist_remove t k) = removed t (tlists k)" and th: "threads (tlist_remove t k) = threads k"
    and gr: "rt_thread_ready_priority_group (tlist_remove t k) = rt_thread_ready_priority_group k"
    by (simp_all add: tlist_remove_def)
  have "\<forall>p. bit (rt_thread_ready_priority_group k) p \<longleftrightarrow> removed t (tlists k) (LReady p) \<noteq> []"
    using d(2) r by simp
  then show ?thesis
    using d(3-8) disjoint_lists_removed [OF d(1), of t] unfolding sched_ok_def th gr tl removed_apply by blast
qed

lemma sched_ok_timer [simp]:
  "sched_ok X c (snd (rt_timer_stop x k)) = sched_ok X c k"
  "sched_ok X c (rt_timer_start x k) = sched_ok X c k"
  "sched_ok X c (upd_timer x g k) = sched_ok X c k"
  by (intro sched_ok_cong; simp)+

lemma sched_wf_timer [simp]:
  "sched_wf (snd (rt_timer_stop x k)) = sched_wf k"
  "sched_wf (rt_timer_start x k) = sched_wf k"
  "sched_wf (upd_timer x g k) = sched_wf k"
  by (simp_all add: sched_wf_ok)

lemma wf_mask: "sched_wf k \<Longrightarrow> stat k t \<in> {RT_THREAD_READY, RT_THREAD_SUSPEND} \<Longrightarrow> mask_ok (threads k t)"
  using sched_wfD(8) [of k t] by (auto simp: started_def)

lemma rt_thread_resume_eq:
  "rt_thread_resume t k = (if stat k t \<noteq> RT_THREAD_SUSPEND then (- RT_ERROR, k)
     else (RT_EOK, rt_schedule_insert_thread t (snd (rt_timer_stop (TThread t) (tlist_remove t k)))))"
  by (simp add: rt_thread_resume_def split_def)

lemma rt_thread_resume_wf [wf_intros]:
  assumes "sched_wf k"
  shows "sched_wf (snd (rt_thread_resume t k))"
proof (cases "stat k t = RT_THREAD_SUSPEND")
  case True
  then have "sched_ok {t} (rt_current_thread k) (tlist_remove t k)"
    using unlink_not_ready [of "{}" "rt_current_thread k" k t] assms by (simp add: sched_wf_ok)
  moreover have "mask_ok (threads k t)" using wf_mask [OF assms] True by simp
  ultimately show ?thesis using True
    by (simp add: rt_thread_resume_eq insert_wf tlist_remove_def)
qed (use assms in \<open>simp add: rt_thread_resume_eq\<close>)

lemma rt_thread_resume_fields:
  assumes "stat k t = RT_THREAD_SUSPEND"
  shows "fst (rt_thread_resume t k) = RT_EOK"
    and "rt_current_thread (snd (rt_thread_resume t k)) = rt_current_thread k"
    and "threads (snd (rt_thread_resume t k)) = (threads k)(t := (threads k t)\<lparr>th_stat := RT_THREAD_READY\<rparr>)"
    and "tlists (snd (rt_thread_resume t k)) =
      (if rt_current_thread k = Some t then removed t (tlists k)
       else (removed t (tlists k))(LReady (prio k t) := removed t (tlists k) (LReady (prio k t)) @ [t]))"
  using assms by (simp_all add: rt_thread_resume_eq insert_tlists tlist_remove_def)

text \<open>Suspension: changing the state and unlinking commute.\<close>

lemma remove_upd_commute:
  assumes "th_current_priority (g (threads k t)) = prio k t"
    and "th_number_mask (g (threads k t)) = th_number_mask (threads k t)"
  shows "rt_schedule_remove_thread t (upd_thread t g k) = upd_thread t g (rt_schedule_remove_thread t k)"
  using assms by (simp add: rt_schedule_remove_thread_def state_defs Let_def)

lemma rt_thread_suspend_eq:
  "rt_thread_suspend t k = (if stat k t \<noteq> RT_THREAD_READY then (- RT_ERROR, k)
     else (RT_EOK, snd (rt_timer_stop (TThread t)
       (upd_thread t (\<lambda>th. th\<lparr>th_stat := RT_THREAD_SUSPEND\<rparr>) (rt_schedule_remove_thread t k)))))"
  by (simp add: rt_thread_suspend_def split_def remove_upd_commute)

lemma suspended_transit:
  assumes "sched_wf k" "stat k t = RT_THREAD_READY"
  shows "sched_ok {t} (rt_current_thread k)
    (upd_thread t (\<lambda>th. th\<lparr>th_stat := RT_THREAD_SUSPEND\<rparr>) (rt_schedule_remove_thread t k))"
proof -
  have m: "mask_ok (threads k t)" using wf_mask [OF assms(1)] assms(2) by simp
  have "sched_ok {t} (rt_current_thread k) (rt_schedule_remove_thread t k)"
    using remove_ready [of "{}" "rt_current_thread k" k t] assms(1) m by (simp add: sched_wf_ok)
  then show ?thesis by (rule transit_upd_thread)
qed

lemma rt_thread_suspend_wf [wf_intros]:
  assumes "sched_wf k"
  shows "sched_wf (snd (rt_thread_suspend t k))"
proof (cases "stat k t = RT_THREAD_READY")
  case True
  have m: "mask_ok (threads k t)" using wf_mask [OF assms] True by simp
  have "sched_ok {} (rt_current_thread k)
      (upd_thread t (\<lambda>th. th\<lparr>th_stat := RT_THREAD_SUSPEND\<rparr>) (rt_schedule_remove_thread t k))"
    by (rule transit_done [OF suspended_transit [OF assms True]])
      (use m in \<open>simp_all add: upd_thread_def mask_ok_def\<close>)
  then show ?thesis using True by (simp add: rt_thread_suspend_eq sched_wf_ok upd_thread_def)
qed (use assms in \<open>simp add: rt_thread_suspend_eq\<close>)

lemma rt_thread_suspend_fields:
  assumes "stat k t = RT_THREAD_READY"
  shows "fst (rt_thread_suspend t k) = RT_EOK"
    and "rt_current_thread (snd (rt_thread_suspend t k)) = rt_current_thread k"
    and "threads (snd (rt_thread_suspend t k)) = (threads k)(t := (threads k t)\<lparr>th_stat := RT_THREAD_SUSPEND\<rparr>)"
    and "tlists (snd (rt_thread_suspend t k)) = removed t (tlists k)"
  using assms by (simp_all add: rt_thread_suspend_eq upd_thread_def)

lemma rt_thread_timeout_wf [wf_intros]:
  assumes wf: "sched_wf k" and t: "stat k t = RT_THREAD_SUSPEND" and cur: "rt_current_thread k = Some c"
  shows "sched_wf (rt_thread_timeout t k)"
proof -
  let ?k = "upd_thread t (\<lambda>th. th\<lparr>th_error := - RT_ETIMEOUT\<rparr>) k"
  have m: "mask_ok (threads k t)" using wf_mask [OF wf] t by simp
  have eq: "tlist_remove t ?k = upd_thread t (\<lambda>th. th\<lparr>th_error := - RT_ETIMEOUT\<rparr>) (tlist_remove t k)"
    by (simp add: state_defs)
  have "sched_ok {t} (rt_current_thread k) (tlist_remove t k)"
    using unlink_not_ready [of "{}" "rt_current_thread k" k t] wf t by (simp add: sched_wf_ok)
  then have "sched_ok {t} (rt_current_thread k) (tlist_remove t ?k)" unfolding eq by (rule transit_upd_thread)
  then have "sched_wf (rt_schedule_insert_thread t (tlist_remove t ?k))"
    using m by (intro insert_wf) (simp_all add: state_defs mask_ok_def)
  then show ?thesis
    unfolding rt_thread_timeout_def Let_def by (rule rt_schedule_wf) (simp add: state_defs cur)
qed

lemma upd_not_ready:
  assumes "sched_ok X c k" "stat k t \<noteq> RT_THREAD_READY" "th_stat (g (threads k t)) = stat k t"
    and "started (threads k t) \<Longrightarrow> mask_ok (g (threads k t))"
  shows "sched_ok X c (upd_thread t g k)"
proof -
  note d = sched_okD [OF assms(1)]
  let ?k = "upd_thread t g k"
  have tl: "tlists ?k = tlists k" and gr: "rt_thread_ready_priority_group ?k = rt_thread_ready_priority_group k"
    by (simp_all add: upd_thread_def)
  have st: "stat ?k u = stat k u" for u using assms(3) by (simp add: upd_thread_def)
  have pr: "prio ?k u = prio k u" if "u \<noteq> t" for u using that by (simp add: upd_thread_def)
  have "mask_ok (threads ?k u)" if "u \<notin> X" "started (threads ?k u)" for u
    using d(7) [of u] assms(4) that assms(3) by (auto simp: upd_thread_def started_def split: if_splits)
  moreover have "prio ?k u = p" if "u \<in> set (tlists k (LReady p))" for u p
    using d(4) [OF that] assms(2) pr [of u] by (cases "u = t") simp_all
  moreover have "c = Some u \<or> u \<in> set (tlists k (LReady (prio ?k u)))" if "u \<notin> X" "stat k u = RT_THREAD_READY" for u
    using d(8) [OF that] assms(2) pr [of u] that(2) by (cases "u = t"; cases "c = Some u") simp_all
  ultimately show ?thesis using d(1-6) unfolding sched_ok_def tl gr st by blast
qed

lemma insert_defunct:
  assumes ok: "sched_ok (insert t X) c k" and "t \<notin> X" and st: "stat k t = RT_THREAD_CLOSE"
  shows "sched_ok X c (tlist_insert_head LDefunct t k)"
proof -
  note d = sched_okD [OF ok]
  have un: "t \<notin> set (tlists k l)" for l using d(3) by simp
  let ?k = "tlist_insert_head LDefunct t k"
  have tl: "tlists ?k = (tlists k)(LDefunct := t # tlists k LDefunct)" and th: "threads ?k = threads k"
    and gr: "rt_thread_ready_priority_group ?k = rt_thread_ready_priority_group k"
    by (simp_all add: tlist_insert_head_def)
  have "disjoint_lists (tlists ?k)"
    unfolding tl using d(1) un disjoint_lists_distinct [OF d(1)] by (intro disjoint_lists_upd) simp_all
  moreover have "\<forall>l u. is_wait_list l \<and> u \<in> set (tlists ?k l) \<longrightarrow> stat k u = RT_THREAD_SUSPEND"
    using d(5) unfolding tl by (auto split: if_splits)
  moreover have "tlists ?k (LReady p) = tlists k (LReady p)" for p unfolding tl by simp
  moreover have "\<forall>u. u \<in> set (tlists ?k LDefunct) \<longrightarrow> stat k u = RT_THREAD_CLOSE"
    unfolding tl using d(6) st by auto
  moreover have "u \<notin> set (tlists ?k l)" if "u \<in> X" for u l
    using d(3) [of u] that assms(2) unfolding tl by auto
  moreover have "mask_ok (threads k u)" if "u \<notin> X" "started (threads k u)" for u
    using d(7) [of u] that st by (cases "u = t") (auto simp: started_def)
  moreover have "c = Some u \<or> u \<in> set (tlists k (LReady (prio k u)))" if "u \<notin> X" "stat k u = RT_THREAD_READY" for u
    using d(8) [of u] that st by (cases "u = t"; cases "c = Some u") auto
  ultimately show ?thesis using d(2,4) unfolding sched_ok_def th gr by simp
qed

lemma sched_ok_object [simp]:
  "sched_ok X c (rt_object_detach x k) = sched_ok X c k"
  "sched_ok X c (rt_object_init x ty n k) = sched_ok X c k"
  "sched_ok X c (snd (rt_timer_detach y k)) = sched_ok X c k"
  by (intro sched_ok_cong; simp add: rt_object_detach_def rt_object_init_def rt_timer_detach_def
      rt_timer_remove_def state_defs Let_def)+

lemma detach_fields [simp]:
  "threads (rt_object_detach x k) = threads k" "rt_current_thread (rt_object_detach x k) = rt_current_thread k"
  "tlists (rt_object_detach x k) = tlists k"
  "threads (snd (rt_timer_detach y k)) = threads k"
  "rt_current_thread (snd (rt_timer_detach y k)) = rt_current_thread k"
  "tlists (snd (rt_timer_detach y k)) = tlists k"
  by (simp_all add: rt_object_detach_def rt_timer_detach_def rt_timer_remove_def state_defs Let_def)

lemma leave_schedule:
  assumes "sched_wf k" "stat k t \<in> {RT_THREAD_INIT, RT_THREAD_READY, RT_THREAD_SUSPEND}"
  shows "sched_ok {t} (rt_current_thread k)
    (if stat k t \<noteq> RT_THREAD_INIT then rt_schedule_remove_thread t k else k)"
proof (cases "stat k t = RT_THREAD_INIT")
  case True
  have "sched_ok {} (rt_current_thread k) k" using assms(1) by (simp add: sched_wf_ok)
  then show ?thesis using True init_unlinked unlinked_transit [of "{}" _ k t] by simp
next
  case False
  then have "mask_ok (threads k t)" using wf_mask [OF assms(1), of t] assms(2) by auto
  then show ?thesis using False remove_ready [of "{}" "rt_current_thread k" k t] assms(1) by (simp add: sched_wf_ok)
qed

lemma upd_thread_simps [simp]:
  "rt_current_thread (upd_thread t g k) = rt_current_thread k" "tlists (upd_thread t g k) = tlists k"
  "threads (upd_thread t g k) = (threads k)(t := g (threads k t))"
  "rt_scheduler_lock_nest (upd_thread t g k) = rt_scheduler_lock_nest k"
  "rt_current_thread (tlist_insert_head l t k) = rt_current_thread k"
  "threads (tlist_insert_head l t k) = threads k"
  "rt_current_thread (tlist_insert_tail l t k) = rt_current_thread k"
  "threads (tlist_insert_tail l t k) = threads k"
  "rt_current_thread (tlist_remove t k) = rt_current_thread k"
  "threads (tlist_remove t k) = threads k" "tlists (tlist_remove t k) = removed t (tlists k)"
  by (simp_all add: state_defs)

text \<open>A thread that is closed: it is in the defunct list, or in no list.\<close>

lemma closed_wf:
  assumes "sched_ok {t} c k" "stat k t = RT_THREAD_CLOSE"
  shows "sched_ok {} c k" "sched_ok {} c (tlist_insert_head LDefunct t k)"
  using transit_done [OF assms(1)] insert_defunct [OF assms(1)] assms(2) by (simp_all add: started_def)

lemma rt_thread_delete_wf [wf_intros]:
  assumes "sched_wf k" "stat k t \<in> {RT_THREAD_INIT, RT_THREAD_READY, RT_THREAD_SUSPEND}"
  shows "sched_wf (snd (rt_thread_delete t k))"
  using transit_upd_thread [OF iffD2 [OF sched_ok_object(3) leave_schedule [OF assms]],
      of "\<lambda>th. th\<lparr>th_stat := RT_THREAD_CLOSE\<rparr>" "TThread t"]
  by (simp add: rt_thread_delete_def split_def Let_def sched_wf_ok closed_wf split: if_splits)

lemma rt_thread_detach_wf [wf_intros]:
  assumes "sched_wf k" "stat k t \<in> {RT_THREAD_INIT, RT_THREAD_READY, RT_THREAD_SUSPEND}"
  shows "sched_wf (snd (rt_thread_detach t k))"
proof -
  let ?k1 = "if stat k t \<noteq> RT_THREAD_INIT then rt_schedule_remove_thread t k else k"
  let ?k2 = "rt_object_detach (OThread t)
    (upd_thread t (\<lambda>th. th\<lparr>th_stat := RT_THREAD_CLOSE\<rparr>) (snd (rt_timer_detach (TThread t) ?k1)))"
  have "sched_ok {t} (rt_current_thread k) ?k2"
    unfolding sched_ok_object by (rule transit_upd_thread) (use leave_schedule [OF assms] in simp)
  moreover have "stat ?k2 t = RT_THREAD_CLOSE" by simp
  moreover have "rt_current_thread ?k2 = rt_current_thread k" by simp
  ultimately show ?thesis using closed_wf [of t "rt_current_thread k" ?k2]
    unfolding rt_thread_detach_def Let_def split_def by (simp add: sched_wf_ok split: if_splits)
qed

lemma rt_thread_exit_wf [wf_intros]:
  assumes "sched_wf k" "rt_current_thread k = Some t" "stat k t = RT_THREAD_READY"
  shows "sched_wf (rt_thread_exit k)"
proof -
  let ?k2 = "snd (rt_timer_detach (TThread t)
    (upd_thread t (\<lambda>th. th\<lparr>th_stat := RT_THREAD_CLOSE\<rparr>) (rt_schedule_remove_thread t k)))"
  have "sched_ok {t} (Some t) ?k2"
    unfolding sched_ok_object using leave_schedule [OF assms(1), of t] assms(2,3)
    by (intro transit_upd_thread) simp
  moreover have "stat ?k2 t = RT_THREAD_CLOSE" "rt_current_thread ?k2 = Some t" using assms(2) by simp_all
  ultimately have *: "sched_wf (if b then rt_object_detach (OThread t) ?k2 else tlist_insert_head LDefunct t ?k2)"
    "rt_current_thread (if b then rt_object_detach (OThread t) ?k2 else tlist_insert_head LDefunct t ?k2) = Some t" for b
    using closed_wf [of t "Some t" ?k2] by (simp_all add: sched_wf_ok)
  show ?thesis
    unfolding rt_thread_exit_def Let_def split_def assms(2) option.sel by (rule rt_schedule_wf [OF *])
qed

lemma startup_upd:
  "upd_thread t (\<lambda>th. th\<lparr>th_stat := RT_THREAD_SUSPEND\<rparr>)
     (upd_thread t (\<lambda>th. th\<lparr>th_number_mask := push_bit (th_current_priority th) 1\<rparr>)
       (upd_thread t (\<lambda>th. th\<lparr>th_current_priority := th_init_priority th\<rparr>) k)) =
   upd_thread t (\<lambda>th. th\<lparr>th_current_priority := th_init_priority th, th_number_mask := push_bit (th_init_priority th) 1,
     th_stat := RT_THREAD_SUSPEND\<rparr>) k"
  by (simp add: upd_thread_def del: push_bit_of_1)

lemma rt_thread_startup_wf [wf_intros]:
  assumes wf: "sched_wf k" and st: "stat k t = RT_THREAD_INIT" and p: "th_init_priority (threads k t) < 32"
  shows "sched_wf (snd (rt_thread_startup t k))"
proof -
  let ?u = "\<lambda>th. th\<lparr>th_current_priority := th_init_priority th, th_number_mask := push_bit (th_init_priority th) 1,
    th_stat := RT_THREAD_SUSPEND\<rparr>"
  have ok: "sched_ok {} (rt_current_thread k) k" using wf by (simp add: sched_wf_ok)
  have "sched_ok {t} (rt_current_thread k) (upd_thread t ?u k)"
    by (rule transit_upd_thread, rule unlinked_transit [OF ok], rule init_unlinked [OF ok st])
  then have "sched_ok {} (rt_current_thread k) (upd_thread t ?u k)"
    by (rule transit_done) (use p in \<open>simp_all add: mask_ok_def\<close>)
  then have wf': "sched_wf (snd (rt_thread_resume t (upd_thread t ?u k)))"
    by (intro rt_thread_resume_wf) (simp add: sched_wf_ok)
  have "sched_wf (if rt_thread_self K \<noteq> None then rt_schedule K else K)"
    if "sched_wf K" for K using rt_schedule_wf that by (auto simp: rt_thread_self_def)
  from this [OF wf'] show ?thesis unfolding rt_thread_startup_def Let_def split_def startup_upd snd_conv .
qed

lemma rt_thread_control_wf [wf_intros]:
  assumes wf: "sched_wf k" and arg: "arg < 32"
  shows "sched_wf (snd (rt_thread_control t 2 arg k))"
proof -
  let ?u = "\<lambda>th. th\<lparr>th_current_priority := arg, th_number_mask := push_bit arg 1\<rparr>"
  have ch: "upd_thread t (\<lambda>th. th\<lparr>th_number_mask := push_bit (th_current_priority th) 1\<rparr>)
      (upd_thread t (\<lambda>th. th\<lparr>th_current_priority := arg\<rparr>) K) = upd_thread t ?u K" for K
    by (simp add: upd_thread_def del: push_bit_of_1)
  show ?thesis
  proof (cases "stat k t = RT_THREAD_READY")
    case True
    have "sched_ok {t} (rt_current_thread k) (upd_thread t ?u (rt_schedule_remove_thread t k))"
      using leave_schedule [OF wf, of t] True by (intro transit_upd_thread) simp
    then have "sched_wf (rt_schedule_insert_thread t (upd_thread t ?u (rt_schedule_remove_thread t k)))"
      using arg by (intro insert_wf) (simp_all add: mask_ok_def)
    then show ?thesis using True unfolding rt_thread_control_def Let_def ch by simp
  next
    case False
    have "sched_ok {} (rt_current_thread k) (upd_thread t ?u k)"
      using wf False arg by (intro upd_not_ready) (simp_all add: sched_wf_ok mask_ok_def)
    then show ?thesis using False unfolding rt_thread_control_def Let_def ch by (simp add: sched_wf_ok)
  qed
qed

lemma rt_thread_sleep_wf [wf_intros]:
  assumes "sched_wf k" "rt_current_thread k = Some t" "stat k t = RT_THREAD_READY"
  shows "sched_wf (rt_thread_sleep tick k)"
proof -
  let ?k = "snd (rt_thread_suspend t k)"
  have "sched_wf ?k" "rt_current_thread ?k = Some t"
    using rt_thread_suspend_wf [OF assms(1)] rt_thread_suspend_fields [OF assms(3)] assms(2) by simp_all
  then show ?thesis using assms(2)
    by (simp add: rt_thread_sleep_def rt_timer_control_def Let_def split_def rt_schedule_wf)
qed

section \<open>Time\<close>

text \<open>The timers of threads: in the list only while the thread is suspended, one-shot, with
  \<open>rt_thread_timeout\<close> as their function; the other timers run code outside the kernel.\<close>

definition wake_wf :: "kernel \<Rightarrow> bool" where
  "wake_wf k \<longleftrightarrow> (\<forall>x \<in> set (rt_timer_list k). case x of
       TThread t \<Rightarrow> tm_timeout_func (timers k x) = F_thread_timeout t \<and> stat k t = RT_THREAD_SUSPEND \<and>
                    \<not> has_flag x RT_TIMER_FLAG_PERIODIC k
     | TTimer n \<Rightarrow> \<exists>m. tm_timeout_func (timers k x) = F_user m)"

text \<open>Timeout functions outside the kernel that leave threads, scheduler and timers alone.\<close>

definition tame :: "(nat \<Rightarrow> kernel \<Rightarrow> kernel) \<Rightarrow> bool" where
  "tame user \<longleftrightarrow> (\<forall>n k. threads (user n k) = threads k \<and> tlists (user n k) = tlists k \<and>
     rt_thread_ready_priority_group (user n k) = rt_thread_ready_priority_group k \<and>
     rt_current_thread (user n k) = rt_current_thread k \<and> rt_tick (user n k) = rt_tick k \<and>
     timers (user n k) = timers k \<and> rt_timer_list (user n k) = rt_timer_list k \<and> objects (user n k) = objects k)"

definition woken :: "rt_thread \<Rightarrow> rt_thread" where
  "woken th = th\<lparr>th_error := - RT_ETIMEOUT, th_stat := RT_THREAD_READY\<rparr>"

lemma rt_thread_timeout_frame [simp]:
  "rt_tick (rt_thread_timeout t k) = rt_tick k" "timers (rt_thread_timeout t k) = timers k"
  "rt_timer_list (rt_thread_timeout t k) = rt_timer_list k" "objects (rt_thread_timeout t k) = objects k"
  by (simp_all add: rt_thread_timeout_def Let_def frame_simps)
    (simp_all add: rt_schedule_insert_thread_def state_defs Let_def)

lemma quiet_run_timeout: "tame user \<Longrightarrow> quiet (run_timeout user)"
  by (auto simp: quiet_def run_timeout_def tame_def split: timeout_func.splits)

lemma rt_thread_timeout_threads:
  assumes "sched_wf k" "stat k t = RT_THREAD_SUSPEND" "rt_current_thread k = Some c"
  shows "threads (rt_thread_timeout t k) = (threads k)(t := woken (threads k t))"
    and "\<exists>c'. rt_current_thread (rt_thread_timeout t k) = Some c'"
proof -
  let ?k = "upd_thread t (\<lambda>th. th\<lparr>th_error := - RT_ETIMEOUT\<rparr>) k"
  have eq: "tlist_remove t ?k = upd_thread t (\<lambda>th. th\<lparr>th_error := - RT_ETIMEOUT\<rparr>) (tlist_remove t k)"
    by (simp add: state_defs)
  have "sched_ok {t} (rt_current_thread k) (tlist_remove t k)"
    using unlink_not_ready [of "{}" "rt_current_thread k" k t] assms by (simp add: sched_wf_ok)
  then have "sched_ok {t} (rt_current_thread k) (tlist_remove t ?k)" unfolding eq by (rule transit_upd_thread)
  then have wf: "sched_wf (rt_schedule_insert_thread t (tlist_remove t ?k))"
    using wf_mask [OF assms(1)] assms(2) by (intro insert_wf) (simp_all add: mask_ok_def)
  have cur: "rt_current_thread (rt_schedule_insert_thread t (tlist_remove t ?k)) = Some c" using assms(3) by simp
  show "threads (rt_thread_timeout t k) = (threads k)(t := woken (threads k t))"
    unfolding rt_thread_timeout_def Let_def rt_schedule_threads [OF wf cur] by (simp add: woken_def)
  show "\<exists>c'. rt_current_thread (rt_thread_timeout t k) = Some c'"
    unfolding rt_thread_timeout_def Let_def using rt_schedule_current [OF wf cur] by metis
qed

lemma sched_wf_cong:
  "threads k' = threads k \<Longrightarrow> tlists k' = tlists k \<Longrightarrow>
   rt_thread_ready_priority_group k' = rt_thread_ready_priority_group k \<Longrightarrow>
   rt_current_thread k' = rt_current_thread k \<Longrightarrow> sched_wf k' = sched_wf k"
  using sched_ok_cong [of k' k] by (simp add: sched_wf_ok)

lemma flag_sched [simp]:
  "threads (clear_flag x f k) = threads k" "tlists (clear_flag x f k) = tlists k"
  "rt_current_thread (clear_flag x f k) = rt_current_thread k"
  "rt_thread_ready_priority_group (clear_flag x f k) = rt_thread_ready_priority_group k"
  "threads (rt_timer_remove x k) = threads k" "tlists (rt_timer_remove x k) = tlists k"
  "rt_current_thread (rt_timer_remove x k) = rt_current_thread k"
  "rt_thread_ready_priority_group (rt_timer_remove x k) = rt_thread_ready_priority_group k"
  by (simp_all add: clear_flag_def rt_timer_remove_def state_defs)

text \<open>Firing one timer: the scheduler state, the thread it wakes, and the timers' functions.\<close>

lemma fire_sched:
  assumes "tame user" "sched_wf k" "rt_current_thread k = Some c"
    and "case tm_timeout_func (timers k x) of F_thread_timeout t \<Rightarrow> stat k t = RT_THREAD_SUSPEND | F_user n \<Rightarrow> True"
  defines "k' \<equiv> timer_fire (run_timeout user) x k"
  shows "sched_wf k'" and "\<exists>c'. rt_current_thread k' = Some c'"
    and "threads k' = (case tm_timeout_func (timers k x) of
      F_thread_timeout t \<Rightarrow> (threads k)(t := woken (threads k t)) | F_user n \<Rightarrow> threads k)"
    and "tm_timeout_func (timers k' y) = tm_timeout_func (timers k y)"
proof -
  define k1 where "k1 = run_timeout user (tm_timeout_func (timers k x)) (rt_timer_remove x k)"
  have wf: "sched_wf (rt_timer_remove x k)" using assms(2) sched_wf_cong [of "rt_timer_remove x k" k] by simp
  have cur: "rt_current_thread (rt_timer_remove x k) = Some c" using assms(3) by simp
  have 1: "sched_wf k1 \<and> (\<exists>c'. rt_current_thread k1 = Some c') \<and> timers k1 = timers k \<and>
    threads k1 = (case tm_timeout_func (timers k x) of
      F_thread_timeout t \<Rightarrow> (threads k)(t := woken (threads k t)) | F_user n \<Rightarrow> threads k)"
  proof (cases "tm_timeout_func (timers k x)")
    case (F_thread_timeout t)
    then have "stat (rt_timer_remove x k) t = RT_THREAD_SUSPEND" using assms(4) by simp
    then show ?thesis
      using rt_thread_timeout_wf [OF wf _ cur] rt_thread_timeout_threads [OF wf _ cur] F_thread_timeout
      by (simp add: k1_def run_timeout_def)
  next
    case (F_user n)
    then show ?thesis using assms(1) wf cur sched_wf_cong [of k1 "rt_timer_remove x k"]
      by (auto simp: k1_def run_timeout_def tame_def)
  qed
  have k': "k' = (if has_flag x RT_TIMER_FLAG_PERIODIC k1 \<and> has_flag x RT_TIMER_FLAG_ACTIVATED k1
      then rt_timer_start x (clear_flag x RT_TIMER_FLAG_ACTIVATED k1) else clear_flag x RT_TIMER_FLAG_ACTIVATED k1)"
    by (simp add: k'_def timer_fire_def k1_def Let_def)
  show "sched_wf k'" using 1 sched_wf_cong [of k' k1] by (simp add: k')
  show "\<exists>c'. rt_current_thread k' = Some c'" using 1 by (simp add: k')
  show "threads k' = (case tm_timeout_func (timers k x) of
      F_thread_timeout t \<Rightarrow> (threads k)(t := woken (threads k t)) | F_user n \<Rightarrow> threads k)"
    using 1 by (simp add: k')
  show "tm_timeout_func (timers k' y) = tm_timeout_func (timers k y)"
    using 1 by (simp add: k' rt_timer_start_timers)
qed

text \<open>The whole check: exactly the threads with an expired timer wake up.\<close>

lemma fold_fire_sched:
  assumes "tame user" "sched_wf k" "rt_current_thread k = Some c" "distinct es"
    and "\<And>x. x \<in> set es \<Longrightarrow> case x of
      TThread t \<Rightarrow> tm_timeout_func (timers k x) = F_thread_timeout t \<and> stat k t = RT_THREAD_SUSPEND
    | TTimer n \<Rightarrow> \<exists>m. tm_timeout_func (timers k x) = F_user m"
  defines "k' \<equiv> fold (timer_fire (run_timeout user)) es k"
  shows "sched_wf k' \<and> (\<exists>c'. rt_current_thread k' = Some c') \<and>
    (\<forall>t. threads k' t = (if TThread t \<in> set es then woken (threads k t) else threads k t)) \<and>
    (\<forall>y. tm_timeout_func (timers k' y) = tm_timeout_func (timers k y))"
  using assms(2-5) unfolding k'_def
proof (induction es arbitrary: k c)
  case (Cons x es)
  let ?k = "timer_fire (run_timeout user) x k"
  have x: "case tm_timeout_func (timers k x) of F_thread_timeout t \<Rightarrow> stat k t = RT_THREAD_SUSPEND | F_user n \<Rightarrow> True"
    using Cons.prems(4) [of x] by (auto split: timer_id.splits)
  note f = fire_sched [OF assms(1) Cons.prems(1,2) x]
  obtain c' where c': "rt_current_thread ?k = Some c'" using f(2) by blast
  have thr: "threads ?k = (case x of TThread t \<Rightarrow> (threads k)(t := woken (threads k t)) | TTimer n \<Rightarrow> threads k)"
    using Cons.prems(4) [of x] f(3) by (auto split: timer_id.splits)
  have "case y of TThread t \<Rightarrow> tm_timeout_func (timers ?k y) = F_thread_timeout t \<and> stat ?k t = RT_THREAD_SUSPEND
    | TTimer n \<Rightarrow> \<exists>m. tm_timeout_func (timers ?k y) = F_user m" if "y \<in> set es" for y
    using Cons.prems(3) Cons.prems(4) [of y] that f(4) [of y] thr by (auto split: timer_id.splits)
  from Cons.IH [OF f(1) c' _ this] Cons.prems(3)
  show ?case using thr f(4) by (auto split: timer_id.splits)
qed simp

text \<open>All of it together, relative to a base tick.\<close>

definition kernel_wf :: "tick \<Rightarrow> kernel \<Rightarrow> bool" where
  "kernel_wf b k \<longleftrightarrow> sched_wf k \<and> timers_wf b k \<and> wake_wf k \<and> (\<exists>c. rt_current_thread k = Some c)"

text \<open>Once no timer is expired, the current tick can serve as the base.\<close>

lemma timers_wf_rebase:
  assumes wf: "timers_wf b k" and now: "dist b (rt_tick k) < window"
    and ne: "\<forall>t \<in> set (rt_timer_list k). \<not> expired k t"
  shows "timers_wf (rt_tick k) k" and "\<forall>t \<in> set (rt_timer_list k). 0 < dist (rt_tick k) (timeout_of k t)"
proof -
  have d: "dist (rt_tick k) (timeout_of k t) = dist b (timeout_of k t) - dist b (rt_tick k) \<and>
      dist b (rt_tick k) < dist b (timeout_of k t)" if "t \<in> set (rt_timer_list k)" for t
    using expired_iff [OF wf now that] ne that dist_diff [of "timeout_of k t" "rt_tick k" b] by auto
  then show "\<forall>t \<in> set (rt_timer_list k). 0 < dist (rt_tick k) (timeout_of k t)" by auto
  have "sorted (map (\<lambda>t. dist b (timeout_of k t) - dist b (rt_tick k)) (rt_timer_list k))"
    using wf by (auto simp: timers_wf_def sorted_map intro: sorted_wrt_mono_rel [rotated] diff_le_mono)
  moreover have "map (\<lambda>t. dist (rt_tick k) (timeout_of k t)) (rt_timer_list k) =
      map (\<lambda>t. dist b (timeout_of k t) - dist b (rt_tick k)) (rt_timer_list k)"
    using d by (intro map_cong) simp_all
  moreover have "dist (rt_tick k) (timeout_of k t) < window" if "t \<in> set (rt_timer_list k)" for t
    using d [OF that] wf that unfolding timers_wf_def by (metis less_imp_diff_less)
  ultimately show "timers_wf (rt_tick k) k" using wf by (simp only: timers_wf_def) blast
qed

text \<open>Changes to a thread that the scheduler does not look at.\<close>

lemma sched_ok_upd_other:
  assumes "th_stat (g (threads k t)) = stat k t" "th_current_priority (g (threads k t)) = prio k t"
    "th_number_mask (g (threads k t)) = th_number_mask (threads k t)"
  shows "sched_ok X c (upd_thread t g k) = sched_ok X c k"
proof -
  have "stat (upd_thread t g k) u = stat k u" "prio (upd_thread t g k) u = prio k u"
    "mask_ok (threads (upd_thread t g k) u) = mask_ok (threads k u)"
    "started (threads (upd_thread t g k) u) = started (threads k u)" for u
    using assms by (simp_all add: upd_thread_def mask_ok_def started_def)
  moreover have "rt_thread_ready_priority_group (upd_thread t g k) = rt_thread_ready_priority_group k"
    by (simp add: upd_thread_def)
  ultimately show ?thesis unfolding sched_ok_def by simp
qed

lemma kernel_wf_cong:
  assumes "timers k' = timers k" "rt_timer_list k' = rt_timer_list k" "objects k' = objects k"
    "\<And>t. stat k' t = stat k t" "sched_wf k'" "rt_current_thread k' = Some c"
  shows "kernel_wf b k \<Longrightarrow> kernel_wf b k'"
  using assms by (simp add: kernel_wf_def timers_wf_def wake_wf_def has_flag_def cong: timer_id.case_cong)

text \<open>The tick interrupt before the timer check.\<close>

definition tick_slice :: "kernel \<Rightarrow> kernel" where
  "tick_slice k =
     (let t = self k;
          k = upd_thread t (\<lambda>th. th\<lparr>th_remaining_tick := th_remaining_tick th - 1\<rparr>) (k\<lparr>rt_tick := rt_tick k + 1\<rparr>)
      in if th_remaining_tick (threads k t) = 0
         then rt_schedule (upd_thread t (\<lambda>th. th\<lparr>th_remaining_tick := th_init_tick th\<rparr>) k)
         else k)"

lemma rt_tick_increase_tick_slice: "rt_tick_increase user k = rt_timer_check (run_timeout user) (tick_slice k)"
  by (simp add: rt_tick_increase_def tick_slice_def rt_thread_yield_def Let_def)

lemma tick_slice_fields:
  assumes wf: "kernel_wf b k"
  shows "kernel_wf b (tick_slice k)" "rt_tick (tick_slice k) = rt_tick k + 1" "timers (tick_slice k) = timers k"
    "rt_timer_list (tick_slice k) = rt_timer_list k" "objects (tick_slice k) = objects k"
    "stat (tick_slice k) t = stat k t" "th_error (threads (tick_slice k) t) = th_error (threads k t)"
proof -
  obtain c where c: "sched_wf k" "rt_current_thread k = Some c" using wf by (auto simp: kernel_wf_def)
  define k1 where "k1 = upd_thread c (\<lambda>th. th\<lparr>th_remaining_tick := th_remaining_tick th - 1\<rparr>) (k\<lparr>rt_tick := rt_tick k + 1\<rparr>)"
  define k2 where "k2 = upd_thread c (\<lambda>th. th\<lparr>th_remaining_tick := th_init_tick th\<rparr>) k1"
  have "sched_ok {} (Some c) (k\<lparr>rt_tick := rt_tick k + 1\<rparr>)"
    using c sched_ok_cong [of "k\<lparr>rt_tick := rt_tick k + 1\<rparr>" k] by (simp add: sched_wf_ok)
  then have wf1: "sched_wf k1" "rt_current_thread k1 = Some c"
    using c by (simp_all add: k1_def sched_wf_ok sched_ok_upd_other)
  then have wf2: "sched_wf k2" "rt_current_thread k2 = Some c"
    by (simp_all add: k2_def sched_wf_ok sched_ok_upd_other)
  have f: "rt_tick k1 = rt_tick k + 1" "timers k1 = timers k" "rt_timer_list k1 = rt_timer_list k"
    "objects k1 = objects k" "stat k1 t = stat k t" "th_error (threads k1 t) = th_error (threads k t)"
    "rt_tick k2 = rt_tick k + 1" "timers k2 = timers k" "rt_timer_list k2 = rt_timer_list k"
    "objects k2 = objects k" "stat k2 t = stat k t" "th_error (threads k2 t) = th_error (threads k t)" for t
    by (simp_all add: k2_def k1_def upd_thread_def)
  have s: "tick_slice k = (if th_remaining_tick (threads k1 c) = 0 then rt_schedule k2 else k1)"
    using c by (simp add: tick_slice_def k1_def k2_def Let_def)
  show g: "rt_tick (tick_slice k) = rt_tick k + 1" "timers (tick_slice k) = timers k"
    "rt_timer_list (tick_slice k) = rt_timer_list k" "objects (tick_slice k) = objects k"
    "stat (tick_slice k) t = stat k t" "th_error (threads (tick_slice k) t) = th_error (threads k t)" for t
    using f wf2 by (simp_all add: s frame_simps)
  obtain c' where "rt_current_thread (tick_slice k) = Some c'" using s wf1(2) rt_schedule_current [OF wf2] by metis
  moreover have "sched_wf (tick_slice k)" using s wf1 rt_schedule_wf [OF wf2] by simp
  ultimately show "kernel_wf b (tick_slice k)" using wf kernel_wf_cong [of "tick_slice k" k c' b] g by blast
qed

definition periods_wf :: "kernel \<Rightarrow> bool" where
  "periods_wf k \<longleftrightarrow> (\<forall>x \<in> set (rt_timer_list k). has_flag x RT_TIMER_FLAG_PERIODIC k \<longrightarrow>
     1 \<le> unat (tm_init_tick (timers k x)) \<and> 1 + unat (tm_init_tick (timers k x)) < window)"

abbreviation due :: "kernel \<Rightarrow> tid \<Rightarrow> bool" where
  "due k t \<equiv> TThread t \<in> set (rt_timer_list k) \<and> dist (rt_tick k) (timeout_of k (TThread t)) \<le> 1"

lemma rt_tick_increase_spec:
  assumes wf: "kernel_wf (rt_tick k) k" and tame: "tame user" and per: "periods_wf k"
  obtains k' where "rt_tick_increase user k = Some k'" "kernel_wf (rt_tick k') k'" "periods_wf k'"
    "rt_tick k' = rt_tick k + 1"
    "\<And>t. due k t \<Longrightarrow>
      stat k' t = RT_THREAD_READY \<and> th_error (threads k' t) = - RT_ETIMEOUT \<and> TThread t \<notin> set (rt_timer_list k')"
    "\<And>t. \<not> due k t \<Longrightarrow> stat k' t = stat k t \<and> th_error (threads k' t) = th_error (threads k t)"
    "\<And>t. TThread t \<in> set (rt_timer_list k) \<Longrightarrow> \<not> due k t \<Longrightarrow>
      TThread t \<in> set (rt_timer_list k') \<and> timeout_of k' (TThread t) = timeout_of k (TThread t)"
proof -
  let ?b = "rt_tick k" and ?K = "tick_slice k"
  note S = tick_slice_fields [OF wf]
  have now: "dist ?b (rt_tick ?K) = 1" using S(2) by simp
  have flags: "has_flag x f ?K = has_flag x f k" for x f using S(5) by (simp add: has_flag_def)
  have P: "periods_ok ?b ?K" using per S(2-4) flags by (simp add: periods_ok_def periods_wf_def)
  have T: "timers_wf ?b ?K" "dist ?b (rt_tick ?K) < window" using S(1) now by (simp_all add: kernel_wf_def)
  define es where "es = takeWhile (expired ?K) (rt_timer_list ?K)"
  define k' where "k' = fold (timer_fire (run_timeout user)) es ?K"
  have es: "x \<in> set es \<longleftrightarrow> x \<in> set (rt_timer_list k) \<and> dist ?b (timeout_of k x) \<le> 1" for x
    unfolding es_def expired_prefix [OF T] using expired_iff [OF T] S(3,4) now by auto
  note C = rt_timer_check_fold [OF T(1) quiet_run_timeout [OF tame] T(2) P es_def [symmetric], folded k'_def]
  note F = fold_fire_timers [OF T(1) quiet_run_timeout [OF tame] T(2) P es_def [symmetric], folded k'_def, rule_format]
  obtain c where c: "sched_wf ?K" "rt_current_thread ?K = Some c" using S(1) by (auto simp: kernel_wf_def)
  have wake: "case x of
      TThread t \<Rightarrow> tm_timeout_func (timers ?K x) = F_thread_timeout t \<and> stat ?K t = RT_THREAD_SUSPEND
    | TTimer n \<Rightarrow> \<exists>m. tm_timeout_func (timers ?K x) = F_user m" if "x \<in> set es" for x
    using S(1,4) es that unfolding kernel_wf_def wake_wf_def by (fastforce split: timer_id.splits)
  have "distinct es" using T(1) unfolding es_def timers_wf_def by (simp add: distinct_takeWhile)
  note D = fold_fire_sched [OF tame c this wake, folded k'_def]
  have tick: "rt_tick k' = rt_tick k + 1" using C S(2) by simp
  have wake': "wake_wf k'"
    unfolding wake_wf_def
  proof
    fix x assume x: "x \<in> set (rt_timer_list k')"
    then have l: "x \<in> set (rt_timer_list ?K)" "x \<notin> set es \<or> has_flag x RT_TIMER_FLAG_PERIODIC ?K"
      using F [of x] by auto
    show "case x of
        TThread t \<Rightarrow> tm_timeout_func (timers k' x) = F_thread_timeout t \<and> stat k' t = RT_THREAD_SUSPEND \<and>
                    \<not> has_flag x RT_TIMER_FLAG_PERIODIC k'
      | TTimer n \<Rightarrow> \<exists>m. tm_timeout_func (timers k' x) = F_user m"
      using l S(1) D F [of x] unfolding kernel_wf_def wake_wf_def by (fastforce split: timer_id.splits)
  qed
  have np: "\<not> has_flag (TThread t) RT_TIMER_FLAG_PERIODIC ?K" if "TThread t \<in> set (rt_timer_list k)" for t
    using S(1,4) that unfolding kernel_wf_def wake_wf_def by fastforce
  have "timers_wf ?b k'" "\<forall>t \<in> set (rt_timer_list k'). \<not> expired k' t" using C by blast+
  moreover have "dist ?b (rt_tick k') < window" using tick now S(2) by simp
  ultimately have "timers_wf (rt_tick k') k'" by (intro timers_wf_rebase(1))
  then have 1: "kernel_wf (rt_tick k') k'" using D wake' by (simp add: kernel_wf_def)
  have 2: "periods_wf k'" using per F S(3,4) flags unfolding periods_wf_def by simp
  show ?thesis
    by (rule that [of k']) (use C 1 2 tick D F es S np in \<open>auto simp: rt_tick_increase_tick_slice woken_def\<close>)
qed
section \<open>Properties\<close>

text \<open>
  C14. One tick: \<open>rt_tick_increase\<close> returns; the kernel stays well-formed; the suspended threads whose
  timer is due become ready with error \<open>-RT_ETIMEOUT\<close> and their timer leaves the list; no other
  thread changes its state or error, and the other threads' timers stay as they were.
\<close>

theorem rt_tick_increase_wakes_due_threads:
  assumes "kernel_wf (rt_tick k) k" "tame user" "periods_wf k"
  shows "\<exists>k'. rt_tick_increase user k = Some k' \<and> kernel_wf (rt_tick k') k' \<and> rt_tick k' = rt_tick k + 1 \<and>
    (\<forall>t. if due k t
         then stat k' t = RT_THREAD_READY \<and> th_error (threads k' t) = - RT_ETIMEOUT \<and> TThread t \<notin> set (rt_timer_list k')
         else stat k' t = stat k t \<and> th_error (threads k' t) = th_error (threads k t) \<and>
              (TThread t \<in> set (rt_timer_list k) \<longrightarrow>
               TThread t \<in> set (rt_timer_list k') \<and> timeout_of k' (TThread t) = timeout_of k (TThread t)))"
  using rt_tick_increase_spec [OF assms] by (metis (no_types, lifting))

text \<open>A thread that sleeps, with time passing.\<close>

fun run_ticks :: "(nat \<Rightarrow> kernel \<Rightarrow> kernel) \<Rightarrow> nat \<Rightarrow> kernel \<Rightarrow> kernel option" where
  "run_ticks user 0 k = Some k"
| "run_ticks user (Suc n) k =
     (case rt_tick_increase user k of None \<Rightarrow> None | Some k' \<Rightarrow> run_ticks user n k')"

lemma run_ticks_Suc:
  "run_ticks user (Suc m) k = (case run_ticks user m k of None \<Rightarrow> None | Some k' \<Rightarrow> rt_tick_increase user k')"
proof (induction m arbitrary: k)
  case 0
  then show ?case by (simp split: option.splits)
next
  case (Suc m)
  show ?case
  proof (cases "rt_tick_increase user k")
    case (Some k')
    then have "run_ticks user (Suc (Suc m)) k = run_ticks user (Suc m) k'" by simp
    also note Suc [of k']
    finally show ?thesis using Some by simp
  qed simp
qed

lemma dist_Suc:
  fixes now tt :: tick
  assumes "dist now tt = Suc n"
  shows "dist (now + 1) tt = n"
  using dist_diff [of tt "now + 1" now] assms by simp

lemma run_ticks_waiting:
  assumes "kernel_wf (rt_tick k) k" "tame user" "periods_wf k"
    and "TThread t \<in> set (rt_timer_list k)" "dist (rt_tick k) (timeout_of k (TThread t)) = n + d" "0 < d"
  shows "\<exists>k'. run_ticks user n k = Some k' \<and> kernel_wf (rt_tick k') k' \<and> periods_wf k' \<and>
    TThread t \<in> set (rt_timer_list k') \<and> dist (rt_tick k') (timeout_of k' (TThread t)) = d \<and>
    stat k' t = RT_THREAD_SUSPEND"
  using assms
proof (induction n arbitrary: k)
  case 0
  then have "stat k t = RT_THREAD_SUSPEND" unfolding kernel_wf_def wake_wf_def by fastforce
  then show ?case using 0 by simp
next
  case (Suc n)
  have nd: "\<not> due k t" using Suc.prems(5,6) by simp
  obtain k' where k': "rt_tick_increase user k = Some k'" "kernel_wf (rt_tick k') k'" "periods_wf k'"
    "rt_tick k' = rt_tick k + 1" "TThread t \<in> set (rt_timer_list k')"
    "timeout_of k' (TThread t) = timeout_of k (TThread t)"
    using rt_tick_increase_spec [OF Suc.prems(1-3)] nd Suc.prems(4) by metis
  have "dist (rt_tick k') (timeout_of k' (TThread t)) = n + d"
    using dist_Suc [of "timeout_of k (TThread t)" "rt_tick k" "n + d"] Suc.prems(5) k'(4,6) by simp
  from Suc.IH [OF k'(2) Suc.prems(2) k'(3,5) this Suc.prems(6)] show ?case using k'(1) by simp
qed

lemma rt_thread_sleep_kernel:
  assumes wf: "kernel_wf (rt_tick k) k" and cur: "rt_current_thread k = Some t"
    and st: "stat k t = RT_THREAD_READY" and per: "periods_wf k"
    and tm: "tm_timeout_func (timers k (TThread t)) = F_thread_timeout t"
      "\<not> has_flag (TThread t) RT_TIMER_FLAG_PERIODIC k"
    and n: "unat n < window"
  defines "k' \<equiv> rt_thread_sleep n k"
  shows "kernel_wf (rt_tick k') k'" "periods_wf k'" "TThread t \<in> set (rt_timer_list k')"
    "dist (rt_tick k') (timeout_of k' (TThread t)) = unat n"
proof -
  let ?x = "TThread t"
  have un: "?x \<notin> set (rt_timer_list k)" using wf st unfolding kernel_wf_def wake_wf_def by fastforce
  then have "\<not> has_flag ?x RT_TIMER_FLAG_ACTIVATED k" using wf by (simp add: kernel_wf_def timers_wf_def)
  then have stop: "rt_timer_stop ?x K = (- RT_ERROR, K)" if "objects K = objects k" for K
    using that by (simp add: rt_timer_stop_def has_flag_def)
  define k1 where "k1 = upd_thread t (\<lambda>th. th\<lparr>th_stat := RT_THREAD_SUSPEND\<rparr>) (rt_schedule_remove_thread t k)"
  have rm: "objects (rt_schedule_remove_thread t k) = objects k" "timers (rt_schedule_remove_thread t k) = timers k"
    "rt_timer_list (rt_schedule_remove_thread t k) = rt_timer_list k" "rt_tick (rt_schedule_remove_thread t k) = rt_tick k"
    by (simp_all add: rt_schedule_remove_thread_def state_defs Let_def)
  have k1: "rt_timer_list k1 = rt_timer_list k" "timers k1 = timers k" "objects k1 = objects k" "rt_tick k1 = rt_tick k"
    "threads k1 = (threads k)(t := (threads k t)\<lparr>th_stat := RT_THREAD_SUSPEND\<rparr>)" "rt_current_thread k1 = Some t"
    using rm cur by (simp_all add: k1_def upd_thread_def)
  have susp: "rt_thread_suspend t k = (RT_EOK, k1)"
    using st stop [of k1] k1(3) by (simp add: rt_thread_suspend_eq k1_def [symmetric])
  define k2 where "k2 = upd_timer ?x (\<lambda>tm. tm\<lparr>tm_init_tick := n\<rparr>) k1"
  define k3 where "k3 = rt_timer_start ?x k2"
  have k': "k' = rt_schedule k3"
    using cur by (simp add: k'_def rt_thread_sleep_def susp rt_timer_control_def Let_def k2_def k3_def)
  have k2: "timeout_of k2 y = timeout_of k y" "tm_timeout_func (timers k2 y) = tm_timeout_func (timers k y)"
    "tm_init_tick (timers k2 ?x) = n" "has_flag y f k2 = has_flag y f k" "rt_timer_list k2 = rt_timer_list k"
    "rt_tick k2 = rt_tick k" "y \<noteq> ?x \<Longrightarrow> tm_init_tick (timers k2 y) = tm_init_tick (timers k y)" for y f
    using k1 by (simp_all add: k2_def upd_timer_def has_flag_def)
  have tw2: "timers_wf (rt_tick k) k2" using wf k2 by (simp add: kernel_wf_def timers_wf_def)
  have d: "dist (rt_tick k) (rt_tick k2 + tm_init_tick (timers k2 ?x)) = unat n" using k2(3,6) by simp
  then have tw3: "timers_wf (rt_tick k) k3"
    unfolding k3_def using rt_timer_start_wf [OF tw2, of ?x] n by simp
  have "sched_wf k1"
    using rt_thread_suspend_wf [of k t] susp wf by (simp add: kernel_wf_def)
  then have s3: "sched_wf k3" "rt_current_thread k3 = Some t" by (simp_all add: k3_def k2_def k1)
  have thr: "threads k' = threads k1" using rt_schedule_threads [OF s3] by (simp add: k' k3_def k2_def)
  have list: "set (rt_timer_list k') = insert ?x (set (rt_timer_list k))" "rt_timer_list k' = rt_timer_list k3"
    "timers k' = timers k3" "objects k' = objects k3" "rt_tick k' = rt_tick k"
    using k2(5,6) by (auto simp: k' frame_simps k3_def rt_timer_start_fields)
  have t3: "timers k3 = (timers k2)(?x := (timers k2 ?x)\<lparr>tm_timeout_tick := rt_tick k + n\<rparr>)"
    using k2(3,6) by (simp add: k3_def rt_timer_start_timers)
  have fl: "has_flag y RT_TIMER_FLAG_PERIODIC k' = has_flag y RT_TIMER_FLAG_PERIODIC k" for y
  proof -
    have "has_flag y RT_TIMER_FLAG_PERIODIC k' = has_flag y RT_TIMER_FLAG_PERIODIC k3"
      using list(4) by (simp add: has_flag_def)
    then show ?thesis using k2(4) by (simp add: k3_def)
  qed
  show "?x \<in> set (rt_timer_list k')" using list by simp
  show "dist (rt_tick k') (timeout_of k' ?x) = unat n" using list t3 by simp
  show "periods_wf k'" using per tm(2) list(1,3) fl k2(7) t3 un unfolding periods_wf_def by auto
  have "wake_wf k'"
    using wf tm list(1,3) fl k2(2) t3 un thr k1(5) unfolding kernel_wf_def wake_wf_def
    by (auto split: timer_id.splits)
  moreover have "timers_wf (rt_tick k') k'"
    using tw3 list(2-5) by (simp add: timers_wf_def has_flag_def)
  moreover have "sched_wf k'" "\<exists>c. rt_current_thread k' = Some c"
    using rt_schedule_wf [OF s3] rt_schedule_current [OF s3] unfolding k' by auto
  ultimately show "kernel_wf (rt_tick k') k'" by (simp add: kernel_wf_def)
qed

definition demo_sleeping :: kernel where
  "demo_sleeping = (demo_running 3 [5] (LSem 0) [1])\<lparr>rt_timer_list := [TThread 1],
     timers := (\<lambda>x. case x of TThread t \<Rightarrow> \<lparr>tm_timeout_func = F_thread_timeout t, tm_init_tick = 1, tm_timeout_tick = 1\<rparr>
                    | TTimer n \<Rightarrow> \<lparr>tm_timeout_func = F_user n, tm_init_tick = 1, tm_timeout_tick = 1\<rparr>),
     objects := (\<lambda>x. \<lparr>ob_name = [], ob_type = 0, ob_flag = if x = OTimer (TThread 1) then 1 else 0\<rparr>)\<rparr>"

lemma demo_sleeping_wf: "kernel_wf (rt_tick demo_sleeping) demo_sleeping" "periods_wf demo_sleeping"
proof -
  have "sched_wf demo_sleeping"
    using demo_running_wf [of 3 "[5]" "[1]" "LSem 0"]
      sched_wf_cong [of demo_sleeping "demo_running 3 [5] (LSem 0) [1]"] by (simp add: demo_sleeping_def)
  moreover have "timers_wf 0 demo_sleeping" "rt_tick demo_sleeping = 0"
    by (auto simp: timers_wf_def demo_sleeping_def has_flag_def demo_running_def demo_kernel_def)
  moreover have "wake_wf demo_sleeping" "periods_wf demo_sleeping"
    by (simp_all add: wake_wf_def periods_wf_def demo_sleeping_def has_flag_def demo_running_def)
  moreover have "rt_current_thread demo_sleeping = Some 3" by (simp add: demo_sleeping_def demo_running_def)
  ultimately show "kernel_wf (rt_tick demo_sleeping) demo_sleeping" "periods_wf demo_sleeping"
    by (simp_all add: kernel_wf_def)
qed

theorem rt_tick_increase_wakes_due_threads_witness:
  "\<exists>k'. rt_tick_increase (\<lambda>n k. k) demo_sleeping = Some k' \<and> stat demo_sleeping 1 = RT_THREAD_SUSPEND \<and>
     stat k' 1 = RT_THREAD_READY \<and> stat k' 3 = RT_THREAD_READY \<and> stat k' 2 = RT_THREAD_INIT"
proof -
  have "tame (\<lambda>n k. k)" by (simp add: tame_def)
  then obtain k' where k': "rt_tick_increase (\<lambda>n k. k) demo_sleeping = Some k'"
    "\<forall>t. if due demo_sleeping t
         then stat k' t = RT_THREAD_READY \<and> th_error (threads k' t) = - RT_ETIMEOUT \<and> TThread t \<notin> set (rt_timer_list k')
         else stat k' t = stat demo_sleeping t \<and> th_error (threads k' t) = th_error (threads demo_sleeping t) \<and>
              (TThread t \<in> set (rt_timer_list demo_sleeping) \<longrightarrow>
               TThread t \<in> set (rt_timer_list k') \<and> timeout_of k' (TThread t) = timeout_of demo_sleeping (TThread t))"
    using rt_tick_increase_wakes_due_threads [OF demo_sleeping_wf(1) _ demo_sleeping_wf(2)] by blast
  then show ?thesis
    using k'(2) [rule_format, of 1] k'(2) [rule_format, of 2] k'(2) [rule_format, of 3]
    by (simp add: demo_sleeping_def demo_running_def demo_kernel_def demo_thread_def)
qed

text \<open>
  A thread that calls \<open>rt_thread_sleep(n)\<close> is suspended, stays so through the next \<open>n - 1\<close> ticks,
  is ready after \<open>n\<close> ticks (across the wrap of the counter), and \<open>rt_thread_sleep\<close> then clears the
  timeout error: sleeping takes exactly \<open>n\<close> ticks when nothing else resumes the thread.
\<close>

theorem rt_thread_sleep_exact:
  assumes "kernel_wf (rt_tick k) k" "rt_current_thread k = Some t" "stat k t = RT_THREAD_READY" "periods_wf k"
    and "tm_timeout_func (timers k (TThread t)) = F_thread_timeout t"
    and "\<not> has_flag (TThread t) RT_TIMER_FLAG_PERIODIC k" and "tame user"
    and "0 < n" "unat n < window"
  shows "(\<forall>m < unat n. \<exists>k'. run_ticks user m (rt_thread_sleep n k) = Some k' \<and> stat k' t = RT_THREAD_SUSPEND) \<and>
    (\<exists>k'. run_ticks user (unat n) (rt_thread_sleep n k) = Some k' \<and> stat k' t = RT_THREAD_READY \<and>
       th_error (threads (snd (rt_thread_sleep_resume t k')) t) = RT_EOK)"
proof -
  note s = rt_thread_sleep_kernel [OF assms(1-6,9)]
  have waiting: "\<exists>k'. run_ticks user m (rt_thread_sleep n k) = Some k' \<and> kernel_wf (rt_tick k') k' \<and> periods_wf k' \<and>
    TThread t \<in> set (rt_timer_list k') \<and> dist (rt_tick k') (timeout_of k' (TThread t)) = unat n - m \<and>
    stat k' t = RT_THREAD_SUSPEND" if "m < unat n" for m
    using run_ticks_waiting [OF s(1) assms(7) s(2,3), of m "unat n - m"] s(4) that by simp
  have pos: "0 < unat n" using assms(8) by (simp add: word_less_nat_alt)
  from waiting [of "unat n - 1"] obtain k1 where k1: "run_ticks user (unat n - 1) (rt_thread_sleep n k) = Some k1"
    "kernel_wf (rt_tick k1) k1" "periods_wf k1" "due k1 t" using pos by auto
  obtain k' where "rt_tick_increase user k1 = Some k'" "stat k' t = RT_THREAD_READY"
    "th_error (threads k' t) = - RT_ETIMEOUT"
    using rt_tick_increase_spec [OF k1(2) assms(7) k1(3)] k1(4) by metis
  then show ?thesis
    using waiting run_ticks_Suc [of user "unat n - 1" "rt_thread_sleep n k"] k1(1) pos
    by (auto simp: rt_thread_sleep_resume_def simp del: run_ticks.simps)
qed

theorem rt_thread_sleep_exact_witness:
  "\<exists>k'. run_ticks (\<lambda>n k. k) 7 (rt_thread_sleep 7 demo_sleeping) = Some k' \<and> stat k' 3 = RT_THREAD_READY"
proof -
  have h: "rt_current_thread demo_sleeping = Some 3" "stat demo_sleeping 3 = RT_THREAD_READY"
    "tm_timeout_func (timers demo_sleeping (TThread 3)) = F_thread_timeout 3"
    "\<not> has_flag (TThread 3) RT_TIMER_FLAG_PERIODIC demo_sleeping" "tame (\<lambda>n k. k)" "0 < (7 :: tick)" "unat (7 :: tick) < window"
    by (simp_all add: demo_sleeping_def demo_running_def has_flag_def tame_def)
  show ?thesis
    using rt_thread_sleep_exact [OF demo_sleeping_wf(1) h(1,2) demo_sleeping_wf(2) h(3-7)] by auto
qed

lemma as_s32_id: "- (2 ^ 31) \<le> x \<Longrightarrow> x < 2 ^ 31 \<Longrightarrow> as_s32 x = x"
  by (simp add: as_s32_def)

text \<open>
  C30. \<open>rt_tick_from_millisecond\<close> rounds up to whole ticks of 10 ms for every argument up to 21474826,
  the largest for which the product with the tick rate plus 999 fits an \<open>int\<close>, and a negative
  argument means forever. From there on the sum wraps: for 21474827 to 21474836 the product still
  fits, and the result is negative; its comment allows arguments up to \<open>0x7fffffff\<close>, but for that
  one the multiplication wraps and the result is 0 ticks, no delay at all.
\<close>

theorem rt_tick_from_millisecond_rounds_up:
  "(\<forall>ms. 0 \<le> ms \<and> ms \<le> 21474826 \<longrightarrow>
      ms \<le> 10 * rt_tick_from_millisecond ms \<and> 10 * rt_tick_from_millisecond ms < ms + 10) \<and>
   (\<forall>ms. ms < 0 \<longrightarrow> rt_tick_from_millisecond ms = RT_WAITING_FOREVER) \<and>
   (\<forall>ms. 21474827 \<le> ms \<and> ms \<le> 21474836 \<longrightarrow> rt_tick_from_millisecond ms \<le> - 2147482) \<and>
   rt_tick_from_millisecond 0x7fffffff = 0"
proof -
  have "ms \<le> 10 * rt_tick_from_millisecond ms \<and> 10 * rt_tick_from_millisecond ms < ms + 10"
    if "0 \<le> ms" "ms \<le> 21474826" for ms
  proof -
    have "rt_tick_from_millisecond ms = (100 * ms + 999) div 1000"
      using that by (simp add: rt_tick_from_millisecond_def as_s32_id c_div_def sgn_if)
    moreover have "1000 * ((100 * ms + 999) div 1000) + (100 * ms + 999) mod 1000 = 100 * ms + 999"
      by (rule mult_div_mod_eq)
    moreover have "0 \<le> (100 * ms + 999) mod 1000" "(100 * ms + 999) mod 1000 < 1000" by simp_all
    ultimately show ?thesis by linarith
  qed
  moreover have "rt_tick_from_millisecond ms \<le> - 2147482" if "21474827 \<le> ms" "ms \<le> 21474836" for ms
  proof -
    have "ms \<in> set [21474827, 21474828, 21474829, 21474830, 21474831, 21474832, 21474833, 21474834, 21474835, 21474836]"
      using that by simp arith
    then show ?thesis by (auto simp: rt_tick_from_millisecond_def as_s32_def c_div_def)
  qed
  ultimately show ?thesis by (simp add: rt_tick_from_millisecond_def as_s32_def c_div_def)
qed

theorem rt_tick_from_millisecond_rounds_up_witness:
  "5 \<le> 10 * rt_tick_from_millisecond 5 \<and> 10 * rt_tick_from_millisecond 5 < 15 \<and>
   rt_tick_from_millisecond (- 7) = - 1"
proof -
  note a = rt_tick_from_millisecond_rounds_up [THEN conjunct1, rule_format, of 5]
  note b = rt_tick_from_millisecond_rounds_up [THEN conjunct2, THEN conjunct1, rule_format, of "- 7"]
  show ?thesis using a b by simp
qed

lemma detach_cleanup_lists:
  assumes wf: "sched_wf k" and st: "stat k t \<in> {RT_THREAD_INIT, RT_THREAD_READY, RT_THREAD_SUSPEND}"
    and cl: "th_cleanup (threads k t) = Some c"
  defines "k1 \<equiv> snd (rt_thread_detach t k)"
  shows "tlists k1 LDefunct = t # removeAll t (tlists k LDefunct)" "ob_type (objects k1 (OThread t)) = 0"
    "th_cleanup (threads k1 t) = Some c" "stat k1 t = RT_THREAD_CLOSE"
    "rt_current_thread k1 = rt_current_thread k" "rt_scheduler_lock_nest k1 = rt_scheduler_lock_nest k"
proof -
  have "t \<notin> set (tlists k LDefunct)" using sched_wfD(7) [OF wf, of t] st by auto
  then show "tlists k1 LDefunct = t # removeAll t (tlists k LDefunct)"
    using cl by (simp add: k1_def rt_thread_detach_def split_def Let_def tlist_insert_head_def removed_def)
qed (use cl in \<open>simp_all add: k1_def rt_thread_detach_def split_def Let_def tlist_insert_head_def
    rt_object_detach_def rt_timer_detach_def rt_timer_remove_def upd_object_def\<close>)

text \<open>
  C36. A static thread with a clean-up function that is detached: \<open>rt_object_detach\<close> clears the type
  of the object, with it the mark of a static object, before the thread is queued for the idle
  thread, which therefore frees its stack and struct, memory the heap never gave out.
\<close>

theorem rt_thread_detach_static_is_freed:
  assumes "sched_wf k" "rt_current_thread k = Some cur" "rt_scheduler_lock_nest k = 0"
    and "tlists k LDefunct = []" "stat k t \<in> {RT_THREAD_INIT, RT_THREAD_READY, RT_THREAD_SUSPEND}"
    and "th_cleanup (threads k t) = Some c" "rt_object_is_systemobject (OThread t) k"
  shows "\<exists>k'. rt_thread_idle_excute (\<lambda>c t k. k) [] (snd (rt_thread_detach t k)) = Some ([t], k')"
proof -
  define k1 where "k1 = snd (rt_thread_detach t k)"
  note d = detach_cleanup_lists [OF assms(1,5,6), folded k1_def]
  have wf1: "sched_wf k1" unfolding k1_def by (rule rt_thread_detach_wf [OF assms(1,5)])
  have "sched_ok {t} (rt_current_thread k1) (tlist_remove t k1)"
    by (rule unlink_not_ready) (use wf1 d in \<open>simp_all add: sched_wf_ok\<close>)
  then have "sched_ok {} (rt_current_thread k1) (tlist_remove t k1)"
    by (rule transit_done) (simp_all add: d started_def)
  then have wf2: "sched_wf (tlist_remove t k1)" "rt_current_thread (tlist_remove t k1) = Some cur"
    using d assms(2) by (simp_all add: sched_wf_ok)
  have lock: "rt_scheduler_lock_nest (tlist_remove t k1) = 0" using d assms(3) by (simp add: tlist_remove_def)
  define k2 where "k2 = rt_object_delete (OThread t) (rt_schedule (tlist_remove t k1))"
  have sys: "\<not> rt_object_is_systemobject (OThread t) (rt_enter_critical (tlist_remove t k1))"
    using d by (simp add: rt_object_is_systemobject_def rt_enter_critical_def tlist_remove_def)
  have cl: "th_cleanup (threads (rt_enter_critical (tlist_remove t k1)) t) = Some c"
    using d by (simp add: rt_enter_critical_def)
  have "tlists (rt_schedule (tlist_remove t k1)) LDefunct = []"
    using rt_schedule_wait_lists [OF wf2, of LDefunct] d(1) assms(4) by (simp add: removed_def)
  then have "tlist_isempty LDefunct k2"
    by (simp add: k2_def tlist_isempty_def rt_object_delete_def upd_object_def Let_def)
  then have "rt_thread_idle_excute (\<lambda>c t k. k) [t] k2 = Some ([t], k2)"
    by (simp add: rt_thread_idle_excute.simps)
  then have "rt_thread_idle_excute (\<lambda>c t k. k) [] k1 = Some ([t], k2)"
    using d sys cl exit_enter [OF lock]
    by (subst rt_thread_idle_excute.simps) (simp add: tlist_isempty_def Let_def k2_def)
  then show ?thesis unfolding k1_def by blast
qed

theorem rt_thread_detach_static_is_freed_witness:
  "let k = upd_object (OThread 5) (\<lambda>ob. ob\<lparr>ob_type := 0x81\<rparr>)
       (upd_thread 5 (\<lambda>th. th\<lparr>th_cleanup := Some 0\<rparr>) (demo_running 3 [5] (LSem 0) []))
   in rt_object_is_systemobject (OThread 5) k \<and>
      (\<exists>k'. rt_thread_idle_excute (\<lambda>c t k. k) [] (snd (rt_thread_detach 5 k)) = Some ([5], k'))"
proof -
  let ?k1 = "upd_thread 5 (\<lambda>th. th\<lparr>th_cleanup := Some 0\<rparr>) (demo_running 3 [5] (LSem 0) [])"
  let ?k = "upd_object (OThread 5) (\<lambda>ob. ob\<lparr>ob_type := 0x81\<rparr>) ?k1"
  have "sched_wf ?k1" using demo_running_wf [of 3 "[5]" "[]" "LSem 0"] by (simp add: sched_wf_ok sched_ok_upd_other)
  then have "sched_wf ?k" using sched_wf_cong [of ?k ?k1] by (simp add: upd_object_def)
  moreover have "rt_object_is_systemobject (OThread 5) ?k"
    by (simp add: rt_object_is_systemobject_def upd_object_def)
  moreover have "rt_current_thread ?k = Some 3" "rt_scheduler_lock_nest ?k = 0" "tlists ?k LDefunct = []"
    "stat ?k 5 = RT_THREAD_READY" "th_cleanup (threads ?k 5) = Some 0"
    by (simp_all add: upd_object_def upd_thread_def demo_running_def demo_kernel_def)
  ultimately show ?thesis using rt_thread_detach_static_is_freed [of ?k 3 5 0] by simp
qed

end
