(* ===== verification/Ipc_Object.thy ===== *)
theory Ipc_Object
  imports Thread
begin

text \<open>
  The part of \<open>src/ipc.c\<close> all IPC objects share: queueing the running thread on a list of waiting
  threads, in arrival order or by priority, and resuming one or all of them. A call that may
  block is modelled up to \<open>rt_schedule()\<close>; if another thread runs then, the outcome is \<open>Blocked\<close> and
  the rest of the C function is the definition \<open>..._resume\<close>; if the scheduler is locked or no other
  thread is ready, the caller goes on at once, as in the code.
\<close>

section \<open>Operations\<close>

abbreviation (input) RT_IPC_FLAG_FIFO :: u8 where "RT_IPC_FLAG_FIFO \<equiv> 0"
abbreviation (input) RT_IPC_FLAG_PRIO :: u8 where "RT_IPC_FLAG_PRIO \<equiv> 1"

definition rt_ipc_object_init :: "lid \<Rightarrow> kernel \<Rightarrow> kernel" where
  "rt_ipc_object_init l k = k\<lparr>tlists := (tlists k)(l := [])\<rparr>"

text \<open>The search loop of \<open>rt_ipc_list_suspend\<close>: before the first thread of lower priority.\<close>

fun prio_insert :: "('t \<Rightarrow> nat) \<Rightarrow> 't \<Rightarrow> 't list \<Rightarrow> 't list" where
  "prio_insert p t [] = [t]"
| "prio_insert p t (s # ss) = (if p t < p s then t # s # ss else s # prio_insert p t ss)"

definition rt_ipc_list_suspend :: "lid \<Rightarrow> tid \<Rightarrow> u8 \<Rightarrow> kernel \<Rightarrow> err \<times> kernel" where
  "rt_ipc_list_suspend l t flag k =
     (let (_, k) = rt_thread_suspend t k
      in (RT_EOK,
          if flag = RT_IPC_FLAG_FIFO then tlist_insert_tail l t k
          else if flag = RT_IPC_FLAG_PRIO
               then k\<lparr>tlists := (tlists k)(l := prio_insert (prio k) t (tlists k l))\<rparr>
          else k))"

definition rt_ipc_list_resume :: "lid \<Rightarrow> kernel \<Rightarrow> err \<times> kernel" where
  "rt_ipc_list_resume l k = (RT_EOK, snd (rt_thread_resume (hd (tlists k l)) k))"

partial_function (option) rt_ipc_list_resume_all :: "lid \<Rightarrow> kernel \<Rightarrow> kernel option" where
  "rt_ipc_list_resume_all l k =
     (if tlist_isempty l k then Some k
      else
        let t = hd (tlists k l);
            k = upd_thread t (\<lambda>th. th\<lparr>th_error := - RT_ERROR\<rparr>) k;
            k = snd (rt_thread_resume t k)
        in rt_ipc_list_resume_all l k)"

text \<open>The end of a blocking call: \<open>rt_schedule()\<close>, then the rest of the function if the thread still runs.\<close>

definition block_then :: "tid \<Rightarrow> (kernel \<Rightarrow> 'a outcome \<times> kernel) \<Rightarrow> kernel \<Rightarrow> 'a outcome \<times> kernel" where
  "block_then t cont k =
     (let k = rt_schedule k in if rt_current_thread k = Some t then cont k else (Blocked, k))"

text \<open>\<open>if (time > 0) { rt_timer_control(.., SET_TIME, &time); rt_timer_start(..); }\<close>\<close>

definition start_timeout :: "tid \<Rightarrow> int \<Rightarrow> kernel \<Rightarrow> kernel" where
  "start_timeout t time k =
     (if time > 0
      then let (_, _, k) = rt_timer_control (TThread t) 0 (word_of_int time) k
           in rt_timer_start (TThread t) k
      else k)"

section \<open>Waiting lists\<close>

definition enqueue :: "u8 \<Rightarrow> ('t \<Rightarrow> nat) \<Rightarrow> 't \<Rightarrow> 't list \<Rightarrow> 't list" where
  "enqueue flag p t ts = (if flag = RT_IPC_FLAG_FIFO then ts @ [t] else prio_insert p t ts)"

lemma set_prio_insert [simp]: "set (prio_insert p t ts) = insert t (set ts)"
  by (induction ts) auto

lemma distinct_prio_insert [simp]: "distinct (prio_insert p t ts) \<longleftrightarrow> t \<notin> set ts \<and> distinct ts"
  by (induction ts) auto

lemma length_prio_insert [simp]: "length (prio_insert p t ts) = Suc (length ts)"
  by (induction ts) auto

lemma sorted_prio_insert: "sorted (map p ts) \<Longrightarrow> sorted (map p (prio_insert p t ts))"
  by (induction ts) auto

text \<open>Priority order with arrival order among equals.\<close>

lemma prio_insert_split:
  "sorted (map p ts) \<Longrightarrow> prio_insert p t ts = filter (\<lambda>s. p s \<le> p t) ts @ [t] @ filter (\<lambda>s. p t < p s) ts"
proof (induction ts)
  case (Cons s ts)
  have "filter (\<lambda>s. p s \<le> p t) ts = [] \<and> filter (\<lambda>s. p t < p s) ts = ts" if "p t < p s"
    using Cons.prems that by (auto simp: filter_empty_conv filter_id_conv)
  then show ?case using Cons by auto
qed simp

lemma set_enqueue [simp]: "set (enqueue flag p t ts) = insert t (set ts)"
  by (simp add: enqueue_def)

lemma distinct_enqueue [simp]: "distinct (enqueue flag p t ts) \<longleftrightarrow> t \<notin> set ts \<and> distinct ts"
  by (auto simp: enqueue_def)

lemma length_enqueue [simp]: "length (enqueue flag p t ts) = Suc (length ts)"
  by (simp add: enqueue_def)

lemma insert_wait:
  assumes ok: "sched_ok (insert t X) c k" and tX: "t \<notin> X" and st: "stat k t = RT_THREAD_SUSPEND"
    and m: "mask_ok (threads k t)" and l: "is_wait_list l"
    and xs: "set xs = insert t (set (tlists k l))" "distinct xs"
  shows "sched_ok X c (k\<lparr>tlists := (tlists k)(l := xs)\<rparr>)"
proof -
  note d = sched_okD [OF ok]
  have un: "t \<notin> set (tlists k l)" for l using d(3) by simp
  let ?k = "k\<lparr>tlists := (tlists k)(l := xs)\<rparr>"
  have tl: "tlists ?k = (tlists k)(l := xs)" and th: "threads ?k = threads k"
    and gr: "rt_thread_ready_priority_group ?k = rt_thread_ready_priority_group k" by simp_all
  have "disjoint_lists (tlists ?k)"
    unfolding tl using d(1) un xs by (intro disjoint_lists_upd) simp_all
  moreover have "\<forall>l' u. is_wait_list l' \<and> u \<in> set (tlists ?k l') \<longrightarrow> stat k u = RT_THREAD_SUSPEND"
    using d(5) st xs(1) unfolding tl by (auto split: if_splits)
  moreover have "tlists ?k (LReady p) = tlists k (LReady p)" for p unfolding tl using l by (cases l) auto
  moreover have "tlists ?k LDefunct = tlists k LDefunct" unfolding tl using l by (cases l) auto
  moreover have "u \<notin> set (tlists ?k l')" if "u \<in> X" for u l'
    using d(3) [of u] that tX xs(1) unfolding tl by auto
  moreover have "mask_ok (threads k u)" if "u \<notin> X" "started (threads k u)" for u
    using d(7) [of u] that m by (cases "u = t") auto
  moreover have "c = Some u \<or> u \<in> set (tlists k (LReady (prio k u)))" if "u \<notin> X" "stat k u = RT_THREAD_READY" for u
    using d(8) [of u] that st by (cases "u = t"; cases "c = Some u") auto
  ultimately show ?thesis using d(2,4,6) unfolding sched_ok_def th gr by simp
qed

lemma rt_schedule_wait:
  assumes "sched_wf k" "rt_current_thread k = Some c" "is_wait_list l"
  shows "tlists (rt_schedule k) l = tlists k l"
proof (rule rt_schedule_wait_lists [OF assms(1,2)])
  show "l \<noteq> LReady p" for p using assms(3) by auto
qed

lemma removed_unlinked: "(\<And>l. t \<notin> set (f l)) \<Longrightarrow> removed t f = f"
  by (simp add: removed_id)

text \<open>Queueing the running thread.\<close>

lemma rt_ipc_list_suspend_spec:
  assumes wf: "sched_wf k" and cur: "rt_current_thread k = Some t" and st: "stat k t = RT_THREAD_READY"
    and l: "is_wait_list l" and flag: "flag \<in> {0, 1}"
  defines "k' \<equiv> snd (rt_ipc_list_suspend l t flag k)"
  shows "sched_wf k'" "rt_current_thread k' = Some t"
    "threads k' = (threads k)(t := (threads k t)\<lparr>th_stat := RT_THREAD_SUSPEND\<rparr>)"
    "tlists k' = (tlists k)(l := enqueue flag (prio k) t (tlists k l))"
proof -
  have ok: "sched_ok {} (Some t) k" using wf cur by (simp add: sched_wf_ok)
  have un: "t \<notin> set (tlists k l')" for l' by (rule current_ready_unlinked [OF ok st])
  have m: "mask_ok (threads k t)" using wf_mask [OF wf] st by simp
  define k1 where "k1 = snd (rt_thread_suspend t k)"
  note f = rt_thread_suspend_fields [OF st, folded k1_def]
  have tl1: "tlists k1 = tlists k" using f(4) removed_unlinked [of t "tlists k"] un by simp
  have ok1: "sched_ok {t} (Some t) k1"
    using suspended_transit [OF wf st] st cur by (simp add: k1_def rt_thread_suspend_eq)
  have p1: "prio k1 = prio k" using f(3) by auto
  have k': "k' = k1\<lparr>tlists := (tlists k1)(l := enqueue flag (prio k) t (tlists k1 l))\<rparr>"
    using flag by (auto simp: k'_def rt_ipc_list_suspend_def split_def k1_def [symmetric] enqueue_def
        tlist_insert_tail_def p1)
  have "sched_ok {} (Some t) k'" unfolding k'
    by (rule insert_wait [OF ok1]) (use f(3) m l un tl1 disjoint_lists_distinct [OF sched_okD(1) [OF ok]]
        in \<open>simp_all add: mask_ok_def\<close>)
  then show "sched_wf k'" using f(2) cur by (simp add: k' sched_wf_ok)
  show "rt_current_thread k' = Some t" "threads k' = (threads k)(t := (threads k t)\<lparr>th_stat := RT_THREAD_SUSPEND\<rparr>)"
    "tlists k' = (tlists k)(l := enqueue flag (prio k) t (tlists k l))"
    using f cur tl1 by (simp_all add: k')
qed

text \<open>Resuming the first waiting thread.\<close>

lemma rt_ipc_list_resume_spec:
  assumes wf: "sched_wf k" and l: "is_wait_list l" and ts: "tlists k l = t # ts"
  defines "k' \<equiv> snd (rt_ipc_list_resume l k)"
  shows "sched_wf k'" "rt_current_thread k' = rt_current_thread k"
    "threads k' = (threads k)(t := (threads k t)\<lparr>th_stat := RT_THREAD_READY\<rparr>)"
    "tlists k' l = ts" "\<And>l'. l' \<noteq> l \<Longrightarrow> is_wait_list l' \<Longrightarrow> tlists k' l' = tlists k l'"
    "stat k t = RT_THREAD_SUSPEND"
proof -
  show st: "stat k t = RT_THREAD_SUSPEND" using sched_wfD(6) [OF wf l, of t] ts by simp
  have k': "k' = snd (rt_thread_resume t k)" using ts by (simp add: k'_def rt_ipc_list_resume_def)
  note f = rt_thread_resume_fields [OF st]
  have r: "removed t (tlists k) = (tlists k)(l := ts)" by (rule removed_hd [OF sched_wfD(1) [OF wf] ts])
  show "sched_wf k'" unfolding k' by (rule rt_thread_resume_wf [OF wf])
  show "rt_current_thread k' = rt_current_thread k"
    "threads k' = (threads k)(t := (threads k t)\<lparr>th_stat := RT_THREAD_READY\<rparr>)" unfolding k' by (fact f)+
  have ne: "l' \<noteq> LReady p" if "is_wait_list l'" for l' p using that by auto
  show "tlists k' l = ts" "\<And>l'. l' \<noteq> l \<Longrightarrow> is_wait_list l' \<Longrightarrow> tlists k' l' = tlists k l'"
    unfolding k' f(4) r using ne [OF l] ne by simp_all
qed

text \<open>Resuming all of them: the loop ends, and every waiting thread is ready with \<open>-RT_ERROR\<close>.\<close>

lemma sched_wf_upd_error: "sched_wf (upd_thread t (\<lambda>th. th\<lparr>th_error := e\<rparr>) k) = sched_wf k"
  by (simp add: sched_wf_ok sched_ok_upd_other)

lemma rt_ipc_list_resume_all_spec:
  assumes "sched_wf k" "is_wait_list l"
  shows "\<exists>k'. rt_ipc_list_resume_all l k = Some k' \<and> sched_wf k' \<and> rt_current_thread k' = rt_current_thread k \<and>
    tlists k' l = [] \<and> (\<forall>l'. l' \<noteq> l \<and> is_wait_list l' \<longrightarrow> tlists k' l' = tlists k l') \<and>
    (\<forall>t. threads k' t = (if t \<in> set (tlists k l)
       then (threads k t)\<lparr>th_error := - RT_ERROR, th_stat := RT_THREAD_READY\<rparr> else threads k t)) \<and>
    sems k' = sems k \<and> mutexes k' = mutexes k \<and> events k' = events k \<and> mailboxes k' = mailboxes k \<and> mqs k' = mqs k \<and>
    rt_scheduler_lock_nest k' = rt_scheduler_lock_nest k"
  using assms(1)
proof (induction "tlists k l" arbitrary: k)
  case Nil
  then have "rt_ipc_list_resume_all l k = Some k" by (simp add: rt_ipc_list_resume_all.simps tlist_isempty_def)
  then show ?case using Nil by simp
next
  case (Cons t ts)
  have ts: "tlists k l = t # ts" using Cons.hyps(2) by simp
  let ?k = "upd_thread t (\<lambda>th. th\<lparr>th_error := - RT_ERROR\<rparr>) k"
  let ?k1 = "snd (rt_ipc_list_resume l ?k)"
  have wf: "sched_wf ?k" using Cons.prems by (simp add: sched_wf_upd_error)
  note r = rt_ipc_list_resume_spec [OF wf assms(2), of t ts]
  have r1: "rt_ipc_list_resume_all l k = rt_ipc_list_resume_all l ?k1"
    using ts by (subst rt_ipc_list_resume_all.simps) (simp add: tlist_isempty_def Let_def rt_ipc_list_resume_def)
  have dist: "t \<notin> set ts" using disjoint_lists_distinct [OF sched_wfD(1) [OF Cons.prems], of l] ts by simp
  have fr: "sems ?k1 = sems k" "mutexes ?k1 = mutexes k" "events ?k1 = events k" "mailboxes ?k1 = mailboxes k"
    "mqs ?k1 = mqs k" "rt_scheduler_lock_nest ?k1 = rt_scheduler_lock_nest k"
    by (simp_all add: rt_ipc_list_resume_def rt_thread_resume_eq rt_schedule_insert_thread_def state_defs Let_def)
  have "ts = tlists ?k1 l" using r(4) ts by simp
  from Cons.hyps(1) [OF this r(1)] obtain k' where k': "rt_ipc_list_resume_all l ?k1 = Some k'" "sched_wf k'"
    "rt_current_thread k' = rt_current_thread ?k1" "tlists k' l = []"
    "\<forall>l'. l' \<noteq> l \<and> is_wait_list l' \<longrightarrow> tlists k' l' = tlists ?k1 l'"
    "\<forall>u. threads k' u = (if u \<in> set (tlists ?k1 l)
       then (threads ?k1 u)\<lparr>th_error := - RT_ERROR, th_stat := RT_THREAD_READY\<rparr> else threads ?k1 u)"
    "sems k' = sems k" "mutexes k' = mutexes k" "events k' = events k" "mailboxes k' = mailboxes k" "mqs k' = mqs k"
    "rt_scheduler_lock_nest k' = rt_scheduler_lock_nest k"
    using ts fr by auto
  have "threads k' u = (if u \<in> set (tlists k l)
       then (threads k u)\<lparr>th_error := - RT_ERROR, th_stat := RT_THREAD_READY\<rparr> else threads k u)" for u
    using k'(6) r(3,4) ts dist by (cases "u = t") auto
  then show ?case using r1 k' r(2,5) ts by auto
qed

section \<open>Frame\<close>

text \<open>What the waiting lists and the scheduler do not touch.\<close>

lemma ipc_frame [simp]:
  "sems (upd_thread t g k) = sems k" "mutexes (upd_thread t g k) = mutexes k" "events (upd_thread t g k) = events k"
  "mailboxes (upd_thread t g k) = mailboxes k" "mqs (upd_thread t g k) = mqs k" "mempools (upd_thread t g k) = mempools k" "mp_words (upd_thread t g k) = mp_words k"
  "completions (upd_thread t g k) = completions k"
  "dataqueues (upd_thread t g k) = dataqueues k" "objects (upd_thread t g k) = objects k"
  "sems (snd (rt_thread_suspend t k)) = sems k" "mutexes (snd (rt_thread_suspend t k)) = mutexes k"
  "events (snd (rt_thread_suspend t k)) = events k" "mailboxes (snd (rt_thread_suspend t k)) = mailboxes k"
  "mqs (snd (rt_thread_suspend t k)) = mqs k" "mempools (snd (rt_thread_suspend t k)) = mempools k" "mp_words (snd (rt_thread_suspend t k)) = mp_words k"
  "completions (snd (rt_thread_suspend t k)) = completions k"
  "dataqueues (snd (rt_thread_suspend t k)) = dataqueues k"
  "sems (snd (rt_thread_resume t k)) = sems k" "mutexes (snd (rt_thread_resume t k)) = mutexes k"
  "events (snd (rt_thread_resume t k)) = events k" "mailboxes (snd (rt_thread_resume t k)) = mailboxes k"
  "mqs (snd (rt_thread_resume t k)) = mqs k" "mempools (snd (rt_thread_resume t k)) = mempools k" "mp_words (snd (rt_thread_resume t k)) = mp_words k"
  "completions (snd (rt_thread_resume t k)) = completions k"
  "dataqueues (snd (rt_thread_resume t k)) = dataqueues k"
  by (simp_all add: rt_thread_suspend_eq rt_thread_resume_eq rt_schedule_remove_thread_def
      rt_schedule_insert_thread_def state_defs Let_def)

lemma ipc_list_frame [simp]:
  "sems (snd (rt_ipc_list_suspend l t f k)) = sems k" "mutexes (snd (rt_ipc_list_suspend l t f k)) = mutexes k"
  "events (snd (rt_ipc_list_suspend l t f k)) = events k" "mailboxes (snd (rt_ipc_list_suspend l t f k)) = mailboxes k"
  "mqs (snd (rt_ipc_list_suspend l t f k)) = mqs k" "mempools (snd (rt_ipc_list_suspend l t f k)) = mempools k" "mp_words (snd (rt_ipc_list_suspend l t f k)) = mp_words k"
  "completions (snd (rt_ipc_list_suspend l t f k)) = completions k"
  "dataqueues (snd (rt_ipc_list_suspend l t f k)) = dataqueues k"
  "sems (snd (rt_ipc_list_resume l k)) = sems k" "mutexes (snd (rt_ipc_list_resume l k)) = mutexes k"
  "events (snd (rt_ipc_list_resume l k)) = events k" "mailboxes (snd (rt_ipc_list_resume l k)) = mailboxes k"
  "mqs (snd (rt_ipc_list_resume l k)) = mqs k" "mempools (snd (rt_ipc_list_resume l k)) = mempools k" "mp_words (snd (rt_ipc_list_resume l k)) = mp_words k"
  "completions (snd (rt_ipc_list_resume l k)) = completions k"
  "dataqueues (snd (rt_ipc_list_resume l k)) = dataqueues k"
  by (simp_all add: rt_ipc_list_suspend_def rt_ipc_list_resume_def split_def Let_def tlist_insert_tail_def)

lemma start_timeout_eq:
  "start_timeout t time k =
     (if time > 0 then rt_timer_start (TThread t) (upd_timer (TThread t) (\<lambda>tm. tm\<lparr>tm_init_tick := word_of_int time\<rparr>) k)
      else k)"
  by (simp add: start_timeout_def rt_timer_control_def)

lemma start_timeout_frame [simp]:
  "threads (start_timeout t time k) = threads k" "tlists (start_timeout t time k) = tlists k"
  "rt_current_thread (start_timeout t time k) = rt_current_thread k"
  "rt_scheduler_lock_nest (start_timeout t time k) = rt_scheduler_lock_nest k"
  "sems (start_timeout t time k) = sems k" "mutexes (start_timeout t time k) = mutexes k"
  "events (start_timeout t time k) = events k" "mailboxes (start_timeout t time k) = mailboxes k"
  "mqs (start_timeout t time k) = mqs k" "mempools (start_timeout t time k) = mempools k" "mp_words (start_timeout t time k) = mp_words k"
  "completions (start_timeout t time k) = completions k"
  "dataqueues (start_timeout t time k) = dataqueues k" "sched_wf (start_timeout t time k) = sched_wf k"
  by (simp_all add: start_timeout_eq)

text \<open>Queue the running thread, start its timer and give up the processor.\<close>

definition wait_on :: "lid \<Rightarrow> u8 \<Rightarrow> int \<Rightarrow> tid \<Rightarrow> kernel \<Rightarrow> kernel" where
  "wait_on l flag time t k = rt_schedule (start_timeout t time (snd (rt_ipc_list_suspend l t flag k)))"

lemma wait_on_spec:
  fixes time :: int
  assumes wf: "sched_wf k" and cur: "rt_current_thread k = Some t" and st: "stat k t = RT_THREAD_READY"
    and l: "is_wait_list l" and flag: "flag \<in> {0, 1}"
  defines "k' \<equiv> wait_on l flag time t k"
  shows "sched_wf k'" "\<exists>c. rt_current_thread k' = Some c"
    "threads k' = (threads k)(t := (threads k t)\<lparr>th_stat := RT_THREAD_SUSPEND\<rparr>)"
    "tlists k' l = enqueue flag (prio k) t (tlists k l)"
    "\<And>l'. is_wait_list l' \<Longrightarrow> l' \<noteq> l \<Longrightarrow> tlists k' l' = tlists k l'"
    "sems k' = sems k" "mutexes k' = mutexes k" "events k' = events k" "mailboxes k' = mailboxes k" "mqs k' = mqs k"
    "rt_scheduler_lock_nest k = 0 \<Longrightarrow> stat k u = RT_THREAD_READY \<Longrightarrow> u \<noteq> t \<Longrightarrow> rt_current_thread k' \<noteq> Some t"
proof -
  define k1 where "k1 = start_timeout t time (snd (rt_ipc_list_suspend l t flag k))"
  note f = rt_ipc_list_suspend_spec [OF wf cur st l flag]
  have wf1: "sched_wf k1" "rt_current_thread k1 = Some t" using f by (simp_all add: k1_def)
  have k': "k' = rt_schedule k1" by (simp add: k'_def wait_on_def k1_def)
  have ne: "l' \<noteq> LReady p" if "is_wait_list l'" for l' p using that by auto
  show "sched_wf k'" unfolding k' by (rule rt_schedule_wf [OF wf1])
  show "\<exists>c. rt_current_thread k' = Some c" unfolding k' using rt_schedule_current [OF wf1] by blast
  show "threads k' = (threads k)(t := (threads k t)\<lparr>th_stat := RT_THREAD_SUSPEND\<rparr>)"
    using f(3) by (simp add: k' rt_schedule_threads [OF wf1]) (simp add: k1_def)
  show "tlists k' l = enqueue flag (prio k) t (tlists k l)"
    using rt_schedule_wait_lists [OF wf1 ne [OF l]] f(4) by (simp add: k' k1_def)
  show "tlists k' l' = tlists k l'" if "is_wait_list l'" "l' \<noteq> l" for l'
    using rt_schedule_wait_lists [OF wf1 ne [OF that(1)]] f(4) that(2) by (simp add: k' k1_def)
  show "sems k' = sems k" "mutexes k' = mutexes k" "events k' = events k" "mailboxes k' = mailboxes k" "mqs k' = mqs k"
    by (simp_all add: k' k1_def frame_simps)
  show "rt_current_thread k' \<noteq> Some t" if "rt_scheduler_lock_nest k = 0" "stat k u = RT_THREAD_READY" "u \<noteq> t"
  proof -
    have "rt_scheduler_lock_nest k1 = 0"
      using that(1) by (simp add: k1_def rt_ipc_list_suspend_def split_def tlist_insert_tail_def
          rt_thread_suspend_eq rt_schedule_remove_thread_def Let_def state_defs)
    moreover have th1: "threads k1 = (threads k)(t := (threads k t)\<lparr>th_stat := RT_THREAD_SUSPEND\<rparr>)"
      using f(3) by (simp add: k1_def)
    moreover have "stat k1 u = RT_THREAD_READY" using th1 that(2,3) by simp
    ultimately have "stat k1 (self k') = RT_THREAD_READY" using rt_schedule_highest(1) [OF wf1] k' by blast
    then show ?thesis using th1 by auto
  qed
qed

end
