(* ===== verification/Ipc_Sem.thy ===== *)
theory Ipc_Sem
  imports Ipc_Object
begin

text \<open>
  Semaphores (\<open>src/ipc.c\<close>). Abstractly a semaphore is a counter of permits, negative when threads
  wait: \<open>sem_count\<close>. The invariant \<open>sem_wf\<close> says that threads wait only while the value is 0, so a
  permit is never left unused while someone waits for it.
\<close>

section \<open>Operations\<close>

definition upd_sem :: "nat \<Rightarrow> (rt_semaphore \<Rightarrow> rt_semaphore) \<Rightarrow> kernel \<Rightarrow> kernel" where
  "upd_sem n g k = k\<lparr>sems := (sems k)(n := g (sems k n))\<rparr>"

abbreviation obj_flag :: "obj \<Rightarrow> kernel \<Rightarrow> u8" where
  "obj_flag x k \<equiv> ob_flag (objects k x)"

definition set_obj_flag :: "obj \<Rightarrow> u8 \<Rightarrow> kernel \<Rightarrow> kernel" where
  "set_obj_flag x f k = upd_object x (\<lambda>ob. ob\<lparr>ob_flag := f\<rparr>) k"

text \<open>The value argument has 32 bits, the field 16.\<close>

definition rt_sem_init :: "nat \<Rightarrow> string \<Rightarrow> u32 \<Rightarrow> u8 \<Rightarrow> kernel \<Rightarrow> err \<times> kernel" where
  "rt_sem_init n name value flag k =
     (let k = rt_object_init (OSem n) RT_Object_Class_Semaphore name k;
          k = rt_ipc_object_init (LSem n) k;
          k = upd_sem n (\<lambda>s. s\<lparr>sem_value := ucast value\<rparr>) k
      in (RT_EOK, set_obj_flag (OSem n) flag k))"

definition rt_sem_detach :: "nat \<Rightarrow> kernel \<Rightarrow> (err \<times> kernel) option" where
  "rt_sem_detach n k =
     map_option (\<lambda>k. (RT_EOK, rt_object_detach (OSem n) k)) (rt_ipc_list_resume_all (LSem n) k)"

definition rt_sem_create :: "string \<Rightarrow> u32 \<Rightarrow> u8 \<Rightarrow> nat option \<Rightarrow> kernel \<Rightarrow> nat option \<times> kernel" where
  "rt_sem_create name value flag mem k =
     (case mem of
        None \<Rightarrow> (None, k)
      | Some n \<Rightarrow>
          let k = snd (rt_object_allocate RT_Object_Class_Semaphore name (Some (OSem n)) k);
              k = rt_ipc_object_init (LSem n) k;
              k = upd_sem n (\<lambda>s. s\<lparr>sem_value := ucast value\<rparr>) k
          in (Some n, set_obj_flag (OSem n) flag k))"

definition rt_sem_delete :: "nat \<Rightarrow> kernel \<Rightarrow> (err \<times> kernel) option" where
  "rt_sem_delete n k =
     map_option (\<lambda>k. (RT_EOK, rt_object_delete (OSem n) k)) (rt_ipc_list_resume_all (LSem n) k)"

definition rt_sem_take_resume :: "tid \<Rightarrow> kernel \<Rightarrow> err outcome \<times> kernel" where
  "rt_sem_take_resume t k =
     (if th_error (threads k t) \<noteq> RT_EOK then (Ret (th_error (threads k t)), k) else (Ret RT_EOK, k))"

definition rt_sem_take :: "nat \<Rightarrow> int \<Rightarrow> kernel \<Rightarrow> err outcome \<times> kernel" where
  "rt_sem_take n time k =
     (if sem_value (sems k n) > 0 then (Ret RT_EOK, upd_sem n (\<lambda>s. s\<lparr>sem_value := sem_value s - 1\<rparr>) k)
      else if time = 0 then (Ret (- RT_ETIMEOUT), k)
      else
        let t = self k;
            k = upd_thread t (\<lambda>th. th\<lparr>th_error := RT_EOK\<rparr>) k;
            (_, k) = rt_ipc_list_suspend (LSem n) t (obj_flag (OSem n) k) k;
            k = start_timeout t time k
        in block_then t (rt_sem_take_resume t) k)"

definition rt_sem_trytake :: "nat \<Rightarrow> kernel \<Rightarrow> err outcome \<times> kernel" where
  "rt_sem_trytake n k = rt_sem_take n 0 k"

definition rt_sem_release :: "nat \<Rightarrow> kernel \<Rightarrow> err \<times> kernel" where
  "rt_sem_release n k =
     (let (k, need_schedule) =
        (if \<not> tlist_isempty (LSem n) k then (snd (rt_ipc_list_resume (LSem n) k), True)
         else (upd_sem n (\<lambda>s. s\<lparr>sem_value := sem_value s + 1\<rparr>) k, False))
      in (RT_EOK, if need_schedule then rt_schedule k else k))"

definition rt_sem_control :: "nat \<Rightarrow> int \<Rightarrow> u32 \<Rightarrow> kernel \<Rightarrow> (err \<times> kernel) option" where
  "rt_sem_control n cmd arg k =
     (if cmd = 1
      then map_option (\<lambda>k. (RT_EOK, rt_schedule (upd_sem n (\<lambda>s. s\<lparr>sem_value := ucast arg\<rparr>) k)))
             (rt_ipc_list_resume_all (LSem n) k)
      else Some (- RT_ERROR, k))"

section \<open>Invariant and abstraction\<close>

definition sem_wf :: "nat \<Rightarrow> kernel \<Rightarrow> bool" where
  "sem_wf n k \<longleftrightarrow> (sem_value (sems k n) > 0 \<longrightarrow> tlists k (LSem n) = []) \<and> obj_flag (OSem n) k \<in> {0, 1}"

definition sem_count :: "nat \<Rightarrow> kernel \<Rightarrow> int" where
  "sem_count n k = uint (sem_value (sems k n)) - int (length (tlists k (LSem n)))"

lemma upd_sem_frame [simp]:
  "threads (upd_sem n g k) = threads k" "tlists (upd_sem n g k) = tlists k"
  "rt_current_thread (upd_sem n g k) = rt_current_thread k" "objects (upd_sem n g k) = objects k"
  "sems (upd_sem n g k) = (sems k)(n := g (sems k n))"
  "rt_scheduler_lock_nest (upd_sem n g k) = rt_scheduler_lock_nest k"
  "rt_thread_ready_priority_group (upd_sem n g k) = rt_thread_ready_priority_group k"
  by (simp_all add: upd_sem_def)

lemma sched_wf_upd_sem [simp]: "sched_wf (upd_sem n g k) = sched_wf k"
  by (rule sched_wf_cong) simp_all

text \<open>The three ways through \<open>rt_sem_take\<close>.\<close>

lemma rt_sem_take_eq:
  assumes "rt_current_thread k = Some t"
  shows "rt_sem_take n time k =
    (if sem_value (sems k n) > 0 then (Ret RT_EOK, upd_sem n (\<lambda>s. s\<lparr>sem_value := sem_value s - 1\<rparr>) k)
     else if time = 0 then (Ret (- RT_ETIMEOUT), k)
     else let k' = wait_on (LSem n) (obj_flag (OSem n) k) time t (upd_thread t (\<lambda>th. th\<lparr>th_error := RT_EOK\<rparr>) k)
          in if rt_current_thread k' = Some t then rt_sem_take_resume t k' else (Blocked, k'))"
  using assms by (simp add: rt_sem_take_def block_then_def wait_on_def split_def Let_def)

lemma wait_list_LSem [simp]: "is_wait_list (LSem n)" by simp

lemma rt_sem_take_resume_state [simp]: "snd (rt_sem_take_resume t k) = k"
  by (simp add: rt_sem_take_resume_def)

text \<open>What the kernel objects do not touch: the flags of the other objects.\<close>

lemma objects_frame [simp]:
  "x \<noteq> OTimer (TThread t) \<Longrightarrow> objects (start_timeout t time k) x = objects k x"
  "x \<noteq> OTimer (TThread t) \<Longrightarrow> objects (snd (rt_thread_suspend t k)) x = objects k x"
  "x \<noteq> OTimer (TThread t) \<Longrightarrow> objects (snd (rt_thread_resume t k)) x = objects k x"
  "x \<noteq> OTimer (TThread t) \<Longrightarrow> objects (snd (rt_ipc_list_suspend l t f k)) x = objects k x"
  "x \<noteq> OTimer (TThread (hd (tlists k l))) \<Longrightarrow> objects (snd (rt_ipc_list_resume l k)) x = objects k x"
  by (simp_all add: start_timeout_eq rt_timer_start_def rt_timer_stop_def rt_thread_suspend_eq rt_thread_resume_eq
      rt_ipc_list_suspend_def rt_ipc_list_resume_def split_def Let_def set_flag_def clear_flag_def rt_timer_remove_def
      rt_schedule_insert_thread_def rt_schedule_remove_thread_def state_defs)

lemma objects_wait_on [simp]:
  "x \<noteq> OTimer (TThread t) \<Longrightarrow> objects (wait_on l f time t k) x = objects k x"
  by (simp add: wait_on_def frame_simps)

lemma uint_dec:
  fixes v :: u16
  assumes "v > 0"
  shows "uint (v - 1) = uint v - 1"
proof -
  have "unat (v - 1) = unat v - 1" "0 < unat v" using assms by (simp_all add: unat_minus_one word_gt_0 unat_gt_0)
  then have "int (unat (v - 1)) = int (unat v) - 1" by (simp only: of_nat_diff Suc_leI One_nat_def of_nat_1)
  then show ?thesis by simp
qed

lemma rt_sem_take_wf:
  fixes time :: int
  assumes wf: "sched_wf k" "sem_wf n k" and cur: "rt_current_thread k = Some t" "stat k t = RT_THREAD_READY"
  defines "k' \<equiv> snd (rt_sem_take n time k)"
  shows "sched_wf k'" "sem_wf n k'" "\<exists>c. rt_current_thread k' = Some c"
    "sem_count n k' = sem_count n k - (if sem_value (sems k n) = 0 \<and> time = 0 then 0 else 1)"
    "\<And>m. m \<noteq> n \<Longrightarrow> sems k' m = sems k m \<and> tlists k' (LSem m) = tlists k (LSem m) \<and>
      obj_flag (OSem m) k' = obj_flag (OSem m) k"
proof -
  let ?v = "sem_value (sems k n)"
  consider (now) "?v > 0" | (refused) "?v = 0" "time = 0" | (wait) "?v = 0" "time \<noteq> 0"
    using word_gt_0 [of ?v] by (cases "?v = 0"; cases "time = 0") simp_all
  then have "sched_wf k' \<and> sem_wf n k' \<and> (\<exists>c. rt_current_thread k' = Some c) \<and>
    sem_count n k' = sem_count n k - (if ?v = 0 \<and> time = 0 then 0 else 1) \<and>
    (\<forall>m. m \<noteq> n \<longrightarrow> sems k' m = sems k m \<and> tlists k' (LSem m) = tlists k (LSem m) \<and>
      obj_flag (OSem m) k' = obj_flag (OSem m) k)"
  proof cases
    case now
    then have k': "k' = upd_sem n (\<lambda>s. s\<lparr>sem_value := sem_value s - 1\<rparr>) k" by (simp add: k'_def rt_sem_take_def)
    have "uint (?v - 1) = uint ?v - 1" using now by (intro uint_dec)
    then show ?thesis using now wf cur by (auto simp: k' sem_wf_def sem_count_def)
  next
    case refused
    then have "k' = k" by (simp add: k'_def rt_sem_take_def)
    then show ?thesis using refused wf cur by simp
  next
    case wait
    let ?k0 = "upd_thread t (\<lambda>th. th\<lparr>th_error := RT_EOK\<rparr>) k"
    have k': "k' = wait_on (LSem n) (obj_flag (OSem n) k) time t ?k0"
      using wait by (simp add: k'_def rt_sem_take_eq [OF cur(1)] Let_def)
    have f: "obj_flag (OSem n) k \<in> {0, 1}" using wf(2) by (simp add: sem_wf_def)
    have w0: "sched_wf ?k0" "rt_current_thread ?k0 = Some t" "stat ?k0 t = RT_THREAD_READY"
      using wf cur by (simp_all add: sched_wf_upd_error)
    note w = wait_on_spec [OF w0 wait_list_LSem [of n] f, where time = time, folded k']
    have fl: "obj_flag (OSem m) k' = obj_flag (OSem m) k" for m by (simp add: k')
    have "tlists k' (LSem n) = enqueue (obj_flag (OSem n) k) (prio ?k0) t (tlists k (LSem n))" using w(4) by simp
    then show ?thesis using w(1,2,6) w(5) wait wf fl by (auto simp: sem_wf_def sem_count_def)
  qed
  then show "sched_wf k'" "sem_wf n k'" "\<exists>c. rt_current_thread k' = Some c"
    "sem_count n k' = sem_count n k - (if sem_value (sems k n) = 0 \<and> time = 0 then 0 else 1)"
    "\<And>m. m \<noteq> n \<Longrightarrow> sems k' m = sems k m \<and> tlists k' (LSem m) = tlists k (LSem m) \<and>
      obj_flag (OSem m) k' = obj_flag (OSem m) k" by blast+
qed

text \<open>Release: the first waiting thread gets the permit, or the value counts up.\<close>

lemma rt_sem_release_waiters:
  assumes wf: "sched_wf k" and cur: "rt_current_thread k = Some c" and ts: "tlists k (LSem n) = t # ts"
  defines "k' \<equiv> snd (rt_sem_release n k)"
  shows "sched_wf k'" "\<exists>c. rt_current_thread k' = Some c" "sems k' = sems k" "tlists k' (LSem n) = ts"
    "threads k' = (threads k)(t := (threads k t)\<lparr>th_stat := RT_THREAD_READY\<rparr>)"
    "\<And>l. is_wait_list l \<Longrightarrow> l \<noteq> LSem n \<Longrightarrow> tlists k' l = tlists k l"
    "\<And>m. obj_flag (OSem m) k' = obj_flag (OSem m) k"
    "rt_scheduler_lock_nest k = 0 \<Longrightarrow> prio k (self k') \<le> prio k t"
proof -
  define k1 where "k1 = snd (rt_ipc_list_resume (LSem n) k)"
  have k': "k' = rt_schedule k1" using ts by (simp add: k'_def rt_sem_release_def tlist_isempty_def k1_def)
  note r = rt_ipc_list_resume_spec [OF wf wait_list_LSem ts, folded k1_def]
  have w1: "sched_wf k1" "rt_current_thread k1 = Some c" using r cur by simp_all
  have th: "threads k' = threads k1" using rt_schedule_threads [OF w1] by (simp add: k')
  show "sched_wf k'" unfolding k' by (rule rt_schedule_wf [OF w1])
  show "\<exists>c. rt_current_thread k' = Some c" unfolding k' using rt_schedule_current [OF w1] by blast
  show "sems k' = sems k" by (simp add: k' k1_def frame_simps)
  show "tlists k' (LSem n) = ts" using rt_schedule_wait_lists [OF w1, of "LSem n"] r(4) by (simp add: k')
  show "threads k' = (threads k)(t := (threads k t)\<lparr>th_stat := RT_THREAD_READY\<rparr>)" using th r(3) by simp
  show "tlists k' l = tlists k l" if "is_wait_list l" "l \<noteq> LSem n" for l
    using rt_schedule_wait [OF w1 that(1)] r(5) [OF that(2,1)] by (simp add: k')
  show "obj_flag (OSem m) k' = obj_flag (OSem m) k" for m by (simp add: k' k1_def frame_simps)
  show "prio k (self k') \<le> prio k t" if "rt_scheduler_lock_nest k = 0"
  proof -
    have "rt_scheduler_lock_nest k1 = 0" using that ts
      by (simp add: k1_def rt_ipc_list_resume_def rt_thread_resume_eq rt_schedule_insert_thread_def state_defs Let_def)
    moreover have "stat k1 t = RT_THREAD_READY" "\<And>u. prio k1 u = prio k u" using r(3) by simp_all
    ultimately show ?thesis using rt_schedule_highest(2) [OF w1, of t] by (simp add: k')
  qed
qed

lemma rt_sem_release_free:
  assumes "tlists k (LSem n) = []"
  shows "rt_sem_release n k = (RT_EOK, upd_sem n (\<lambda>s. s\<lparr>sem_value := sem_value s + 1\<rparr>) k)"
  using assms by (simp add: rt_sem_release_def tlist_isempty_def)

lemma rt_thread_timeout_lists:
  assumes "sched_wf k" "stat k t = RT_THREAD_SUSPEND" "rt_current_thread k = Some c" "is_wait_list l"
  shows "tlists (rt_thread_timeout t k) l = removeAll t (tlists k l)"
proof -
  let ?k = "rt_schedule_insert_thread t (tlist_remove t (upd_thread t (\<lambda>th. th\<lparr>th_error := - RT_ETIMEOUT\<rparr>) k))"
  have eq: "tlist_remove t (upd_thread t (\<lambda>th. th\<lparr>th_error := - RT_ETIMEOUT\<rparr>) k) =
      upd_thread t (\<lambda>th. th\<lparr>th_error := - RT_ETIMEOUT\<rparr>) (tlist_remove t k)" by (simp add: state_defs)
  have "sched_ok {t} (rt_current_thread k) (tlist_remove t k)"
    using unlink_not_ready [of "{}" "rt_current_thread k" k t] assms by (simp add: sched_wf_ok)
  then have wf: "sched_wf ?k" unfolding eq using wf_mask [OF assms(1)] assms(2)
    by (intro insert_wf transit_upd_thread) (simp_all add: transit_upd_thread mask_ok_def)
  have ne: "l \<noteq> LReady p" for p using assms(4) by auto
  then have "tlists (rt_schedule ?k) l = tlists ?k l"
    using rt_schedule_wait_lists [OF wf, of c l] assms(3) by simp
  also have "\<dots> = removeAll t (tlists k l)" using ne by (simp add: insert_tlists removed_def)
  finally show ?thesis by (simp add: rt_thread_timeout_def Let_def)
qed

section \<open>Histories of a semaphore\<close>

text \<open>
  One step of a history, seen from semaphore \<open>n\<close>, with what it is for the permits of \<open>n\<close>. The steps
  are the operations of the code, under what they need of the caller: a running ready thread for
  \<open>rt_sem_take\<close>, a suspended thread, on whatever object, for the timeout of its timer. The value
  is counted in 16 bits without a check (\<open>sem->value ++\<close>): a release at 65535 with nobody waiting
  is the step \<open>Overflowed\<close>, which loses 65536 permits while it gives one.
\<close>

datatype sem_event = Taken | Refused | Released | Overflowed | Expired | Unrelated

fun sem_delta :: "sem_event \<Rightarrow> int" where
  "sem_delta Taken = - 1"
| "sem_delta Released = 1"
| "sem_delta Overflowed = 1 - 65536"
| "sem_delta Expired = 1"
| "sem_delta Refused = 0"
| "sem_delta Unrelated = 0"

inductive sem_step :: "nat \<Rightarrow> kernel \<Rightarrow> sem_event \<Rightarrow> kernel \<Rightarrow> bool" for n where
  take: "rt_current_thread k = Some t \<Longrightarrow> stat k t = RT_THREAD_READY \<Longrightarrow>
    sem_step n k (if sem_value (sems k n) = 0 \<and> time = 0 then Refused else Taken) (snd (rt_sem_take n time k))"
| release: "rt_current_thread k = Some c \<Longrightarrow>
    sem_step n k (if tlists k (LSem n) = [] \<and> sem_value (sems k n) = 0xffff then Overflowed else Released)
      (snd (rt_sem_release n k))"
| timeout: "rt_current_thread k = Some c \<Longrightarrow> stat k t = RT_THREAD_SUSPEND \<Longrightarrow>
    sem_step n k (if t \<in> set (tlists k (LSem n)) then Expired else Unrelated) (rt_thread_timeout t k)"
| other_take: "rt_current_thread k = Some t \<Longrightarrow> stat k t = RT_THREAD_READY \<Longrightarrow> m \<noteq> n \<Longrightarrow>
    sem_step n k Unrelated (snd (rt_sem_take m time k))"
| other_release: "rt_current_thread k = Some c \<Longrightarrow> m \<noteq> n \<Longrightarrow> sem_step n k Unrelated (snd (rt_sem_release m k))"
| yield: "rt_current_thread k = Some c \<Longrightarrow> sem_step n k Unrelated (snd (rt_thread_yield k))"
| sleep: "rt_current_thread k = Some t \<Longrightarrow> stat k t = RT_THREAD_READY \<Longrightarrow>
    sem_step n k Unrelated (rt_thread_sleep tick k)"

inductive sem_run :: "nat \<Rightarrow> kernel \<Rightarrow> sem_event list \<Rightarrow> kernel \<Rightarrow> bool" for n where
  nil: "sem_run n k [] k"
| step: "sem_step n k e k1 \<Longrightarrow> sem_run n k1 es k2 \<Longrightarrow> sem_run n k (e # es) k2"

text \<open>A step is a step for every semaphore, only the event differs.\<close>

lemma sem_step_every:
  assumes "sem_step n k e k'"
  shows "\<exists>e'. sem_step m k e' k'"
  using assms
proof (cases rule: sem_step.cases)
  case (take t time)
  then show ?thesis by (cases "n = m") (auto intro: sem_step.intros)
next
  case (release c)
  then show ?thesis by (cases "n = m") (auto intro: sem_step.intros)
next
  case (other_take t m' time)
  then show ?thesis by (cases "m' = m") (auto intro: sem_step.intros)
next
  case (other_release c m')
  then show ?thesis by (cases "m' = m") (auto intro: sem_step.intros)
qed (auto intro: sem_step.intros)

lemma uint_inc:
  fixes v :: u16
  assumes "v \<noteq> 0xffff"
  shows "uint (v + 1) = uint v + 1"
proof -
  have "unat v \<noteq> 0xffff" using assms word_unat_eq_iff [of v "0xffff"] by simp
  moreover have "unat v < 2 ^ 16" by (rule order_less_le_trans [OF unsigned_less]) simp
  ultimately have "unat v + 1 < 2 ^ 16" by simp
  then have "unat (v + 1) = unat v + 1" using unat_add_lem [of v 1] by simp
  then have "int (unat (v + 1)) = int (unat v) + 1" by (simp only: of_nat_add of_nat_1)
  then show ?thesis by simp
qed

lemma sleep_lists:
  assumes wf: "sched_wf k" and cur: "rt_current_thread k = Some t" and st: "stat k t = RT_THREAD_READY"
    and l: "is_wait_list l"
  shows "tlists (rt_thread_sleep tick k) l = tlists k l" "sems (rt_thread_sleep tick k) = sems k"
    "obj_flag (OSem m) (rt_thread_sleep tick k) = obj_flag (OSem m) k"
    "\<exists>c. rt_current_thread (rt_thread_sleep tick k) = Some c"
proof -
  define k1 where "k1 = rt_timer_start (TThread t)
    (upd_timer (TThread t) (\<lambda>tm. tm\<lparr>tm_init_tick := tick\<rparr>) (snd (rt_thread_suspend t k)))"
  have s: "rt_thread_sleep tick k = rt_schedule k1"
    using cur by (simp add: rt_thread_sleep_def rt_timer_control_def k1_def split_def Let_def)
  note f = rt_thread_suspend_fields [OF st]
  have w1: "sched_wf k1" "rt_current_thread k1 = Some t"
    using rt_thread_suspend_wf [OF wf] f(2) cur by (simp_all add: k1_def)
  have "t \<notin> set (tlists k l)" using sched_wfD(6) [OF wf l, of t] st by auto
  then have "tlists k1 l = tlists k l" using f(4) by (simp add: k1_def removed_def)
  then show "tlists (rt_thread_sleep tick k) l = tlists k l" unfolding s using rt_schedule_wait [OF w1 l] by simp
  show "sems (rt_thread_sleep tick k) = sems k" by (simp add: s k1_def frame_simps)
  have "objects k1 (OSem m) = objects k (OSem m)"
    by (simp add: k1_def rt_timer_start_def Let_def set_flag_def clear_flag_def rt_timer_remove_def state_defs)
  then show "obj_flag (OSem m) (rt_thread_sleep tick k) = obj_flag (OSem m) k" by (simp add: s frame_simps)
  show "\<exists>c. rt_current_thread (rt_thread_sleep tick k) = Some c" unfolding s using rt_schedule_current [OF w1] by blast
qed

lemma sem_step_sound:
  assumes "sem_step n k e k'" "sched_wf k" "\<And>m. sem_wf m k"
  shows "sched_wf k' \<and> sem_wf n k' \<and> sem_count n k' = sem_count n k + sem_delta e"
  using assms
proof (cases rule: sem_step.cases)
  case (take t time)
  then show ?thesis using rt_sem_take_wf [OF assms(2,3) take(3,4), where time = time] by auto
next
  case (release c)
  show ?thesis
  proof (cases "tlists k (LSem n)")
    case Nil
    then show ?thesis using release assms(2) assms(3) [of n] uint_inc [of "sem_value (sems k n)"]
      by (cases "sem_value (sems k n) = 0xffff") (simp_all add: rt_sem_release_free sem_wf_def sem_count_def)
  next
    case (Cons t ts)
    then show ?thesis using rt_sem_release_waiters [OF assms(2) release(3) Cons] release assms(3) [of n]
      by (simp add: sem_wf_def sem_count_def)
  qed
next
  case (timeout c t)
  note w = rt_thread_timeout_wf [OF assms(2) timeout(4,3)] rt_thread_timeout_lists [OF assms(2) timeout(4,3), of "LSem n"]
  have v: "sems k' = sems k" "obj_flag (OSem n) k' = obj_flag (OSem n) k" unfolding timeout(2)
    by (simp_all add: rt_thread_timeout_def Let_def frame_simps rt_schedule_insert_thread_def state_defs)
  show ?thesis
  proof (cases "t \<in> set (tlists k (LSem n))")
    case True
    have "distinct (tlists k (LSem n))" by (rule disjoint_lists_distinct [OF sched_wfD(1) [OF assms(2)]])
    then have "length (removeAll t (tlists k (LSem n))) + 1 = length (tlists k (LSem n))"
      using True by (simp add: distinct_remove1_removeAll [symmetric] length_remove1) (metis Suc_pred length_pos_if_in_set)
    moreover have "sem_value (sems k n) = 0" using assms(3) [of n] True word_gt_0 [of "sem_value (sems k n)"]
      by (auto simp: sem_wf_def)
    ultimately show ?thesis using timeout(1,2) True w v assms(3) [of n] by (auto simp: sem_wf_def sem_count_def)
  next
    case False
    then show ?thesis using timeout(1,2) w v assms(3) [of n] by (simp add: sem_wf_def sem_count_def)
  qed
next
  case (other_take t m time)
  then show ?thesis using rt_sem_take_wf [OF assms(2,3) other_take(3,4), where time = time] assms(3) [of n]
    by (auto simp: sem_wf_def sem_count_def)
next
  case (other_release c m)
  show ?thesis
  proof (cases "tlists k (LSem m)")
    case Nil
    then show ?thesis using other_release assms(2) assms(3) [of n] by (simp add: rt_sem_release_free sem_wf_def sem_count_def)
  next
    case (Cons t ts)
    then show ?thesis using rt_sem_release_waiters [OF assms(2) other_release(3) Cons] other_release assms(3) [of n]
      by (simp add: sem_wf_def sem_count_def)
  qed
next
  case (yield c)
  then show ?thesis using rt_schedule_wf [OF assms(2) yield(3)] rt_schedule_wait [OF assms(2) yield(3), of "LSem n"] assms(3) [of n]
    by (simp add: rt_thread_yield_def sem_wf_def sem_count_def frame_simps)
next
  case (sleep t tick)
  then show ?thesis using rt_thread_sleep_wf [OF assms(2) sleep(3,4)] sleep_lists [OF assms(2) sleep(3,4), of "LSem n"] assms(3) [of n]
    by (simp add: sem_wf_def sem_count_def)
qed

section \<open>Properties\<close>

lemma sem_run_sound:
  assumes "sem_run n k es k'" "sched_wf k" "\<forall>m. sem_wf m k"
  shows "sched_wf k' \<and> (\<forall>m. sem_wf m k') \<and> sem_count n k' = sem_count n k + sum_list (map sem_delta es)"
  using assms
proof (induction rule: sem_run.induct)
  case (step k e k1 es k2)
  have "sem_wf m k1" for m
    using sem_step_every [OF step.hyps(1), of m] sem_step_sound step.prems by blast
  then show ?case using sem_step_sound [OF step.hyps(1)] step by simp
qed simp

text \<open>
  C9. Conservation of permits: over every history of takes (granted, refused or queued) and releases
  of this and other semaphores, timeouts of suspended threads, yields and sleeps, the value minus
  the number of waiting threads is the initial one plus releases and timeouts of waiting threads
  minus takes, exactly, as long as no release happens at the value 65535 with nobody waiting; each
  such release wraps the 16-bit value to 0, and 65535 permits are lost. The scheduler state stays
  well-formed and no thread waits while the value of its semaphore is positive.
\<close>

theorem sem_permit_conservation:
  assumes "sem_run n k es k'" "sched_wf k" "\<forall>m. sem_wf m k"
  shows "sched_wf k' \<and> (\<forall>m. sem_value (sems k' m) > 0 \<longrightarrow> tlists k' (LSem m) = []) \<and>
    uint (sem_value (sems k' n)) - int (length (tlists k' (LSem n))) =
    uint (sem_value (sems k n)) - int (length (tlists k (LSem n))) +
      int (count_list es Released) + int (count_list es Expired) - int (count_list es Taken) -
      65535 * int (count_list es Overflowed)"
proof -
  have "sum_list (map sem_delta es) = int (count_list es Released) + int (count_list es Expired) -
      int (count_list es Taken) - 65535 * int (count_list es Overflowed)"
  proof (induction es)
    case (Cons e es)
    then show ?case by (cases e) simp_all
  qed simp
  then show ?thesis using sem_run_sound [OF assms] by (simp add: sem_wf_def sem_count_def)
qed

lemma demo_sem:
  "sched_wf (demo_running 3 [5] (LSem 0) [2])" "\<forall>m. sem_wf m (demo_running 3 [5] (LSem 0) [2])"
  "rt_current_thread (demo_running 3 [5] (LSem 0) [2]) = Some 3" "sem_value (sems (demo_running 3 [5] (LSem 0) [2]) 0) = 0"
  "tlists (demo_running 3 [5] (LSem 0) [2]) (LSem 0) = [2]"
  by (rule demo_running_wf) (simp_all add: sem_wf_def demo_running_def demo_kernel_def)

theorem sem_permit_conservation_witness:
  "let k = demo_running 3 [5] (LSem 0) [2]; k' = snd (rt_sem_release 0 k)
   in sched_wf k' \<and> uint (sem_value (sems k' 0)) - int (length (tlists k' (LSem 0))) = 0"
proof -
  have "sem_step 0 (demo_running 3 [5] (LSem 0) [2]) Released (snd (rt_sem_release 0 (demo_running 3 [5] (LSem 0) [2])))"
    using sem_step.release [OF demo_sem(3), of 0] by (simp add: demo_sem)
  from sem_permit_conservation [OF sem_run.step [OF this sem_run.nil] demo_sem(1,2)]
  show ?thesis by (simp add: demo_sem Let_def)
qed

text \<open>
  \<open>rt_sem_release\<close> with threads waiting makes exactly the first of them ready, leaves the value
  at 0 and the rest of the queue in order, and reschedules: unless the scheduler is locked the
  thread that runs next is at least as urgent as the one woken. Without waiting threads it only
  counts, in 16 bits: at 65535 the value becomes 0 and all permits are lost.
\<close>

theorem rt_sem_release_hands_over:
  assumes "sched_wf k" "rt_current_thread k = Some c" "rt_scheduler_lock_nest k = 0"
  shows "let k' = snd (rt_sem_release n k) in
    fst (rt_sem_release n k) = RT_EOK \<and> sched_wf k' \<and>
    (case tlists k (LSem n) of
       [] \<Rightarrow> sem_value (sems k' n) = sem_value (sems k n) + 1 \<and> threads k' = threads k \<and>
             (sem_value (sems k n) = 0xffff \<longrightarrow> sem_value (sems k' n) = 0)
     | t # ts \<Rightarrow> tlists k' (LSem n) = ts \<and> sems k' = sems k \<and>
             threads k' = (threads k)(t := (threads k t)\<lparr>th_stat := RT_THREAD_READY\<rparr>) \<and>
             stat k t = RT_THREAD_SUSPEND \<and> prio k (self k') \<le> prio k t)"
proof (cases "tlists k (LSem n)")
  case Nil
  then show ?thesis using assms by (simp add: rt_sem_release_free)
next
  case (Cons t ts)
  have "fst (rt_sem_release n k) = RT_EOK" by (simp add: rt_sem_release_def Let_def split_def)
  then show ?thesis
    using Cons rt_sem_release_waiters [OF assms(1,2) Cons] assms(3) sched_wfD(6) [OF assms(1), of "LSem n" t]
    by (simp add: Let_def)
qed

theorem rt_sem_release_hands_over_witness:
  "let k = demo_running 3 [5] (LSem 0) [2]; k' = snd (rt_sem_release 0 k)
   in stat k' 2 = RT_THREAD_READY \<and> tlists k' (LSem 0) = [] \<and> prio k (self k') \<le> prio k 2"
  using rt_sem_release_hands_over [of "demo_running 3 [5] (LSem 0) [2]" 3 0] demo_sem
  by (simp add: Let_def demo_running_def demo_kernel_def)

text \<open>
  The order of waiting: a thread that must wait goes to the end of the queue of a
  \<open>RT_IPC_FLAG_FIFO\<close> semaphore, and in a queue ordered by priority behind the threads that are at
  least as urgent and before the others, which keeps the order; it is suspended, and the
  processor goes to another thread as soon as one is ready.
\<close>

theorem rt_sem_take_queues:
  assumes "sched_wf k" "sem_wf n k" "rt_current_thread k = Some t" "stat k t = RT_THREAD_READY"
    and "sem_value (sems k n) = 0" "time \<noteq> 0" "sorted (map (prio k) (tlists k (LSem n)))"
  shows "let (r, k') = rt_sem_take n time k; ts = tlists k (LSem n) in
    stat k' t = RT_THREAD_SUSPEND \<and>
    tlists k' (LSem n) =
      (if obj_flag (OSem n) k = RT_IPC_FLAG_FIFO then ts @ [t]
       else filter (\<lambda>s. prio k s \<le> prio k t) ts @ [t] @ filter (\<lambda>s. prio k t < prio k s) ts) \<and>
    (obj_flag (OSem n) k = RT_IPC_FLAG_PRIO \<longrightarrow> sorted (map (prio k') (tlists k' (LSem n)))) \<and>
    (rt_scheduler_lock_nest k = 0 \<and> (\<exists>u. u \<noteq> t \<and> stat k u = RT_THREAD_READY) \<longrightarrow> r = Blocked)"
proof -
  let ?k0 = "upd_thread t (\<lambda>th. th\<lparr>th_error := RT_EOK\<rparr>) k" and ?f = "obj_flag (OSem n) k"
  have w0: "sched_wf ?k0" "rt_current_thread ?k0 = Some t" "stat ?k0 t = RT_THREAD_READY"
    using assms by (simp_all add: sched_wf_upd_error)
  have f: "?f \<in> {0, 1}" using assms(2) by (simp add: sem_wf_def)
  define k' where "k' = wait_on (LSem n) ?f time t ?k0"
  note w = wait_on_spec [OF w0 wait_list_LSem [of n] f, where time = time, folded k'_def]
  have take: "rt_sem_take n time k = (if rt_current_thread k' = Some t then rt_sem_take_resume t k' else (Blocked, k'))"
    using assms(5,6) by (simp add: rt_sem_take_eq [OF assms(3)] k'_def Let_def)
  have p: "prio ?k0 = prio k" "prio k' = prio k" using w(3) by auto
  have q: "tlists k' (LSem n) = enqueue ?f (prio k) t (tlists k (LSem n))" using w(4) p(1) by simp
  have s: "snd (rt_sem_take n time k) = k'" using take by simp
  have b: "rt_current_thread k' \<noteq> Some t"
    if "rt_scheduler_lock_nest k = 0" "u \<noteq> t" "stat k u = RT_THREAD_READY" for u
    using w(11) [of u] that by simp
  show ?thesis
    using s q p(2) b take w(3) f sorted_prio_insert [OF assms(7), of t] prio_insert_split [OF assms(7), of t]
    by (auto simp: enqueue_def split_def Let_def)
qed

theorem rt_sem_take_queues_witness:
  "let k = set_obj_flag (OSem 0) 1 (demo_running 3 [5] (LSem 0) [2, 8]); k' = snd (rt_sem_take 0 20 k)
   in tlists k' (LSem 0) = [2, 3, 8] \<and> stat k' 3 = RT_THREAD_SUSPEND"
proof -
  let ?k = "set_obj_flag (OSem 0) 1 (demo_running 3 [5] (LSem 0) [2, 8])"
  have wf: "sched_wf (demo_running 3 [5] (LSem 0) [2, 8])" by (rule demo_running_wf) simp_all
  have "sched_wf ?k" using wf sched_wf_cong [of ?k] by (simp add: set_obj_flag_def upd_object_def)
  moreover have "sem_wf 0 ?k" "rt_current_thread ?k = Some 3" "stat ?k 3 = RT_THREAD_READY"
    "sem_value (sems ?k 0) = 0" "tlists ?k (LSem 0) = [2, 8]" "obj_flag (OSem 0) ?k = 1"
    "prio ?k 2 = 12" "prio ?k 3 = 13" "prio ?k 8 = 18"
    by (simp_all add: sem_wf_def set_obj_flag_def upd_object_def demo_running_def demo_kernel_def demo_thread_def)
  ultimately show ?thesis using rt_sem_take_queues [of ?k 0 3 20] by (simp add: Let_def split_def)
qed

text \<open>
  \<open>rt_sem_detach\<close> ends and wakes every waiting thread with the error \<open>-RT_ERROR\<close>, which their
  pending \<open>rt_sem_take\<close> returns; no other thread changes.
\<close>

theorem rt_sem_detach_wakes_all:
  assumes "sched_wf k"
  shows "\<exists>k'. rt_sem_detach n k = Some (RT_EOK, k') \<and> sched_wf k' \<and> tlists k' (LSem n) = [] \<and>
    (\<forall>t. if t \<in> set (tlists k (LSem n))
         then stat k' t = RT_THREAD_READY \<and> fst (rt_sem_take_resume t k') = Ret (- RT_ERROR)
         else threads k' t = threads k t)"
  using rt_ipc_list_resume_all_spec [OF assms wait_list_LSem [of n]]
  by (auto simp: rt_sem_detach_def rt_sem_take_resume_def frame_simps)

theorem rt_sem_detach_wakes_all_witness:
  "\<exists>k'. rt_sem_detach 0 (demo_running 3 [5] (LSem 0) [2]) = Some (RT_EOK, k') \<and> stat k' 2 = RT_THREAD_READY"
  using rt_sem_detach_wakes_all [OF demo_sem(1), of 0] demo_sem(5) by (metis list.set_intros(1))

end
