(* ===== verification/Ipc_Mutex.thy ===== *)
theory Ipc_Mutex
  imports Ipc_Sem
begin

text \<open>
  Mutexes (\<open>src/ipc.c\<close>): recursive, owned, with priority inheritance. The owner's priority is raised
  when a more urgent thread has to wait, and put back on the last release, which hands the mutex
  to the first waiting thread.
\<close>

section \<open>Operations\<close>

definition upd_mutex :: "nat \<Rightarrow> (rt_mutex \<Rightarrow> rt_mutex) \<Rightarrow> kernel \<Rightarrow> kernel" where
  "upd_mutex m g k = k\<lparr>mutexes := (mutexes k)(m := g (mutexes k m))\<rparr>"

definition free_mutex :: rt_mutex where
  "free_mutex = \<lparr>mtx_value = 1, mtx_original_priority = 0xff, mtx_hold = 0, mtx_owner = None\<rparr>"

definition rt_mutex_init :: "nat \<Rightarrow> string \<Rightarrow> u8 \<Rightarrow> kernel \<Rightarrow> err \<times> kernel" where
  "rt_mutex_init m name flag k =
     (let k = rt_object_init (OMutex m) RT_Object_Class_Mutex name k;
          k = rt_ipc_object_init (LMutex m) k;
          k = upd_mutex m (\<lambda>_. free_mutex) k
      in (RT_EOK, set_obj_flag (OMutex m) flag k))"

definition rt_mutex_detach :: "nat \<Rightarrow> kernel \<Rightarrow> (err \<times> kernel) option" where
  "rt_mutex_detach m k =
     map_option (\<lambda>k. (RT_EOK, rt_object_detach (OMutex m) k)) (rt_ipc_list_resume_all (LMutex m) k)"

definition rt_mutex_create :: "string \<Rightarrow> u8 \<Rightarrow> nat option \<Rightarrow> kernel \<Rightarrow> nat option \<times> kernel" where
  "rt_mutex_create name flag mem k =
     (case mem of
        None \<Rightarrow> (None, k)
      | Some m \<Rightarrow>
          let k = snd (rt_object_allocate RT_Object_Class_Mutex name (Some (OMutex m)) k);
              k = rt_ipc_object_init (LMutex m) k;
              k = upd_mutex m (\<lambda>_. free_mutex) k
          in (Some m, set_obj_flag (OMutex m) flag k))"

definition rt_mutex_delete :: "nat \<Rightarrow> kernel \<Rightarrow> (err \<times> kernel) option" where
  "rt_mutex_delete m k =
     map_option (\<lambda>k. (RT_EOK, rt_object_delete (OMutex m) k)) (rt_ipc_list_resume_all (LMutex m) k)"

text \<open>
  \<open>rt_mutex_take\<close>. After a wait the error \<open>-RT_EINTR\<close> restarts the call; only signals, which are not
  configured, set it, so the thread that goes on at once without a switch never sees it.
\<close>

definition rt_mutex_take :: "nat \<Rightarrow> int \<Rightarrow> kernel \<Rightarrow> err outcome \<times> kernel" where
  "rt_mutex_take m time k =
     (let t = self k;
          k = upd_thread t (\<lambda>th. th\<lparr>th_error := RT_EOK\<rparr>) k
      in if mtx_owner (mutexes k m) = Some t
         then (Ret RT_EOK, upd_mutex m (\<lambda>mx. mx\<lparr>mtx_hold := mtx_hold mx + 1\<rparr>) k)
         else if mtx_value (mutexes k m) > 0
         then (Ret RT_EOK, upd_mutex m (\<lambda>mx. mx\<lparr>mtx_value := mtx_value mx - 1, mtx_owner := Some t,
                 mtx_original_priority := prio k t, mtx_hold := mtx_hold mx + 1\<rparr>) k)
         else if time = 0
         then (Ret (- RT_ETIMEOUT), upd_thread t (\<lambda>th. th\<lparr>th_error := - RT_ETIMEOUT\<rparr>) k)
         else
           let owner = the (mtx_owner (mutexes k m));
               k = (if prio k t < prio k owner then snd (rt_thread_control owner 2 (prio k t) k) else k);
               (_, k) = rt_ipc_list_suspend (LMutex m) t (obj_flag (OMutex m) k) k;
               k = start_timeout t time k
           in block_then t (rt_sem_take_resume t) k)"

definition rt_mutex_take_resume :: "nat \<Rightarrow> int \<Rightarrow> tid \<Rightarrow> kernel \<Rightarrow> err outcome \<times> kernel" where
  "rt_mutex_take_resume m time t k =
     (if th_error (threads k t) \<noteq> RT_EOK
      then if th_error (threads k t) = - RT_EINTR then rt_mutex_take m time k
           else (Ret (th_error (threads k t)), k)
      else (Ret RT_EOK, k))"

definition rt_mutex_release :: "nat \<Rightarrow> kernel \<Rightarrow> err \<times> kernel" where
  "rt_mutex_release m k =
     (let t = self k in
      if mtx_owner (mutexes k m) \<noteq> Some t
      then (- RT_ERROR, upd_thread t (\<lambda>th. th\<lparr>th_error := - RT_ERROR\<rparr>) k)
      else
        let k = upd_mutex m (\<lambda>mx. mx\<lparr>mtx_hold := mtx_hold mx - 1\<rparr>) k in
        if mtx_hold (mutexes k m) = 0 then
          let original = mtx_original_priority (mutexes k m);
              k = (if original \<noteq> prio k t then snd (rt_thread_control t 2 original k) else k)
          in if \<not> tlist_isempty (LMutex m) k then
               let s = hd (tlists k (LMutex m));
                   k = upd_mutex m (\<lambda>mx. mx\<lparr>mtx_owner := Some s, mtx_original_priority := prio k s,
                                             mtx_hold := mtx_hold mx + 1\<rparr>) k;
                   (_, k) = rt_ipc_list_resume (LMutex m) k
               in (RT_EOK, rt_schedule k)
             else
               (RT_EOK, upd_mutex m (\<lambda>mx. mx\<lparr>mtx_value := mtx_value mx + 1, mtx_owner := None,
                                               mtx_original_priority := 0xff\<rparr>) k)
        else (RT_EOK, k))"

definition rt_mutex_control :: "nat \<Rightarrow> int \<Rightarrow> kernel \<Rightarrow> err \<times> kernel" where
  "rt_mutex_control m cmd k = (- RT_ERROR, k)"

section \<open>Changing a priority\<close>

definition set_prio :: "nat \<Rightarrow> rt_thread \<Rightarrow> rt_thread" where
  "set_prio p th = th\<lparr>th_current_priority := p, th_number_mask := push_bit p 1\<rparr>"

lemma set_prio_simps [simp]:
  "th_current_priority (set_prio p th) = p" "th_stat (set_prio p th) = th_stat th"
  "th_error (set_prio p th) = th_error th" "p < 32 \<Longrightarrow> mask_ok (set_prio p th)"
  "th_number_mask (set_prio p th) = push_bit p 1"
  by (simp_all add: set_prio_def mask_ok_def)

lemma change_priority_eq:
  "snd (rt_thread_control t 2 p k) =
     (if stat k t = RT_THREAD_READY
      then rt_schedule_insert_thread t (upd_thread t (set_prio p) (rt_schedule_remove_thread t k))
      else upd_thread t (set_prio p) k)"
  by (simp add: rt_thread_control_def Let_def upd_thread_def set_prio_def del: push_bit_of_1)

lemma change_priority_spec:
  fixes t :: tid
  assumes wf: "sched_wf k" and p: "p < 32"
  defines "k' \<equiv> snd (rt_thread_control t 2 p k)"
  shows "sched_wf k'" "rt_current_thread k' = rt_current_thread k"
    "threads k' = (threads k)(t := set_prio p (threads k t))"
    "\<And>l. is_wait_list l \<Longrightarrow> tlists k' l = tlists k l"
    "sems k' = sems k" "mutexes k' = mutexes k" "events k' = events k" "mailboxes k' = mailboxes k" "mqs k' = mqs k"
    "objects k' = objects k" "rt_scheduler_lock_nest k' = rt_scheduler_lock_nest k"
proof -
  show "sched_wf k'" unfolding k'_def by (rule rt_thread_control_wf [OF wf p])
  show "rt_current_thread k' = rt_current_thread k" by (simp add: k'_def change_priority_eq)
  have "(set_prio p (threads k t))\<lparr>th_stat := RT_THREAD_READY\<rparr> = set_prio p (threads k t)"
    if "stat k t = RT_THREAD_READY" using that by (cases "threads k t") (simp add: set_prio_def)
  then show "threads k' = (threads k)(t := set_prio p (threads k t))" by (auto simp: k'_def change_priority_eq)
  show "tlists k' l = tlists k l" if "is_wait_list l" for l
  proof (cases "stat k t = RT_THREAD_READY")
    case True
    then have "t \<notin> set (tlists k l)" using sched_wfD(6) [OF wf that, of t] by auto
    then show ?thesis using True that by (auto simp: k'_def change_priority_eq insert_tlists removed_def)
  qed (simp add: k'_def change_priority_eq)
  show "sems k' = sems k" "mutexes k' = mutexes k" "events k' = events k" "mailboxes k' = mailboxes k" "mqs k' = mqs k"
    "objects k' = objects k" "rt_scheduler_lock_nest k' = rt_scheduler_lock_nest k"
    by (simp_all add: k'_def change_priority_eq rt_schedule_insert_thread_def rt_schedule_remove_thread_def
        state_defs Let_def)
qed

section \<open>Invariant\<close>

text \<open>
  Either the mutex is free, with nobody waiting, or a live thread owns it and is not among the
  waiting threads. The count of holds is 0 exactly when nobody owns it (\<open>mutex_held\<close>) as long as
  its 8 bits do not wrap.
\<close>

definition mutex_wf :: "nat \<Rightarrow> kernel \<Rightarrow> bool" where
  "mutex_wf m k \<longleftrightarrow> obj_flag (OMutex m) k \<in> {0, 1} \<and>
     (case mtx_owner (mutexes k m) of
        None \<Rightarrow> mtx_value (mutexes k m) = 1 \<and> mtx_hold (mutexes k m) = 0 \<and> tlists k (LMutex m) = []
      | Some t \<Rightarrow> mtx_value (mutexes k m) = 0 \<and> t \<notin> set (tlists k (LMutex m)) \<and>
          mtx_original_priority (mutexes k m) < 32 \<and> started (threads k t))"

definition mutex_held :: "nat \<Rightarrow> kernel \<Rightarrow> bool" where
  "mutex_held m k \<longleftrightarrow> (mtx_owner (mutexes k m) = None \<longleftrightarrow> mtx_hold (mutexes k m) = 0)"

lemma upd_mutex_frame [simp]:
  "threads (upd_mutex m g k) = threads k" "tlists (upd_mutex m g k) = tlists k"
  "rt_current_thread (upd_mutex m g k) = rt_current_thread k" "objects (upd_mutex m g k) = objects k"
  "mutexes (upd_mutex m g k) = (mutexes k)(m := g (mutexes k m))"
  "rt_scheduler_lock_nest (upd_mutex m g k) = rt_scheduler_lock_nest k"
  "rt_thread_ready_priority_group (upd_mutex m g k) = rt_thread_ready_priority_group k"
  by (simp_all add: upd_mutex_def)

lemma sched_wf_upd_mutex [simp]: "sched_wf (upd_mutex m g k) = sched_wf k"
  by (rule sched_wf_cong) simp_all

lemma wait_list_LMutex [simp]: "is_wait_list (LMutex n)" by simp

lemma running_prio: "sched_wf k \<Longrightarrow> stat k t = RT_THREAD_READY \<Longrightarrow> prio k t < 32"
  using wf_mask [of k t] by (simp add: mask_ok_def)

text \<open>\<open>rt_mutex_take\<close> when the caller has to wait.\<close>

definition inherit :: "nat \<Rightarrow> tid \<Rightarrow> kernel \<Rightarrow> kernel" where
  "inherit m t k =
     (let owner = the (mtx_owner (mutexes k m))
      in if prio k t < prio k owner then snd (rt_thread_control owner 2 (prio k t) k) else k)"

lemma rt_mutex_take_wait_eq:
  assumes "rt_current_thread k = Some t" "mtx_owner (mutexes k m) = Some s" "s \<noteq> t"
    and "mtx_value (mutexes k m) = 0" "time \<noteq> 0"
  defines "k0 \<equiv> inherit m t (upd_thread t (\<lambda>th. th\<lparr>th_error := RT_EOK\<rparr>) k)"
  defines "k' \<equiv> wait_on (LMutex m) (obj_flag (OMutex m) k0) time t k0"
  shows "rt_mutex_take m time k = (if rt_current_thread k' = Some t then rt_sem_take_resume t k' else (Blocked, k'))"
  using assms(1-5) by (simp add: k'_def k0_def inherit_def rt_mutex_take_def block_then_def wait_on_def split_def Let_def)

lemma inherit_spec:
  assumes wf: "sched_wf k" and st: "stat k t = RT_THREAD_READY" and o: "mtx_owner (mutexes k m) = Some s" "s \<noteq> t"
  defines "k' \<equiv> inherit m t k"
  shows "sched_wf k'" "rt_current_thread k' = rt_current_thread k"
    "threads k' = (if prio k t < prio k s then (threads k)(s := set_prio (prio k t) (threads k s)) else threads k)"
    "\<And>l. is_wait_list l \<Longrightarrow> tlists k' l = tlists k l" "mutexes k' = mutexes k" "objects k' = objects k"
    "sems k' = sems k" "rt_scheduler_lock_nest k' = rt_scheduler_lock_nest k"
    "stat k' t = RT_THREAD_READY" "prio k' s \<le> prio k t" "prio k' t = prio k t"
  using change_priority_spec [OF wf running_prio [OF wf st], where t = s] wf st o
  by (auto simp: k'_def inherit_def Let_def)

lemma inc_pos:
  fixes h :: u8
  assumes "h \<noteq> 0xff"
  shows "h + 1 > 0"
proof -
  have "h + 1 \<noteq> 0"
  proof
    assume "h + 1 = 0"
    then have "h = - 1" by (simp add: eq_neg_iff_add_eq_0)
    then show False using assms by simp
  qed
  then show ?thesis by (simp add: word_gt_0)
qed


text \<open>The three ways through \<open>rt_mutex_take\<close> that do not refuse: again, free, and wait.\<close>

lemma rt_mutex_take_again:
  assumes "rt_current_thread k = Some t" "mtx_owner (mutexes k m) = Some t"
  shows "rt_mutex_take m time k = (Ret RT_EOK, upd_mutex m (\<lambda>mx. mx\<lparr>mtx_hold := mtx_hold mx + 1\<rparr>)
    (upd_thread t (\<lambda>th. th\<lparr>th_error := RT_EOK\<rparr>) k))"
  using assms by (simp add: rt_mutex_take_def Let_def)

lemma rt_mutex_take_free:
  assumes "rt_current_thread k = Some t" "mtx_owner (mutexes k m) = None" "mtx_value (mutexes k m) = 1"
  shows "rt_mutex_take m time k = (Ret RT_EOK, upd_mutex m (\<lambda>mx. mx\<lparr>mtx_value := mtx_value mx - 1, mtx_owner := Some t,
      mtx_original_priority := prio k t, mtx_hold := mtx_hold mx + 1\<rparr>) (upd_thread t (\<lambda>th. th\<lparr>th_error := RT_EOK\<rparr>) k))"
  using assms by (simp add: rt_mutex_take_def Let_def)

lemma rt_mutex_take_refuse:
  assumes "rt_current_thread k = Some t" "mtx_owner (mutexes k m) = Some s" "s \<noteq> t" "mtx_value (mutexes k m) = 0"
  shows "rt_mutex_take m 0 k = (Ret (- RT_ETIMEOUT), upd_thread t (\<lambda>th. th\<lparr>th_error := - RT_ETIMEOUT\<rparr>) k)"
  using assms by (simp add: rt_mutex_take_def Let_def upd_thread_def)

lemma rt_mutex_take_wait:
  assumes wf: "sched_wf k" "mutex_wf m k" and cur: "rt_current_thread k = Some t" "stat k t = RT_THREAD_READY"
    and o: "mtx_owner (mutexes k m) = Some s" "s \<noteq> t" "time \<noteq> 0"
  defines "k' \<equiv> snd (rt_mutex_take m time k)"
  shows "sched_wf k'" "\<exists>c. rt_current_thread k' = Some c" "mutexes k' = mutexes k"
    "stat k' t = RT_THREAD_SUSPEND" "\<And>u. u \<noteq> t \<Longrightarrow> stat k' u = stat k u"
    "prio k' s \<le> prio k' t" "\<And>u. u \<noteq> s \<Longrightarrow> prio k' u = prio k u" "prio k' s = min (prio k s) (prio k t)"
    "tlists k' (LMutex m) = enqueue (obj_flag (OMutex m) k) (prio k') t (tlists k (LMutex m))"
    "\<And>l. is_wait_list l \<Longrightarrow> l \<noteq> LMutex m \<Longrightarrow> tlists k' l = tlists k l"
    "\<And>n. obj_flag (OMutex n) k' = obj_flag (OMutex n) k"
    "mutex_wf m k'"
proof -
  let ?k = "upd_thread t (\<lambda>th. th\<lparr>th_error := RT_EOK\<rparr>) k"
  define k0 where "k0 = inherit m t ?k"
  have w: "sched_wf ?k" "stat ?k t = RT_THREAD_READY" "mtx_owner (mutexes ?k m) = Some s"
    using wf cur o by (simp_all add: sched_wf_upd_error)
  note h = inherit_spec [OF w o(2), folded k0_def]
  have v: "mtx_value (mutexes k m) = 0" using wf(2) o by (simp add: mutex_wf_def)
  have k': "k' = wait_on (LMutex m) (obj_flag (OMutex m) k0) time t k0"
    using rt_mutex_take_wait_eq [OF cur(1) o(1,2) v o(3), folded k0_def] by (simp add: k'_def)
  have f: "obj_flag (OMutex m) k0 = obj_flag (OMutex m) k" "obj_flag (OMutex m) k0 \<in> {0, 1}"
    using h(6) wf(2) by (simp_all add: mutex_wf_def)
  have c0: "rt_current_thread k0 = Some t" using h(2) cur by simp
  note q = wait_on_spec [OF h(1) c0 h(9) wait_list_LMutex [of m] f(2), where time = time, folded k']
  show s1: "sched_wf k'" and s2: "\<exists>c. rt_current_thread k' = Some c" by (fact q)+
  show s3: "mutexes k' = mutexes k" using q(7) h(5) by simp
  show s4: "stat k' t = RT_THREAD_SUSPEND" using q(3) by simp
  show s5: "stat k' u = stat k u" if "u \<noteq> t" for u using q(3) h(3) that by auto
  show s6: "prio k' u = prio k u" if "u \<noteq> s" for u using q(3) h(3) that by auto
  show s7: "prio k' s = min (prio k s) (prio k t)" using q(3) h(3) o(2) by auto
  then show "prio k' s \<le> prio k' t" using s6 o(2) by simp
  have p: "prio k0 = prio k'" using q(3) by auto
  show s8: "tlists k' (LMutex m) = enqueue (obj_flag (OMutex m) k) (prio k') t (tlists k (LMutex m))"
    using q(4) h(4) f(1) p by simp
  show s9: "tlists k' l = tlists k l" if "is_wait_list l" "l \<noteq> LMutex m" for l using q(5) [OF that] h(4) [OF that(1)] by simp
  show s10: "obj_flag (OMutex n) k' = obj_flag (OMutex n) k" for n using h(6) by (simp add: k')
  have "started (threads k' s)" using s5 [of s] o wf(2) by (simp add: mutex_wf_def started_def)
  then show "mutex_wf m k'" using wf(2) o s3 s8 s10 by (simp add: mutex_wf_def)
qed

text \<open>Release by the owner.\<close>

lemma rt_mutex_release_again:
  assumes "rt_current_thread k = Some t" "mtx_owner (mutexes k m) = Some t" "mtx_hold (mutexes k m) \<noteq> 1"
  shows "rt_mutex_release m k = (RT_EOK, upd_mutex m (\<lambda>mx. mx\<lparr>mtx_hold := mtx_hold mx - 1\<rparr>) k)"
  using assms by (simp add: rt_mutex_release_def Let_def)

lemma rt_mutex_release_last:
  assumes wf: "sched_wf k" "mutex_wf m k" and cur: "rt_current_thread k = Some t"
    and o: "mtx_owner (mutexes k m) = Some t" "mtx_hold (mutexes k m) = 1"
  defines "k' \<equiv> snd (rt_mutex_release m k)" and "p \<equiv> mtx_original_priority (mutexes k m)"
  shows "fst (rt_mutex_release m k) = RT_EOK" "sched_wf k'" "\<exists>c. rt_current_thread k' = Some c"
    "prio k' t = p" "\<And>u. u \<noteq> t \<Longrightarrow> prio k' u = prio k u"
    "\<And>u. th_error (threads k' u) = th_error (threads k u)" "mutex_wf m k'"
    "tlists k (LMutex m) = [] \<Longrightarrow> mutexes k' m = free_mutex"
    "tlists k (LMutex m) = s # ss \<Longrightarrow> mtx_owner (mutexes k' m) = Some s \<and> mtx_hold (mutexes k' m) = 1 \<and>
       mtx_value (mutexes k' m) = 0 \<and> mtx_original_priority (mutexes k' m) = prio k s \<and>
       tlists k' (LMutex m) = ss \<and> stat k' s = RT_THREAD_READY"
    "\<And>u. stat k' u = (if tlists k (LMutex m) \<noteq> [] \<and> u = hd (tlists k (LMutex m)) then RT_THREAD_READY else stat k u)"
proof -
  let ?k1 = "upd_mutex m (\<lambda>mx. mx\<lparr>mtx_hold := mtx_hold mx - 1\<rparr>) k"
  define k2 where "k2 = (if p \<noteq> prio k t then snd (rt_thread_control t 2 p ?k1) else ?k1)"
  have p32: "p < 32" and live: "started (threads k t)" and tn: "t \<notin> set (tlists k (LMutex m))"
    and v: "mtx_value (mutexes k m) = 0" and fl: "obj_flag (OMutex m) k \<in> {0, 1}"
    using wf(2) o by (simp_all add: p_def mutex_wf_def)
  have w1: "sched_wf ?k1" using wf(1) by simp
  note c = change_priority_spec [OF w1 p32, where t = t]
  have k2: "sched_wf k2" "rt_current_thread k2 = Some t" "mutexes k2 = mutexes ?k1" "objects k2 = objects k"
    "tlists k2 (LMutex m) = tlists k (LMutex m)" "prio k2 t = p"
    using c w1 cur by (auto simp: k2_def)
  have k2u: "stat k2 u = stat k u" "th_error (threads k2 u) = th_error (threads k u)"
    "u \<noteq> t \<Longrightarrow> prio k2 u = prio k u" for u
    using c(3) by (auto simp: k2_def)
  show "fst (rt_mutex_release m k) = RT_EOK"
    using cur o by (simp add: rt_mutex_release_def Let_def split_def)
  have rel: "rt_mutex_release m k = (RT_EOK, if \<not> tlist_isempty (LMutex m) k2
      then rt_schedule (snd (rt_ipc_list_resume (LMutex m) (upd_mutex m (\<lambda>mx. mx\<lparr>mtx_owner := Some (hd (tlists k2 (LMutex m))),
        mtx_original_priority := prio k2 (hd (tlists k2 (LMutex m))), mtx_hold := mtx_hold mx + 1\<rparr>) k2)))
      else upd_mutex m (\<lambda>mx. mx\<lparr>mtx_value := mtx_value mx + 1, mtx_owner := None, mtx_original_priority := 0xff\<rparr>) k2)"
    using cur o by (simp add: rt_mutex_release_def Let_def split_def k2_def p_def)
  have "sched_wf k' \<and> (\<exists>c. rt_current_thread k' = Some c) \<and> prio k' t = p \<and> mutex_wf m k' \<and>
    (\<forall>u. u \<noteq> t \<longrightarrow> prio k' u = prio k u) \<and> (\<forall>u. th_error (threads k' u) = th_error (threads k u)) \<and>
    (\<forall>u. stat k' u = (if tlists k (LMutex m) \<noteq> [] \<and> u = hd (tlists k (LMutex m)) then RT_THREAD_READY else stat k u)) \<and>
    (tlists k (LMutex m) = [] \<longrightarrow> mutexes k' m = free_mutex) \<and>
    (\<forall>s ss. tlists k (LMutex m) = s # ss \<longrightarrow> mtx_owner (mutexes k' m) = Some s \<and> mtx_hold (mutexes k' m) = 1 \<and>
       mtx_value (mutexes k' m) = 0 \<and> mtx_original_priority (mutexes k' m) = prio k s \<and>
       tlists k' (LMutex m) = ss \<and> stat k' s = RT_THREAD_READY)"
  proof (cases "tlists k (LMutex m)")
    case Nil
    have k': "k' = upd_mutex m (\<lambda>mx. mx\<lparr>mtx_value := mtx_value mx + 1, mtx_owner := None, mtx_original_priority := 0xff\<rparr>) k2"
      using Nil k2(5) rel by (simp add: k'_def tlist_isempty_def)
    have "mutexes k' m = free_mutex" using k2(3) v o(2) by (cases "mutexes k m") (simp add: k' free_mutex_def)
    moreover have "mutex_wf m k'" using calculation k2(4,5) fl Nil by (simp add: k' mutex_wf_def free_mutex_def)
    ultimately show ?thesis using k2 k2u Nil by (simp add: k')
  next
    case (Cons s ss)
    let ?k3 = "upd_mutex m (\<lambda>mx. mx\<lparr>mtx_owner := Some s, mtx_original_priority := prio k2 s, mtx_hold := mtx_hold mx + 1\<rparr>) k2"
    let ?k4 = "snd (rt_ipc_list_resume (LMutex m) ?k3)"
    have k': "k' = rt_schedule ?k4"
      using Cons k2(5) rel by (simp add: k'_def tlist_isempty_def)
    have w3: "sched_wf ?k3" "tlists ?k3 (LMutex m) = s # ss" using k2 Cons by simp_all
    note r = rt_ipc_list_resume_spec [OF w3(1) wait_list_LMutex w3(2)]
    have w4: "sched_wf ?k4" "rt_current_thread ?k4 = Some t" using r k2 by simp_all
    have th: "threads k' = (threads k2)(s := (threads k2 s)\<lparr>th_stat := RT_THREAD_READY\<rparr>)"
      using rt_schedule_threads [OF w4] r(3) by (simp add: k')
    have tl: "tlists k' (LMutex m) = ss" using rt_schedule_wait [OF w4 wait_list_LMutex] r(4) by (simp add: k')
    have mx: "mutexes k' m = (mutexes k m)\<lparr>mtx_owner := Some s, mtx_original_priority := prio k2 s, mtx_hold := 1\<rparr>"
      using k2(3) o(2) by (cases "mutexes k m") (simp add: k' frame_simps)
    have st: "s \<noteq> t" using tn Cons by auto
    have "s \<notin> set ss" using disjoint_lists_distinct [OF sched_wfD(1) [OF wf(1)], of "LMutex m"] Cons by simp
    moreover have "prio k s < 32"
      using wf_mask [OF wf(1), of s] sched_wfD(6) [OF wf(1), of "LMutex m" s] Cons by (simp add: mask_ok_def)
    moreover have "obj_flag (OMutex m) k' = obj_flag (OMutex m) k" using k2(4) by (simp add: k' frame_simps)
    ultimately have "mutex_wf m k'" using v fl mx tl th st k2u(3) by (simp add: mutex_wf_def started_def)
    moreover have "\<exists>c. rt_current_thread k' = Some c" unfolding k' using rt_schedule_current [OF w4] by blast
    moreover have "sched_wf k'" unfolding k' by (rule rt_schedule_wf [OF w4])
    ultimately show ?thesis using Cons mx tl th st k2(6) k2u v by simp
  qed
  then show "tlists k (LMutex m) = [] \<Longrightarrow> mutexes k' m = free_mutex"
    "tlists k (LMutex m) = s # ss \<Longrightarrow> mtx_owner (mutexes k' m) = Some s \<and> mtx_hold (mutexes k' m) = 1 \<and>
       mtx_value (mutexes k' m) = 0 \<and> mtx_original_priority (mutexes k' m) = prio k s \<and>
       tlists k' (LMutex m) = ss \<and> stat k' s = RT_THREAD_READY"
    "sched_wf k'" "\<exists>c. rt_current_thread k' = Some c" "prio k' t = p" "mutex_wf m k'"
    "\<And>u. u \<noteq> t \<Longrightarrow> prio k' u = prio k u" "\<And>u. th_error (threads k' u) = th_error (threads k u)"
    "\<And>u. stat k' u = (if tlists k (LMutex m) \<noteq> [] \<and> u = hd (tlists k (LMutex m)) then RT_THREAD_READY else stat k u)"
    by blast+
qed

section \<open>Histories of a mutex\<close>

text \<open>
  The steps of a history are the operations of the code on mutex \<open>m\<close> by the running thread, the
  timeout of a suspended thread, on whatever object, and scheduling. The owner's holds are counted
  in 8 bits without a check (\<open>mutex->hold ++\<close>); the flag of a step says that this take wraps them,
  the flag of a history that one of its steps did.
\<close>

definition hold_wraps :: "nat \<Rightarrow> kernel \<Rightarrow> bool" where
  "hold_wraps m k \<longleftrightarrow> mtx_owner (mutexes k m) = rt_current_thread k \<and> mtx_hold (mutexes k m) = 0xff"

inductive mutex_step :: "nat \<Rightarrow> kernel \<Rightarrow> bool \<Rightarrow> kernel \<Rightarrow> bool" for m where
  take: "rt_current_thread k = Some t \<Longrightarrow> stat k t = RT_THREAD_READY \<Longrightarrow>
    mutex_step m k (hold_wraps m k) (snd (rt_mutex_take m time k))"
| release: "rt_current_thread k = Some t \<Longrightarrow> mutex_step m k False (snd (rt_mutex_release m k))"
| timeout: "rt_current_thread k = Some c \<Longrightarrow> stat k t = RT_THREAD_SUSPEND \<Longrightarrow>
    mutex_step m k False (rt_thread_timeout t k)"
| yield: "rt_current_thread k = Some c \<Longrightarrow> mutex_step m k False (snd (rt_thread_yield k))"
| sleep: "rt_current_thread k = Some t \<Longrightarrow> stat k t = RT_THREAD_READY \<Longrightarrow>
    mutex_step m k False (rt_thread_sleep tick k)"

lemma mutex_frame [simp]:
  "mutexes (rt_thread_timeout t k) = mutexes k" "mutexes (rt_thread_sleep tick k) = mutexes k"
  "mutexes (rt_schedule k) = mutexes k"
  by (simp_all add: rt_thread_timeout_def rt_thread_sleep_def rt_timer_control_def Let_def split_def frame_simps
      rt_schedule_insert_thread_def state_defs)

lemma mutex_wf_frame:
  assumes "mutex_wf m k" "mutexes k' m = mutexes k m" "obj_flag (OMutex m) k' = obj_flag (OMutex m) k"
    and "set (tlists k' (LMutex m)) \<subseteq> set (tlists k (LMutex m))" "\<And>t. started (threads k t) \<Longrightarrow> started (threads k' t)"
  shows "mutex_wf m k'"
  using assms by (auto simp: mutex_wf_def split: option.splits)

lemma sleep_threads:
  assumes wf: "sched_wf k" and cur: "rt_current_thread k = Some t" and st: "stat k t = RT_THREAD_READY"
  shows "threads (rt_thread_sleep tick k) = (threads k)(t := (threads k t)\<lparr>th_stat := RT_THREAD_SUSPEND\<rparr>)"
    "obj_flag (OMutex m) (rt_thread_sleep tick k) = obj_flag (OMutex m) k"
proof -
  define k1 where "k1 = rt_timer_start (TThread t)
    (upd_timer (TThread t) (\<lambda>tm. tm\<lparr>tm_init_tick := tick\<rparr>) (snd (rt_thread_suspend t k)))"
  have s: "rt_thread_sleep tick k = rt_schedule k1"
    using cur by (simp add: rt_thread_sleep_def rt_timer_control_def k1_def split_def Let_def)
  note f = rt_thread_suspend_fields [OF st]
  have w1: "sched_wf k1" "rt_current_thread k1 = Some t"
    using rt_thread_suspend_wf [OF wf] f(2) cur by (simp_all add: k1_def)
  show "threads (rt_thread_sleep tick k) = (threads k)(t := (threads k t)\<lparr>th_stat := RT_THREAD_SUSPEND\<rparr>)"
    unfolding s rt_schedule_threads [OF w1] using f(3) by (simp add: k1_def)
  have "objects k1 (OMutex m) = objects k (OMutex m)"
    by (simp add: k1_def rt_timer_start_def Let_def set_flag_def clear_flag_def rt_timer_remove_def state_defs)
  then show "obj_flag (OMutex m) (rt_thread_sleep tick k) = obj_flag (OMutex m) k" by (simp add: s frame_simps)
qed

text \<open>One step: the invariant is kept, an owner goes on holding unless the count wraps, and the owner changes only by its own last release.\<close>

lemma mutex_step_sound:
  assumes "mutex_step m k w k'" "sched_wf k" "mutex_wf m k"
  shows "sched_wf k' \<and> mutex_wf m k' \<and> (mutex_held m k \<longrightarrow> \<not> w \<longrightarrow> mutex_held m k') \<and>
    (\<forall>o'. mtx_owner (mutexes k m) = Some o' \<longrightarrow> mtx_owner (mutexes k' m) \<noteq> Some o' \<longrightarrow>
       rt_current_thread k = Some o' \<and> mtx_hold (mutexes k m) = 1 \<and> k' = snd (rt_mutex_release m k))"
  using assms
proof (cases rule: mutex_step.cases)
  case (take t time)
  have cur: "started (threads k t)" "prio k t < 32"
    using take running_prio [OF assms(2)] by (simp_all add: started_def)
  show ?thesis
  proof (cases "mtx_owner (mutexes k m)")
    case None
    then have "mtx_value (mutexes k m) = 1" "mtx_hold (mutexes k m) = 0" "tlists k (LMutex m) = []"
      using assms(3) by (simp_all add: mutex_wf_def)
    then show ?thesis using take rt_mutex_take_free [OF take(3) None] assms(2,3) None cur
      by (simp add: mutex_wf_def mutex_held_def sched_wf_upd_error started_def)
  next
    case (Some s)
    show ?thesis
    proof (cases "s = t")
      case True
      then show ?thesis using take rt_mutex_take_again [OF take(3), of m time] Some assms(2,3)
          inc_pos [of "mtx_hold (mutexes k m)"]
        by (auto simp: mutex_wf_def mutex_held_def hold_wraps_def sched_wf_upd_error started_def)
    next
      case False
      show ?thesis
      proof (cases "time = 0")
        case True
        then show ?thesis using take rt_mutex_take_refuse [OF take(3) Some False] Some assms(2,3)
          by (simp add: mutex_wf_def mutex_held_def sched_wf_upd_error started_def)
      next
        case nz: False
        note w = rt_mutex_take_wait [OF assms(2,3) take(3,4) Some False nz]
        show ?thesis using w(1,3,12) Some take(2) by (simp add: mutex_held_def)
      qed
    qed
  qed
next
  case (release t)
  show ?thesis
  proof (cases "mtx_owner (mutexes k m) = Some t")
    case True
    show ?thesis
    proof (cases "mtx_hold (mutexes k m) = 1")
      case last: True
      note w = rt_mutex_release_last [OF assms(2,3) release(3) True last]
      have "mutex_held m k'" using w(8,9) release(2) by (cases "tlists k (LMutex m)") (auto simp: mutex_held_def free_mutex_def)
      then show ?thesis using release w(2,7) True last by simp
    next
      case False
      then show ?thesis using release rt_mutex_release_again [OF release(3) True False] True assms(2,3)
        by (simp add: mutex_wf_def mutex_held_def)
    qed
  next
    case False
    then have k': "k' = upd_thread t (\<lambda>th. th\<lparr>th_error := - RT_ERROR\<rparr>) k"
      using release by (simp add: rt_mutex_release_def)
    have "mutex_wf m k'" by (rule mutex_wf_frame [OF assms(3)]) (auto simp: k' started_def)
    then show ?thesis using assms(2) by (simp add: k' mutex_held_def sched_wf_upd_error)
  qed
next
  case (timeout c t)
  have "mutex_wf m k'" unfolding timeout(2)
    by (rule mutex_wf_frame [OF assms(3)])
      (use rt_thread_timeout_lists [OF assms(2) timeout(4,3), of "LMutex m"]
        rt_thread_timeout_threads(1) [OF assms(2) timeout(4,3)] in \<open>auto simp: woken_def started_def\<close>)
  then show ?thesis using rt_thread_timeout_wf [OF assms(2) timeout(4,3)] timeout(2) by (simp add: mutex_held_def)
next
  case (yield c)
  have "mutex_wf m k'" unfolding yield(2)
    by (rule mutex_wf_frame [OF assms(3)])
      (use rt_schedule_wait [OF assms(2) yield(3), of "LMutex m"] rt_schedule_threads [OF assms(2) yield(3)]
        in \<open>simp_all add: rt_thread_yield_def frame_simps\<close>)
  then show ?thesis using rt_schedule_wf [OF assms(2) yield(3)] yield(2) by (simp add: rt_thread_yield_def mutex_held_def)
next
  case (sleep t tick)
  have "mutex_wf m k'" unfolding sleep(2)
    by (rule mutex_wf_frame [OF assms(3)])
      (use sleep_lists [OF assms(2) sleep(3,4), of "LMutex m"] sleep_threads [OF assms(2) sleep(3,4)]
        in \<open>simp_all add: started_def\<close>)
  then show ?thesis using rt_thread_sleep_wf [OF assms(2) sleep(3,4)] sleep(2) by (simp add: mutex_held_def)
qed

text \<open>
  What the wrap does: the 256th take by the owner leaves it with no hold counted; the next take
  counts one, and one release then hands the mutex over although 256 takes are still open.
\<close>

lemma hold_wrap_gives_away:
  fixes time :: int
  assumes "sched_wf k" "mutex_wf m k" "rt_current_thread k = Some t" "mtx_owner (mutexes k m) = Some t"
    and "mtx_hold (mutexes k m) = 0xff"
  defines "k1 \<equiv> snd (rt_mutex_take m time k)"
  defines "k2 \<equiv> snd (rt_mutex_take m time k1)"
  shows "mtx_hold (mutexes k1 m) = 0" "mtx_hold (mutexes k2 m) = 1" "mtx_owner (mutexes k2 m) = Some t"
    "mtx_owner (mutexes (snd (rt_mutex_release m k2)) m) \<noteq> Some t"
proof -
  have k1: "k1 = upd_mutex m (\<lambda>mx. mx\<lparr>mtx_hold := mtx_hold mx + 1\<rparr>) (upd_thread t (\<lambda>th. th\<lparr>th_error := RT_EOK\<rparr>) k)"
    using rt_mutex_take_again [OF assms(3,4)] by (simp add: k1_def)
  have c1: "rt_current_thread k1 = Some t" "mtx_owner (mutexes k1 m) = Some t" using assms(3-5) by (simp_all add: k1)
  have k2: "k2 = upd_mutex m (\<lambda>mx. mx\<lparr>mtx_hold := mtx_hold mx + 1\<rparr>) (upd_thread t (\<lambda>th. th\<lparr>th_error := RT_EOK\<rparr>) k1)"
    using rt_mutex_take_again [OF c1] by (simp add: k2_def)
  show "mtx_hold (mutexes k1 m) = 0" and h: "mtx_hold (mutexes k2 m) = 1" and o: "mtx_owner (mutexes k2 m) = Some t"
    using assms(3-5) by (simp_all add: k1 k2)
  have w: "sched_wf k2" "mutex_wf m k2" "rt_current_thread k2 = Some t"
    using assms(1-4) by (simp_all add: k1 k2 sched_wf_upd_error mutex_wf_def started_def)
  have "t \<notin> set (tlists k2 (LMutex m))" using w(2) o by (simp add: mutex_wf_def)
  then show "mtx_owner (mutexes (snd (rt_mutex_release m k2)) m) \<noteq> Some t"
    using rt_mutex_release_last(8,9) [OF w o h] by (cases "tlists k2 (LMutex m)") (auto simp: free_mutex_def)
qed

section \<open>Properties\<close>

inductive mutex_run :: "nat \<Rightarrow> kernel \<Rightarrow> bool \<Rightarrow> kernel \<Rightarrow> bool" for m where
  nil: "mutex_run m k False k"
| step: "mutex_run m k v k1 \<Longrightarrow> mutex_step m k1 w k2 \<Longrightarrow> mutex_run m k (v \<or> w) k2"

lemma mutex_run_sound:
  assumes "mutex_run m k w k'" "sched_wf k" "mutex_wf m k" "mutex_held m k"
  shows "sched_wf k' \<and> mutex_wf m k' \<and> (\<not> w \<longrightarrow> mutex_held m k')"
  using assms
proof (induction rule: mutex_run.induct)
  case (step k v k1 w k2)
  then show ?case using mutex_step_sound [OF step.hyps(2)] by blast
qed simp

text \<open>
  C8. Mutual exclusion: over every history of takes and releases by running threads, timeouts of
  suspended threads and other scheduling, the mutex is free (value 1, not held, nobody waiting) or
  owned by one live thread that is not itself waiting (value 0), and a further step takes it from
  an owner only if that owner is running and gives back a hold when one is counted. As long as the
  owner has not nested 256 takes (the holds are counted in 8 bits, unchecked) the count of an
  owned mutex is positive, so it is the owner's last hold that is given back.
\<close>

theorem mutex_exclusion:
  assumes "mutex_run m k w k'" "sched_wf k" "mutex_wf m k" "mutex_held m k" "mutex_step m k' v k''"
  shows "sched_wf k' \<and>
    (case mtx_owner (mutexes k' m) of
       None \<Rightarrow> mtx_value (mutexes k' m) = 1 \<and> mtx_hold (mutexes k' m) = 0 \<and> tlists k' (LMutex m) = []
     | Some t \<Rightarrow> mtx_value (mutexes k' m) = 0 \<and> (\<not> w \<longrightarrow> mtx_hold (mutexes k' m) > 0) \<and>
         t \<notin> set (tlists k' (LMutex m)) \<and> stat k' t \<in> {RT_THREAD_READY, RT_THREAD_SUSPEND} \<and>
         (mtx_owner (mutexes k'' m) \<noteq> Some t \<longrightarrow>
            rt_current_thread k' = Some t \<and> mtx_hold (mutexes k' m) = 1 \<and> k'' = snd (rt_mutex_release m k')))"
proof -
  have "sched_wf k'" "mutex_wf m k'" "\<not> w \<Longrightarrow> mutex_held m k'" using mutex_run_sound [OF assms(1-4)] by simp_all
  then show ?thesis using mutex_step_sound [OF assms(5)]
    by (auto simp: mutex_wf_def mutex_held_def started_def word_gt_0 split: option.splits)
qed

definition demo_owned :: kernel where
  "demo_owned = upd_mutex 0 (\<lambda>mx. \<lparr>mtx_value = 0, mtx_original_priority = 15, mtx_hold = 1, mtx_owner = Some 5\<rparr>)
     (demo_running 3 [5] (LMutex 0) [])"

lemma demo_owned:
  "sched_wf demo_owned" "mutex_wf 0 demo_owned" "rt_current_thread demo_owned = Some 3"
  "stat demo_owned 3 = RT_THREAD_READY" "mtx_owner (mutexes demo_owned 0) = Some 5"
  "mtx_hold (mutexes demo_owned 0) = 1" "mtx_original_priority (mutexes demo_owned 0) = 15"
  "tlists demo_owned (LMutex 0) = []" "prio demo_owned 3 = 13" "prio demo_owned 5 = 15"
  "rt_scheduler_lock_nest demo_owned = 0" "stat demo_owned 5 = RT_THREAD_READY"
proof -
  have "sched_wf (demo_running 3 [5] (LMutex 0) [])" by (rule demo_running_wf) simp_all
  then show "sched_wf demo_owned" by (simp add: demo_owned_def)
qed (simp_all add: mutex_wf_def started_def demo_owned_def demo_running_def demo_kernel_def demo_thread_def)

lemma demo_held: "mutex_held 0 demo_owned" by (simp add: mutex_held_def demo_owned)

theorem mutex_exclusion_witness:
  "mutex_step 0 demo_owned False (snd (rt_mutex_take 0 10 demo_owned)) \<and>
   mtx_owner (mutexes (snd (rt_mutex_take 0 10 demo_owned)) 0) = Some 5"
proof -
  have s: "mutex_step 0 demo_owned False (snd (rt_mutex_take 0 10 demo_owned))"
    using mutex_step.take [OF demo_owned(3,4), of 0 10] by (simp add: hold_wraps_def demo_owned)
  from mutex_exclusion [OF mutex_run.nil demo_owned(1,2) demo_held s] show ?thesis using s by (auto simp: demo_owned)
qed

text \<open>
  Priority inheritance: when a running thread has to wait for a mutex, the owner's priority
  becomes the more urgent of the two, nothing else changes its priority, the thread is queued by
  the mutex's discipline with the new priorities, and it does not run on while another is ready.
\<close>

theorem rt_mutex_take_inherits:
  assumes "sched_wf k" "mutex_wf m k" "rt_current_thread k = Some t" "stat k t = RT_THREAD_READY"
    and "mtx_owner (mutexes k m) = Some s" "s \<noteq> t" "time \<noteq> 0"
  shows "let k' = snd (rt_mutex_take m time k) in
    prio k' s = min (prio k s) (prio k t) \<and> (\<forall>u. u \<noteq> s \<longrightarrow> prio k' u = prio k u) \<and>
    mtx_owner (mutexes k' m) = Some s \<and> mtx_original_priority (mutexes k' m) = mtx_original_priority (mutexes k m) \<and>
    stat k' t = RT_THREAD_SUSPEND \<and>
    tlists k' (LMutex m) = enqueue (obj_flag (OMutex m) k) (prio k') t (tlists k (LMutex m)) \<and>
    sched_wf k' \<and> mutex_wf m k'"
  using rt_mutex_take_wait [OF assms] assms(5) by (simp add: Let_def)

theorem rt_mutex_take_inherits_witness:
  "let k' = snd (rt_mutex_take 0 10 demo_owned)
   in prio demo_owned 5 = 15 \<and> prio k' 5 = 13 \<and> tlists k' (LMutex 0) = [3] \<and> stat k' 3 = RT_THREAD_SUSPEND"
  using rt_mutex_take_inherits [OF demo_owned(1-5), of 10]
  by (simp add: demo_owned Let_def enqueue_def)

text \<open>
  \<open>rt_mutex_release\<close>. A thread that is not the owner gets \<open>-RT_ERROR\<close> and the mutex is untouched. The
  owner's release lowers the hold count; the last one puts its priority back to what it was when
  it took the mutex and hands the mutex to the first waiting thread, which becomes ready, or
  frees it when nobody waits.
\<close>

theorem rt_mutex_release_hands_over:
  assumes "sched_wf k" "mutex_wf m k" "rt_current_thread k = Some t"
  shows "let (r, k') = rt_mutex_release m k; mx = mutexes k m in
    (if mtx_owner mx \<noteq> Some t then r = - RT_ERROR \<and> mutexes k' = mutexes k \<and> tlists k' = tlists k
     else r = RT_EOK \<and>
       (if mtx_hold mx \<noteq> 1
        then mutexes k' m = mx\<lparr>mtx_hold := mtx_hold mx - 1\<rparr> \<and> threads k' = threads k \<and> tlists k' = tlists k
        else prio k' t = mtx_original_priority mx \<and> (\<forall>u. u \<noteq> t \<longrightarrow> prio k' u = prio k u) \<and>
          (case tlists k (LMutex m) of
             [] \<Rightarrow> mutexes k' m = free_mutex
           | s # ss \<Rightarrow> mtx_owner (mutexes k' m) = Some s \<and> mtx_hold (mutexes k' m) = 1 \<and>
               mtx_value (mutexes k' m) = 0 \<and> stat k' s = RT_THREAD_READY \<and> tlists k' (LMutex m) = ss)))"
proof (cases "mtx_owner (mutexes k m) = Some t")
  case True
  show ?thesis
  proof (cases "mtx_hold (mutexes k m) = 1")
    case last: True
    show ?thesis using rt_mutex_release_last [OF assms True last] True last
      by (auto simp: Let_def split_def split: list.splits)
  next
    case False
    then show ?thesis using rt_mutex_release_again [OF assms(3) True False] True by simp
  qed
next
  case False
  then show ?thesis using assms(3) by (simp add: rt_mutex_release_def)
qed

theorem rt_mutex_release_hands_over_witness:
  "rt_mutex_release 0 demo_owned = (- RT_ERROR, snd (rt_mutex_release 0 demo_owned)) \<and>
   mutexes (snd (rt_mutex_release 0 demo_owned)) = mutexes demo_owned"
  using rt_mutex_release_hands_over [OF demo_owned(1-3)] by (simp add: demo_owned Let_def split_def prod_eq_iff)

text \<open>
  C32. A waiting thread that times out leaves the priority it lent: nobody waits any more, the
  owner still holds the mutex, and it still runs at the inherited priority.
\<close>

theorem mutex_timeout_keeps_inherited_priority:
  assumes "sched_wf k" "mutex_wf m k" "rt_current_thread k = Some t" "stat k t = RT_THREAD_READY"
    and "mtx_owner (mutexes k m) = Some s" "s \<noteq> t" "time > 0" "prio k t < prio k s" "tlists k (LMutex m) = []"
  shows "let k' = rt_thread_timeout t (snd (rt_mutex_take m time k)) in
    tlists k' (LMutex m) = [] \<and> mtx_owner (mutexes k' m) = Some s \<and> prio k' s = prio k t \<and>
    th_error (threads k' t) = - RT_ETIMEOUT"
proof -
  have nz: "time \<noteq> 0" using assms(7) by simp
  note w = rt_mutex_take_wait [OF assms(1-6) nz]
  obtain c where c: "rt_current_thread (snd (rt_mutex_take m time k)) = Some c" using w(2) by blast
  have q: "tlists (snd (rt_mutex_take m time k)) (LMutex m) = [t]" using w(9) assms(9) by (simp add: enqueue_def)
  have th: "threads (rt_thread_timeout t (snd (rt_mutex_take m time k))) =
      (threads (snd (rt_mutex_take m time k)))(t := woken (threads (snd (rt_mutex_take m time k)) t))"
    by (rule rt_thread_timeout_threads [OF w(1,4) c])
  show ?thesis
    using rt_thread_timeout_lists [OF w(1,4) c wait_list_LMutex [of m]] q th w(3,8) assms(5,6,8)
    by (simp add: Let_def woken_def)
qed

theorem mutex_timeout_keeps_inherited_priority_witness:
  "let k' = rt_thread_timeout 3 (snd (rt_mutex_take 0 10 demo_owned))
   in tlists k' (LMutex 0) = [] \<and> prio demo_owned 5 = 15 \<and> prio k' 5 = 13"
  using mutex_timeout_keeps_inherited_priority [OF demo_owned(1-5), of 10] by (simp add: demo_owned Let_def)

end
