(* ===== verification/Ipc_Event.thy ===== *)
theory Ipc_Event
  imports Ipc_Sem
begin

text \<open>
  Event sets (\<open>src/ipc.c\<close>): 32 flags, and threads that wait for all or for some of the flags they
  name, with or without clearing them. The invariant \<open>event_wf\<close> says that no thread is left
  waiting for a condition the flags already satisfy.
\<close>

section \<open>Operations\<close>

abbreviation (input) RT_EVENT_FLAG_AND :: u8 where "RT_EVENT_FLAG_AND \<equiv> 1"
abbreviation (input) RT_EVENT_FLAG_OR :: u8 where "RT_EVENT_FLAG_OR \<equiv> 2"
abbreviation (input) RT_EVENT_FLAG_CLEAR :: u8 where "RT_EVENT_FLAG_CLEAR \<equiv> 4"

definition upd_event :: "nat \<Rightarrow> (u32 \<Rightarrow> u32) \<Rightarrow> kernel \<Rightarrow> kernel" where
  "upd_event e g k = k\<lparr>events := (events k)(e := \<lparr>ev_set = g (ev_set (events k e))\<rparr>)\<rparr>"

definition rt_event_init :: "nat \<Rightarrow> string \<Rightarrow> u8 \<Rightarrow> kernel \<Rightarrow> err \<times> kernel" where
  "rt_event_init e name flag k =
     (let k = rt_object_init (OEvent e) RT_Object_Class_Event name k;
          k = set_obj_flag (OEvent e) flag k;
          k = rt_ipc_object_init (LEvent e) k
      in (RT_EOK, upd_event e (\<lambda>_. 0) k))"

definition rt_event_detach :: "nat \<Rightarrow> kernel \<Rightarrow> (err \<times> kernel) option" where
  "rt_event_detach e k =
     map_option (\<lambda>k. (RT_EOK, rt_object_detach (OEvent e) k)) (rt_ipc_list_resume_all (LEvent e) k)"

definition rt_event_create :: "string \<Rightarrow> u8 \<Rightarrow> nat option \<Rightarrow> kernel \<Rightarrow> nat option \<times> kernel" where
  "rt_event_create name flag mem k =
     (case mem of
        None \<Rightarrow> (None, k)
      | Some e \<Rightarrow>
          let k = snd (rt_object_allocate RT_Object_Class_Event name (Some (OEvent e)) k);
              k = set_obj_flag (OEvent e) flag k;
              k = rt_ipc_object_init (LEvent e) k
          in (Some e, upd_event e (\<lambda>_. 0) k))"

definition rt_event_delete :: "nat \<Rightarrow> kernel \<Rightarrow> (err \<times> kernel) option" where
  "rt_event_delete e k =
     map_option (\<lambda>k. (RT_EOK, rt_object_delete (OEvent e) k)) (rt_ipc_list_resume_all (LEvent e) k)"

text \<open>
  The loop of \<open>rt_event_send\<close> over the threads that wait when it starts: \<open>n\<close> moves on before the
  thread is unlinked, and nothing else changes the list meanwhile.
\<close>

primrec event_send_loop :: "nat \<Rightarrow> tid list \<Rightarrow> kernel \<Rightarrow> bool \<Rightarrow> kernel \<times> bool" where
  "event_send_loop e [] k need_schedule = (k, need_schedule)"
| "event_send_loop e (t # ts) k need_schedule =
     (let th = threads k t;
          evset = ev_set (events k e);
          (status, k) =
            (if th_event_info th AND RT_EVENT_FLAG_AND \<noteq> 0 then
               (if th_event_set th AND evset = th_event_set th then (RT_EOK, k) else (- RT_ERROR, k))
             else if th_event_info th AND RT_EVENT_FLAG_OR \<noteq> 0 then
               (if th_event_set th AND evset \<noteq> 0
                then (RT_EOK, upd_thread t (\<lambda>th. th\<lparr>th_event_set := th_event_set th AND evset\<rparr>) k)
                else (- RT_ERROR, k))
             else (- RT_ERROR, k))
      in if status = RT_EOK then
           let k = (if th_event_info (threads k t) AND RT_EVENT_FLAG_CLEAR \<noteq> 0
                    then upd_event e (\<lambda>s. s AND NOT (th_event_set (threads k t))) k else k);
               (_, k) = rt_thread_resume t k
           in event_send_loop e ts k True
         else event_send_loop e ts k need_schedule)"

definition rt_event_send :: "nat \<Rightarrow> u32 \<Rightarrow> kernel \<Rightarrow> err \<times> kernel" where
  "rt_event_send e evset k =
     (if evset = 0 then (- RT_ERROR, k)
      else
        let k = upd_event e (\<lambda>s. s OR evset) k;
            (k, need_schedule) = event_send_loop e (tlists k (LEvent e)) k False
        in (RT_EOK, if need_schedule then rt_schedule k else k))"

text \<open>\<open>rt_event_recv\<close>: the outcome carries the error and the word stored through \<open>recved\<close>, if any. What
  the code does after the wait is \<open>rt_event_recv_resume\<close>.\<close>

definition rt_event_recv_resume :: "tid \<Rightarrow> kernel \<Rightarrow> (err \<times> u32 option) outcome \<times> kernel" where
  "rt_event_recv_resume t k =
     (if th_error (threads k t) \<noteq> RT_EOK then (Ret (th_error (threads k t), None), k)
      else (Ret (th_error (threads k t), Some (th_event_set (threads k t))), k))"

definition rt_event_recv :: "nat \<Rightarrow> u32 \<Rightarrow> u8 \<Rightarrow> int \<Rightarrow> kernel \<Rightarrow> (err \<times> u32 option) outcome \<times> kernel" where
  "rt_event_recv e evset option timeout k =
     (if evset = 0 then (Ret (- RT_ERROR, None), k)
      else
        let t = self k;
            k = upd_thread t (\<lambda>th. th\<lparr>th_error := RT_EOK\<rparr>) k;
            have_set = ev_set (events k e);
            status =
              (if option AND RT_EVENT_FLAG_AND \<noteq> 0 then
                 (if have_set AND evset = evset then RT_EOK else - RT_ERROR)
               else if option AND RT_EVENT_FLAG_OR \<noteq> 0 then
                 (if have_set AND evset \<noteq> 0 then RT_EOK else - RT_ERROR)
               else - RT_ERROR)
        in if status = RT_EOK then
             (Ret (RT_EOK, Some (have_set AND evset)),
              if option AND RT_EVENT_FLAG_CLEAR \<noteq> 0 then upd_event e (\<lambda>s. s AND NOT evset) k else k)
           else if timeout = 0 then
             (Ret (- RT_ETIMEOUT, None), upd_thread t (\<lambda>th. th\<lparr>th_error := - RT_ETIMEOUT\<rparr>) k)
           else
             let k = upd_thread t (\<lambda>th. th\<lparr>th_event_set := evset, th_event_info := option\<rparr>) k;
                 (_, k) = rt_ipc_list_suspend (LEvent e) t (obj_flag (OEvent e) k) k;
                 k = start_timeout t timeout k
             in block_then t (rt_event_recv_resume t) k)"

definition rt_event_control :: "nat \<Rightarrow> int \<Rightarrow> kernel \<Rightarrow> (err \<times> kernel) option" where
  "rt_event_control e cmd k =
     (if cmd = 1
      then map_option (\<lambda>k. (RT_EOK, rt_schedule (upd_event e (\<lambda>_. 0) k))) (rt_ipc_list_resume_all (LEvent e) k)
      else Some (- RT_ERROR, k))"

section \<open>Conditions\<close>

text \<open>When a request is satisfied by the flags \<open>S\<close>, and which flags it gets.\<close>

definition satisfied :: "u8 \<Rightarrow> u32 \<Rightarrow> u32 \<Rightarrow> bool" where
  "satisfied info req S \<longleftrightarrow>
     (if info AND RT_EVENT_FLAG_AND \<noteq> 0 then req AND S = req
      else info AND RT_EVENT_FLAG_OR \<noteq> 0 \<and> req AND S \<noteq> 0)"

abbreviation th_satisfied :: "rt_thread \<Rightarrow> u32 \<Rightarrow> bool" where
  "th_satisfied th S \<equiv> satisfied (th_event_info th) (th_event_set th) S"

definition event_wf :: "nat \<Rightarrow> kernel \<Rightarrow> bool" where
  "event_wf e k \<longleftrightarrow> obj_flag (OEvent e) k \<in> {0, 1} \<and>
     (\<forall>t \<in> set (tlists k (LEvent e)). \<not> th_satisfied (threads k t) (ev_set (events k e)))"

lemma subflags_trans:
  fixes A B C :: u32
  assumes "A AND B = A" "B AND C = B"
  shows "A AND C = A"
  using assms by (metis and.assoc)

lemma satisfied_mono:
  assumes "satisfied info req S" "S AND T = S"
  shows "satisfied info req T"
proof -
  have e: "req AND S = (req AND T) AND S"
    using assms(2) by (metis and.assoc and.commute)
  have "req AND T = req" if "req AND S = req" using that assms(2) by (metis and.assoc)
  moreover have "req AND T \<noteq> 0" if "req AND S \<noteq> 0" using that e by auto
  ultimately show ?thesis using assms(1) by (auto simp: satisfied_def split: if_splits)
qed

lemma upd_event_frame [simp]:
  "threads (upd_event n g k) = threads k" "tlists (upd_event n g k) = tlists k"
  "rt_current_thread (upd_event n g k) = rt_current_thread k" "objects (upd_event n g k) = objects k"
  "events (upd_event n g k) = (events k)(n := \<lparr>ev_set = g (ev_set (events k n))\<rparr>)"
  "rt_scheduler_lock_nest (upd_event n g k) = rt_scheduler_lock_nest k"
  "rt_thread_ready_priority_group (upd_event n g k) = rt_thread_ready_priority_group k"
  by (simp_all add: upd_event_def)

lemma sched_wf_upd_event [simp]: "sched_wf (upd_event n g k) = sched_wf k"
  by (rule sched_wf_cong) simp_all

lemma wait_list_LEvent [simp]: "is_wait_list (LEvent n)" by simp

text \<open>One turn of the loop.\<close>

definition granted :: "rt_thread \<Rightarrow> u32 \<Rightarrow> u32" where
  "granted th S = th_event_set th AND S"

definition event_wake :: "nat \<Rightarrow> tid \<Rightarrow> kernel \<Rightarrow> kernel" where
  "event_wake e t k =
     (let S = ev_set (events k e);
          k1 = upd_thread t (\<lambda>th. th\<lparr>th_event_set := granted th S\<rparr>) k;
          k2 = (if th_event_info (threads k t) AND RT_EVENT_FLAG_CLEAR \<noteq> 0
                then upd_event e (\<lambda>s. s AND NOT (granted (threads k t) S)) k1 else k1)
      in snd (rt_thread_resume t k2))"

lemma event_send_loop_Cons:
  "event_send_loop e (t # ts) k need =
     (if th_satisfied (threads k t) (ev_set (events k e)) then event_send_loop e ts (event_wake e t k) True
      else event_send_loop e ts k need)"
proof -
  let ?th = "threads k t" and ?S = "ev_set (events k e)"
  have "upd_thread t (\<lambda>th. th\<lparr>th_event_set := granted th ?S\<rparr>) k = k" if "th_event_set ?th AND ?S = th_event_set ?th"
    using that by (simp add: upd_thread_def granted_def fun_upd_idem)
  then show ?thesis by (auto simp: satisfied_def event_wake_def Let_def split_def granted_def)
qed


lemma event_wake_spec:
  fixes e :: nat
  assumes wf: "sched_wf k" and st: "stat k t = RT_THREAD_SUSPEND"
  defines "S \<equiv> ev_set (events k e)" and "k' \<equiv> event_wake e t k"
  shows "sched_wf k'" "rt_current_thread k' = rt_current_thread k"
    "threads k' = (threads k)(t := (threads k t)\<lparr>th_event_set := granted (threads k t) S, th_stat := RT_THREAD_READY\<rparr>)"
    "\<And>l. is_wait_list l \<Longrightarrow> tlists k' l = removeAll t (tlists k l)"
    "ev_set (events k' e) = (if th_event_info (threads k t) AND RT_EVENT_FLAG_CLEAR \<noteq> 0
       then S AND NOT (granted (threads k t) S) else S)"
    "\<And>x. obj_flag (OEvent x) k' = obj_flag (OEvent x) k" "rt_scheduler_lock_nest k' = rt_scheduler_lock_nest k"
proof -
  define k1 where "k1 = upd_thread t (\<lambda>th. th\<lparr>th_event_set := granted th S\<rparr>) k"
  define k2 where "k2 = (if th_event_info (threads k t) AND RT_EVENT_FLAG_CLEAR \<noteq> 0
    then upd_event e (\<lambda>s. s AND NOT (granted (threads k t) S)) k1 else k1)"
  have k': "k' = snd (rt_thread_resume t k2)" by (simp add: k'_def event_wake_def Let_def k2_def k1_def S_def)
  have "sched_wf k1" using wf by (simp add: k1_def sched_wf_ok sched_ok_upd_other)
  then have w2: "sched_wf k2" by (simp add: k2_def)
  have st2: "stat k2 t = RT_THREAD_SUSPEND" using st by (simp add: k2_def k1_def)
  note f = rt_thread_resume_fields [OF st2]
  have th2: "threads k2 = (threads k)(t := (threads k t)\<lparr>th_event_set := granted (threads k t) S\<rparr>)"
    and o2: "tlists k2 = tlists k" "rt_current_thread k2 = rt_current_thread k" "objects k2 = objects k"
    "rt_scheduler_lock_nest k2 = rt_scheduler_lock_nest k"
    by (simp_all add: k2_def k1_def)
  show "sched_wf k'" unfolding k' by (rule rt_thread_resume_wf [OF w2])
  show "rt_current_thread k' = rt_current_thread k" unfolding k' f(2) o2 ..
  show "threads k' = (threads k)(t := (threads k t)\<lparr>th_event_set := granted (threads k t) S, th_stat := RT_THREAD_READY\<rparr>)"
    unfolding k' f(3) th2 by simp
  show "tlists k' l = removeAll t (tlists k l)" if "is_wait_list l" for l
    using that unfolding k' f(4) o2 by (auto simp: removed_def)
  show "ev_set (events k' e) = (if th_event_info (threads k t) AND RT_EVENT_FLAG_CLEAR \<noteq> 0
       then S AND NOT (granted (threads k t) S) else S)" by (simp add: k' k2_def k1_def S_def)
  show "obj_flag (OEvent x) k' = obj_flag (OEvent x) k" for x using o2 by (simp add: k')
  show "rt_scheduler_lock_nest k' = rt_scheduler_lock_nest k"
    using o2 by (simp add: k' rt_thread_resume_eq rt_schedule_insert_thread_def state_defs Let_def)
qed

text \<open>
  The loop. Every thread it looks at is judged against the flags \<open>S\<close> at that moment, which lie
  between the flags at the start and at the end: it is woken with the flags it gets, or it stays.
\<close>

lemma event_send_loop_spec:
  fixes need :: bool
  assumes "sched_wf k" "distinct ts" "set ts \<subseteq> set (tlists k (LEvent e))"
  defines "k' \<equiv> fst (event_send_loop e ts k need)"
  shows "sched_wf k' \<and> rt_current_thread k' = rt_current_thread k \<and>
    (\<forall>x. obj_flag (OEvent x) k' = obj_flag (OEvent x) k) \<and> rt_scheduler_lock_nest k' = rt_scheduler_lock_nest k \<and>
    ev_set (events k' e) AND ev_set (events k e) = ev_set (events k' e) \<and>
    (\<forall>t. t \<notin> set ts \<longrightarrow> threads k' t = threads k t \<and> (t \<in> set (tlists k' (LEvent e)) \<longleftrightarrow> t \<in> set (tlists k (LEvent e)))) \<and>
    (\<forall>t \<in> set ts. \<exists>S. ev_set (events k' e) AND S = ev_set (events k' e) \<and> S AND ev_set (events k e) = S \<and>
       (if th_satisfied (threads k t) S
        then t \<notin> set (tlists k' (LEvent e)) \<and>
             threads k' t = (threads k t)\<lparr>th_event_set := granted (threads k t) S, th_stat := RT_THREAD_READY\<rparr>
        else t \<in> set (tlists k' (LEvent e)) \<and> threads k' t = threads k t))"
  using assms(1-3) unfolding k'_def
proof (induction ts arbitrary: k need)
  case (Cons t ts)
  let ?S = "ev_set (events k e)"
  show ?case
  proof (cases "th_satisfied (threads k t) ?S")
    case False
    then have step: "event_send_loop e (t # ts) k need = event_send_loop e ts k need" by (simp only: event_send_loop_Cons if_False)
    show ?thesis using Cons.IH [of k need] Cons.prems False unfolding step by (auto intro!: exI [of _ ?S])
  next
    case True
    let ?k = "event_wake e t k"
    have step: "event_send_loop e (t # ts) k need = event_send_loop e ts ?k True"
      using True by (simp only: event_send_loop_Cons if_True)
    have st: "stat k t = RT_THREAD_SUSPEND" using sched_wfD(6) [OF Cons.prems(1), of "LEvent e" t] Cons.prems(3) by simp
    note w = event_wake_spec [OF Cons.prems(1) st, where e = e]
    have sub: "set ts \<subseteq> set (tlists ?k (LEvent e))" using Cons.prems w(4) [of "LEvent e"] by auto
    have shrink: "ev_set (events ?k e) AND ?S = ev_set (events ?k e)" using w(5) by (auto simp: and.assoc and.commute and.left_commute)
    have dist: "distinct ts" "t \<notin> set ts" using Cons.prems(2) by simp_all
    define k' where "k' = fst (event_send_loop e ts ?k True)"
    note IH = Cons.IH [OF w(1) dist(1) sub, of True, folded k'_def]
    have S': "ev_set (events k' e) AND ev_set (events ?k e) = ev_set (events k' e)" using IH by blast
    have me: "t \<notin> set (tlists k' (LEvent e))"
      "threads k' t = (threads k t)\<lparr>th_event_set := granted (threads k t) ?S, th_stat := RT_THREAD_READY\<rparr>"
      using IH dist(2) w(3,4) by auto
    have other: "\<exists>S. ev_set (events k' e) AND S = ev_set (events k' e) \<and> S AND ?S = S \<and>
       (if th_satisfied (threads k u) S
        then u \<notin> set (tlists k' (LEvent e)) \<and>
             threads k' u = (threads k u)\<lparr>th_event_set := granted (threads k u) S, th_stat := RT_THREAD_READY\<rparr>
        else u \<in> set (tlists k' (LEvent e)) \<and> threads k' u = threads k u)" if u: "u \<in> set ts" for u
    proof -
      have "u \<noteq> t" using u dist(2) by blast
      then have "threads ?k u = threads k u" using w(3) by simp
      with IH u obtain S where S: "ev_set (events k' e) AND S = ev_set (events k' e)" "S AND ev_set (events ?k e) = S"
        "if th_satisfied (threads k u) S
        then u \<notin> set (tlists k' (LEvent e)) \<and>
             threads k' u = (threads k u)\<lparr>th_event_set := granted (threads k u) S, th_stat := RT_THREAD_READY\<rparr>
        else u \<in> set (tlists k' (LEvent e)) \<and> threads k' u = threads k u" by metis
      show ?thesis using S subflags_trans [OF S(2) shrink] by blast
    qed
    have out: "threads k' u = threads k u \<and> (u \<in> set (tlists k' (LEvent e)) \<longleftrightarrow> u \<in> set (tlists k (LEvent e)))"
      if "u \<notin> set (t # ts)" for u
      using IH that w(3) w(4) [of "LEvent e"] by auto
    have here: "ev_set (events k' e) AND ?S = ev_set (events k' e)" by (rule subflags_trans [OF S' shrink])
    have now: "\<exists>S. ev_set (events k' e) AND S = ev_set (events k' e) \<and> S AND ?S = S \<and>
       (if th_satisfied (threads k t) S
        then t \<notin> set (tlists k' (LEvent e)) \<and>
             threads k' t = (threads k t)\<lparr>th_event_set := granted (threads k t) S, th_stat := RT_THREAD_READY\<rparr>
        else t \<in> set (tlists k' (LEvent e)) \<and> threads k' t = threads k t)"
      using me True here by (intro exI [of _ ?S]) simp
    have all: "\<forall>u \<in> set (t # ts). \<exists>S. ev_set (events k' e) AND S = ev_set (events k' e) \<and> S AND ?S = S \<and>
       (if th_satisfied (threads k u) S
        then u \<notin> set (tlists k' (LEvent e)) \<and>
             threads k' u = (threads k u)\<lparr>th_event_set := granted (threads k u) S, th_stat := RT_THREAD_READY\<rparr>
        else u \<in> set (tlists k' (LEvent e)) \<and> threads k' u = threads k u)"
      using other now by simp
    have "sched_wf k'" "rt_current_thread k' = rt_current_thread k"
      "\<forall>x. obj_flag (OEvent x) k' = obj_flag (OEvent x) k" "rt_scheduler_lock_nest k' = rt_scheduler_lock_nest k"
      using IH w(2,6,7) by simp_all
    then show ?thesis unfolding step k'_def [symmetric] using here out all by blast
  qed
qed simp

lemma event_send_loop_need:
  "need \<Longrightarrow> snd (event_send_loop e ts k need)"
  "\<not> snd (event_send_loop e ts k need) \<Longrightarrow> fst (event_send_loop e ts k need) = k"
proof -
  have n: "snd (event_send_loop e ts k need)" if need for k need and ts :: "tid list"
    using that by (induction ts arbitrary: k need) (auto simp only: event_send_loop_Cons event_send_loop.simps(1) snd_conv split: if_split)
  then show "need \<Longrightarrow> snd (event_send_loop e ts k need)" by blast
  show "\<not> snd (event_send_loop e ts k need) \<Longrightarrow> fst (event_send_loop e ts k need) = k"
  proof (induction ts arbitrary: k need)
    case (Cons t ts)
    then show ?case using n [of True ts "event_wake e t k"] unfolding event_send_loop_Cons by (cases "th_satisfied (threads k t) (ev_set (events k e))") auto
  qed simp
qed

lemma obj_flag_upd_event [simp]: "obj_flag x (upd_event n g k) = obj_flag x k" by simp

text \<open>The whole of \<open>rt_event_send\<close>.\<close>

lemma rt_event_send_spec:
  fixes e :: nat
  assumes wf: "sched_wf k" and cur: "rt_current_thread k = Some c" and s: "s \<noteq> 0"
  defines "k' \<equiv> snd (rt_event_send e s k)" and "S0 \<equiv> ev_set (events k e) OR s"
  shows "sched_wf k'" "\<exists>c. rt_current_thread k' = Some c" "obj_flag (OEvent e) k' = obj_flag (OEvent e) k"
    "ev_set (events k' e) AND S0 = ev_set (events k' e)"
    "\<And>t. t \<notin> set (tlists k (LEvent e)) \<Longrightarrow> threads k' t = threads k t \<and> t \<notin> set (tlists k' (LEvent e))"
    "\<And>t. t \<in> set (tlists k (LEvent e)) \<Longrightarrow>
       \<exists>S. ev_set (events k' e) AND S = ev_set (events k' e) \<and> S AND S0 = S \<and>
       (if th_satisfied (threads k t) S
        then t \<notin> set (tlists k' (LEvent e)) \<and>
             threads k' t = (threads k t)\<lparr>th_event_set := granted (threads k t) S, th_stat := RT_THREAD_READY\<rparr> \<and>
             (rt_scheduler_lock_nest k = 0 \<longrightarrow> prio k (self k') \<le> prio k t)
        else t \<in> set (tlists k' (LEvent e)) \<and> threads k' t = threads k t)"
proof -
  let ?ts = "tlists k (LEvent e)"
  define k0 where "k0 = upd_event e (\<lambda>x. x OR s) k"
  define k1 where "k1 = fst (event_send_loop e ?ts k0 False)"
  have k': "k' = (if snd (event_send_loop e ?ts k0 False) then rt_schedule k1 else k1)"
    using s by (simp add: k'_def rt_event_send_def Let_def split_def k0_def k1_def)
  have w0: "sched_wf k0" "set ?ts \<subseteq> set (tlists k0 (LEvent e))" "distinct ?ts"
    using wf disjoint_lists_distinct [OF sched_wfD(1) [OF wf]] by (simp_all add: k0_def)
  have k0: "threads k0 = threads k" "tlists k0 = tlists k" "ev_set (events k0 e) = S0" "rt_current_thread k0 = Some c"
    "obj_flag (OEvent e) k0 = obj_flag (OEvent e) k" "rt_scheduler_lock_nest k0 = rt_scheduler_lock_nest k"
    using cur by (simp_all add: k0_def S0_def)
  note L = event_send_loop_spec [OF w0(1,3,2), where need = False, folded k1_def, unfolded k0]
  have w1: "sched_wf k1" "rt_current_thread k1 = Some c" using L by blast+
  note sch = rt_schedule_wf [OF w1] rt_schedule_current [OF w1] rt_schedule_threads [OF w1] rt_schedule_wait [OF w1 wait_list_LEvent]
  have f: "threads k' = threads k1" "tlists k' (LEvent e) = tlists k1 (LEvent e)" "events k' = events k1" "objects k' = objects k1"
    unfolding k' using sch by (simp_all add: frame_simps)
  show "sched_wf k'" "\<exists>c. rt_current_thread k' = Some c" unfolding k' using sch w1 by auto
  show "obj_flag (OEvent e) k' = obj_flag (OEvent e) k" "ev_set (events k' e) AND S0 = ev_set (events k' e)"
    unfolding f using L k0(5) by simp_all
  show "threads k' t = threads k t \<and> t \<notin> set (tlists k' (LEvent e))" if "t \<notin> set ?ts" for t
    unfolding f using L that by blast
  show "\<exists>S. ev_set (events k' e) AND S = ev_set (events k' e) \<and> S AND S0 = S \<and>
       (if th_satisfied (threads k t) S
        then t \<notin> set (tlists k' (LEvent e)) \<and>
             threads k' t = (threads k t)\<lparr>th_event_set := granted (threads k t) S, th_stat := RT_THREAD_READY\<rparr> \<and>
             (rt_scheduler_lock_nest k = 0 \<longrightarrow> prio k (self k') \<le> prio k t)
        else t \<in> set (tlists k' (LEvent e)) \<and> threads k' t = threads k t)" if t: "t \<in> set ?ts" for t
  proof -
    have pr: "prio k1 u = prio k u" for u using L by (cases "u \<in> set ?ts") (metis (no_types, lifting) rt_thread.ext_inject rt_thread.surjective rt_thread.update_convs(2) rt_thread.update_convs(6))+
    have run: "prio k (self k') \<le> prio k t"
      if "rt_scheduler_lock_nest k = 0" "t \<notin> set (tlists k1 (LEvent e))" "stat k1 t = RT_THREAD_READY"
    proof -
      have "k1 \<noteq> k0" using that(2) t k0(2) by auto
      then have "snd (event_send_loop e ?ts k0 False)" using event_send_loop_need(2) [of e ?ts k0 False] k1_def by blast
      moreover have "rt_scheduler_lock_nest k1 = 0" using L that(1) by simp
      ultimately show ?thesis using rt_schedule_highest(2) [OF w1, of t] that(3) pr by (simp add: k')
    qed
    from L t obtain S where "ev_set (events k1 e) AND S = ev_set (events k1 e)" "S AND S0 = S"
       "if th_satisfied (threads k t) S
        then t \<notin> set (tlists k1 (LEvent e)) \<and>
             threads k1 t = (threads k t)\<lparr>th_event_set := granted (threads k t) S, th_stat := RT_THREAD_READY\<rparr>
        else t \<in> set (tlists k1 (LEvent e)) \<and> threads k1 t = threads k t" by blast
    then show ?thesis unfolding f using run by (intro exI [of _ S]) (auto split: if_splits)
  qed
qed

lemma event_send_wf:
  assumes "sched_wf k" "rt_current_thread k = Some c" "s \<noteq> 0" "obj_flag (OEvent e) k \<in> {0, 1}"
  shows "event_wf e (snd (rt_event_send e s k))"
proof -
  let ?k' = "snd (rt_event_send e s k)"
  note p = rt_event_send_spec [OF assms(1-3), where e = e]
  have "\<not> th_satisfied (threads ?k' t) (ev_set (events ?k' e))" if t: "t \<in> set (tlists ?k' (LEvent e))" for t
  proof -
    have "t \<in> set (tlists k (LEvent e))" using p(5) t by blast
    then obtain S where "ev_set (events ?k' e) AND S = ev_set (events ?k' e)" "\<not> th_satisfied (threads k t) S" "threads ?k' t = threads k t"
      using p(6) [of t] t by (metis (no_types, lifting))
    then show ?thesis using satisfied_mono [of _ _ "ev_set (events ?k' e)" S] by metis
  qed
  then show ?thesis using p(3) assms(4) by (simp add: event_wf_def)
qed

text \<open>Receiving: the caller takes the flags, is refused, or waits.\<close>

lemma rt_event_recv_eq:
  assumes "rt_current_thread k = Some t" "req \<noteq> 0"
  shows "rt_event_recv e req opt time k =
    (let k0 = upd_thread t (\<lambda>th. th\<lparr>th_error := RT_EOK\<rparr>) k; S = ev_set (events k e)
     in if satisfied opt req S
        then (Ret (RT_EOK, Some (S AND req)),
              if opt AND RT_EVENT_FLAG_CLEAR \<noteq> 0 then upd_event e (\<lambda>s. s AND NOT req) k0 else k0)
        else if time = 0
        then (Ret (- RT_ETIMEOUT, None), upd_thread t (\<lambda>th. th\<lparr>th_error := - RT_ETIMEOUT\<rparr>) k0)
        else let k' = wait_on (LEvent e) (obj_flag (OEvent e) k) time t
                        (upd_thread t (\<lambda>th. th\<lparr>th_event_set := req, th_event_info := opt\<rparr>) k0)
             in if rt_current_thread k' = Some t then rt_event_recv_resume t k' else (Blocked, k'))"
  using assms by (simp add: rt_event_recv_def satisfied_def Let_def split_def block_then_def wait_on_def and.commute)

lemma rt_event_recv_wait:
  fixes time :: int and e :: nat and req :: u32 and opt :: u8
  assumes wf: "sched_wf k" and cur: "rt_current_thread k = Some t" and st: "stat k t = RT_THREAD_READY"
    and flag: "obj_flag (OEvent e) k \<in> {0, 1}"
  defines "k' \<equiv> wait_on (LEvent e) (obj_flag (OEvent e) k) time t
    (upd_thread t (\<lambda>th. th\<lparr>th_event_set := req, th_event_info := opt\<rparr>) (upd_thread t (\<lambda>th. th\<lparr>th_error := RT_EOK\<rparr>) k))"
  shows "sched_wf k'" "\<exists>c. rt_current_thread k' = Some c" "events k' = events k"
    "threads k' = (threads k)(t := (threads k t)\<lparr>th_error := RT_EOK, th_event_set := req, th_event_info := opt,
       th_stat := RT_THREAD_SUSPEND\<rparr>)"
    "tlists k' (LEvent e) = enqueue (obj_flag (OEvent e) k) (prio k) t (tlists k (LEvent e))"
    "obj_flag (OEvent x) k' = obj_flag (OEvent x) k"
    "rt_scheduler_lock_nest k = 0 \<Longrightarrow> stat k u = RT_THREAD_READY \<Longrightarrow> u \<noteq> t \<Longrightarrow> rt_current_thread k' \<noteq> Some t"
proof -
  let ?k0 = "upd_thread t (\<lambda>th. th\<lparr>th_event_set := req, th_event_info := opt\<rparr>) (upd_thread t (\<lambda>th. th\<lparr>th_error := RT_EOK\<rparr>) k)"
  have w0: "sched_wf ?k0" "rt_current_thread ?k0 = Some t" "stat ?k0 t = RT_THREAD_READY"
    using wf cur st by (simp_all add: sched_wf_ok sched_ok_upd_other)
  note w = wait_on_spec [OF w0 wait_list_LEvent [of e] flag, where time = time, folded k'_def]
  show "sched_wf k'" "\<exists>c. rt_current_thread k' = Some c" by (fact w)+
  show "events k' = events k" using w(8) by simp
  show "threads k' = (threads k)(t := (threads k t)\<lparr>th_error := RT_EOK, th_event_set := req, th_event_info := opt,
       th_stat := RT_THREAD_SUSPEND\<rparr>)" using w(3) by simp
  have "prio ?k0 = prio k" by auto
  then show "tlists k' (LEvent e) = enqueue (obj_flag (OEvent e) k) (prio k) t (tlists k (LEvent e))" using w(4) by simp
  show "obj_flag (OEvent x) k' = obj_flag (OEvent x) k" by (simp add: k'_def objects_wait_on)
  show "rt_current_thread k' \<noteq> Some t" if "rt_scheduler_lock_nest k = 0" "stat k u = RT_THREAD_READY" "u \<noteq> t"
    using w(11) [of u] that by simp
qed

lemma event_recv_keeps:
  assumes "sched_wf k" "event_wf e k" "rt_current_thread k = Some t" "stat k t = RT_THREAD_READY"
  shows "sched_wf (snd (rt_event_recv e req opt time k))" "event_wf e (snd (rt_event_recv e req opt time k))"
    "\<exists>c. rt_current_thread (snd (rt_event_recv e req opt time k)) = Some c"
proof -
  let ?S = "ev_set (events k e)" and ?k' = "snd (rt_event_recv e req opt time k)"
  have notin: "t \<notin> set (tlists k (LEvent e))" using sched_wfD(6) [OF assms(1), of "LEvent e" t] assms(4) by auto
  have flag: "obj_flag (OEvent e) k \<in> {0, 1}" using assms(2) by (simp add: event_wf_def)
  have less: "\<not> satisfied i q (?S AND NOT req)" if "\<not> satisfied i q ?S" for i q
    using that satisfied_mono [of i q "?S AND NOT req" ?S] by (auto simp: and.assoc and.commute and.left_commute)
  have s: "snd (rt_event_recv_resume u x) = x" for u x by (simp add: rt_event_recv_resume_def)
  note w = rt_event_recv_wait [OF assms(1,3,4) flag, where time = time and req = req and opt = opt]
  have "sched_wf ?k' \<and> event_wf e ?k' \<and> (\<exists>c. rt_current_thread ?k' = Some c)"
  proof (cases "req = 0")
    case True
    then show ?thesis using assms by (simp add: rt_event_recv_def)
  next
    case False
    consider (now) "satisfied opt req ?S" | (poll) "\<not> satisfied opt req ?S" "time = 0"
      | (wait) "\<not> satisfied opt req ?S" "time \<noteq> 0" by blast
    then show ?thesis
    proof cases
      case now
      then show ?thesis using assms False less notin
        by (auto simp: rt_event_recv_eq Let_def event_wf_def sched_wf_upd_error)
    next
      case poll
      then show ?thesis using assms False notin by (auto simp: rt_event_recv_eq Let_def event_wf_def sched_wf_upd_error)
    next
      case wait
      show ?thesis using wait False assms(2) w notin s
        by (auto simp: rt_event_recv_eq [OF assms(3)] Let_def split_def event_wf_def)
    qed
  qed
  then show "sched_wf ?k'" "event_wf e ?k'" "\<exists>c. rt_current_thread ?k' = Some c" by blast+
qed

section \<open>Properties\<close>

text \<open>
  C12. No wake-up is lost: after \<open>rt_event_send\<close> no thread that still waits on the event is satisfied by
  the flags that are left, whatever the others consumed (\<open>event_wf\<close> is kept). A waiting thread either
  stays as it was, or it was satisfied by flags \<open>S\<close> available at its turn, is ready, will see
  exactly its share of \<open>S\<close> as result of \<open>rt_event_recv\<close>, and, unless the scheduler is locked, the
  thread that runs next is at least as urgent. Threads that did not wait do not change.
\<close>

theorem rt_event_send_no_lost_wakeup:
  assumes "sched_wf k" "rt_current_thread k = Some c" "s \<noteq> 0" "obj_flag (OEvent e) k \<in> {0, 1}"
  shows "let (r, k') = rt_event_send e s k in
    r = RT_EOK \<and> sched_wf k' \<and> event_wf e k' \<and>
    (\<forall>t. if t \<in> set (tlists k (LEvent e)) \<and> t \<notin> set (tlists k' (LEvent e))
         then \<exists>S. S AND (ev_set (events k e) OR s) = S \<and> th_satisfied (threads k t) S \<and>
              stat k' t = RT_THREAD_READY \<and>
              (th_error (threads k t) = RT_EOK \<longrightarrow>
                 fst (rt_event_recv_resume t k') = Ret (RT_EOK, Some (th_event_set (threads k t) AND S))) \<and>
              (rt_scheduler_lock_nest k = 0 \<longrightarrow> prio k (self k') \<le> prio k t)
         else threads k' t = threads k t)"
proof -
  define k' where "k' = snd (rt_event_send e s k)"
  let ?W = "set (tlists k (LEvent e))" and ?W' = "set (tlists k' (LEvent e))" and ?S' = "ev_set (events k' e)"
  have r: "rt_event_send e s k = (RT_EOK, k')"
    using assms(3) by (simp add: k'_def rt_event_send_def Let_def split_def)
  note p = rt_event_send_spec [OF assms(1-3), where e = e, folded k'_def]
  have stay: "threads k' t = threads k t \<and> (t \<in> ?W' \<longrightarrow> t \<in> ?W \<and> \<not> th_satisfied (threads k t) ?S')"
    if h: "\<not> (t \<in> ?W \<and> t \<notin> ?W')" for t
  proof (cases "t \<in> ?W")
    case True
    then obtain S where "?S' AND S = ?S'" "\<not> th_satisfied (threads k t) S" "threads k' t = threads k t"
      using p(6) [of t] h by (metis (no_types, lifting))
    then show ?thesis using True satisfied_mono [of _ _ ?S' S] by blast
  qed (use p(5) in blast)
  have woken: "\<exists>S. S AND (ev_set (events k e) OR s) = S \<and> th_satisfied (threads k t) S \<and> stat k' t = RT_THREAD_READY \<and>
      (th_error (threads k t) = RT_EOK \<longrightarrow>
         fst (rt_event_recv_resume t k') = Ret (RT_EOK, Some (th_event_set (threads k t) AND S))) \<and>
      (rt_scheduler_lock_nest k = 0 \<longrightarrow> prio k (self k') \<le> prio k t)" if t: "t \<in> ?W" "t \<notin> ?W'" for t
  proof -
    obtain S where "S AND (ev_set (events k e) OR s) = S" "th_satisfied (threads k t) S"
      "threads k' t = (threads k t)\<lparr>th_event_set := granted (threads k t) S, th_stat := RT_THREAD_READY\<rparr>"
      "rt_scheduler_lock_nest k = 0 \<longrightarrow> prio k (self k') \<le> prio k t"
      using p(6) [OF t(1)] t(2) by (metis (no_types, lifting))
    then show ?thesis by (intro exI [of _ S]) (simp add: rt_event_recv_resume_def granted_def)
  qed
  have "event_wf e k'" unfolding event_wf_def using p(3) assms(4) stay by (metis (no_types, lifting))
  then show ?thesis using r p(1) stay woken by auto
qed

text \<open>A kernel in which thread 3 runs and thread 2 waits for all of the flags 5.\<close>

definition demo_event :: kernel where
  "demo_event = upd_thread 2 (\<lambda>th. th\<lparr>th_event_set := 5, th_event_info := 5\<rparr>) (demo_running 3 [5] (LEvent 0) [2])"

lemma demo_event:
  "sched_wf demo_event" "event_wf 0 demo_event" "rt_current_thread demo_event = Some 3"
  "tlists demo_event (LEvent 0) = [2]" "ev_set (events demo_event 0) = 0" "stat demo_event 3 = RT_THREAD_READY"
  "obj_flag (OEvent 0) demo_event \<in> {0, 1}" "rt_scheduler_lock_nest demo_event = 0" "stat demo_event 5 = RT_THREAD_READY"
  "obj_flag (OEvent 0) demo_event = 0"
proof -
  have "sched_wf (demo_running 3 [5] (LEvent 0) [2])" by (rule demo_running_wf) simp_all
  then show "sched_wf demo_event" by (simp add: demo_event_def sched_wf_ok sched_ok_upd_other)
qed (simp_all add: event_wf_def satisfied_def demo_event_def demo_running_def demo_kernel_def demo_thread_def)

theorem rt_event_send_no_lost_wakeup_witness:
  "let k' = snd (rt_event_send 0 7 demo_event) in sched_wf k' \<and> event_wf 0 k' \<and> threads k' 8 = threads demo_event 8"
  using rt_event_send_no_lost_wakeup [OF demo_event(1,3), of 7 0] demo_event(4,7) by (auto simp: Let_def split_def dest: spec [of _ 8])

text \<open>
  \<open>rt_event_recv\<close> on every branch. A request for no flags is an error. A request the flags
  satisfy returns at once with the flags asked for that are set, and takes away exactly those it
  asked for if it clears; other waiting threads cannot become satisfied by that. Otherwise a caller
  that does not want to wait gets \<open>-RT_ETIMEOUT\<close> and leaves the flags alone, and any other is queued
  with its request, suspended, and gives the processor to a ready thread.
\<close>

theorem rt_event_recv_branches:
  assumes "sched_wf k" "event_wf e k" "rt_current_thread k = Some t" "stat k t = RT_THREAD_READY"
  shows "let (r, k') = rt_event_recv e req opt time k; S = ev_set (events k e) in
    sched_wf k' \<and> event_wf e k' \<and>
    (if req = 0 then r = Ret (- RT_ERROR, None) \<and> k' = k
     else if satisfied opt req S
     then r = Ret (RT_EOK, Some (S AND req)) \<and> tlists k' = tlists k \<and>
          ev_set (events k' e) = (if opt AND RT_EVENT_FLAG_CLEAR \<noteq> 0 then S AND NOT req else S)
     else if time = 0 then r = Ret (- RT_ETIMEOUT, None) \<and> events k' = events k \<and> tlists k' = tlists k
     else events k' = events k \<and> stat k' t = RT_THREAD_SUSPEND \<and>
          th_event_set (threads k' t) = req \<and> th_event_info (threads k' t) = opt \<and>
          tlists k' (LEvent e) = enqueue (obj_flag (OEvent e) k) (prio k) t (tlists k (LEvent e)) \<and>
          (rt_scheduler_lock_nest k = 0 \<and> (\<exists>u. u \<noteq> t \<and> stat k u = RT_THREAD_READY) \<longrightarrow> r = Blocked))"
proof (cases "req = 0")
  case True
  then show ?thesis using assms by (simp add: rt_event_recv_def)
next
  case False
  let ?S = "ev_set (events k e)"
  have notin: "t \<notin> set (tlists k (LEvent e))" using sched_wfD(6) [OF assms(1), of "LEvent e" t] assms(4) by auto
  have flag: "obj_flag (OEvent e) k \<in> {0, 1}" using assms(2) by (simp add: event_wf_def)
  note wf = sched_wf_upd_error
  have less: "\<not> satisfied i q (?S AND NOT req)" if "\<not> satisfied i q ?S" for i q
    using that satisfied_mono [of i q "?S AND NOT req" ?S] by (auto simp: and.assoc and.commute and.left_commute)
  consider (now) "satisfied opt req ?S" | (poll) "\<not> satisfied opt req ?S" "time = 0"
    | (wait) "\<not> satisfied opt req ?S" "time \<noteq> 0" by blast
  then show ?thesis
  proof cases
    case now
    then show ?thesis using assms False less notin
      by (auto simp: rt_event_recv_eq Let_def event_wf_def wf)
  next
    case poll
    then show ?thesis using assms False notin by (auto simp: rt_event_recv_eq Let_def event_wf_def wf)
  next
    case wait
    note w = rt_event_recv_wait [OF assms(1,3,4) flag, where time = time and req = req and opt = opt]
    have s: "snd (rt_event_recv_resume u x) = x" for u x by (simp add: rt_event_recv_resume_def)
    show ?thesis using wait False assms(2) w notin s
      by (auto simp: rt_event_recv_eq [OF assms(3)] Let_def split_def event_wf_def)
  qed
qed

theorem rt_event_recv_branches_witness:
  "let (r, k') = rt_event_recv 0 6 2 10 demo_event
   in r = Blocked \<and> tlists k' (LEvent 0) = [2, 3] \<and> event_wf 0 k'"
proof -
  have "\<exists>u. u \<noteq> 3 \<and> stat demo_event u = RT_THREAD_READY" using demo_event(9) by (intro exI [of _ 5]) simp
  moreover have "\<not> satisfied 2 6 0" by (simp add: satisfied_def)
  ultimately show ?thesis
    using rt_event_recv_branches [OF demo_event(1,2,3,6), of 6 2 10] demo_event(4,5,8,9,10)
    by (auto simp: Let_def split_def enqueue_def)
qed

end
