(* ===== verification/Ipc_Mailbox.thy ===== *)
theory Ipc_Mailbox
  imports Ipc_Sem Bounded_Fifo
begin

text \<open>
  Mailboxes (\<open>src/ipc.c\<close>): a ring of 32-bit mails with a list of waiting receivers and one of waiting
  senders. A call that waits goes round its loop each time the thread is resumed; the loop is
  \<open>mb_send_loop\<close> and \<open>mb_recv_loop\<close>, with the C function's local variables \<open>timeout\<close> and \<open>tick_delta\<close> as
  arguments, and \<open>..._resume\<close> is what a resumed thread does. \<open>None\<close> stands for a loop that never ends
  (waiting with the scheduler locked).
\<close>

section \<open>Operations\<close>

definition upd_mb :: "nat \<Rightarrow> (rt_mailbox \<Rightarrow> rt_mailbox) \<Rightarrow> kernel \<Rightarrow> kernel" where
  "upd_mb n g k = k\<lparr>mailboxes := (mailboxes k)(n := g (mailboxes k n))\<rparr>"

definition rt_mb_init :: "nat \<Rightarrow> string \<Rightarrow> u32 list \<Rightarrow> u32 \<Rightarrow> u8 \<Rightarrow> kernel \<Rightarrow> err \<times> kernel" where
  "rt_mb_init n name msgpool sz flag k =
     (let k = rt_object_init (OMailBox n) RT_Object_Class_MailBox name k;
          k = set_obj_flag (OMailBox n) flag k;
          k = rt_ipc_object_init (LMailBox n) k;
          k = upd_mb n (\<lambda>_. \<lparr>mb_msg_pool = msgpool, mb_size = ucast sz, mb_entry = 0,
                             mb_in_offset = 0, mb_out_offset = 0\<rparr>) k
      in (RT_EOK, k\<lparr>tlists := (tlists k)(LMbSender n := [])\<rparr>))"

definition rt_mb_detach :: "nat \<Rightarrow> kernel \<Rightarrow> (err \<times> kernel) option" where
  "rt_mb_detach n k =
     map_option (\<lambda>k. (RT_EOK, rt_object_detach (OMailBox n) k))
       (Option.bind (rt_ipc_list_resume_all (LMailBox n) k) (rt_ipc_list_resume_all (LMbSender n)))"

text \<open>\<open>mem\<close> is the struct \<open>rt_object_allocate\<close> gets from the heap, \<open>pool\<close> the block \<open>RT_KERNEL_MALLOC\<close> returns.\<close>

definition rt_mb_create ::
  "string \<Rightarrow> u32 \<Rightarrow> u8 \<Rightarrow> nat option \<Rightarrow> u32 list option \<Rightarrow> kernel \<Rightarrow> nat option \<times> kernel" where
  "rt_mb_create name sz flag mem pool k =
     (case mem of
        None \<Rightarrow> (None, k)
      | Some n \<Rightarrow>
          let k = snd (rt_object_allocate RT_Object_Class_MailBox name (Some (OMailBox n)) k);
              k = set_obj_flag (OMailBox n) flag k;
              k = rt_ipc_object_init (LMailBox n) k;
              k = upd_mb n (\<lambda>m. m\<lparr>mb_size := ucast sz\<rparr>) k
          in case pool of
               None \<Rightarrow> (None, rt_object_delete (OMailBox n) k)
             | Some p \<Rightarrow>
                 let k = upd_mb n (\<lambda>m. m\<lparr>mb_msg_pool := p, mb_entry := 0, mb_in_offset := 0, mb_out_offset := 0\<rparr>) k
                 in (Some n, k\<lparr>tlists := (tlists k)(LMbSender n := [])\<rparr>))"

definition rt_mb_delete :: "nat \<Rightarrow> kernel \<Rightarrow> (err \<times> kernel) option" where
  "rt_mb_delete n k =
     map_option (\<lambda>k. (RT_EOK, rt_object_delete (OMailBox n) k))
       (Option.bind (rt_ipc_list_resume_all (LMailBox n) k) (rt_ipc_list_resume_all (LMbSender n)))"

text \<open>Storing and fetching one mail.\<close>

definition mb_put :: "u32 \<Rightarrow> rt_mailbox \<Rightarrow> rt_mailbox" where
  "mb_put v m =
     m\<lparr>mb_msg_pool := (mb_msg_pool m)[unat (mb_in_offset m) := v],
       mb_in_offset := (if mb_in_offset m + 1 \<ge> mb_size m then 0 else mb_in_offset m + 1),
       mb_entry := mb_entry m + 1\<rparr>"

definition mb_get :: "rt_mailbox \<Rightarrow> u32 \<times> rt_mailbox" where
  "mb_get m =
     (mb_msg_pool m ! unat (mb_out_offset m),
      m\<lparr>mb_out_offset := (if mb_out_offset m + 1 \<ge> mb_size m then 0 else mb_out_offset m + 1),
        mb_entry := mb_entry m - 1\<rparr>)"

text \<open>\<open>timeout -= tick_delta; if (timeout < 0) timeout = 0\<close>: the subtraction is one of unsigned 32-bit numbers.\<close>

definition remaining :: "int \<Rightarrow> u32 \<Rightarrow> int" where
  "remaining timeout tick_delta =
     (let timeout = sint (word_of_int timeout - tick_delta) in if timeout < 0 then 0 else timeout)"

definition mb_send_done :: "nat \<Rightarrow> u32 \<Rightarrow> kernel \<Rightarrow> err outcome \<times> kernel" where
  "mb_send_done n v k =
     (let k = upd_mb n (mb_put v) k
      in (Ret RT_EOK, if \<not> tlist_isempty (LMailBox n) k then rt_schedule (snd (rt_ipc_list_resume (LMailBox n) k)) else k))"

partial_function (option) mb_send_loop ::
  "nat \<Rightarrow> u32 \<Rightarrow> int \<Rightarrow> u32 \<Rightarrow> tid \<Rightarrow> kernel \<Rightarrow> (err outcome \<times> kernel) option" where
  "mb_send_loop n v timeout tick_delta t k =
     (if mb_entry (mailboxes k n) = mb_size (mailboxes k n) then
        let k = upd_thread t (\<lambda>th. th\<lparr>th_error := RT_EOK\<rparr>) k
        in if timeout = 0 then Some (Ret (- RT_EFULL), k)
           else
             let k = snd (rt_ipc_list_suspend (LMbSender n) t (obj_flag (OMailBox n) k) k);
                 tick_delta = (if timeout > 0 then rt_tick k else tick_delta);
                 k = rt_schedule (start_timeout t timeout k)
             in if rt_current_thread k \<noteq> Some t then Some (Blocked, k)
                else if th_error (threads k t) \<noteq> RT_EOK then Some (Ret (th_error (threads k t)), k)
                else if timeout > 0
                then mb_send_loop n v (remaining timeout (rt_tick k - tick_delta)) (rt_tick k - tick_delta) t k
                else mb_send_loop n v timeout tick_delta t k
      else Some (mb_send_done n v k))"

definition rt_mb_send_wait :: "nat \<Rightarrow> u32 \<Rightarrow> int \<Rightarrow> kernel \<Rightarrow> (err outcome \<times> kernel) option" where
  "rt_mb_send_wait n v timeout k =
     (if mb_entry (mailboxes k n) = mb_size (mailboxes k n) \<and> timeout = 0 then Some (Ret (- RT_EFULL), k)
      else mb_send_loop n v timeout 0 (self k) k)"

definition rt_mb_send_wait_resume ::
  "nat \<Rightarrow> u32 \<Rightarrow> int \<Rightarrow> u32 \<Rightarrow> tid \<Rightarrow> kernel \<Rightarrow> (err outcome \<times> kernel) option" where
  "rt_mb_send_wait_resume n v timeout tick_delta t k =
     (if th_error (threads k t) \<noteq> RT_EOK then Some (Ret (th_error (threads k t)), k)
      else if timeout > 0
      then mb_send_loop n v (remaining timeout (rt_tick k - tick_delta)) (rt_tick k - tick_delta) t k
      else mb_send_loop n v timeout tick_delta t k)"

definition rt_mb_send :: "nat \<Rightarrow> u32 \<Rightarrow> kernel \<Rightarrow> (err outcome \<times> kernel) option" where
  "rt_mb_send n v k = rt_mb_send_wait n v 0 k"

text \<open>Receiving: the outcome carries the error and the word stored through \<open>value\<close>, if any.\<close>

definition mb_recv_done :: "nat \<Rightarrow> kernel \<Rightarrow> (err \<times> u32 option) outcome \<times> kernel" where
  "mb_recv_done n k =
     (let (v, m) = mb_get (mailboxes k n); k = upd_mb n (\<lambda>_. m) k
      in (Ret (RT_EOK, Some v),
          if \<not> tlist_isempty (LMbSender n) k then rt_schedule (snd (rt_ipc_list_resume (LMbSender n) k)) else k))"

partial_function (option) mb_recv_loop ::
  "nat \<Rightarrow> int \<Rightarrow> u32 \<Rightarrow> tid \<Rightarrow> kernel \<Rightarrow> ((err \<times> u32 option) outcome \<times> kernel) option" where
  "mb_recv_loop n timeout tick_delta t k =
     (if mb_entry (mailboxes k n) = 0 then
        let k = upd_thread t (\<lambda>th. th\<lparr>th_error := RT_EOK\<rparr>) k
        in if timeout = 0
           then Some (Ret (- RT_ETIMEOUT, None), upd_thread t (\<lambda>th. th\<lparr>th_error := - RT_ETIMEOUT\<rparr>) k)
           else
             let k = snd (rt_ipc_list_suspend (LMailBox n) t (obj_flag (OMailBox n) k) k);
                 tick_delta = (if timeout > 0 then rt_tick k else tick_delta);
                 k = rt_schedule (start_timeout t timeout k)
             in if rt_current_thread k \<noteq> Some t then Some (Blocked, k)
                else if th_error (threads k t) \<noteq> RT_EOK then Some (Ret (th_error (threads k t), None), k)
                else if timeout > 0
                then mb_recv_loop n (remaining timeout (rt_tick k - tick_delta)) (rt_tick k - tick_delta) t k
                else mb_recv_loop n timeout tick_delta t k
      else Some (mb_recv_done n k))"

definition rt_mb_recv :: "nat \<Rightarrow> int \<Rightarrow> kernel \<Rightarrow> ((err \<times> u32 option) outcome \<times> kernel) option" where
  "rt_mb_recv n timeout k =
     (if mb_entry (mailboxes k n) = 0 \<and> timeout = 0 then Some (Ret (- RT_ETIMEOUT, None), k)
      else mb_recv_loop n timeout 0 (self k) k)"

definition rt_mb_recv_resume ::
  "nat \<Rightarrow> int \<Rightarrow> u32 \<Rightarrow> tid \<Rightarrow> kernel \<Rightarrow> ((err \<times> u32 option) outcome \<times> kernel) option" where
  "rt_mb_recv_resume n timeout tick_delta t k =
     (if th_error (threads k t) \<noteq> RT_EOK then Some (Ret (th_error (threads k t), None), k)
      else if timeout > 0
      then mb_recv_loop n (remaining timeout (rt_tick k - tick_delta)) (rt_tick k - tick_delta) t k
      else mb_recv_loop n timeout tick_delta t k)"

definition rt_mb_control :: "nat \<Rightarrow> int \<Rightarrow> kernel \<Rightarrow> (err \<times> kernel) option" where
  "rt_mb_control n cmd k =
     (if cmd = 1
      then map_option (\<lambda>k. (RT_EOK, rt_schedule (upd_mb n (\<lambda>m. m\<lparr>mb_entry := 0, mb_in_offset := 0, mb_out_offset := 0\<rparr>) k)))
             (Option.bind (rt_ipc_list_resume_all (LMailBox n) k) (rt_ipc_list_resume_all (LMbSender n)))
      else Some (- RT_ERROR, k))"

section \<open>The ring of mails\<close>

definition mb_ok :: "rt_mailbox \<Rightarrow> bool" where
  "mb_ok m \<longleftrightarrow> length (mb_msg_pool m) = unat (mb_size m) \<and> mb_entry m \<le> mb_size m \<and> mb_out_offset m < mb_size m \<and>
     unat (mb_in_offset m) = (unat (mb_out_offset m) + unat (mb_entry m)) mod unat (mb_size m)"

definition mb_contents :: "rt_mailbox \<Rightarrow> u32 list" where
  "mb_contents m = cyc (mb_msg_pool m) (unat (mb_out_offset m)) (unat (mb_entry m))"

lemma length_mb_contents [simp]: "length (mb_contents m) = unat (mb_entry m)"
  by (simp add: mb_contents_def)

lemma mb_contents_empty: "mb_contents m = [] \<longleftrightarrow> mb_entry m = 0"
  by (metis length_0_conv length_mb_contents unsigned_eq_0_iff)

lemma offset_step:
  fixes i s :: u16
  assumes "i < s"
  shows "unat (if i + 1 \<ge> s then 0 else i + 1) = Suc (unat i) mod unat s"
  using unat_inc [OF assms] wrap_mod [of "unat i" "unat s"] assms
  by (auto simp: word_le_nat_alt word_less_nat_alt)

lemma mb_put_spec:
  assumes "mb_ok m" "mb_entry m \<noteq> mb_size m"
  shows "mb_ok (mb_put v m)" "mb_contents (mb_put v m) = mb_contents m @ [v]" "mb_size (mb_put v m) = mb_size m"
proof -
  have d: "length (mb_msg_pool m) = unat (mb_size m)" "mb_entry m < mb_size m" "mb_out_offset m < mb_size m"
    "unat (mb_in_offset m) = (unat (mb_out_offset m) + unat (mb_entry m)) mod unat (mb_size m)"
    using assms by (auto simp: mb_ok_def)
  have e: "unat (mb_entry m + 1) = Suc (unat (mb_entry m))" by (rule unat_inc [OF d(2)])
  have n: "unat (mb_entry m) < unat (mb_size m)" using d(2) by (simp add: word_less_nat_alt)
  have i: "mb_in_offset m < mb_size m" using d(4) n by (simp add: word_less_nat_alt)
  have "mb_entry m + 1 \<le> mb_size m" using e n by (simp add: word_le_nat_alt)
  then show "mb_ok (mb_put v m)" using d e offset_step [OF i] by (simp add: mb_ok_def mb_put_def mod_Suc_eq)
  show "mb_contents (mb_put v m) = mb_contents m @ [v]"
    using cyc_put [of "unat (mb_entry m)" "mb_msg_pool m" "unat (mb_out_offset m)" v] d(1,4) e n
    by (simp add: mb_contents_def mb_put_def)
qed (simp add: mb_put_def)

lemma mb_get_spec:
  assumes "mb_ok m" "mb_entry m \<noteq> 0"
  shows "mb_ok (snd (mb_get m))" "mb_contents m = fst (mb_get m) # mb_contents (snd (mb_get m))"
    "mb_size (snd (mb_get m)) = mb_size m"
proof -
  have d: "length (mb_msg_pool m) = unat (mb_size m)" "mb_entry m \<le> mb_size m" "mb_out_offset m < mb_size m"
    "unat (mb_in_offset m) = (unat (mb_out_offset m) + unat (mb_entry m)) mod unat (mb_size m)"
    using assms by (auto simp: mb_ok_def)
  have e: "unat (mb_entry m) = Suc (unat (mb_entry m - 1))"
    using unat_dec [OF assms(2)] assms(2) by (simp add: unat_gt_0)
  have o: "unat (mb_out_offset m) < unat (mb_size m)" using d(3) by (simp add: word_less_nat_alt)
  have "mb_entry m - 1 \<le> mb_size m" using e d(2) by (simp add: word_le_nat_alt)
  then show "mb_ok (snd (mb_get m))" using d e o offset_step [OF d(3)]
    by (simp add: mb_ok_def mb_get_def word_less_nat_alt mod_simps)
  have "cyc (mb_msg_pool m) (Suc (unat (mb_out_offset m)) mod unat (mb_size m)) x = cyc (mb_msg_pool m) (Suc (unat (mb_out_offset m))) x"
    for x using cyc_mod [of "mb_msg_pool m"] d(1) by metis
  then show "mb_contents m = fst (mb_get m) # mb_contents (snd (mb_get m))"
    using offset_step [OF d(3)] d(1) o by (simp add: mb_contents_def mb_get_def e cyc_get)
qed (simp add: mb_get_def)

text \<open>A full mailbox refuses, an empty one delivers nothing: the ring is a bounded FIFO for one mail at a time.\<close>

definition mb_offer :: "rt_mailbox \<Rightarrow> u32 list \<Rightarrow> nat \<times> rt_mailbox" where
  "mb_offer m vs = (if mb_entry m = mb_size m then (0, m) else (1, mb_put (hd vs) m))"

definition mb_fetch :: "rt_mailbox \<Rightarrow> nat \<Rightarrow> u32 list \<times> rt_mailbox" where
  "mb_fetch m n = (if mb_entry m = 0 then ([], m) else let (v, m') = mb_get m in ([v], m'))"

interpretation mbq: bounded_fifo mb_ok mb_contents "\<lambda>m. unat (mb_size m)" "\<lambda>n. n = 1" mb_offer mb_fetch
proof
  fix m m' :: rt_mailbox and vs n
  assume ok: "mb_ok m" and l: "length vs = 1" and p: "mb_offer m vs = (n, m')"
  then obtain v where vs: "vs = [v]" by (auto simp: length_Suc_conv)
  have le: "unat (mb_entry m) \<le> unat (mb_size m)" using ok by (simp add: mb_ok_def word_le_nat_alt)
  show "n = min (length vs) (unat (mb_size m) - length (mb_contents m)) \<and>
      mb_contents m' = mb_contents m @ take n vs \<and> unat (mb_size m') = unat (mb_size m) \<and> mb_ok m'"
  proof (cases "mb_entry m = mb_size m")
    case True
    then show ?thesis using p ok by (auto simp: mb_offer_def)
  next
    case False
    then have "unat (mb_entry m) < unat (mb_size m)" using le by (metis order_le_less word_unat_eq_iff)
    then show ?thesis using p vs mb_put_spec [OF ok False, of v] False by (auto simp: mb_offer_def)
  qed
next
  fix m m' :: rt_mailbox and vs and n :: nat
  assume "mb_ok m" "n = 1" "mb_fetch m n = (vs, m')"
  then show "vs = take n (mb_contents m) \<and> mb_contents m' = drop n (mb_contents m) \<and>
      unat (mb_size m') = unat (mb_size m) \<and> mb_ok m'"
    using mb_get_spec [of m] by (cases "mb_entry m = 0") (auto simp: mb_fetch_def split_def Let_def mb_contents_empty [THEN iffD2])
next
  show "length (mb_contents m) \<le> unat (mb_size m)" if "mb_ok m" for m
    using that by (simp add: mb_ok_def word_le_nat_alt)
qed

section \<open>Waking and waiting\<close>

text \<open>\<open>if (!rt_list_isempty(l)) { rt_ipc_list_resume(l); rt_schedule(); }\<close>\<close>

definition wake_first :: "lid \<Rightarrow> kernel \<Rightarrow> kernel" where
  "wake_first l k = (if \<not> tlist_isempty l k then rt_schedule (snd (rt_ipc_list_resume l k)) else k)"

definition readied :: "tid list \<Rightarrow> (tid \<Rightarrow> rt_thread) \<Rightarrow> tid \<Rightarrow> rt_thread" where
  "readied ts f = (case ts of [] \<Rightarrow> f | t # _ \<Rightarrow> f(t := (f t)\<lparr>th_stat := RT_THREAD_READY\<rparr>))"

lemma readied_simps [simp]:
  "readied [] f = f" "readied (t # ts) f = f(t := (f t)\<lparr>th_stat := RT_THREAD_READY\<rparr>)"
  by (simp_all add: readied_def)

lemma wake_first_frame [simp]:
  "sems (wake_first l k) = sems k" "mutexes (wake_first l k) = mutexes k" "events (wake_first l k) = events k"
  "mailboxes (wake_first l k) = mailboxes k" "mqs (wake_first l k) = mqs k"
  "(\<And>y. x \<noteq> OTimer y) \<Longrightarrow> objects (wake_first l k) x = objects k x"
  by (simp_all add: wake_first_def frame_simps)

lemma wake_first_spec:
  assumes wf: "sched_wf k" and cur: "rt_current_thread k = Some c" and l: "is_wait_list l"
  defines "k' \<equiv> wake_first l k"
  shows "sched_wf k'" "\<exists>c. rt_current_thread k' = Some c" "threads k' = readied (tlists k l) (threads k)"
    "tlists k' l = tl (tlists k l)" "\<And>l'. is_wait_list l' \<Longrightarrow> l' \<noteq> l \<Longrightarrow> tlists k' l' = tlists k l'"
    "\<And>t. t \<in> set (take 1 (tlists k l)) \<Longrightarrow> rt_scheduler_lock_nest k = 0 \<Longrightarrow> prio k (self k') \<le> prio k t"
proof -
  have "sched_wf k' \<and> (\<exists>c. rt_current_thread k' = Some c) \<and> threads k' = readied (tlists k l) (threads k) \<and>
    tlists k' l = tl (tlists k l) \<and> (\<forall>l'. is_wait_list l' \<longrightarrow> l' \<noteq> l \<longrightarrow> tlists k' l' = tlists k l') \<and>
    (\<forall>t. t \<in> set (take 1 (tlists k l)) \<longrightarrow> rt_scheduler_lock_nest k = 0 \<longrightarrow> prio k (self k') \<le> prio k t)"
  proof (cases "tlists k l")
    case Nil
    then show ?thesis using wf cur by (simp add: k'_def wake_first_def tlist_isempty_def)
  next
    case (Cons t ts)
    define k1 where "k1 = snd (rt_ipc_list_resume l k)"
    have k': "k' = rt_schedule k1" using Cons by (simp add: k'_def wake_first_def tlist_isempty_def k1_def)
    note r = rt_ipc_list_resume_spec [OF wf l Cons, folded k1_def]
    have w1: "sched_wf k1" "rt_current_thread k1 = Some c" using r cur by simp_all
    have "prio k (self k') \<le> prio k t" if "rt_scheduler_lock_nest k = 0"
    proof -
      have "rt_scheduler_lock_nest k1 = 0" using that Cons
        by (simp add: k1_def rt_ipc_list_resume_def rt_thread_resume_eq rt_schedule_insert_thread_def state_defs Let_def)
      moreover have "stat k1 t = RT_THREAD_READY" "\<And>u. prio k1 u = prio k u" using r(3) by simp_all
      ultimately show ?thesis using rt_schedule_highest(2) [OF w1, of t] by (simp add: k')
    qed
    moreover have "\<exists>c. rt_current_thread k' = Some c" unfolding k' using rt_schedule_current [OF w1] by blast
    ultimately show ?thesis using Cons r rt_schedule_wf [OF w1] rt_schedule_threads [OF w1]
      rt_schedule_wait [OF w1] l by (auto simp: k')
  qed
  then show "sched_wf k'" "\<exists>c. rt_current_thread k' = Some c" "threads k' = readied (tlists k l) (threads k)"
    "tlists k' l = tl (tlists k l)" "\<And>l'. is_wait_list l' \<Longrightarrow> l' \<noteq> l \<Longrightarrow> tlists k' l' = tlists k l'"
    "\<And>t. t \<in> set (take 1 (tlists k l)) \<Longrightarrow> rt_scheduler_lock_nest k = 0 \<Longrightarrow> prio k (self k') \<le> prio k t"
    by blast+
qed

text \<open>A thread that may wait: it runs, the scheduler is not locked, and another thread (the idle thread, at
  least) is ready to run instead.\<close>

definition may_wait :: "tid \<Rightarrow> kernel \<Rightarrow> bool" where
  "may_wait t k \<longleftrightarrow> rt_current_thread k = Some t \<and> stat k t = RT_THREAD_READY \<and> rt_scheduler_lock_nest k = 0 \<and>
     (\<exists>u. u \<noteq> t \<and> stat k u = RT_THREAD_READY)"

text \<open>Waiting on list \<open>l\<close> of an object with queueing flag \<open>f\<close>, from the reset of the thread's error on.\<close>

abbreviation wait_fresh :: "lid \<Rightarrow> u8 \<Rightarrow> int \<Rightarrow> tid \<Rightarrow> kernel \<Rightarrow> kernel" where
  "wait_fresh l f time t k \<equiv> wait_on l f time t (upd_thread t (\<lambda>th. th\<lparr>th_error := RT_EOK\<rparr>) k)"

lemma wait_fresh_spec:
  fixes time :: int
  assumes wf: "sched_wf k" and mw: "may_wait t k" and l: "is_wait_list l" and flag: "f \<in> {0, 1}"
  defines "k' \<equiv> wait_fresh l f time t k"
  shows "sched_wf k'" "\<exists>c. rt_current_thread k' = Some c" "rt_current_thread k' \<noteq> Some t"
    "threads k' = (threads k)(t := (threads k t)\<lparr>th_error := RT_EOK, th_stat := RT_THREAD_SUSPEND\<rparr>)"
    "tlists k' l = enqueue f (prio k) t (tlists k l)" "\<And>l'. is_wait_list l' \<Longrightarrow> l' \<noteq> l \<Longrightarrow> tlists k' l' = tlists k l'"
    "mailboxes k' = mailboxes k" "mqs k' = mqs k" "sems k' = sems k" "mutexes k' = mutexes k" "events k' = events k"
proof -
  let ?k0 = "upd_thread t (\<lambda>th. th\<lparr>th_error := RT_EOK\<rparr>) k"
  have w0: "sched_wf ?k0" "rt_current_thread ?k0 = Some t" "stat ?k0 t = RT_THREAD_READY"
    using wf mw by (simp_all add: sched_wf_upd_error may_wait_def)
  note w = wait_on_spec [OF w0 l flag, where time = time, folded k'_def]
  obtain u where "u \<noteq> t" "stat k u = RT_THREAD_READY" "rt_scheduler_lock_nest k = 0" using mw by (auto simp: may_wait_def)
  then show "rt_current_thread k' \<noteq> Some t" using w(11) [of u] by simp
  have "prio ?k0 = prio k" by auto
  then show "tlists k' l = enqueue f (prio k) t (tlists k l)" using w(4) by simp
  show "tlists k' l' = tlists k l'" if "is_wait_list l'" "l' \<noteq> l" for l' using w(5) [OF that] by simp
  show "sched_wf k'" "\<exists>c. rt_current_thread k' = Some c" by (fact w)+
  show "threads k' = (threads k)(t := (threads k t)\<lparr>th_error := RT_EOK, th_stat := RT_THREAD_SUSPEND\<rparr>)"
    "mailboxes k' = mailboxes k" "mqs k' = mqs k" "sems k' = sems k" "mutexes k' = mutexes k" "events k' = events k"
    using w by simp_all
qed

section \<open>Sending and receiving\<close>

definition mb_wf :: "nat \<Rightarrow> kernel \<Rightarrow> bool" where
  "mb_wf n k \<longleftrightarrow> sched_wf k \<and> mb_ok (mailboxes k n) \<and> obj_flag (OMailBox n) k \<in> {0, 1}"

abbreviation contents_of :: "kernel \<Rightarrow> nat \<Rightarrow> u32 list" where
  "contents_of k n \<equiv> mb_contents (mailboxes k n)"

lemma upd_mb_frame [simp]:
  "threads (upd_mb n g k) = threads k" "tlists (upd_mb n g k) = tlists k"
  "rt_current_thread (upd_mb n g k) = rt_current_thread k" "objects (upd_mb n g k) = objects k"
  "mailboxes (upd_mb n g k) = (mailboxes k)(n := g (mailboxes k n))"
  "rt_scheduler_lock_nest (upd_mb n g k) = rt_scheduler_lock_nest k"
  "rt_thread_ready_priority_group (upd_mb n g k) = rt_thread_ready_priority_group k"
  by (simp_all add: upd_mb_def)

lemma sched_wf_upd_mb [simp]: "sched_wf (upd_mb n g k) = sched_wf k"
  by (rule sched_wf_cong) simp_all

lemma wait_list_mb [simp]: "is_wait_list (LMailBox n)" "is_wait_list (LMbSender n)" by simp_all

lemma mb_send_done_eq: "mb_send_done n v k = (Ret RT_EOK, wake_first (LMailBox n) (upd_mb n (mb_put v) k))"
  by (simp add: mb_send_done_def wake_first_def Let_def)

lemma mb_recv_done_eq:
  "mb_recv_done n k = (Ret (RT_EOK, Some (fst (mb_get (mailboxes k n)))),
     wake_first (LMbSender n) (upd_mb n (snd \<circ> mb_get) k))"
proof -
  have "upd_mb n (\<lambda>_. snd (mb_get (mailboxes k n))) k = upd_mb n (snd \<circ> mb_get) k" by (simp add: upd_mb_def)
  then show ?thesis by (simp add: mb_recv_done_def wake_first_def Let_def split_def)
qed

text \<open>The loops, for a thread that may wait: at most one turn before the call blocks or returns.\<close>

lemma mb_send_loop_eq:
  assumes "mb_wf n k" "may_wait t k"
  shows "mb_send_loop n v timeout d t k =
    Some (if mb_entry (mailboxes k n) \<noteq> mb_size (mailboxes k n) then mb_send_done n v k
          else if timeout = 0 then (Ret (- RT_EFULL), upd_thread t (\<lambda>th. th\<lparr>th_error := RT_EOK\<rparr>) k)
          else (Blocked, wait_fresh (LMbSender n) (obj_flag (OMailBox n) k) timeout t k))"
proof -
  have "sched_wf k" "obj_flag (OMailBox n) k \<in> {0, 1}" using assms(1) by (simp_all add: mb_wf_def)
  then have "rt_current_thread (wait_fresh (LMbSender n) (obj_flag (OMailBox n) k) timeout t k) \<noteq> Some t"
    using wait_fresh_spec(3) [OF _ assms(2) wait_list_mb(2)] by blast
  then show ?thesis by (subst mb_send_loop.simps) (simp add: Let_def wait_on_def)
qed

lemma mb_recv_loop_eq:
  assumes "mb_wf n k" "may_wait t k"
  shows "mb_recv_loop n timeout d t k =
    Some (if mb_entry (mailboxes k n) \<noteq> 0 then mb_recv_done n k
          else if timeout = 0 then (Ret (- RT_ETIMEOUT, None), upd_thread t (\<lambda>th. th\<lparr>th_error := - RT_ETIMEOUT\<rparr>) k)
          else (Blocked, wait_fresh (LMailBox n) (obj_flag (OMailBox n) k) timeout t k))"
proof -
  have "sched_wf k" "obj_flag (OMailBox n) k \<in> {0, 1}" using assms(1) by (simp_all add: mb_wf_def)
  then have "rt_current_thread (wait_fresh (LMailBox n) (obj_flag (OMailBox n) k) timeout t k) \<noteq> Some t"
    using wait_fresh_spec(3) [OF _ assms(2) wait_list_mb(1)] by blast
  then show ?thesis by (subst mb_recv_loop.simps) (simp add: Let_def wait_on_def upd_thread_def)
qed

lemma mb_send_done_spec:
  fixes v :: u32
  assumes wf: "mb_wf n k" and cur: "rt_current_thread k = Some c"
    and room: "mb_entry (mailboxes k n) \<noteq> mb_size (mailboxes k n)"
  defines "k' \<equiv> snd (mb_send_done n v k)"
  shows "mb_wf n k'" "contents_of k' n = contents_of k n @ [v]" "\<And>m. m \<noteq> n \<Longrightarrow> mailboxes k' m = mailboxes k m"
    "\<exists>c. rt_current_thread k' = Some c" "threads k' = readied (tlists k (LMailBox n)) (threads k)"
    "tlists k' (LMailBox n) = tl (tlists k (LMailBox n))" "tlists k' (LMbSender n) = tlists k (LMbSender n)"
    "\<And>t. t \<in> set (take 1 (tlists k (LMailBox n))) \<Longrightarrow> rt_scheduler_lock_nest k = 0 \<Longrightarrow> prio k (self k') \<le> prio k t"
    "\<And>m. obj_flag (OMailBox m) k' = obj_flag (OMailBox m) k"
proof -
  let ?k = "upd_mb n (mb_put v) k"
  have ok: "sched_wf ?k" "rt_current_thread ?k = Some c" using wf cur by (simp_all add: mb_wf_def)
  have p: "mb_ok (mb_put v (mailboxes k n))" "mb_contents (mb_put v (mailboxes k n)) = contents_of k n @ [v]"
    using wf mb_put_spec [OF _ room, of v] by (simp_all add: mb_wf_def)
  have k': "k' = wake_first (LMailBox n) ?k" by (simp add: k'_def mb_send_done_eq)
  note w = wake_first_spec [OF ok wait_list_mb(1) [of n], folded k']
  show "mb_wf n k'" using w(1) p wf by (simp add: mb_wf_def k')
  show "contents_of k' n = contents_of k n @ [v]" using p by (simp add: k')
  show "tlists k' (LMbSender n) = tlists k (LMbSender n)" using w(5) [of "LMbSender n"] by simp
  show "mailboxes k' m = mailboxes k m" if "m \<noteq> n" for m using that by (simp add: k')
  show "obj_flag (OMailBox m) k' = obj_flag (OMailBox m) k" for m by (simp add: k')
  show "prio k (self k') \<le> prio k t" if "t \<in> set (take 1 (tlists k (LMailBox n)))" "rt_scheduler_lock_nest k = 0" for t
    using w(6) [of t] that by simp
  show "\<exists>c. rt_current_thread k' = Some c" by (fact w)
  show "threads k' = readied (tlists k (LMailBox n)) (threads k)" "tlists k' (LMailBox n) = tl (tlists k (LMailBox n))"
    using w by simp_all
qed

lemma mb_recv_done_spec:
  assumes wf: "mb_wf n k" and cur: "rt_current_thread k = Some c" and some: "mb_entry (mailboxes k n) \<noteq> 0"
  defines "k' \<equiv> snd (mb_recv_done n k)"
  shows "mb_wf n k'" "fst (mb_recv_done n k) = Ret (RT_EOK, Some (hd (contents_of k n)))"
    "contents_of k n = hd (contents_of k n) # contents_of k' n"
    "\<And>m. m \<noteq> n \<Longrightarrow> mailboxes k' m = mailboxes k m"
    "\<exists>c. rt_current_thread k' = Some c" "threads k' = readied (tlists k (LMbSender n)) (threads k)"
    "tlists k' (LMbSender n) = tl (tlists k (LMbSender n))" "tlists k' (LMailBox n) = tlists k (LMailBox n)"
    "\<And>t. t \<in> set (take 1 (tlists k (LMbSender n))) \<Longrightarrow> rt_scheduler_lock_nest k = 0 \<Longrightarrow> prio k (self k') \<le> prio k t"
    "\<And>m. obj_flag (OMailBox m) k' = obj_flag (OMailBox m) k"
proof -
  let ?k = "upd_mb n (snd \<circ> mb_get) k"
  have ok: "sched_wf ?k" "rt_current_thread ?k = Some c" using wf cur by (simp_all add: mb_wf_def)
  have p: "mb_ok (snd (mb_get (mailboxes k n)))"
    "contents_of k n = fst (mb_get (mailboxes k n)) # mb_contents (snd (mb_get (mailboxes k n)))"
    using wf mb_get_spec [OF _ some] by (simp_all add: mb_wf_def)
  have k': "k' = wake_first (LMbSender n) ?k" by (simp add: k'_def mb_recv_done_eq)
  note w = wake_first_spec [OF ok wait_list_mb(2) [of n], folded k']
  show "mb_wf n k'" using w(1) p wf by (simp add: mb_wf_def k')
  show "contents_of k n = hd (contents_of k n) # contents_of k' n" using p by (simp add: k')
  show "fst (mb_recv_done n k) = Ret (RT_EOK, Some (hd (contents_of k n)))" using p(2) by (simp add: mb_recv_done_eq)
  show "tlists k' (LMailBox n) = tlists k (LMailBox n)" using w(5) [of "LMailBox n"] by simp
  show "mailboxes k' m = mailboxes k m" if "m \<noteq> n" for m using that by (simp add: k')
  show "obj_flag (OMailBox m) k' = obj_flag (OMailBox m) k" for m by (simp add: k')
  show "prio k (self k') \<le> prio k t" if "t \<in> set (take 1 (tlists k (LMbSender n)))" "rt_scheduler_lock_nest k = 0" for t
    using w(6) [of t] that by simp
  show "\<exists>c. rt_current_thread k' = Some c" by (fact w)
  show "threads k' = readied (tlists k (LMbSender n)) (threads k)" "tlists k' (LMbSender n) = tl (tlists k (LMbSender n))"
    using w by simp_all
qed

section \<open>Histories of a mailbox\<close>

text \<open>The mail a call hands over, seen from its outcome.\<close>

fun accepted :: "u32 \<Rightarrow> err outcome \<Rightarrow> u32 list" where
  "accepted v (Ret e) = (if e = RT_EOK then [v] else [])"
| "accepted v Blocked = []"

fun delivered :: "(err \<times> u32 option) outcome \<Rightarrow> u32 list" where
  "delivered (Ret (e, Some v)) = [v]"
| "delivered (Ret (e, None)) = []"
| "delivered Blocked = []"

text \<open>
  Steps, seen from mailbox \<open>n\<close>: the running thread calls a send or receive, or, resumed, goes on with
  one; a waiting thread times out; the running thread does something else.
\<close>

inductive mb_step :: "nat \<Rightarrow> kernel \<Rightarrow> u32 list \<Rightarrow> u32 list \<Rightarrow> kernel \<Rightarrow> bool" for n where
  send: "may_wait t k \<Longrightarrow> rt_mb_send_wait n v timeout k = Some (r, k') \<Longrightarrow> mb_step n k (accepted v r) [] k'"
| send_resume: "may_wait t k \<Longrightarrow> rt_mb_send_wait_resume n v timeout d t k = Some (r, k') \<Longrightarrow>
    mb_step n k (accepted v r) [] k'"
| recv: "may_wait t k \<Longrightarrow> rt_mb_recv n timeout k = Some (r, k') \<Longrightarrow> mb_step n k [] (delivered r) k'"
| recv_resume: "may_wait t k \<Longrightarrow> rt_mb_recv_resume n timeout d t k = Some (r, k') \<Longrightarrow>
    mb_step n k [] (delivered r) k'"
| timeout: "rt_current_thread k = Some c \<Longrightarrow> stat k t = RT_THREAD_SUSPEND \<Longrightarrow> mb_step n k [] [] (rt_thread_timeout t k)"
| yield: "rt_current_thread k = Some c \<Longrightarrow> mb_step n k [] [] (snd (rt_thread_yield k))"
| sem_release: "rt_current_thread k = Some c \<Longrightarrow> mb_step n k [] [] (snd (rt_sem_release m k))"
| sem_take: "rt_current_thread k = Some t \<Longrightarrow> stat k t = RT_THREAD_READY \<Longrightarrow> sem_wf m k \<Longrightarrow>
    mb_step n k [] [] (snd (rt_sem_take m time k))"

inductive mb_run :: "nat \<Rightarrow> kernel \<Rightarrow> u32 list \<Rightarrow> u32 list \<Rightarrow> kernel \<Rightarrow> bool" for n where
  nil: "mb_run n k [] [] k"
| step: "mb_step n k i j k1 \<Longrightarrow> mb_run n k1 ins outs k2 \<Longrightarrow> mb_run n k (i @ ins) (j @ outs) k2"

lemma mb_wf_upd_error: "mb_wf n (upd_thread t (\<lambda>th. th\<lparr>th_error := e\<rparr>) k) = mb_wf n k"
  by (simp add: mb_wf_def sched_wf_upd_error)

lemma mb_wf_wait:
  assumes "mb_wf n k" "may_wait t k" "is_wait_list l"
  shows "mb_wf n (wait_fresh l (obj_flag (OMailBox n) k) time t k)"
  using assms wait_fresh_spec [OF _ assms(2,3), of "obj_flag (OMailBox n) k"] by (auto simp: mb_wf_def)

text \<open>A send hands its mail to the end of the contents or changes nothing, a receive takes the first mail.\<close>

lemma mb_send_loop_sound:
  assumes "mb_wf n k" "may_wait t k" "mb_send_loop n v timeout d t k = Some (r, k')"
  shows "mb_wf n k' \<and> contents_of k' n = contents_of k n @ accepted v r"
proof -
  have "rt_current_thread k = Some t" using assms(2) by (simp add: may_wait_def)
  note d = mb_send_done_spec [OF assms(1) this, where v = v]
  have "fst (mb_send_done n v k) = Ret RT_EOK" by (simp add: mb_send_done_eq)
  moreover have "mailboxes (wait_fresh (LMbSender n) (obj_flag (OMailBox n) k) timeout t k) = mailboxes k"
    using wait_fresh_spec(7) [OF _ assms(2) wait_list_mb(2)] assms(1) by (simp add: mb_wf_def)
  ultimately show ?thesis
    using assms(3) d mb_wf_wait [OF assms(1,2) wait_list_mb(2)] assms(1) unfolding mb_send_loop_eq [OF assms(1,2)]
    by (auto simp: mb_wf_upd_error split: if_splits)
qed

lemma mb_recv_loop_sound:
  assumes "mb_wf n k" "may_wait t k" "mb_recv_loop n timeout d t k = Some (r, k')"
  shows "mb_wf n k' \<and> contents_of k n = delivered r @ contents_of k' n"
proof -
  have "rt_current_thread k = Some t" using assms(2) by (simp add: may_wait_def)
  note d = mb_recv_done_spec [OF assms(1) this]
  have "mailboxes (wait_fresh (LMailBox n) (obj_flag (OMailBox n) k) timeout t k) = mailboxes k"
    using wait_fresh_spec(7) [OF _ assms(2) wait_list_mb(1)] assms(1) by (simp add: mb_wf_def)
  then show ?thesis
    using assms(3) d mb_wf_wait [OF assms(1,2) wait_list_mb(1)] assms(1) unfolding mb_recv_loop_eq [OF assms(1,2)]
    by (auto simp: mb_wf_upd_error split: if_splits)
qed

lemma mb_step_sound:
  assumes "mb_step n k i j k'" "mb_wf n k"
  shows "mb_wf n k' \<and> contents_of k n @ i = j @ contents_of k' n"
  using assms(1)
proof (cases rule: mb_step.cases)
  case (send t v timeout r)
  then have "self k = t" by (simp add: may_wait_def)
  then show ?thesis using send assms(2) mb_send_loop_sound [OF assms(2) send(3)]
    by (auto simp: rt_mb_send_wait_def split: if_splits)
next
  case (send_resume t v timeout d r)
  then show ?thesis using assms(2) mb_send_loop_sound [OF assms(2) send_resume(3)]
    by (auto simp: rt_mb_send_wait_resume_def split: if_splits)
next
  case (recv t timeout r)
  then have "self k = t" by (simp add: may_wait_def)
  then show ?thesis using recv assms(2) mb_recv_loop_sound [OF assms(2) recv(3)]
    by (auto simp: rt_mb_recv_def split: if_splits)
next
  case (recv_resume t timeout d r)
  then show ?thesis using assms(2) mb_recv_loop_sound [OF assms(2) recv_resume(3)]
    by (auto simp: rt_mb_recv_resume_def split: if_splits)
next
  case (timeout c t)
  then have "sched_wf k'" using assms(2) rt_thread_timeout_wf [of k t c] by (simp add: mb_wf_def)
  moreover have "mailboxes k' = mailboxes k" "obj_flag (OMailBox n) k' = obj_flag (OMailBox n) k"
    using timeout by (simp_all add: rt_thread_timeout_def Let_def frame_simps rt_schedule_insert_thread_def state_defs)
  ultimately show ?thesis using timeout assms(2) by (simp add: mb_wf_def)
next
  case (yield c)
  then show ?thesis using assms(2) rt_schedule_wf [of k c] by (simp add: rt_thread_yield_def mb_wf_def frame_simps)
next
  case (sem_release c m)
  have "rt_sem_release m k = (RT_EOK, if tlists k (LSem m) = [] then upd_sem m (\<lambda>s. s\<lparr>sem_value := sem_value s + 1\<rparr>) k
      else wake_first (LSem m) k)" by (simp add: rt_sem_release_def wake_first_def tlist_isempty_def)
  moreover have "mailboxes (upd_sem m g k) = mailboxes k" for g by (simp add: upd_sem_def)
  ultimately show ?thesis using sem_release assms(2) wake_first_spec(1) [OF _ sem_release(4) wait_list_LSem [of m]]
    by (simp add: mb_wf_def)
next
  case (sem_take t m time)
  note w = rt_sem_take_wf [OF _ sem_take(6,4,5), where time = time]
  have f: "objects k' (OMailBox n) = objects k (OMailBox n)" "mailboxes k' = mailboxes k"
    using sem_take by (simp_all add: rt_sem_take_eq [OF sem_take(4)] Let_def upd_sem_def wait_on_def frame_simps)
  show ?thesis using w(1) f sem_take assms(2) by (simp add: mb_wf_def)
qed

section \<open>Properties\<close>

lemma mb_run_sound:
  assumes "mb_run n k ins outs k'" "mb_wf n k"
  shows "mb_wf n k' \<and> contents_of k n @ ins = outs @ contents_of k' n"
  using assms
proof (induction rule: mb_run.induct)
  case (step k i j k1 ins outs k2)
  have s: "mb_wf n k1" "contents_of k n @ i = j @ contents_of k1 n" using mb_step_sound [OF step(1) step(4)] by simp_all
  have "contents_of k1 n @ ins = outs @ contents_of k2 n" "mb_wf n k2" using step(3) [OF s(1)] by simp_all
  then show ?case using s(2) by (metis append.assoc)
qed simp

text \<open>
  C11. Every history of a mailbox is a bounded FIFO: whatever threads send, wait, are resumed, receive,
  time out or use the rest of the kernel in between, the mails delivered followed by those still in
  the ring are the mails that were there followed by those accepted, in order; a call that
  failed or is still blocked has handed over nothing; the ring never exceeds its size and the
  scheduler state stays well-formed.
\<close>

theorem mb_history_is_fifo:
  assumes "mb_run n k ins outs k'" "mb_wf n k"
  shows "mb_wf n k' \<and> mb_contents (mailboxes k n) @ ins = outs @ mb_contents (mailboxes k' n) \<and>
    length (mb_contents (mailboxes k' n)) \<le> unat (mb_size (mailboxes k' n))"
  using mb_run_sound [OF assms] mbq.bounded by (auto simp: mb_wf_def)

definition demo_mb :: "tid list \<Rightarrow> u32 list \<Rightarrow> kernel" where
  "demo_mb ts vs = upd_mb 0 (\<lambda>m. \<lparr>mb_msg_pool = vs @ replicate (3 - length vs) 0, mb_size = 3,
     mb_entry = of_nat (length vs), mb_in_offset = of_nat (length vs mod 3), mb_out_offset = 0\<rparr>) (demo_running 3 [5] (LMailBox 0) ts)"

lemma demo_mb:
  assumes "ts = [] \<or> ts = [2]" "length vs \<le> 3"
  shows "mb_wf 0 (demo_mb ts vs)" "may_wait 3 (demo_mb ts vs)" "tlists (demo_mb ts vs) (LMailBox 0) = ts"
    "tlists (demo_mb ts vs) (LMbSender 0) = []" "contents_of (demo_mb ts vs) 0 = vs"
    "mb_entry (mailboxes (demo_mb ts vs) 0) = of_nat (length vs)" "mb_size (mailboxes (demo_mb ts vs) 0) = 3"
proof -
  have "sched_wf (demo_running 3 [5] (LMailBox 0) ts)" using assms(1) by (intro demo_running_wf) auto
  moreover have n: "length vs = 0 \<or> length vs = 1 \<or> length vs = 2 \<or> length vs = 3" using assms(2) by linarith
  ultimately show "mb_wf 0 (demo_mb ts vs)"
    by (auto simp: demo_mb_def mb_wf_def mb_ok_def demo_running_def demo_kernel_def)
  show "may_wait 3 (demo_mb ts vs)"
    by (auto simp: may_wait_def demo_mb_def demo_running_def demo_kernel_def demo_thread_def intro!: exI [of _ 5])
  have "cyc (vs @ replicate (3 - length vs) 0) 0 (length vs) = vs"
    using assms(2) by (intro nth_equalityI) (auto simp: cyc_def nth_append)
  moreover have "unat (of_nat (length vs) :: u16) = length vs" using n by auto
  ultimately show "contents_of (demo_mb ts vs) 0 = vs" by (simp add: demo_mb_def mb_contents_def)
qed (simp_all add: demo_mb_def demo_running_def)

theorem mb_history_is_fifo_witness:
  "\<exists>k1 k2. rt_mb_send 0 7 (demo_mb [] [4, 5]) = Some (Ret RT_EOK, k1) \<and>
     rt_mb_recv 0 0 k1 = Some (Ret (RT_EOK, Some 4), k2) \<and> mb_contents (mailboxes k2 0) = [5, 7]"
proof -
  let ?k = "demo_mb [] [4, 5]"
  note d = demo_mb [of "[]" "[4, 5]", simplified]
  have self: "self ?k = 3" and c: "rt_current_thread ?k = Some 3" using d(2) by (simp_all add: may_wait_def)
  define k1 where "k1 = snd (mb_send_done 0 7 ?k)"
  have s: "rt_mb_send_wait 0 7 0 ?k = Some (Ret RT_EOK, k1)"
    using d self by (simp add: rt_mb_send_wait_def mb_send_loop_eq k1_def) (simp add: mb_send_done_eq)
  have ne: "mb_entry (mailboxes ?k 0) \<noteq> mb_size (mailboxes ?k 0)" using d by simp
  note sd = mb_send_done_spec [OF d(1) c ne, where v = 7, folded k1_def]
  have k1: "k1 = upd_mb 0 (mb_put 7) ?k" using d by (simp add: k1_def mb_send_done_eq wake_first_def tlist_isempty_def)
  then have mw: "may_wait 3 k1" using d(2) by (simp add: may_wait_def)
  then have self1: "self k1 = 3" "rt_current_thread k1 = Some 3" by (simp_all add: may_wait_def)
  have ne1: "mb_entry (mailboxes k1 0) \<noteq> 0" using sd(2) mb_contents_empty [of "mailboxes k1 0"] by simp
  define k2 where "k2 = snd (mb_recv_done 0 k1)"
  have r: "rt_mb_recv 0 0 k1 = Some (Ret (RT_EOK, Some 4), k2)"
    using ne1 self1 mb_recv_loop_eq [OF sd(1) mw] mb_recv_done_spec(2) [OF sd(1) self1(2) ne1] sd(2) d(5)
    by (simp add: rt_mb_recv_def k2_def prod_eq_iff)
  have "mb_run 0 ?k (accepted 7 (Ret RT_EOK) @ [] @ []) ([] @ delivered (Ret (RT_EOK, Some 4)) @ []) k2"
    by (intro mb_run.step [OF mb_step.send [OF d(2) s]] mb_run.step [OF mb_step.recv [OF mw r]] mb_run.nil)
  from mb_history_is_fifo [OF this d(1)] s r d(5) show ?thesis by (auto simp: rt_mb_send_def)
qed

text \<open>
  \<open>rt_mb_send_wait\<close> always comes back to the kernel, on one of three ways. With room, the mail is
  appended, exactly the first waiting receiver becomes ready and the thread that runs next is at
  least as urgent. On a full mailbox a caller that does not wait gets \<open>-RT_EFULL\<close> and nothing changes
  (\<open>rt_mb_send\<close> never blocks), any other is suspended in the list of senders, by arrival or by
  priority as the mailbox was made, and the mails are untouched.
\<close>

theorem rt_mb_send_wait_branches:
  assumes "mb_wf n k" "may_wait t k"
  shows "\<exists>r k'. rt_mb_send_wait n v timeout k = Some (r, k') \<and> mb_wf n k' \<and>
    (if mb_entry (mailboxes k n) \<noteq> mb_size (mailboxes k n) then
       r = Ret RT_EOK \<and> mb_contents (mailboxes k' n) = mb_contents (mailboxes k n) @ [v] \<and>
       (case tlists k (LMailBox n) of
          [] \<Rightarrow> threads k' = threads k
        | u # us \<Rightarrow> tlists k' (LMailBox n) = us \<and> stat k u = RT_THREAD_SUSPEND \<and> prio k (self k') \<le> prio k u \<and>
            threads k' = (threads k)(u := (threads k u)\<lparr>th_stat := RT_THREAD_READY\<rparr>))
     else if timeout = 0 then r = Ret (- RT_EFULL) \<and> k' = k \<and> rt_mb_send n v k = Some (r, k')
     else r = Blocked \<and> mailboxes k' = mailboxes k \<and> stat k' t = RT_THREAD_SUSPEND \<and>
       tlists k' (LMbSender n) = enqueue (obj_flag (OMailBox n) k) (prio k) t (tlists k (LMbSender n)))"
proof -
  have c: "rt_current_thread k = Some t" and nest: "rt_scheduler_lock_nest k = 0" and sw: "sched_wf k"
    and f: "obj_flag (OMailBox n) k \<in> {0, 1}"
    using assms by (simp_all add: may_wait_def mb_wf_def)
  note d = mb_send_done_spec [OF assms(1) c, where v = v]
  note w = wait_fresh_spec [OF sw assms(2) wait_list_mb(2) [of n] f, where time = timeout]
  have fst: "fst (mb_send_done n v k) = Ret RT_EOK" by (simp add: mb_send_done_eq)
  have susp: "stat k u = RT_THREAD_SUSPEND" if "u \<in> set (tlists k (LMailBox n))" for u
    using sched_wfD(6) [OF sw wait_list_mb(1)] that by blast
  consider (room) "mb_entry (mailboxes k n) \<noteq> mb_size (mailboxes k n)"
    | (full) "mb_entry (mailboxes k n) = mb_size (mailboxes k n)" "timeout = 0"
    | (wait) "mb_entry (mailboxes k n) = mb_size (mailboxes k n)" "timeout \<noteq> 0" by blast
  then show ?thesis
  proof cases
    case room
    then show ?thesis using d fst nest susp c
      by (cases "tlists k (LMailBox n)")
        (auto simp: rt_mb_send_wait_def mb_send_loop_eq [OF assms] intro!: exI [of _ "snd (mb_send_done n v k)"] prod_eqI)
  next
    case full
    then show ?thesis using assms(1) by (simp add: rt_mb_send_wait_def rt_mb_send_def)
  next
    case wait
    then show ?thesis using w mb_wf_wait [OF assms wait_list_mb(2)] c
      by (simp add: rt_mb_send_wait_def mb_send_loop_eq [OF assms])
  qed
qed

theorem rt_mb_send_wait_branches_witness:
  "\<exists>k'. rt_mb_send_wait 0 9 5 (demo_mb [2] []) = Some (Ret RT_EOK, k') \<and> stat k' 2 = RT_THREAD_READY \<and>
     mb_contents (mailboxes k' 0) = [9]"
proof -
  note d = demo_mb [of "[2]" "[]", simplified]
  show ?thesis using rt_mb_send_wait_branches [OF d(1,2), of 9 5] d(3,5,6,7) by auto
qed

end
