(* ===== verification/Ipc_Mq.thy ===== *)
theory Ipc_Mq
  imports Ipc_Mailbox
begin

text \<open>
  Message queues (\<open>src/ipc.c\<close>): fixed-size nodes, chained into the queue of messages and the list of
  free nodes. \<open>rt_mq_send\<close>, \<open>rt_mq_urgent\<close> and \<open>rt_mq_recv\<close> copy the message with interrupts enabled,
  between two critical sections, while the node is in neither list; the sections are definitions
  of their own, so that theorems can interleave them.
\<close>

section \<open>Operations\<close>

definition upd_mq :: "nat \<Rightarrow> (rt_messagequeue \<Rightarrow> rt_messagequeue) \<Rightarrow> kernel \<Rightarrow> kernel" where
  "upd_mq n g k = k\<lparr>mqs := (mqs k)(n := g (mqs k n))\<rparr>"

text \<open>\<open>RT_ALIGN(msg_size, 4)\<close> in 32 bits, stored in the 16 bits of the field.\<close>

definition mq_align :: "u32 \<Rightarrow> u16" where
  "mq_align sz = ucast ((sz + 4 - 1) AND NOT (4 - 1))"

definition mq_free_nodes :: "rt_messagequeue \<Rightarrow> rt_messagequeue" where
  "mq_free_nodes m =
     fold (\<lambda>i m. m\<lparr>mq_next := (mq_next m)(i := mq_free m), mq_free := Some i\<rparr>) [0..<unat (mq_max_msgs m)]
       (m\<lparr>mq_head := None, mq_tail := None, mq_free := None\<rparr>)"

definition rt_mq_init ::
  "nat \<Rightarrow> string \<Rightarrow> (nat \<Rightarrow> u8 list) \<Rightarrow> u32 \<Rightarrow> u32 \<Rightarrow> u8 \<Rightarrow> kernel \<Rightarrow> err \<times> kernel" where
  "rt_mq_init n name msgpool msg_size pool_size flag k =
     (let k = rt_object_init (OMq n) RT_Object_Class_MessageQueue name k;
          k = set_obj_flag (OMq n) flag k;
          k = rt_ipc_object_init (LMq n) k;
          k = upd_mq n (\<lambda>m. m\<lparr>mq_data := msgpool, mq_msg_size := mq_align msg_size,
                             mq_max_msgs := ucast (pool_size div (ucast (mq_align msg_size) + 4))\<rparr>) k;
          k = upd_mq n mq_free_nodes k
      in (RT_EOK, upd_mq n (\<lambda>m. m\<lparr>mq_entry := 0\<rparr>) k))"

definition rt_mq_detach :: "nat \<Rightarrow> kernel \<Rightarrow> (err \<times> kernel) option" where
  "rt_mq_detach n k =
     map_option (\<lambda>k. (RT_EOK, rt_object_detach (OMq n) k)) (rt_ipc_list_resume_all (LMq n) k)"

definition rt_mq_delete :: "nat \<Rightarrow> kernel \<Rightarrow> (err \<times> kernel) option" where
  "rt_mq_delete n k =
     map_option (\<lambda>k. (RT_EOK, rt_object_delete (OMq n) k)) (rt_ipc_list_resume_all (LMq n) k)"

definition rt_mq_create ::
  "string \<Rightarrow> u32 \<Rightarrow> u32 \<Rightarrow> u8 \<Rightarrow> nat option \<Rightarrow> (nat \<Rightarrow> u8 list) option \<Rightarrow> kernel \<Rightarrow> (nat option \<times> kernel) option" where
  "rt_mq_create name msg_size max_msgs flag mem pool k =
     (case mem of
        None \<Rightarrow> Some (None, k)
      | Some n \<Rightarrow>
          let k = snd (rt_object_allocate RT_Object_Class_MessageQueue name (Some (OMq n)) k);
              k = set_obj_flag (OMq n) flag k;
              k = rt_ipc_object_init (LMq n) k;
              k = upd_mq n (\<lambda>m. m\<lparr>mq_msg_size := mq_align msg_size, mq_max_msgs := ucast max_msgs\<rparr>) k
          in case pool of
               None \<Rightarrow> map_option (\<lambda>(_, k). (None, k)) (rt_mq_delete n k)
             | Some p \<Rightarrow>
                 let k = upd_mq n (\<lambda>m. m\<lparr>mq_data := p\<rparr>) k;
                     k = upd_mq n mq_free_nodes k
                 in Some (Some n, upd_mq n (\<lambda>m. m\<lparr>mq_entry := 0\<rparr>) k))"

text \<open>The critical sections, on the queue: taking a free node; linking it at the tail or at the head;
  unlinking the first message; giving a node back. Between them, the copies.\<close>

definition mq_claim :: "rt_messagequeue \<Rightarrow> (nat \<times> rt_messagequeue) option" where
  "mq_claim m = (case mq_free m of None \<Rightarrow> None | Some i \<Rightarrow> Some (i, m\<lparr>mq_free := mq_next m i\<rparr>))"

definition mq_fill :: "nat \<Rightarrow> u8 list \<Rightarrow> rt_messagequeue \<Rightarrow> rt_messagequeue" where
  "mq_fill i bytes m = m\<lparr>mq_data := (mq_data m)(i := blit (mq_data m i) 0 bytes)\<rparr>"

definition mq_link_tail :: "nat \<Rightarrow> rt_messagequeue \<Rightarrow> rt_messagequeue" where
  "mq_link_tail i m =
     (let m = (case mq_tail m of None \<Rightarrow> m | Some l \<Rightarrow> m\<lparr>mq_next := (mq_next m)(l := Some i)\<rparr>);
          m = m\<lparr>mq_tail := Some i\<rparr>;
          m = (if mq_head m = None then m\<lparr>mq_head := Some i\<rparr> else m)
      in m\<lparr>mq_entry := mq_entry m + 1\<rparr>)"

definition mq_link_head :: "nat \<Rightarrow> rt_messagequeue \<Rightarrow> rt_messagequeue" where
  "mq_link_head i m =
     (let m = m\<lparr>mq_next := (mq_next m)(i := mq_head m), mq_head := Some i\<rparr>;
          m = (if mq_tail m = None then m\<lparr>mq_tail := Some i\<rparr> else m)
      in m\<lparr>mq_entry := mq_entry m + 1\<rparr>)"

definition mq_unlink :: "rt_messagequeue \<Rightarrow> nat \<times> rt_messagequeue" where
  "mq_unlink m =
     (let i = the (mq_head m);
          m = m\<lparr>mq_head := mq_next m i\<rparr>;
          m = (if mq_tail m = Some i then m\<lparr>mq_tail := None\<rparr> else m)
      in (i, m\<lparr>mq_entry := mq_entry m - 1\<rparr>))"

definition mq_release :: "nat \<Rightarrow> rt_messagequeue \<Rightarrow> rt_messagequeue" where
  "mq_release i m = m\<lparr>mq_next := (mq_next m)(i := mq_free m), mq_free := Some i\<rparr>"

definition mq_clear_next :: "nat \<Rightarrow> rt_messagequeue \<Rightarrow> rt_messagequeue" where
  "mq_clear_next i m = m\<lparr>mq_next := (mq_next m)(i := None)\<rparr>"

definition rt_mq_send :: "nat \<Rightarrow> u8 list \<Rightarrow> u32 \<Rightarrow> kernel \<Rightarrow> err \<times> kernel" where
  "rt_mq_send n buffer sz k =
     (if sz > ucast (mq_msg_size (mqs k n)) then (- RT_ERROR, k)
      else case mq_claim (mqs k n) of
             None \<Rightarrow> (- RT_EFULL, k)
           | Some (i, m) \<Rightarrow>
               let m = mq_clear_next i m;
                   m = mq_fill i (take (unat sz) buffer) m;
                   k = upd_mq n (\<lambda>_. mq_link_tail i m) k
               in (RT_EOK, if \<not> tlist_isempty (LMq n) k then rt_schedule (snd (rt_ipc_list_resume (LMq n) k)) else k))"

definition rt_mq_urgent :: "nat \<Rightarrow> u8 list \<Rightarrow> u32 \<Rightarrow> kernel \<Rightarrow> err \<times> kernel" where
  "rt_mq_urgent n buffer sz k =
     (if sz > ucast (mq_msg_size (mqs k n)) then (- RT_ERROR, k)
      else case mq_claim (mqs k n) of
             None \<Rightarrow> (- RT_EFULL, k)
           | Some (i, m) \<Rightarrow>
               let m = mq_fill i (take (unat sz) buffer) m;
                   k = upd_mq n (\<lambda>_. mq_link_head i m) k
               in (RT_EOK, if \<not> tlist_isempty (LMq n) k then rt_schedule (snd (rt_ipc_list_resume (LMq n) k)) else k))"

text \<open>Receiving: the outcome carries the error and the bytes stored in \<open>buffer\<close>.\<close>

definition mq_copy_len :: "u32 \<Rightarrow> rt_messagequeue \<Rightarrow> nat" where
  "mq_copy_len sz m = (if sz > ucast (mq_msg_size m) then unat (mq_msg_size m) else unat sz)"

definition mq_recv_done :: "nat \<Rightarrow> u32 \<Rightarrow> kernel \<Rightarrow> (err \<times> u8 list) outcome \<times> kernel" where
  "mq_recv_done n sz k =
     (let (i, m) = mq_unlink (mqs k n);
          bytes = take (mq_copy_len sz m) (mq_data m i)
      in (Ret (RT_EOK, bytes), upd_mq n (\<lambda>_. mq_release i m) k))"

partial_function (option) mq_recv_loop ::
  "nat \<Rightarrow> u32 \<Rightarrow> int \<Rightarrow> u32 \<Rightarrow> tid \<Rightarrow> kernel \<Rightarrow> ((err \<times> u8 list) outcome \<times> kernel) option" where
  "mq_recv_loop n sz timeout tick_delta t k =
     (if mq_entry (mqs k n) = 0 then
        let k = upd_thread t (\<lambda>th. th\<lparr>th_error := RT_EOK\<rparr>) k
        in if timeout = 0
           then Some (Ret (- RT_ETIMEOUT, []), upd_thread t (\<lambda>th. th\<lparr>th_error := - RT_ETIMEOUT\<rparr>) k)
           else
             let k = snd (rt_ipc_list_suspend (LMq n) t (obj_flag (OMq n) k) k);
                 tick_delta = (if timeout > 0 then rt_tick k else tick_delta);
                 k = rt_schedule (start_timeout t timeout k)
             in if rt_current_thread k \<noteq> Some t then Some (Blocked, k)
                else if th_error (threads k t) \<noteq> RT_EOK then Some (Ret (th_error (threads k t), []), k)
                else if timeout > 0
                then mq_recv_loop n sz (remaining timeout (rt_tick k - tick_delta)) (rt_tick k - tick_delta) t k
                else mq_recv_loop n sz timeout tick_delta t k
      else Some (mq_recv_done n sz k))"

definition rt_mq_recv :: "nat \<Rightarrow> u32 \<Rightarrow> int \<Rightarrow> kernel \<Rightarrow> ((err \<times> u8 list) outcome \<times> kernel) option" where
  "rt_mq_recv n sz timeout k =
     (if mq_entry (mqs k n) = 0 \<and> timeout = 0 then Some (Ret (- RT_ETIMEOUT, []), k)
      else mq_recv_loop n sz timeout 0 (self k) k)"

definition rt_mq_recv_resume ::
  "nat \<Rightarrow> u32 \<Rightarrow> int \<Rightarrow> u32 \<Rightarrow> tid \<Rightarrow> kernel \<Rightarrow> ((err \<times> u8 list) outcome \<times> kernel) option" where
  "rt_mq_recv_resume n sz timeout tick_delta t k =
     (if th_error (threads k t) \<noteq> RT_EOK then Some (Ret (th_error (threads k t), []), k)
      else if timeout > 0
      then mq_recv_loop n sz (remaining timeout (rt_tick k - tick_delta)) (rt_tick k - tick_delta) t k
      else mq_recv_loop n sz timeout tick_delta t k)"

text \<open>The loop of the reset command: move every message to the free list.\<close>

partial_function (option) mq_reset_loop :: "rt_messagequeue \<Rightarrow> rt_messagequeue option" where
  "mq_reset_loop m =
     (case mq_head m of
        None \<Rightarrow> Some m
      | Some i \<Rightarrow>
          let m = m\<lparr>mq_head := mq_next m i\<rparr>;
              m = (if mq_tail m = Some i then m\<lparr>mq_tail := None\<rparr> else m)
          in mq_reset_loop (m\<lparr>mq_next := (mq_next m)(i := mq_free m), mq_free := Some i\<rparr>))"

definition rt_mq_control :: "nat \<Rightarrow> int \<Rightarrow> kernel \<Rightarrow> (err \<times> kernel) option" where
  "rt_mq_control n cmd k =
     (if cmd = 1
      then Option.bind (rt_ipc_list_resume_all (LMq n) k) (\<lambda>k.
             map_option (\<lambda>m. (RT_EOK, rt_schedule (upd_mq n (\<lambda>_. m\<lparr>mq_entry := 0\<rparr>) k))) (mq_reset_loop (mqs k n)))
      else Some (- RT_ERROR, k))"

section \<open>Chains of nodes\<close>

fun chain :: "(nat \<Rightarrow> nat option) \<Rightarrow> nat option \<Rightarrow> nat list \<Rightarrow> bool" where
  "chain f p [] \<longleftrightarrow> p = None"
| "chain f p (x # xs) \<longleftrightarrow> p = Some x \<and> chain f (f x) xs"

fun walk :: "nat \<Rightarrow> (nat \<Rightarrow> nat option) \<Rightarrow> nat option \<Rightarrow> nat list" where
  "walk 0 f p = []"
| "walk (Suc n) f None = []"
| "walk (Suc n) f (Some i) = i # walk n f (f i)"

lemma chain_walk: "chain f p xs \<Longrightarrow> length xs \<le> n \<Longrightarrow> walk n f p = xs"
proof (induction xs arbitrary: n p)
  case Nil
  then show ?case by (cases n) auto
next
  case (Cons x xs)
  then show ?case by (cases n) auto
qed

lemma chain_upd [simp]: "i \<notin> set xs \<Longrightarrow> chain (f(i := v)) p xs = chain f p xs"
  by (induction xs arbitrary: p) auto

lemma chain_snoc:
  assumes "chain f p xs" "xs \<noteq> []" "distinct xs" "i \<notin> set xs" "f i = None"
  shows "chain (f(last xs := Some i)) p (xs @ [i])"
  using assms
proof (induction xs arbitrary: p)
  case (Cons x xs)
  show ?case
  proof (cases "xs = []")
    case False
    then have "last xs \<noteq> x" using Cons.prems(3) by auto
    then show ?thesis using Cons False by auto
  qed (use Cons in auto)
qed simp

lemma chain_None: "chain f None xs \<longleftrightarrow> xs = []"
  by (cases xs) auto

section \<open>Invariant of a queue\<close>

text \<open>
  The queue \<open>qs\<close>, the free nodes \<open>fs\<close> and the nodes \<open>hs\<close> threads hold between their critical sections
  partition the pool.
\<close>

definition mq_inv :: "rt_messagequeue \<Rightarrow> nat list \<Rightarrow> nat list \<Rightarrow> nat list \<Rightarrow> bool" where
  "mq_inv m qs fs hs \<longleftrightarrow>
     chain (mq_next m) (mq_head m) qs \<and> chain (mq_next m) (mq_free m) fs \<and>
     mq_tail m = (if qs = [] then None else Some (last qs)) \<and> mq_entry m = of_nat (length qs) \<and>
     distinct (qs @ fs @ hs) \<and> set (qs @ fs @ hs) = {..<unat (mq_max_msgs m)} \<and>
     (\<forall>i. length (mq_data m i) = unat (mq_msg_size m))"

definition mq_queued :: "rt_messagequeue \<Rightarrow> nat list" where
  "mq_queued m = walk (unat (mq_max_msgs m)) (mq_next m) (mq_head m)"

definition mq_frees :: "rt_messagequeue \<Rightarrow> nat list" where
  "mq_frees m = walk (unat (mq_max_msgs m)) (mq_next m) (mq_free m)"

definition mq_msgs :: "rt_messagequeue \<Rightarrow> u8 list list" where
  "mq_msgs m = map (mq_data m) (mq_queued m)"

lemma mq_invD:
  assumes "mq_inv m qs fs hs"
  shows "length qs + length fs + length hs = unat (mq_max_msgs m)" "mq_queued m = qs" "mq_frees m = fs"
    "mq_entry m = 0 \<longleftrightarrow> qs = []" "mq_head m = None \<longleftrightarrow> qs = []" "mq_tail m = None \<longleftrightarrow> qs = []"
proof -
  have "card (set (qs @ fs @ hs)) = length (qs @ fs @ hs)"
    using assms by (intro distinct_card) (simp only: mq_inv_def)
  also have "set (qs @ fs @ hs) = {..<unat (mq_max_msgs m)}" using assms by (simp only: mq_inv_def)
  finally show l: "length qs + length fs + length hs = unat (mq_max_msgs m)" by simp
  show "mq_queued m = qs" "mq_frees m = fs"
    using assms l chain_walk [of "mq_next m" _ qs] chain_walk [of "mq_next m" _ fs]
    by (simp_all add: mq_inv_def mq_queued_def mq_frees_def)
  have "length qs < 2 ^ 16" using l unsigned_less [where 'a = nat, of "mq_max_msgs m"] by simp
  then have "(of_nat (length qs) :: u16) = 0 \<longleftrightarrow> length qs = 0" by (simp add: word_of_nat_eq_0_iff dvd_eq_mod_eq_0)
  then show "mq_entry m = 0 \<longleftrightarrow> qs = []" using assms by (simp add: mq_inv_def)
  show "mq_head m = None \<longleftrightarrow> qs = []" "mq_tail m = None \<longleftrightarrow> qs = []"
    using assms by (cases qs; simp add: mq_inv_def)+
qed

lemma mq_claim_inv:
  assumes "mq_inv m qs fs hs"
  shows "mq_claim m = (case fs of [] \<Rightarrow> None | i # _ \<Rightarrow> Some (i, m\<lparr>mq_free := mq_next m i\<rparr>))"
    "fs = i # fs' \<Longrightarrow> mq_inv (m\<lparr>mq_free := mq_next m i\<rparr>) qs fs' (i # hs)"
  using assms by (cases fs; auto simp: mq_inv_def mq_claim_def)+

lemma mq_clear_next_inv:
  assumes "mq_inv m qs fs hs" "i \<in> set hs"
  shows "mq_inv (mq_clear_next i m) qs fs hs"
proof -
  have "i \<notin> set qs" "i \<notin> set fs" using assms by (auto simp: mq_inv_def)
  then show ?thesis using assms by (auto simp: mq_inv_def mq_clear_next_def)
qed

lemma mq_fill_inv:
  assumes "mq_inv m qs fs hs" "i \<in> set hs" "length bytes \<le> unat (mq_msg_size m)"
  shows "mq_inv (mq_fill i bytes m) qs fs hs"
  using assms by (simp add: mq_inv_def mq_fill_def)

lemma mq_link_tail_inv:
  assumes inv: "mq_inv m qs fs hs" and i: "i \<in> set hs" and n: "mq_next m i = None"
  shows "mq_inv (mq_link_tail i m) (qs @ [i]) fs (removeAll i hs)"
proof -
  have nq: "i \<notin> set qs" "i \<notin> set fs" using inv i by (auto simp: mq_inv_def)
  have dist: "distinct qs" "set qs \<inter> set fs = {}" using inv by (auto simp: mq_inv_def)
  have e: "mq_entry m + 1 = of_nat (length (qs @ [i]))" using inv by (simp add: mq_inv_def)
  have c: "chain (mq_next (mq_link_tail i m)) (mq_head (mq_link_tail i m)) (qs @ [i])"
  proof (cases "qs = []")
    case True
    then show ?thesis using inv n by (simp add: mq_inv_def mq_link_tail_def Let_def)
  next
    case False
    then have "mq_tail m = Some (last qs)" "mq_head m \<noteq> None" using inv mq_invD(5) [OF inv] by (simp_all add: mq_inv_def)
    then show ?thesis using chain_snoc [of "mq_next m" "mq_head m" qs i] inv False dist(1) nq(1) n
      by (auto simp add: mq_inv_def mq_link_tail_def Let_def)
  qed
  have "chain (mq_next (mq_link_tail i m)) (mq_free m) fs"
  proof (cases "qs = []")
    case False
    then have "last qs \<notin> set fs" using dist(2) last_in_set [OF False] by blast
    then show ?thesis using inv False by (auto simp: mq_inv_def mq_link_tail_def Let_def split: option.split)
  qed (use inv in \<open>simp add: mq_inv_def mq_link_tail_def Let_def\<close>)
  moreover have "mq_free (mq_link_tail i m) = mq_free m" "mq_tail (mq_link_tail i m) = Some i"
    "mq_entry (mq_link_tail i m) = mq_entry m + 1" "mq_data (mq_link_tail i m) = mq_data m"
    "mq_max_msgs (mq_link_tail i m) = mq_max_msgs m" "mq_msg_size (mq_link_tail i m) = mq_msg_size m"
    by (simp_all add: mq_link_tail_def Let_def split: option.split)
  ultimately show ?thesis using c e inv i nq unfolding mq_inv_def by (auto simp: distinct_removeAll)
qed

lemma mq_link_head_inv:
  assumes inv: "mq_inv m qs fs hs" and i: "i \<in> set hs"
  shows "mq_inv (mq_link_head i m) (i # qs) fs (removeAll i hs)"
proof -
  have nq: "i \<notin> set qs" "i \<notin> set fs" using inv i by (auto simp: mq_inv_def)
  have e: "mq_entry m + 1 = of_nat (length (i # qs))" using inv by (simp add: mq_inv_def)
  have t: "mq_tail (mq_link_head i m) = Some (last (i # qs))"
    using inv by (auto simp: mq_inv_def mq_link_head_def Let_def)
  have f: "mq_free (mq_link_head i m) = mq_free m" "mq_head (mq_link_head i m) = Some i"
    "mq_next (mq_link_head i m) = (mq_next m)(i := mq_head m)"
    "mq_entry (mq_link_head i m) = mq_entry m + 1" "mq_data (mq_link_head i m) = mq_data m"
    "mq_max_msgs (mq_link_head i m) = mq_max_msgs m" "mq_msg_size (mq_link_head i m) = mq_msg_size m"
    by (simp_all add: mq_link_head_def Let_def)
  show ?thesis using e inv i nq unfolding mq_inv_def t f by (auto simp: distinct_removeAll)
qed

lemma mq_unlink_inv:
  assumes inv: "mq_inv m (i # qs) fs hs"
  shows "fst (mq_unlink m) = i" "mq_inv (snd (mq_unlink m)) qs fs (i # hs)"
    "mq_data (snd (mq_unlink m)) = mq_data m" "mq_next (snd (mq_unlink m)) = mq_next m"
    "mq_msg_size (snd (mq_unlink m)) = mq_msg_size m"
proof -
  have h: "mq_head m = Some i" using inv by (simp add: mq_inv_def)
  have "mq_tail m = Some i \<longleftrightarrow> qs = []" using inv last_in_set [of qs] by (auto simp: mq_inv_def)
  then have t: "mq_tail (snd (mq_unlink m)) = (if qs = [] then None else Some (last qs))"
    using h inv by (auto simp: mq_unlink_def Let_def mq_inv_def)
  have f: "mq_free (snd (mq_unlink m)) = mq_free m" "mq_head (snd (mq_unlink m)) = mq_next m i"
    "mq_next (snd (mq_unlink m)) = mq_next m" "mq_entry (snd (mq_unlink m)) = mq_entry m - 1"
    "mq_data (snd (mq_unlink m)) = mq_data m" "mq_max_msgs (snd (mq_unlink m)) = mq_max_msgs m"
    "mq_msg_size (snd (mq_unlink m)) = mq_msg_size m"
    using h by (simp_all add: mq_unlink_def Let_def)
  show "fst (mq_unlink m) = i" using h by (simp add: mq_unlink_def Let_def)
  show "mq_inv (snd (mq_unlink m)) qs fs (i # hs)" using inv unfolding mq_inv_def t f by auto
qed (simp_all add: mq_unlink_def Let_def)

lemma mq_release_inv:
  assumes "mq_inv m qs fs hs" "i \<in> set hs"
  shows "mq_inv (mq_release i m) qs (i # fs) (removeAll i hs)"
proof -
  have "i \<notin> set qs" "i \<notin> set fs" using assms by (auto simp: mq_inv_def)
  then show ?thesis using assms by (auto simp: mq_inv_def mq_release_def distinct_removeAll)
qed

section \<open>Interleaved critical sections\<close>

text \<open>
  Where a thread stands in \<open>rt_mq_send\<close>, \<open>rt_mq_urgent\<close> or \<open>rt_mq_recv\<close>: its local variable \<open>msg\<close> and the
  bytes it sends. Any other thread (or interrupt) may take steps in between.
\<close>

datatype mq_pc =
    Out
  | Sending nat "u8 list" | SendLinking nat "u8 list"
  | Urging nat "u8 list" | UrgLinking nat "u8 list"
  | Receiving nat "u8 list"

fun holds :: "mq_pc \<Rightarrow> nat option" where
  "holds Out = None"
| "holds (Sending i b) = Some i"
| "holds (SendLinking i b) = Some i"
| "holds (Urging i b) = Some i"
| "holds (UrgLinking i b) = Some i"
| "holds (Receiving i b) = Some i"

text \<open>What the steps do to the queue seen as a list of messages.\<close>

datatype mq_event = Enq "u8 list" | Push "u8 list" | Deq "u8 list"

fun mq_spec :: "u8 list list \<Rightarrow> mq_event list \<Rightarrow> u8 list list option" where
  "mq_spec q [] = Some q"
| "mq_spec q (Enq x # es) = mq_spec (q @ [x]) es"
| "mq_spec q (Push x # es) = mq_spec (x # q) es"
| "mq_spec q (Deq x # es) = (case q of [] \<Rightarrow> None | y # q' \<Rightarrow> if x = y then mq_spec q' es else None)"

type_synonym mq_conf = "rt_messagequeue \<times> (tid \<Rightarrow> mq_pc)"

inductive mq_istep :: "mq_conf \<Rightarrow> mq_event list \<Rightarrow> mq_conf \<Rightarrow> bool" where
  send_claim: "pc t = Out \<Longrightarrow> length b \<le> unat (mq_msg_size m) \<Longrightarrow> mq_claim m = Some (i, m') \<Longrightarrow>
    mq_istep (m, pc) [] (m', pc(t := Sending i b))"
| send_copy: "pc t = Sending i b \<Longrightarrow>
    mq_istep (m, pc) [] (mq_fill i b (mq_clear_next i m), pc(t := SendLinking i b))"
| send_link: "pc t = SendLinking i b \<Longrightarrow> mq_istep (m, pc) [Enq (mq_data m i)] (mq_link_tail i m, pc(t := Out))"
| urgent_claim: "pc t = Out \<Longrightarrow> length b \<le> unat (mq_msg_size m) \<Longrightarrow> mq_claim m = Some (i, m') \<Longrightarrow>
    mq_istep (m, pc) [] (m', pc(t := Urging i b))"
| urgent_copy: "pc t = Urging i b \<Longrightarrow> mq_istep (m, pc) [] (mq_fill i b m, pc(t := UrgLinking i b))"
| urgent_link: "pc t = UrgLinking i b \<Longrightarrow> mq_istep (m, pc) [Push (mq_data m i)] (mq_link_head i m, pc(t := Out))"
| recv_unlink: "pc t = Out \<Longrightarrow> mq_entry m \<noteq> 0 \<Longrightarrow> mq_unlink m = (i, m') \<Longrightarrow>
    mq_istep (m, pc) [Deq (mq_data m i)] (m', pc(t := Receiving i (mq_data m i)))"
| recv_release: "pc t = Receiving i b \<Longrightarrow> mq_istep (m, pc) [] (mq_release i m, pc(t := Out))"

inductive mq_irun :: "mq_conf \<Rightarrow> mq_event list \<Rightarrow> mq_conf \<Rightarrow> bool" where
  nil: "mq_irun c [] c"
| step: "mq_istep c es c1 \<Longrightarrow> mq_irun c1 es' c2 \<Longrightarrow> mq_irun c (es @ es') c2"

text \<open>What a thread relies on while it holds a node.\<close>

fun pc_ok :: "rt_messagequeue \<Rightarrow> mq_pc \<Rightarrow> bool" where
  "pc_ok m Out \<longleftrightarrow> True"
| "pc_ok m (Sending i b) \<longleftrightarrow> length b \<le> unat (mq_msg_size m)"
| "pc_ok m (SendLinking i b) \<longleftrightarrow> mq_next m i = None \<and> take (length b) (mq_data m i) = b"
| "pc_ok m (Urging i b) \<longleftrightarrow> length b \<le> unat (mq_msg_size m)"
| "pc_ok m (UrgLinking i b) \<longleftrightarrow> take (length b) (mq_data m i) = b"
| "pc_ok m (Receiving i b) \<longleftrightarrow> mq_data m i = b"

definition mq_iwf :: "mq_conf \<Rightarrow> nat list \<Rightarrow> bool" where
  "mq_iwf c hs \<longleftrightarrow> mq_inv (fst c) (mq_queued (fst c)) (mq_frees (fst c)) hs \<and>
     (\<forall>i. i \<in> set hs \<longleftrightarrow> (\<exists>t. holds (snd c t) = Some i)) \<and>
     (\<forall>t t' i. holds (snd c t) = Some i \<and> holds (snd c t') = Some i \<longrightarrow> t = t') \<and> (\<forall>t. pc_ok (fst c) (snd c t))"

text \<open>A step that leaves the node of a thread alone keeps what the thread relies on.\<close>

lemma pc_ok_frame:
  assumes "pc_ok m p" "mq_msg_size m' = mq_msg_size m"
    and "\<And>i. holds p = Some i \<Longrightarrow> mq_next m' i = mq_next m i \<and> mq_data m' i = mq_data m i"
  shows "pc_ok m' p"
  using assms by (cases p) auto

lemma mq_iwfI:
  assumes old: "mq_iwf (m, pc) hs" and inv: "mq_inv m' qs fs hs'"
    and hs: "set hs' = (case holds p of None \<Rightarrow> set hs - set_option (holds (pc t)) | Some i \<Rightarrow> insert i (set hs - set_option (holds (pc t))))"
    and new: "\<And>i. holds p = Some i \<Longrightarrow> i \<notin> set hs \<or> holds (pc t) = Some i" and p: "pc_ok m' p"
    and sz: "mq_msg_size m' = mq_msg_size m"
    and fr: "\<And>i. i \<in> set hs \<Longrightarrow> holds (pc t) \<noteq> Some i \<Longrightarrow> mq_next m' i = mq_next m i \<and> mq_data m' i = mq_data m i"
  shows "mq_iwf (m', pc(t := p)) hs'"
proof -
  have q: "mq_queued m' = qs" "mq_frees m' = fs" using mq_invD [OF inv] by simp_all
  have o: "\<And>i. i \<in> set hs \<longleftrightarrow> (\<exists>t. holds (pc t) = Some i)"
    "\<And>t t' i. holds (pc t) = Some i \<Longrightarrow> holds (pc t') = Some i \<Longrightarrow> t = t'" "\<And>t. pc_ok m (pc t)"
    using old by (auto simp: mq_iwf_def)
  have 1: "i \<in> set hs' \<longleftrightarrow> (\<exists>u. holds ((pc(t := p)) u) = Some i)" for i
  proof -
    have "i \<in> set hs - set_option (holds (pc t)) \<longleftrightarrow> (\<exists>u. u \<noteq> t \<and> holds (pc u) = Some i)"
      using o(1) [of i] o(2) [of t i] by auto
    then show ?thesis unfolding hs by (cases "holds p") (auto split: if_splits)
  qed
  have 2: "u = u'" if "holds ((pc(t := p)) u) = Some i" "holds ((pc(t := p)) u') = Some i" for u u' i
    using that o(1) [of i] o(2) [of u i u'] o(2) [of t i u] o(2) [of t i u'] new [of i] by (auto split: if_splits)
  have 3: "pc_ok m' ((pc(t := p)) u)" for u
  proof (cases "u = t")
    case False
    have "pc_ok m' (pc u)"
    proof (rule pc_ok_frame [OF o(3) sz])
      fix i assume "holds (pc u) = Some i"
      then show "mq_next m' i = mq_next m i \<and> mq_data m' i = mq_data m i"
        using o(1) [of i] o(2) [of u i t] False by (intro fr) auto
    qed
    with False show ?thesis by simp
  qed (use p in simp)
  show ?thesis unfolding mq_iwf_def fst_conv snd_conv q using inv 1 2 3 by blast
qed

lemma mq_field_frame [simp]:
  "mq_msg_size (mq_clear_next i m) = mq_msg_size m" "mq_msg_size (mq_fill i b m) = mq_msg_size m"
  "mq_msg_size (mq_link_tail i m) = mq_msg_size m" "mq_msg_size (mq_link_head i m) = mq_msg_size m"
  "mq_msg_size (mq_release i m) = mq_msg_size m" "mq_next (mq_fill i b m) = mq_next m"
  "mq_data (mq_clear_next i m) = mq_data m" "mq_data (mq_link_tail i m) = mq_data m"
  "mq_data (mq_link_head i m) = mq_data m" "mq_data (mq_release i m) = mq_data m"
  "mq_next (mq_link_head i m) = (mq_next m)(i := mq_head m)" "mq_next (mq_release i m) = (mq_next m)(i := mq_free m)"
  "mq_next (mq_clear_next i m) = (mq_next m)(i := None)"
  "mq_data (mq_fill i b m) = (mq_data m)(i := blit (mq_data m i) 0 b)"
  by (simp_all add: mq_clear_next_def mq_fill_def mq_link_tail_def mq_link_head_def mq_release_def Let_def split: option.split)

lemma mq_link_tail_next: "mq_tail m \<noteq> Some j \<Longrightarrow> mq_next (mq_link_tail i m) j = mq_next m j"
  by (auto simp: mq_link_tail_def Let_def split: option.split)

lemma take_blit0: "length b \<le> length xs \<Longrightarrow> take (length b) (blit xs 0 b) = b"
  by (simp add: blit_def)

lemma mq_istep_sound:
  assumes "mq_istep c es c'" "mq_iwf c hs"
  shows "\<exists>hs'. mq_iwf c' hs' \<and> mq_spec (mq_msgs (fst c)) es = Some (mq_msgs (fst c'))"
proof -
  obtain m pc m' pc' where c: "c = (m, pc)" "c' = (m', pc')" by (metis prod.exhaust)
  let ?qs = "mq_queued m" and ?fs = "mq_frees m"
  have inv: "mq_inv m ?qs ?fs hs" and h: "\<And>i. i \<in> set hs \<longleftrightarrow> (\<exists>t. holds (pc t) = Some i)" and ok: "\<And>t. pc_ok m (pc t)"
    and len: "\<And>i. length (mq_data m i) = unat (mq_msg_size m)"
    using assms(2) by (simp_all add: mq_iwf_def c mq_inv_def)
  note old = assms(2) [unfolded c]
  have dj: "i \<notin> set ?qs" if "i \<in> set hs" for i using inv that by (auto simp: mq_inv_def)
  have claim: "\<exists>hs'. mq_iwf (x, pc(t := p)) hs' \<and> mq_msgs x = mq_msgs m"
    if x: "mq_claim m = Some (i, x)" and t: "pc t = Out" "holds p = Some i" "pc_ok m p" "\<And>j b. p \<noteq> SendLinking j b" for x p t i
  proof -
    obtain fs' where fs: "?fs = i # fs'" and x': "x = m\<lparr>mq_free := mq_next m i\<rparr>"
      using x mq_claim_inv(1) [OF inv] by (auto split: list.splits)
    have inv': "mq_inv x ?qs fs' (i # hs)" unfolding x' by (rule mq_claim_inv(2) [OF inv fs])
    have "i \<notin> set hs" using inv fs by (auto simp: mq_inv_def)
    moreover have "pc_ok x p" using t(3,4) x' by (cases p) auto
    ultimately have "mq_iwf (x, pc(t := p)) (i # hs)" using t by (intro mq_iwfI [OF old inv']) (simp_all add: x')
    moreover have "mq_msgs x = mq_msgs m" using mq_invD(2) [OF inv'] by (simp add: mq_msgs_def x')
    ultimately show ?thesis by blast
  qed
  have held: "i \<in> set hs" if "holds (pc t) = Some i" for t i using h that by blast
  have copy: "\<exists>hs'. mq_iwf (mq_fill i b x, pc(t := p)) hs' \<and> mq_msgs (mq_fill i b x) = mq_msgs m"
    if t: "holds (pc t) = Some i" "holds p = Some i" "length b \<le> unat (mq_msg_size m)" "pc_ok (mq_fill i b x) p"
      and x: "mq_inv x ?qs ?fs hs" "mq_data x = mq_data m" "mq_msg_size x = mq_msg_size m" "\<And>j. j \<noteq> i \<Longrightarrow> mq_next x j = mq_next m j"
    for t p i b x
  proof -
    have inv': "mq_inv (mq_fill i b x) ?qs ?fs hs" by (rule mq_fill_inv [OF x(1) held [OF t(1)]]) (use t x in simp)
    have "mq_iwf (mq_fill i b x, pc(t := p)) hs"
      by (rule mq_iwfI [OF old inv']) (use t x held [OF t(1)] in \<open>auto\<close>)
    moreover have "mq_msgs (mq_fill i b x) = mq_msgs m"
      using mq_invD(2) [OF inv'] dj [OF held [OF t(1)]] x by (auto simp: mq_msgs_def)
    ultimately show ?thesis by blast
  qed
  have out: "\<exists>hs'. mq_iwf (x, pc(t := Out)) hs' \<and> mq_msgs x = map (mq_data m) qs'"
    if t: "holds (pc t) = Some i" and x: "mq_inv x qs' fs' (removeAll i hs)" "mq_data x = mq_data m"
      "mq_msg_size x = mq_msg_size m" "\<And>j. j \<in> set hs \<Longrightarrow> j \<noteq> i \<Longrightarrow> mq_next x j = mq_next m j" for t i x qs' fs'
  proof -
    have "mq_iwf (x, pc(t := Out)) (removeAll i hs)" by (rule mq_iwfI [OF old x(1)]) (use t x in auto)
    then show ?thesis using mq_invD(2) [OF x(1)] x(2) by (auto simp: mq_msgs_def)
  qed
  have "\<exists>hs'. mq_iwf (m', pc') hs' \<and> mq_spec (mq_msgs m) es = Some (mq_msgs m')"
    using assms(1) [unfolded c]
  proof (cases rule: mq_istep.cases)
    case (send_claim t b i)
    then show ?thesis using claim [OF send_claim(5,3), of "Sending i b"] by simp
  next
    case (send_copy t i b)
    have inv1: "mq_inv (mq_clear_next i m) ?qs ?fs hs" using mq_clear_next_inv [OF inv held [of t]] send_copy by simp
    show ?thesis using send_copy ok [of t] copy [of t i "SendLinking i b" b "mq_clear_next i m"] inv1 len
      by (simp add: take_blit0)
  next
    case (send_link t i b)
    have "mq_tail m \<noteq> Some j" if "j \<in> set hs" for j
      using dj [OF that] inv last_in_set [of ?qs] by (auto simp: mq_inv_def split: if_splits)
    then show ?thesis
      using out [of t i "mq_link_tail i m"] mq_link_tail_inv [OF inv held [of t]] ok [of t] send_link
      by (force simp: mq_link_tail_next mq_msgs_def)
  next
    case (urgent_claim t b i)
    then show ?thesis using claim [OF urgent_claim(5,3), of "Urging i b"] by simp
  next
    case (urgent_copy t i b)
    then show ?thesis using ok [of t] copy [of t i "UrgLinking i b" b m] inv len by (simp add: take_blit0)
  next
    case (urgent_link t i b)
    then show ?thesis
      using out [of t i "mq_link_head i m"] mq_link_head_inv [OF inv held [of t]] by (force simp: mq_msgs_def)
  next
    case (recv_unlink t i)
    obtain j qs where qs: "?qs = j # qs" using mq_invD(4) [OF inv] recv_unlink(4) by (cases ?qs) auto
    note u = mq_unlink_inv [OF inv [unfolded qs]]
    have m': "m' = snd (mq_unlink m)" "i = j" using recv_unlink(5) u(1) by simp_all
    have nj: "j \<notin> set hs" using inv qs by (auto simp: mq_inv_def)
    have "mq_iwf (m', pc(t := Receiving j (mq_data m j))) (j # hs)" unfolding m'
      by (rule mq_iwfI [OF old u(2)]) (use u recv_unlink nj in auto)
    moreover have "mq_msgs m = mq_data m j # mq_msgs m'" using mq_invD(2) [OF u(2)] u(3) qs by (simp add: mq_msgs_def m')
    ultimately show ?thesis using recv_unlink(1,2) m'(2) by auto
  next
    case (recv_release t i b)
    then show ?thesis
      using out [of t i "mq_release i m"] mq_release_inv [OF inv held [of t]] by (force simp: mq_msgs_def)
  qed
  then show ?thesis by (simp add: c)
qed

section \<open>The whole operations\<close>

lemma mq_free_nodes_inv:
  assumes "\<And>i. length (mq_data m i) = unat (mq_msg_size m)"
  shows "mq_inv (mq_free_nodes m\<lparr>mq_entry := 0\<rparr>) [] (rev [0..<unat (mq_max_msgs m)]) []"
proof -
  define F where "F = (\<lambda>(i :: nat) (m :: rt_messagequeue). m\<lparr>mq_next := (mq_next m)(i := mq_free m), mq_free := Some i\<rparr>)"
  have "chain (mq_next (fold F [0..<n] x)) (mq_free (fold F [0..<n] x)) (rev [0..<n]) \<and>
    mq_head (fold F [0..<n] x) = mq_head x \<and> mq_tail (fold F [0..<n] x) = mq_tail x \<and>
    mq_data (fold F [0..<n] x) = mq_data x \<and> mq_max_msgs (fold F [0..<n] x) = mq_max_msgs x \<and>
    mq_msg_size (fold F [0..<n] x) = mq_msg_size x" if "mq_free x = None" for n x
    using that by (induction n) (simp_all add: F_def)
  from this [of "m\<lparr>mq_head := None, mq_tail := None, mq_free := None\<rparr>" "unat (mq_max_msgs m)"]
  show ?thesis using assms by (auto simp: mq_inv_def mq_free_nodes_def F_def)
qed

definition mq_wf :: "nat \<Rightarrow> kernel \<Rightarrow> bool" where
  "mq_wf n k \<longleftrightarrow> sched_wf k \<and> mq_inv (mqs k n) (mq_queued (mqs k n)) (mq_frees (mqs k n)) [] \<and>
     obj_flag (OMq n) k \<in> {0, 1}"

abbreviation msgs_of :: "kernel \<Rightarrow> nat \<Rightarrow> u8 list list" where
  "msgs_of k n \<equiv> mq_msgs (mqs k n)"

lemma upd_mq_frame [simp]:
  "threads (upd_mq n g k) = threads k" "tlists (upd_mq n g k) = tlists k"
  "rt_current_thread (upd_mq n g k) = rt_current_thread k" "objects (upd_mq n g k) = objects k"
  "mqs (upd_mq n g k) = (mqs k)(n := g (mqs k n))"
  "rt_scheduler_lock_nest (upd_mq n g k) = rt_scheduler_lock_nest k"
  "rt_thread_ready_priority_group (upd_mq n g k) = rt_thread_ready_priority_group k"
  by (simp_all add: upd_mq_def)

lemma sched_wf_upd_mq [simp]: "sched_wf (upd_mq n g k) = sched_wf k"
  by (rule sched_wf_cong) simp_all

lemma wait_list_mq [simp]: "is_wait_list (LMq n)" by simp

lemma unat_ucast_u16 [simp]: "unat (ucast (x :: u16) :: u32) = unat x"
proof -
  have "unat x < 2 ^ 16" using unsigned_less [where 'a = nat, of x] by simp
  then show ?thesis by (simp add: unsigned_ucast_eq take_bit_nat_eq_self)
qed

text \<open>A message with its node: the new bytes over what the node held before.\<close>

definition mq_block :: "rt_messagequeue \<Rightarrow> u8 list \<Rightarrow> u8 list" where
  "mq_block m bytes = blit (mq_data m (hd (mq_frees m))) 0 bytes"

lemma mq_put_spec:
  assumes inv: "mq_inv m (mq_queued m) (mq_frees m) []" and l: "length bytes \<le> unat (mq_msg_size m)"
    and c: "mq_claim m = Some (i, m1)"
  shows "mq_inv (mq_link_tail i (mq_fill i bytes (mq_clear_next i m1))) (mq_queued m @ [i]) (tl (mq_frees m)) []"
    "mq_inv (mq_link_head i (mq_fill i bytes m1)) (i # mq_queued m) (tl (mq_frees m)) []"
    "mq_msgs (mq_link_tail i (mq_fill i bytes (mq_clear_next i m1))) = mq_msgs m @ [mq_block m bytes]"
    "mq_msgs (mq_link_head i (mq_fill i bytes m1)) = mq_block m bytes # mq_msgs m"
proof -
  obtain fs' where fs: "mq_frees m = i # fs'" and m1: "m1 = m\<lparr>mq_free := mq_next m i\<rparr>"
    using c mq_claim_inv(1) [OF inv] by (auto split: list.splits)
  have i1: "mq_inv m1 (mq_queued m) fs' [i]" unfolding m1 by (rule mq_claim_inv(2) [OF inv fs])
  have sz: "mq_msg_size m1 = mq_msg_size m" by (simp add: m1)
  have f1: "mq_inv (mq_fill i bytes m1) (mq_queued m) fs' [i]" by (rule mq_fill_inv [OF i1]) (simp_all add: l sz)
  have f2: "mq_inv (mq_fill i bytes (mq_clear_next i m1)) (mq_queued m) fs' [i]"
    by (rule mq_fill_inv [OF mq_clear_next_inv [OF i1]]) (simp_all add: l sz)
  have n: "mq_next (mq_fill i bytes (mq_clear_next i m1)) i = None" by simp
  show t: "mq_inv (mq_link_tail i (mq_fill i bytes (mq_clear_next i m1))) (mq_queued m @ [i]) (tl (mq_frees m)) []"
    using mq_link_tail_inv [OF f2 _ n] fs by simp
  show h: "mq_inv (mq_link_head i (mq_fill i bytes m1)) (i # mq_queued m) (tl (mq_frees m)) []"
    using mq_link_head_inv [OF f1, of i] fs by simp
  have "i \<notin> set (mq_queued m)" using inv fs by (auto simp: mq_inv_def)
  then show "mq_msgs (mq_link_tail i (mq_fill i bytes (mq_clear_next i m1))) = mq_msgs m @ [mq_block m bytes]"
    "mq_msgs (mq_link_head i (mq_fill i bytes m1)) = mq_block m bytes # mq_msgs m"
    using mq_invD(2) [OF t] mq_invD(2) [OF h] fs by (simp_all add: mq_msgs_def mq_block_def m1)
qed

text \<open>The common shape of the two sends: \<open>add\<close> is where the message goes.\<close>

lemma mq_send_spec:
  assumes wf: "mq_wf n k" and cur: "rt_current_thread k = Some c"
    and sz: "sz \<le> ucast (mq_msg_size (mqs k n))" and len: "length buffer = unat sz"
    and op: "(op, add) \<in> {(rt_mq_send, \<lambda>x q. q @ [x]), (rt_mq_urgent, \<lambda>x q. x # q)}"
    and free: "mq_frees (mqs k n) \<noteq> []"
  shows "\<exists>k'. op n buffer sz k = (RT_EOK, k') \<and> mq_wf n k' \<and>
    msgs_of k' n = add (mq_block (mqs k n) buffer) (msgs_of k n) \<and>
    threads k' = readied (tlists k (LMq n)) (threads k) \<and> tlists k' (LMq n) = tl (tlists k (LMq n)) \<and>
    (\<forall>t \<in> set (take 1 (tlists k (LMq n))). rt_scheduler_lock_nest k = 0 \<longrightarrow> prio k (self k') \<le> prio k t)"
proof -
  let ?m = "mqs k n"
  have inv: "mq_inv ?m (mq_queued ?m) (mq_frees ?m) []" and sw: "sched_wf k" using wf by (simp_all add: mq_wf_def)
  obtain i m1 where c: "mq_claim ?m = Some (i, m1)" using mq_claim_inv(1) [OF inv] free by (cases "mq_frees ?m") auto
  have "unat sz \<le> unat (ucast (mq_msg_size ?m) :: u32)" using sz by (simp add: word_le_nat_alt)
  also have "\<dots> = unat (mq_msg_size ?m)" by (rule unat_ucast_u16)
  finally have l: "length buffer \<le> unat (mq_msg_size ?m)" using len by simp
  note p = mq_put_spec [OF inv l c]
  let ?k = "\<lambda>m. wake_first (LMq n) (upd_mq n (\<lambda>_. m) k)"
  have ns: "\<not> sz > ucast (mq_msg_size ?m)" using sz by simp
  have fin: "\<exists>k'. op n buffer sz k = (RT_EOK, k') \<and> mq_wf n k' \<and> mqs k' n = x \<and>
    threads k' = readied (tlists k (LMq n)) (threads k) \<and> tlists k' (LMq n) = tl (tlists k (LMq n)) \<and>
    (\<forall>t \<in> set (take 1 (tlists k (LMq n))). rt_scheduler_lock_nest k = 0 \<longrightarrow> prio k (self k') \<le> prio k t)"
    if x: "op n buffer sz k = (RT_EOK, ?k x)" "mq_inv x qs fs []" for x qs fs
  proof -
    have ok: "sched_wf (upd_mq n (\<lambda>_. x) k)" "rt_current_thread (upd_mq n (\<lambda>_. x) k) = Some c" using sw cur by simp_all
    note w = wake_first_spec [OF ok wait_list_mq [of n]]
    have "mq_wf n (?k x)" using w(1) wf x(2) mq_invD(2,3) [OF x(2)] by (simp add: mq_wf_def)
    then show ?thesis using w(3,4,6) x(1) by auto
  qed
  from op consider (send) "op = rt_mq_send" "add = (\<lambda>x q. q @ [x])" | (urgent) "op = rt_mq_urgent" "add = (\<lambda>x q. x # q)" by auto
  then show ?thesis
  proof cases
    case send
    have "op n buffer sz k = (RT_EOK, ?k (mq_link_tail i (mq_fill i buffer (mq_clear_next i m1))))"
      using ns c len by (simp add: send rt_mq_send_def wake_first_def Let_def)
    from fin [OF this p(1)] show ?thesis using p(3) send(2) by auto
  next
    case urgent
    have "op n buffer sz k = (RT_EOK, ?k (mq_link_head i (mq_fill i buffer m1)))"
      using ns c len by (simp add: urgent rt_mq_urgent_def wake_first_def Let_def)
    from fin [OF this p(2)] show ?thesis using p(4) urgent(2) by auto
  qed
qed

lemma mq_recv_loop_eq:
  assumes "mq_wf n k" "may_wait t k"
  shows "mq_recv_loop n sz timeout d t k =
    Some (if mq_entry (mqs k n) \<noteq> 0 then mq_recv_done n sz k
          else if timeout = 0 then (Ret (- RT_ETIMEOUT, []), upd_thread t (\<lambda>th. th\<lparr>th_error := - RT_ETIMEOUT\<rparr>) k)
          else (Blocked, wait_fresh (LMq n) (obj_flag (OMq n) k) timeout t k))"
proof -
  have "sched_wf k" "obj_flag (OMq n) k \<in> {0, 1}" using assms(1) by (simp_all add: mq_wf_def)
  then have "rt_current_thread (wait_fresh (LMq n) (obj_flag (OMq n) k) timeout t k) \<noteq> Some t"
    using wait_fresh_spec(3) [OF _ assms(2) wait_list_mq] by blast
  then show ?thesis by (subst mq_recv_loop.simps) (simp add: Let_def wait_on_def upd_thread_def)
qed

lemma mq_copy_len: "mq_copy_len sz m = min (unat sz) (unat (mq_msg_size m))"
  by (auto simp: mq_copy_len_def word_less_nat_alt)

lemma mq_recv_done_spec:
  assumes wf: "mq_wf n k" and q: "msgs_of k n = x # q"
  shows "\<exists>k'. mq_recv_done n sz k = (Ret (RT_EOK, take (unat sz) x), k') \<and> mq_wf n k' \<and> msgs_of k' n = q \<and>
    length (mq_frees (mqs k' n)) = Suc (length (mq_frees (mqs k n))) \<and> threads k' = threads k \<and> tlists k' = tlists k"
proof -
  let ?m = "mqs k n"
  have inv: "mq_inv ?m (mq_queued ?m) (mq_frees ?m) []" using wf by (simp add: mq_wf_def)
  obtain i qs where qs: "mq_queued ?m = i # qs" "x = mq_data ?m i" "q = map (mq_data ?m) qs"
    using q by (auto simp: mq_msgs_def)
  note u = mq_unlink_inv [OF inv [unfolded qs]]
  have r: "mq_inv (mq_release i (snd (mq_unlink ?m))) qs (i # mq_frees ?m) []"
    using mq_release_inv [OF u(2), of i] by simp
  have "length x = unat (mq_msg_size ?m)" using inv qs(2) by (simp add: mq_inv_def)
  then have "take (mq_copy_len sz (snd (mq_unlink ?m))) x = take (unat sz) x" using u(5) by (simp add: mq_copy_len min_def)
  then have "mq_recv_done n sz k = (Ret (RT_EOK, take (unat sz) x), upd_mq n (\<lambda>_. mq_release i (snd (mq_unlink ?m))) k)"
    using u qs by (simp add: mq_recv_done_def split_def Let_def)
  then show ?thesis using wf r mq_invD(2,3) [OF r] u(3) qs by (simp add: mq_wf_def mq_msgs_def)
qed

text \<open>The reset command empties the queue: its loop ends, and every node is free.\<close>

lemma mq_reset_loop_spec:
  assumes "mq_inv (m\<lparr>mq_entry := of_nat (length qs)\<rparr>) qs fs hs"
  shows "\<exists>m'. mq_reset_loop m = Some m' \<and> mq_inv (m'\<lparr>mq_entry := 0\<rparr>) [] (rev qs @ fs) hs"
  using assms
proof (induction qs arbitrary: m fs)
  case Nil
  then have "mq_head m = None" by (simp add: mq_inv_def)
  then have "mq_reset_loop m = Some m" by (subst mq_reset_loop.simps) simp
  then show ?case using Nil by simp
next
  case (Cons i qs)
  let ?m = "m\<lparr>mq_entry := of_nat (length (i # qs))\<rparr>"
  let ?r = "m\<lparr>mq_head := mq_next m i, mq_tail := (if mq_tail m = Some i then None else mq_tail m),
      mq_next := (mq_next m)(i := mq_free m), mq_free := Some i\<rparr>"
  have h: "mq_head m = Some i" and ih: "i \<notin> set hs" using Cons.prems by (auto simp: mq_inv_def)
  have "mq_inv (mq_release i (snd (mq_unlink ?m))) qs (i # fs) hs"
    using mq_release_inv [OF mq_unlink_inv(2) [OF Cons.prems], of i] ih by simp
  moreover have "mq_release i (snd (mq_unlink ?m)) = ?r\<lparr>mq_entry := of_nat (length qs)\<rparr>"
    using h by (simp add: mq_release_def mq_unlink_def Let_def)
  ultimately have "mq_inv (?r\<lparr>mq_entry := of_nat (length qs)\<rparr>) qs (i # fs) hs" by simp
  moreover have "mq_reset_loop m = mq_reset_loop ?r"
    using h by (subst mq_reset_loop.simps) (cases "mq_tail m = Some i", simp_all add: Let_def)
  ultimately show ?case using Cons.IH [of ?r "i # fs"] by simp
qed

section \<open>Properties\<close>

lemma mq_irun_sound:
  assumes "mq_irun c es c'" "mq_iwf c hs"
  shows "\<exists>hs'. mq_iwf c' hs' \<and> mq_spec (mq_msgs (fst c)) es = Some (mq_msgs (fst c'))"
  using assms
proof (induction arbitrary: hs rule: mq_irun.induct)
  case (step c es c1 es' c2)
  obtain hs1 where 1: "mq_iwf c1 hs1" "mq_spec (mq_msgs (fst c)) es = Some (mq_msgs (fst c1))"
    using mq_istep_sound [OF step(1,4)] by blast
  have "mq_spec q (es @ es') = mq_spec q' es'" if "mq_spec q es = Some q'" for q q'
    using that by (induction q es rule: mq_spec.induct) (auto split: list.splits if_splits)
  then show ?case using step(3) [OF 1(1)] 1(2) by auto
qed auto

text \<open>
  C10. Threads and interrupt handlers may run between the two critical sections of \<open>rt_mq_send\<close>,
  \<open>rt_mq_urgent\<close> and \<open>rt_mq_recv\<close>. Under every interleaving of the sections and the copies between
  them, the queue behaves as the abstract one: a message appears as a whole, at the end or in front,
  when it is linked, and is taken from the front when it is unlinked; a receiver copies exactly the
  message it took, a sender's message carries its bytes, and no node is ever lost or shared.
\<close>

theorem mq_interleaving_refines_queue:
  assumes "mq_irun (m, pc) es (m', pc')" "mq_iwf (m, pc) hs"
  shows "mq_spec (mq_msgs m) es = Some (mq_msgs m') \<and>
    (\<exists>hs'. mq_iwf (m', pc') hs' \<and>
       length (mq_queued m') + length (mq_frees m') + length hs' = unat (mq_max_msgs m')) \<and>
    (\<forall>t i x. pc' t = Receiving i x \<longrightarrow> mq_data m' i = x) \<and>
    (\<forall>t i b. pc' t \<in> {SendLinking i b, UrgLinking i b} \<longrightarrow> take (length b) (mq_data m' i) = b)"
proof -
  obtain hs' where 1: "mq_iwf (m', pc') hs'" "mq_spec (mq_msgs m) es = Some (mq_msgs m')"
    using mq_irun_sound [OF assms] by auto
  have ok: "pc_ok m' (pc' t)" for t using 1(1) by (simp add: mq_iwf_def)
  have "mq_data m' i = x" if "pc' t = Receiving i x" for t i x using ok [of t] that by simp
  moreover have "take (length b) (mq_data m' i) = b" if "pc' t \<in> {SendLinking i b, UrgLinking i b}" for t i b
    using ok [of t] that by auto
  moreover have "length (mq_queued m') + length (mq_frees m') + length hs' = unat (mq_max_msgs m')"
    using 1(1) mq_invD(1) [of m' _ _ hs'] by (simp add: mq_iwf_def)
  ultimately show ?thesis using 1 by blast
qed

text \<open>A queue of two messages of four bytes.\<close>

definition demo_queue :: rt_messagequeue where
  "demo_queue = (mq_free_nodes \<lparr>mq_msg_size = 4, mq_max_msgs = 2, mq_entry = 0, mq_next = (\<lambda>_. None),
     mq_data = (\<lambda>_. [0, 0, 0, 0]), mq_head = None, mq_tail = None, mq_free = None\<rparr>)\<lparr>mq_entry := 0\<rparr>"

lemma demo_queue:
  "mq_inv demo_queue [] [1, 0] []" "mq_queued demo_queue = []" "mq_frees demo_queue = [1, 0]"
  "mq_claim demo_queue = Some (1, demo_queue\<lparr>mq_free := Some 0\<rparr>)" "mq_msg_size demo_queue = 4"
  "mq_data demo_queue = (\<lambda>_. [0, 0, 0, 0])"
proof -
  have u: "[0..<2] = [0, 1 :: nat]" by (simp add: upt_rec)
  show i: "mq_inv demo_queue [] [1, 0] []" unfolding demo_queue_def
    using mq_free_nodes_inv [of "\<lparr>mq_msg_size = 4, mq_max_msgs = 2, mq_entry = 0, mq_next = (\<lambda>_. None),
     mq_data = (\<lambda>_. [0, 0, 0, 0]), mq_head = None, mq_tail = None, mq_free = None\<rparr>"] u by simp
  show "mq_queued demo_queue = []" "mq_frees demo_queue = [1, 0]" using mq_invD [OF i] by simp_all
  show "mq_claim demo_queue = Some (1, demo_queue\<lparr>mq_free := Some 0\<rparr>)"
    "mq_msg_size demo_queue = 4" "mq_data demo_queue = (\<lambda>_. [0, 0, 0, 0])"
    by (simp_all add: demo_queue_def mq_free_nodes_def u mq_claim_def)
qed

theorem mq_interleaving_refines_queue_witness:
  "\<exists>m' pc'. mq_irun (demo_queue, \<lambda>_. Out) [] (m', pc') \<and> pc' 0 = SendLinking 1 [7, 8] \<and> mq_msgs m' = [] \<and>
     take 2 (mq_data m' 1) = [7, 8]"
proof -
  let ?m = "demo_queue\<lparr>mq_free := Some 0\<rparr>"
  let ?m2 = "mq_fill 1 [7, 8] (mq_clear_next 1 ?m)" and ?pc1 = "(\<lambda>_. Out)(0 := Sending 1 [7, 8])"
  have 1: "mq_istep (demo_queue, \<lambda>_. Out) [] (?m, ?pc1)"
    by (rule mq_istep.send_claim) (simp_all add: demo_queue)
  have 2: "mq_istep (?m, ?pc1) [] (?m2, ?pc1(0 := SendLinking 1 [7, 8]))" by (rule mq_istep.send_copy) simp
  have r: "mq_irun (demo_queue, \<lambda>_. Out) ([] @ [] @ []) (?m2, ?pc1(0 := SendLinking 1 [7, 8]))"
    by (rule mq_irun.step [OF 1 mq_irun.step [OF 2 mq_irun.nil]])
  have wf: "mq_iwf (demo_queue, \<lambda>_. Out) []" using demo_queue(1-3) by (simp add: mq_iwf_def)
  from mq_interleaving_refines_queue [OF r wf] have "mq_msgs ?m2 = mq_msgs demo_queue" by simp
  moreover have "take 2 (mq_data ?m2 1) = [7, 8]"
    by (simp add: demo_queue blit_def)
  moreover have "mq_msgs demo_queue = []" by (simp add: mq_msgs_def demo_queue)
  ultimately show ?thesis using r by (intro exI [of _ ?m2] exI [of _ "?pc1(0 := SendLinking 1 [7, 8])"]) simp
qed

text \<open>
  \<open>rt_mq_send\<close> and \<open>rt_mq_urgent\<close> on every branch. A message longer than the queue's message size is
  refused with \<open>-RT_ERROR\<close>; when every node holds a message the call returns \<open>-RT_EFULL\<close>, and in both
  cases nothing changes. Otherwise the message is put at the end, or in front if urgent, with the
  caller's bytes at its start; the first thread waiting for a message is made ready, no other
  thread changes, and the thread that runs next is at least as urgent as that one.
\<close>

theorem rt_mq_send_branches:
  assumes "mq_wf n k" "rt_current_thread k = Some c" "rt_scheduler_lock_nest k = 0" "length buffer = unat sz"
    and "(op, add) \<in> {(rt_mq_send, \<lambda>x q. q @ [x]), (rt_mq_urgent, \<lambda>x q. x # q)}"
  shows "\<exists>r k'. op n buffer sz k = (r, k') \<and> mq_wf n k' \<and>
    (if unat sz > unat (mq_msg_size (mqs k n)) then r = - RT_ERROR \<and> k' = k
     else if length (mq_msgs (mqs k n)) = unat (mq_max_msgs (mqs k n)) then r = - RT_EFULL \<and> k' = k
     else r = RT_EOK \<and>
       (\<exists>x. take (unat sz) x = buffer \<and> mq_msgs (mqs k' n) = add x (mq_msgs (mqs k n))) \<and>
       (case tlists k (LMq n) of
          [] \<Rightarrow> threads k' = threads k
        | u # us \<Rightarrow> tlists k' (LMq n) = us \<and> prio k (self k') \<le> prio k u \<and>
            threads k' = (threads k)(u := (threads k u)\<lparr>th_stat := RT_THREAD_READY\<rparr>)))"
proof -
  let ?m = "mqs k n"
  have inv: "mq_inv ?m (mq_queued ?m) (mq_frees ?m) []" using assms(1) by (simp add: mq_wf_def)
  have full: "length (mq_msgs ?m) = unat (mq_max_msgs ?m) \<longleftrightarrow> mq_frees ?m = []"
    using mq_invD(1) [OF inv] by (auto simp: mq_msgs_def)
  have gt: "sz > ucast (mq_msg_size ?m) \<longleftrightarrow> unat sz > unat (mq_msg_size ?m)" by (simp add: word_less_nat_alt)
  from assms(5) have op: "op = rt_mq_send \<or> op = rt_mq_urgent" by auto
  consider (big) "unat sz > unat (mq_msg_size ?m)" | (full) "unat sz \<le> unat (mq_msg_size ?m)" "mq_frees ?m = []"
    | (room) "unat sz \<le> unat (mq_msg_size ?m)" "mq_frees ?m \<noteq> []" by linarith
  then show ?thesis
  proof cases
    case big
    then show ?thesis using op gt assms(1) by (auto simp: rt_mq_send_def rt_mq_urgent_def)
  next
    case full
    then have "mq_claim ?m = None" using mq_claim_inv(1) [OF inv] by simp
    then show ?thesis using full(1) op gt assms(1) \<open>_ \<longleftrightarrow> mq_frees ?m = []\<close> full(2)
      by (auto simp: rt_mq_send_def rt_mq_urgent_def)
  next
    case room
    then have "sz \<le> ucast (mq_msg_size ?m)" using gt by (simp add: word_le_nat_alt)
    from mq_send_spec [OF assms(1,2) this assms(4,5) room(2)]
    obtain k' where k': "op n buffer sz k = (RT_EOK, k')" "mq_wf n k'" "msgs_of k' n = add (mq_block ?m buffer) (msgs_of k n)"
      "threads k' = readied (tlists k (LMq n)) (threads k)" "tlists k' (LMq n) = tl (tlists k (LMq n))"
      "\<forall>t \<in> set (take 1 (tlists k (LMq n))). prio k (self k') \<le> prio k t" using assms(3) by auto
    have "length (mq_data ?m (hd (mq_frees ?m))) = unat (mq_msg_size ?m)" using inv by (simp add: mq_inv_def)
    then have "take (unat sz) (mq_block ?m buffer) = buffer" using room(1) assms(4) by (simp add: mq_block_def blit_def)
    then show ?thesis using k' room full by (cases "tlists k (LMq n)") auto
  qed
qed

definition demo_mq :: "tid list \<Rightarrow> kernel" where
  "demo_mq ts = upd_mq 0 (\<lambda>_. demo_queue) (demo_running 3 [5] (LMq 0) ts)"

lemma demo_mq:
  assumes "ts = [] \<or> ts = [2]"
  shows "mq_wf 0 (demo_mq ts)" "may_wait 3 (demo_mq ts)" "tlists (demo_mq ts) (LMq 0) = ts" "mqs (demo_mq ts) 0 = demo_queue"
proof -
  have "sched_wf (demo_running 3 [5] (LMq 0) ts)" using assms by (intro demo_running_wf) auto
  then show "mq_wf 0 (demo_mq ts)" using demo_queue
    by (simp add: demo_mq_def mq_wf_def demo_running_def demo_kernel_def)
  show "may_wait 3 (demo_mq ts)"
    by (auto simp: may_wait_def demo_mq_def demo_running_def demo_kernel_def demo_thread_def intro!: exI [of _ 5])
qed (simp_all add: demo_mq_def demo_running_def)

theorem rt_mq_send_branches_witness:
  "\<exists>k' x. rt_mq_send 0 [7, 8] 2 (demo_mq [2]) = (RT_EOK, k') \<and> take 2 x = [7, 8] \<and> mq_msgs (mqs k' 0) = [x] \<and>
     stat k' 2 = RT_THREAD_READY"
proof -
  note d = demo_mq [of "[2]", simplified]
  have "mq_max_msgs demo_queue = 2" by (simp add: demo_queue_def mq_free_nodes_def upt_rec)
  then show ?thesis
    using rt_mq_send_branches [OF d(1), of 3 "[7, 8]" 2 rt_mq_send "\<lambda>x q. q @ [x]"] d demo_queue
    by (auto simp: may_wait_def mq_msgs_def)
qed

text \<open>
  \<open>rt_mq_recv\<close> always comes back to the kernel: with the first message, cut to the size of the
  caller's buffer, its node free again and no thread changed; with \<open>-RT_ETIMEOUT\<close> and nothing
  changed when the queue is empty and the caller does not wait; or suspended in the list of waiting
  receivers, with the queue unchanged.
\<close>

theorem rt_mq_recv_branches:
  assumes "mq_wf n k" "may_wait t k"
  shows "\<exists>r k'. rt_mq_recv n sz timeout k = Some (r, k') \<and> mq_wf n k' \<and>
    (case mq_msgs (mqs k n) of
       x # q \<Rightarrow> r = Ret (RT_EOK, take (unat sz) x) \<and> mq_msgs (mqs k' n) = q \<and> threads k' = threads k \<and>
         length (mq_frees (mqs k' n)) = Suc (length (mq_frees (mqs k n)))
     | [] \<Rightarrow> if timeout = 0 then r = Ret (- RT_ETIMEOUT, []) \<and> k' = k
         else r = Blocked \<and> mqs k' = mqs k \<and> stat k' t = RT_THREAD_SUSPEND \<and>
           tlists k' (LMq n) = enqueue (obj_flag (OMq n) k) (prio k) t (tlists k (LMq n)))"
proof -
  let ?m = "mqs k n"
  have inv: "mq_inv ?m (mq_queued ?m) (mq_frees ?m) []" and sw: "sched_wf k" and f: "obj_flag (OMq n) k \<in> {0, 1}"
    using assms(1) by (simp_all add: mq_wf_def)
  have self: "self k = t" using assms(2) by (simp add: may_wait_def)
  have e: "mq_entry ?m = 0 \<longleftrightarrow> mq_msgs ?m = []" using mq_invD(4) [OF inv] by (simp add: mq_msgs_def)
  note w = wait_fresh_spec [OF sw assms(2) wait_list_mq [of n] f, where time = timeout]
  show ?thesis
  proof (cases "mq_msgs ?m")
    case Nil
    have "mq_wf n (wait_fresh (LMq n) (obj_flag (OMq n) k) timeout t k)" using w(1,8) assms(1) by (simp add: mq_wf_def)
    then show ?thesis using Nil e w(4,5,8) assms(1) self by (simp add: rt_mq_recv_def mq_recv_loop_eq [OF assms])
  next
    case (Cons x q)
    then show ?thesis using mq_recv_done_spec [OF assms(1) Cons, of sz] e self
      by (auto simp: rt_mq_recv_def mq_recv_loop_eq [OF assms])
  qed
qed

theorem rt_mq_recv_branches_witness:
  "\<exists>k'. rt_mq_recv 0 4 10 (demo_mq []) = Some (Blocked, k') \<and> tlists k' (LMq 0) = [3]"
proof -
  note d = demo_mq [of "[]", simplified]
  have "obj_flag (OMq 0) (demo_mq []) = 0" by (simp add: demo_mq_def demo_running_def demo_kernel_def)
  then show ?thesis using rt_mq_recv_branches [OF d(1,2), of 4 10] d demo_queue by (auto simp: mq_msgs_def enqueue_def)
qed

end
