(* ===== verification/Allocator.thy ===== *)
theory Allocator
  imports Prelude
begin

text \<open>
  What a client of a memory allocator relies on, as an interface: the small allocator behind \<open>rt_malloc\<close>
  and the memory heaps both provide it. A region is a pair of the address handed out and the end of the
  block. The client keeps the list of what it holds, the address and the size it asked for, and runs any
  sequence of requests and releases.
\<close>

section \<open>Clients\<close>

datatype mem_op = Request nat | Release nat

fun client_step :: "(nat \<Rightarrow> 'h \<Rightarrow> (nat option \<times> 'h) option) \<Rightarrow> (nat \<Rightarrow> 'h \<Rightarrow> 'h option) \<Rightarrow> mem_op \<Rightarrow>
    'h \<times> (nat \<times> nat) list \<Rightarrow> ('h \<times> (nat \<times> nat) list) option" where
  "client_step alloc free (Request n) (h, held) =
     map_option (\<lambda>(r, h). (h, case r of None \<Rightarrow> held | Some p \<Rightarrow> (p, n) # held)) (alloc n h)"
| "client_step alloc free (Release i) (h, held) =
     (if i < length held then map_option (\<lambda>h. (h, take i held @ drop (Suc i) held)) (free (fst (held ! i)) h) else Some (h, held))"

fun client_run :: "(nat \<Rightarrow> 'h \<Rightarrow> (nat option \<times> 'h) option) \<Rightarrow> (nat \<Rightarrow> 'h \<Rightarrow> 'h option) \<Rightarrow> mem_op list \<Rightarrow>
    'h \<times> (nat \<times> nat) list \<Rightarrow> ('h \<times> (nat \<times> nat) list) option" where
  "client_run alloc free [] c = Some c"
| "client_run alloc free (op # ops) c = Option.bind (client_step alloc free op c) (client_run alloc free ops)"

fun proper_op :: "mem_op \<Rightarrow> bool" where
  "proper_op (Request n) \<longleftrightarrow> 0 < n \<and> n + 3 < 2 ^ 32"
| "proper_op (Release i) \<longleftrightarrow> True"

text \<open>The regions held: inside the memory from \<open>lo\<close> to \<open>hi\<close>, and no two of them share a byte.\<close>

fun apart :: "nat \<Rightarrow> nat \<Rightarrow> (nat \<times> nat) list \<Rightarrow> bool" where
  "apart lo hi [] \<longleftrightarrow> True"
| "apart lo hi ((p, n) # held) \<longleftrightarrow> lo \<le> p \<and> p + n \<le> hi \<and> (\<forall>(q, m) \<in> set held. p + n \<le> q \<or> q + m \<le> p) \<and> apart lo hi held"

section \<open>The interface\<close>

locale allocator =
  fixes inv :: "'h \<Rightarrow> (nat \<times> nat) set \<Rightarrow> bool" and lo hi :: nat
    and alloc :: "nat \<Rightarrow> 'h \<Rightarrow> (nat option \<times> 'h) option" and free :: "nat \<Rightarrow> 'h \<Rightarrow> 'h option"
  assumes alloc_law: "inv h L \<Longrightarrow> 0 < n \<Longrightarrow> n + 3 < 2 ^ 32 \<Longrightarrow>
      alloc n h = Some (None, h) \<or>
      (\<exists>p e h'. alloc n h = Some (Some p, h') \<and> inv h' (insert (p, e) L) \<and> p \<notin> fst ` L \<and> p + n \<le> e)"
    and free_law: "inv h L \<Longrightarrow> (p, e) \<in> L \<Longrightarrow> \<exists>h'. free p h = Some h' \<and> inv h' (L - {(p, e)})"
    and region_law: "inv h L \<Longrightarrow> (p, e) \<in> L \<Longrightarrow> lo \<le> p \<and> e \<le> hi"
    and disjoint_law: "inv h L \<Longrightarrow> (p, e) \<in> L \<Longrightarrow> (q, f) \<in> L \<Longrightarrow> p \<noteq> q \<Longrightarrow> e \<le> q \<or> f \<le> p"
begin

text \<open>What is held are the blocks of the heap, with at least the bytes asked for in each.\<close>

definition holds :: "'h \<times> (nat \<times> nat) list \<Rightarrow> bool" where
  "holds c \<longleftrightarrow> (\<exists>e. inv (fst c) ((\<lambda>(p, n). (p, e p)) ` set (snd c)) \<and> distinct (map fst (snd c)) \<and> (\<forall>(p, n) \<in> set (snd c). p + n \<le> e p))"

lemma holds_apart: "holds (h, held) \<Longrightarrow> apart lo hi held"
proof -
  assume "holds (h, held)"
  then obtain e where i: "inv h ((\<lambda>(p, n). (p, e p)) ` set held)" "distinct (map fst held)" "\<forall>(p, n) \<in> set held. p + n \<le> e p"
    by (auto simp: holds_def)
  note rd = region_law [OF i(1)] disjoint_law [OF i(1)]
  have "apart lo hi xs" if "set xs \<subseteq> set held" "distinct (map fst xs)" for xs using that
  proof (induction xs)
    case (Cons x xs)
    obtain p n where x: "x = (p, n)" by (cases x)
    have p: "(p, e p) \<in> (\<lambda>(p, n). (p, e p)) ` set held" "p + n \<le> e p" using Cons.prems(1) i(3) by (force simp: x)+
    have "p + n \<le> q \<or> q + m \<le> p" if "(q, m) \<in> set xs" for q m
    proof -
      have "(q, e q) \<in> (\<lambda>(p, n). (p, e p)) ` set held" "q + m \<le> e q" "p \<noteq> q"
        using that Cons.prems i(3) by (force simp: x)+
      then show ?thesis using rd(2) [OF p(1)] p(2) by fastforce
    qed
    then show ?case using Cons rd(1) [OF p(1)] p(2) by (auto simp: x)
  qed simp
  then show ?thesis using i(2) by blast
qed

lemma step_holds:
  assumes "holds (h, held)" "proper_op op"
  shows "\<exists>c. client_step alloc free op (h, held) = Some c \<and> holds c"
proof -
  obtain e where i: "inv h ((\<lambda>(p, n). (p, e p)) ` set held)" "distinct (map fst held)" "\<forall>(p, n) \<in> set held. p + n \<le> e p"
    using assms(1) by (auto simp: holds_def)
  show ?thesis
  proof (cases op)
    case (Request n)
    consider "alloc n h = Some (None, h)" | p f h' where "alloc n h = Some (Some p, h')"
      "inv h' (insert (p, f) ((\<lambda>(p, n). (p, e p)) ` set held))" "p \<notin> fst ` set held" "p + n \<le> f"
      using alloc_law [OF i(1), of n] assms(2) Request by (force simp: image_image split_def)
    then show ?thesis
    proof cases
      case (2 p f h')
      have "(\<lambda>(p, n). (p, e p)) ` set held = (\<lambda>(q, n). (q, (e(p := f)) q)) ` set held"
        using 2(3) by (intro image_cong) force+
      moreover have "\<forall>(q, m) \<in> set held. q + m \<le> (e(p := f)) q" using i(3) 2(3) by force
      ultimately have "holds (h', (p, n) # held)" using 2(2-4) i(2) unfolding holds_def by (intro exI [of _ "e(p := f)"]) simp
      then show ?thesis using 2(1) Request by simp
    qed (use assms(1) Request in simp)
  next
    case (Release j)
    show ?thesis
    proof (cases "j < length held")
      case True
      obtain p n where pn: "held ! j = (p, n)" by (cases "held ! j")
      define xs ys where "xs = take j held" and "ys = drop (Suc j) held"
      have h: "held = xs @ (p, n) # ys" using id_take_nth_drop [OF True] pn by (simp add: xs_def ys_def)
      obtain h' where h': "free p h = Some h'" "inv h' ((\<lambda>(p, n). (p, e p)) ` set held - {(p, e p)})"
        using free_law [OF i(1), of p "e p"] by (force simp: h)
      have "(\<lambda>(p, n). (p, e p)) ` set held - {(p, e p)} = (\<lambda>(p, n). (p, e p)) ` set (xs @ ys)"
        using i(2) by (force simp: h)
      then have "holds (h', xs @ ys)" using h' i(2,3) by (auto simp: holds_def h intro!: exI [of _ e])
      then show ?thesis using True h'(1) pn Release by (simp add: xs_def ys_def)
    qed (use assms(1) Release in simp)
  qed
qed

text \<open>Every history of requests and releases runs to its end, and what is held at its end is apart.\<close>

lemma run_holds: "holds c \<Longrightarrow> \<forall>op \<in> set ops. proper_op op \<Longrightarrow> \<exists>c'. client_run alloc free ops c = Some c' \<and> holds c'"
proof (induction ops arbitrary: c)
  case (Cons op ops)
  then show ?case using step_holds [of "fst c" "snd c" op] by fastforce
qed simp

theorem history:
  assumes "inv h {}" "\<forall>op \<in> set ops. proper_op op"
  shows "\<exists>h' held. client_run alloc free ops (h, []) = Some (h', held) \<and> apart lo hi held \<and> (held = [] \<longrightarrow> inv h' {})"
proof -
  have "holds (h, [])" using assms(1) by (simp add: holds_def)
  then obtain c where c: "client_run alloc free ops (h, []) = Some c" "holds c" using run_holds assms(2) by blast
  obtain h' held where "c = (h', held)" by (cases c)
  then show ?thesis using c holds_apart [of h' held] by (auto simp: holds_def)
qed

end

end
