(* ===== verification/Mem.thy ===== *)
theory Mem
  imports Prelude Allocator
begin

text \<open>
  The small memory allocator (\<open>src/mem.c\<close>): the heap is tiled by blocks with a 12-byte header in front
  of each; headers are doubly linked by offsets from \<open>heap_ptr\<close>. Sizes and offsets are \<open>nat\<close> below
  \<open>2 ^ 32\<close>; where the C arithmetic can wrap (alignment of a size, differences, products) the wrap is
  written out. A pointer to a header is its offset, a pointer handed to a client the address of the
  byte behind the header, \<open>None\<close> the null pointer. Headers and client data are kept in two maps, by
  offset and by address: a client writes inside its block only. The calls of the heap's own semaphore around each
  operation are left out, an operation is one step; a loop that never ends is \<open>None\<close>.
\<close>

section \<open>State\<close>

abbreviation (input) HEAP_MAGIC :: u16 where "HEAP_MAGIC \<equiv> 0x1ea0"
abbreviation (input) MIN_SIZE_ALIGNED :: nat where "MIN_SIZE_ALIGNED \<equiv> 12"
abbreviation (input) SIZEOF_STRUCT_MEM :: nat where "SIZEOF_STRUCT_MEM \<equiv> 12"

record heap_mem =
  hm_magic :: u16
  hm_used :: u16
  hm_next :: nat
  hm_prev :: nat

record heap =
  heap_ptr :: nat
  heap_end :: nat
  lfree :: nat
  mem_size_aligned :: nat
  used_mem :: nat
  max_mem :: nat
  hmem :: "nat \<Rightarrow> heap_mem"
  hdata :: "nat \<Rightarrow> u8"

definition sub32 :: "nat \<Rightarrow> nat \<Rightarrow> nat" where
  "sub32 a b = (a + 2 ^ 32 - b) mod 2 ^ 32"

definition align_up4 :: "nat \<Rightarrow> nat" where
  "align_up4 a = (a + 3) mod 2 ^ 32 div 4 * 4"

definition align_down4 :: "nat \<Rightarrow> nat" where
  "align_down4 a = a div 4 * 4"

definition upd_mem :: "nat \<Rightarrow> (heap_mem \<Rightarrow> heap_mem) \<Rightarrow> heap \<Rightarrow> heap" where
  "upd_mem p g h = h\<lparr>hmem := (hmem h)(p := g (hmem h p))\<rparr>"

section \<open>Operations\<close>

definition plug_forward :: "nat \<Rightarrow> heap \<Rightarrow> heap" where
  "plug_forward mem h =
     (let nmem = hm_next (hmem h mem)
      in if mem \<noteq> nmem \<and> hm_used (hmem h nmem) = 0 \<and> nmem \<noteq> heap_end h then
           let h = (if lfree h = nmem then h\<lparr>lfree := mem\<rparr> else h);
               h = upd_mem mem (\<lambda>m. m\<lparr>hm_next := hm_next (hmem h nmem)\<rparr>) h
           in upd_mem (hm_next (hmem h nmem)) (\<lambda>m. m\<lparr>hm_prev := mem\<rparr>) h
         else h)"

definition plug_backward :: "nat \<Rightarrow> heap \<Rightarrow> heap" where
  "plug_backward mem h =
     (let pmem = hm_prev (hmem h mem)
      in if pmem \<noteq> mem \<and> hm_used (hmem h pmem) = 0 then
           let h = (if lfree h = mem then h\<lparr>lfree := pmem\<rparr> else h);
               h = upd_mem pmem (\<lambda>m. m\<lparr>hm_next := hm_next (hmem h mem)\<rparr>) h
           in upd_mem (hm_next (hmem h mem)) (\<lambda>m. m\<lparr>hm_prev := pmem\<rparr>) h
         else h)"

definition plug_holes :: "nat \<Rightarrow> heap \<Rightarrow> heap" where
  "plug_holes mem h = plug_backward mem (plug_forward mem h)"

text \<open>\<open>None\<close>: the message for a region that is too small, nothing is set up.\<close>

definition rt_system_heap_init :: "nat \<Rightarrow> nat \<Rightarrow> heap \<Rightarrow> heap option" where
  "rt_system_heap_init begin_addr end_addr h =
     (let begin_align = align_up4 begin_addr; end_align = align_down4 end_addr
      in if end_align > 2 * SIZEOF_STRUCT_MEM \<and> end_align - 2 * SIZEOF_STRUCT_MEM \<ge> begin_align then
           let m = end_align - begin_align - 2 * SIZEOF_STRUCT_MEM;
               e = m + SIZEOF_STRUCT_MEM
           in Some (h\<lparr>mem_size_aligned := m, heap_ptr := begin_align, heap_end := e, lfree := 0,
                      hmem := (hmem h)(0 := \<lparr>hm_magic = HEAP_MAGIC, hm_used = 0, hm_next = e, hm_prev = 0\<rparr>,
                                       e := \<lparr>hm_magic = HEAP_MAGIC, hm_used = 1, hm_next = e, hm_prev = e\<rparr>)\<rparr>)
         else None)"

text \<open>The search loop of \<open>rt_malloc\<close>: the offset of the block taken, or \<open>None\<close> inside when the loop ends.\<close>

partial_function (option) malloc_find :: "nat \<Rightarrow> nat \<Rightarrow> heap \<Rightarrow> nat option option" where
  "malloc_find sz ptr h =
     (if ptr < sub32 (mem_size_aligned h) sz then
        if hm_used (hmem h ptr) = 0 \<and> sub32 (hm_next (hmem h ptr)) (ptr + SIZEOF_STRUCT_MEM) \<ge> sz
        then Some (Some ptr)
        else malloc_find sz (hm_next (hmem h ptr)) h
      else Some None)"

partial_function (option) lfree_loop :: "nat \<Rightarrow> heap \<Rightarrow> nat option" where
  "lfree_loop p h =
     (if hm_used (hmem h p) \<noteq> 0 \<and> p \<noteq> heap_end h then lfree_loop (hm_next (hmem h p)) h else Some p)"

definition count_used :: "nat \<Rightarrow> heap \<Rightarrow> heap" where
  "count_used n h =
     (let u = (used_mem h + n) mod 2 ^ 32
      in h\<lparr>used_mem := u, max_mem := (if max_mem h < u then u else max_mem h)\<rparr>)"

text \<open>Cutting the block at \<open>ptr\<close> in two: a free block is made at \<open>ptr2\<close>, inside it.\<close>

definition split_block :: "nat \<Rightarrow> nat \<Rightarrow> heap \<Rightarrow> heap" where
  "split_block ptr ptr2 h =
     (let nx = hm_next (hmem h ptr);
          h = upd_mem ptr2 (\<lambda>_. \<lparr>hm_magic = HEAP_MAGIC, hm_used = 0, hm_next = nx, hm_prev = ptr\<rparr>) h;
          h = upd_mem ptr (\<lambda>m. m\<lparr>hm_next := ptr2\<rparr>) h
      in if nx \<noteq> mem_size_aligned h + SIZEOF_STRUCT_MEM
         then upd_mem nx (\<lambda>m. m\<lparr>hm_prev := ptr2\<rparr>) h else h)"

definition malloc_take :: "nat \<Rightarrow> nat \<Rightarrow> heap \<Rightarrow> heap option" where
  "malloc_take ptr sz h =
     (let nx = hm_next (hmem h ptr);
          h = (if sub32 nx (ptr + SIZEOF_STRUCT_MEM) \<ge> sz + SIZEOF_STRUCT_MEM + MIN_SIZE_ALIGNED then
                 let h = split_block ptr (ptr + SIZEOF_STRUCT_MEM + sz) h;
                     h = upd_mem ptr (\<lambda>m. m\<lparr>hm_used := 1\<rparr>) h
                 in count_used (sz + SIZEOF_STRUCT_MEM) h
               else count_used (sub32 nx ptr) (upd_mem ptr (\<lambda>m. m\<lparr>hm_used := 1\<rparr>) h));
          h = upd_mem ptr (\<lambda>m. m\<lparr>hm_magic := HEAP_MAGIC\<rparr>) h
      in if ptr = lfree h then map_option (\<lambda>l. h\<lparr>lfree := l\<rparr>) (lfree_loop (lfree h) h) else Some h)"

definition rt_malloc :: "nat \<Rightarrow> heap \<Rightarrow> (nat option \<times> heap) option" where
  "rt_malloc sz h =
     (if sz = 0 then Some (None, h)
      else
        let sz = align_up4 sz
        in if sz > mem_size_aligned h then Some (None, h)
           else
             let sz = (if sz < MIN_SIZE_ALIGNED then MIN_SIZE_ALIGNED else sz)
             in case malloc_find sz (lfree h) h of
                  None \<Rightarrow> None
                | Some None \<Rightarrow> Some (None, h)
                | Some (Some ptr) \<Rightarrow> map_option (\<lambda>h. (Some (heap_ptr h + ptr + SIZEOF_STRUCT_MEM), h)) (malloc_take ptr sz h))"

text \<open>\<open>rt_free\<close> of an address outside the heap returns without effect.\<close>

definition rt_free :: "nat option \<Rightarrow> heap \<Rightarrow> heap" where
  "rt_free rmem h =
     (case rmem of
        None \<Rightarrow> h
      | Some r \<Rightarrow>
          if r < heap_ptr h \<or> r \<ge> heap_ptr h + heap_end h then h
          else
            let mem = r - SIZEOF_STRUCT_MEM - heap_ptr h;
                h = upd_mem mem (\<lambda>m. m\<lparr>hm_used := 0, hm_magic := HEAP_MAGIC\<rparr>) h;
                h = (if mem < lfree h then h\<lparr>lfree := mem\<rparr> else h);
                h = h\<lparr>used_mem := sub32 (used_mem h) (sub32 (hm_next (hmem h mem)) mem)\<rparr>
            in plug_holes mem h)"

definition copy_bytes :: "nat \<Rightarrow> nat \<Rightarrow> nat \<Rightarrow> heap \<Rightarrow> heap" where
  "copy_bytes dst src n h = h\<lparr>hdata := (\<lambda>a. if dst \<le> a \<and> a < dst + n then hdata h (src + (a - dst)) else hdata h a)\<rparr>"

definition rt_realloc :: "nat option \<Rightarrow> nat \<Rightarrow> heap \<Rightarrow> (nat option \<times> heap) option" where
  "rt_realloc rmem newsize h =
     (let newsize = align_up4 newsize
      in if newsize > mem_size_aligned h then Some (None, h)
         else if newsize = 0 then Some (None, rt_free rmem h)
         else case rmem of
                None \<Rightarrow> rt_malloc newsize h
              | Some r \<Rightarrow>
                  if r < heap_ptr h \<or> r \<ge> heap_ptr h + heap_end h then Some (rmem, h)
                  else
                    let ptr = r - SIZEOF_STRUCT_MEM - heap_ptr h;
                        nx = hm_next (hmem h ptr);
                        sz = sub32 (sub32 nx ptr) SIZEOF_STRUCT_MEM
                    in if sz = newsize then Some (rmem, h)
                       else if newsize + SIZEOF_STRUCT_MEM + 12 < sz then
                         let h = h\<lparr>used_mem := sub32 (used_mem h) (sz - newsize)\<rparr>;
                             ptr2 = ptr + SIZEOF_STRUCT_MEM + newsize
                         in Some (rmem, plug_holes ptr2 (split_block ptr ptr2 h))
                       else
                         case rt_malloc newsize h of
                           None \<Rightarrow> None
                         | Some (None, h) \<Rightarrow> Some (None, h)
                         | Some (Some nmem, h) \<Rightarrow>
                             Some (Some nmem, rt_free rmem (copy_bytes nmem r (if sz < newsize then sz else newsize) h)))"

definition rt_calloc :: "nat \<Rightarrow> nat \<Rightarrow> heap \<Rightarrow> (nat option \<times> heap) option" where
  "rt_calloc count sz h =
     (let n = count * sz mod 2 ^ 32
      in map_option (\<lambda>(p, h).
           (p, case p of
                 None \<Rightarrow> h
               | Some p \<Rightarrow> h\<lparr>hdata := (\<lambda>a. if p \<le> a \<and> a < p + n then 0 else hdata h a)\<rparr>)) (rt_malloc n h))"

definition rt_memory_info :: "heap \<Rightarrow> nat \<times> nat \<times> nat" where
  "rt_memory_info h = (mem_size_aligned h, used_mem h, max_mem h)"

section \<open>The tiling\<close>

text \<open>
  A block \<open>(s, n, u)\<close> reaches from its header at \<open>s\<close> to the next header at \<open>n\<close> and is in use iff \<open>u\<close>.
  \<open>tiled h p a bs e\<close>: the headers from \<open>a\<close> to \<open>e\<close> are those of the blocks \<open>bs\<close>, the block before being at \<open>p\<close>.
\<close>

type_synonym block = "nat \<times> nat \<times> bool"

abbreviation header :: "nat \<Rightarrow> nat \<Rightarrow> bool \<Rightarrow> heap_mem" where
  "header p n u \<equiv> \<lparr>hm_magic = HEAP_MAGIC, hm_used = (if u then 1 else 0), hm_next = n, hm_prev = p\<rparr>"

fun tiled :: "(nat \<Rightarrow> heap_mem) \<Rightarrow> nat \<Rightarrow> nat \<Rightarrow> block list \<Rightarrow> nat \<Rightarrow> bool" where
  "tiled f p a [] e \<longleftrightarrow> a = e"
| "tiled f p a ((s, n, u) # bs) e \<longleftrightarrow>
     s = a \<and> a + 16 \<le> n \<and> 4 dvd a \<and> 4 dvd n \<and> f a = header p n u \<and> tiled f a n bs e"

definition last_start :: "nat \<Rightarrow> block list \<Rightarrow> nat" where
  "last_start p bs = (if bs = [] then p else fst (last bs))"

lemma last_start_simps [simp]:
  "last_start p [] = p" "last_start p (b # bs) = last_start (fst b) bs" "last_start p (bs @ [b]) = fst b"
  by (simp_all add: last_start_def)

lemma tiled_append:
  "tiled f p a (xs @ ys) e \<longleftrightarrow> (\<exists>m. tiled f p a xs m \<and> tiled f (last_start p xs) m ys e)"
  by (induction xs arbitrary: p a) auto

lemma tiled_split:
  "tiled f p a (xs @ (s, n, u) # ys) e \<longleftrightarrow> tiled f p a xs s \<and> tiled f (last_start p xs) s ((s, n, u) # ys) e"
  by (auto simp: tiled_append)

lemma tiled_bounds: "tiled f p a bs e \<Longrightarrow> a \<le> e"
  by (induction bs arbitrary: p a) fastforce+

lemma tiled_mem:
  "tiled f p a bs e \<Longrightarrow> (s, n, u) \<in> set bs \<Longrightarrow> a \<le> s \<and> s + 16 \<le> n \<and> n \<le> e \<and> 4 dvd s \<and> 4 dvd n"
proof (induction bs arbitrary: p a)
  case (Cons b bs)
  obtain s' n' u' where b: "b = (s', n', u')" by (metis prod_cases3)
  show ?case
  proof (cases "(s, n, u) = b")
    case True
    then show ?thesis using Cons.prems b tiled_bounds [of f s' n' bs e] by auto
  next
    case False
    then have "n' \<le> s \<and> s + 16 \<le> n \<and> n \<le> e \<and> 4 dvd s \<and> 4 dvd n" using Cons b by auto
    then show ?thesis using Cons.prems b by auto
  qed
qed simp

lemma tiled_cong:
  assumes "tiled f p a bs e" "\<And>x. a \<le> x \<Longrightarrow> x < e \<Longrightarrow> g x = f x"
  shows "tiled g p a bs e"
  using assms
proof (induction bs arbitrary: p a)
  case (Cons b bs)
  obtain s n u where b: "b = (s, n, u)" by (metis prod_cases3)
  have "n \<le> e" using Cons.prems b tiled_bounds [of f s n bs e] by auto
  then show ?case using Cons b by auto
qed simp

text \<open>Only the first header of a tiling knows what is before it.\<close>

lemma tiled_prev:
  assumes "tiled f p a bs e" "bs \<noteq> []" "g = f(a := (f a)\<lparr>hm_prev := p'\<rparr>)"
  shows "tiled g p' a bs e"
proof -
  obtain s n u bs' where b: "bs = (s, n, u) # bs'" using assms(2) by (metis list.exhaust prod_cases3)
  have t: "tiled f a n bs' e" "a + 16 \<le> n" using assms(1) b by simp_all
  have "tiled g a n bs' e" by (rule tiled_cong [OF t(1)]) (use t(2) assms(3) in auto)
  then show ?thesis using assms b by simp
qed

text \<open>Live blocks do not overlap.\<close>

lemma tiled_disjoint:
  assumes "tiled f p a bs e" "(s, n, u) \<in> set bs" "(s', n', u') \<in> set bs" "s < s'"
  shows "n \<le> s'"
  using assms
proof (induction bs arbitrary: p a)
  case (Cons b bs)
  obtain x y z where b: "b = (x, y, z)" by (metis prod_cases3)
  have t: "tiled f x y bs e" "x + 16 \<le> y" "a = x" using Cons.prems b by auto
  show ?case using Cons b t tiled_mem [OF t(1), of s n u] tiled_mem [OF t(1), of s' n' u'] by auto
qed simp

lemma tiled_unique:
  assumes "tiled f p a bs e" "(s, n, u) \<in> set bs" "(s, n', u') \<in> set bs"
  shows "n = n' \<and> u = u'"
  using assms
proof (induction bs arbitrary: p a)
  case (Cons b bs)
  obtain x y z where b: "b = (x, y, z)" by (metis prod_cases3)
  have t: "tiled f x y bs e" "x + 16 \<le> y" "a = x" using Cons.prems b by auto
  show ?case using Cons b t tiled_mem [OF t(1), of s n u] tiled_mem [OF t(1), of s n' u'] by auto
qed simp

section \<open>Invariant\<close>

text \<open>No two free blocks are neighbours.\<close>

fun coalesced :: "block list \<Rightarrow> bool" where
  "coalesced ((s, n, u) # (s', n', u') # bs) \<longleftrightarrow> (u \<or> u') \<and> coalesced ((s', n', u') # bs)"
| "coalesced _ \<longleftrightarrow> True"

fun first_free :: "block list \<Rightarrow> nat \<Rightarrow> nat" where
  "first_free [] e = e"
| "first_free ((s, n, u) # bs) e = (if u then first_free bs e else s)"

definition used_sum :: "block list \<Rightarrow> nat" where
  "used_sum bs = sum_list (map (\<lambda>(s, n, u). if u then n - s else 0) bs)"

text \<open>\<open>heap_shape\<close> is what every operation keeps; \<open>heap_inv\<close> adds that \<open>lfree\<close> is the lowest free block.\<close>

definition heap_shape :: "heap \<Rightarrow> block list \<Rightarrow> bool" where
  "heap_shape h bs \<longleftrightarrow> tiled (hmem h) 0 0 bs (heap_end h) \<and> bs \<noteq> [] \<and> coalesced bs \<and>
     heap_end h = mem_size_aligned h + 12 \<and> heap_end h + 12 < 2 ^ 32 \<and> hm_used (hmem h (heap_end h)) = 1 \<and>
     hm_next (hmem h (heap_end h)) = heap_end h \<and> used_mem h = used_sum bs"

definition heap_inv :: "heap \<Rightarrow> block list \<Rightarrow> bool" where
  "heap_inv h bs \<longleftrightarrow> heap_shape h bs \<and> lfree h = first_free bs (heap_end h)"

lemma heap_shapeD:
  assumes "heap_shape h bs"
  shows "tiled (hmem h) 0 0 bs (heap_end h)" "coalesced bs" "heap_end h = mem_size_aligned h + 12"
    "heap_end h + 12 < 2 ^ 32" "hm_used (hmem h (heap_end h)) = 1" "hm_next (hmem h (heap_end h)) = heap_end h"
    "used_mem h = used_sum bs" "bs \<noteq> []"
  using assms unfolding heap_shape_def by blast+

lemma sub32_simp [simp]: "b \<le> a \<Longrightarrow> a < 2 ^ 32 \<Longrightarrow> sub32 a b = a - b"
proof -
  assume a: "b \<le> a" "a < 2 ^ 32"
  then have "a + 2 ^ 32 - b = (a - b) + 2 ^ 32" by simp
  then have "sub32 a b = (a - b) mod 2 ^ 32" unfolding sub32_def by (simp only: mod_add_self2)
  then show ?thesis using a by simp
qed

lemma coalesced_append:
  "coalesced (xs @ ys) \<longleftrightarrow> coalesced xs \<and> coalesced ys \<and>
     (xs = [] \<or> ys = [] \<or> snd (snd (last xs)) \<or> snd (snd (hd ys)))"
proof (induction xs)
  case (Cons b xs)
  obtain s n u where "b = (s, n, u)" by (metis prod_cases3)
  then show ?case using Cons.IH by (cases xs; cases ys) auto
qed simp

lemma first_free_append: "first_free (xs @ ys) e = first_free xs (first_free ys e)"
  by (induction xs e rule: first_free.induct) auto

lemma used_sum_simps [simp]:
  "used_sum [] = 0" "used_sum ((s, n, u) # bs) = (if u then n - s else 0) + used_sum bs"
  "used_sum (xs @ ys) = used_sum xs + used_sum ys"
  by (simp_all add: used_sum_def)

lemma used_sum_le: "tiled f p a bs e \<Longrightarrow> used_sum bs \<le> e - a"
proof (induction bs arbitrary: p a)
  case (Cons b bs)
  obtain s n u where b: "b = (s, n, u)" by (metis prod_cases3)
  have "used_sum bs \<le> e - n" "n \<le> e" "a + 16 \<le> n" "s = a" using Cons b tiled_bounds [of f s n bs e] by auto
  then show ?case using b by auto
qed simp

section \<open>Replacing a stretch of blocks\<close>

lemma tiled_replace:
  assumes xs: "tiled f p a xs s" and ys: "tiled f q n ys e" and mid: "tiled f' (last_start p xs) s mid n" "mid \<noteq> []"
    and low: "\<And>x. x < s \<Longrightarrow> f' x = f x" and high: "\<And>x. n < x \<Longrightarrow> x < e \<Longrightarrow> f' x = f x"
    and at: "ys \<noteq> [] \<Longrightarrow> f' n = (f n)\<lparr>hm_prev := last_start p mid\<rparr>"
  shows "tiled f' p a (xs @ mid @ ys) e"
proof -
  have 1: "tiled f' p a xs s" by (rule tiled_cong [OF xs]) (simp add: low)
  have l: "last_start p' mid = last_start p mid" for p' using mid(2) by (simp add: last_start_def)
  have 2: "tiled f' (last_start p mid) n ys e"
  proof (cases "ys = []")
    case True
    then show ?thesis using ys by simp
  next
    case False
    have "tiled (f(n := (f n)\<lparr>hm_prev := last_start p mid\<rparr>)) (last_start p mid) n ys e"
      by (rule tiled_prev [OF ys False refl])
    then show ?thesis by (rule tiled_cong) (use at [OF False] high in auto)
  qed
  show ?thesis unfolding tiled_append using 1 mid 2 l by (metis last_start_def append_Nil2)
qed

text \<open>The blocks around a given one.\<close>

lemma tiled_around:
  assumes "tiled f 0 0 (xs @ (s, n, u) # ys) e"
  shows "tiled f 0 0 xs s" "tiled f s n ys e" "f s = header (last_start 0 xs) n u" "s + 16 \<le> n" "n \<le> e" "4 dvd s" "4 dvd n"
    "ys = [] \<longleftrightarrow> n = e" "last_start 0 xs = s \<longleftrightarrow> xs = []"
proof -
  have t: "tiled f 0 0 xs s" "tiled f s n ys e" "f s = header (last_start 0 xs) n u" "s + 16 \<le> n" "4 dvd s" "4 dvd n"
    using assms by (simp_all add: tiled_split)
  then show "tiled f 0 0 xs s" "tiled f s n ys e" "f s = header (last_start 0 xs) n u" "s + 16 \<le> n" "4 dvd s" "4 dvd n"
    by blast+
  show "n \<le> e" by (rule tiled_bounds [OF t(2)])
  show "ys = [] \<longleftrightarrow> n = e"
  proof (cases ys)
    case (Cons b bs)
    obtain x y z where "b = (x, y, z)" by (metis prod_cases3)
    then show ?thesis using t(2) Cons tiled_bounds [of f x y bs e] by auto
  qed (use t(2) in simp)
  show "last_start 0 xs = s \<longleftrightarrow> xs = []"
  proof (cases xs rule: rev_cases)
    case (snoc zs b)
    obtain x y z where b: "b = (x, y, z)" by (metis prod_cases3)
    then have "x + 16 \<le> s" using t(1) snoc tiled_mem [OF t(1), of x y z] by auto
    then show ?thesis using snoc b by simp
  qed (use t(1) in auto)
qed

lemma first_free_all_used: "\<forall>(s, n, u) \<in> set xs. u \<Longrightarrow> first_free xs e = e"
  by (induction xs e rule: first_free.induct) auto

lemma first_free_found: "(s, n, False) \<in> set xs \<Longrightarrow> first_free xs e = first_free xs e'"
  by (induction xs e rule: first_free.induct) auto

lemma first_free_mem: "(s, n, False) \<in> set xs \<Longrightarrow> \<exists>n'. (first_free xs e, n', False) \<in> set xs"
  by (induction xs e rule: first_free.induct) auto

lemma first_free_le:
  assumes "tiled f p a bs e" shows "first_free bs e \<le> e"
  using assms
proof (cases "\<exists>s n. (s, n, False) \<in> set bs")
  case True
  then obtain s n where "(s, n, False) \<in> set bs" by blast
  from first_free_mem [OF this, of e] tiled_mem [OF assms] show ?thesis by fastforce
next
  case False
  then have "\<forall>(s, n, u) \<in> set bs. u" by (metis (full_types) case_prodI2)
  then show ?thesis by (simp add: first_free_all_used)
qed

text \<open>A block \<open>s\<close> is the lowest free one iff the blocks before it are in use.\<close>

lemma first_free_at:
  assumes "tiled f 0 0 (xs @ (s, n, False) # ys) e"
  shows "first_free (xs @ (s, n, False) # ys) e = s \<longleftrightarrow> (\<forall>(s, n, u) \<in> set xs. u)"
proof
  assume "first_free (xs @ (s, n, False) # ys) e = s"
  then have ff: "first_free xs s = s" by (simp add: first_free_append)
  have "u" if "(s', n', u) \<in> set xs" for s' n' u
  proof (rule ccontr)
    assume "\<not> u"
    then have "\<exists>m. (first_free xs s, m, False) \<in> set xs" using first_free_mem [of s' n' xs] that by auto
    then show False using ff tiled_mem [OF tiled_around(1) [OF assms]] by fastforce
  qed
  then show "\<forall>(s, n, u) \<in> set xs. u" by blast
qed (simp add: first_free_append first_free_all_used)

lemma lfree_loop_spec:
  assumes "tiled (hmem h) p a ys (heap_end h)" "hm_used (hmem h (heap_end h)) = 1"
  shows "lfree_loop a h = Some (first_free ys (heap_end h))"
  using assms(1)
proof (induction ys arbitrary: p a)
  case Nil
  then show ?case by (subst lfree_loop.simps) simp
next
  case (Cons b bs)
  obtain s n u where b: "b = (s, n, u)" by (metis prod_cases3)
  have t: "s = a" "a + 16 \<le> n" "hmem h a = header p n u" "tiled (hmem h) a n bs (heap_end h)" using Cons.prems b by auto
  then have "a \<noteq> heap_end h" using tiled_bounds [OF t(4)] by auto
  then show ?case using Cons.IH [OF t(4)] t b by (subst lfree_loop.simps) simp
qed

section \<open>Allocation is first fit\<close>

fun fits :: "nat \<Rightarrow> nat \<Rightarrow> block \<Rightarrow> bool" where
  "fits m sz (s, n, u) \<longleftrightarrow> \<not> u \<and> sz \<le> n - (s + 12) \<and> s < m - sz"

lemma malloc_find_spec:
  assumes t: "tiled (hmem h) p a ys (heap_end h)" and e: "heap_end h = mem_size_aligned h + 12" "heap_end h + 12 < 2 ^ 32"
    and sz: "sz \<le> mem_size_aligned h"
  shows "malloc_find sz a h = Some (map_option fst (find (fits (mem_size_aligned h) sz) ys))"
  using t
proof (induction ys arbitrary: p a)
  case Nil
  then have "\<not> a < mem_size_aligned h - sz" using e by simp
  then show ?case using e sz by (subst malloc_find.simps) simp
next
  case (Cons b bs)
  let ?m = "mem_size_aligned h"
  obtain s n u where b: "b = (s, n, u)" by (metis prod_cases3)
  have t: "s = a" "a + 16 \<le> n" "hmem h a = header p n u" "tiled (hmem h) a n bs (heap_end h)" using Cons.prems b by auto
  have n: "n \<le> heap_end h" by (rule tiled_bounds [OF t(4)])
  have s1: "sub32 ?m sz = ?m - sz" "sub32 n (a + 12) = n - (a + 12)" using e sz n t(2) by simp_all
  show ?case
  proof (cases "a < ?m - sz")
    case False
    have "\<not> fits ?m sz x" if "x \<in> set (b # bs)" for x
    proof -
      obtain s' n' u' where x: "x = (s', n', u')" by (metis prod_cases3)
      then have "a \<le> s'" using tiled_mem [OF Cons.prems] that by blast
      then show ?thesis using False x by auto
    qed
    then have "find (fits ?m sz) (b # bs) = None" using find_None_iff by blast
    then show ?thesis using False s1 by (subst malloc_find.simps) simp
  next
    case True
    then show ?thesis using Cons.IH [OF t(4)] t s1 b by (subst malloc_find.simps) auto
  qed
qed

text \<open>Taking the block \<open>s\<close>, which is split when the rest can hold a block of its own.\<close>

definition taken :: "nat \<Rightarrow> nat \<Rightarrow> nat \<Rightarrow> block list" where
  "taken sz s n =
     (if n - (s + 12) \<ge> sz + 24 then [(s, s + 12 + sz, True), (s + 12 + sz, n, False)] else [(s, n, True)])"

lemma upd_mem_simps [simp]:
  "hmem (upd_mem p g h) = (hmem h)(p := g (hmem h p))" "lfree (upd_mem p g h) = lfree h"
  "heap_end (upd_mem p g h) = heap_end h" "mem_size_aligned (upd_mem p g h) = mem_size_aligned h"
  "heap_ptr (upd_mem p g h) = heap_ptr h" "hdata (upd_mem p g h) = hdata h" "used_mem (upd_mem p g h) = used_mem h"
  "max_mem (upd_mem p g h) = max_mem h"
  by (simp_all add: upd_mem_def)

lemma count_used_simps [simp]:
  "hmem (count_used n h) = hmem h" "lfree (count_used n h) = lfree h" "heap_end (count_used n h) = heap_end h"
  "mem_size_aligned (count_used n h) = mem_size_aligned h" "heap_ptr (count_used n h) = heap_ptr h"
  "hdata (count_used n h) = hdata h" "used_mem (count_used n h) = (used_mem h + n) mod 2 ^ 32"
  by (simp_all add: count_used_def Let_def)

lemma split_block_simps [simp]:
  "lfree (split_block p q h) = lfree h" "heap_end (split_block p q h) = heap_end h"
  "mem_size_aligned (split_block p q h) = mem_size_aligned h" "heap_ptr (split_block p q h) = heap_ptr h"
  "hdata (split_block p q h) = hdata h" "used_mem (split_block p q h) = used_mem h"
  by (simp_all add: split_block_def Let_def)

lemma split_block_tiled:
  assumes t: "tiled (hmem h) 0 0 (xs @ (s, n, u) # ys) (heap_end h)" and e: "heap_end h = mem_size_aligned h + 12"
    and q: "s + 16 \<le> q" "q + 16 \<le> n" "4 dvd q"
  shows "tiled (hmem (split_block s q h)) 0 0 (xs @ [(s, q, u), (q, n, False)] @ ys) (heap_end h)"
    "hmem (split_block s q h) (heap_end h) = hmem h (heap_end h)"
proof -
  note a = tiled_around [OF t]
  define f1 where "f1 = (hmem h)(q := header s n False, s := header (last_start 0 xs) q u)"
  have hm: "hmem (split_block s q h) = (if n \<noteq> heap_end h then f1(n := (f1 n)\<lparr>hm_prev := q\<rparr>) else f1)"
    using a(3) q e by (auto simp: split_block_def Let_def f1_def)
  show "tiled (hmem (split_block s q h)) 0 0 (xs @ [(s, q, u), (q, n, False)] @ ys) (heap_end h)" unfolding hm
    by (rule tiled_replace [OF a(1,2)]) (use q a in \<open>auto simp: f1_def\<close>)
  show "hmem (split_block s q h) (heap_end h) = hmem h (heap_end h)" unfolding hm using q a(5) by (auto simp: f1_def)
qed

text \<open>Marking a block as used or free keeps the tiling.\<close>

lemma tiled_mark:
  assumes t: "tiled f 0 0 (xs @ (s, n, u) # ys) e"
  shows "tiled (f(s := (f s)\<lparr>hm_used := (if v then 1 else 0), hm_magic := HEAP_MAGIC\<rparr>)) 0 0 (xs @ (s, n, v) # ys) e"
proof -
  note a = tiled_around [OF t]
  have "tiled (f(s := (f s)\<lparr>hm_used := (if v then 1 else 0), hm_magic := HEAP_MAGIC\<rparr>)) 0 0 (xs @ [(s, n, v)] @ ys) e"
  proof (rule tiled_replace [OF a(1,2)])
    assume "ys \<noteq> []"
    then obtain y ys' where "ys = y # ys'" by (metis list.exhaust)
    then have "hm_prev (f n) = s" using a(2) by (cases y) auto
    then show "(f(s := (f s)\<lparr>hm_used := (if v then 1 else 0), hm_magic := HEAP_MAGIC\<rparr>)) n = (f n)\<lparr>hm_prev := last_start 0 [(s, n, v)]\<rparr>"
      using a(4) by simp
  qed (use a in auto)
  then show ?thesis by simp
qed

lemma coalesced_replace:
  assumes "coalesced (xs @ (s, n, False) # ys)" "mid = [(s, m, True)] \<or> mid = [(s, m, True), (m, n, False)]"
  shows "coalesced (xs @ mid @ ys)"
  using assms by (auto simp: coalesced_append; cases ys) (auto simp: coalesced_append)

text \<open>The first part of \<open>malloc_take\<close>: everything but the search for the next free block.\<close>

lemma malloc_take_tiles:
  assumes shape: "heap_shape h (xs @ (s, n, False) # ys)" and sz: "sz \<le> n - (s + 12)" "4 dvd sz" "4 \<le> sz"
  obtains h1 where "heap_shape h1 (xs @ taken sz s n @ ys)" "lfree h1 = lfree h" "heap_end h1 = heap_end h"
    "heap_ptr h1 = heap_ptr h" "hdata h1 = hdata h" "mem_size_aligned h1 = mem_size_aligned h"
    "malloc_take s sz h = (if s = lfree h then map_option (\<lambda>l. h1\<lparr>lfree := l\<rparr>) (lfree_loop (lfree h) h1) else Some h1)"
proof -
  let ?e = "heap_end h" and ?p = "last_start 0 xs" and ?q = "s + 12 + sz" and ?f = "hmem h"
  have d: "tiled ?f 0 0 (xs @ (s, n, False) # ys) ?e" "coalesced (xs @ (s, n, False) # ys)"
    "?e = mem_size_aligned h + 12" "?e + 12 < 2 ^ 32" "hm_used (?f ?e) = 1" "hm_next (?f ?e) = ?e"
    "used_mem h = used_sum (xs @ (s, n, False) # ys)" using heap_shapeD [OF shape] by blast+
  note a = tiled_around [OF d(1)]
  have n: "n < 2 ^ 32" "s + 12 \<le> n" using a d by simp_all
  have room: "sub32 n (s + 12) = n - (s + 12)" "sub32 n s = n - s" "hm_next (?f s) = n" using n a(3) by simp_all
  have total: "used_sum (xs @ mid @ ys) < 2 ^ 32" if "tiled f' 0 0 (xs @ mid @ ys) ?e" for f' mid
    using used_sum_le [OF that] d(4) by simp
  have fin: "heap_shape h1 (xs @ mid @ ys)"
    if h1: "tiled (hmem h1) 0 0 (xs @ mid @ ys) ?e" "heap_end h1 = ?e" "mem_size_aligned h1 = mem_size_aligned h"
      "hmem h1 ?e = ?f ?e \<or> hmem h1 ?e = (?f ?e)\<lparr>hm_prev := z\<rparr>"
      "used_mem h1 = (used_mem h + used_sum mid) mod 2 ^ 32" "mid = [(s, m, True)] \<or> mid = [(s, m, True), (m, n, False)]"
    for h1 mid m z
  proof -
    have "used_mem h1 = used_sum (xs @ mid @ ys)" using h1(5) d(7) total [OF h1(1)] by (simp add: ac_simps)
    moreover have "coalesced (xs @ mid @ ys)" by (rule coalesced_replace [OF d(2) h1(6)])
    ultimately show ?thesis unfolding heap_shape_def using h1 d(3-6) by auto
  qed
  define h0 where "h0 = (if n - (s + 12) \<ge> sz + 24 then split_block s ?q h else h)"
  define c where "c = (if n - (s + 12) \<ge> sz + 24 then sz + 12 else n - s)"
  define h1 where "h1 = upd_mem s (\<lambda>m. m\<lparr>hm_magic := HEAP_MAGIC\<rparr>) (count_used c (upd_mem s (\<lambda>m. m\<lparr>hm_used := 1\<rparr>) h0))"
  define m where "m = (if n - (s + 12) \<ge> sz + 24 then ?q else n)"
  define rest where "rest = (if n - (s + 12) \<ge> sz + 24 then [(?q, n, False)] else [])"
  have q: "s + 16 \<le> ?q" "4 dvd ?q" "n - (s + 12) \<ge> sz + 24 \<Longrightarrow> ?q + 16 \<le> n" using sz(2,3) a(6) by (auto intro!: dvd_add)
  have t0: "tiled (hmem h0) 0 0 (xs @ (s, m, False) # rest @ ys) ?e" and e0: "hmem h0 ?e = ?f ?e"
    using split_block_tiled [OF d(1,3) q(1) _ q(2)] q(3) d(1) by (auto simp: h0_def m_def rest_def)
  have hm: "hmem h1 = (hmem h0)(s := (hmem h0 s)\<lparr>hm_used := (if True then 1 else 0), hm_magic := HEAP_MAGIC\<rparr>)"
    by (simp add: h1_def)
  have mid: "taken sz s n = (s, m, True) # rest" by (simp add: taken_def m_def rest_def)
  have T: "tiled (hmem h1) 0 0 (xs @ taken sz s n @ ys) ?e" unfolding hm mid using tiled_mark [OF t0, of True] by simp
  have E: "hmem h1 ?e = ?f ?e" unfolding hm using e0 a(4,5) by simp
  have "heap_shape h1 (xs @ taken sz s n @ ys)"
    by (rule fin [where m = m, OF T]) (use E n in \<open>auto simp: h1_def h0_def c_def mid m_def rest_def add.commute\<close>)
  moreover have "malloc_take s sz h = (if s = lfree h then map_option (\<lambda>l. h1\<lparr>lfree := l\<rparr>) (lfree_loop (lfree h) h1) else Some h1)"
  proof -
    have "lfree h1 = lfree h" by (simp add: h1_def h0_def)
    moreover have "sub32 n (s + 12) \<ge> sz + 12 + 12 \<longleftrightarrow> n - (s + 12) \<ge> sz + 24" unfolding room(1) by linarith
    ultimately have "malloc_take s sz h = (if s = lfree h1 then map_option (\<lambda>l. h1\<lparr>lfree := l\<rparr>) (lfree_loop (lfree h1) h1) else Some h1)"
      unfolding malloc_take_def Let_def room(2,3) h1_def h0_def c_def by (cases "n - (s + 12) \<ge> sz + 24") (simp_all only: if_True if_False)
    with \<open>lfree h1 = lfree h\<close> show ?thesis by simp
  qed
  ultimately show thesis by (intro that [of h1]) (simp_all add: h1_def h0_def)
qed

lemma malloc_take_spec:
  assumes inv: "heap_inv h (xs @ (s, n, False) # ys)" and sz: "sz \<le> n - (s + 12)" "4 dvd sz" "4 \<le> sz"
  shows "\<exists>h'. malloc_take s sz h = Some h' \<and> heap_inv h' (xs @ taken sz s n @ ys) \<and> heap_end h' = heap_end h \<and>
    heap_ptr h' = heap_ptr h \<and> hdata h' = hdata h \<and> mem_size_aligned h' = mem_size_aligned h"
proof -
  have shape: "heap_shape h (xs @ (s, n, False) # ys)" and l: "lfree h = first_free (xs @ (s, n, False) # ys) (heap_end h)"
    using inv by (simp_all add: heap_inv_def)
  note t = heap_shapeD(1) [OF shape]
  from malloc_take_tiles [OF shape sz] obtain h1 where h1: "heap_shape h1 (xs @ taken sz s n @ ys)" "lfree h1 = lfree h"
    "heap_end h1 = heap_end h" "heap_ptr h1 = heap_ptr h" "hdata h1 = hdata h" "mem_size_aligned h1 = mem_size_aligned h"
    "malloc_take s sz h = (if s = lfree h then map_option (\<lambda>l. h1\<lparr>lfree := l\<rparr>) (lfree_loop (lfree h) h1) else Some h1)" .
  have shape_lfree: "heap_shape (h1\<lparr>lfree := l\<rparr>) bs = heap_shape h1 bs" for l bs by (simp add: heap_shape_def)
  show ?thesis
  proof (cases "s = lfree h")
    case True
    then have used: "\<forall>(s, n, u) \<in> set xs. u" using first_free_at [OF t] l by simp
    have t1: "tiled (hmem h1) 0 0 (xs @ taken sz s n @ ys) (heap_end h1)" by (rule heap_shapeD(1) [OF h1(1)])
    obtain m z where tk: "taken sz s n = (s, m, True) # z" by (cases "n - (s + 12) \<ge> sz + 24") (auto simp: taken_def)
    have "tiled (hmem h1) (last_start 0 xs) s (taken sz s n @ ys) (heap_end h1)"
      using t1 unfolding tk by (simp add: tiled_split)
    then have "lfree_loop s h1 = Some (first_free (taken sz s n @ ys) (heap_end h1))"
      using heap_shapeD(5) [OF h1(1)] by (rule lfree_loop_spec)
    then show ?thesis using h1 True used
      by (auto simp: heap_inv_def shape_lfree first_free_append first_free_all_used)
  next
    case False
    then obtain x y where xy: "(x, y, False) \<in> set xs"
      using first_free_at [OF t] l by (metis (full_types) case_prodI2)
    have "lfree h1 = first_free (xs @ taken sz s n @ ys) (heap_end h1)"
      using l h1(2) first_free_found [OF xy] by (simp add: first_free_append)
    then show ?thesis using h1 False by (simp add: heap_inv_def)
  qed
qed

lemma find_split: "find P bs = Some b \<Longrightarrow> \<exists>xs ys. bs = xs @ b # ys \<and> P b \<and> (\<forall>x \<in> set xs. \<not> P x)"
proof (induction bs)
  case (Cons x bs)
  show ?case
  proof (cases "P x")
    case True
    then show ?thesis using Cons.prems by (intro exI [of _ "[]"] exI [of _ bs]) auto
  next
    case False
    then obtain xs ys where "bs = xs @ b # ys" "P b" "\<forall>x \<in> set xs. \<not> P x" using Cons by auto
    then show ?thesis using False by (intro exI [of _ "x # xs"] exI [of _ ys]) auto
  qed
qed simp

text \<open>The search starts at the lowest free block and finds the first block of all that fits.\<close>

lemma malloc_find_first:
  assumes inv: "heap_inv h bs" and sz: "sz \<le> mem_size_aligned h"
  shows "malloc_find sz (lfree h) h = Some (map_option fst (find (fits (mem_size_aligned h) sz) bs))"
proof -
  have shape: "heap_shape h bs" and l: "lfree h = first_free bs (heap_end h)" using inv by (simp_all add: heap_inv_def)
  note d = heap_shapeD [OF shape]
  define xs where "xs = takeWhile (\<lambda>(s, n, u). u) bs"
  define ys where "ys = dropWhile (\<lambda>(s, n, u). u) bs"
  have bs: "bs = xs @ ys" by (simp add: xs_def ys_def)
  have used: "\<forall>(s, n, u) \<in> set xs. u" by (auto simp: xs_def dest: set_takeWhileD)
  obtain m where m: "tiled (hmem h) (last_start 0 xs) m ys (heap_end h)" using d(1) unfolding bs tiled_append by blast
  have "first_free ys (heap_end h) = m"
  proof (cases ys)
    case (Cons b ys')
    obtain s n u where b: "b = (s, n, u)" by (metis prod_cases3)
    have "\<not> u" using Cons b hd_dropWhile [of "\<lambda>(s, n, u). u" bs] by (simp add: ys_def)
    then show ?thesis using Cons b m by simp
  qed (use m in simp)
  then have "lfree h = m" using l bs used by (simp add: first_free_append first_free_all_used)
  moreover have "find (fits (mem_size_aligned h) sz) bs = find (fits (mem_size_aligned h) sz) ys"
  proof -
    have "find (fits (mem_size_aligned h) sz) (zs @ ys) = find (fits (mem_size_aligned h) sz) ys" if "\<forall>(s, n, u) \<in> set zs. u" for zs
      using that by (induction zs) auto
    then show ?thesis using used bs by simp
  qed
  ultimately show ?thesis using malloc_find_spec [OF m d(3,4) sz] by simp
qed

definition request :: "nat \<Rightarrow> nat" where
  "request n = max 12 (align_up4 n)"

lemma align_up4_simps: "n + 3 < 2 ^ 32 \<Longrightarrow> n \<le> align_up4 n" "n + 3 < 2 ^ 32 \<Longrightarrow> align_up4 n < n + 4" "4 dvd align_up4 n"
  by (simp_all add: align_up4_def)

lemma rt_malloc_spec:
  assumes inv: "heap_inv h bs" and n: "n > 0" and m: "12 \<le> mem_size_aligned h" "align_up4 n \<le> mem_size_aligned h"
  shows "case find (fits (mem_size_aligned h) (request n)) bs of
      None \<Rightarrow> rt_malloc n h = Some (None, h)
    | Some (s, e, _) \<Rightarrow> \<exists>xs ys h'. bs = xs @ (s, e, False) # ys \<and> request n \<le> e - (s + 12) \<and>
        rt_malloc n h = Some (Some (heap_ptr h + s + 12), h') \<and> heap_inv h' (xs @ taken (request n) s e @ ys) \<and>
        heap_end h' = heap_end h \<and> heap_ptr h' = heap_ptr h \<and> hdata h' = hdata h \<and> mem_size_aligned h' = mem_size_aligned h"
proof -
  let ?sz = "request n"
  have sz: "?sz \<le> mem_size_aligned h" "4 dvd ?sz" "(if align_up4 n < 12 then 12 else align_up4 n) = ?sz" "4 \<le> ?sz"
    using m align_up4_simps(3) [of n] by (auto simp: request_def max_def)
  have f: "malloc_find ?sz (lfree h) h = Some (map_option fst (find (fits (mem_size_aligned h) ?sz) bs))"
    by (rule malloc_find_first [OF inv sz(1)])
  show ?thesis
  proof (cases "find (fits (mem_size_aligned h) ?sz) bs")
    case None
    then show ?thesis using n m f sz(3) by (simp add: rt_malloc_def Let_def)
  next
    case (Some b)
    obtain s e u where b: "b = (s, e, u)" by (metis prod_cases3)
    obtain xs ys where bs: "bs = xs @ b # ys" "fits (mem_size_aligned h) ?sz b" using find_split [OF Some] by blast
    have fit: "\<not> u" "?sz \<le> e - (s + 12)" using bs(2) b by simp_all
    then have inv': "heap_inv h (xs @ (s, e, False) # ys)" using inv bs b by simp
    obtain h' where h': "malloc_take s ?sz h = Some h'" "heap_inv h' (xs @ taken ?sz s e @ ys)" "heap_end h' = heap_end h"
      "heap_ptr h' = heap_ptr h" "hdata h' = hdata h" "mem_size_aligned h' = mem_size_aligned h"
      using malloc_take_spec [OF inv' fit(2) sz(2,4)] by blast
    have "rt_malloc n h = Some (Some (heap_ptr h + s + 12), h')"
      using n m f Some b h' unfolding rt_malloc_def Let_def sz(3) by simp
    then show ?thesis using Some b bs fit h' by auto
  qed
qed

section \<open>Freeing merges neighbours\<close>

text \<open>What lies behind a free block that ends at \<open>n\<close>: a free neighbour is absorbed.\<close>

fun absorb :: "nat \<Rightarrow> block list \<Rightarrow> nat \<times> block list" where
  "absorb n ((s, n', False) # ys) = (n', ys)"
| "absorb n ys = (n, ys)"

text \<open>The tiling after the free block from \<open>s\<close> to \<open>n\<close> between \<open>xs\<close> and \<open>ys\<close> is joined with its neighbours.\<close>

definition joined :: "block list \<Rightarrow> nat \<Rightarrow> nat \<Rightarrow> block list \<Rightarrow> block list" where
  "joined xs s n ys =
     (let (n', ys') = absorb n ys
      in if xs \<noteq> [] \<and> \<not> snd (snd (last xs)) then butlast xs @ (fst (last xs), n', False) # ys'
         else xs @ (s, n', False) # ys')"

abbreviation same_end :: "heap \<Rightarrow> heap \<Rightarrow> bool" where
  "same_end h h' \<equiv> heap_end h' = heap_end h \<and> mem_size_aligned h' = mem_size_aligned h \<and> heap_ptr h' = heap_ptr h \<and>
     hdata h' = hdata h \<and> used_mem h' = used_mem h \<and>
     hm_used (hmem h' (heap_end h)) = hm_used (hmem h (heap_end h)) \<and>
     hm_next (hmem h' (heap_end h)) = hm_next (hmem h (heap_end h))"

lemma plug_forward_spec:
  assumes t: "tiled (hmem h) 0 0 (xs @ (s, n, False) # ys) (heap_end h)" and used: "hm_used (hmem h (heap_end h)) = 1"
    and ab: "absorb n ys = (n', ys')"
  shows "tiled (hmem (plug_forward s h)) 0 0 (xs @ (s, n', False) # ys') (heap_end h)" "same_end h (plug_forward s h)"
    "lfree (plug_forward s h) = (if lfree h = n \<and> ys \<noteq> ys' then s else lfree h)"
proof -
  note a = tiled_around [OF t]
  have nx: "hm_next (hmem h s) = n" "s \<noteq> n" using a(3,4) by simp_all
  have "tiled (hmem (plug_forward s h)) 0 0 (xs @ (s, n', False) # ys') (heap_end h) \<and> same_end h (plug_forward s h) \<and>
    lfree (plug_forward s h) = (if lfree h = n \<and> ys \<noteq> ys' then s else lfree h)"
  proof (cases "\<exists>n2 ys2. ys = (n, n2, False) # ys2")
    case True
    then obtain n2 ys2 where ys: "ys = (n, n2, False) # ys2" by blast
    have y: "n + 16 \<le> n2" "hmem h n = header s n2 False" "tiled (hmem h) n n2 ys2 (heap_end h)" "4 dvd n2" using a(2) ys by simp_all
    have e: "n \<noteq> heap_end h" "n2 \<le> heap_end h" "n2 \<noteq> s" using tiled_bounds [OF y(3)] y(1) a(4) by auto
    have ab': "n' = n2" "ys' = ys2" "ys \<noteq> ys2" using ab ys by auto
    let ?f = "(hmem h)(s := (hmem h s)\<lparr>hm_next := n2\<rparr>)"
    have hm: "hmem (plug_forward s h) = ?f(n2 := (?f n2)\<lparr>hm_prev := s\<rparr>)"
      using nx y(2) e by (simp add: plug_forward_def Let_def)
    have "tiled (?f(n2 := (?f n2)\<lparr>hm_prev := s\<rparr>)) 0 0 (xs @ [(s, n2, False)] @ ys2) (heap_end h)"
      by (rule tiled_replace [OF a(1) y(3)]) (use a(3,4,6) y(1,4) e in auto)
    moreover have "same_end h (plug_forward s h)"
      using hm nx y(2) e a(4,5) by (auto simp: plug_forward_def Let_def)
    moreover have "lfree (plug_forward s h) = (if lfree h = n then s else lfree h)"
      using nx y(2) e by (simp add: plug_forward_def Let_def)
    ultimately show ?thesis using ab' hm by simp
  next
    case False
    have "hm_used (hmem h n) \<noteq> 0 \<or> n = heap_end h"
    proof (cases ys)
      case (Cons b bs)
      then obtain x y z where b: "ys = (x, y, z) # bs" by (metis prod_cases3)
      then show ?thesis using False a(2) by (cases z) auto
    qed (use a(8) in simp)
    then have "plug_forward s h = h" using nx by (auto simp: plug_forward_def Let_def)
    moreover have "absorb n ys = (n, ys)"
    proof (cases ys)
      case (Cons b bs)
      then obtain x y z where b: "ys = (x, y, z) # bs" by (metis prod_cases3)
      then show ?thesis using False a(2) by (cases z) auto
    qed simp
    ultimately show ?thesis using t ab by simp
  qed
  then show "tiled (hmem (plug_forward s h)) 0 0 (xs @ (s, n', False) # ys') (heap_end h)" "same_end h (plug_forward s h)"
    "lfree (plug_forward s h) = (if lfree h = n \<and> ys \<noteq> ys' then s else lfree h)" by blast+
qed

lemma plug_backward_spec:
  assumes t: "tiled (hmem h) 0 0 (xs @ (s, n, False) # ys) (heap_end h)"
  defines "merge \<equiv> xs \<noteq> [] \<and> \<not> snd (snd (last xs))"
  shows "tiled (hmem (plug_backward s h)) 0 0
      (if merge then butlast xs @ (fst (last xs), n, False) # ys else xs @ (s, n, False) # ys) (heap_end h)"
    "same_end h (plug_backward s h)" "lfree (plug_backward s h) = (if merge \<and> lfree h = s then fst (last xs) else lfree h)"
proof -
  note a = tiled_around [OF t]
  let ?p = "last_start 0 xs"
  have pv: "hm_prev (hmem h s) = ?p" "hm_next (hmem h s) = n" using a(3) by simp_all
  have "tiled (hmem (plug_backward s h)) 0 0
      (if merge then butlast xs @ (fst (last xs), n, False) # ys else xs @ (s, n, False) # ys) (heap_end h) \<and>
    same_end h (plug_backward s h) \<and> lfree (plug_backward s h) = (if merge \<and> lfree h = s then fst (last xs) else lfree h)"
  proof (cases xs rule: rev_cases)
    case Nil
    then show ?thesis using t a(9) pv by (simp add: merge_def plug_backward_def Let_def)
  next
    case (snoc zs b)
    obtain p m u where b: "b = (p, m, u)" by (metis prod_cases3)
    have z: "tiled (hmem h) 0 0 zs p" "m = s" "p + 16 \<le> s" "hmem h p = header (last_start 0 zs) s u" "4 dvd p"
      using a(1) unfolding snoc b by (auto simp: tiled_split)
    have p: "?p = p" "p \<noteq> s" "p \<noteq> n" using snoc b z(3) a(4) by auto
    show ?thesis
    proof (cases u)
      case True
      then show ?thesis using t pv p z(4) snoc b by (simp add: merge_def plug_backward_def Let_def)
    next
      case False
      let ?f = "(hmem h)(p := (hmem h p)\<lparr>hm_next := n\<rparr>)"
      have hm: "hmem (plug_backward s h) = ?f(n := (?f n)\<lparr>hm_prev := p\<rparr>)"
        using pv p z(4) False a(4) by (simp add: plug_backward_def Let_def)
      have "tiled (?f(n := (?f n)\<lparr>hm_prev := p\<rparr>)) 0 0 (zs @ [(p, n, False)] @ ys) (heap_end h)"
        by (rule tiled_replace [OF z(1) a(2)]) (use z(3,4,5) a(4,7) p False in auto)
      moreover have "same_end h (plug_backward s h)"
        using hm pv p z(3,4) a(4,5) False by (auto simp: plug_backward_def Let_def)
      moreover have "lfree (plug_backward s h) = (if lfree h = s then p else lfree h)"
        using pv p z(4) False by (simp add: plug_backward_def Let_def)
      ultimately show ?thesis using snoc b False hm by (simp add: merge_def)
    qed
  qed
  then show "tiled (hmem (plug_backward s h)) 0 0
      (if merge then butlast xs @ (fst (last xs), n, False) # ys else xs @ (s, n, False) # ys) (heap_end h)"
    "same_end h (plug_backward s h)" "lfree (plug_backward s h) = (if merge \<and> lfree h = s then fst (last xs) else lfree h)"
    by blast+
qed

lemma plug_holes_spec:
  assumes t: "tiled (hmem h) 0 0 (xs @ (s, n, False) # ys) (heap_end h)" and used: "hm_used (hmem h (heap_end h)) = 1"
  shows "tiled (hmem (plug_holes s h)) 0 0 (joined xs s n ys) (heap_end h)" "same_end h (plug_holes s h)"
    "lfree h \<noteq> n \<or> snd (absorb n ys) = ys \<Longrightarrow> lfree h \<noteq> s \<or> xs = [] \<or> snd (snd (last xs)) \<Longrightarrow> lfree (plug_holes s h) = lfree h"
proof -
  obtain n' ys' where ab: "absorb n ys = (n', ys')" by fastforce
  note f = plug_forward_spec [OF t used ab]
  have t1: "tiled (hmem (plug_forward s h)) 0 0 (xs @ (s, n', False) # ys') (heap_end (plug_forward s h))" using f(1,2) by simp
  note b = plug_backward_spec [OF t1]
  show "tiled (hmem (plug_holes s h)) 0 0 (joined xs s n ys) (heap_end h)"
    using b(1) f(2) ab by (simp add: plug_holes_def joined_def Let_def split: if_splits)
  show "same_end h (plug_holes s h)" unfolding plug_holes_def using b(2) f(2) by simp
  show "lfree (plug_holes s h) = lfree h" if "lfree h \<noteq> n \<or> snd (absorb n ys) = ys" "lfree h \<noteq> s \<or> xs = [] \<or> snd (snd (last xs))"
    unfolding plug_holes_def using b(3) f(3) that ab by auto
qed

lemma coalesced_Cons:
  "coalesced ((s, n, u) # ys) \<longleftrightarrow> coalesced ys \<and> (u \<or> ys = [] \<or> snd (snd (hd ys)))"
  by (cases ys) auto

lemma absorb_cases:
  obtains n2 ys2 x where "ys = (x, n2, False) # ys2" "absorb n ys = (n2, ys2)"
  | "absorb n ys = (n, ys)" "ys = [] \<or> snd (snd (hd ys))"
proof (cases ys)
  case (Cons b bs)
  then obtain x y z where "ys = (x, y, z) # bs" by (metis prod_cases3)
  then show thesis using that by (cases z) auto
qed (use that in simp)

lemma coalesced_joined:
  assumes "coalesced (xs @ (s, n, True) # ys)"
  shows "coalesced (joined xs s n ys)"
proof -
  obtain n' ys' where ab: "absorb n ys = (n', ys')" by fastforce
  have c: "coalesced xs" "coalesced ys" using assms by (simp_all add: coalesced_append coalesced_Cons)
  have ys: "coalesced ys' \<and> (ys' = [] \<or> snd (snd (hd ys')))"
    by (rule absorb_cases [of ys n]) (use c(2) ab in \<open>auto simp: coalesced_Cons\<close>)
  show ?thesis
  proof (cases xs rule: rev_cases)
    case (snoc zs b)
    obtain p m u where b: "b = (p, m, u)" by (metis prod_cases3)
    have "coalesced zs" "u \<or> zs = [] \<or> snd (snd (last zs))" using c(1) by (auto simp: snoc b coalesced_append coalesced_Cons)
    then show ?thesis using ys c(1) ab by (auto simp: joined_def snoc b coalesced_append coalesced_Cons)
  qed (use ys ab in \<open>simp add: joined_def coalesced_Cons\<close>)
qed

lemma used_sum_joined: "used_sum (joined xs s n ys) = used_sum xs + used_sum ys"
proof -
  obtain n' ys' where ab: "absorb n ys = (n', ys')" by fastforce
  have ys: "used_sum ys' = used_sum ys" by (rule absorb_cases [of ys n]) (use ab in auto)
  show ?thesis
  proof (cases xs rule: rev_cases)
    case (snoc zs b)
    then show ?thesis using ys ab by (cases b) (auto simp: joined_def)
  qed (use ys ab in \<open>simp add: joined_def\<close>)
qed

lemma first_free_joined: "first_free (joined xs s n ys) e = first_free xs s"
proof -
  obtain n' ys' where ab: "absorb n ys = (n', ys')" by fastforce
  show ?thesis
  proof (cases xs rule: rev_cases)
    case (snoc zs b)
    then show ?thesis using ab by (cases b) (auto simp: joined_def first_free_append)
  qed (use ab in \<open>simp add: joined_def\<close>)
qed

lemma rt_free_spec:
  assumes inv: "heap_inv h (xs @ (s, n, True) # ys)"
  defines "h' \<equiv> rt_free (Some (heap_ptr h + s + 12)) h"
  shows "heap_inv h' (joined xs s n ys)" "heap_ptr h' = heap_ptr h" "hdata h' = hdata h" "heap_end h' = heap_end h"
    "mem_size_aligned h' = mem_size_aligned h"
proof -
  let ?bs = "xs @ (s, n, True) # ys" and ?e = "heap_end h"
  have shape: "heap_shape h ?bs" and l: "lfree h = first_free ?bs ?e" using inv by (simp_all add: heap_inv_def)
  note d = heap_shapeD [OF shape] and a = tiled_around [OF heap_shapeD(1) [OF shape]]
  define h1 where "h1 = upd_mem s (\<lambda>m. m\<lparr>hm_used := 0, hm_magic := HEAP_MAGIC\<rparr>) h"
  define h2 where "h2 = (if s < lfree h1 then h1\<lparr>lfree := s\<rparr> else h1)\<lparr>used_mem := sub32 (used_mem h) (n - s)\<rparr>"
  have n32: "n < 2 ^ 32" "s + 12 < ?e" "s \<noteq> ?e" using a(4,5) d(4) by simp_all
  have nx: "hm_next (hmem h s) = n" using a(3) by simp
  have h': "h' = plug_holes s h2"
    using n32 nx a(4) by (simp add: h'_def rt_free_def Let_def h2_def h1_def)
  have hm2: "hmem h2 = (hmem h)(s := (hmem h s)\<lparr>hm_used := (if False then 1 else 0), hm_magic := HEAP_MAGIC\<rparr>)"
    by (simp add: h2_def h1_def)
  have t2: "tiled (hmem h2) 0 0 (xs @ (s, n, False) # ys) (heap_end h2)"
    unfolding hm2 using tiled_mark [OF d(1), of False] by (simp add: h2_def h1_def)
  have e2: "hmem h2 (heap_end h2) = hmem h ?e" "heap_end h2 = ?e" "mem_size_aligned h2 = mem_size_aligned h"
    "heap_ptr h2 = heap_ptr h" "hdata h2 = hdata h" using n32 by (auto simp: h2_def h1_def)
  have used2: "hm_used (hmem h2 (heap_end h2)) = 1" using e2 d(5) by simp
  note p = plug_holes_spec [OF t2 used2, folded h']
  have l2: "lfree h2 = first_free xs s"
  proof (cases "\<exists>x y. (x, y, False) \<in> set xs")
    case True
    then obtain x y where xy: "(x, y, False) \<in> set xs" by blast
    have ff: "lfree h = first_free xs s" using l first_free_found [OF xy] by (simp add: first_free_append)
    obtain m where "(first_free xs s, m, False) \<in> set xs" using first_free_mem [OF xy] by blast
    then have "first_free xs s < s" using tiled_mem [OF a(1)] by fastforce
    then show ?thesis using ff by (simp add: h2_def h1_def)
  next
    case False
    then have used: "\<forall>(s, n, u) \<in> set xs. u" by (metis (full_types) case_prodI2)
    then have "lfree h = first_free ys ?e" using l by (simp add: first_free_append first_free_all_used)
    moreover have "n \<le> first_free ys ?e"
    proof (cases "\<exists>x y. (x, y, False) \<in> set ys")
      case True
      then show ?thesis using first_free_mem [of _ _ ys ?e] tiled_mem [OF a(2)] by blast
    next
      case False
      then have "\<forall>(s, n, u) \<in> set ys. u" by (metis (full_types) case_prodI2)
      then show ?thesis using a(5) by (simp add: first_free_all_used)
    qed
    ultimately show ?thesis using used a(4) by (simp add: h2_def h1_def first_free_all_used)
  qed
  have ls: "first_free xs s \<le> s" by (rule first_free_le [OF a(1)])
  have bk: "lfree h2 \<noteq> s \<or> xs = [] \<or> snd (snd (last xs))"
  proof (rule ccontr)
    assume c: "\<not> ?thesis"
    then obtain x y where "last xs = (x, y, False)" "xs \<noteq> []" by (metis prod_cases3 snd_conv)
    then have "(x, y, False) \<in> set xs" using last_in_set by metis
    then obtain m where "(first_free xs s, m, False) \<in> set xs" using first_free_mem by blast
    then show False using c l2 tiled_mem [OF a(1)] by fastforce
  qed
  have "lfree h2 \<noteq> n" using l2 ls a(4) by simp
  then have l': "lfree h' = first_free xs s" using p(3) bk l2 by simp
  have u: "used_mem h' = used_sum xs + used_sum ys"
  proof -
    have "used_sum ?bs \<le> ?e" using used_sum_le [OF d(1)] by simp
    then have "used_sum ?bs < 2 ^ 32" "n - s \<le> used_sum ?bs" using d(4) by simp_all
    then show ?thesis using p(2) d(7) by (simp add: h2_def)
  qed
  have "joined xs s n ys \<noteq> []" by (auto simp: joined_def Let_def split_def)
  then have "heap_shape h' (joined xs s n ys)"
    unfolding heap_shape_def using p(1,2) e2 d(3-6) u used_sum_joined coalesced_joined [OF d(2)] by simp
  then show "heap_inv h' (joined xs s n ys)" using l' by (simp add: heap_inv_def first_free_joined)
  show "heap_ptr h' = heap_ptr h" "hdata h' = hdata h" "heap_end h' = heap_end h" "mem_size_aligned h' = mem_size_aligned h"
    using p(2) e2 by simp_all
qed

section \<open>Properties\<close>

text \<open>The blocks in use, as pairs of their header and their end.\<close>

definition live :: "block list \<Rightarrow> (nat \<times> nat) set" where
  "live bs = {(s, n). (s, n, True) \<in> set bs}"

lemma live_simps [simp]:
  "live [] = {}" "live ((s, n, u) # bs) = (if u then insert (s, n) (live bs) else live bs)" "live (xs @ ys) = live xs \<union> live ys"
  by (auto simp: live_def)

lemma live_joined: "live (joined xs s n ys) = live xs \<union> live ys"
proof -
  obtain n' ys' where ab: "absorb n ys = (n', ys')" by fastforce
  have ys: "live ys' = live ys" by (rule absorb_cases [of ys n]) (use ab in auto)
  show ?thesis
  proof (cases xs rule: rev_cases)
    case (snoc zs b)
    then show ?thesis using ys ab by (cases b) (auto simp: joined_def)
  qed (use ys ab in \<open>simp add: joined_def\<close>)
qed

lemma live_taken: "\<exists>m. live (taken sz s n) = {(s, m)} \<and> m \<in> {s + 12 + sz, n}"
  by (simp add: taken_def)

lemma rt_malloc_fit:
  assumes "heap_inv h bs" "0 < n" "n + 3 < 2 ^ 32" "12 \<le> mem_size_aligned h" "align_up4 n \<le> mem_size_aligned h"
  shows "case find (\<lambda>(s, e, u). \<not> u \<and> max 12 (align_up4 n) \<le> e - (s + 12) \<and> s < mem_size_aligned h - max 12 (align_up4 n)) bs of
      None \<Rightarrow> rt_malloc n h = Some (None, h)
    | Some (s, e, _) \<Rightarrow> \<exists>h' bs' m.
        rt_malloc n h = Some (Some (heap_ptr h + s + 12), h') \<and> heap_inv h' bs' \<and> hdata h' = hdata h \<and>
        live bs' = insert (s, m) (live bs) \<and> n \<le> m - (s + 12) \<and> s + 12 < m \<and> m \<le> e \<and> e \<le> heap_end h \<and> 4 dvd s \<and>
        (\<forall>(s', m') \<in> live bs. m' \<le> s \<or> m \<le> s')"
proof -
  have eq: "(\<lambda>(s, e, u). \<not> u \<and> max 12 (align_up4 n) \<le> e - (s + 12) \<and> s < mem_size_aligned h - max 12 (align_up4 n)) =
      fits (mem_size_aligned h) (request n)" by (auto simp: request_def fun_eq_iff)
  note s = rt_malloc_spec [OF assms(1,2,4,5)]
  show ?thesis
  proof (cases "find (fits (mem_size_aligned h) (request n)) bs")
    case None
    then show ?thesis using s eq by simp
  next
    case (Some b)
    obtain s e u where b: "b = (s, e, u)" by (metis prod_cases3)
    obtain xs ys h' where h': "bs = xs @ (s, e, False) # ys" "request n \<le> e - (s + 12)"
      "rt_malloc n h = Some (Some (heap_ptr h + s + 12), h')" "heap_inv h' (xs @ taken (request n) s e @ ys)" "hdata h' = hdata h"
      using s Some b by auto
    have "heap_shape h bs" using assms(1) by (simp add: heap_inv_def)
    note t = heap_shapeD(1) [OF this, unfolded h'(1)]
    note a = tiled_around [OF t]
    obtain m where m: "live (taken (request n) s e) = {(s, m)}" "m \<in> {s + 12 + request n, e}" using live_taken by blast
    have r: "n \<le> request n" "12 \<le> request n" using align_up4_simps(1) [OF assms(3)] by (simp_all add: request_def)
    have bound: "n \<le> m - (s + 12)" "s + 12 < m" "m \<le> e" using m(2) r h'(2) a(4) by auto
    have dis: "m' \<le> s \<or> m \<le> s'" if "(s', m') \<in> live bs" for s' m'
      using that tiled_mem [OF a(1), of s' m' True] tiled_mem [OF a(2), of s' m' True] bound(3) h'(1) by (auto simp: live_def)
    have "live (xs @ taken (request n) s e @ ys) = insert (s, m) (live bs)" using m(1) h'(1) by auto
    then show ?thesis unfolding eq Some b option.case prod.case
      by (intro exI [of _ h'] exI [of _ "xs @ taken (request n) s e @ ys"] exI [of _ m])
        (use h'(3-5) bound a(5,6) dis in auto)
  qed
qed

text \<open>
  C15. \<open>rt_malloc\<close> is first fit: it returns, and takes the lowest free block that is large enough
  (the size rounded up to a multiple of 4, at least 12), split if the rest can hold a block of its
  own, or fails without effect when there is none, where an exact fit at the very end does not
  count. The memory handed out has at least the bytes asked for, lies inside the heap, aligned,
  and overlaps no block in use; those blocks, their contents and the invariant are kept.
\<close>

theorem rt_malloc_first_fit:
  assumes "heap_inv h bs" "0 < n" "n + 3 < 2 ^ 32" "12 \<le> mem_size_aligned h" "align_up4 n \<le> mem_size_aligned h"
  shows "case find (\<lambda>(s, e, u). \<not> u \<and> max 12 (align_up4 n) \<le> e - (s + 12) \<and> s < mem_size_aligned h - max 12 (align_up4 n)) bs of
      None \<Rightarrow> rt_malloc n h = Some (None, h)
    | Some (s, e, _) \<Rightarrow> \<exists>h' bs' m.
        rt_malloc n h = Some (Some (heap_ptr h + s + 12), h') \<and> heap_inv h' bs' \<and> hdata h' = hdata h \<and>
        live bs' = insert (s, m) (live bs) \<and> n \<le> m - (s + 12) \<and> s + 12 < m \<and> m \<le> e \<and> e \<le> heap_end h \<and> 4 dvd s \<and>
        (\<forall>(s', m') \<in> live bs. m' \<le> s \<or> m \<le> s')"
  using assms by (rule rt_malloc_fit)

text \<open>A heap of 1000 bytes at address 536870912, right after \<open>rt_system_heap_init\<close>.\<close>

definition zero_heap :: heap where
  "zero_heap = \<lparr>heap_ptr = 0, heap_end = 0, lfree = 0, mem_size_aligned = 0, used_mem = 0, max_mem = 0,
     hmem = (\<lambda>_. \<lparr>hm_magic = 0, hm_used = 0, hm_next = 0, hm_prev = 0\<rparr>), hdata = (\<lambda>_. 0)\<rparr>"

definition demo_heap :: heap where
  "demo_heap = the (rt_system_heap_init 536870911 536871913 zero_heap)"

lemma demo_heap:
  "heap_inv demo_heap [(0, 988, False)]" "mem_size_aligned demo_heap = 976" "heap_ptr demo_heap = 536870912"
  "heap_end demo_heap = 988"
  by (simp_all add: demo_heap_def rt_system_heap_init_def align_up4_def align_down4_def zero_heap_def heap_inv_def heap_shape_def)

theorem rt_malloc_first_fit_witness:
  "\<exists>h' bs' m. rt_malloc 50 demo_heap = Some (Some 536870924, h') \<and> heap_inv h' bs' \<and> live bs' = {(0, m)} \<and> 50 \<le> m - 12"
  using rt_malloc_first_fit [OF demo_heap(1), of 50] by (simp add: demo_heap align_up4_def) blast

text \<open>
  C17. \<open>rt_free\<close> of a block in use gives back exactly that block: the other blocks in use and their
  contents stay, and the block is merged with free neighbours on both sides, so that the invariant
  holds again: the headers tile the heap, no two free blocks are adjacent, \<open>lfree\<close> is the lowest free
  block and \<open>used_mem\<close> is the sum of the blocks in use. Freeing a null pointer or an address outside
  the heap does nothing.
\<close>

theorem rt_free_merges:
  assumes "heap_inv h bs" "(s, n) \<in> live bs"
  shows "(let h' = rt_free (Some (heap_ptr h + s + 12)) h in
     \<exists>bs'. heap_inv h' bs' \<and> coalesced bs' \<and> live bs' = live bs - {(s, n)} \<and> hdata h' = hdata h \<and>
       lfree h' = first_free bs' (heap_end h) \<and> used_mem h' + (n - s) = used_mem h) \<and>
     rt_free None h = h \<and> rt_free (Some (heap_ptr h + heap_end h)) h = h"
proof -
  let ?h = "rt_free (Some (heap_ptr h + s + 12)) h"
  obtain xs ys where bs: "bs = xs @ (s, n, True) # ys" using assms(2) by (auto simp: live_def dest: split_list)
  note f = rt_free_spec [OF assms(1) [unfolded bs]]
  have sh: "heap_shape h bs" "heap_shape ?h (joined xs s n ys)" "lfree ?h = first_free (joined xs s n ys) (heap_end ?h)"
    using assms(1) f(1) by (simp_all add: heap_inv_def)
  note a = tiled_around [OF heap_shapeD(1) [OF sh(1), unfolded bs]]
  have "(s, n) \<notin> live xs" "(s, n) \<notin> live ys"
    using tiled_mem [OF a(1), of s n True] tiled_mem [OF a(2), of s n True] a(4) by (auto simp: live_def)
  then have "live (joined xs s n ys) = live bs - {(s, n)}" unfolding live_joined bs by auto
  moreover have "used_mem ?h + (n - s) = used_mem h"
    unfolding heap_shapeD(7) [OF sh(1)] heap_shapeD(7) [OF sh(2)] used_sum_joined bs by simp
  ultimately show ?thesis using f sh(3) heap_shapeD(2) [OF sh(2)] by (auto simp: Let_def rt_free_def)
qed

lemma rt_free_malloc:
  assumes "heap_inv h bs" "0 < n" "12 \<le> mem_size_aligned h" "rt_malloc n h = Some (Some p, h')"
  shows "heap_inv (rt_free (Some p) h') bs \<and> lfree (rt_free (Some p) h') = lfree h \<and>
    used_mem (rt_free (Some p) h') = used_mem h \<and> hdata (rt_free (Some p) h') = hdata h"
proof -
  have al: "align_up4 n \<le> mem_size_aligned h"
    using assms(2,4) by (auto simp: rt_malloc_def Let_def split: if_splits)
  obtain s e u where b: "find (fits (mem_size_aligned h) (request n)) bs = Some (s, e, u)"
    using rt_malloc_spec [OF assms(1,2,3) al] assms(4) by (cases "find (fits (mem_size_aligned h) (request n)) bs") auto
  obtain xs ys where h': "bs = xs @ (s, e, False) # ys" "p = heap_ptr h + s + 12"
    "heap_inv h' (xs @ taken (request n) s e @ ys)" "heap_end h' = heap_end h" "heap_ptr h' = heap_ptr h" "hdata h' = hdata h"
    using rt_malloc_spec [OF assms(1,2,3) al] assms(4) unfolding b by auto
  obtain m z where tk: "taken (request n) s e = (s, m, True) # z" "z = [] \<and> m = e \<or> z = [(m, e, False)]"
    by (cases "e - (s + 12) \<ge> request n + 24") (auto simp: taken_def)
  have inv': "heap_inv h' (xs @ (s, m, True) # z @ ys)" using h'(3) tk(1) by simp
  note f = rt_free_spec [OF inv', unfolded h'(5), folded h'(2)]
  have sh: "heap_shape h bs" "lfree h = first_free bs (heap_end h)" using assms(1) by (simp_all add: heap_inv_def)
  have c: "xs = [] \<or> snd (snd (last xs))" "ys = [] \<or> snd (snd (hd ys))"
    using heap_shapeD(2) [OF sh(1)] unfolding h'(1) by (auto simp: coalesced_append coalesced_Cons)
  have ab: "absorb m (z @ ys) = (e, ys)"
  proof (cases "z = []")
    case True
    moreover have "absorb e ys = (e, ys)" by (rule absorb_cases [of ys e]) (use c(2) in auto)
    ultimately show ?thesis using tk(2) by auto
  qed (use tk(2) in auto)
  have "joined xs s m (z @ ys) = bs" using ab c(1) h'(1) by (auto simp: joined_def)
  then have "heap_inv (rt_free (Some p) h') bs" using f(1) by simp
  moreover from this have "lfree (rt_free (Some p) h') = lfree h" "used_mem (rt_free (Some p) h') = used_mem h"
    using sh f(4) h'(4) heap_shapeD(7) [OF sh(1)] heap_shapeD(7) [of "rt_free (Some p) h'" bs] by (simp_all add: heap_inv_def)
  ultimately show ?thesis using f(3) h'(6) by simp
qed

text \<open>
  Round trip: freeing what \<open>rt_malloc\<close> has just returned restores the blocks of the heap, the lowest
  free block and the count of used memory exactly.
\<close>

theorem rt_malloc_free_roundtrip:
  assumes "heap_inv h bs" "0 < n" "12 \<le> mem_size_aligned h" "rt_malloc n h = Some (Some p, h')"
  shows "heap_inv (rt_free (Some p) h') bs \<and> lfree (rt_free (Some p) h') = lfree h \<and>
    used_mem (rt_free (Some p) h') = used_mem h \<and> hdata (rt_free (Some p) h') = hdata h"
  using assms by (rule rt_free_malloc)

text \<open>The heap after one allocation of 50 bytes.\<close>

definition demo_heap1 :: heap where
  "demo_heap1 = snd (the (rt_malloc 50 demo_heap))"

lemma demo_heap1:
  "heap_inv demo_heap1 [(0, 64, True), (64, 988, False)]" "rt_malloc 50 demo_heap = Some (Some 536870924, demo_heap1)"
  "heap_ptr demo_heap1 = 536870912"
proof -
  have f: "find (fits 976 (request 50)) [(0, 988, False)] = Some (0, 988, False)" "taken (request 50) 0 988 = [(0, 64, True), (64, 988, False)]"
    by (simp_all add: request_def align_up4_def taken_def)
  have "\<exists>h'. rt_malloc 50 demo_heap = Some (Some 536870924, h') \<and> heap_inv h' [(0, 64, True), (64, 988, False)] \<and> heap_ptr h' = 536870912"
    using rt_malloc_spec [OF demo_heap(1), of 50] unfolding demo_heap f by (auto simp: align_up4_def Cons_eq_append_conv f(2))
  then show "heap_inv demo_heap1 [(0, 64, True), (64, 988, False)]" "rt_malloc 50 demo_heap = Some (Some 536870924, demo_heap1)"
    "heap_ptr demo_heap1 = 536870912" by (auto simp: demo_heap1_def)
qed

theorem rt_free_merges_witness:
  "\<exists>bs'. heap_inv (rt_free (Some 536870924) demo_heap1) bs' \<and> coalesced bs' \<and> live bs' = {}"
proof -
  have "(0, 64) \<in> live [(0, 64, True), (64, 988, False)]" by simp
  from rt_free_merges [OF demo_heap1(1) this] show ?thesis by (auto simp: Let_def demo_heap1(3))
qed

theorem rt_malloc_free_roundtrip_witness:
  "heap_inv (rt_free (Some 536870924) demo_heap1) [(0, 988, False)] \<and> lfree (rt_free (Some 536870924) demo_heap1) = 0"
  using rt_malloc_free_roundtrip [OF demo_heap(1) _ _ demo_heap1(2)] demo_heap by (simp add: heap_inv_def)

section \<open>The heap as an allocator\<close>

text \<open>The regions handed out from the heap between the addresses \<open>p\<close> and \<open>p + e\<close>.\<close>

definition heap_holds :: "nat \<Rightarrow> nat \<Rightarrow> heap \<Rightarrow> (nat \<times> nat) set \<Rightarrow> bool" where
  "heap_holds p e h L \<longleftrightarrow> (\<exists>bs. heap_inv h bs \<and> 12 \<le> mem_size_aligned h \<and> heap_ptr h = p \<and> heap_end h = e \<and>
     L = (\<lambda>(s, n). (p + s + 12, p + n)) ` live bs)"

lemma live_tiled:
  assumes "heap_inv h bs" "(s, n) \<in> live bs"
  shows "s + 16 \<le> n" "n \<le> heap_end h" "(t, m) \<in> live bs \<Longrightarrow> s \<noteq> t \<Longrightarrow> n \<le> t \<or> m \<le> s" "(t, m, u) \<in> set bs \<Longrightarrow> s = t \<Longrightarrow> m = n \<and> u"
proof -
  obtain xs ys where bs: "bs = xs @ (s, n, True) # ys" using assms(2) by (auto simp: live_def dest: split_list)
  have "tiled (hmem h) 0 0 (xs @ (s, n, True) # ys) (heap_end h)" using assms(1) bs heap_shapeD(1) [of h bs] by (simp add: heap_inv_def)
  note a = tiled_around [OF this]
  show "s + 16 \<le> n" "n \<le> heap_end h" by (fact a(4), fact a(5))
  show "n \<le> t \<or> m \<le> s" if "(t, m) \<in> live bs" "s \<noteq> t"
    using that bs tiled_mem [OF a(1), of t m True] tiled_mem [OF a(2), of t m True] by (auto simp: live_def)
  show "m = n \<and> u" if "(t, m, u) \<in> set bs" "s = t"
    using that bs tiled_mem [OF a(1), of t m u] tiled_mem [OF a(2), of t m u] a(4) by auto
qed

lemma free_holds:
  assumes "heap_inv h bs" "(s, n) \<in> live bs"
  defines "h' \<equiv> rt_free (Some (heap_ptr h + s + 12)) h"
  shows "\<exists>bs'. heap_inv h' bs' \<and> live bs' = live bs - {(s, n)}" "heap_ptr h' = heap_ptr h" "heap_end h' = heap_end h"
    "mem_size_aligned h' = mem_size_aligned h"
proof -
  obtain xs ys where bs: "bs = xs @ (s, n, True) # ys" using assms(2) by (auto simp: live_def dest: split_list)
  note f = rt_free_spec [OF assms(1) [unfolded bs], folded h'_def]
  show "heap_ptr h' = heap_ptr h" "heap_end h' = heap_end h" "mem_size_aligned h' = mem_size_aligned h" by (fact f(2), fact f(4), fact f(5))
  have "tiled (hmem h) 0 0 (xs @ (s, n, True) # ys) (heap_end h)" using assms(1) bs heap_shapeD(1) [of h bs] by (simp add: heap_inv_def)
  note a = tiled_around [OF this]
  have "(s, n) \<notin> live xs" "(s, n) \<notin> live ys"
    using tiled_mem [OF a(1), of s n True] tiled_mem [OF a(2), of s n True] a(4) by (auto simp: live_def)
  then have "live (joined xs s n ys) = live bs - {(s, n)}" unfolding live_joined bs by auto
  then show "\<exists>bs'. heap_inv h' bs' \<and> live bs' = live bs - {(s, n)}" using f(1) by blast
qed

lemma malloc_holds:
  assumes "heap_inv h bs" "0 < n" "n + 3 < 2 ^ 32" "12 \<le> mem_size_aligned h"
  shows "rt_malloc n h = Some (None, h) \<or>
    (\<exists>s m h' bs'. rt_malloc n h = Some (Some (heap_ptr h + s + 12), h') \<and> heap_inv h' bs' \<and> live bs' = insert (s, m) (live bs) \<and>
       heap_ptr h' = heap_ptr h \<and> heap_end h' = heap_end h \<and> mem_size_aligned h' = mem_size_aligned h \<and> s \<notin> fst ` live bs \<and> s + 12 + n \<le> m)"
proof (cases "align_up4 n \<le> mem_size_aligned h")
  case False
  then show ?thesis using assms(2) by (simp add: rt_malloc_def Let_def)
next
  case True
  note s = rt_malloc_spec [OF assms(1,2,4) True]
  show ?thesis
  proof (cases "find (fits (mem_size_aligned h) (request n)) bs")
    case (Some b)
    obtain s e u where b: "b = (s, e, u)" by (metis prod_cases3)
    obtain xs ys h' where h': "bs = xs @ (s, e, False) # ys" "request n \<le> e - (s + 12)"
      "rt_malloc n h = Some (Some (heap_ptr h + s + 12), h')" "heap_inv h' (xs @ taken (request n) s e @ ys)"
      "heap_end h' = heap_end h" "heap_ptr h' = heap_ptr h" "mem_size_aligned h' = mem_size_aligned h"
      using s Some b by auto
    obtain m where m: "live (taken (request n) s e) = {(s, m)}" "m \<in> {s + 12 + request n, e}" using live_taken by blast
    have "n \<le> request n" "12 \<le> request n" using align_up4_simps(1) [OF assms(3)] by (simp_all add: request_def)
    then have "s + 12 + n \<le> m" using m(2) h'(2) by auto
    moreover have "s \<notin> fst ` live bs" using live_tiled(4) [OF assms(1), of s _ s e False] h'(1) by force
    moreover have "live (xs @ taken (request n) s e @ ys) = insert (s, m) (live bs)" using m(1) h'(1) by auto
    ultimately show ?thesis using h'(3-7) by blast
  qed (use s in simp)
qed

interpretation sys: allocator "heap_holds p e" "p + 12" "p + e" rt_malloc "\<lambda>r h. Some (rt_free (Some r) h)" for p e
proof
  fix h :: heap and L :: "(nat \<times> nat) set"
  assume "heap_holds p e h L"
  then obtain bs where i: "heap_inv h bs" "12 \<le> mem_size_aligned h" "heap_ptr h = p" "heap_end h = e"
    and L: "L = (\<lambda>(s, n). (p + s + 12, p + n)) ` live bs" by (auto simp: heap_holds_def)
  show "rt_malloc n h = Some (None, h) \<or> (\<exists>q f h'. rt_malloc n h = Some (Some q, h') \<and>
      heap_holds p e h' (insert (q, f) L) \<and> q \<notin> fst ` L \<and> q + n \<le> f)" if "0 < n" "n + 3 < 2 ^ 32" for n
    using malloc_holds [OF i(1) that i(2)]
  proof (elim disjE exE conjE)
    fix s m h' bs'
    assume r: "rt_malloc n h = Some (Some (heap_ptr h + s + 12), h')" "heap_inv h' bs'" "live bs' = insert (s, m) (live bs)"
      "heap_ptr h' = heap_ptr h" "heap_end h' = heap_end h" "mem_size_aligned h' = mem_size_aligned h" "s \<notin> fst ` live bs" "s + 12 + n \<le> m"
    have "heap_holds p e h' (insert (p + s + 12, p + m) L)"
      unfolding heap_holds_def using r(2-6) i(2-4) L by (intro exI [of _ bs']) simp
    moreover have "p + s + 12 \<notin> fst ` L" using r(7) L by force
    moreover have "p + s + 12 + n \<le> p + m" using r(8) by simp
    ultimately show ?thesis using r(1) i(3) by blast
  qed simp
  show "\<exists>h'. Some (rt_free (Some q) h) = Some h' \<and> heap_holds p e h' (L - {(q, f)})" if "(q, f) \<in> L" for q f
  proof -
    obtain s n where s: "q = p + s + 12" "f = p + n" "(s, n) \<in> live bs" using \<open>(q, f) \<in> L\<close> L by auto
    note r = free_holds [OF i(1) s(3), unfolded i(3), folded s(1)]
    obtain bs' where b: "heap_inv (rt_free (Some q) h) bs'" "live bs' = live bs - {(s, n)}" using r(1) by blast
    have "L - {(q, f)} = (\<lambda>(s, n). (p + s + 12, p + n)) ` (live bs - {(s, n)})" using L s by auto
    then have "heap_holds p e (rt_free (Some q) h) (L - {(q, f)})"
      unfolding heap_holds_def using b r(2-4) i(2-4) by (intro exI [of _ bs']) simp
    then show ?thesis by blast
  qed
  show "p + 12 \<le> q \<and> f \<le> p + e" if "(q, f) \<in> L" for q f using that L live_tiled(2) [OF i(1)] i(4) by auto
  show "f \<le> r \<or> g \<le> q" if "(q, f) \<in> L" "(r, g) \<in> L" "q \<noteq> r" for q f r g
    using that L live_tiled(3) [OF i(1)] by fastforce
qed

lemma rt_system_heap_init_inv:
  assumes "b + 3 < 2 ^ 32" "align_up4 b + 36 \<le> align_down4 f" "f < 2 ^ 32" "used_mem h0 = 0"
  obtains h where "rt_system_heap_init b f h0 = Some h" "heap_inv h [(0, heap_end h, False)]" "12 \<le> mem_size_aligned h"
    "heap_ptr h = align_up4 b" "align_up4 b + heap_end h = align_down4 f - 12"
proof -
  have d: "4 dvd align_down4 f - (12 + align_up4 b)" using align_up4_simps(3) [of b] by (simp add: align_down4_def dvd_diff_nat)
  have f: "align_down4 f < 2 ^ 32" using assms(3) by (simp add: align_down4_def)
  have "\<exists>h. rt_system_heap_init b f h0 = Some h \<and> heap_inv h [(0, heap_end h, False)] \<and> 12 \<le> mem_size_aligned h \<and>
      heap_ptr h = align_up4 b \<and> align_up4 b + heap_end h = align_down4 f - 12"
    unfolding rt_system_heap_init_def Let_def
    using assms(2,4) d f by (simp add: heap_inv_def heap_shape_def) linarith
  then show thesis using that by blast
qed

lemma heap_all_free: "tiled f 0 0 bs e \<Longrightarrow> coalesced bs \<Longrightarrow> bs \<noteq> [] \<Longrightarrow> live bs = {} \<Longrightarrow> bs = [(0, e, False)]"
  by (cases bs; cases "tl bs") (auto simp: coalesced_Cons split: if_splits)

text \<open>
  C16. The system heap over its whole life. From \<open>rt_system_heap_init\<close> on, any history of
  \<open>rt_malloc\<close>, for sizes from 1 to \<open>2^32 - 4\<close> (larger ones wrap when they are rounded up), and \<open>rt_free\<close> runs to its end, and the regions held at the end, each with all the bytes asked for, lie
  inside the memory given to the heap and share no byte. Once all is released no memory counts as used
  and the heap is one free block again.
\<close>

theorem rt_malloc_history:
  assumes "b + 3 < 2 ^ 32" "align_up4 b + 36 \<le> align_down4 f" "f < 2 ^ 32" "used_mem h0 = 0" "\<forall>op \<in> set ops. proper_op op"
  shows "\<exists>h h' held. rt_system_heap_init b f h0 = Some h \<and>
    client_run rt_malloc (\<lambda>r h. Some (rt_free (Some r) h)) ops (h, []) = Some (h', held) \<and>
    apart (align_up4 b + 12) (align_down4 f - 12) held \<and>
    (held = [] \<longrightarrow> used_mem h' = 0 \<and> lfree h' = 0 \<and> hm_next (hmem h' 0) = heap_end h)"
proof -
  obtain h where h: "rt_system_heap_init b f h0 = Some h" "heap_inv h [(0, heap_end h, False)]" "12 \<le> mem_size_aligned h"
    "heap_ptr h = align_up4 b" "align_up4 b + heap_end h = align_down4 f - 12" by (rule rt_system_heap_init_inv [OF assms(1-4)])
  have "heap_holds (heap_ptr h) (heap_end h) h {}" unfolding heap_holds_def using h(2,3) by (intro exI [of _ "[(0, heap_end h, False)]"]) simp
  from sys.history [OF this assms(5)] obtain h' held where
    c: "client_run rt_malloc (\<lambda>r h. Some (rt_free (Some r) h)) ops (h, []) = Some (h', held)"
      "apart (heap_ptr h + 12) (heap_ptr h + heap_end h) held" "held = [] \<longrightarrow> heap_holds (heap_ptr h) (heap_end h) h' {}" by blast
  have "used_mem h' = 0 \<and> lfree h' = 0 \<and> hm_next (hmem h' 0) = heap_end h" if "held = []"
  proof -
    obtain bs where i: "heap_shape h' bs" "lfree h' = first_free bs (heap_end h')" "heap_end h' = heap_end h" "live bs = {}"
      using c(3) \<open>held = []\<close> by (auto simp: heap_holds_def heap_inv_def)
    note d = heap_shapeD [OF i(1)]
    have bs: "bs = [(0, heap_end h, False)]" using heap_all_free [OF d(1,2,8) i(4)] i(3) by simp
    then show ?thesis using d(1,7) i(2) by simp
  qed
  then show ?thesis using h c by auto
qed

theorem rt_malloc_history_witness:
  "\<exists>h h' held. rt_system_heap_init 536870911 536871913 zero_heap = Some h \<and>
    client_run rt_malloc (\<lambda>r h. Some (rt_free (Some r) h)) [Request 100, Request 2000, Request 8, Release 1] (h, []) = Some (h', held) \<and>
    apart 536870924 536871900 held"
proof -
  have al: "align_up4 536870911 = 536870912" "align_down4 536871913 = 536871912" "used_mem zero_heap = 0"
    by (simp_all add: align_up4_def align_down4_def zero_heap_def)
  have "\<forall>op \<in> set [Request 100, Request 2000, Request 8, Release 1]. proper_op op" by simp
  from rt_malloc_history [where b = 536870911 and f = 536871913 and ?h0.0 = zero_heap, OF _ _ _ _ this]
  show ?thesis unfolding al by (force simp del: client_run.simps)
qed

text \<open>
  C37. Shrinking a block with \<open>rt_realloc\<close> makes a new free block but leaves \<open>lfree\<close> alone, although the
  comment calls it the pointer to the lowest free block. If every block was in use, the freed part
  (more than 12 bytes) is well-formed and free, and yet every later \<open>rt_malloc\<close>, however small,
  fails until some lower block is freed.
\<close>

theorem rt_realloc_shrink_hides_memory:
  assumes "heap_inv h (xs @ (s, n, True) # ys)" "\<forall>(s, n, u) \<in> set (xs @ ys). u" "12 \<le> mem_size_aligned h"
    and "0 < k" "k + 3 < 2 ^ 32" "s + 12 + align_up4 k + 24 < n"
  defines "q \<equiv> s + 12 + align_up4 k" and "p \<equiv> Some (heap_ptr h + s + 12)"
  shows "\<exists>h'. rt_realloc p k h = Some (p, h') \<and> heap_shape h' (xs @ [(s, q, True), (q, n, False)] @ ys) \<and>
    n - (q + 12) > 12 \<and> lfree h' = heap_end h' \<and> (\<forall>j > 0. rt_malloc j h' = Some (None, h'))"
proof -
  let ?bs = "xs @ (s, n, True) # ys" and ?e = "heap_end h" and ?nu = "align_up4 k"
  have sh: "heap_shape h ?bs" and l: "lfree h = ?e"
    using assms(1,2) by (simp_all add: heap_inv_def first_free_append first_free_all_used)
  note d = heap_shapeD [OF sh] and a = tiled_around [OF heap_shapeD(1) [OF sh]]
  have nu: "4 dvd ?nu" "0 < ?nu" using align_up4_simps [of k] assms(4,5) by simp_all
  then have nu4: "4 \<le> ?nu" by (auto elim: dvdE)
  have q: "s + 16 \<le> q" "q + 16 \<le> n" "4 dvd q" "q + 24 < n" using nu nu4 a(6) assms(6) by (auto simp: q_def intro!: dvd_add)
  define h1 where "h1 = split_block s q (h\<lparr>used_mem := sub32 (used_mem h) (n - q)\<rparr>)"
  let ?h1 = "h\<lparr>used_mem := sub32 (used_mem h) (n - q)\<rparr>"
  have t1: "tiled (hmem h1) 0 0 ((xs @ [(s, q, True)]) @ (q, n, False) # ys) (heap_end h1)" "hmem h1 ?e = hmem h ?e"
    using split_block_tiled [of ?h1 xs s n True ys q] d(1,3) q by (simp_all add: h1_def)
  have e1: "heap_end h1 = ?e" "lfree h1 = ?e" "mem_size_aligned h1 = mem_size_aligned h" "heap_ptr h1 = heap_ptr h"
    "used_mem h1 = sub32 (used_mem h) (n - q)" using l by (simp_all add: h1_def)
  have used1: "hm_used (hmem h1 (heap_end h1)) = 1" using t1(2) e1 d(5) by simp
  have ab: "absorb n ys = (n, ys)" by (rule absorb_cases [of ys n]) (use assms(2) in auto)
  define h' where "h' = plug_holes q h1"
  note ph = plug_holes_spec [OF t1(1) used1, folded h'_def]
  have j: "joined (xs @ [(s, q, True)]) q n ys = xs @ [(s, q, True), (q, n, False)] @ ys" using ab by (simp add: joined_def)
  have l': "lfree h' = ?e" using ph(3) ab e1 by simp
  have us: "used_mem h' = used_sum (xs @ [(s, q, True), (q, n, False)] @ ys)"
  proof -
    have "used_sum ?bs \<le> ?e" using used_sum_le [OF d(1)] by simp
    then have "used_sum ?bs < 2 ^ 32" "n - q \<le> used_sum ?bs" using d(4) q by simp_all
    then show ?thesis using ph(2) e1 d(7) q by simp
  qed
  have "coalesced (xs @ [(s, q, True), (q, n, False)] @ ys)"
  proof -
    have "ys = [] \<or> snd (snd (hd ys))" using assms(2) by (cases ys) auto
    then show ?thesis using d(2) by (auto simp: coalesced_append coalesced_Cons)
  qed
  then have shape: "heap_shape h' (xs @ [(s, q, True), (q, n, False)] @ ys)"
    unfolding heap_shape_def using ph(1,2) j e1 t1(2) d(3-6) us by simp
  have nx: "hm_next (hmem h s) = n" "n < 2 ^ 32" using a(3,5) d(4) by simp_all
  then have "sub32 (sub32 n s) 12 = n - s - 12" using a(4) by simp
  moreover have "n - s - 12 - ?nu = n - q" "?nu \<noteq> n - s - 12" "?nu + 12 + 12 < n - s - 12"
    using q assms(6) by (simp_all add: q_def)
  moreover have "\<not> ?nu > mem_size_aligned h" "s + 12 < ?e" using assms(6) a(5) d(3) by simp_all
  ultimately have r: "rt_realloc p k h = Some (p, h')"
    using nu nx by (simp add: rt_realloc_def p_def Let_def h'_def h1_def q_def)
  have "rt_malloc j h' = Some (None, h')" if "j > 0" for j
  proof -
    let ?sz = "if align_up4 j < 12 then 12 else align_up4 j"
    have "\<not> ?e < mem_size_aligned h - x" for x using d(3) by simp
    then have "malloc_find ?sz ?e h' = Some None" if "align_up4 j \<le> mem_size_aligned h"
      using that assms(3) d(3,4) ph(2) e1 by (subst malloc_find.simps) simp
    then show ?thesis using \<open>j > 0\<close> ph(2) e1 l' by (auto simp: rt_malloc_def Let_def)
  qed
  then show ?thesis using r shape l' ph(2) e1 q(4) by auto
qed

text \<open>A heap filled by one block of 976 bytes, less one header.\<close>

definition demo_full :: heap where
  "demo_full = \<lparr>heap_ptr = 536870912, heap_end = 988, lfree = 988, mem_size_aligned = 976, used_mem = 988, max_mem = 988,
     hmem = (\<lambda>_. \<lparr>hm_magic = 0, hm_used = 0, hm_next = 0, hm_prev = 0\<rparr>)(0 := header 0 988 True, 988 := header 988 988 True),
     hdata = (\<lambda>_. 0)\<rparr>"

theorem rt_realloc_shrink_hides_memory_witness:
  "\<exists>h'. rt_realloc (Some 536870924) 100 demo_full = Some (Some 536870924, h') \<and> rt_malloc 12 h' = Some (None, h')"
proof -
  have inv: "heap_inv demo_full ([] @ (0, 988, True) # [])" by (simp add: demo_full_def heap_inv_def heap_shape_def)
  have "heap_ptr demo_full = 536870912" "mem_size_aligned demo_full = 976" by (simp_all add: demo_full_def)
  then show ?thesis using rt_realloc_shrink_hides_memory [OF inv, of 100] by (auto simp: align_up4_def)
qed

text \<open>A request of nearly \<open>2 ^ 32\<close> bytes is rounded up to 0 and answered with a block of 12 bytes.\<close>

lemma rt_malloc_huge_wraps:
  "rt_malloc (2 ^ 32 - 1) demo_heap = rt_malloc 12 demo_heap \<and> (\<exists>h'. rt_malloc 12 demo_heap = Some (Some 536870924, h'))"
proof -
  have "align_up4 (2 ^ 32 - 1) = 0" "align_up4 12 = 12" by (simp_all add: align_up4_def)
  then show ?thesis using rt_malloc_spec [OF demo_heap(1), of 12] demo_heap(2,3)
    by (auto simp: rt_malloc_def request_def split: option.splits)
qed

end
