(* ===== verification/Mempool.thy ===== *)
theory Mempool
  imports Ipc_Mq
begin

text \<open>
  Memory pools (\<open>src/mempool.c\<close>): blocks of one size, the free ones chained through the word in front
  of each, and threads that wait for a block. A block is known by the address of that word; a
  client gets the address four bytes behind it. As for mailboxes, \<open>None\<close> is a wait loop that never
  ends; in \<open>rt_mp_free\<close> it stands for memory corruption, where the code takes a word that is not a
  pool, or a list head, for a struct.
\<close>

section \<open>Operations\<close>

definition upd_mp :: "nat \<Rightarrow> (rt_mempool \<Rightarrow> rt_mempool) \<Rightarrow> kernel \<Rightarrow> kernel" where
  "upd_mp n g k = k\<lparr>mempools := (mempools k)(n := g (mempools k n))\<rparr>"

text \<open>The error number of the running thread; the global one of interrupt context is not modelled.\<close>

definition rt_set_errno :: "err \<Rightarrow> kernel \<Rightarrow> kernel" where
  "rt_set_errno e k =
     (if rt_interrupt_nest k \<noteq> 0 then k
      else case rt_current_thread k of None \<Rightarrow> k | Some t \<Rightarrow> upd_thread t (\<lambda>th. th\<lparr>th_error := e\<rparr>) k)"

text \<open>\<open>block_ptr + offset * (block_size + sizeof(rt_uint8_t *))\<close>. Addresses are natural numbers here: the pool is
  memory the caller owns, so it ends below \<open>2^32\<close> and the pointer arithmetic does not wrap.\<close>

definition mp_addr :: "rt_mempool \<Rightarrow> nat \<Rightarrow> nat" where
  "mp_addr m i = mp_start_address m + i * (unat (mp_block_size m) + 4)"

definition mp_init_blocks :: "nat \<Rightarrow> kernel \<Rightarrow> kernel" where
  "mp_init_blocks n k =
     (let m = mempools k n; c = unat (mp_block_total_count m);
          w = fold (\<lambda>i w. w(mp_addr m i := MpNext (Some (mp_addr m (i + 1))))) [0..<c] (mp_words k);
          w = w((mp_start_address m + unat ((mp_block_total_count m - 1) * (mp_block_size m + 4))) mod 2 ^ 32 := MpNext None)
      in upd_mp n (\<lambda>m. m\<lparr>mp_block_list := Some (mp_start_address m)\<rparr>) (k\<lparr>mp_words := w\<rparr>))"

definition rt_mp_init :: "nat \<Rightarrow> string \<Rightarrow> nat \<Rightarrow> u32 \<Rightarrow> u32 \<Rightarrow> kernel \<Rightarrow> err \<times> kernel" where
  "rt_mp_init n name start sz block_size k =
     (let k = rt_object_init (OMemPool n) RT_Object_Class_MemPool name k;
          sz = sz AND NOT 3;
          block_size = (block_size + 4 - 1) AND NOT 3;
          c = sz div (block_size + 4);
          k = upd_mp n (\<lambda>m. m\<lparr>mp_start_address := start, mp_size := sz, mp_block_size := block_size,
                             mp_block_total_count := c, mp_block_free_count := c, mp_suspend_thread_count := 0\<rparr>) k;
          k = k\<lparr>tlists := (tlists k)(LMp n := [])\<rparr>
      in (RT_EOK, mp_init_blocks n k))"

partial_function (option) mp_wake_all :: "nat \<Rightarrow> kernel \<Rightarrow> kernel option" where
  "mp_wake_all n k =
     (case tlists k (LMp n) of
        [] \<Rightarrow> Some k
      | t # _ \<Rightarrow>
          let k = upd_thread t (\<lambda>th. th\<lparr>th_error := - RT_ERROR\<rparr>) k;
              k = snd (rt_thread_resume t k)
          in mp_wake_all n (upd_mp n (\<lambda>m. m\<lparr>mp_suspend_thread_count := mp_suspend_thread_count m - 1\<rparr>) k))"

definition rt_mp_detach :: "nat \<Rightarrow> kernel \<Rightarrow> (err \<times> kernel) option" where
  "rt_mp_detach n k = map_option (\<lambda>k. (RT_EOK, rt_object_detach (OMemPool n) k)) (mp_wake_all n k)"

text \<open>\<open>mem\<close> is the struct \<open>rt_object_allocate\<close> gets, \<open>start\<close> the block \<open>rt_malloc\<close> returns for the pool.\<close>

definition rt_mp_create ::
  "string \<Rightarrow> u32 \<Rightarrow> u32 \<Rightarrow> nat option \<Rightarrow> nat option \<Rightarrow> kernel \<Rightarrow> nat option \<times> kernel" where
  "rt_mp_create name block_count block_size mem start k =
     (case mem of
        None \<Rightarrow> (None, k)
      | Some n \<Rightarrow>
          let k = snd (rt_object_allocate RT_Object_Class_MemPool name (Some (OMemPool n)) k);
              block_size = (block_size + 4 - 1) AND NOT 3;
              k = upd_mp n (\<lambda>m. m\<lparr>mp_block_size := block_size, mp_size := (block_size + 4) * block_count\<rparr>) k
          in case start of
               None \<Rightarrow> (None, rt_object_delete (OMemPool n) k)
             | Some a \<Rightarrow>
                 let k = upd_mp n (\<lambda>m. m\<lparr>mp_start_address := a, mp_block_total_count := block_count,
                                     mp_block_free_count := block_count, mp_suspend_thread_count := 0\<rparr>) k;
                     k = k\<lparr>tlists := (tlists k)(LMp n := [])\<rparr>
                 in (Some n, mp_init_blocks n k))"

text \<open>The second component is the address that is passed to \<open>rt_free\<close>.\<close>

definition rt_mp_delete :: "nat \<Rightarrow> kernel \<Rightarrow> (err \<times> nat \<times> kernel) option" where
  "rt_mp_delete n k =
     map_option (\<lambda>k. (RT_EOK, mp_start_address (mempools k n), rt_object_delete (OMemPool n) k)) (mp_wake_all n k)"

definition mp_link :: "mp_word \<Rightarrow> nat option" where
  "mp_link w = (case w of MpNext q \<Rightarrow> q | MpPool _ \<Rightarrow> None)"

definition mp_take :: "nat \<Rightarrow> kernel \<Rightarrow> nat option outcome \<times> kernel" where
  "mp_take n k =
     (let k = upd_mp n (\<lambda>m. m\<lparr>mp_block_free_count := mp_block_free_count m - 1\<rparr>) k;
          a = the (mp_block_list (mempools k n));
          k = upd_mp n (\<lambda>m. m\<lparr>mp_block_list := mp_link (mp_words k a)\<rparr>) k
      in (Ret (Some (a + 4)), k\<lparr>mp_words := (mp_words k)(a := MpPool n)\<rparr>))"

definition mp_suspend :: "nat \<Rightarrow> tid \<Rightarrow> kernel \<Rightarrow> kernel" where
  "mp_suspend n t k =
     (let k = snd (rt_thread_suspend t k);
          k = tlist_insert_head (LMp n) t k
      in upd_mp n (\<lambda>m. m\<lparr>mp_suspend_thread_count := mp_suspend_thread_count m + 1\<rparr>) k)"

partial_function (option) mp_alloc_loop ::
  "nat \<Rightarrow> int \<Rightarrow> u32 \<Rightarrow> tid \<Rightarrow> kernel \<Rightarrow> (nat option outcome \<times> kernel) option" where
  "mp_alloc_loop n time before_sleep t k =
     (if mp_block_free_count (mempools k n) = 0 then
        if time = 0 then Some (Ret None, rt_set_errno (- RT_ETIMEOUT) k)
        else
          let k = upd_thread t (\<lambda>th. th\<lparr>th_error := RT_EOK\<rparr>) k;
              k = mp_suspend n t k;
              before_sleep = (if time > 0 then rt_tick k else before_sleep);
              k = rt_schedule (start_timeout t time k)
          in if rt_current_thread k \<noteq> Some t then Some (Blocked, k)
             else if th_error (threads k t) \<noteq> RT_EOK then Some (Ret None, k)
             else mp_alloc_loop n (if time > 0 then remaining time (rt_tick k - before_sleep) else time) before_sleep t k
      else Some (mp_take n k))"

definition rt_mp_alloc :: "nat \<Rightarrow> int \<Rightarrow> kernel \<Rightarrow> (nat option outcome \<times> kernel) option" where
  "rt_mp_alloc n time k = mp_alloc_loop n time 0 (self k) k"

definition rt_mp_alloc_resume ::
  "nat \<Rightarrow> int \<Rightarrow> u32 \<Rightarrow> tid \<Rightarrow> kernel \<Rightarrow> (nat option outcome \<times> kernel) option" where
  "rt_mp_alloc_resume n time before_sleep t k =
     (if th_error (threads k t) \<noteq> RT_EOK then Some (Ret None, k)
      else mp_alloc_loop n (if time > 0 then remaining time (rt_tick k - before_sleep) else time) before_sleep t k)"

definition rt_mp_free :: "nat \<Rightarrow> kernel \<Rightarrow> kernel option" where
  "rt_mp_free block k =
     (let a = block - 4
      in case mp_words k a of
           MpNext _ \<Rightarrow> None
         | MpPool n \<Rightarrow>
             let k = upd_mp n (\<lambda>m. m\<lparr>mp_block_free_count := mp_block_free_count m + 1\<rparr>) k;
                 k = k\<lparr>mp_words := (mp_words k)(a := MpNext (mp_block_list (mempools k n)))\<rparr>;
                 k = upd_mp n (\<lambda>m. m\<lparr>mp_block_list := Some a\<rparr>) k
             in if mp_suspend_thread_count (mempools k n) > 0 then
                  case tlists k (LMp n) of
                    [] \<Rightarrow> None
                  | t # _ \<Rightarrow>
                      let k = upd_thread t (\<lambda>th. th\<lparr>th_error := RT_EOK\<rparr>) k;
                          k = snd (rt_thread_resume t k);
                          k = upd_mp n (\<lambda>m. m\<lparr>mp_suspend_thread_count := mp_suspend_thread_count m - 1\<rparr>) k
                      in Some (rt_schedule k)
                else Some k)"

section \<open>Invariant\<close>

fun mp_chain :: "(nat \<Rightarrow> mp_word) \<Rightarrow> nat option \<Rightarrow> nat list \<Rightarrow> bool" where
  "mp_chain w p [] \<longleftrightarrow> p = None"
| "mp_chain w p (a # as) \<longleftrightarrow> p = Some a \<and> (\<exists>q. w a = MpNext q \<and> mp_chain w q as)"

definition mp_blocks :: "rt_mempool \<Rightarrow> nat list" where
  "mp_blocks m = map (mp_addr m) [0..<unat (mp_block_total_count m)]"

text \<open>\<open>fs\<close> is the free list, \<open>hs\<close> the blocks clients hold.\<close>

definition mp_inv :: "nat \<Rightarrow> kernel \<Rightarrow> nat list \<Rightarrow> nat list \<Rightarrow> bool" where
  "mp_inv n k fs hs \<longleftrightarrow>
     mp_chain (mp_words k) (mp_block_list (mempools k n)) fs \<and> distinct (fs @ hs) \<and>
     set (fs @ hs) = set (mp_blocks (mempools k n)) \<and> mp_block_free_count (mempools k n) = of_nat (length fs) \<and>
     (\<forall>a \<in> set hs. mp_words k a = MpPool n)"

definition mp_wf :: "nat \<Rightarrow> kernel \<Rightarrow> nat list \<Rightarrow> nat list \<Rightarrow> bool" where
  "mp_wf n k fs hs \<longleftrightarrow> sched_wf k \<and> mp_inv n k fs hs \<and> length (tlists k (LMp n)) < 2 ^ 32 \<and>
     mp_suspend_thread_count (mempools k n) = of_nat (length (tlists k (LMp n)))"

lemma upd_mp_frame [simp]:
  "threads (upd_mp n g k) = threads k" "tlists (upd_mp n g k) = tlists k"
  "rt_current_thread (upd_mp n g k) = rt_current_thread k" "mp_words (upd_mp n g k) = mp_words k"
  "mempools (upd_mp n g k) = (mempools k)(n := g (mempools k n))"
  "rt_scheduler_lock_nest (upd_mp n g k) = rt_scheduler_lock_nest k"
  "rt_thread_ready_priority_group (upd_mp n g k) = rt_thread_ready_priority_group k"
  by (simp_all add: upd_mp_def)

lemma sched_wf_mp [simp]: "sched_wf (upd_mp n g k) = sched_wf k" "sched_wf (k\<lparr>mp_words := w\<rparr>) = sched_wf k"
  by (rule sched_wf_cong; simp)+

lemma wait_list_mp [simp]: "is_wait_list (LMp n)" by simp

lemma mp_addr_inj: "mp_addr m i = mp_addr m j \<longleftrightarrow> i = j"
  by (simp add: mp_addr_def)

lemma distinct_mp_blocks: "distinct (mp_blocks m)" "length (mp_blocks m) = unat (mp_block_total_count m)"
  by (auto simp: mp_blocks_def distinct_map inj_on_def mp_addr_inj)

lemma mp_chain_upd [simp]: "a \<notin> set as \<Longrightarrow> mp_chain (w(a := v)) p as = mp_chain w p as"
  by (induction as arbitrary: p) auto

lemma mp_inv_length:
  assumes "mp_inv n k fs hs"
  shows "length fs + length hs = unat (mp_block_total_count (mempools k n))" "mp_block_free_count (mempools k n) = 0 \<longleftrightarrow> fs = []"
proof -
  let ?m = "mempools k n"
  have "length (fs @ hs) = card (set (fs @ hs))" using assms by (intro distinct_card [symmetric]) (simp only: mp_inv_def)
  also have "\<dots> = card (set (mp_blocks ?m))" using assms by (simp only: mp_inv_def)
  also have "\<dots> = unat (mp_block_total_count ?m)" using distinct_mp_blocks [of ?m] by (simp add: distinct_card)
  finally show l: "length fs + length hs = unat (mp_block_total_count ?m)" by simp
  then have "length fs < 2 ^ 32" using unsigned_less [where 'a = nat, of "mp_block_total_count ?m"] by simp
  then have "(of_nat (length fs) :: u32) = 0 \<longleftrightarrow> length fs = 0" by (simp add: word_of_nat_eq_0_iff dvd_eq_mod_eq_0)
  then show "mp_block_free_count ?m = 0 \<longleftrightarrow> fs = []" using assms by (simp add: mp_inv_def)
qed

section \<open>The operations\<close>

lemma mp_take_spec:
  assumes "mp_wf n k (a # fs) hs"
  shows "fst (mp_take n k) = Ret (Some (a + 4))" "mp_wf n (snd (mp_take n k)) fs (a # hs)"
    "mp_block_total_count (mempools (snd (mp_take n k)) n) = mp_block_total_count (mempools k n)"
proof -
  have b: "mp_block_list (mempools k n) = Some a" "mp_words k a = MpNext (mp_link (mp_words k a))" 
    "mp_chain (mp_words k) (mp_link (mp_words k a)) fs" "a \<notin> set fs" "a \<notin> set hs"
    "mp_block_free_count (mempools k n) = of_nat (Suc (length fs))"
    using assms by (auto simp: mp_wf_def mp_inv_def mp_link_def)
  show "fst (mp_take n k) = Ret (Some (a + 4))" using b by (simp add: mp_take_def)
  have bl: "mp_blocks (m\<lparr>mp_block_free_count := c, mp_block_list := l\<rparr>) = mp_blocks m" for m c l
    by (simp add: mp_blocks_def mp_addr_def [abs_def])
  have "mp_inv n (snd (mp_take n k)) fs (a # hs)" using b assms
    by (auto simp: mp_take_def Let_def mp_wf_def mp_inv_def bl)
  then show "mp_wf n (snd (mp_take n k)) fs (a # hs)" using assms b(1) by (simp add: mp_wf_def mp_take_def Let_def)
  show "mp_block_total_count (mempools (snd (mp_take n k)) n) = mp_block_total_count (mempools k n)"
    by (simp add: mp_take_def Let_def)
qed

text \<open>Waiting for a block: the thread goes to the front of the list.\<close>

abbreviation mp_wait :: "nat \<Rightarrow> int \<Rightarrow> tid \<Rightarrow> kernel \<Rightarrow> kernel" where
  "mp_wait n time t k \<equiv> rt_schedule (start_timeout t time (mp_suspend n t (upd_thread t (\<lambda>th. th\<lparr>th_error := RT_EOK\<rparr>) k)))"

lemma mp_wait_spec:
  fixes time :: int and n :: nat
  assumes wf: "sched_wf k" and mw: "may_wait t k"
  defines "k' \<equiv> mp_wait n time t k"
  shows "sched_wf k'" "rt_current_thread k' \<noteq> Some t" "tlists k' (LMp n) = t # tlists k (LMp n)"
    "threads k' = (threads k)(t := (threads k t)\<lparr>th_error := RT_EOK, th_stat := RT_THREAD_SUSPEND\<rparr>)"
    "mempools k' = (mempools k)(n := (mempools k n)\<lparr>mp_suspend_thread_count := mp_suspend_thread_count (mempools k n) + 1\<rparr>)"
    "mp_words k' = mp_words k"
proof -
  let ?k0 = "upd_thread t (\<lambda>th. th\<lparr>th_error := RT_EOK\<rparr>) k"
  have w0: "sched_wf ?k0" "rt_current_thread ?k0 = Some t" "stat ?k0 t = RT_THREAD_READY" "rt_scheduler_lock_nest ?k0 = 0"
    using wf mw by (simp_all add: sched_wf_upd_error may_wait_def)
  obtain u where u: "u \<noteq> t" "stat k u = RT_THREAD_READY" using mw by (auto simp: may_wait_def)
  have ok: "sched_ok {} (Some t) ?k0" using w0 by (simp add: sched_wf_ok)
  have un: "t \<notin> set (tlists ?k0 l')" for l' by (rule current_ready_unlinked [OF ok w0(3)])
  have m: "mask_ok (threads ?k0 t)" using wf_mask [OF w0(1), of t] w0(3) by simp
  define k1 where "k1 = snd (rt_thread_suspend t ?k0)"
  note f = rt_thread_suspend_fields [OF w0(3), folded k1_def]
  have tl1: "tlists k1 = tlists k" using f(4) removed_unlinked [of t "tlists ?k0"] un by simp
  have ok1: "sched_ok {t} (Some t) k1"
    using suspended_transit [OF w0(1,3)] w0(2,3) by (simp add: k1_def rt_thread_suspend_eq)
  have "sched_ok {} (Some t) (k1\<lparr>tlists := (tlists k1)(LMp n := t # tlists k1 (LMp n))\<rparr>)"
    by (rule insert_wait [OF ok1]) (use f(3) m un tl1 disjoint_lists_distinct [OF sched_okD(1) [OF ok]] in \<open>simp_all add: mask_ok_def\<close>)
  then have wf2: "sched_wf (k1\<lparr>tlists := (tlists k1)(LMp n := t # tlists k1 (LMp n))\<rparr>)" using f(2) w0(2) by (simp add: sched_wf_ok)
  define k2 where "k2 = start_timeout t time (mp_suspend n t ?k0)"
  have k2: "sched_wf k2" "rt_current_thread k2 = Some t" "tlists k2 (LMp n) = t # tlists k (LMp n)"
    "threads k2 = (threads k)(t := (threads k t)\<lparr>th_error := RT_EOK, th_stat := RT_THREAD_SUSPEND\<rparr>)"
    "rt_scheduler_lock_nest k2 = 0"
    using wf2 f(2,3) tl1 w0(2,4)
    by (simp_all add: k2_def mp_suspend_def k1_def [symmetric] tlist_insert_head_def)
      (simp add: k1_def rt_thread_suspend_eq rt_schedule_remove_thread_def Let_def state_defs)
  have k': "k' = rt_schedule k2" by (simp add: k'_def k2_def)
  show "sched_wf k'" unfolding k' by (rule rt_schedule_wf [OF k2(1,2)])
  show "tlists k' (LMp n) = t # tlists k (LMp n)" unfolding k' using rt_schedule_wait [OF k2(1,2), of "LMp n"] k2(3) by simp
  show "threads k' = (threads k)(t := (threads k t)\<lparr>th_error := RT_EOK, th_stat := RT_THREAD_SUSPEND\<rparr>)"
    unfolding k' using rt_schedule_threads [OF k2(1,2)] k2(4) by simp
  have "stat k2 u = RT_THREAD_READY" using u k2(4) by simp
  then have "stat k2 (self k') = RT_THREAD_READY" using rt_schedule_highest(1) [OF k2(1,2,5)] k' by blast
  then show "rt_current_thread k' \<noteq> Some t" using k2(4) by auto
  show "mempools k' = (mempools k)(n := (mempools k n)\<lparr>mp_suspend_thread_count := mp_suspend_thread_count (mempools k n) + 1\<rparr>)"
    "mp_words k' = mp_words k"
    by (simp_all add: k'_def frame_simps mp_suspend_def tlist_insert_head_def Let_def)
qed

lemma mp_inv_count:
  assumes "mempools k' = (mempools k)(n := (mempools k n)\<lparr>mp_suspend_thread_count := c\<rparr>)" "mp_words k' = mp_words k"
  shows "mp_inv n k' fs hs = mp_inv n k fs hs"
  using assms by (simp add: mp_inv_def mp_blocks_def mp_addr_def [abs_def])

lemma mp_alloc_loop_spec:
  assumes wf: "mp_wf n k fs hs" and mw: "may_wait t k" and lt: "length (tlists k (LMp n)) + 1 < 2 ^ 32"
  shows "\<exists>r k'. mp_alloc_loop n time b t k = Some (r, k') \<and>
    (case fs of
       a # fs' \<Rightarrow> r = Ret (Some (a + 4)) \<and> mp_wf n k' fs' (a # hs)
     | [] \<Rightarrow> (if time = 0 then r = Ret None else r = Blocked \<and> stat k' t = RT_THREAD_SUSPEND \<and>
               tlists k' (LMp n) = t # tlists k (LMp n)) \<and> mp_wf n k' fs hs) \<and>
    mp_block_total_count (mempools k' n) = mp_block_total_count (mempools k n)"
proof -
  have sw: "sched_wf k" and inv: "mp_inv n k fs hs" using wf by (simp_all add: mp_wf_def)
  note e = mp_inv_length(2) [OF inv]
  note w = mp_wait_spec [OF sw mw, where n = n and time = time]
  show ?thesis
  proof (cases fs)
    case Nil
    have "mp_wf n (mp_wait n time t k) fs hs"
      using wf w(1,3,5,6) mp_inv_count [OF w(5,6)] lt by (simp add: mp_wf_def)
    moreover have "mp_wf n (rt_set_errno x k) fs hs" "mempools (rt_set_errno x k) = mempools k" for x
      using wf by (auto simp: mp_wf_def rt_set_errno_def mp_inv_def sched_wf_upd_error split: option.splits)
    ultimately show ?thesis using Nil e w(2,3,4,5) by (subst mp_alloc_loop.simps) (simp add: Let_def)
  next
    case (Cons a fs')
    then show ?thesis using e mp_take_spec [of n k a fs' hs] wf
      by (subst mp_alloc_loop.simps) (auto intro!: exI [of _ "snd (mp_take n k)"] prod_eqI)
  qed
qed

lemma rt_mp_free_spec:
  assumes wf: "mp_wf n k fs hs" and cur: "rt_current_thread k = Some c" and a: "a \<in> set hs"
  shows "\<exists>k'. rt_mp_free (a + 4) k = Some k' \<and> mp_wf n k' (a # fs) (removeAll a hs) \<and>
    tlists k' (LMp n) = tl (tlists k (LMp n)) \<and>
    mp_block_total_count (mempools k' n) = mp_block_total_count (mempools k n)"
proof -
  have sw: "sched_wf k" and inv: "mp_inv n k fs hs" and cnt: "length (tlists k (LMp n)) < 2 ^ 32"
    "mp_suspend_thread_count (mempools k n) = of_nat (length (tlists k (LMp n)))" using wf by (simp_all add: mp_wf_def)
  have w: "mp_words k a = MpPool n" "a \<notin> set fs" using inv a by (auto simp: mp_inv_def)
  define k1 where "k1 = upd_mp n (\<lambda>m. m\<lparr>mp_block_list := Some a\<rparr>)
    ((upd_mp n (\<lambda>m. m\<lparr>mp_block_free_count := mp_block_free_count m + 1\<rparr>) k)\<lparr>mp_words := (mp_words k)(a := MpNext (mp_block_list (mempools k n)))\<rparr>)"
  have m1: "mempools k1 = (mempools k)(n := (mempools k n)\<lparr>mp_block_free_count := mp_block_free_count (mempools k n) + 1, mp_block_list := Some a\<rparr>)"
    "mp_words k1 = (mp_words k)(a := MpNext (mp_block_list (mempools k n)))" "tlists k1 = tlists k" "threads k1 = threads k"
    "rt_current_thread k1 = Some c" "sched_wf k1" using cur sw by (simp_all add: k1_def)
  have bl: "mp_blocks (m\<lparr>mp_block_free_count := x, mp_block_list := l\<rparr>) = mp_blocks m" for m x l
    by (simp add: mp_blocks_def mp_addr_def [abs_def])
  have inv1: "mp_inv n k1 (a # fs) (removeAll a hs)"
    using inv w a unfolding mp_inv_def m1 by (auto simp: bl distinct_removeAll)
  have pos: "mp_suspend_thread_count (mempools k n) > 0 \<longleftrightarrow> tlists k (LMp n) \<noteq> []"
    using cnt by (simp add: word_gt_0 word_of_nat_eq_0_iff dvd_eq_mod_eq_0)
  show ?thesis
  proof (cases "tlists k (LMp n)")
    case Nil
    then have "rt_mp_free (a + 4) k = Some k1" using w pos m1(1) by (simp add: rt_mp_free_def Let_def k1_def)
    then show ?thesis using inv1 m1 Nil cnt by (simp add: mp_wf_def)
  next
    case (Cons t ts)
    let ?k2 = "upd_thread t (\<lambda>th. th\<lparr>th_error := RT_EOK\<rparr>) k1"
    let ?k3 = "snd (rt_ipc_list_resume (LMp n) ?k2)"
    let ?k4 = "upd_mp n (\<lambda>m. m\<lparr>mp_suspend_thread_count := mp_suspend_thread_count m - 1\<rparr>) ?k3"
    have l2: "tlists ?k2 (LMp n) = t # ts" "sched_wf ?k2" using m1 Cons by (simp_all add: sched_wf_upd_error)
    note r = rt_ipc_list_resume_spec [OF l2(2) wait_list_mp l2(1)]
    have w4: "sched_wf ?k4" "rt_current_thread ?k4 = Some c" using r m1 by simp_all
    have f: "rt_mp_free (a + 4) k = Some (rt_schedule ?k4)"
      using w pos m1(1,3) Cons by (simp add: rt_mp_free_def Let_def k1_def rt_ipc_list_resume_def)
    have tl: "tlists (rt_schedule ?k4) (LMp n) = ts" using rt_schedule_wait [OF w4 wait_list_mp] r(4) by simp
    have "mp_inv n (rt_schedule ?k4) (a # fs) (removeAll a hs)"
      using inv1 by (subst mp_inv_count [of _ k1 n]) (simp_all add: frame_simps)
    moreover have "mp_suspend_thread_count (mempools k1 n) - 1 = of_nat (length ts)" using m1(1) cnt(2) Cons by simp
    ultimately have "mp_wf n (rt_schedule ?k4) (a # fs) (removeAll a hs)"
      using rt_schedule_wf [OF w4] tl cnt(1) Cons by (simp add: mp_wf_def frame_simps)
    then show ?thesis using f tl Cons m1(1) by (simp add: frame_simps)
  qed
qed

section \<open>Histories of a pool\<close>

text \<open>
  The state of a history: the kernel and the blocks clients hold. A client frees blocks it holds
  only; waiting threads are woken by \<open>rt_mp_free\<close> (what a timeout does is a theorem below). The number
  of waiting threads fits the counter.
\<close>

fun handed_out :: "nat option outcome \<Rightarrow> nat list \<Rightarrow> nat list" where
  "handed_out (Ret (Some p)) hs = (p - 4) # hs"
| "handed_out _ hs = hs"

inductive mp_step :: "nat \<Rightarrow> kernel \<times> nat list \<Rightarrow> kernel \<times> nat list \<Rightarrow> bool" for n where
  alloc: "may_wait t k \<Longrightarrow> length (tlists k (LMp n)) + 1 < 2 ^ 32 \<Longrightarrow> rt_mp_alloc n time k = Some (r, k') \<Longrightarrow>
    mp_step n (k, hs) (k', handed_out r hs)"
| alloc_resume: "may_wait t k \<Longrightarrow> length (tlists k (LMp n)) + 1 < 2 ^ 32 \<Longrightarrow>
    rt_mp_alloc_resume n time b t k = Some (r, k') \<Longrightarrow> mp_step n (k, hs) (k', handed_out r hs)"
| free: "rt_current_thread k = Some c \<Longrightarrow> a \<in> set hs \<Longrightarrow> rt_mp_free (a + 4) k = Some k' \<Longrightarrow>
    mp_step n (k, hs) (k', removeAll a hs)"
| yield: "rt_current_thread k = Some c \<Longrightarrow> mp_step n (k, hs) (snd (rt_thread_yield k), hs)"

definition mp_ok :: "nat \<Rightarrow> u32 \<Rightarrow> kernel \<times> nat list \<Rightarrow> bool" where
  "mp_ok n c s \<longleftrightarrow> (\<exists>fs. mp_wf n (fst s) fs (snd s)) \<and> mp_block_total_count (mempools (fst s) n) = c"

lemma mp_ok_alloc:
  assumes "mp_wf n k fs hs" "may_wait t k" "length (tlists k (LMp n)) + 1 < 2 ^ 32" "mp_alloc_loop n time b t k = Some (r, k')"
  shows "mp_ok n (mp_block_total_count (mempools k n)) (k', handed_out r hs)"
  using mp_alloc_loop_spec [OF assms(1-3), of time b] assms(4)
  by (cases fs) (auto simp: mp_ok_def split: if_splits)

lemma mp_step_ok:
  assumes "mp_step n s s'" "mp_ok n c s"
  shows "mp_ok n c s'"
proof -
  obtain fs where wf: "mp_wf n (fst s) fs (snd s)" and c: "c = mp_block_total_count (mempools (fst s) n)"
    using assms(2) by (auto simp: mp_ok_def)
  show ?thesis using assms(1)
  proof (cases rule: mp_step.cases)
    case (alloc t k time r k' hs)
    then have "self k = t" by (simp add: may_wait_def)
    then show ?thesis using mp_ok_alloc [of n k fs hs t time 0 r k'] alloc wf by (simp add: rt_mp_alloc_def c)
  next
    case (alloc_resume t k time b r k' hs)
    show ?thesis
    proof (cases "th_error (threads k t) \<noteq> RT_EOK")
      case True
      then show ?thesis using alloc_resume wf by (auto simp: rt_mp_alloc_resume_def mp_ok_def c)
    next
      case False
      then show ?thesis using alloc_resume wf
          mp_ok_alloc [of n k fs hs t "if time > 0 then remaining time (rt_tick k - b) else time" b r k']
        by (simp add: rt_mp_alloc_resume_def c)
    qed
  next
    case (free k c' a hs k')
    then show ?thesis using rt_mp_free_spec [of n k fs hs c' a] wf by (auto simp: mp_ok_def c)
  next
    case (yield k c' hs)
    have "mp_inv n (rt_schedule k) fs hs" using wf yield by (simp add: mp_wf_def mp_inv_def frame_simps)
    then have "mp_wf n (rt_schedule k) fs hs"
      using wf rt_schedule_wf [of k c'] rt_schedule_wait [of k c' "LMp n"] yield by (simp add: mp_wf_def frame_simps)
    then show ?thesis using yield by (auto simp: mp_ok_def c rt_thread_yield_def frame_simps)
  qed
qed

section \<open>Properties\<close>

lemma mp_run_ok: "(mp_step n)\<^sup>*\<^sup>* s s' \<Longrightarrow> mp_ok n c s \<Longrightarrow> mp_ok n c s'"
  by (induction rule: rtranclp_induct) (auto intro: mp_step_ok)

text \<open>
  C20. A pool never hands out a block twice and never loses one: over every history of allocations
  (immediate, refused, or after a wait) and frees, the blocks clients hold are distinct blocks of
  the pool that do not overlap, and free and held blocks together are always all of them. Freeing
  a held block always succeeds, and an allocation succeeds exactly when a block is free.
\<close>

theorem mp_blocks_conserved:
  assumes "(mp_step n)\<^sup>*\<^sup>* (k, hs) (k', hs')" "mp_wf n k fs hs"
  shows "distinct hs' \<and> set hs' \<subseteq> set (mp_blocks (mempools k' n)) \<and>
    unat (mp_block_free_count (mempools k' n)) + length hs' = unat (mp_block_total_count (mempools k n)) \<and>
    (\<forall>a \<in> set hs'. \<forall>b \<in> set hs'. a < b \<longrightarrow> a + 4 + unat (mp_block_size (mempools k' n)) \<le> b) \<and>
    (\<forall>c. \<forall>a \<in> set hs'. rt_current_thread k' = Some c \<longrightarrow> rt_mp_free (a + 4) k' \<noteq> None) \<and>
    (\<forall>t. may_wait t k' \<and> length (tlists k' (LMp n)) + 1 < 2 ^ 32 \<longrightarrow>
       (\<exists>r k2. rt_mp_alloc n 0 k' = Some (Ret r, k2) \<and> (r = None \<longleftrightarrow> mp_block_free_count (mempools k' n) = 0)))"
proof -
  let ?m = "mempools k' n"
  have "mp_ok n (mp_block_total_count (mempools k n)) (k', hs')"
    by (rule mp_run_ok [OF assms(1)]) (use assms(2) in \<open>auto simp: mp_ok_def\<close>)
  then obtain fs' where wf: "mp_wf n k' fs' hs'" and tot: "mp_block_total_count ?m = mp_block_total_count (mempools k n)"
    by (auto simp: mp_ok_def)
  have inv: "mp_inv n k' fs' hs'" using wf by (simp add: mp_wf_def)
  note l = mp_inv_length [OF inv]
  have d: "distinct hs'" "set hs' \<subseteq> set (mp_blocks ?m)" "mp_block_free_count ?m = of_nat (length fs')"
    using inv by (auto simp: mp_inv_def)
  have "length fs' < 2 ^ 32" using l(1) unsigned_less [where 'a = nat, of "mp_block_total_count ?m"] by simp
  then have "unat (mp_block_free_count ?m) = length fs'" using d(3) by (simp add: unat_of_nat)
  then have cons: "unat (mp_block_free_count ?m) + length hs' = unat (mp_block_total_count (mempools k n))" using l(1) tot by simp
  have sep: "a + 4 + unat (mp_block_size ?m) \<le> b" if ab: "a \<in> set hs'" "b \<in> set hs'" "a < b" for a b
  proof -
    have "a \<in> set (mp_blocks ?m)" "b \<in> set (mp_blocks ?m)" using ab d(2) by blast+
    then obtain i j where ij: "a = mp_addr ?m i" "b = mp_addr ?m j" by (auto simp: mp_blocks_def)
    then have "i < j" using ab(3) by (simp add: mp_addr_def)
    then have "Suc i * (unat (mp_block_size ?m) + 4) \<le> j * (unat (mp_block_size ?m) + 4)" by (intro mult_le_mono1) simp
    then show ?thesis using ij by (simp add: mp_addr_def)
  qed
  have fr: "rt_mp_free (a + 4) k' \<noteq> None" if "a \<in> set hs'" "rt_current_thread k' = Some c" for a c
    using rt_mp_free_spec [OF wf that(2,1)] by auto
  have "\<exists>r k2. rt_mp_alloc n 0 k' = Some (Ret r, k2) \<and> (r = None \<longleftrightarrow> mp_block_free_count ?m = 0)"
    if "may_wait t k'" "length (tlists k' (LMp n)) + 1 < 2 ^ 32" for t
  proof -
    have "self k' = t" using that(1) by (simp add: may_wait_def)
    then show ?thesis using mp_alloc_loop_spec [OF wf that, of 0 0] l(2) by (cases fs') (auto simp: rt_mp_alloc_def)
  qed
  then show ?thesis using d(1,2) cons sep fr by blast
qed

text \<open>A pool of two blocks of eight bytes at address 1000, of which \<open>hs\<close> are in use.\<close>

definition demo_pool :: "nat \<Rightarrow> nat option \<Rightarrow> nat \<Rightarrow> rt_mempool" where
  "demo_pool free l waiting = \<lparr>mp_start_address = 1000, mp_size = 24, mp_block_size = 8, mp_block_list = l,
     mp_block_total_count = 2, mp_block_free_count = of_nat free, mp_suspend_thread_count = of_nat waiting\<rparr>"

definition demo_mp_free :: kernel where
  "demo_mp_free = (upd_mp 0 (\<lambda>_. demo_pool 2 (Some 1000) 0) (demo_running 3 [5] (LMp 0) []))
     \<lparr>mp_words := (\<lambda>a. if a = 1000 then MpNext (Some 1012) else MpNext None)\<rparr>"

definition demo_mp_used :: kernel where
  "demo_mp_used = (upd_mp 0 (\<lambda>_. demo_pool 0 None 1) (demo_running 3 [5] (LMp 0) [2]))\<lparr>mp_words := (\<lambda>a. MpPool 0)\<rparr>"

lemma demo_mp:
  "mp_wf 0 demo_mp_free [1000, 1012] []" "may_wait 3 demo_mp_free" "mp_wf 0 demo_mp_used [] [1000, 1012]"
  "tlists demo_mp_used (LMp 0) = [2]" "rt_current_thread demo_mp_used = Some 3" "tlists demo_mp_free (LMp 0) = []"
proof -
  have "sched_wf (demo_running 3 [5] (LMp 0) [])" "sched_wf (demo_running 3 [5] (LMp 0) [2])"
    by (rule demo_running_wf; simp)+
  moreover have "[0..<2] = [0, 1 :: nat]" by (simp add: upt_rec)
  ultimately show "mp_wf 0 demo_mp_free [1000, 1012] []" "mp_wf 0 demo_mp_used [] [1000, 1012]"
    by (simp_all add: mp_wf_def mp_inv_def demo_mp_free_def demo_mp_used_def demo_pool_def mp_blocks_def mp_addr_def demo_running_def)
  show "may_wait 3 demo_mp_free"
    by (auto simp: may_wait_def demo_mp_free_def demo_running_def demo_kernel_def demo_thread_def intro!: exI [of _ 5])
qed (simp_all add: demo_mp_free_def demo_mp_used_def demo_running_def)

theorem mp_blocks_conserved_witness:
  "\<exists>k'. rt_mp_alloc 0 0 demo_mp_free = Some (Ret (Some 1004), k') \<and> unat (mp_block_free_count (mempools k' 0)) = 1 \<and>
     (\<forall>c. rt_current_thread k' = Some c \<longrightarrow> rt_mp_free 1004 k' \<noteq> None)"
proof -
  have "self demo_mp_free = 3" using demo_mp(2) by (simp add: may_wait_def)
  then obtain k' where a: "rt_mp_alloc 0 0 demo_mp_free = Some (Ret (Some 1004), k')"
    using mp_alloc_loop_spec [OF demo_mp(1,2), of 0 0] demo_mp(6) by (auto simp: rt_mp_alloc_def)
  have "mp_step 0 (demo_mp_free, []) (k', handed_out (Ret (Some 1004)) [])"
    by (rule mp_step.alloc [OF demo_mp(2) _ a]) (simp add: demo_mp)
  then have "(mp_step 0)\<^sup>*\<^sup>* (demo_mp_free, []) (k', [1000])" by (intro r_into_rtranclp) simp
  from mp_blocks_conserved [OF this demo_mp(1)] a show ?thesis
    by (auto simp: demo_mp_free_def demo_pool_def)
qed

text \<open>
  C33. A timeout breaks the pool: when the timer of a thread that waits for a block runs out, the thread
  leaves the waiting list and \<open>rt_mp_alloc\<close> returns null, but nobody decrements
  \<open>suspend_thread_count\<close>. If it was the only one, the next \<open>rt_mp_free\<close> finds a positive count and an
  empty list, and takes the list head inside the pool for a thread: memory is corrupted.
\<close>

theorem mp_timeout_corrupts_next_free:
  assumes "mp_wf n k fs hs" "tlists k (LMp n) = [t]" "rt_current_thread k = Some c" "a \<in> set hs"
  shows "let k' = rt_thread_timeout t k in
    tlists k' (LMp n) = [] \<and> mp_suspend_thread_count (mempools k' n) = 1 \<and>
    (\<exists>k2. rt_mp_alloc_resume n time b t k' = Some (Ret None, k2)) \<and> rt_mp_free (a + 4) k' = None"
proof -
  have sw: "sched_wf k" and inv: "mp_inv n k fs hs" and cnt: "mp_suspend_thread_count (mempools k n) = 1"
    using assms(1,2) by (simp_all add: mp_wf_def)
  have st: "stat k t = RT_THREAD_SUSPEND" using sched_wfD(6) [OF sw wait_list_mp [of n], of t] assms(2) by simp
  have tl: "tlists (rt_thread_timeout t k) (LMp n) = []" using rt_thread_timeout_lists [OF sw st assms(3) wait_list_mp] assms(2) by simp
  have f: "mempools (rt_thread_timeout t k) = mempools k" "mp_words (rt_thread_timeout t k) = mp_words k"
    by (simp_all add: rt_thread_timeout_def Let_def frame_simps rt_schedule_insert_thread_def state_defs)
  have "th_error (threads (rt_thread_timeout t k) t) = - RT_ETIMEOUT"
    using rt_thread_timeout_threads [OF sw st assms(3)] by (simp add: woken_def)
  moreover have "mp_words k a = MpPool n" using inv assms(4) by (simp add: mp_inv_def)
  ultimately show ?thesis using tl f cnt by (simp add: rt_mp_alloc_resume_def rt_mp_free_def Let_def)
qed

theorem mp_timeout_corrupts_next_free_witness:
  "rt_mp_free 1004 (rt_thread_timeout 2 demo_mp_used) = None"
  using mp_timeout_corrupts_next_free [OF demo_mp(3,4,5), of 1000] by (simp add: Let_def)

end
