(* ===== verification/Kernel_Services.thy ===== *)
theory Kernel_Services
  imports Ipc_Mutex Ipc_Event Ipc_Mq
begin

text \<open>
  The services together: threads that use semaphores, events, mailboxes and message queues side by
  side, sleep, yield and time out. Each service keeps its own invariant (the component theories);
  here each is shown to leave the others' alone, so that the conjunction holds in every reachable
  state.
\<close>

section \<open>Frames\<close>

text \<open>What a service keeps of the waiting lists other than \<open>X\<close>, of the requests of the threads in them,
  and of the object headers.\<close>

definition frame_ok :: "lid set \<Rightarrow> kernel \<Rightarrow> kernel \<Rightarrow> bool" where
  "frame_ok X k k' \<longleftrightarrow>
     (\<forall>l. is_wait_list l \<and> l \<notin> X \<longrightarrow> tlists k' l = tlists k l \<and>
        (\<forall>t \<in> set (tlists k l). th_event_set (threads k' t) = th_event_set (threads k t) \<and>
           th_event_info (threads k' t) = th_event_info (threads k t))) \<and>
     (\<forall>x. (\<forall>y. x \<noteq> OTimer y) \<longrightarrow> objects k' x = objects k x)"

lemma frame_okI:
  assumes "\<And>l. is_wait_list l \<Longrightarrow> l \<notin> X \<Longrightarrow> tlists k' l = tlists k l"
    and "\<And>l t. is_wait_list l \<Longrightarrow> l \<notin> X \<Longrightarrow> t \<in> set (tlists k l) \<Longrightarrow>
      th_event_set (threads k' t) = th_event_set (threads k t) \<and> th_event_info (threads k' t) = th_event_info (threads k t)"
    and "\<And>x. (\<And>y. x \<noteq> OTimer y) \<Longrightarrow> objects k' x = objects k x"
  shows "frame_ok X k k'"
  using assms unfolding frame_ok_def by blast

lemma frame_ok_refl: "threads k' = threads k \<Longrightarrow> tlists k' = tlists k \<Longrightarrow> objects k' = objects k \<Longrightarrow> frame_ok X k k'"
  by (simp add: frame_ok_def)

lemma sem_wf_frame: "frame_ok X k k' \<Longrightarrow> sems k' n = sems k n \<Longrightarrow> LSem n \<notin> X \<Longrightarrow> sem_wf n k \<Longrightarrow> sem_wf n k'"
  unfolding frame_ok_def sem_wf_def by simp

lemma frame_okD:
  assumes "frame_ok X k k'" "is_wait_list l" "l \<notin> X"
  shows "tlists k' l = tlists k l" "t \<in> set (tlists k l) \<Longrightarrow> th_event_set (threads k' t) = th_event_set (threads k t)"
    "t \<in> set (tlists k l) \<Longrightarrow> th_event_info (threads k' t) = th_event_info (threads k t)"
  using assms unfolding frame_ok_def by blast+

lemma event_wf_frame:
  assumes "frame_ok X k k'" "events k' n = events k n" "LEvent n \<notin> X" "event_wf n k"
  shows "event_wf n k'"
proof -
  have "objects k' (OEvent n) = objects k (OEvent n)" using assms(1) by (simp add: frame_ok_def)
  then show ?thesis using assms(2,4) frame_okD [OF assms(1) wait_list_LEvent assms(3)] by (simp add: event_wf_def)
qed

lemma mb_wf_frame: "frame_ok X k k' \<Longrightarrow> mailboxes k' n = mailboxes k n \<Longrightarrow> sched_wf k' \<Longrightarrow> mb_wf n k \<Longrightarrow> mb_wf n k'"
  unfolding frame_ok_def mb_wf_def by simp

lemma mq_wf_frame: "frame_ok X k k' \<Longrightarrow> mqs k' n = mqs k n \<Longrightarrow> sched_wf k' \<Longrightarrow> mq_wf n k \<Longrightarrow> mq_wf n k'"
  unfolding frame_ok_def mq_wf_def by simp

lemma frame_wake_first:
  assumes "sched_wf k" "rt_current_thread k = Some c" "is_wait_list l"
  shows "frame_ok {l} k (wake_first l k)"
proof (rule frame_okI)
  note w = wake_first_spec [OF assms]
  show "tlists (wake_first l k) l' = tlists k l'" if "is_wait_list l'" "l' \<notin> {l}" for l' using w(5) that by simp
  show "th_event_set (threads (wake_first l k) t) = th_event_set (threads k t) \<and>
      th_event_info (threads (wake_first l k) t) = th_event_info (threads k t)" for t
    unfolding w(3) by (cases "tlists k l") auto
qed simp

lemma not_waiting: "sched_wf k \<Longrightarrow> stat k t = RT_THREAD_READY \<Longrightarrow> is_wait_list l \<Longrightarrow> t \<notin> set (tlists k l)"
  using sched_wfD(6) [of k l t] by auto

lemma frame_wait_on:
  assumes "sched_wf k" "rt_current_thread k = Some t" "stat k t = RT_THREAD_READY" "is_wait_list l" "f \<in> {0, 1}"
  shows "frame_ok {l} k (wait_on l f time t k)"
proof (rule frame_okI)
  note w = wait_on_spec [OF assms, where time = time]
  show "tlists (wait_on l f time t k) l' = tlists k l'" if "is_wait_list l'" "l' \<notin> {l}" for l' using w(5) that by simp
  show "th_event_set (threads (wait_on l f time t k) u) = th_event_set (threads k u) \<and>
      th_event_info (threads (wait_on l f time t k) u) = th_event_info (threads k u)" for u
    unfolding w(3) by simp
qed simp

text \<open>Changing only the running thread's own fields first.\<close>

lemma frame_upd_self:
  assumes "sched_wf k" "stat k t = RT_THREAD_READY" "frame_ok X (upd_thread t g k) k'"
  shows "frame_ok X k k'"
proof -
  have "\<forall>l. is_wait_list l \<longrightarrow> t \<notin> set (tlists k l)" using not_waiting [OF assms(1,2)] by blast
  then show ?thesis using assms(3) unfolding frame_ok_def by auto
qed

lemma frame_trans_data:
  assumes "threads k1 = threads k" "tlists k1 = tlists k" "objects k1 = objects k" "frame_ok X k1 k'"
  shows "frame_ok X k k'"
  using assms by (simp add: frame_ok_def)

section \<open>Events\<close>

lemma event_wake_frame:
  "sems (event_wake e t k) = sems k" "mailboxes (event_wake e t k) = mailboxes k" "mqs (event_wake e t k) = mqs k"
  "e' \<noteq> e \<Longrightarrow> events (event_wake e t k) e' = events k e'"
  "(\<And>y. x \<noteq> OTimer y) \<Longrightarrow> objects (event_wake e t k) x = objects k x"
  by (simp_all add: event_wake_def Let_def) (auto simp: upd_event_def)

lemma event_send_loop_frame:
  assumes "sched_wf k" "distinct ts" "set ts \<subseteq> set (tlists k (LEvent e))"
  shows "sems (fst (event_send_loop e ts k need)) = sems k \<and> mailboxes (fst (event_send_loop e ts k need)) = mailboxes k \<and>
    mqs (fst (event_send_loop e ts k need)) = mqs k \<and>
    (\<forall>e'. e' \<noteq> e \<longrightarrow> events (fst (event_send_loop e ts k need)) e' = events k e') \<and>
    (\<forall>x. (\<forall>y. x \<noteq> OTimer y) \<longrightarrow> objects (fst (event_send_loop e ts k need)) x = objects k x) \<and>
    (\<forall>l. is_wait_list l \<and> l \<noteq> LEvent e \<longrightarrow> tlists (fst (event_send_loop e ts k need)) l = tlists k l)"
  using assms
proof (induction ts arbitrary: k need)
  case (Cons t ts)
  show ?case
  proof (cases "th_satisfied (threads k t) (ev_set (events k e))")
    case False
    then have "event_send_loop e (t # ts) k need = event_send_loop e ts k need" by (simp only: event_send_loop_Cons if_False)
    then show ?thesis using Cons.IH [of k need] Cons.prems by simp
  next
    case True
    let ?k = "event_wake e t k"
    have step: "event_send_loop e (t # ts) k need = event_send_loop e ts ?k True"
      using True by (simp only: event_send_loop_Cons if_True)
    have tin: "t \<in> set (tlists k (LEvent e))" using Cons.prems(3) by simp
    have st: "stat k t = RT_THREAD_SUSPEND" using sched_wfD(6) [OF Cons.prems(1), of "LEvent e" t] tin by simp
    note w = event_wake_spec [OF Cons.prems(1) st, where e = e]
    have sub: "set ts \<subseteq> set (tlists ?k (LEvent e))" using Cons.prems w(4) [of "LEvent e"] by auto
    have "tlists ?k l = tlists k l" if l: "is_wait_list l" "l \<noteq> LEvent e" for l
    proof -
      have "t \<notin> set (tlists k l)" using disjoint_listsD [OF sched_wfD(1) [OF Cons.prems(1)] tin, of l] l(2) by blast
      then show ?thesis using w(4) [OF l(1)] by simp
    qed
    moreover have "distinct ts" using Cons.prems(2) by simp
    ultimately show ?thesis unfolding step using Cons.IH [OF w(1) _ sub, of True]
      by (simp add: event_wake_frame)
  qed
qed simp

lemma rt_event_send_frame:
  fixes e :: nat
  assumes wf: "sched_wf k" and cur: "rt_current_thread k = Some c" and s: "s \<noteq> 0"
  defines "k' \<equiv> snd (rt_event_send e s k)"
  shows "frame_ok {LEvent e} k k'" "sems k' = sems k" "mailboxes k' = mailboxes k" "mqs k' = mqs k"
    "\<And>e'. e' \<noteq> e \<Longrightarrow> events k' e' = events k e'"
proof -
  let ?ts = "tlists k (LEvent e)"
  define k0 where "k0 = upd_event e (\<lambda>x. x OR s) k"
  define k1 where "k1 = fst (event_send_loop e ?ts k0 False)"
  have k': "k' = (if snd (event_send_loop e ?ts k0 False) then rt_schedule k1 else k1)"
    using s by (simp add: k'_def rt_event_send_def Let_def split_def k0_def k1_def)
  have w0: "sched_wf k0" "set ?ts \<subseteq> set (tlists k0 (LEvent e))" "distinct ?ts" "rt_current_thread k0 = Some c"
    using wf cur disjoint_lists_distinct [OF sched_wfD(1) [OF wf]] by (simp_all add: k0_def)
  have d0: "sems k0 = sems k" "mailboxes k0 = mailboxes k" "mqs k0 = mqs k" "objects k0 = objects k" "tlists k0 = tlists k"
    "threads k0 = threads k" "\<And>e'. e' \<noteq> e \<Longrightarrow> events k0 e' = events k e'" by (simp_all add: k0_def upd_event_def)
  note f = event_send_loop_frame [OF w0(1,3,2), of False, folded k1_def]
  note L = event_send_loop_spec [OF w0(1,3,2), where need = False, folded k1_def]
  have w1: "sched_wf k1" "rt_current_thread k1 = Some c" using L w0(4) by auto
  have data: "sems k' = sems k1" "mailboxes k' = mailboxes k1" "mqs k' = mqs k1" "events k' = events k1" "objects k' = objects k1"
    "threads k' = threads k1" "\<And>l. is_wait_list l \<Longrightarrow> tlists k' l = tlists k1 l"
    unfolding k' using rt_schedule_threads [OF w1] rt_schedule_wait [OF w1] by (simp_all add: frame_simps)
  show "sems k' = sems k" "mailboxes k' = mailboxes k" "mqs k' = mqs k" "\<And>e'. e' \<noteq> e \<Longrightarrow> events k' e' = events k e'"
    using data f d0 by simp_all
  show "frame_ok {LEvent e} k k'"
  proof (rule frame_okI)
    show "tlists k' l = tlists k l" if "is_wait_list l" "l \<notin> {LEvent e}" for l using data(7) f d0(5) that by simp
    fix l t assume lt: "is_wait_list l" "l \<notin> {LEvent e}" "t \<in> set (tlists k l)"
    then have "t \<notin> set ?ts" using disjoint_listsD [OF sched_wfD(1) [OF wf], of t l "LEvent e"] by blast
    then show "th_event_set (threads k' t) = th_event_set (threads k t) \<and> th_event_info (threads k' t) = th_event_info (threads k t)"
      using L d0(6) data(6) by simp
  qed (use data(5) f d0(4) in simp)
qed

section \<open>The kernel as one system\<close>

text \<open>\<open>S\<close>, \<open>E\<close>, \<open>M\<close> and \<open>Q\<close> are the semaphores, events, mailboxes and message queues that exist.\<close>

definition kernel_ok :: "nat set \<Rightarrow> nat set \<Rightarrow> nat set \<Rightarrow> nat set \<Rightarrow> kernel \<Rightarrow> bool" where
  "kernel_ok S E M Q k \<longleftrightarrow> sched_wf k \<and> (\<exists>c. rt_current_thread k = Some c) \<and> (\<forall>n \<in> S. sem_wf n k) \<and>
     (\<forall>n \<in> E. event_wf n k) \<and> (\<forall>n \<in> M. mb_wf n k) \<and> (\<forall>n \<in> Q. mq_wf n k)"

inductive kernel_step :: "nat set \<Rightarrow> nat set \<Rightarrow> nat set \<Rightarrow> nat set \<Rightarrow> kernel \<Rightarrow> kernel \<Rightarrow> bool" for S E M Q where
  sem_take: "n \<in> S \<Longrightarrow> may_wait t k \<Longrightarrow> kernel_step S E M Q k (snd (rt_sem_take n time k))"
| sem_release: "n \<in> S \<Longrightarrow> kernel_step S E M Q k (snd (rt_sem_release n k))"
| event_send: "n \<in> E \<Longrightarrow> kernel_step S E M Q k (snd (rt_event_send n flags k))"
| event_recv: "n \<in> E \<Longrightarrow> may_wait t k \<Longrightarrow> kernel_step S E M Q k (snd (rt_event_recv n flags opt time k))"
| mb_send: "n \<in> M \<Longrightarrow> may_wait t k \<Longrightarrow> rt_mb_send_wait n v time k = Some (r, k') \<Longrightarrow> kernel_step S E M Q k k'"
| mb_send_resume: "n \<in> M \<Longrightarrow> may_wait t k \<Longrightarrow> rt_mb_send_wait_resume n v time d t k = Some (r, k') \<Longrightarrow> kernel_step S E M Q k k'"
| mb_recv: "n \<in> M \<Longrightarrow> may_wait t k \<Longrightarrow> rt_mb_recv n time k = Some (r', k') \<Longrightarrow> kernel_step S E M Q k k'"
| mb_recv_resume: "n \<in> M \<Longrightarrow> may_wait t k \<Longrightarrow> rt_mb_recv_resume n time d t k = Some (r', k') \<Longrightarrow> kernel_step S E M Q k k'"
| mq_send: "n \<in> Q \<Longrightarrow> length buffer = unat sz \<Longrightarrow> kernel_step S E M Q k (snd (rt_mq_send n buffer sz k))"
| mq_urgent: "n \<in> Q \<Longrightarrow> length buffer = unat sz \<Longrightarrow> kernel_step S E M Q k (snd (rt_mq_urgent n buffer sz k))"
| mq_recv: "n \<in> Q \<Longrightarrow> may_wait t k \<Longrightarrow> rt_mq_recv n sz time k = Some (q, k') \<Longrightarrow> kernel_step S E M Q k k'"
| mq_recv_resume: "n \<in> Q \<Longrightarrow> may_wait t k \<Longrightarrow> rt_mq_recv_resume n sz time d t k = Some (q, k') \<Longrightarrow> kernel_step S E M Q k k'"
| yield: "kernel_step S E M Q k (snd (rt_thread_yield k))"
| sleep: "may_wait t k \<Longrightarrow> kernel_step S E M Q k (rt_thread_sleep tick k)"
| timeout: "stat k t = RT_THREAD_SUSPEND \<Longrightarrow> kernel_step S E M Q k (rt_thread_timeout t k)"

text \<open>One service at a time: its own invariant is given, the others follow from the frame.\<close>

lemma kernel_okI:
  assumes "kernel_ok S E M Q k" "frame_ok X k k'" "sched_wf k'" "\<exists>c. rt_current_thread k' = Some c"
    and "\<And>n. n \<in> S \<Longrightarrow> (sems k' n = sems k n \<and> LSem n \<notin> X) \<or> sem_wf n k'"
    and "\<And>n. n \<in> E \<Longrightarrow> (events k' n = events k n \<and> LEvent n \<notin> X) \<or> event_wf n k'"
    and "\<And>n. n \<in> M \<Longrightarrow> mailboxes k' n = mailboxes k n \<or> mb_wf n k'"
    and "\<And>n. n \<in> Q \<Longrightarrow> mqs k' n = mqs k n \<or> mq_wf n k'"
  shows "kernel_ok S E M Q k'"
proof -
  have o: "sem_wf n k" if "n \<in> S" for n using assms(1) that by (simp add: kernel_ok_def)
  have e: "event_wf n k" if "n \<in> E" for n using assms(1) that by (simp add: kernel_ok_def)
  have m: "mb_wf n k" if "n \<in> M" for n using assms(1) that by (simp add: kernel_ok_def)
  have q: "mq_wf n k" if "n \<in> Q" for n using assms(1) that by (simp add: kernel_ok_def)
  show ?thesis unfolding kernel_ok_def
    using assms(3,4) sem_wf_frame [OF assms(2) _ _ o] event_wf_frame [OF assms(2) _ _ e] mb_wf_frame [OF assms(2) _ assms(3) m]
      mq_wf_frame [OF assms(2) _ assms(3) q] assms(5-8) by blast
qed

lemma kernel_okD:
  assumes "kernel_ok S E M Q k"
  shows "sched_wf k" "\<exists>c. rt_current_thread k = Some c" "n \<in> S \<Longrightarrow> sem_wf n k" "n \<in> E \<Longrightarrow> event_wf n k"
    "n \<in> M \<Longrightarrow> mb_wf n k" "n \<in> Q \<Longrightarrow> mq_wf n k"
  using assms by (simp_all add: kernel_ok_def)

lemma may_waitD: "may_wait t k \<Longrightarrow> rt_current_thread k = Some t" "may_wait t k \<Longrightarrow> stat k t = RT_THREAD_READY"
  by (simp_all add: may_wait_def)

lemma frame_wait_fresh:
  assumes "sched_wf k" "may_wait t k" "is_wait_list l" "f \<in> {0, 1}"
  shows "frame_ok {l} k (wait_fresh l f time t k)"
proof (rule frame_upd_self [OF assms(1) may_waitD(2) [OF assms(2)]])
  show "frame_ok {l} (upd_thread t (\<lambda>th. th\<lparr>th_error := RT_EOK\<rparr>) k) (wait_fresh l f time t k)"
    using assms may_waitD [OF assms(2)] by (intro frame_wait_on) (simp_all add: sched_wf_upd_error)
qed

lemma frame_error: "frame_ok X k (upd_thread t (\<lambda>th. th\<lparr>th_error := e\<rparr>) k)"
  by (simp add: frame_ok_def)

lemma frame_upd_error: "frame_ok X k k' \<Longrightarrow> frame_ok X k (upd_thread t (\<lambda>th. th\<lparr>th_error := e\<rparr>) k')"
  by (simp add: frame_ok_def)

lemma frame_upd_event: "frame_ok X k k' \<Longrightarrow> frame_ok X k (upd_event n g k')"
  by (simp add: frame_ok_def)

lemma upd_event_others:
  "sems (upd_event n g k) = sems k" "mailboxes (upd_event n g k) = mailboxes k" "mqs (upd_event n g k) = mqs k"
  "e \<noteq> n \<Longrightarrow> events (upd_event n g k) e = events k e"
  by (simp_all add: upd_event_def)

text \<open>The waiting branch of a service on object \<open>x\<close> with list \<open>l\<close>, and a call that only sets the error.\<close>

lemma kernel_ok_wait:
  assumes ok: "kernel_ok S E M Q k" and mw: "may_wait t k" and l: "is_wait_list l" "f \<in> {0, 1}"
    and own: "\<And>n. n \<in> S \<Longrightarrow> l = LSem n \<Longrightarrow> sem_wf n (wait_fresh l f time t k)" and le: "\<And>n. l \<noteq> LEvent n"
  shows "kernel_ok S E M Q (wait_fresh l f time t k)"
proof -
  note w = wait_fresh_spec [OF kernel_okD(1) [OF ok] mw l, where time = time]
  show ?thesis
    by (rule kernel_okI [OF ok frame_wait_fresh [OF kernel_okD(1) [OF ok] mw l]])
      (use w own le in auto)
qed

lemma kernel_ok_error:
  assumes "kernel_ok S E M Q k"
  shows "kernel_ok S E M Q (upd_thread t (\<lambda>th. th\<lparr>th_error := e\<rparr>) k)"
  by (rule kernel_okI [OF assms frame_error [where X = "{}"]])
    (use kernel_okD(1,2) [OF assms] in \<open>simp_all add: sched_wf_upd_error\<close>)

text \<open>Waking the first of a list that is no semaphore's or event's.\<close>

lemma kernel_ok_wake:
  assumes ok: "kernel_ok S E M Q k" and l: "l \<in> range LMailBox \<union> range LMbSender \<union> range LMq"
  shows "kernel_ok S E M Q (wake_first l k)"
proof -
  have wl: "is_wait_list l" using l by auto
  obtain c where c: "rt_current_thread k = Some c" using kernel_okD(2) [OF ok] by blast
  note w = wake_first_spec [OF kernel_okD(1) [OF ok] c wl]
  show ?thesis
    by (rule kernel_okI [OF ok frame_wake_first [OF kernel_okD(1) [OF ok] c wl]]) (use w l in auto)
qed

lemma kernel_ok_data:
  assumes "kernel_ok S E M Q k" "threads k' = threads k" "tlists k' = tlists k" "objects k' = objects k"
    "rt_current_thread k' = rt_current_thread k" "sched_wf k'" "sems k' = sems k" "events k' = events k"
    and "\<And>n. n \<in> M \<Longrightarrow> mailboxes k' n = mailboxes k n \<or> mb_wf n k'" "\<And>n. n \<in> Q \<Longrightarrow> mqs k' n = mqs k n \<or> mq_wf n k'"
  shows "kernel_ok S E M Q k'"
  by (rule kernel_okI [OF assms(1) frame_ok_refl [OF assms(2-4), where X = "{}"]])
    (use assms(5-10) kernel_okD(2) [OF assms(1)] in auto)

section \<open>Every service keeps the system well-formed\<close>

lemma kernel_ok_sem_take:
  assumes ok: "kernel_ok S E M Q k" and n: "n \<in> S" and mw: "may_wait t k"
  shows "kernel_ok S E M Q (snd (rt_sem_take n time k))"
proof -
  note c = may_waitD [OF mw]
  note w = rt_sem_take_wf [OF kernel_okD(1) [OF ok] kernel_okD(3) [OF ok n] c, where time = time]
  have f: "obj_flag (OSem n) k \<in> {0, 1}" using kernel_okD(3) [OF ok n] by (simp add: sem_wf_def)
  have fr: "frame_ok {LSem n} k (snd (rt_sem_take n time k))"
    "events (snd (rt_sem_take n time k)) = events k" "mailboxes (snd (rt_sem_take n time k)) = mailboxes k"
    "mqs (snd (rt_sem_take n time k)) = mqs k"
    using frame_wait_fresh [OF kernel_okD(1) [OF ok] mw wait_list_LSem [of n] f, where time = time]
      wait_fresh_spec(7,8,11) [OF kernel_okD(1) [OF ok] mw wait_list_LSem [of n] f, where time = time]
    by (auto simp: rt_sem_take_eq [OF c(1)] Let_def upd_sem_def intro: frame_ok_refl)
  have sm: "(sems (snd (rt_sem_take n time k)) m = sems k m \<and> LSem m \<notin> {LSem n}) \<or> sem_wf m (snd (rt_sem_take n time k))" for m
    using w(2) w(5) [of m] by (cases "m = n") auto
  show ?thesis by (rule kernel_okI [OF ok fr(1)]) (use w(1,3) sm fr(2-4) in auto)
qed

lemma kernel_ok_sem_release:
  assumes ok: "kernel_ok S E M Q k" and n: "n \<in> S"
  shows "kernel_ok S E M Q (snd (rt_sem_release n k))"
proof -
  obtain c where c: "rt_current_thread k = Some c" using kernel_okD(2) [OF ok] by blast
  have wf: "sem_wf n k" by (rule kernel_okD(3) [OF ok n])
  show ?thesis
  proof (cases "tlists k (LSem n) = []")
    case True
    let ?k = "upd_sem n (\<lambda>s. s\<lparr>sem_value := sem_value s + 1\<rparr>) k"
    have "frame_ok {} k ?k" "events ?k = events k" "mailboxes ?k = mailboxes k" "mqs ?k = mqs k"
      by (auto simp: upd_sem_def intro: frame_ok_refl)
    moreover have "sem_wf n ?k" using wf True by (simp add: sem_wf_def)
    ultimately have "kernel_ok S E M Q ?k"
      by (intro kernel_okI [OF ok]) (use kernel_okD(1,2) [OF ok] c in auto)
    then show ?thesis using True by (simp add: rt_sem_release_free)
  next
    case False
    have r: "snd (rt_sem_release n k) = wake_first (LSem n) k"
      using False by (simp add: rt_sem_release_def wake_first_def tlist_isempty_def)
    note w = wake_first_spec [OF kernel_okD(1) [OF ok] c wait_list_LSem [of n]]
    have "sem_wf n (wake_first (LSem n) k)" using wf False w(4) by (simp add: sem_wf_def)
    then show ?thesis unfolding r
      by (intro kernel_okI [OF ok frame_wake_first [OF kernel_okD(1) [OF ok] c wait_list_LSem [of n]]]) (use w in auto)
  qed
qed

lemma kernel_ok_event_send:
  assumes ok: "kernel_ok S E M Q k" and n: "n \<in> E"
  shows "kernel_ok S E M Q (snd (rt_event_send n s k))"
proof (cases "s = 0")
  case False
  obtain c where c: "rt_current_thread k = Some c" using kernel_okD(2) [OF ok] by blast
  have fl: "obj_flag (OEvent n) k \<in> {0, 1}" using kernel_okD(4) [OF ok n] by (simp add: event_wf_def)
  note f = rt_event_send_frame [OF kernel_okD(1) [OF ok] c False, where e = n]
  have "event_wf n (snd (rt_event_send n s k))"
    using event_send_wf [OF kernel_okD(1) [OF ok] c False fl] .
  then have ev: "(events (snd (rt_event_send n s k)) m = events k m \<and> LEvent m \<notin> {LEvent n}) \<or> event_wf m (snd (rt_event_send n s k))"
    for m using f(5) by (cases "m = n") auto
  show ?thesis
    by (rule kernel_okI [OF ok f(1)])
      (use f(2-4) ev rt_event_send_spec(1,2) [OF kernel_okD(1) [OF ok] c False, where e = n] in auto)
qed (use ok in \<open>simp add: rt_event_send_def\<close>)

lemma kernel_ok_event_recv:
  assumes ok: "kernel_ok S E M Q k" and n: "n \<in> E" and mw: "may_wait t k"
  shows "kernel_ok S E M Q (snd (rt_event_recv n req opt time k))"
proof -
  let ?k' = "snd (rt_event_recv n req opt time k)"
  note c = may_waitD [OF mw]
  have fl: "obj_flag (OEvent n) k \<in> {0, 1}" using kernel_okD(4) [OF ok n] by (simp add: event_wf_def)
  note b = event_recv_keeps [OF kernel_okD(1) [OF ok] kernel_okD(4) [OF ok n] c, where req = req and opt = opt and time = time]
  let ?g = "\<lambda>th. th\<lparr>th_event_set := req, th_event_info := opt\<rparr>"
  let ?k0 = "upd_thread t ?g (upd_thread t (\<lambda>th. th\<lparr>th_error := RT_EOK\<rparr>) k)"
  have wf0: "sched_wf ?k0" "rt_current_thread ?k0 = Some t" "stat ?k0 t = RT_THREAD_READY"
    using kernel_okD(1) [OF ok] c by (simp_all add: sched_wf_ok sched_ok_upd_other)
  have wt: "frame_ok {LEvent n} k (wait_on (LEvent n) (obj_flag (OEvent n) k) time t ?k0)"
  proof (rule frame_upd_self [OF kernel_okD(1) [OF ok] c(2)], rule frame_upd_self)
    show "frame_ok {LEvent n} ?k0 (wait_on (LEvent n) (obj_flag (OEvent n) k) time t ?k0)"
      using wf0 fl by (intro frame_wait_on) simp_all
  qed (use kernel_okD(1) [OF ok] c in \<open>simp_all add: sched_wf_upd_error\<close>)
  let ?w = "wait_on (LEvent n) (obj_flag (OEvent n) k) time t ?k0" and ?e = "\<lambda>e k. upd_thread t (\<lambda>th. th\<lparr>th_error := e\<rparr>) k"
  have r: "snd (rt_event_recv_resume u x) = x" for u x by (simp add: rt_event_recv_resume_def)
  have fr: "frame_ok {LEvent n} k ?k' \<and> sems ?k' = sems k \<and> mailboxes ?k' = mailboxes k \<and> mqs ?k' = mqs k \<and>
      (\<forall>e. e \<noteq> n \<longrightarrow> events ?k' e = events k e)"
  proof (cases "req = 0")
    case True
    then show ?thesis by (simp add: rt_event_recv_def frame_ok_refl)
  next
    case req: False
    note eq = rt_event_recv_eq [OF c(1) req, where e = n and opt = opt and time = time]
    consider "satisfied opt req (ev_set (events k n))" | "\<not> satisfied opt req (ev_set (events k n))" "time = 0"
      | "\<not> satisfied opt req (ev_set (events k n))" "time \<noteq> 0" by blast
    then show ?thesis
    proof cases
      case 1
      then have "?k' = (if opt AND RT_EVENT_FLAG_CLEAR \<noteq> 0 then upd_event n (\<lambda>s. s AND NOT req) (?e RT_EOK k) else ?e RT_EOK k)"
        unfolding eq Let_def by simp
      then show ?thesis using frame_upd_event [OF frame_error] by (simp add: frame_error upd_event_others)
    next
      case 2
      then have "?k' = ?e (- RT_ETIMEOUT) (?e RT_EOK k)" unfolding eq Let_def by simp
      then show ?thesis by (simp only: frame_upd_error frame_error) simp
    next
      case 3
      then have "?k' = ?w" unfolding eq Let_def using r by (simp only: if_False snd_conv if_distrib [of snd] if_cancel)
      then show ?thesis using wt wait_on_spec(6,8,9,10) [OF wf0 wait_list_LEvent fl, where time = time] by simp
    qed
  qed
  have d: "sems ?k' = sems k" "mailboxes ?k' = mailboxes k" "mqs ?k' = mqs k" "\<And>e. e \<noteq> n \<Longrightarrow> events ?k' e = events k e"
    using fr by blast+
  have ev: "(events ?k' m = events k m \<and> LEvent m \<notin> {LEvent n}) \<or> event_wf m ?k'" for m
    using d(4) b(2) by (cases "m = n") auto
  show ?thesis by (rule kernel_okI [OF ok conjunct1 [OF fr]]) (use b d(1-3) ev in auto)
qed


text \<open>Mailboxes.\<close>

lemma kernel_ok_upd_mb:
  assumes ok: "kernel_ok S E M Q k" and n: "n \<in> M" and g: "mb_ok (g (mailboxes k n))"
  shows "kernel_ok S E M Q (upd_mb n g k)"
proof -
  have "mb_wf n (upd_mb n g k)" using kernel_okD(5) [OF ok n] g by (simp add: mb_wf_def)
  then have m: "mailboxes (upd_mb n g k) i = mailboxes k i \<or> mb_wf i (upd_mb n g k)" for i by (cases "i = n") simp_all
  have o: "sems (upd_mb n g k) = sems k" "events (upd_mb n g k) = events k" "mqs (upd_mb n g k) = mqs k" by (simp_all add: upd_mb_def)
  show ?thesis by (rule kernel_ok_data [OF ok]) (use m o kernel_okD(1) [OF ok] in auto)
qed

lemma kernel_ok_mb_send_loop:
  assumes ok: "kernel_ok S E M Q k" and n: "n \<in> M" and mw: "may_wait t k"
    and r: "mb_send_loop n v timeout d t k = Some (r, k')"
  shows "kernel_ok S E M Q k'"
proof -
  note wf = kernel_okD(5) [OF ok n]
  have f: "obj_flag (OMailBox n) k \<in> {0, 1}" and o: "mb_ok (mailboxes k n)" using wf by (simp_all add: mb_wf_def)
  have "kernel_ok S E M Q (wake_first (LMailBox n) (upd_mb n (mb_put v) k))" if "mb_entry (mailboxes k n) \<noteq> mb_size (mailboxes k n)"
    by (rule kernel_ok_wake [OF kernel_ok_upd_mb [OF ok n]]) (use mb_put_spec(1) [OF o that] in simp_all)
  moreover have "kernel_ok S E M Q (wait_fresh (LMbSender n) (obj_flag (OMailBox n) k) timeout t k)"
    by (rule kernel_ok_wait [OF ok mw wait_list_mb(2) f]) simp_all
  ultimately show ?thesis using r kernel_ok_error [OF ok]
    unfolding mb_send_loop_eq [OF wf mw] mb_send_done_eq by (auto split: if_splits)
qed

lemma kernel_ok_mb_recv_loop:
  assumes ok: "kernel_ok S E M Q k" and n: "n \<in> M" and mw: "may_wait t k"
    and r: "mb_recv_loop n timeout d t k = Some (r, k')"
  shows "kernel_ok S E M Q k'"
proof -
  note wf = kernel_okD(5) [OF ok n]
  have f: "obj_flag (OMailBox n) k \<in> {0, 1}" and o: "mb_ok (mailboxes k n)" using wf by (simp_all add: mb_wf_def)
  have "kernel_ok S E M Q (wake_first (LMbSender n) (upd_mb n (snd \<circ> mb_get) k))" if e: "mb_entry (mailboxes k n) \<noteq> 0"
    by (rule kernel_ok_wake [OF kernel_ok_upd_mb [OF ok n]]) (use mb_get_spec(1) [OF o e] in simp_all)
  moreover have "kernel_ok S E M Q (wait_fresh (LMailBox n) (obj_flag (OMailBox n) k) timeout t k)"
    by (rule kernel_ok_wait [OF ok mw wait_list_mb(1) f]) simp_all
  ultimately show ?thesis using r kernel_ok_error [OF ok]
    unfolding mb_recv_loop_eq [OF wf mw] mb_recv_done_eq by (auto split: if_splits)
qed

lemma may_wait_self: "may_wait t k \<Longrightarrow> self k = t"
  by (simp add: may_wait_def)

lemma kernel_ok_mb_send:
  assumes "kernel_ok S E M Q k" "n \<in> M" "may_wait t k"
  shows "rt_mb_send_wait n v time k = Some (r, k') \<Longrightarrow> kernel_ok S E M Q k'"
    and "rt_mb_send_wait_resume n v time d t k = Some (r, k') \<Longrightarrow> kernel_ok S E M Q k'"
  using assms kernel_ok_mb_send_loop [OF assms]
  by (auto simp: rt_mb_send_wait_def rt_mb_send_wait_resume_def may_wait_self split: if_splits)

lemma kernel_ok_mb_recv:
  assumes "kernel_ok S E M Q k" "n \<in> M" "may_wait t k"
  shows "rt_mb_recv n time k = Some (r, k') \<Longrightarrow> kernel_ok S E M Q k'"
    and "rt_mb_recv_resume n time d t k = Some (r, k') \<Longrightarrow> kernel_ok S E M Q k'"
  using assms kernel_ok_mb_recv_loop [OF assms]
  by (auto simp: rt_mb_recv_def rt_mb_recv_resume_def may_wait_self split: if_splits)

text \<open>Message queues.\<close>

lemma kernel_ok_upd_mq:
  assumes ok: "kernel_ok S E M Q k" and n: "n \<in> Q" and g: "mq_inv x qs fs []"
  shows "kernel_ok S E M Q (upd_mq n (\<lambda>_. x) k)"
proof -
  have "mq_wf n (upd_mq n (\<lambda>_. x) k)" using kernel_okD(6) [OF ok n] g mq_invD(2,3) [OF g] by (simp add: mq_wf_def)
  then have m: "mqs (upd_mq n (\<lambda>_. x) k) i = mqs k i \<or> mq_wf i (upd_mq n (\<lambda>_. x) k)" for i by (cases "i = n") simp_all
  have o: "sems (upd_mq n (\<lambda>_. x) k) = sems k" "events (upd_mq n (\<lambda>_. x) k) = events k"
    "mailboxes (upd_mq n (\<lambda>_. x) k) = mailboxes k" by (simp_all add: upd_mq_def)
  show ?thesis by (rule kernel_ok_data [OF ok]) (use m o kernel_okD(1) [OF ok] in auto)
qed

lemma kernel_ok_mq_send:
  assumes ok: "kernel_ok S E M Q k" and n: "n \<in> Q" and len: "length buffer = unat sz"
  shows "kernel_ok S E M Q (snd (rt_mq_send n buffer sz k))" "kernel_ok S E M Q (snd (rt_mq_urgent n buffer sz k))"
proof -
  let ?m = "mqs k n"
  have inv: "mq_inv ?m (mq_queued ?m) (mq_frees ?m) []" using kernel_okD(6) [OF ok n] by (simp add: mq_wf_def)
  have put: "kernel_ok S E M Q (wake_first (LMq n) (upd_mq n (\<lambda>_. mq_link_tail i (mq_fill i buffer (mq_clear_next i m1))) k))"
    "kernel_ok S E M Q (wake_first (LMq n) (upd_mq n (\<lambda>_. mq_link_head i (mq_fill i buffer m1)) k))"
    if c: "mq_claim ?m = Some (i, m1)" and s: "\<not> sz > ucast (mq_msg_size ?m)" for i m1
  proof -
    have l: "length buffer \<le> unat (mq_msg_size ?m)" using s len unat_ucast_u16 [of "mq_msg_size ?m"]
      by (simp add: word_less_nat_alt)
    note p = mq_put_spec [OF inv l c]
    show "kernel_ok S E M Q (wake_first (LMq n) (upd_mq n (\<lambda>_. mq_link_tail i (mq_fill i buffer (mq_clear_next i m1))) k))"
      by (rule kernel_ok_wake [OF kernel_ok_upd_mq [OF ok n p(1)]]) simp
    show "kernel_ok S E M Q (wake_first (LMq n) (upd_mq n (\<lambda>_. mq_link_head i (mq_fill i buffer m1)) k))"
      by (rule kernel_ok_wake [OF kernel_ok_upd_mq [OF ok n p(2)]]) simp
  qed
  show "kernel_ok S E M Q (snd (rt_mq_send n buffer sz k))" "kernel_ok S E M Q (snd (rt_mq_urgent n buffer sz k))"
    using ok put len by (auto simp: rt_mq_send_def rt_mq_urgent_def wake_first_def Let_def split: option.splits)
qed

lemma kernel_ok_mq_recv_loop:
  assumes ok: "kernel_ok S E M Q k" and n: "n \<in> Q" and mw: "may_wait t k"
    and r: "mq_recv_loop n sz timeout d t k = Some (r, k')"
  shows "kernel_ok S E M Q k'"
proof -
  note wf = kernel_okD(6) [OF ok n]
  let ?m = "mqs k n"
  have f: "obj_flag (OMq n) k \<in> {0, 1}" and inv: "mq_inv ?m (mq_queued ?m) (mq_frees ?m) []" using wf by (simp_all add: mq_wf_def)
  have "kernel_ok S E M Q (snd (mq_recv_done n sz k))" if e: "mq_entry ?m \<noteq> 0"
  proof -
    obtain i qs where qs: "mq_queued ?m = i # qs"
      using inv e by (cases "mq_queued ?m") (auto simp: mq_inv_def)
    note u = mq_unlink_inv [OF inv [unfolded qs]]
    have "mq_inv (mq_release i (snd (mq_unlink ?m))) qs (i # mq_frees ?m) []"
      using mq_release_inv [OF u(2), of i] by simp
    from kernel_ok_upd_mq [OF ok n this] show ?thesis using u by (simp add: mq_recv_done_def split_def Let_def)
  qed
  moreover have "kernel_ok S E M Q (wait_fresh (LMq n) (obj_flag (OMq n) k) timeout t k)"
    by (rule kernel_ok_wait [OF ok mw wait_list_mq f]) simp_all
  ultimately show ?thesis using r kernel_ok_error [OF ok]
    unfolding mq_recv_loop_eq [OF wf mw] by (auto split: if_splits dest: arg_cong [of _ _ snd])
qed

lemma kernel_ok_mq_recv:
  assumes "kernel_ok S E M Q k" "n \<in> Q" "may_wait t k"
  shows "rt_mq_recv n sz time k = Some (r, k') \<Longrightarrow> kernel_ok S E M Q k'"
    and "rt_mq_recv_resume n sz time d t k = Some (r, k') \<Longrightarrow> kernel_ok S E M Q k'"
  using assms kernel_ok_mq_recv_loop [OF assms]
  by (auto simp: rt_mq_recv_def rt_mq_recv_resume_def may_wait_self split: if_splits)

text \<open>The scheduler, sleeping and the time-out of a waiting thread.\<close>

lemma kernel_ok_yield:
  assumes ok: "kernel_ok S E M Q k"
  shows "kernel_ok S E M Q (snd (rt_thread_yield k))"
proof -
  obtain c where c: "rt_current_thread k = Some c" using kernel_okD(2) [OF ok] by blast
  note wf = kernel_okD(1) [OF ok]
  have "frame_ok {} k (rt_schedule k)"
    using rt_schedule_threads [OF wf c] rt_schedule_wait [OF wf c] by (auto simp: frame_ok_def frame_simps)
  from kernel_okI [OF ok this] show ?thesis
    using rt_schedule_wf [OF wf c] rt_schedule_current [OF wf c] by (auto simp: rt_thread_yield_def frame_simps)
qed

lemma sleep_frame:
  assumes cur: "rt_current_thread k = Some t" and st: "stat k t = RT_THREAD_READY"
  shows "events (rt_thread_sleep tick k) = events k" "mailboxes (rt_thread_sleep tick k) = mailboxes k"
    "mqs (rt_thread_sleep tick k) = mqs k" "(\<And>y. x \<noteq> OTimer y) \<Longrightarrow> objects (rt_thread_sleep tick k) x = objects k x"
proof -
  define k1 where "k1 = snd (rt_thread_suspend t k)"
  have k: "rt_thread_sleep tick k = rt_schedule (rt_timer_start (TThread t) (upd_timer (TThread t) (\<lambda>tm. tm\<lparr>tm_init_tick := tick\<rparr>) k1))"
    using cur by (simp add: rt_thread_sleep_def rt_timer_control_def k1_def split_def Let_def)
  have k1: "events k1 = events k" "mailboxes k1 = mailboxes k" "mqs k1 = mqs k" "(\<And>y. x \<noteq> OTimer y) \<Longrightarrow> objects k1 x = objects k x"
    by (simp_all add: k1_def rt_thread_suspend_def rt_schedule_remove_thread_def rt_timer_stop_def clear_flag_def rt_timer_remove_def
        state_defs Let_def)
  show "events (rt_thread_sleep tick k) = events k" "mailboxes (rt_thread_sleep tick k) = mailboxes k"
    "mqs (rt_thread_sleep tick k) = mqs k" using k1 by (simp_all add: k frame_simps)
  show "objects (rt_thread_sleep tick k) x = objects k x" if "\<And>y. x \<noteq> OTimer y"
    using k1(4) [OF that] that
    by (simp add: k frame_simps) (simp add: rt_timer_start_def Let_def set_flag_def clear_flag_def rt_timer_remove_def state_defs)
qed

lemma kernel_ok_sleep:
  assumes ok: "kernel_ok S E M Q k" and mw: "may_wait t k"
  shows "kernel_ok S E M Q (rt_thread_sleep tick k)"
proof -
  note wf = kernel_okD(1) [OF ok] and c = may_waitD [OF mw]
  note f = sleep_frame [OF c] and th = sleep_threads(1) [OF wf c] and ls = sleep_lists [OF wf c]
  have "frame_ok {} k (rt_thread_sleep tick k)"
    by (rule frame_okI) (use ls(1) th f(4) in auto)
  from kernel_okI [OF ok this] show ?thesis
    using rt_thread_sleep_wf [OF wf c] ls(4) [OF wait_list_LSem] ls(2) [OF wait_list_LSem] f by auto
qed

lemma timeout_frame:
  "sems (rt_thread_timeout t k) = sems k" "events (rt_thread_timeout t k) = events k"
  "mailboxes (rt_thread_timeout t k) = mailboxes k" "mqs (rt_thread_timeout t k) = mqs k"
  by (simp_all add: rt_thread_timeout_def Let_def frame_simps) (simp_all add: rt_schedule_insert_thread_def state_defs Let_def)

lemma kernel_ok_timeout:
  assumes ok: "kernel_ok S E M Q k" and st: "stat k t = RT_THREAD_SUSPEND"
  shows "kernel_ok S E M Q (rt_thread_timeout t k)"
proof -
  obtain c where c: "rt_current_thread k = Some c" using kernel_okD(2) [OF ok] by blast
  let ?k = "rt_thread_timeout t k"
  note wf = kernel_okD(1) [OF ok]
  note th = rt_thread_timeout_threads [OF wf st c] and ls = rt_thread_timeout_lists [OF wf st c]
  have "sem_wf n ?k" if "n \<in> S" for n
    using kernel_okD(3) [OF ok that] ls [OF wait_list_LSem] by (simp add: sem_wf_def timeout_frame)
  moreover have "event_wf n ?k" if "n \<in> E" for n
    using kernel_okD(4) [OF ok that] ls [OF wait_list_LEvent] th(1) by (auto simp: event_wf_def timeout_frame)
  moreover have "mb_wf n ?k" if "n \<in> M" for n
    using kernel_okD(5) [OF ok that] rt_thread_timeout_wf [OF wf st c] by (simp add: mb_wf_def timeout_frame)
  moreover have "mq_wf n ?k" if "n \<in> Q" for n
    using kernel_okD(6) [OF ok that] rt_thread_timeout_wf [OF wf st c] by (simp add: mq_wf_def timeout_frame)
  ultimately show ?thesis using rt_thread_timeout_wf [OF wf st c] th(2) by (simp add: kernel_ok_def)
qed

lemmas kernel_ok_services = kernel_ok_sem_take kernel_ok_sem_release kernel_ok_event_send kernel_ok_event_recv
  kernel_ok_mb_send kernel_ok_mb_recv kernel_ok_mq_send kernel_ok_mq_recv kernel_ok_yield kernel_ok_sleep kernel_ok_timeout

lemma kernel_step_ok: "kernel_step S E M Q k k' \<Longrightarrow> kernel_ok S E M Q k \<Longrightarrow> kernel_ok S E M Q k'"
  by (induction rule: kernel_step.induct) (blast intro: kernel_ok_services)+

lemma kernel_steps_ok: "(kernel_step S E M Q)\<^sup>*\<^sup>* k k' \<Longrightarrow> kernel_ok S E M Q k \<Longrightarrow> kernel_ok S E M Q k'"
  by (induction rule: rtranclp_induct) (auto intro: kernel_step_ok)

end
