(* ===== verification/Completion.thy ===== *)
theory Completion
  imports Ipc_Mailbox
begin

text \<open>
  Completions (\<open>components/drivers/src/completion.c\<close>): a flag and the thread that waits for it.
\<close>

section \<open>Operations\<close>

definition set_completion :: "nat \<Rightarrow> bool \<Rightarrow> kernel \<Rightarrow> kernel" where
  "set_completion n b k = k\<lparr>completions := (completions k)(n := b)\<rparr>"

definition rt_completion_init :: "nat \<Rightarrow> kernel \<Rightarrow> kernel" where
  "rt_completion_init n k = (set_completion n False k)\<lparr>tlists := (tlists k)(LCompletion n := [])\<rparr>"

text \<open>After \<open>rt_schedule()\<close>: the result, and the flag is cleared.\<close>

definition rt_completion_wait_resume :: "nat \<Rightarrow> tid \<Rightarrow> kernel \<Rightarrow> err outcome \<times> kernel" where
  "rt_completion_wait_resume n t k = (Ret (th_error (threads k t)), set_completion n False k)"

definition rt_completion_wait :: "nat \<Rightarrow> int \<Rightarrow> kernel \<Rightarrow> err outcome \<times> kernel" where
  "rt_completion_wait n timeout k =
     (let t = self k
      in if \<not> completions k n then
           if timeout = 0 then (Ret (- RT_ETIMEOUT), k)
           else
             let k = upd_thread t (\<lambda>th. th\<lparr>th_error := RT_EOK\<rparr>) k;
                 k = snd (rt_thread_suspend t k);
                 k = tlist_insert_tail (LCompletion n) t k;
                 k = rt_schedule (start_timeout t timeout k)
             in if rt_current_thread k \<noteq> Some t then (Blocked, k) else rt_completion_wait_resume n t k
         else (Ret RT_EOK, set_completion n False k))"

definition rt_completion_done :: "nat \<Rightarrow> kernel \<Rightarrow> kernel" where
  "rt_completion_done n k =
     (if completions k n then k
      else
        let k = set_completion n True k
        in case tlists k (LCompletion n) of
             [] \<Rightarrow> k
           | t # _ \<Rightarrow> rt_schedule (snd (rt_thread_resume t k)))"


section \<open>Waiting and completing\<close>

lemma completion_frame [simp]:
  "threads (set_completion n b k) = threads k" "tlists (set_completion n b k) = tlists k"
  "rt_current_thread (set_completion n b k) = rt_current_thread k" "objects (set_completion n b k) = objects k"
  "rt_scheduler_lock_nest (set_completion n b k) = rt_scheduler_lock_nest k" "events (set_completion n b k) = events k"
  "rt_thread_ready_priority_group (set_completion n b k) = rt_thread_ready_priority_group k"
  "completions (set_completion n b k) = (completions k)(n := b)"
  by (simp_all add: set_completion_def)

lemma sched_wf_completion [simp]: "sched_wf (set_completion n b k) = sched_wf k"
  by (rule sched_wf_cong) simp_all

lemma wait_list_completion [simp]: "is_wait_list (LCompletion n)" by simp

lemma completions_wake_first [simp]: "completions (wake_first l k) = completions k"
  by (simp add: wake_first_def frame_simps)

lemma completions_wait_on [simp]: "completions (wait_on l f time t k) = completions k"
  by (simp add: wait_on_def frame_simps)

lemma lock_nest_wait_on [simp]: "rt_scheduler_lock_nest (wait_on l f time t k) = rt_scheduler_lock_nest k"
  by (simp add: wait_on_def frame_simps rt_ipc_list_suspend_def rt_thread_suspend_eq rt_schedule_remove_thread_def state_defs split_def Let_def)

lemma rt_completion_done_eq:
  "rt_completion_done n k = (if completions k n then k else wake_first (LCompletion n) (set_completion n True k))"
  by (auto simp: rt_completion_done_def wake_first_def tlist_isempty_def rt_ipc_list_resume_def Let_def split: list.splits)

lemma rt_completion_wait_eq:
  assumes "sched_wf k" "may_wait t k"
  shows "rt_completion_wait n time k =
    (if completions k n then (Ret RT_EOK, set_completion n False k)
     else if time = 0 then (Ret (- RT_ETIMEOUT), k)
     else (Blocked, wait_fresh (LCompletion n) 0 time t k))"
proof -
  have w: "wait_fresh (LCompletion n) 0 time t k =
      rt_schedule (start_timeout t time (tlist_insert_tail (LCompletion n) t
        (snd (rt_thread_suspend t (upd_thread t (\<lambda>th. th\<lparr>th_error := RT_EOK\<rparr>) k)))))"
    by (simp add: wait_on_def rt_ipc_list_suspend_def Let_def split_def)
  have "rt_current_thread (wait_fresh (LCompletion n) 0 time t k) \<noteq> Some t"
    using wait_fresh_spec(3) [OF assms wait_list_completion, of 0] by simp
  moreover have "self k = t" using assms(2) by (simp add: may_wait_def)
  ultimately show ?thesis using w by (simp add: rt_completion_wait_def Let_def)
qed


lemma completion_wakes:
  fixes time :: int
  assumes "sched_wf k" "may_wait t k" "tlists k (LCompletion n) = []" "\<not> completions k n"
  defines "k1 \<equiv> wait_fresh (LCompletion n) 0 time t k"
  shows "tlists k1 (LCompletion n) = [t]" "stat k1 t = RT_THREAD_SUSPEND"
    "tlists (rt_completion_done n k1) (LCompletion n) = []" "stat (rt_completion_done n k1) t = RT_THREAD_READY"
    "prio k (self (rt_completion_done n k1)) \<le> prio k t"
    "rt_completion_wait_resume n t (rt_completion_done n k1) = (Ret RT_EOK, set_completion n False (rt_completion_done n k1))"
    "tlists (rt_thread_timeout t k1) (LCompletion n) = []" "stat (rt_thread_timeout t k1) t = RT_THREAD_READY"
    "rt_completion_wait_resume n t (rt_thread_timeout t k1) = (Ret (- RT_ETIMEOUT), set_completion n False (rt_thread_timeout t k1))"
proof -
  let ?l = "LCompletion n"
  note f = wait_fresh_spec [OF assms(1,2) wait_list_completion [of n], of 0, simplified, where time = time, folded k1_def]
  obtain c where c: "rt_current_thread k1 = Some c" using f(2) by blast
  show q: "tlists k1 ?l = [t]" using f(5) assms(3) by (simp add: enqueue_def)
  show st: "stat k1 t = RT_THREAD_SUSPEND" using f(4) by simp
  have nc1: "\<not> completions k1 n" using assms(4) by (simp add: k1_def)
  have d: "rt_completion_done n k1 = wake_first ?l (set_completion n True k1)" using nc1 by (simp add: rt_completion_done_eq)
  have w1: "sched_wf (set_completion n True k1)" "rt_current_thread (set_completion n True k1) = Some c" using f(1) c by simp_all
  note g = wake_first_spec [OF w1 wait_list_completion [of n]]
  have th: "threads (rt_thread_timeout t k1) = (threads k1)(t := woken (threads k1 t))"
    by (rule rt_thread_timeout_threads [OF f(1) st c])
  show "tlists (rt_thread_timeout t k1) ?l = []"
    using rt_thread_timeout_lists [OF f(1) st c wait_list_completion [of n]] q by simp
  have lk: "rt_scheduler_lock_nest k1 = 0" using assms(2) by (simp add: k1_def may_wait_def)
  have pr: "prio k1 u = prio k u" for u using f(4) by simp
  show "tlists (rt_completion_done n k1) ?l = []" "stat (rt_completion_done n k1) t = RT_THREAD_READY"
    "prio k (self (rt_completion_done n k1)) \<le> prio k t"
    "rt_completion_wait_resume n t (rt_completion_done n k1) = (Ret RT_EOK, set_completion n False (rt_completion_done n k1))"
    "stat (rt_thread_timeout t k1) t = RT_THREAD_READY"
    "rt_completion_wait_resume n t (rt_thread_timeout t k1) = (Ret (- RT_ETIMEOUT), set_completion n False (rt_thread_timeout t k1))"
    unfolding d using q st lk g(3,4) g(6) [of t] th f(4) pr by (simp_all add: rt_completion_wait_resume_def woken_def)
qed

text \<open>
  Waiting for a completion and completing it meet in either order. A completion that is done
  before anyone waits makes the next wait return at once. A thread that waits first is suspended
  alone on the completion; \<open>rt_completion_done\<close> makes it ready, something at least as urgent runs
  next, and its call returns \<open>RT_EOK\<close>; if its time runs out instead, the call returns
  \<open>-RT_ETIMEOUT\<close>. However it ends, the flag is cleared for the next use and nobody is left in the list.
\<close>

theorem completion_handshake:
  assumes "sched_wf k" "may_wait t k" "tlists k (LCompletion n) = []" "time \<noteq> 0"
  shows "rt_completion_wait n time (rt_completion_done n k) = (Ret RT_EOK, set_completion n False k) \<and>
    (\<not> completions k n \<longrightarrow>
      (let k1 = snd (rt_completion_wait n time k); k2 = rt_completion_done n k1; k3 = rt_thread_timeout t k1
       in fst (rt_completion_wait n time k) = Blocked \<and> tlists k1 (LCompletion n) = [t] \<and> stat k1 t = RT_THREAD_SUSPEND \<and>
          tlists k2 (LCompletion n) = [] \<and> stat k2 t = RT_THREAD_READY \<and>
          prio k (self k2) \<le> prio k t \<and>
          rt_completion_wait_resume n t k2 = (Ret RT_EOK, set_completion n False k2) \<and>
          tlists k3 (LCompletion n) = [] \<and> stat k3 t = RT_THREAD_READY \<and>
          rt_completion_wait_resume n t k3 = (Ret (- RT_ETIMEOUT), set_completion n False k3)))"
proof -
  have dn: "rt_completion_done n k = set_completion n True k"
  proof (cases "completions k n")
    case True
    then have "(completions k)(n := True) = completions k" by (simp add: fun_upd_idem)
    then show ?thesis using True by (simp add: rt_completion_done_def set_completion_def)
  qed (use assms(3) in \<open>simp add: rt_completion_done_def Let_def\<close>)
  have "rt_completion_wait n time (set_completion n True k) = (Ret RT_EOK, set_completion n False k)"
    by (simp add: rt_completion_wait_def set_completion_def)
  moreover have ?thesis if nc: "\<not> completions k n"
  proof -
    have w: "rt_completion_wait n time k = (Blocked, wait_fresh (LCompletion n) 0 time t k)"
      using rt_completion_wait_eq [OF assms(1,2)] nc assms(4) by simp
    show ?thesis unfolding dn calculation w fst_conv snd_conv Let_def using completion_wakes [OF assms(1-3) nc, of time] by simp
  qed
  ultimately show ?thesis by (cases "completions k n") (simp_all add: dn)
qed

theorem completion_handshake_witness:
  "let k = demo_running 2 [3] (LSem 0) []; k1 = snd (rt_completion_wait 0 10 k)
   in fst (rt_completion_wait 0 10 k) = Blocked \<and> tlists k1 (LCompletion 0) = [2] \<and>
      rt_completion_wait_resume 0 2 (rt_completion_done 0 k1) = (Ret RT_EOK, set_completion 0 False (rt_completion_done 0 k1))"
proof -
  let ?k = "demo_running 2 [3] (LSem 0) []"
  have "sched_wf ?k" by (rule demo_running_wf) simp_all
  moreover have "may_wait 2 ?k" by (auto simp: may_wait_def demo_running_def demo_kernel_def demo_thread_def intro!: exI [of _ 3])
  moreover have "tlists ?k (LCompletion 0) = []" "\<not> completions ?k 0" by (simp_all add: demo_running_def demo_kernel_def)
  ultimately show ?thesis using completion_handshake [of ?k 2 0 10] by (simp add: Let_def)
qed

end
