(* ===== verification/Data_Queue.thy ===== *)
theory Data_Queue
  imports Completion
begin

text \<open>
  Data queues (\<open>components/drivers/src/dataqueue.c\<close>): a ring of pointers between threads and drivers. The two
  indices only count up; their difference is the number of items. The event function of a queue is
  the argument \<open>ev\<close>, the identity for the null pointer.
\<close>

section \<open>Operations\<close>

definition upd_dq :: "nat \<Rightarrow> (rt_data_queue \<Rightarrow> rt_data_queue) \<Rightarrow> kernel \<Rightarrow> kernel" where
  "upd_dq n g k = k\<lparr>dataqueues := (dataqueues k)(n := g (dataqueues k n))\<rparr>"

abbreviation (input) RT_DATAQUEUE_EVENT_POP :: u32 where "RT_DATAQUEUE_EVENT_POP \<equiv> 1"
abbreviation (input) RT_DATAQUEUE_EVENT_PUSH :: u32 where "RT_DATAQUEUE_EVENT_PUSH \<equiv> 2"
abbreviation (input) RT_DATAQUEUE_EVENT_LWM :: u32 where "RT_DATAQUEUE_EVENT_LWM \<equiv> 3"

text \<open>\<open>mem\<close> is the memory \<open>rt_malloc\<close> returns, with what it contains.\<close>

definition rt_data_queue_init :: "nat \<Rightarrow> u16 \<Rightarrow> u16 \<Rightarrow> (nat \<times> u32) list option \<Rightarrow> kernel \<Rightarrow> err \<times> kernel" where
  "rt_data_queue_init n sz lwm mem k =
     (let k = upd_dq n (\<lambda>q. q\<lparr>dq_size := sz, dq_lwm := lwm, dq_get_index := 0, dq_put_index := 0\<rparr>) k;
          k = k\<lparr>tlists := (tlists k)(LDqPush n := [], LDqPop n := [])\<rparr>
      in case mem of None \<Rightarrow> (- RT_ENOMEM, k) | Some m \<Rightarrow> (RT_EOK, upd_dq n (\<lambda>q. q\<lparr>dq_queue := m\<rparr>) k))"

text \<open>\<open>put_index - get_index\<close>: the operands are promoted to \<open>int\<close>.\<close>

definition dq_count :: "rt_data_queue \<Rightarrow> int" where
  "dq_count q = uint (dq_put_index q) - uint (dq_get_index q)"

definition dq_put :: "nat \<times> u32 \<Rightarrow> rt_data_queue \<Rightarrow> rt_data_queue" where
  "dq_put x q = q\<lparr>dq_queue := (dq_queue q)[unat (dq_put_index q) mod unat (dq_size q) := x], dq_put_index := dq_put_index q + 1\<rparr>"

definition dq_front :: "rt_data_queue \<Rightarrow> nat \<times> u32" where
  "dq_front q = dq_queue q ! (unat (dq_get_index q) mod unat (dq_size q))"

definition dq_push_done :: "(u32 \<Rightarrow> kernel \<Rightarrow> kernel) \<Rightarrow> nat \<Rightarrow> nat \<times> u32 \<Rightarrow> kernel \<Rightarrow> err outcome \<times> kernel" where
  "dq_push_done ev n x k =
     (let k = upd_dq n (dq_put x) k
      in (Ret RT_EOK,
          if \<not> tlist_isempty (LDqPop n) k then rt_schedule (snd (rt_thread_resume (hd (tlists k (LDqPop n))) k))
          else ev RT_DATAQUEUE_EVENT_PUSH k))"

partial_function (option) dq_push_loop ::
  "(u32 \<Rightarrow> kernel \<Rightarrow> kernel) \<Rightarrow> nat \<Rightarrow> nat \<times> u32 \<Rightarrow> int \<Rightarrow> tid \<Rightarrow> kernel \<Rightarrow> (err outcome \<times> kernel) option" where
  "dq_push_loop ev n x timeout t k =
     (if dq_count (dataqueues k n) = uint (dq_size (dataqueues k n)) then
        if timeout = 0 then Some (Ret (- RT_ETIMEOUT), k)
        else
          let k = upd_thread t (\<lambda>th. th\<lparr>th_error := RT_EOK\<rparr>) k;
              k = tlist_insert_tail (LDqPush n) t (snd (rt_thread_suspend t k));
              k = rt_schedule (start_timeout t timeout k)
          in if rt_current_thread k \<noteq> Some t then Some (Blocked, k)
             else if th_error (threads k t) \<noteq> RT_EOK then Some (Ret (th_error (threads k t)), k)
             else dq_push_loop ev n x timeout t k
      else Some (dq_push_done ev n x k))"

definition rt_data_queue_push ::
  "(u32 \<Rightarrow> kernel \<Rightarrow> kernel) \<Rightarrow> nat \<Rightarrow> nat \<times> u32 \<Rightarrow> int \<Rightarrow> kernel \<Rightarrow> (err outcome \<times> kernel) option" where
  "rt_data_queue_push ev n x timeout k = dq_push_loop ev n x timeout (self k) k"

definition rt_data_queue_push_resume ::
  "(u32 \<Rightarrow> kernel \<Rightarrow> kernel) \<Rightarrow> nat \<Rightarrow> nat \<times> u32 \<Rightarrow> int \<Rightarrow> tid \<Rightarrow> kernel \<Rightarrow> (err outcome \<times> kernel) option" where
  "rt_data_queue_push_resume ev n x timeout t k =
     (if th_error (threads k t) \<noteq> RT_EOK then Some (Ret (th_error (threads k t)), k) else dq_push_loop ev n x timeout t k)"

definition dq_pop_done :: "(u32 \<Rightarrow> kernel \<Rightarrow> kernel) \<Rightarrow> nat \<Rightarrow> kernel \<Rightarrow> (err \<times> (nat \<times> u32) option) outcome \<times> kernel" where
  "dq_pop_done ev n k =
     (let x = dq_front (dataqueues k n);
          k = upd_dq n (\<lambda>q. q\<lparr>dq_get_index := dq_get_index q + 1\<rparr>) k
      in (Ret (RT_EOK, Some x),
          if dq_count (dataqueues k n) \<le> uint (dq_lwm (dataqueues k n)) then
            ev RT_DATAQUEUE_EVENT_LWM
              (if \<not> tlist_isempty (LDqPush n) k then rt_schedule (snd (rt_thread_resume (hd (tlists k (LDqPush n))) k)) else k)
          else ev RT_DATAQUEUE_EVENT_POP k))"

partial_function (option) dq_pop_loop ::
  "(u32 \<Rightarrow> kernel \<Rightarrow> kernel) \<Rightarrow> nat \<Rightarrow> int \<Rightarrow> tid \<Rightarrow> kernel \<Rightarrow> ((err \<times> (nat \<times> u32) option) outcome \<times> kernel) option" where
  "dq_pop_loop ev n timeout t k =
     (if dq_get_index (dataqueues k n) = dq_put_index (dataqueues k n) then
        if timeout = 0 then Some (Ret (- RT_ETIMEOUT, None), k)
        else
          let k = upd_thread t (\<lambda>th. th\<lparr>th_error := RT_EOK\<rparr>) k;
              k = tlist_insert_tail (LDqPop n) t (snd (rt_thread_suspend t k));
              k = rt_schedule (start_timeout t timeout k)
          in if rt_current_thread k \<noteq> Some t then Some (Blocked, k)
             else if th_error (threads k t) \<noteq> RT_EOK then Some (Ret (th_error (threads k t), None), k)
             else dq_pop_loop ev n timeout t k
      else Some (dq_pop_done ev n k))"

definition rt_data_queue_pop ::
  "(u32 \<Rightarrow> kernel \<Rightarrow> kernel) \<Rightarrow> nat \<Rightarrow> int \<Rightarrow> kernel \<Rightarrow> ((err \<times> (nat \<times> u32) option) outcome \<times> kernel) option" where
  "rt_data_queue_pop ev n timeout k = dq_pop_loop ev n timeout (self k) k"

definition rt_data_queue_pop_resume ::
  "(u32 \<Rightarrow> kernel \<Rightarrow> kernel) \<Rightarrow> nat \<Rightarrow> int \<Rightarrow> tid \<Rightarrow> kernel \<Rightarrow> ((err \<times> (nat \<times> u32) option) outcome \<times> kernel) option" where
  "rt_data_queue_pop_resume ev n timeout t k =
     (if th_error (threads k t) \<noteq> RT_EOK then Some (Ret (th_error (threads k t), None), k) else dq_pop_loop ev n timeout t k)"

definition rt_data_queue_peak :: "nat \<Rightarrow> kernel \<Rightarrow> err \<times> (nat \<times> u32) option" where
  "rt_data_queue_peak n k =
     (if dq_get_index (dataqueues k n) = dq_put_index (dataqueues k n) then (- RT_EEMPTY, None)
      else (RT_EOK, Some (dq_front (dataqueues k n))))"

definition rt_data_queue_reset :: "nat \<Rightarrow> kernel \<Rightarrow> kernel option" where
  "rt_data_queue_reset n k =
     map_option (\<lambda>k. rt_schedule (rt_exit_critical k))
       (Option.bind (rt_ipc_list_resume_all (LDqPop n) (rt_enter_critical k)) (rt_ipc_list_resume_all (LDqPush n)))"


section \<open>The ring of items\<close>

definition dq_ok :: "rt_data_queue \<Rightarrow> bool" where
  "dq_ok q \<longleftrightarrow> 0 < unat (dq_size q) \<and> length (dq_queue q) = unat (dq_size q) \<and> dq_get_index q \<le> dq_put_index q \<and>
     unat (dq_put_index q) - unat (dq_get_index q) \<le> unat (dq_size q)"

definition dq_contents :: "rt_data_queue \<Rightarrow> (nat \<times> u32) list" where
  "dq_contents q = cyc (dq_queue q) (unat (dq_get_index q)) (unat (dq_put_index q) - unat (dq_get_index q))"

lemma length_dq_contents [simp]: "length (dq_contents q) = unat (dq_put_index q) - unat (dq_get_index q)"
  by (simp add: dq_contents_def)

lemma dq_count_eq: "dq_ok q \<Longrightarrow> dq_count q = int (length (dq_contents q))"
  by (simp add: dq_ok_def dq_count_def word_le_nat_alt of_nat_diff)

lemma dq_full: "dq_ok q \<Longrightarrow> dq_count q = uint (dq_size q) \<longleftrightarrow> length (dq_contents q) = unat (dq_size q)"
  unfolding dq_count_eq by (metis of_nat_eq_iff uint_nat)

lemma dq_empty: "dq_ok q \<Longrightarrow> dq_get_index q = dq_put_index q \<longleftrightarrow> dq_contents q = []"
  by (auto simp: dq_ok_def dq_contents_def cyc_def word_le_nat_alt word_unat_eq_iff)

lemma dq_put_spec:
  assumes "dq_ok q" "length (dq_contents q) \<noteq> unat (dq_size q)" "unat (dq_put_index q) < 65535"
  shows "dq_ok (dq_put x q)" "dq_contents (dq_put x q) = dq_contents q @ [x]"
    "unat (dq_put_index (dq_put x q)) = Suc (unat (dq_put_index q))"
proof -
  let ?g = "unat (dq_get_index q)" and ?p = "unat (dq_put_index q)" and ?s = "unat (dq_size q)"
  have d: "length (dq_queue q) = ?s" "?g \<le> ?p" "?p - ?g < ?s"
    using assms(1,2) by (simp_all add: dq_ok_def word_le_nat_alt)
  show p: "unat (dq_put_index (dq_put x q)) = Suc ?p"
    using unat_inc [of "dq_put_index q" 65535] assms(3) by (simp add: dq_put_def word_less_nat_alt)
  have i: "(?g + (?p - ?g)) mod ?s = ?p mod ?s" "Suc ?p - ?g = Suc (?p - ?g)" using d(2) by simp_all
  show "dq_ok (dq_put x q)" using p d assms(1) by (simp add: dq_ok_def word_le_nat_alt) (simp add: dq_put_def)
  show "dq_contents (dq_put x q) = dq_contents q @ [x]"
    using cyc_put [of "?p - ?g" "dq_queue q" ?g x] d p i by (simp add: dq_contents_def) (simp add: dq_put_def)
qed

lemma dq_get_spec:
  assumes "dq_ok q" "dq_contents q \<noteq> []"
  defines "q' \<equiv> q\<lparr>dq_get_index := dq_get_index q + 1\<rparr>"
  shows "dq_ok q'" "dq_contents q = dq_front q # dq_contents q'"
proof -
  let ?g = "unat (dq_get_index q)" and ?p = "unat (dq_put_index q)" and ?s = "unat (dq_size q)"
  have lt: "dq_get_index q < dq_put_index q" using assms(1,2) dq_empty [OF assms(1)] by (auto simp: dq_ok_def)
  have g: "unat (dq_get_index q + 1) = Suc ?g" by (rule unat_inc [OF lt])
  have "?p - ?g = Suc (?p - Suc ?g)" using lt by (simp add: word_less_nat_alt)
  then show "dq_contents q = dq_front q # dq_contents q'"
    using assms(1) g by (simp add: dq_contents_def q'_def dq_front_def cyc_get dq_ok_def)
  show "dq_ok q'" using assms(1) g lt by (auto simp: dq_ok_def q'_def word_le_nat_alt word_less_nat_alt)
qed

section \<open>Pushing and popping\<close>

definition dq_wf :: "nat \<Rightarrow> kernel \<Rightarrow> bool" where
  "dq_wf n k \<longleftrightarrow> sched_wf k \<and> dq_ok (dataqueues k n)"

lemma upd_dq_frame [simp]:
  "threads (upd_dq n g k) = threads k" "tlists (upd_dq n g k) = tlists k"
  "rt_current_thread (upd_dq n g k) = rt_current_thread k" "objects (upd_dq n g k) = objects k"
  "dataqueues (upd_dq n g k) = (dataqueues k)(n := g (dataqueues k n))"
  "rt_scheduler_lock_nest (upd_dq n g k) = rt_scheduler_lock_nest k"
  "rt_thread_ready_priority_group (upd_dq n g k) = rt_thread_ready_priority_group k"
  by (simp_all add: upd_dq_def)

lemma sched_wf_upd_dq [simp]: "sched_wf (upd_dq n g k) = sched_wf k"
  by (rule sched_wf_cong) simp_all

lemma dataqueues_frame [simp]: "dataqueues (wake_first l k) = dataqueues k" "dataqueues (wait_on l f time t k) = dataqueues k"
  by (simp_all add: wake_first_def wait_on_def frame_simps)

lemma wait_list_dq [simp]: "is_wait_list (LDqPush n)" "is_wait_list (LDqPop n)" by simp_all

abbreviation no_event :: "u32 \<Rightarrow> kernel \<Rightarrow> kernel" where "no_event \<equiv> \<lambda>_ k. k"

lemma dq_push_done_eq: "dq_push_done no_event n x k = (Ret RT_EOK, wake_first (LDqPop n) (upd_dq n (dq_put x) k))"
  by (simp add: dq_push_done_def wake_first_def rt_ipc_list_resume_def Let_def)

lemma dq_pop_done_eq:
  "dq_pop_done no_event n k =
     (Ret (RT_EOK, Some (dq_front (dataqueues k n))),
      let k = upd_dq n (\<lambda>q. q\<lparr>dq_get_index := dq_get_index q + 1\<rparr>) k
      in if dq_count (dataqueues k n) \<le> uint (dq_lwm (dataqueues k n)) then wake_first (LDqPush n) k else k)"
  by (simp add: dq_pop_done_def wake_first_def rt_ipc_list_resume_def Let_def)

lemma wait_fresh_fifo:
  "wait_fresh l 0 time t k =
     rt_schedule (start_timeout t time (tlist_insert_tail l t (snd (rt_thread_suspend t (upd_thread t (\<lambda>th. th\<lparr>th_error := RT_EOK\<rparr>) k)))))"
  by (simp add: wait_on_def rt_ipc_list_suspend_def Let_def split_def)

lemma dq_push_loop_eq:
  assumes "dq_wf n k" "may_wait t k"
  shows "dq_push_loop ev n x timeout t k =
    Some (if length (dq_contents (dataqueues k n)) \<noteq> unat (dq_size (dataqueues k n)) then dq_push_done ev n x k
          else if timeout = 0 then (Ret (- RT_ETIMEOUT), k) else (Blocked, wait_fresh (LDqPush n) 0 timeout t k))"
proof -
  have wf: "sched_wf k" "dq_ok (dataqueues k n)" using assms(1) by (simp_all add: dq_wf_def)
  have "rt_current_thread (wait_fresh (LDqPush n) 0 timeout t k) \<noteq> Some t"
    using wait_fresh_spec(3) [OF wf(1) assms(2) wait_list_dq(1)] by simp
  then show ?thesis using dq_full [OF wf(2)] by (subst dq_push_loop.simps) (simp add: Let_def wait_fresh_fifo)
qed

lemma dq_pop_loop_eq:
  assumes "dq_wf n k" "may_wait t k"
  shows "dq_pop_loop ev n timeout t k =
    Some (if dq_contents (dataqueues k n) \<noteq> [] then dq_pop_done ev n k
          else if timeout = 0 then (Ret (- RT_ETIMEOUT, None), k) else (Blocked, wait_fresh (LDqPop n) 0 timeout t k))"
proof -
  have wf: "sched_wf k" "dq_ok (dataqueues k n)" using assms(1) by (simp_all add: dq_wf_def)
  have "rt_current_thread (wait_fresh (LDqPop n) 0 timeout t k) \<noteq> Some t"
    using wait_fresh_spec(3) [OF wf(1) assms(2) wait_list_dq(2)] by simp
  then show ?thesis using dq_empty [OF wf(2)] by (subst dq_pop_loop.simps) (simp add: Let_def wait_fresh_fifo)
qed

lemma dq_wf_wait:
  assumes "dq_wf n k" "may_wait t k" "is_wait_list l"
  shows "dq_wf n (wait_fresh l 0 time t k)"
  using assms wait_fresh_spec(1) [OF _ assms(2,3), of 0] by (simp add: dq_wf_def)

lemma dq_wf_wake:
  assumes "dq_wf n k" "rt_current_thread k = Some c" "is_wait_list l"
  shows "dq_wf n (wake_first l k)"
  using assms wake_first_spec(1) [OF _ assms(2,3)] by (simp add: dq_wf_def)


section \<open>Histories of a data queue\<close>

fun dq_accepted :: "nat \<times> u32 \<Rightarrow> err outcome \<Rightarrow> (nat \<times> u32) list" where
  "dq_accepted x (Ret e) = (if e = RT_EOK then [x] else [])"
| "dq_accepted x Blocked = []"

fun dq_delivered :: "(err \<times> (nat \<times> u32) option) outcome \<Rightarrow> (nat \<times> u32) list" where
  "dq_delivered (Ret (e, Some x)) = [x]"
| "dq_delivered (Ret (e, None)) = []"
| "dq_delivered Blocked = []"

text \<open>Steps, seen from queue \<open>n\<close>, whose event function is null.\<close>

inductive dq_step :: "nat \<Rightarrow> kernel \<Rightarrow> (nat \<times> u32) list \<Rightarrow> (nat \<times> u32) list \<Rightarrow> kernel \<Rightarrow> bool" for n where
  push: "may_wait t k \<Longrightarrow> rt_data_queue_push no_event n x timeout k = Some (r, k') \<Longrightarrow> dq_step n k (dq_accepted x r) [] k'"
| push_resume: "may_wait t k \<Longrightarrow> rt_data_queue_push_resume no_event n x timeout t k = Some (r, k') \<Longrightarrow>
    dq_step n k (dq_accepted x r) [] k'"
| pop: "may_wait t k \<Longrightarrow> rt_data_queue_pop no_event n timeout k = Some (r, k') \<Longrightarrow> dq_step n k [] (dq_delivered r) k'"
| pop_resume: "may_wait t k \<Longrightarrow> rt_data_queue_pop_resume no_event n timeout t k = Some (r, k') \<Longrightarrow>
    dq_step n k [] (dq_delivered r) k'"
| timeout: "rt_current_thread k = Some c \<Longrightarrow> stat k t = RT_THREAD_SUSPEND \<Longrightarrow> dq_step n k [] [] (rt_thread_timeout t k)"
| yield: "rt_current_thread k = Some c \<Longrightarrow> dq_step n k [] [] (snd (rt_thread_yield k))"

inductive dq_run :: "nat \<Rightarrow> kernel \<Rightarrow> (nat \<times> u32) list \<Rightarrow> (nat \<times> u32) list \<Rightarrow> kernel \<Rightarrow> bool" for n where
  nil: "dq_run n k [] [] k"
| step: "dq_step n k i j k1 \<Longrightarrow> dq_run n k1 ins outs k2 \<Longrightarrow> dq_run n k (i @ ins) (j @ outs) k2"

abbreviation items :: "nat \<Rightarrow> kernel \<Rightarrow> (nat \<times> u32) list" where
  "items n k \<equiv> dq_contents (dataqueues k n)"

abbreviation pushes :: "nat \<Rightarrow> kernel \<Rightarrow> nat" where
  "pushes n k \<equiv> unat (dq_put_index (dataqueues k n))"

text \<open>One step keeps the queue, its order and the count of pushes.\<close>

definition dq_moves :: "nat \<Rightarrow> kernel \<Rightarrow> (nat \<times> u32) list \<Rightarrow> (nat \<times> u32) list \<Rightarrow> kernel \<Rightarrow> bool" where
  "dq_moves n k i j k' \<longleftrightarrow> dq_wf n k' \<and> items n k @ i = j @ items n k' \<and> pushes n k' = pushes n k + length i"

lemma dq_moves_same: "dq_wf n k' \<Longrightarrow> dataqueues k' n = dataqueues k n \<Longrightarrow> dq_moves n k [] [] k'"
  by (simp add: dq_moves_def)

lemma dq_push_loop_sound:
  assumes "dq_wf n k" "may_wait t k" "pushes n k < 65535" "dq_push_loop no_event n x timeout t k = Some (r, k')"
  shows "dq_moves n k (dq_accepted x r) [] k'"
proof -
  have c: "rt_current_thread k = Some t" and ok: "dq_ok (dataqueues k n)" using assms(1,2) by (simp_all add: may_wait_def dq_wf_def)
  consider (room) "length (items n k) \<noteq> unat (dq_size (dataqueues k n))" "r = Ret RT_EOK"
      "k' = wake_first (LDqPop n) (upd_dq n (dq_put x) k)"
    | (full) "dq_accepted x r = []" "k' = k"
    | (wait) "dq_accepted x r = []" "k' = wait_fresh (LDqPush n) 0 timeout t k"
    using assms(4) unfolding dq_push_loop_eq [OF assms(1,2)] dq_push_done_eq by (auto split: if_splits)
  then show ?thesis
  proof cases
    case room
    note p = dq_put_spec [OF ok room(1) assms(3), of x]
    have "dq_wf n (upd_dq n (dq_put x) k)" using assms(1) p(1) by (simp add: dq_wf_def)
    then have "dq_wf n k'" unfolding room(3) by (rule dq_wf_wake) (use c in simp_all)
    then show ?thesis using p room by (simp add: dq_moves_def)
  next
    case full
    then show ?thesis using assms(1) by (simp add: dq_moves_same)
  next
    case wait
    then show ?thesis using dq_wf_wait [OF assms(1,2)] by (simp add: dq_moves_same)
  qed
qed

lemma dq_pop_loop_sound:
  assumes "dq_wf n k" "may_wait t k" "dq_pop_loop no_event n timeout t k = Some (r, k')"
  shows "dq_moves n k [] (dq_delivered r) k'"
proof -
  have c: "rt_current_thread k = Some t" and ok: "dq_ok (dataqueues k n)" using assms(1,2) by (simp_all add: may_wait_def dq_wf_def)
  let ?k = "upd_dq n (\<lambda>q. q\<lparr>dq_get_index := dq_get_index q + 1\<rparr>) k"
  consider (some) "items n k \<noteq> []" "r = Ret (RT_EOK, Some (dq_front (dataqueues k n)))" "k' = ?k \<or> k' = wake_first (LDqPush n) ?k"
    | (empty) "dq_delivered r = []" "k' = k"
    | (wait) "dq_delivered r = []" "k' = wait_fresh (LDqPop n) 0 timeout t k"
    using assms(3) unfolding dq_pop_loop_eq [OF assms(1,2)] dq_pop_done_eq Let_def by (auto split: if_splits)
  then show ?thesis
  proof cases
    case some
    note p = dq_get_spec [OF ok some(1)]
    have w: "dq_wf n ?k" using assms(1) p(1) by (simp add: dq_wf_def)
    then have "dq_wf n (wake_first (LDqPush n) ?k)" by (rule dq_wf_wake) (use c in simp_all)
    then show ?thesis using w p some by (auto simp: dq_moves_def)
  next
    case empty
    then show ?thesis using assms(1) by (simp add: dq_moves_same)
  next
    case wait
    then show ?thesis using dq_wf_wait [OF assms(1,2)] by (simp add: dq_moves_same)
  qed
qed

lemma dq_step_sound:
  assumes "dq_step n k i j k'" "dq_wf n k" "pushes n k + length i < 65536"
  shows "dq_moves n k i j k'"
  using assms(1)
proof (cases rule: dq_step.cases)
  case (push t x timeout r)
  have "self k = t" using push by (simp add: may_wait_def)
  then show ?thesis
  proof (cases "pushes n k < 65535")
    case True
    then show ?thesis using push dq_push_loop_sound [OF assms(2) push(3) True] \<open>self k = t\<close> by (simp add: rt_data_queue_push_def)
  next
    case False
    then have "i = []" using assms(3) by (cases i) simp_all
    then show ?thesis using push \<open>self k = t\<close> assms(2) dq_wf_wait [OF assms(2) push(3), of "LDqPush n"]
      by (auto simp: rt_data_queue_push_def dq_push_loop_eq [OF assms(2) push(3)] dq_push_done_eq split: if_splits intro: dq_moves_same)
  qed
next
  case (push_resume t x timeout r)
  show ?thesis
  proof (cases "pushes n k < 65535")
    case True
    then show ?thesis using push_resume dq_push_loop_sound [OF assms(2) push_resume(3) True] assms(2)
      by (auto simp: rt_data_queue_push_resume_def split: if_splits intro: dq_moves_same)
  next
    case False
    then have "i = []" using assms(3) by (cases i) simp_all
    then show ?thesis using push_resume assms(2) dq_wf_wait [OF assms(2) push_resume(3), of "LDqPush n"]
      by (auto simp: rt_data_queue_push_resume_def dq_push_loop_eq [OF assms(2) push_resume(3)] dq_push_done_eq
          split: if_splits intro: dq_moves_same)
  qed
next
  case (pop t timeout r)
  have "self k = t" using pop by (simp add: may_wait_def)
  then show ?thesis using pop dq_pop_loop_sound [OF assms(2) pop(3)] by (simp add: rt_data_queue_pop_def)
next
  case (pop_resume t timeout r)
  then show ?thesis using dq_pop_loop_sound [OF assms(2) pop_resume(3)] assms(2)
    by (auto simp: rt_data_queue_pop_resume_def split: if_splits intro: dq_moves_same)
next
  case (timeout c t)
  then have "sched_wf k'" using assms(2) rt_thread_timeout_wf [of k t c] by (simp add: dq_wf_def)
  moreover have "dataqueues k' = dataqueues k"
    using timeout by (simp add: rt_thread_timeout_def Let_def frame_simps rt_schedule_insert_thread_def state_defs)
  ultimately show ?thesis using timeout assms(2) by (simp add: dq_wf_def dq_moves_same)
next
  case (yield c)
  then show ?thesis using assms(2) rt_schedule_wf [of k c]
    by (simp add: rt_thread_yield_def dq_wf_def frame_simps dq_moves_same)
qed

lemma dq_run_sound:
  assumes "dq_run n k ins outs k'" "dq_wf n k" "pushes n k + length ins < 65536"
  shows "dq_moves n k ins outs k'"
  using assms
proof (induction rule: dq_run.induct)
  case (nil k)
  then show ?case by (simp add: dq_moves_same)
next
  case (step k i j k1 ins outs k2)
  have s: "dq_moves n k i j k1" by (rule dq_step_sound [OF step(1) step(4)]) (use step(5) in simp)
  then have m: "dq_moves n k1 ins outs k2" using step(3,5) by (simp add: dq_moves_def)
  have "items n k @ (i @ ins) = (j @ outs) @ items n k2" using s m unfolding dq_moves_def by (metis append.assoc)
  moreover have "dq_wf n k2" "pushes n k2 = pushes n k + length (i @ ins)" using s m by (simp_all add: dq_moves_def)
  ultimately show ?case unfolding dq_moves_def by blast
qed


text \<open>Replacing the first slot of a ring that is read from slot \<open>g\<close> on.\<close>

lemma rotate_update_first:
  assumes "xs \<noteq> []"
  shows "rotate g (xs[0 := x]) = (rotate g xs)[(length xs - g mod length xs) mod length xs := x]"
proof (rule nth_equalityI)
  fix i assume "i < length (rotate g (xs[0 := x]))"
  then have i: "i < length xs" by simp
  let ?l = "length xs"
  have "(g + i) mod ?l = 0 \<longleftrightarrow> i = (?l - g mod ?l) mod ?l"
  proof -
    have m: "g mod ?l < ?l" using assms by simp
    have e: "(g + i) mod ?l = (g mod ?l + i) mod ?l" by (simp add: mod_add_left_eq)
    show ?thesis
    proof (cases "g mod ?l = 0")
      case True
      then show ?thesis using i e by simp
    next
      case False
      then have "(?l - g mod ?l) mod ?l = ?l - g mod ?l" using m by simp
      moreover have "(g mod ?l + i) mod ?l = (if g mod ?l + i < ?l then g mod ?l + i else g mod ?l + i - ?l)"
        using m i by (auto simp: le_mod_geq)
      ultimately show ?thesis using e False m i by auto
    qed
  qed
  then show "rotate g (xs[0 := x]) ! i = (rotate g xs)[(?l - g mod ?l) mod ?l := x] ! i"
    using i assms by (simp add: nth_rotate nth_list_update)
qed simp

section \<open>Properties\<close>

text \<open>
  C24. For the first 65535 pushes a data queue is a bounded first-in first-out queue: whatever threads
  push, pop, wait, are resumed or time out, the items delivered followed by those still queued are
  those that were there followed by the accepted ones; a call that failed or is still blocked has
  moved nothing, and the queue never holds more than its size.
\<close>

theorem dq_history_is_fifo:
  assumes "dq_run n k ins outs k'" "dq_wf n k" "unat (dq_put_index (dataqueues k n)) + length ins < 65536"
  shows "dq_wf n k' \<and> dq_contents (dataqueues k n) @ ins = outs @ dq_contents (dataqueues k' n) \<and>
    length (dq_contents (dataqueues k' n)) \<le> unat (dq_size (dataqueues k' n))"
  using dq_run_sound [OF assms] by (auto simp: dq_moves_def dq_wf_def dq_ok_def)

definition demo_dq :: "u16 \<Rightarrow> u16 \<Rightarrow> (nat \<times> u32) list \<Rightarrow> kernel" where
  "demo_dq g p xs = upd_dq 0 (\<lambda>q. \<lparr>dq_size = of_nat (length xs), dq_lwm = 1, dq_get_index = g, dq_put_index = p, dq_queue = xs\<rparr>)
     (demo_running 3 [5] (LSem 0) [])"

lemma demo_dq:
  "sched_wf (demo_dq g p xs)" "may_wait 3 (demo_dq g p xs)" "tlists (demo_dq g p xs) (LDqPop n) = []" "tlists (demo_dq g p xs) (LDqPush n) = []"
  "dataqueues (demo_dq g p xs) 0 = \<lparr>dq_size = of_nat (length xs), dq_lwm = 1, dq_get_index = g, dq_put_index = p, dq_queue = xs\<rparr>"
proof -
  have "sched_wf (demo_running 3 [5] (LSem 0) [])" by (intro demo_running_wf) auto
  then show "sched_wf (demo_dq g p xs)" by (simp add: demo_dq_def)
  show "may_wait 3 (demo_dq g p xs)"
    by (auto simp: may_wait_def demo_dq_def demo_running_def demo_kernel_def demo_thread_def intro!: exI [of _ 5])
qed (simp_all add: demo_dq_def demo_running_def)

theorem dq_history_is_fifo_witness:
  "\<exists>k1 k2. rt_data_queue_push no_event 0 (7, 1) 0 (demo_dq 0 1 [(4, 1), (0, 0), (0, 0)]) = Some (Ret RT_EOK, k1) \<and>
     rt_data_queue_pop no_event 0 0 k1 = Some (Ret (RT_EOK, Some (4, 1)), k2) \<and> dq_contents (dataqueues k2 0) = [(7, 1)]"
proof -
  let ?k = "demo_dq 0 1 [(4, 1), (0, 0), (0, 0)]"
  define k1 where "k1 = upd_dq 0 (dq_put (7, 1)) ?k"
  define k2 where "k2 = upd_dq 0 (\<lambda>q. q\<lparr>dq_get_index := dq_get_index q + 1\<rparr>) k1"
  have mw: "may_wait 3 k1" using demo_dq(2) [of 0 1 "[(4, 1), (0, 0), (0, 0)]"] by (simp add: k1_def may_wait_def)
  have self: "self ?k = 3" "self k1 = 3" using mw demo_dq(2) [of 0 1 "[(4, 1), (0, 0), (0, 0)]"] by (simp_all add: may_wait_def)
  have p: "rt_data_queue_push no_event 0 (7, 1) 0 ?k = Some (Ret RT_EOK, k1)"
    by (simp add: rt_data_queue_push_def dq_push_loop.simps demo_dq dq_count_def dq_push_done_def k1_def tlist_isempty_def Let_def)
  have g: "rt_data_queue_pop no_event 0 0 k1 = Some (Ret (RT_EOK, Some (4, 1)), k2)"
    by (simp add: rt_data_queue_pop_def dq_pop_loop.simps demo_dq dq_count_def dq_pop_done_def k1_def k2_def tlist_isempty_def
        Let_def dq_put_def dq_front_def)
  have "dq_run 0 ?k (dq_accepted (7, 1) (Ret RT_EOK) @ [] @ []) ([] @ dq_delivered (Ret (RT_EOK, Some (4, 1))) @ []) k2"
    by (intro dq_run.step [OF dq_step.push [OF demo_dq(2) p]] dq_run.step [OF dq_step.pop [OF mw g]] dq_run.nil)
  moreover have "dq_wf 0 ?k" by (simp add: dq_wf_def demo_dq dq_ok_def)
  moreover have "dq_contents (dataqueues ?k 0) = [(4, 1)]" by (simp add: demo_dq dq_contents_def cyc_def)
  ultimately show ?thesis using dq_history_is_fifo [of 0 ?k "[(7, 1)]" "[(4, 1)]" k2] p g by (auto simp: demo_dq)
qed

text \<open>
  C34. After 65536 pushes the queue breaks: the indices are 16-bit numbers but their difference is
  computed as an \<open>int\<close>, so once \<open>put_index\<close> has wrapped to 0 and \<open>get_index\<close> has not, the difference is
  negative and a full queue is not seen as full. The push that should have waited or failed returns
  \<open>RT_EOK\<close> and overwrites one of the items stored: of the items, oldest first, the one at position
  \<open>- 65536 mod size\<close>, that is the oldest one when the size divides 65536 and, for instance, the newest
  one when it is 3. The next pop delivers the first item of what is left, with the new one in the place
  of the lost one; with the largest size 65535 it finds the indices equal, and all items are lost.
\<close>

theorem dq_wrap_overwrites_full_queue:
  fixes k :: kernel and n :: nat
  defines "q \<equiv> dataqueues k n"
  defines "s \<equiv> unat (dq_size q)" and "old \<equiv> rotate (unat (dq_get_index q)) (dq_queue q)"
  assumes "dq_put_index q = 0" "unat (dq_get_index q) + s = 65536" "length (dq_queue q) = s" "0 < s"
    and "tlists k (LDqPop n) = []" "tlists k (LDqPush n) = []"
  shows "\<exists>k1. rt_data_queue_push no_event n x timeout k = Some (Ret RT_EOK, k1) \<and>
    (let left = old[(s - 65536 mod s) mod s := x]
     in rotate (unat (dq_get_index q)) (dq_queue (dataqueues k1 n)) = left \<and>
        (if s = 65535 then rt_data_queue_pop no_event n 0 k1 = Some (Ret (- RT_ETIMEOUT, None), k1)
         else \<exists>k2. rt_data_queue_pop no_event n 0 k1 = Some (Ret (RT_EOK, Some (hd left)), k2)))"
proof -
  let ?k1 = "upd_dq n (dq_put x) k" and ?g = "unat (dq_get_index q)"
  have "dq_count q \<le> 0" using assms(4) by (simp add: dq_count_def)
  moreover have "0 < uint (dq_size q)" using assms(7) by (simp add: s_def word_gt_0 uint_nat del: of_nat_unat)
  ultimately have "dq_count q \<noteq> uint (dq_size q)" by simp
  then have p: "rt_data_queue_push no_event n x timeout k = Some (Ret RT_EOK, ?k1)"
    using assms(8) by (simp add: q_def rt_data_queue_push_def dq_push_loop.simps dq_push_done_def tlist_isempty_def Let_def)
  have g: "?g mod s = 65536 mod s" using assms(5) by (metis mod_add_self2)
  have ne: "dq_queue q \<noteq> []" using assms(6,7) by auto
  have left: "rotate ?g (dq_queue (dataqueues ?k1 n)) = old[(s - 65536 mod s) mod s := x]"
    using rotate_update_first [OF ne, of ?g x] assms(4,6) g by (simp add: dq_put_def old_def q_def s_def)
  have front: "dq_front (dataqueues ?k1 n) = hd (rotate ?g (dq_queue (dataqueues ?k1 n)))"
    using hd_rotate_conv_nth [of "dq_queue (dataqueues ?k1 n)" ?g] ne assms(6)
    by (simp add: dq_front_def dq_put_def q_def s_def)
  show ?thesis
  proof (cases "s = 65535")
    case True
    then have "unat (dq_get_index q) = unat (1 :: u16)" using assms(5) by simp
    then have "dq_get_index q = 1" by (simp only: word_unat_eq_iff)
    then have "dq_get_index q = dq_put_index q + 1" using assms(4) by simp
    then show ?thesis using True p left
      by (simp add: rt_data_queue_pop_def dq_pop_loop.simps dq_put_def q_def Let_def)
  next
    case False
    then have "dq_get_index q \<noteq> dq_put_index q + 1" using assms(4,5) by auto
    then have "\<exists>k2. rt_data_queue_pop no_event n 0 ?k1 = Some (Ret (RT_EOK, Some (dq_front (dataqueues ?k1 n))), k2)"
      by (simp add: rt_data_queue_pop_def dq_pop_loop.simps dq_pop_done_def dq_put_def q_def Let_def)
    then show ?thesis using False p left front by (auto simp: Let_def)
  qed
qed

theorem dq_wrap_overwrites_full_queue_witness:
  "\<exists>k1 k2. rt_data_queue_push no_event 0 (9, 1) 10 (demo_dq 65533 0 [(4, 1), (5, 1), (3, 1)]) = Some (Ret RT_EOK, k1) \<and>
    rotate 65533 (dq_queue (dataqueues k1 0)) = [(5, 1), (3, 1), (9, 1)] \<and>
    rt_data_queue_pop no_event 0 0 k1 = Some (Ret (RT_EOK, Some (5, 1)), k2)"
proof -
  have r: "rotate 65533 [a, b, c] = rotate 1 [a, b, c]" for a b c :: "nat \<times> u32"
    using rotate_conv_mod [of 65533 "[a, b, c]"] by simp
  show ?thesis using dq_wrap_overwrites_full_queue [of "demo_dq 65533 0 [(4, 1), (5, 1), (3, 1)]" 0 "(9, 1)" 10]
    by (auto simp: demo_dq Let_def r)
qed

end
