(* ===== verification/Device.thy ===== *)
theory Device
  imports Object
begin

text \<open>
  The device layer (\<open>src/device.c\<close>). A driver's struct begins with \<open>struct rt_device\<close>; so does its record,
  which extends \<open>rt_device\<close>, and the operations here work on every extension. The function pointers of
  the struct are the record \<open>device_ops\<close> (\<open>None\<close> a null pointer). The first field is not of the struct: it is
  the kernel the driver runs in. \<open>None\<close> as a result is a null pointer dereference in the driver.
\<close>

section \<open>Data\<close>

record rt_device =
  kern :: kernel
  dev_id :: nat
  dev_type :: nat
  dev_flag :: u16
  dev_open_flag :: u16
  dev_ref_count :: u8
  dev_rx_indicate :: "nat option"
  dev_tx_complete :: "nat option"

record 'd device_ops =
  op_init :: "('d \<Rightarrow> (err \<times> 'd) option) option"
  op_open :: "(u16 \<Rightarrow> 'd \<Rightarrow> (err \<times> 'd) option) option"
  op_close :: "('d \<Rightarrow> (err \<times> 'd) option) option"
  op_read :: "(nat \<Rightarrow> nat \<Rightarrow> 'd \<Rightarrow> (nat \<times> u8 list \<times> 'd) option) option"
  op_write :: "(nat \<Rightarrow> u8 list \<Rightarrow> 'd \<Rightarrow> (nat outcome \<times> u8 list \<times> 'd) option) option"
  op_control :: "(int \<Rightarrow> nat option \<Rightarrow> 'd \<Rightarrow> (err \<times> 'd) option) option"

abbreviation (input) RT_DEVICE_FLAG_STANDALONE :: u16 where "RT_DEVICE_FLAG_STANDALONE \<equiv> 0x008"
abbreviation (input) RT_DEVICE_FLAG_ACTIVATED :: u16 where "RT_DEVICE_FLAG_ACTIVATED \<equiv> 0x010"
abbreviation (input) RT_DEVICE_FLAG_SUSPENDED :: u16 where "RT_DEVICE_FLAG_SUSPENDED \<equiv> 0x020"
abbreviation (input) RT_DEVICE_FLAG_STREAM :: u16 where "RT_DEVICE_FLAG_STREAM \<equiv> 0x040"
abbreviation (input) RT_DEVICE_FLAG_INT_RX :: u16 where "RT_DEVICE_FLAG_INT_RX \<equiv> 0x100"
abbreviation (input) RT_DEVICE_FLAG_DMA_RX :: u16 where "RT_DEVICE_FLAG_DMA_RX \<equiv> 0x200"
abbreviation (input) RT_DEVICE_FLAG_INT_TX :: u16 where "RT_DEVICE_FLAG_INT_TX \<equiv> 0x400"
abbreviation (input) RT_DEVICE_FLAG_DMA_TX :: u16 where "RT_DEVICE_FLAG_DMA_TX \<equiv> 0x800"
abbreviation (input) RT_DEVICE_OFLAG_OPEN :: u16 where "RT_DEVICE_OFLAG_OPEN \<equiv> 0x008"
abbreviation (input) RT_DEVICE_OFLAG_MASK :: u16 where "RT_DEVICE_OFLAG_MASK \<equiv> 0xf0f"

abbreviation (input) has :: "u16 \<Rightarrow> u16 \<Rightarrow> bool" where "has w f \<equiv> w AND f \<noteq> 0"

section \<open>Operations\<close>

text \<open>\<open>rt_set_errno\<close> of \<open>kservice.c\<close>.\<close>

definition rt_set_errno :: "err \<Rightarrow> kernel \<Rightarrow> kernel" where
  "rt_set_errno e k =
     (if rt_interrupt_nest k \<noteq> 0 then k\<lparr>rt_errno := e\<rparr>
      else case rt_current_thread k of
             None \<Rightarrow> k\<lparr>rt_errno := e\<rparr>
           | Some t \<Rightarrow> upd_thread t (\<lambda>th. th\<lparr>th_error := e\<rparr>) k)"

definition rt_device_find :: "string \<Rightarrow> kernel \<Rightarrow> obj option \<times> kernel" where
  "rt_device_find name k =
     (let k = (if rt_current_thread k \<noteq> None then rt_enter_critical k else k);
          ob = find (\<lambda>x. rt_strncmp (ob_name (objects k x)) name RT_NAME_MAX = 0) (rt_object_container k RT_Object_Class_Device)
      in (ob, if rt_current_thread k \<noteq> None then rt_exit_critical k else k))"

definition rt_device_register :: "string \<Rightarrow> u16 \<Rightarrow> 'a rt_device_scheme \<Rightarrow> err \<times> 'a rt_device_scheme" where
  "rt_device_register name flags d =
     (let (ob, k) = rt_device_find name (kern d); d = d\<lparr>kern := k\<rparr>
      in if ob \<noteq> None then (- RT_ERROR, d)
         else (RT_EOK, d\<lparr>kern := rt_object_init (ODevice (dev_id d)) RT_Object_Class_Device name (kern d), dev_flag := flags,
                         dev_ref_count := 0, dev_open_flag := 0\<rparr>))"

definition rt_device_unregister :: "'a rt_device_scheme \<Rightarrow> err \<times> 'a rt_device_scheme" where
  "rt_device_unregister d = (RT_EOK, d\<lparr>kern := rt_object_detach (ODevice (dev_id d)) (kern d)\<rparr>)"

definition rt_device_init_all :: err where "rt_device_init_all = RT_EOK"

text \<open>\<open>rt_device_create\<close>: \<open>mem\<close> is what \<open>rt_malloc\<close> returns; the attached bytes behind the struct stay as they are.\<close>

definition rt_device_create :: "nat \<Rightarrow> 'a rt_device_scheme option \<Rightarrow> 'a rt_device_scheme option" where
  "rt_device_create ty mem =
     map_option (\<lambda>d. d\<lparr>dev_type := ty, dev_flag := 0, dev_open_flag := 0, dev_ref_count := 0, dev_rx_indicate := None,
                         dev_tx_complete := None\<rparr>) mem"

text \<open>\<open>rt_device_destroy\<close> up to \<open>rt_free\<close>, which acts on the heap only.\<close>

definition rt_device_destroy :: "'a rt_device_scheme \<Rightarrow> 'a rt_device_scheme" where
  "rt_device_destroy d = d\<lparr>kern := rt_object_detach (ODevice (dev_id d)) (kern d)\<rparr>"

definition rt_device_init :: "'a rt_device_scheme device_ops \<Rightarrow> 'a rt_device_scheme \<Rightarrow> (err \<times> 'a rt_device_scheme) option" where
  "rt_device_init ops d =
     (case op_init ops of
        None \<Rightarrow> Some (RT_EOK, d)
      | Some f \<Rightarrow>
          if \<not> has (dev_flag d) RT_DEVICE_FLAG_ACTIVATED then
            map_option (\<lambda>(r, d). if r \<noteq> RT_EOK then (r, d) else (r, d\<lparr>dev_flag := dev_flag d OR RT_DEVICE_FLAG_ACTIVATED\<rparr>)) (f d)
          else Some (RT_EOK, d))"

text \<open>The part of \<open>rt_device_open\<close> that initialises the device; the result is \<open>RT_EOK\<close> if it goes on.\<close>

definition open_init :: "'a rt_device_scheme device_ops \<Rightarrow> 'a rt_device_scheme \<Rightarrow> (err \<times> 'a rt_device_scheme) option" where
  "open_init ops d =
     (if \<not> has (dev_flag d) RT_DEVICE_FLAG_ACTIVATED then
        map_option (\<lambda>(r, d). if r \<noteq> RT_EOK then (r, d) else (RT_EOK, d\<lparr>dev_flag := dev_flag d OR RT_DEVICE_FLAG_ACTIVATED\<rparr>))
          (case op_init ops of None \<Rightarrow> Some (RT_EOK, d) | Some f \<Rightarrow> f d)
      else Some (RT_EOK, d))"

definition rt_device_open :: "'a rt_device_scheme device_ops \<Rightarrow> u16 \<Rightarrow> 'a rt_device_scheme \<Rightarrow> (err \<times> 'a rt_device_scheme) option" where
  "rt_device_open ops oflag d =
     (case open_init ops d of
        None \<Rightarrow> None
      | Some (r, d) \<Rightarrow>
          if r \<noteq> RT_EOK then Some (r, d)
          else if has (dev_flag d) RT_DEVICE_FLAG_STANDALONE \<and> has (dev_open_flag d) RT_DEVICE_OFLAG_OPEN then Some (- RT_EBUSY, d)
          else
            map_option (\<lambda>(r, d).
                (r, if r = RT_EOK \<or> r = - RT_ENOSYS
                    then d\<lparr>dev_open_flag := dev_open_flag d OR RT_DEVICE_OFLAG_OPEN, dev_ref_count := dev_ref_count d + 1\<rparr> else d))
              (case op_open ops of
                 Some f \<Rightarrow> f oflag d
               | None \<Rightarrow> Some (RT_EOK, d\<lparr>dev_open_flag := oflag AND RT_DEVICE_OFLAG_MASK\<rparr>)))"

definition rt_device_close :: "'a rt_device_scheme device_ops \<Rightarrow> 'a rt_device_scheme \<Rightarrow> (err \<times> 'a rt_device_scheme) option" where
  "rt_device_close ops d =
     (if dev_ref_count d = 0 then Some (- RT_ERROR, d)
      else
        let d = d\<lparr>dev_ref_count := dev_ref_count d - 1\<rparr>
        in if dev_ref_count d \<noteq> 0 then Some (RT_EOK, d)
           else
             map_option (\<lambda>(r, d). (r, if r = RT_EOK \<or> r = - RT_ENOSYS then d\<lparr>dev_open_flag := 0\<rparr> else d))
               (case op_close ops of Some f \<Rightarrow> f d | None \<Rightarrow> Some (RT_EOK, d)))"

definition rt_device_read ::
  "'a rt_device_scheme device_ops \<Rightarrow> nat \<Rightarrow> nat \<Rightarrow> 'a rt_device_scheme \<Rightarrow> (nat \<times> u8 list \<times> 'a rt_device_scheme) option" where
  "rt_device_read ops buffer sz d =
     (if dev_ref_count d = 0 then Some (0, [], d\<lparr>kern := rt_set_errno (- RT_ERROR) (kern d)\<rparr>)
      else case op_read ops of
             Some f \<Rightarrow> f buffer sz d
           | None \<Rightarrow> Some (0, [], d\<lparr>kern := rt_set_errno (- RT_ENOSYS) (kern d)\<rparr>))"

definition rt_device_write ::
  "'a rt_device_scheme device_ops \<Rightarrow> nat \<Rightarrow> u8 list \<Rightarrow> 'a rt_device_scheme \<Rightarrow> (nat outcome \<times> u8 list \<times> 'a rt_device_scheme) option" where
  "rt_device_write ops buffer data d =
     (if dev_ref_count d = 0 then Some (Ret 0, [], d\<lparr>kern := rt_set_errno (- RT_ERROR) (kern d)\<rparr>)
      else case op_write ops of
             Some f \<Rightarrow> f buffer data d
           | None \<Rightarrow> Some (Ret 0, [], d\<lparr>kern := rt_set_errno (- RT_ENOSYS) (kern d)\<rparr>))"

definition rt_device_control ::
  "'a rt_device_scheme device_ops \<Rightarrow> int \<Rightarrow> nat option \<Rightarrow> 'a rt_device_scheme \<Rightarrow> (err \<times> 'a rt_device_scheme) option" where
  "rt_device_control ops cmd arg d = (case op_control ops of Some f \<Rightarrow> f cmd arg d | None \<Rightarrow> Some (- RT_ENOSYS, d))"

definition rt_device_set_rx_indicate :: "nat option \<Rightarrow> 'a rt_device_scheme \<Rightarrow> err \<times> 'a rt_device_scheme" where
  "rt_device_set_rx_indicate rx_ind d = (RT_EOK, d\<lparr>dev_rx_indicate := rx_ind\<rparr>)"

definition rt_device_set_tx_complete :: "nat option \<Rightarrow> 'a rt_device_scheme \<Rightarrow> err \<times> 'a rt_device_scheme" where
  "rt_device_set_tx_complete tx_done d = (RT_EOK, d\<lparr>dev_tx_complete := tx_done\<rparr>)"

section \<open>Opening and closing\<close>

text \<open>
  What the device layer needs of a driver: initialising, opening and closing succeed and leave the
  reference count alone; initialising and opening do not take the open mark away in a way that the layer
  does not set again; the flags that the layer tests stay. Under this contract the layer keeps
  \<open>opened\<close>: the mark is set exactly while the count is positive.
\<close>

definition opened :: "'a rt_device_scheme \<Rightarrow> bool" where
  "opened d \<longleftrightarrow> has (dev_open_flag d) RT_DEVICE_OFLAG_OPEN"

definition count_ok :: "'a rt_device_scheme \<Rightarrow> bool" where
  "count_ok d \<longleftrightarrow> (opened d \<longleftrightarrow> dev_ref_count d \<noteq> 0) \<and> (opened d \<longrightarrow> has (dev_flag d) RT_DEVICE_FLAG_ACTIVATED)"

lemma has_OR: "has (w OR f) f \<longleftrightarrow> f \<noteq> (0 :: u16)"
proof -
  have "(w OR f) AND f = f" by (simp add: bit_eq_iff bit_simps)
  then show ?thesis by simp
qed

text \<open>Users of a device: each opens it and closes it; \<open>users\<close> is the number of those that have it open.\<close>

datatype dev_call = Open u16 | Close

fun dev_run :: "'a rt_device_scheme device_ops \<Rightarrow> dev_call list \<Rightarrow> 'a rt_device_scheme \<Rightarrow> 'a rt_device_scheme option" where
  "dev_run ops [] d = Some d"
| "dev_run ops (Open m # cs) d = Option.bind (rt_device_open ops m d) (\<lambda>(r, d). dev_run ops cs d)"
| "dev_run ops (Close # cs) d = Option.bind (rt_device_close ops d) (\<lambda>(r, d). dev_run ops cs d)"

fun users :: "dev_call list \<Rightarrow> nat \<Rightarrow> nat" where
  "users [] n = n"
| "users (Open m # cs) n = users cs (Suc n)"
| "users (Close # cs) n = users cs (n - 1)"

locale device_driver =
  fixes ops :: "'a rt_device_scheme device_ops" and ready :: "'a rt_device_scheme \<Rightarrow> bool" and modes :: "u16 set"
  assumes init_some: "op_init ops \<noteq> None" and open_some: "op_open ops \<noteq> None" and close_some: "op_close ops \<noteq> None"
    and init_ok: "\<lbrakk>op_init ops = Some f; ready d\<rbrakk> \<Longrightarrow>
      \<exists>d'. f d = Some (RT_EOK, d') \<and> ready d' \<and> dev_ref_count d' = dev_ref_count d \<and> dev_open_flag d' = dev_open_flag d \<and> dev_flag d' = dev_flag d"
    and open_ok: "\<lbrakk>op_open ops = Some g; ready d; m \<in> modes\<rbrakk> \<Longrightarrow>
      \<exists>d'. g m d = Some (RT_EOK, d') \<and> ready d' \<and> dev_ref_count d' = dev_ref_count d \<and> dev_flag d' = dev_flag d"
    and close_ok: "\<lbrakk>op_close ops = Some h; ready d; dev_ref_count d = 0\<rbrakk> \<Longrightarrow>
      \<exists>d'. h d = Some (RT_EOK, d') \<and> ready d' \<and> dev_ref_count d' = 0 \<and> dev_flag d' = dev_flag d"
    and ready_layer: "ready d \<Longrightarrow> ready (d\<lparr>dev_flag := dev_flag d OR RT_DEVICE_FLAG_ACTIVATED\<rparr>)"
      "ready d \<Longrightarrow> ready (d\<lparr>dev_open_flag := dev_open_flag d OR RT_DEVICE_OFLAG_OPEN, dev_ref_count := c\<rparr>)"
      "ready d \<Longrightarrow> ready (d\<lparr>dev_ref_count := c\<rparr>)" "ready d \<Longrightarrow> dev_ref_count d = 0 \<Longrightarrow> ready (d\<lparr>dev_open_flag := 0\<rparr>)"
begin

lemma open_init_ok:
  assumes "ready d"
  shows "\<exists>d'. open_init ops d = Some (RT_EOK, d') \<and> ready d' \<and> dev_ref_count d' = dev_ref_count d \<and>
    dev_open_flag d' = dev_open_flag d \<and> has (dev_flag d') RT_DEVICE_FLAG_ACTIVATED \<and>
    (has (dev_flag d') RT_DEVICE_FLAG_STANDALONE \<longleftrightarrow> has (dev_flag d) RT_DEVICE_FLAG_STANDALONE)"
proof -
  obtain f where f: "op_init ops = Some f" using init_some by blast
  obtain d1 where d1: "f d = Some (RT_EOK, d1)" "ready d1" "dev_ref_count d1 = dev_ref_count d" "dev_open_flag d1 = dev_open_flag d"
    "dev_flag d1 = dev_flag d" using init_ok [OF f assms] by blast
  have "(w OR 0x10) AND 0x08 = w AND (0x08 :: u16)" for w
    by (simp add: bit.conj_disj_distrib2)
  then show ?thesis using assms f d1 ready_layer(1) [OF d1(2)] has_OR [of "dev_flag d" RT_DEVICE_FLAG_ACTIVATED]
    by (simp add: open_init_def)
qed

text \<open>Opening counts, and the first open marks; a stand-alone device is opened once only.\<close>

lemma open_counts:
  assumes "ready d" "count_ok d" "m \<in> modes" "unat (dev_ref_count d) < 255"
  shows "\<exists>r d'. rt_device_open ops m d = Some (r, d') \<and> ready d' \<and> count_ok d' \<and>
    (has (dev_flag d') RT_DEVICE_FLAG_STANDALONE \<longleftrightarrow> has (dev_flag d) RT_DEVICE_FLAG_STANDALONE) \<and>
    (if has (dev_flag d) RT_DEVICE_FLAG_STANDALONE \<and> dev_ref_count d \<noteq> 0
     then r = - RT_EBUSY \<and> dev_ref_count d' = dev_ref_count d
     else r = RT_EOK \<and> opened d' \<and> unat (dev_ref_count d') = Suc (unat (dev_ref_count d)))"
proof -
  obtain d1 where i: "open_init ops d = Some (RT_EOK, d1)" "ready d1" "dev_ref_count d1 = dev_ref_count d"
    "dev_open_flag d1 = dev_open_flag d" "has (dev_flag d1) RT_DEVICE_FLAG_ACTIVATED"
    "has (dev_flag d1) RT_DEVICE_FLAG_STANDALONE \<longleftrightarrow> has (dev_flag d) RT_DEVICE_FLAG_STANDALONE" using open_init_ok [OF assms(1)] by blast
  obtain g where g: "op_open ops = Some g" using open_some by blast
  obtain d2 where o: "g m d1 = Some (RT_EOK, d2)" "ready d2" "dev_ref_count d2 = dev_ref_count d1" "dev_flag d2 = dev_flag d1"
    using open_ok [OF g i(2) assms(3)] by blast
  have c: "unat (dev_ref_count d + 1) = Suc (unat (dev_ref_count d))"
    using unat_inc [of "dev_ref_count d" 255] assms(4) by (simp add: word_less_nat_alt)
  then have nz: "dev_ref_count d + 1 \<noteq> 0" by auto
  have op: "opened d1 \<longleftrightarrow> dev_ref_count d \<noteq> 0" using assms(2) i(4) by (simp add: count_ok_def opened_def)
  have "has (dev_open_flag d2 OR RT_DEVICE_OFLAG_OPEN) RT_DEVICE_OFLAG_OPEN" using has_OR [of "dev_open_flag d2" RT_DEVICE_OFLAG_OPEN] by simp
  then show ?thesis using i o g c nz op ready_layer(2) [OF o(2)] unfolding rt_device_open_def
    by (auto simp: count_ok_def opened_def)
qed

text \<open>Closing counts down; the driver is closed by the last close, and only by it.\<close>

lemma close_counts:
  assumes "ready d" "count_ok d"
  shows "\<exists>r d'. rt_device_close ops d = Some (r, d') \<and> ready d' \<and> count_ok d' \<and> dev_flag d' = dev_flag d \<and>
    (if dev_ref_count d = 0 then r = - RT_ERROR \<and> d' = d
     else r = RT_EOK \<and> unat (dev_ref_count d') = unat (dev_ref_count d) - 1 \<and> (dev_ref_count d \<noteq> 1 \<longrightarrow> d' = d\<lparr>dev_ref_count := dev_ref_count d - 1\<rparr>))"
proof -
  obtain g where g: "op_close ops = Some g" using close_some by blast
  let ?d = "d\<lparr>dev_ref_count := dev_ref_count d - 1\<rparr>"
  have c: "dev_ref_count d \<noteq> 0 \<Longrightarrow> unat (dev_ref_count d - 1) = unat (dev_ref_count d) - 1" by (rule unat_dec)
  have one: "dev_ref_count d - 1 = 0 \<longleftrightarrow> dev_ref_count d = 1" by (metis eq_iff_diff_eq_0)
  show ?thesis
  proof (cases "dev_ref_count d = 1")
    case True
    then obtain d' where "g ?d = Some (RT_EOK, d')" "ready d'" "dev_ref_count d' = 0" "dev_flag d' = dev_flag d"
      using close_ok [OF g ready_layer(3) [OF assms(1), of "dev_ref_count d - 1"]] by auto
    then show ?thesis using True g ready_layer(4) [of d'] by (simp add: rt_device_close_def count_ok_def opened_def)
  next
    case False
    then show ?thesis using assms one c ready_layer(3) [OF assms(1), of "dev_ref_count d - 1"]
      by (auto simp: rt_device_close_def count_ok_def opened_def Let_def)
  qed
qed

text \<open>Over any sequence of opens and closes with at most 255 users at a time the count is the number of users.\<close>

lemma run_counts:
  assumes "ready d" "count_ok d" "\<not> has (dev_flag d) RT_DEVICE_FLAG_STANDALONE" "\<And>m. Open m \<in> set cs \<Longrightarrow> m \<in> modes"
    "\<And>i. users (take i cs) (unat (dev_ref_count d)) \<le> 255"
  shows "\<exists>d'. dev_run ops cs d = Some d' \<and> ready d' \<and> count_ok d' \<and> unat (dev_ref_count d') = users cs (unat (dev_ref_count d))"
  using assms
proof (induction cs arbitrary: d)
  case (Cons c cs)
  note within = Cons.prems(5) [of "Suc i" for i, simplified]
  show ?case
  proof (cases c)
    case (Open m)
    have "unat (dev_ref_count d) < 255" "m \<in> modes" using Cons.prems(4) within [of 0] Open by auto
    from open_counts [OF Cons.prems(1,2) this(2,1)] Cons.prems(3) obtain r d' where "rt_device_open ops m d = Some (r, d')" "ready d'" "count_ok d'"
      "\<not> has (dev_flag d') RT_DEVICE_FLAG_STANDALONE" "unat (dev_ref_count d') = Suc (unat (dev_ref_count d))" by auto
    then show ?thesis using Cons.IH [of d'] Cons.prems(4) within Open by auto
  next
    case Close
    from close_counts [OF Cons.prems(1,2)] obtain r d' where d': "rt_device_close ops d = Some (r, d')" "ready d'" "count_ok d'" "dev_flag d' = dev_flag d"
      "if dev_ref_count d = 0 then r = - RT_ERROR \<and> d' = d
       else r = RT_EOK \<and> unat (dev_ref_count d') = unat (dev_ref_count d) - 1 \<and> (dev_ref_count d \<noteq> 1 \<longrightarrow> d' = d\<lparr>dev_ref_count := dev_ref_count d - 1\<rparr>)" by blast
    then have "unat (dev_ref_count d') = unat (dev_ref_count d) - 1" by (simp split: if_splits)
    then show ?thesis using Cons.IH [of d'] Cons.prems(1-4) within d' Close by auto
  qed
qed simp

end

end
