(* ===== verification/Serial.thy ===== *)
theory Serial
  imports Device Data_Queue "HOL-Library.Monad_Syntax"
begin

text \<open>
  The serial framework (\<open>components/drivers/serial/serial.c\<close>, \<open>serial.h\<close>), without the POSIX layer, which is not
  configured. The record extends that of a device, as \<open>struct rt_serial_device\<close> begins with one. The
  operations of the hardware driver (\<open>struct rt_uart_ops\<close>) and the two callbacks of the application are
  arguments. \<open>None\<close> as a result: a null pointer is dereferenced, memory outside of the buffer is
  touched, an uninitialised variable is used, or a loop does not end.
\<close>

section \<open>Data\<close>

record serial_configure =
  baud_rate :: u32
  data_bits :: nat
  stop_bits :: nat
  parity :: nat
  bit_order :: nat
  invert :: nat
  bufsz :: u16

record rt_serial_rx_fifo =
  rx_buffer :: "u8 list"
  put_index :: u16
  get_index :: u16
  is_full :: bool

text \<open>\<open>serial_rx\<close> and \<open>serial_tx\<close> point to one of two structs, or are null. The completion of a transmit FIFO and the
  data queue of a transmit DMA are named by the address of the struct.\<close>

datatype serial_rx_t = RxNull | RxFifo rt_serial_rx_fifo | RxDma bool
datatype serial_tx_t = TxNull | TxFifo nat | TxDma bool nat

record rt_serial_device = rt_device +
  config :: serial_configure
  serial_rx :: serial_rx_t
  serial_tx :: serial_tx_t

record 'd rt_uart_ops =
  uart_configure :: "(serial_configure \<Rightarrow> 'd \<Rightarrow> err \<times> 'd) option"
  uart_control :: "int \<Rightarrow> nat option \<Rightarrow> 'd \<Rightarrow> err \<times> 'd"
  uart_putc :: "u8 \<Rightarrow> 'd \<Rightarrow> int \<times> 'd"
  uart_getc :: "'d \<Rightarrow> int \<times> 'd"
  uart_dma_transmit :: "nat \<Rightarrow> u32 \<Rightarrow> int \<Rightarrow> 'd \<Rightarrow> 'd"

record 'd callbacks =
  cb_rx_indicate :: "nat \<Rightarrow> u32 \<Rightarrow> 'd \<Rightarrow> 'd"
  cb_tx_complete :: "nat \<Rightarrow> nat \<Rightarrow> 'd \<Rightarrow> 'd"

abbreviation (input) RT_DEVICE_CTRL_RESUME :: int where "RT_DEVICE_CTRL_RESUME \<equiv> 1"
abbreviation (input) RT_DEVICE_CTRL_SUSPEND :: int where "RT_DEVICE_CTRL_SUSPEND \<equiv> 2"
abbreviation (input) RT_DEVICE_CTRL_CONFIG :: int where "RT_DEVICE_CTRL_CONFIG \<equiv> 3"
abbreviation (input) RT_DEVICE_CTRL_SET_INT :: int where "RT_DEVICE_CTRL_SET_INT \<equiv> 0x10"
abbreviation (input) RT_DEVICE_CTRL_CLR_INT :: int where "RT_DEVICE_CTRL_CLR_INT \<equiv> 0x11"
abbreviation (input) RT_SERIAL_DMA_RX :: int where "RT_SERIAL_DMA_RX \<equiv> 1"
abbreviation (input) RT_SERIAL_DMA_TX :: int where "RT_SERIAL_DMA_TX \<equiv> 2"
abbreviation (input) RT_WAITING_FOREVER :: int where "RT_WAITING_FOREVER \<equiv> - 1"

section \<open>Poll routines\<close>

text \<open>Reading: the bytes stored through \<open>data\<close>. \<open>getc\<close> returns -1 for no character.\<close>

fun serial_poll_rx :: "'d rt_uart_ops \<Rightarrow> nat \<Rightarrow> 'd \<Rightarrow> u8 list \<times> 'd" where
  "serial_poll_rx u 0 d = ([], d)"
| "serial_poll_rx u (Suc n) d =
     (let (ch, d) = uart_getc u d
      in if ch = - 1 then ([], d)
         else if ch = 10 then ([word_of_int ch], d)
         else let (bs, d) = serial_poll_rx u n d in (word_of_int ch # bs, d))"

fun serial_poll_tx :: "('a rt_device_scheme) rt_uart_ops \<Rightarrow> u8 list \<Rightarrow> 'a rt_device_scheme \<Rightarrow> 'a rt_device_scheme" where
  "serial_poll_tx u [] d = d"
| "serial_poll_tx u (c # cs) d =
     (let d = (if c = 10 \<and> has (dev_open_flag d) RT_DEVICE_FLAG_STREAM then snd (uart_putc u 13 d) else d)
      in serial_poll_tx u cs (snd (uart_putc u c d)))"

section \<open>Interrupt routines\<close>

definition fifo_next :: "u16 \<Rightarrow> u16 \<Rightarrow> u16" where
  "fifo_next sz i = (if i + 1 \<ge> sz then 0 else i + 1)"

definition rx_pop :: "u16 \<Rightarrow> rt_serial_rx_fifo \<Rightarrow> (u8 option \<times> rt_serial_rx_fifo) option" where
  "rx_pop sz f =
     (if get_index f = put_index f \<and> \<not> is_full f then Some (None, f)
      else if unat (get_index f) < length (rx_buffer f)
      then Some (Some (rx_buffer f ! unat (get_index f)), f\<lparr>get_index := fifo_next sz (get_index f), is_full := False\<rparr>)
      else None)"

fun serial_int_rx :: "u16 \<Rightarrow> nat \<Rightarrow> rt_serial_rx_fifo \<Rightarrow> (u8 list \<times> rt_serial_rx_fifo) option" where
  "serial_int_rx sz 0 f = Some ([], f)"
| "serial_int_rx sz (Suc n) f =
     (case rx_pop sz f of
        None \<Rightarrow> None
      | Some (None, f) \<Rightarrow> Some ([], f)
      | Some (Some c, f) \<Rightarrow> map_option (\<lambda>(cs, f). (c # cs, f)) (serial_int_rx sz n f))"

text \<open>Writing waits for the completion \<open>n\<close> when the hardware takes no more; the result holds the data that is left.\<close>

partial_function (option) serial_int_tx ::
  "'a rt_device_scheme rt_uart_ops \<Rightarrow> nat \<Rightarrow> u8 list \<Rightarrow> 'a rt_device_scheme \<Rightarrow> (unit outcome \<times> u8 list \<times> 'a rt_device_scheme) option" where
  "serial_int_tx u n data d =
     (case data of
        [] \<Rightarrow> Some (Ret (), [], d)
      | c # cs \<Rightarrow>
          let (r, d) = uart_putc u c d
          in if r = - 1 then
               let (oc, k) = rt_completion_wait n RT_WAITING_FOREVER (kern d); d = d\<lparr>kern := k\<rparr>
               in (case oc of Blocked \<Rightarrow> Some (Blocked, data, d) | Ret _ \<Rightarrow> serial_int_tx u n data d)
             else serial_int_tx u n cs d)"

definition serial_int_tx_resume ::
  "'a rt_device_scheme rt_uart_ops \<Rightarrow> nat \<Rightarrow> tid \<Rightarrow> u8 list \<Rightarrow> 'a rt_device_scheme \<Rightarrow> (unit outcome \<times> u8 list \<times> 'a rt_device_scheme) option" where
  "serial_int_tx_resume u n t data d = serial_int_tx u n data (d\<lparr>kern := snd (rt_completion_wait_resume n t (kern d))\<rparr>)"

section \<open>DMA routines\<close>

definition serial_fifo_calc_recved_len :: "u16 \<Rightarrow> rt_serial_rx_fifo \<Rightarrow> u16" where
  "serial_fifo_calc_recved_len sz f =
     (if put_index f = get_index f then (if is_full f then sz else 0)
      else if put_index f > get_index f then put_index f - get_index f
      else sz - (get_index f - put_index f))"

definition rt_dma_calc_recved_len :: "u16 \<Rightarrow> rt_serial_rx_fifo \<Rightarrow> u16" where
  "rt_dma_calc_recved_len sz f = serial_fifo_calc_recved_len sz f"

definition rt_dma_recv_update_get_index :: "u16 \<Rightarrow> u32 \<Rightarrow> rt_serial_rx_fifo \<Rightarrow> rt_serial_rx_fifo" where
  "rt_dma_recv_update_get_index sz len f =
     (let f = (if is_full f \<and> len \<noteq> 0 then f\<lparr>is_full := False\<rparr> else f);
          i = get_index f + ucast len
      in f\<lparr>get_index := if i \<ge> sz then i mod sz else i\<rparr>)"

definition rt_dma_recv_update_put_index :: "u16 \<Rightarrow> u32 \<Rightarrow> rt_serial_rx_fifo \<Rightarrow> rt_serial_rx_fifo" where
  "rt_dma_recv_update_put_index sz len f =
     (let p = put_index f + ucast len;
          f = (if get_index f \<le> put_index f then
                 if p \<ge> sz then f\<lparr>put_index := p mod sz, is_full := is_full f \<or> p mod sz \<ge> get_index f\<rparr> else f\<lparr>put_index := p\<rparr>
               else
                 if p \<ge> get_index f then f\<lparr>put_index := if p \<ge> sz then p mod sz else p, is_full := True\<rparr> else f\<lparr>put_index := p\<rparr>);
          f = (if is_full f then f\<lparr>get_index := put_index f\<rparr> else f)
      in if get_index f \<ge> sz then f\<lparr>get_index := 0\<rparr> else f)"

text \<open>The copy out of the FIFO, in one or two pieces.\<close>

definition dma_rx_copy :: "u16 \<Rightarrow> u32 \<Rightarrow> rt_serial_rx_fifo \<Rightarrow> u8 list" where
  "dma_rx_copy sz n f =
     (let g = unat (get_index f)
      in if g + unat n < unat sz then take (unat n) (drop g (rx_buffer f))
         else take (unat sz - g) (drop g (rx_buffer f)) @ take (unat n + g - unat sz) (rx_buffer f))"

definition serial_dma_rx ::
  "'a rt_serial_device_scheme rt_uart_ops \<Rightarrow> nat \<Rightarrow> nat \<Rightarrow> 'a rt_serial_device_scheme \<Rightarrow>
   (nat \<times> u8 list \<times> 'a rt_serial_device_scheme) option" where
  "serial_dma_rx u buffer sz d =
     (if bufsz (config d) = 0 then
        case serial_rx d of
          RxDma activated \<Rightarrow>
            if \<not> activated then
              Some (sz, [], uart_dma_transmit u buffer (of_nat sz) RT_SERIAL_DMA_RX (d\<lparr>serial_rx := RxDma True\<rparr>))
            else Some (0, [], d\<lparr>kern := rt_set_errno (- RT_EBUSY) (kern d)\<rparr>)
        | _ \<Rightarrow> None
      else
        case serial_rx d of
          RxFifo f \<Rightarrow>
            let bs = bufsz (config d);
                recved = ucast (rt_dma_calc_recved_len bs f) :: u32;
                n = (if of_nat sz < recved then of_nat sz else recved)
            in Some (unat n, dma_rx_copy bs n f, d\<lparr>serial_rx := RxFifo (rt_dma_recv_update_get_index bs n f)\<rparr>)
        | _ \<Rightarrow> None)"

text \<open>After the push: start the transfer if none is under way.\<close>

definition dma_tx_pushed ::
  "'a rt_serial_device_scheme rt_uart_ops \<Rightarrow> nat \<Rightarrow> u8 list \<Rightarrow> err \<Rightarrow> 'a rt_serial_device_scheme \<Rightarrow>
   (nat outcome \<times> u8 list \<times> 'a rt_serial_device_scheme) option" where
  "dma_tx_pushed u buffer data result d =
     (if result = RT_EOK then
        case serial_tx d of
          TxDma activated q \<Rightarrow>
            Some (Ret (length data), [],
              if \<not> activated then uart_dma_transmit u buffer (of_nat (length data)) RT_SERIAL_DMA_TX (d\<lparr>serial_tx := TxDma True q\<rparr>) else d)
        | _ \<Rightarrow> None
      else Some (Ret 0, [], d\<lparr>kern := rt_set_errno result (kern d)\<rparr>))"

definition serial_dma_tx ::
  "'a rt_serial_device_scheme rt_uart_ops \<Rightarrow> nat \<Rightarrow> u8 list \<Rightarrow> 'a rt_serial_device_scheme \<Rightarrow>
   (nat outcome \<times> u8 list \<times> 'a rt_serial_device_scheme) option" where
  "serial_dma_tx u buffer data d =
     (case serial_tx d of
        TxDma activated q \<Rightarrow> do {
          (oc, k) \<leftarrow> rt_data_queue_push no_event q (buffer, of_nat (length data)) RT_WAITING_FOREVER (kern d);
          let d = d\<lparr>kern := k\<rparr>;
          (case oc of Blocked \<Rightarrow> Some (Blocked, data, d) | Ret r \<Rightarrow> dma_tx_pushed u buffer data r d)
        }
      | _ \<Rightarrow> None)"

definition serial_dma_tx_resume ::
  "'a rt_serial_device_scheme rt_uart_ops \<Rightarrow> nat \<Rightarrow> tid \<Rightarrow> u8 list \<Rightarrow> 'a rt_serial_device_scheme \<Rightarrow>
   (nat outcome \<times> u8 list \<times> 'a rt_serial_device_scheme) option" where
  "serial_dma_tx_resume u buffer t data d =
     (case serial_tx d of
        TxDma activated q \<Rightarrow> do {
          (oc, k) \<leftarrow> rt_data_queue_push_resume no_event q (buffer, of_nat (length data)) RT_WAITING_FOREVER t (kern d);
          let d = d\<lparr>kern := k\<rparr>;
          (case oc of Blocked \<Rightarrow> Some (Blocked, data, d) | Ret r \<Rightarrow> dma_tx_pushed u buffer data r d)
        }
      | _ \<Rightarrow> None)"

section \<open>Device interface\<close>

definition rt_serial_init :: "'a rt_serial_device_scheme rt_uart_ops \<Rightarrow> 'a rt_serial_device_scheme \<Rightarrow> (err \<times> 'a rt_serial_device_scheme) option" where
  "rt_serial_init u d =
     (let d = d\<lparr>serial_rx := RxNull, serial_tx := TxNull\<rparr>
      in Some (case uart_configure u of None \<Rightarrow> (RT_EOK, d) | Some f \<Rightarrow> f (config d) d))"

text \<open>
  Opening. The memory that \<open>rt_malloc\<close> returns: \<open>rx_mem\<close> for the receive struct, \<open>tx_mem\<close> the address of the transmit
  struct, \<open>dq_mem\<close> the items of the data queue.
\<close>

record serial_mem =
  rx_mem :: bool
  tx_mem :: "nat option"
  dq_mem :: "(nat \<times> u32) list option"

abbreviation empty_fifo :: "u16 \<Rightarrow> rt_serial_rx_fifo" where
  "empty_fifo sz \<equiv> \<lparr>rx_buffer = replicate (unat sz) 0, put_index = 0, get_index = 0, is_full = False\<rparr>"

definition open_flag_or :: "u16 \<Rightarrow> 'a rt_serial_device_scheme \<Rightarrow> 'a rt_serial_device_scheme" where
  "open_flag_or f d = d\<lparr>dev_open_flag := dev_open_flag d OR f\<rparr>"

definition serial_open_rx ::
  "'a rt_serial_device_scheme rt_uart_ops \<Rightarrow> serial_mem \<Rightarrow> u16 \<Rightarrow> 'a rt_serial_device_scheme \<Rightarrow> 'a rt_serial_device_scheme option" where
  "serial_open_rx u mem oflag d =
     (if serial_rx d = RxNull then
        if has oflag RT_DEVICE_FLAG_INT_RX then
          if rx_mem mem then
            Some (snd (uart_control u RT_DEVICE_CTRL_SET_INT (Some 0x100)
                    (open_flag_or RT_DEVICE_FLAG_INT_RX (d\<lparr>serial_rx := RxFifo (empty_fifo (bufsz (config d)))\<rparr>))))
          else None
        else if has oflag RT_DEVICE_FLAG_DMA_RX then
          if rx_mem mem then
            Some (open_flag_or RT_DEVICE_FLAG_DMA_RX
                   (if bufsz (config d) = 0 then d\<lparr>serial_rx := RxDma False\<rparr>
                    else snd (uart_control u RT_DEVICE_CTRL_CONFIG (Some 0x200) (d\<lparr>serial_rx := RxFifo (empty_fifo (bufsz (config d)))\<rparr>))))
          else None
        else Some d
      else if has oflag RT_DEVICE_FLAG_INT_RX then Some (open_flag_or RT_DEVICE_FLAG_INT_RX d)
      else if has oflag RT_DEVICE_FLAG_DMA_RX then Some (open_flag_or RT_DEVICE_FLAG_DMA_RX d)
      else Some d)"

definition serial_open_tx ::
  "'a rt_serial_device_scheme rt_uart_ops \<Rightarrow> serial_mem \<Rightarrow> u16 \<Rightarrow> 'a rt_serial_device_scheme \<Rightarrow> 'a rt_serial_device_scheme option" where
  "serial_open_tx u mem oflag d =
     (if serial_tx d = TxNull then
        if has oflag RT_DEVICE_FLAG_INT_TX then
          map_option (\<lambda>n. snd (uart_control u RT_DEVICE_CTRL_SET_INT (Some 0x400)
                    (open_flag_or RT_DEVICE_FLAG_INT_TX (d\<lparr>kern := rt_completion_init n (kern d), serial_tx := TxFifo n\<rparr>)))) (tx_mem mem)
        else if has oflag RT_DEVICE_FLAG_DMA_TX then
          map_option (\<lambda>n. open_flag_or RT_DEVICE_FLAG_DMA_TX
                    (d\<lparr>kern := snd (rt_data_queue_init n 8 4 (dq_mem mem) (kern d)), serial_tx := TxDma False n\<rparr>)) (tx_mem mem)
        else Some d
      else if has oflag RT_DEVICE_FLAG_INT_TX then Some (open_flag_or RT_DEVICE_FLAG_INT_TX d)
      else if has oflag RT_DEVICE_FLAG_DMA_TX then Some (open_flag_or RT_DEVICE_FLAG_DMA_TX d)
      else Some d)"

definition rt_serial_open ::
  "'a rt_serial_device_scheme rt_uart_ops \<Rightarrow> serial_mem \<Rightarrow> u16 \<Rightarrow> 'a rt_serial_device_scheme \<Rightarrow> (err \<times> 'a rt_serial_device_scheme) option" where
  "rt_serial_open u mem oflag d =
     (if \<exists>f \<in> {RT_DEVICE_FLAG_DMA_RX, RT_DEVICE_FLAG_DMA_TX, RT_DEVICE_FLAG_INT_RX, RT_DEVICE_FLAG_INT_TX}.
           has oflag f \<and> \<not> has (dev_flag d) f
      then Some (- RT_EIO, d)
      else do {
        let stream_flag = (if has oflag RT_DEVICE_FLAG_STREAM \<or> has (dev_open_flag d) RT_DEVICE_FLAG_STREAM
                           then RT_DEVICE_FLAG_STREAM else 0);
        let d = d\<lparr>dev_open_flag := oflag AND 0xff\<rparr>;
        d \<leftarrow> serial_open_rx u mem oflag d;
        d \<leftarrow> serial_open_tx u mem oflag d;
        Some (RT_EOK, open_flag_or stream_flag d)
      })"

text \<open>Closing; what is given to \<open>rt_free\<close> is not used again.\<close>

definition open_flag_clear :: "u16 \<Rightarrow> 'a rt_serial_device_scheme \<Rightarrow> 'a rt_serial_device_scheme" where
  "open_flag_clear f d = d\<lparr>dev_open_flag := dev_open_flag d AND NOT f\<rparr>"

definition rt_serial_close :: "'a rt_serial_device_scheme rt_uart_ops \<Rightarrow> 'a rt_serial_device_scheme \<Rightarrow> (err \<times> 'a rt_serial_device_scheme) option" where
  "rt_serial_close u d =
     (if dev_ref_count d > 1 then Some (RT_EOK, d)
      else
        let d = (if has (dev_open_flag d) RT_DEVICE_FLAG_INT_RX then
                   snd (uart_control u RT_DEVICE_CTRL_CLR_INT (Some 0x100) (open_flag_clear RT_DEVICE_FLAG_INT_RX (d\<lparr>serial_rx := RxNull\<rparr>)))
                 else if has (dev_open_flag d) RT_DEVICE_FLAG_DMA_RX then
                   open_flag_clear RT_DEVICE_FLAG_DMA_RX
                     ((snd (uart_control u RT_DEVICE_CTRL_CLR_INT (Some 0x200) d))\<lparr>serial_rx := RxNull\<rparr>)
                 else d);
            d = (if has (dev_open_flag d) RT_DEVICE_FLAG_INT_TX then
                   snd (uart_control u RT_DEVICE_CTRL_CLR_INT (Some 0x400) (open_flag_clear RT_DEVICE_FLAG_INT_TX (d\<lparr>serial_tx := TxNull\<rparr>)))
                 else if has (dev_open_flag d) RT_DEVICE_FLAG_DMA_TX then
                   open_flag_clear RT_DEVICE_FLAG_DMA_TX (d\<lparr>serial_tx := TxNull\<rparr>)
                 else d)
        in Some (RT_EOK, d))"

definition rt_serial_read ::
  "'a rt_serial_device_scheme rt_uart_ops \<Rightarrow> nat \<Rightarrow> nat \<Rightarrow> 'a rt_serial_device_scheme \<Rightarrow> (nat \<times> u8 list \<times> 'a rt_serial_device_scheme) option" where
  "rt_serial_read u buffer sz d =
     (if sz = 0 then Some (0, [], d)
      else if has (dev_open_flag d) RT_DEVICE_FLAG_INT_RX then
        case serial_rx d of
          RxFifo f \<Rightarrow> map_option (\<lambda>(bs, f). (length bs, bs, d\<lparr>serial_rx := RxFifo f\<rparr>)) (serial_int_rx (bufsz (config d)) sz f)
        | _ \<Rightarrow> None
      else if has (dev_open_flag d) RT_DEVICE_FLAG_DMA_RX then serial_dma_rx u buffer sz d
      else let (bs, d) = serial_poll_rx u sz d in Some (length bs, bs, d))"

definition rt_serial_write ::
  "'a rt_serial_device_scheme rt_uart_ops \<Rightarrow> nat \<Rightarrow> u8 list \<Rightarrow> 'a rt_serial_device_scheme \<Rightarrow>
   (nat outcome \<times> u8 list \<times> 'a rt_serial_device_scheme) option" where
  "rt_serial_write u buffer data d =
     (if data = [] then Some (Ret 0, [], d)
      else if has (dev_open_flag d) RT_DEVICE_FLAG_INT_TX then
        case serial_tx d of
          TxFifo n \<Rightarrow> map_option (\<lambda>(oc, rest, d). (case oc of Ret _ \<Rightarrow> Ret (length data) | Blocked \<Rightarrow> Blocked, rest, d)) (serial_int_tx u n data d)
        | _ \<Rightarrow> None
      else if has (dev_open_flag d) RT_DEVICE_FLAG_DMA_TX then serial_dma_tx u buffer data d
      else Some (Ret (length data), [], serial_poll_tx u data d))"

text \<open>\<open>cfg_at\<close> is the configuration stored at an address.\<close>

definition rt_serial_control ::
  "'a rt_serial_device_scheme rt_uart_ops \<Rightarrow> (nat \<Rightarrow> serial_configure) \<Rightarrow> int \<Rightarrow> nat option \<Rightarrow> 'a rt_serial_device_scheme \<Rightarrow>
   (err \<times> 'a rt_serial_device_scheme) option" where
  "rt_serial_control u cfg_at cmd args d =
     (if cmd = RT_DEVICE_CTRL_SUSPEND then Some (RT_EOK, d\<lparr>dev_flag := dev_flag d OR RT_DEVICE_FLAG_SUSPENDED\<rparr>)
      else if cmd = RT_DEVICE_CTRL_RESUME then Some (RT_EOK, d\<lparr>dev_flag := dev_flag d AND NOT RT_DEVICE_FLAG_SUSPENDED\<rparr>)
      else if cmd = RT_DEVICE_CTRL_CONFIG then
        (case args of
           None \<Rightarrow> Some (RT_EOK, d)
         | Some a \<Rightarrow>
             let pconfig = cfg_at a
             in if bufsz pconfig \<noteq> bufsz (config d) \<and> dev_ref_count d \<noteq> 0 then Some (RT_EBUSY, d)
                else
                  let d = d\<lparr>config := pconfig\<rparr>
                  in if dev_ref_count d \<noteq> 0
                     then map_option (\<lambda>f. (RT_EOK, snd (f pconfig d))) (uart_configure u)
                     else Some (RT_EOK, d))
      else Some (uart_control u cmd args d))"

definition serial_ops ::
  "'a rt_serial_device_scheme rt_uart_ops \<Rightarrow> serial_mem \<Rightarrow> (nat \<Rightarrow> serial_configure) \<Rightarrow> 'a rt_serial_device_scheme device_ops" where
  "serial_ops u mem cfg_at =
     \<lparr>op_init = Some (rt_serial_init u), op_open = Some (rt_serial_open u mem), op_close = Some (rt_serial_close u),
      op_read = Some (rt_serial_read u), op_write = Some (rt_serial_write u), op_control = Some (rt_serial_control u cfg_at)\<rparr>"

definition rt_hw_serial_register :: "string \<Rightarrow> u16 \<Rightarrow> 'a rt_serial_device_scheme \<Rightarrow> err \<times> 'a rt_serial_device_scheme" where
  "rt_hw_serial_register name flag d =
     rt_device_register name flag (d\<lparr>dev_type := 0, dev_rx_indicate := None, dev_tx_complete := None\<rparr>)"

section \<open>Interrupts\<close>

definition rx_store :: "u16 \<Rightarrow> u8 \<Rightarrow> rt_serial_rx_fifo \<Rightarrow> rt_serial_rx_fifo option" where
  "rx_store sz ch f =
     (if unat (put_index f) < length (rx_buffer f) then
        let f = f\<lparr>rx_buffer := (rx_buffer f)[unat (put_index f) := ch], put_index := fifo_next sz (put_index f)\<rparr>
        in Some (if put_index f = get_index f then f\<lparr>get_index := fifo_next sz (get_index f), is_full := True\<rparr> else f)
      else None)"

partial_function (option) serial_rx_loop ::
  "'a rt_serial_device_scheme rt_uart_ops \<Rightarrow> 'a rt_serial_device_scheme \<Rightarrow> 'a rt_serial_device_scheme option" where
  "serial_rx_loop u d =
     (let (ch, d) = uart_getc u d
      in if ch = - 1 then Some d
         else case serial_rx d of
                RxFifo f \<Rightarrow> Option.bind (rx_store (bufsz (config d)) (word_of_int ch) f) (\<lambda>f. serial_rx_loop u (d\<lparr>serial_rx := RxFifo f\<rparr>))
              | _ \<Rightarrow> None)"

definition serial_rx_ind ::
  "'a rt_serial_device_scheme rt_uart_ops \<Rightarrow> 'a rt_serial_device_scheme callbacks \<Rightarrow> 'a rt_serial_device_scheme \<Rightarrow> 'a rt_serial_device_scheme option" where
  "serial_rx_ind u cb d = do {
     d \<leftarrow> serial_rx_loop u d;
     (case dev_rx_indicate d of
        None \<Rightarrow> Some d
      | Some h \<Rightarrow>
          (case serial_rx d of
             RxFifo f \<Rightarrow>
               let p = ucast (put_index f) :: u32; g = ucast (get_index f);
                   rx_length = (if p \<ge> g then p - g else ucast (bufsz (config d)) - (g - p))
               in Some (if rx_length \<noteq> 0 then cb_rx_indicate cb h rx_length d else d)
           | _ \<Rightarrow> None))
   }"

definition serial_tx_dmadone ::
  "'a rt_serial_device_scheme rt_uart_ops \<Rightarrow> 'a rt_serial_device_scheme callbacks \<Rightarrow> 'a rt_serial_device_scheme \<Rightarrow> 'a rt_serial_device_scheme option" where
  "serial_tx_dmadone u cb d =
     (case serial_tx d of
        TxDma activated q \<Rightarrow> do {
          (oc, k) \<leftarrow> rt_data_queue_pop no_event q 0 (kern d);
          let d = d\<lparr>kern := k\<rparr>;
          let d = (case rt_data_queue_peak q (kern d) of
                     (r, Some (p, n)) \<Rightarrow> uart_dma_transmit u p n RT_SERIAL_DMA_TX (d\<lparr>serial_tx := TxDma True q\<rparr>)
                   | (r, None) \<Rightarrow> d\<lparr>serial_tx := TxDma False q\<rparr>);
          (case dev_tx_complete d of
             None \<Rightarrow> Some d
           | Some h \<Rightarrow> (case oc of Ret (r, Some (p, n)) \<Rightarrow> Some (cb_tx_complete cb h p d) | _ \<Rightarrow> None))
        }
      | _ \<Rightarrow> None)"

definition serial_rx_dmadone ::
  "'a rt_serial_device_scheme callbacks \<Rightarrow> u32 \<Rightarrow> 'a rt_serial_device_scheme \<Rightarrow> 'a rt_serial_device_scheme option" where
  "serial_rx_dmadone cb n d =
     (let sz = bufsz (config d)
      in if sz = 0 then
           (case (serial_rx d, dev_rx_indicate d) of
              (RxDma _, Some h) \<Rightarrow> Some ((cb_rx_indicate cb h n d)\<lparr>serial_rx := RxDma False\<rparr>)
            | _ \<Rightarrow> None)
         else
           (case serial_rx d of
              RxFifo f \<Rightarrow>
                let f = rt_dma_recv_update_put_index sz n f; d = d\<lparr>serial_rx := RxFifo f\<rparr>
                in Some (case dev_rx_indicate d of None \<Rightarrow> d | Some h \<Rightarrow> cb_rx_indicate cb h (ucast (rt_dma_calc_recved_len sz f)) d)
            | _ \<Rightarrow> None))"

text \<open>The event is an \<open>int\<close> with the length of a DMA transfer in its upper 24 bits, shifted as a signed number.\<close>

definition rt_hw_serial_isr ::
  "'a rt_serial_device_scheme rt_uart_ops \<Rightarrow> 'a rt_serial_device_scheme callbacks \<Rightarrow> u32 \<Rightarrow> 'a rt_serial_device_scheme \<Rightarrow>
   'a rt_serial_device_scheme option" where
  "rt_hw_serial_isr u cb event d =
     (let e = event AND 0xff
      in if e = 1 then serial_rx_ind u cb d
         else if e = 2 then (case serial_tx d of TxFifo n \<Rightarrow> Some (d\<lparr>kern := rt_completion_done n (kern d)\<rparr>) | _ \<Rightarrow> None)
         else if e = 4 then serial_tx_dmadone u cb d
         else if e = 3 then serial_rx_dmadone cb (signed_drop_bit 8 event) d
         else Some d)"


section \<open>The receive FIFO\<close>

text \<open>The FIFO in interrupt mode: one place of the ring stays free. \<open>fifo_len\<close> is the number of bytes in it.\<close>

definition fifo_len :: "u16 \<Rightarrow> rt_serial_rx_fifo \<Rightarrow> nat" where
  "fifo_len sz f = (unat (put_index f) + unat sz - unat (get_index f)) mod unat sz"

definition fifo_bytes :: "u16 \<Rightarrow> rt_serial_rx_fifo \<Rightarrow> u8 list" where
  "fifo_bytes sz f = cyc (rx_buffer f) (unat (get_index f)) (fifo_len sz f)"

definition fifo_ok :: "u16 \<Rightarrow> rt_serial_rx_fifo \<Rightarrow> bool" where
  "fifo_ok sz f \<longleftrightarrow> 2 \<le> unat sz \<and> length (rx_buffer f) = unat sz \<and> put_index f < sz \<and> get_index f < sz \<and>
     (is_full f \<longrightarrow> fifo_len sz f = unat sz - 1)"

lemma ring_distance:
  assumes "g < n" "l < (n :: nat)"
  shows "((g + l) mod n + n - g) mod n = l"
proof (cases "g + l < n")
  case False
  then have "(g + l) mod n = g + l - n" using assms by (simp add: mod_if)
  then show ?thesis using assms False by simp
qed simp

lemma ring_end:
  assumes "g < n" "p < (n :: nat)"
  shows "(g + (p + n - g) mod n) mod n = p"
  using assms by (simp add: mod_add_right_eq)

lemma length_fifo_bytes [simp]: "length (fifo_bytes sz f) = fifo_len sz f"
  by (simp add: fifo_bytes_def)

lemma fifo_okD:
  assumes "fifo_ok sz f"
  shows "unat (put_index f) < unat sz" "unat (get_index f) < unat sz" "length (rx_buffer f) = unat sz" "2 \<le> unat sz"
    "fifo_len sz f < unat sz" "(unat (get_index f) + fifo_len sz f) mod unat sz = unat (put_index f)"
    "unat (fifo_next sz (put_index f)) = Suc (unat (put_index f)) mod unat sz"
    "unat (fifo_next sz (get_index f)) = Suc (unat (get_index f)) mod unat sz"
  using assms offset_step [of "put_index f" sz] offset_step [of "get_index f" sz]
    ring_end [of "unat (get_index f)" "unat sz" "unat (put_index f)"]
  by (simp_all add: fifo_ok_def word_less_nat_alt fifo_len_def fifo_next_def)

lemma fifo_next_less: "fifo_ok sz f \<Longrightarrow> fifo_next sz (put_index f) < sz" "fifo_ok sz f \<Longrightarrow> fifo_next sz (get_index f) < sz"
  using fifo_okD [of sz f] by (simp_all add: word_less_nat_alt)

lemma fifo_empty: "fifo_ok sz f \<Longrightarrow> get_index f = put_index f \<and> \<not> is_full f \<longleftrightarrow> fifo_bytes sz f = []"
proof -
  assume ok: "fifo_ok sz f"
  note d = fifo_okD [OF ok]
  have "fifo_len sz f = 0 \<longleftrightarrow> get_index f = put_index f"
  proof
    assume "get_index f = put_index f"
    then show "fifo_len sz f = 0" by (simp add: fifo_len_def)
  next
    assume "fifo_len sz f = 0"
    then have "unat (get_index f) = unat (put_index f)" using d(2,6) by simp
    then show "get_index f = put_index f" by (simp add: word_unat_eq_iff)
  qed
  moreover have "is_full f \<Longrightarrow> fifo_len sz f \<noteq> 0" using ok d(4) by (auto simp: fifo_ok_def)
  ultimately show ?thesis by (metis length_0_conv length_fifo_bytes)
qed

lemma rx_pop_spec:
  assumes "fifo_ok sz f"
  shows "fifo_bytes sz f = [] \<Longrightarrow> rx_pop sz f = Some (None, f)"
    "fifo_bytes sz f \<noteq> [] \<Longrightarrow> \<exists>f'. rx_pop sz f = Some (Some (hd (fifo_bytes sz f)), f') \<and> fifo_ok sz f' \<and> fifo_bytes sz f' = tl (fifo_bytes sz f)"
proof -
  note d = fifo_okD [OF assms]
  show "fifo_bytes sz f = [] \<Longrightarrow> rx_pop sz f = Some (None, f)" using fifo_empty [OF assms] by (simp add: rx_pop_def)
  assume ne: "fifo_bytes sz f \<noteq> []"
  let ?f = "f\<lparr>get_index := fifo_next sz (get_index f), is_full := False\<rparr>"
  obtain l where l: "fifo_len sz f = Suc l" using ne by (metis length_0_conv length_fifo_bytes not0_implies_Suc)
  have p: "rx_pop sz f = Some (Some (rx_buffer f ! unat (get_index f)), ?f)"
    using ne fifo_empty [OF assms] d(2,3) unfolding rx_pop_def by simp
  have "(Suc (unat (get_index f)) mod unat sz + l) mod unat sz = unat (put_index f)"
    using d(6) l by (simp add: mod_add_left_eq)
  then have len: "fifo_len sz ?f = l"
    using ring_distance [of "Suc (unat (get_index f)) mod unat sz" "unat sz" l] d(4,5,8) l by (simp add: fifo_len_def)
  have "cyc (rx_buffer f) (Suc (unat (get_index f)) mod unat sz) l = cyc (rx_buffer f) (Suc (unat (get_index f))) l"
    using cyc_mod [of "rx_buffer f" "Suc (unat (get_index f))" l] d(3) by simp
  then have "fifo_bytes sz f = rx_buffer f ! unat (get_index f) # fifo_bytes sz ?f"
    using l len d(2,3,8) by (simp add: fifo_bytes_def cyc_get)
  moreover have "fifo_ok sz ?f" using assms fifo_next_less(2) [OF assms] by (simp add: fifo_ok_def)
  ultimately show "\<exists>f'. rx_pop sz f = Some (Some (hd (fifo_bytes sz f)), f') \<and> fifo_ok sz f' \<and> fifo_bytes sz f' = tl (fifo_bytes sz f)"
    using p by simp
qed

lemma serial_int_rx_spec:
  assumes "fifo_ok sz f"
  shows "\<exists>f'. serial_int_rx sz n f = Some (take n (fifo_bytes sz f), f') \<and> fifo_ok sz f' \<and> fifo_bytes sz f' = drop n (fifo_bytes sz f)"
  using assms
proof (induction n arbitrary: f)
  case (Suc n)
  show ?case
  proof (cases "fifo_bytes sz f")
    case Nil
    then show ?thesis using rx_pop_spec(1) [OF Suc.prems] Suc.prems by simp
  next
    case (Cons c cs)
    then obtain f1 where f1: "rx_pop sz f = Some (Some c, f1)" "fifo_ok sz f1" "fifo_bytes sz f1 = cs"
      using rx_pop_spec(2) [OF Suc.prems] by auto
    then show ?thesis using Suc.IH [OF f1(2)] Cons by auto
  qed
qed auto

text \<open>Storing a byte: the oldest one gives way when \<open>sz - 1\<close> are there.\<close>

lemma rx_store_spec:
  assumes "fifo_ok sz f"
  shows "\<exists>f'. rx_store sz c f = Some f' \<and> fifo_ok sz f' \<and>
    fifo_bytes sz f' = (if fifo_len sz f = unat sz - 1 then tl (fifo_bytes sz f) else fifo_bytes sz f) @ [c]"
proof -
  note d = fifo_okD [OF assms]
  let ?g = "unat (get_index f)" and ?p = "unat (put_index f)" and ?n = "unat sz" and ?l = "fifo_len sz f"
  let ?f = "f\<lparr>rx_buffer := (rx_buffer f)[?p := c], put_index := fifo_next sz (put_index f)\<rparr>"
  let ?f' = "?f\<lparr>get_index := fifo_next sz (get_index f), is_full := True\<rparr>"
  have put: "(?g + Suc ?l) mod ?n = Suc ?p mod ?n" using d(6) by (metis add_Suc_right mod_Suc_eq)
  have bytes: "cyc ((rx_buffer f)[?p := c]) ?g (Suc ?l) = fifo_bytes sz f @ [c]"
    using cyc_put [of ?l "rx_buffer f" ?g c] d(3,5,6) by (simp add: fifo_bytes_def)
  have hit: "fifo_next sz (put_index f) = get_index f \<longleftrightarrow> ?l = ?n - 1"
  proof -
    have "Suc ?p mod ?n = ?g \<longleftrightarrow> (?g + Suc ?l) mod ?n = (?g + 0) mod ?n" using put d(2) by simp
    also have "\<dots> \<longleftrightarrow> Suc ?l = ?n"
    proof (cases "Suc ?l < ?n")
      case False
      then have "Suc ?l = ?n" using d(5) by simp
      then show ?thesis by (metis add_0_right mod_add_self2)
    qed (use mod_add_distinct [of 0 "Suc ?l" ?n ?g] in auto)
    finally show ?thesis using d(4,7) by (auto simp: word_unat_eq_iff)
  qed
  show ?thesis
  proof (cases "?l = ?n - 1")
    case True
    then have s: "rx_store sz c f = Some ?f'" using hit d(1,3) by (simp add: rx_store_def Let_def)
    have "(Suc ?g mod ?n + ?l) mod ?n = Suc ?p mod ?n" using put by (simp add: mod_add_left_eq)
    then have len: "fifo_len sz ?f' = ?l"
      using ring_distance [of "Suc ?g mod ?n" ?n ?l] d(4,5,7,8) by (simp add: fifo_len_def)
    have "fifo_bytes sz ?f' = tl (cyc ((rx_buffer f)[?p := c]) ?g (Suc ?l))"
      using len d(3,8) cyc_mod [of "(rx_buffer f)[?p := c]" "Suc ?g" ?l] by (simp add: fifo_bytes_def cyc_get)
    then have "fifo_bytes sz ?f' = tl (fifo_bytes sz f) @ [c]"
      using bytes True d(4) by (cases "fifo_bytes sz f") (auto dest!: arg_cong [of _ _ length])
    moreover have "fifo_ok sz ?f'" using assms fifo_next_less [OF assms] len True by (simp add: fifo_ok_def)
    ultimately show ?thesis using s True by simp
  next
    case False
    then have s: "rx_store sz c f = Some ?f" using hit d(1,3) by (simp add: rx_store_def Let_def)
    have "Suc ?l < ?n" using False d(5) by simp
    from ring_distance [OF d(2) this] have len: "fifo_len sz ?f = Suc ?l"
      using put d(7) by (simp add: fifo_len_def [of sz ?f])
    moreover have "fifo_ok sz ?f" using assms fifo_next_less [OF assms] False len by (auto simp: fifo_ok_def)
    ultimately show ?thesis using s False bytes by (simp add: fifo_bytes_def)
  qed
qed


definition newest :: "nat \<Rightarrow> 'a list \<Rightarrow> 'a list" where
  "newest n xs = drop (length xs - n) xs"

lemma newest_short: "length xs \<le> n \<Longrightarrow> newest n xs = xs"
  by (simp add: newest_def)

lemma newest_append: "newest n (newest n xs @ ys) = newest n (xs @ ys)"
  by (cases "length xs \<le> n") (simp_all add: newest_def add.commute)

lemma newest_snoc: "length xs \<le> n \<Longrightarrow> 0 < n \<Longrightarrow> (if length xs = n then tl xs else xs) @ [c] = newest n (xs @ [c])"
  by (cases xs) (auto simp: newest_def Suc_diff_le)

text \<open>
  What the framework needs of a hardware driver it receives from: in the states \<open>ok\<close>, \<open>getc\<close> takes one byte after
  the other of what the hardware holds (\<open>pending\<close>), then returns -1; it leaves the framework's own part of the
  struct alone. \<open>rest\<close> is what else it leaves alone.
\<close>

locale uart_source =
  fixes u :: "'a rt_serial_device_scheme rt_uart_ops" and ok :: "'a rt_serial_device_scheme \<Rightarrow> bool"
    and pending :: "'a rt_serial_device_scheme \<Rightarrow> u8 list" and rest :: "'a rt_serial_device_scheme \<Rightarrow> 'r"
  assumes getc_nil: "ok d \<Longrightarrow> pending d = [] \<Longrightarrow> \<exists>d'. uart_getc u d = (- 1, d') \<and> ok d' \<and> pending d' = [] \<and> serial_rx d' = serial_rx d \<and>
      config d' = config d \<and> rest d' = rest d"
    and getc_Cons: "ok d \<Longrightarrow> pending d = c # cs \<Longrightarrow> \<exists>d'. uart_getc u d = (uint c, d') \<and> ok d' \<and> pending d' = cs \<and> serial_rx d' = serial_rx d \<and>
      config d' = config d \<and> rest d' = rest d"
    and frame: "pending (d\<lparr>serial_rx := r\<rparr>) = pending d" "rest (d\<lparr>serial_rx := r\<rparr>) = rest d" "ok (d\<lparr>serial_rx := r\<rparr>) = ok d"
begin

text \<open>The interrupt: everything pending goes into the FIFO, which keeps the newest bytes; the loop ends.\<close>

lemma rx_loop:
  assumes "serial_rx d = RxFifo f" "fifo_ok (bufsz (config d)) f" "ok d"
  shows "\<exists>d' f'. serial_rx_loop u d = Some d' \<and> serial_rx d' = RxFifo f' \<and> fifo_ok (bufsz (config d)) f' \<and> ok d' \<and> pending d' = [] \<and>
    fifo_bytes (bufsz (config d)) f' = newest (unat (bufsz (config d)) - 1) (fifo_bytes (bufsz (config d)) f @ pending d) \<and>
    config d' = config d \<and> rest d' = rest d"
  using assms
proof (induction "pending d" arbitrary: d f)
  case Nil
  note ok = fifo_okD [OF Nil.prems(2)]
  have "newest (unat (bufsz (config d)) - 1) (fifo_bytes (bufsz (config d)) f) = fifo_bytes (bufsz (config d)) f"
    using ok(4,5) by (intro newest_short) simp
  moreover obtain d' where "uart_getc u d = (- 1, d')" "ok d'" "pending d' = []" "serial_rx d' = serial_rx d" "config d' = config d" "rest d' = rest d"
    using getc_nil [OF Nil.prems(3) Nil.hyps [symmetric]] by blast
  ultimately show ?case using Nil by (subst serial_rx_loop.simps) simp
next
  case (Cons c cs)
  let ?sz = "bufsz (config d)"
  note ok = fifo_okD [OF Cons.prems(2)]
  obtain d1 where g: "uart_getc u d = (uint c, d1)" "pending d1 = cs" "serial_rx d1 = serial_rx d" "config d1 = config d" "rest d1 = rest d"
    and k: "ok d1"
    using getc_Cons [OF Cons.prems(3) Cons.hyps(2) [symmetric]] by blast
  obtain f1 where f1: "rx_store ?sz c f = Some f1" "fifo_ok ?sz f1"
    "fifo_bytes ?sz f1 = (if fifo_len ?sz f = unat ?sz - 1 then tl (fifo_bytes ?sz f) else fifo_bytes ?sz f) @ [c]"
    using rx_store_spec [OF Cons.prems(2)] by blast
  have b: "fifo_bytes ?sz f1 = newest (unat ?sz - 1) (fifo_bytes ?sz f @ [c])"
    using f1(3) newest_snoc [of "fifo_bytes ?sz f" "unat ?sz - 1" c] ok(4,5) by simp
  let ?d = "d1\<lparr>serial_rx := RxFifo f1\<rparr>"
  have "uint c \<noteq> - 1" using uint_ge_0 [of c] by linarith
  then have l: "serial_rx_loop u d = serial_rx_loop u ?d"
    using g f1(1) Cons.prems(1) by (subst serial_rx_loop.simps) simp
  have "fifo_ok (bufsz (config ?d)) f1" "cs = pending ?d" "serial_rx ?d = RxFifo f1" "ok ?d" using f1(2) g(2,4) k frame by simp_all
  from Cons.hyps(1) [OF this(2,3,1,4)] obtain d' f' where "serial_rx_loop u ?d = Some d'" "serial_rx d' = RxFifo f'" "fifo_ok ?sz f'"
    "ok d'" "pending d' = []" "fifo_bytes ?sz f' = newest (unat ?sz - 1) (fifo_bytes ?sz f1 @ cs)" "config d' = config d" "rest d' = rest d"
    using g frame by auto
  then show ?case using l b Cons.hyps(2) newest_append [of "unat ?sz - 1" "fifo_bytes ?sz f @ [c]" cs]
    by (intro exI [of _ d'] exI [of _ f']) (simp flip: Cons.hyps(2))
qed

end

text \<open>Hardware that always takes a byte is never waited for.\<close>

lemma serial_int_tx_always:
  assumes "\<And>c d. fst (uart_putc u c d) \<noteq> - 1"
  shows "serial_int_tx u n data d = Some (Ret (), [], fold (\<lambda>c d. snd (uart_putc u c d)) data d)"
proof (induction data arbitrary: d)
  case (Cons c cs)
  then show ?case using assms [of c d] by (subst serial_int_tx.simps) (auto split: prod.splits)
qed (simp add: serial_int_tx.simps)

section \<open>Opening twice\<close>

text \<open>
  C39. A second open of a serial device takes away the mode of the first. While one user reads in
  interrupt mode (the bytes are in the FIFO), another opens the device for polling: the open succeeds,
  but it replaces the open flags, and from then on every read goes to the hardware and none to the
  FIFO. When both users have closed the device, its FIFO has still not been given back.
\<close>

theorem serial_reopen_loses_mode:
  fixes d :: "'a rt_serial_device_scheme" and u mem cfg_at
  assumes "has (dev_flag d) RT_DEVICE_FLAG_ACTIVATED" "\<not> has (dev_flag d) RT_DEVICE_FLAG_STANDALONE" "dev_ref_count d = 1"
    and "serial_rx d = RxFifo f" "oflag AND 0xff00 = 0"
  defines "ops \<equiv> serial_ops u mem cfg_at"
  shows "\<exists>d1 d2 d3. rt_device_open ops oflag d = Some (RT_EOK, d1) \<and> serial_rx d1 = RxFifo f \<and>
    (\<forall>buffer n. 0 < n \<longrightarrow>
      rt_device_read ops buffer n d1 = (let (bs, d') = serial_poll_rx u n d1 in Some (length bs, bs, d'))) \<and>
    rt_device_close ops d1 = Some (RT_EOK, d2) \<and> rt_device_close ops d2 = Some (RT_EOK, d3) \<and>
    dev_ref_count d3 = 0 \<and> serial_rx d3 = RxFifo f"
proof -
  have mask: "w AND m = 0" if "w AND c = 0" "m AND c = m" for w m c :: u16
  proof -
    have "w AND m = w AND (m AND c)" using that(2) by simp
    also have "\<dots> = (w AND c) AND m" by (simp add: ac_simps)
    finally show ?thesis using that(1) by simp
  qed
  have z: "oflag AND 0x100 = 0" "oflag AND 0x200 = 0" "oflag AND 0x400 = 0" "oflag AND 0x800 = 0"
    by (rule mask [OF assms(5)], simp)+
  define fl where "fl = (oflag AND 0xff) OR (if has oflag RT_DEVICE_FLAG_STREAM \<or> has (dev_open_flag d) RT_DEVICE_FLAG_STREAM then 0x40 else 0) OR RT_DEVICE_OFLAG_OPEN"
  have "fl AND 0xff00 = 0" by (simp add: fl_def bit.conj_disj_distrib2 and.assoc)
  from mask [OF this] have f: "fl AND 0x100 = 0" "fl AND 0x200 = 0" "fl AND 0x400 = 0" "fl AND 0x800 = 0" by simp_all
  let ?d1 = "d\<lparr>dev_open_flag := fl, dev_ref_count := 2\<rparr>"
  have "rt_serial_open u mem oflag d = Some (RT_EOK, d\<lparr>dev_open_flag := (oflag AND 0xff) OR
      (if has oflag RT_DEVICE_FLAG_STREAM \<or> has (dev_open_flag d) RT_DEVICE_FLAG_STREAM then 0x40 else 0)\<rparr>)"
    using z assms(4) by (simp add: rt_serial_open_def serial_open_rx_def serial_open_tx_def open_flag_or_def Let_def)
  then have o: "rt_device_open ops oflag d = Some (RT_EOK, ?d1)"
    using assms(1-3) by (simp add: rt_device_open_def open_init_def ops_def serial_ops_def fl_def or.assoc)
  have r: "rt_device_read ops buffer n ?d1 = (let (bs, d') = serial_poll_rx u n ?d1 in Some (length bs, bs, d'))" if "0 < n" for buffer n
    using that f by (simp add: rt_device_read_def ops_def serial_ops_def rt_serial_read_def)
  let ?d2 = "d\<lparr>dev_open_flag := fl, dev_ref_count := 1\<rparr>"
  have c1: "rt_device_close ops ?d1 = Some (RT_EOK, ?d2)" by (simp add: rt_device_close_def)
  have c2: "rt_device_close ops ?d2 = Some (RT_EOK, d\<lparr>dev_open_flag := 0, dev_ref_count := 0\<rparr>)"
    using f by (simp add: rt_device_close_def ops_def serial_ops_def rt_serial_close_def)
  show ?thesis using o r c1 c2 assms(4) by (intro exI [of _ ?d1] exI [of _ ?d2] exI [of _ "d\<lparr>dev_open_flag := 0, dev_ref_count := 0\<rparr>"]) simp
qed


text \<open>A serial device with a FIFO of 8 bytes, opened once in interrupt mode; its hardware holds nothing.\<close>

definition demo_uart :: "rt_serial_device rt_uart_ops" where
  "demo_uart = \<lparr>uart_configure = None, uart_control = (\<lambda>_ _ d. (0, d)), uart_putc = (\<lambda>_ d. (1, d)),
     uart_getc = (\<lambda>d. (- 1, d)), uart_dma_transmit = (\<lambda>_ _ _ d. d)\<rparr>"

definition demo_serial :: "rt_serial_device" where
  "demo_serial =
     \<lparr>kern = demo_kernel, dev_id = 0, dev_type = 0, dev_flag = 0x113, dev_open_flag = 0x10b, dev_ref_count = 1,
      dev_rx_indicate = None, dev_tx_complete = None,
      config = \<lparr>baud_rate = 115200, data_bits = 8, stop_bits = 0, parity = 0, bit_order = 0, invert = 0, bufsz = 8\<rparr>,
      serial_rx = RxFifo \<lparr>rx_buffer = [65, 66, 0, 0, 0, 0, 0, 0], put_index = 2, get_index = 0, is_full = False\<rparr>,
      serial_tx = TxNull\<rparr>"

theorem serial_reopen_loses_mode_witness:
  "\<exists>d1. rt_device_open (serial_ops demo_uart \<lparr>rx_mem = True, tx_mem = None, dq_mem = None\<rparr> (\<lambda>_. config demo_serial)) 3 demo_serial = Some (RT_EOK, d1) \<and>
     serial_rx d1 = RxFifo \<lparr>rx_buffer = [65, 66, 0, 0, 0, 0, 0, 0], put_index = 2, get_index = 0, is_full = False\<rparr> \<and>
     rt_device_read (serial_ops demo_uart \<lparr>rx_mem = True, tx_mem = None, dq_mem = None\<rparr> (\<lambda>_. config demo_serial)) 0 2 d1 = Some (0, [], d1)"
proof -
  have "serial_poll_rx demo_uart 2 d = ([], d)" for d by (simp add: demo_uart_def numeral_2_eq_2)
  then show ?thesis
    using serial_reopen_loses_mode [of demo_serial "\<lparr>rx_buffer = [65, 66, 0, 0, 0, 0, 0, 0], put_index = 2, get_index = 0, is_full = False\<rparr>" 3
        demo_uart "\<lparr>rx_mem = True, tx_mem = None, dq_mem = None\<rparr>" "\<lambda>_. config demo_serial"]
    by (fastforce simp: demo_serial_def)
qed

section \<open>Receiving by DMA\<close>

text \<open>The FIFO in DMA mode, where the hardware fills the ring and no place stays free.\<close>

definition dma_ok :: "u16 \<Rightarrow> rt_serial_rx_fifo \<Rightarrow> bool" where
  "dma_ok sz f \<longleftrightarrow> 0 < sz \<and> unat sz \<le> 32768 \<and> put_index f < sz \<and> get_index f < sz \<and> (is_full f \<longrightarrow> get_index f = put_index f)"

definition dma_len :: "u16 \<Rightarrow> rt_serial_rx_fifo \<Rightarrow> nat" where
  "dma_len sz f = (if put_index f = get_index f then if is_full f then unat sz else 0
     else (unat (put_index f) + unat sz - unat (get_index f)) mod unat sz)"

lemma calc_recved_len:
  assumes "dma_ok sz f"
  shows "unat (rt_dma_calc_recved_len sz f) = dma_len sz f"
proof -
  have lt: "unat (put_index f) < unat sz" "unat (get_index f) < unat sz" using assms by (simp_all add: dma_ok_def word_less_nat_alt)
  consider "put_index f = get_index f" | "get_index f < put_index f" | "put_index f < get_index f" by fastforce
  then show ?thesis
  proof cases
    case 2
    then have g: "unat (get_index f) < unat (put_index f)" by (simp add: word_less_nat_alt)
    then have "(unat (put_index f) + unat sz - unat (get_index f)) mod unat sz = unat (put_index f) - unat (get_index f)"
      using lt by (simp add: mod_if)
    then show ?thesis using 2 by (simp add: rt_dma_calc_recved_len_def serial_fifo_calc_recved_len_def dma_len_def unat_sub less_imp_le)
  next
    case 3
    then have g: "unat (put_index f) < unat (get_index f)" by (simp add: word_less_nat_alt)
    have s: "unat (get_index f - put_index f) = unat (get_index f) - unat (put_index f)" using 3 by (simp add: unat_sub less_imp_le)
    then have "get_index f - put_index f \<le> sz" using lt by (simp add: word_le_nat_alt)
    then have "unat (sz - (get_index f - put_index f)) = unat sz - (unat (get_index f) - unat (put_index f))" using s by (simp add: unat_sub)
    then show ?thesis using 3 g lt by (auto simp: rt_dma_calc_recved_len_def serial_fifo_calc_recved_len_def dma_len_def)
  qed (simp add: rt_dma_calc_recved_len_def serial_fifo_calc_recved_len_def dma_len_def)
qed


lemma dma_len_eq:
  assumes "dma_ok sz f"
  shows "dma_len sz f = (if is_full f then unat sz else (unat (put_index f) + unat sz - unat (get_index f)) mod unat sz)"
  using assms by (auto simp: dma_len_def dma_ok_def)

lemma index_add:
  fixes i sz :: u16
  assumes "unat i < n" "l \<le> n" "n \<le> 32768"
  shows "unat (i + of_nat l) = unat i + l"
  using assms by (simp add: unat_word_ariths unsigned_of_nat take_bit_nat_eq_self)

lemma ucast_nat: "n \<le> 32768 \<Longrightarrow> ucast (of_nat n :: u32) = (of_nat n :: u16)"
  by (simp add: word_unat_eq_iff unsigned_ucast_eq unsigned_of_nat take_bit_nat_eq_self)

text \<open>The DMA has stored \<open>n\<close> bytes: the write index moves on, and the ring is full when that many have come.\<close>

lemma update_put_index:
  assumes "dma_ok sz f" "n \<le> unat sz"
  defines "f' \<equiv> rt_dma_recv_update_put_index sz (of_nat n) f"
  shows "dma_ok sz f' \<and> rx_buffer f' = rx_buffer f \<and> unat (put_index f') = (unat (put_index f) + n) mod unat sz \<and>
    (is_full f' \<longleftrightarrow> unat sz \<le> dma_len sz f + n) \<and> (\<not> is_full f' \<longrightarrow> get_index f' = get_index f)"
proof -
  let ?p = "unat (put_index f)" and ?g = "unat (get_index f)" and ?s = "unat sz" and ?i = "put_index f + of_nat n"
  have lt: "?p < ?s" "?g < ?s" "?s \<le> 32768" "is_full f \<Longrightarrow> ?g = ?p" using assms(1) by (simp_all add: dma_ok_def word_less_nat_alt)
  have c: "ucast (of_nat n :: u32) = (of_nat n :: u16)" using assms(2) lt(3) by (intro ucast_nat) simp
  have i: "unat ?i = ?p + n" by (rule index_add [OF lt(1) assms(2) lt(3)])
  have m: "(?p + n) mod ?s = (if ?p + n < ?s then ?p + n else ?p + n - ?s)" using lt assms(2) by (simp add: mod_if)
  define j where "j = (if ?i \<ge> sz then ?i mod sz else ?i)"
  have j: "unat j = (?p + n) mod ?s" using i m lt by (auto simp: j_def word_le_nat_alt unat_mod)
  define full where "full \<longleftrightarrow> is_full f \<or> (if ?g \<le> ?p then ?s \<le> ?p + n \<and> ?g \<le> unat j else ?g \<le> ?p + n)"
  have f': "f' = f\<lparr>put_index := j, is_full := full, get_index := if full then j else get_index f\<rparr>"
  proof -
    have "j < sz" using j lt by (simp add: word_less_nat_alt)
    moreover have "\<not> ?s \<le> ?p + n \<Longrightarrow> j = ?i" using i by (simp add: j_def word_le_nat_alt)
    moreover have "?s \<le> ?p + n \<Longrightarrow> j = ?i mod sz" using i by (simp add: j_def word_le_nat_alt)
    moreover have "\<not> ?g \<le> ?p + n \<Longrightarrow> \<not> ?s \<le> ?p + n" using lt by simp
    ultimately show ?thesis using i lt
      by (auto simp: f'_def rt_dma_recv_update_put_index_def Let_def c full_def word_le_nat_alt word_less_nat_alt)
  qed
  have len: "dma_len sz f = (if is_full f then ?s else if ?g \<le> ?p then ?p - ?g else ?p + ?s - ?g)"
    using lt unfolding dma_len_eq [OF assms(1)] by (auto simp: mod_if)
  have "full \<longleftrightarrow> ?s \<le> dma_len sz f + n" using lt m unfolding full_def len j by auto
  moreover have "j < sz" using j lt by (simp add: word_less_nat_alt)
  ultimately show ?thesis using assms(1) j by (simp add: f' dma_ok_def)
qed

lemma update_get_index:
  assumes "dma_ok sz f" "n \<le> dma_len sz f"
  defines "f' \<equiv> rt_dma_recv_update_get_index sz (of_nat n) f"
  shows "dma_ok sz f' \<and> dma_len sz f' = dma_len sz f - n \<and> rx_buffer f' = rx_buffer f \<and>
    unat (get_index f') = (unat (get_index f) + n) mod unat sz"
proof -
  let ?p = "unat (put_index f)" and ?g = "unat (get_index f)" and ?s = "unat sz" and ?i = "get_index f + of_nat n"
  have lt: "?p < ?s" "?g < ?s" "?s \<le> 32768" "is_full f \<Longrightarrow> ?g = ?p" using assms(1) by (simp_all add: dma_ok_def word_less_nat_alt)
  have len: "dma_len sz f = (if is_full f then ?s else if ?g \<le> ?p then ?p - ?g else ?p + ?s - ?g)"
    using lt unfolding dma_len_eq [OF assms(1)] by (auto simp: mod_if)
  then have n: "n \<le> ?s" using assms(2) lt by (auto split: if_splits)
  have c: "ucast (of_nat n :: u32) = (of_nat n :: u16)" "(of_nat n :: u32) = 0 \<longleftrightarrow> n = 0"
    using n lt(3) by (simp_all add: ucast_nat word_unat_eq_iff unsigned_of_nat take_bit_nat_eq_self)
  have i: "unat ?i = ?g + n" by (rule index_add [OF lt(2) n lt(3)])
  define j where "j = (if ?i \<ge> sz then ?i mod sz else ?i)"
  have j: "unat j = (?g + n) mod ?s" "(?g + n) mod ?s = (if ?g + n < ?s then ?g + n else ?g + n - ?s)"
    using i n lt by (auto simp: j_def word_le_nat_alt unat_mod mod_if)
  have f': "f' = f\<lparr>get_index := j, is_full := is_full f \<and> n = 0\<rparr>"
    by (auto simp: f'_def rt_dma_recv_update_get_index_def Let_def c j_def)
  have ok: "dma_ok sz f'" using assms(1) j lt n by (auto simp: f' dma_ok_def word_less_nat_alt word_unat_eq_iff split: if_splits)
  have "dma_len sz f' = (if is_full f' then ?s else if unat j \<le> ?p then ?p - unat j else ?p + ?s - unat j)"
    using lt j unfolding dma_len_eq [OF ok] by (auto simp: f' mod_if)
  then have "dma_len sz f' = dma_len sz f - n" using lt len assms(2) n unfolding j by (auto simp: f' split: if_splits)
  then show ?thesis using ok j by (simp add: f')
qed


definition dma_bytes :: "u16 \<Rightarrow> rt_serial_rx_fifo \<Rightarrow> u8 list" where
  "dma_bytes sz f = cyc (rx_buffer f) (unat (get_index f)) (dma_len sz f)"

lemma cyc_append: "cyc xs b (m + n) = cyc xs b m @ cyc xs (b + m) n"
  by (induction m arbitrary: b) (simp_all add: cyc_get)

lemma drop_cyc: "drop k (cyc xs b m) = cyc xs (b + k) (m - k)"
  by (intro nth_equalityI) (auto simp: cyc_def ac_simps)

lemma take_cyc: "take k (cyc xs b m) = cyc xs b (min k m)"
  by (intro nth_equalityI) (auto simp: cyc_def)

lemma cyc_cong: "b mod length xs = c mod length xs \<Longrightarrow> cyc xs b n = cyc xs c n"
  by (metis cyc_mod)

lemma cyc_two_pieces:
  assumes "g < length xs" "n \<le> length xs"
  shows "cyc xs g n = (if g + n < length xs then take n (drop g xs)
    else take (length xs - g) (drop g xs) @ take (n + g - length xs) xs)"
  using assms by (intro nth_equalityI) (auto simp: cyc_def nth_append mod_if add.commute)

lemma dma_rx_copy_eq:
  assumes "dma_ok sz f" "length (rx_buffer f) = unat sz" "unat n \<le> unat sz"
  shows "dma_rx_copy sz n f = cyc (rx_buffer f) (unat (get_index f)) (unat n)"
  using assms cyc_two_pieces [of "unat (get_index f)" "rx_buffer f" "unat n"]
  by (simp add: dma_rx_copy_def Let_def dma_ok_def word_less_nat_alt)

lemma dma_bytes_put:
  assumes "dma_ok sz f" "n \<le> unat sz" "length (rx_buffer f) = unat sz"
  defines "f' \<equiv> rt_dma_recv_update_put_index sz (of_nat n) f"
  shows "dma_bytes sz f' = newest (unat sz) (dma_bytes sz f @ cyc (rx_buffer f) (unat (put_index f)) n)"
proof -
  let ?p = "unat (put_index f)" and ?g = "unat (get_index f)" and ?s = "unat sz" and ?l = "dma_len sz f" and ?b = "rx_buffer f"
  have lt: "?p < ?s" "?g < ?s" "is_full f \<Longrightarrow> ?g = ?p" using assms(1) by (simp_all add: dma_ok_def word_less_nat_alt)
  have u: "dma_ok sz f'" "rx_buffer f' = ?b" "unat (put_index f') = (?p + n) mod ?s" "is_full f' \<longleftrightarrow> ?s \<le> ?l + n"
    "\<not> is_full f' \<Longrightarrow> get_index f' = get_index f"
    using update_put_index [OF assms(1,2), folded f'_def] by simp_all
  have e: "(?g + ?l) mod ?s = ?p" using ring_end [OF lt(2,1)] lt dma_len_eq [OF assms(1)] by simp
  then have "dma_bytes sz f @ cyc ?b ?p n = cyc ?b ?g (?l + n)"
    using cyc_cong [of "?g + ?l" ?b ?p n] lt assms(3) by (simp add: dma_bytes_def cyc_append)
  moreover have "newest ?s (cyc ?b ?g (?l + n)) = cyc ?b (?g + (?l + n - ?s)) (min ?s (?l + n))"
    by (simp add: newest_def drop_cyc min_def)
  moreover have "dma_bytes sz f' = cyc ?b (?g + (?l + n - ?s)) (min ?s (?l + n))"
  proof (cases "?s \<le> ?l + n")
    case True
    then have "unat (get_index f') = (?p + n) mod ?s" using u(1,3,4) by (simp add: dma_ok_def)
    also have "\<dots> = (?g + ?l + n) mod ?s" using e by (metis mod_add_left_eq)
    also have "\<dots> = (?g + (?l + n - ?s)) mod ?s" using True by (metis add.assoc le_add_diff_inverse2 mod_add_self2)
    finally have "cyc ?b (unat (get_index f')) ?s = cyc ?b (?g + (?l + n - ?s)) ?s" using assms(3) by (metis cyc_mod)
    then show ?thesis using True u(2,4) by (simp add: dma_bytes_def dma_len_eq [OF u(1)])
  next
    case False
    then have "((?g + (?l + n)) mod ?s + ?s - ?g) mod ?s = ?l + n" using ring_distance [OF lt(2), of "?l + n"] by simp
    moreover have "(?p + n) mod ?s = (?g + (?l + n)) mod ?s" using e by (metis add.assoc mod_add_left_eq)
    ultimately show ?thesis using False u(2-5) by (simp add: dma_bytes_def dma_len_eq [OF u(1)] min_def)
  qed
  ultimately show ?thesis by simp
qed

lemma serial_dma_rx_spec:
  assumes "dma_ok sz f" "length (rx_buffer f) = unat sz" "bufsz (config d) = sz" "serial_rx d = RxFifo f" "m < 2 ^ 32"
  shows "\<exists>f'. serial_dma_rx u buffer m d = Some (min m (length (dma_bytes sz f)), take m (dma_bytes sz f), d\<lparr>serial_rx := RxFifo f'\<rparr>) \<and>
    dma_ok sz f' \<and> rx_buffer f' = rx_buffer f \<and> dma_bytes sz f' = drop m (dma_bytes sz f)"
proof -
  let ?r = "ucast (rt_dma_calc_recved_len sz f) :: u32" and ?l = "dma_len sz f"
  define n where "n = (if of_nat m < ?r then of_nat m else ?r)"
  have lt: "unat (put_index f) < unat sz" "unat (get_index f) < unat sz" using assms(1) by (simp_all add: dma_ok_def word_less_nat_alt)
  have r: "unat ?r = ?l" using calc_recved_len [OF assms(1)] by simp
  have "unat (of_nat m :: u32) = m" using assms(5) by (simp add: unsigned_of_nat take_bit_nat_eq_self)
  then have n: "unat n = min m ?l" using r by (auto simp: n_def word_less_nat_alt)
  have le: "?l \<le> unat sz" using lt dma_len_eq [OF assms(1)] by (simp add: less_imp_le)
  have nn: "of_nat (unat n) = n" "unat n \<le> ?l" by simp (simp add: n)
  note g = update_get_index [OF assms(1) nn(2), unfolded nn(1)]
  let ?f = "rt_dma_recv_update_get_index sz n f"
  have "sz \<noteq> 0" using lt by auto
  then have s: "serial_dma_rx u buffer m d = Some (unat n, dma_rx_copy sz n f, d\<lparr>serial_rx := RxFifo ?f\<rparr>)"
    using assms(3,4) by (simp add: serial_dma_rx_def Let_def n_def)
  have c: "dma_rx_copy sz n f = take m (dma_bytes sz f)"
    using dma_rx_copy_eq [OF assms(1,2)] n le by (simp add: dma_bytes_def take_cyc)
  have "cyc (rx_buffer f) (unat (get_index ?f)) (?l - unat n) = cyc (rx_buffer f) (unat (get_index f) + unat n) (?l - unat n)"
    using g assms(2) by (intro cyc_cong) simp
  then have "dma_bytes sz ?f = drop (unat n) (dma_bytes sz f)" using g by (simp add: dma_bytes_def drop_cyc)
  also have "\<dots> = drop m (dma_bytes sz f)" using n by (cases "m \<le> ?l") (simp_all add: dma_bytes_def min_def)
  finally show ?thesis using s c n g by (intro exI [of _ ?f]) (simp add: dma_bytes_def)
qed

text \<open>
  Reception by DMA into a ring of \<open>sz\<close> bytes (up to 32768): when the hardware reports \<open>n\<close> bytes written behind the
  write index, the FIFO holds the newest \<open>sz\<close> of the old bytes followed by the new ones, the callback is told their
  number, and a read of \<open>m\<close> bytes returns the first \<open>m\<close> of them, in one or two pieces, and leaves the rest.
\<close>

theorem serial_dma_reception:
  assumes "dma_ok sz f" "length (rx_buffer f) = unat sz" "bufsz (config d) = sz" "serial_rx d = RxFifo f" "n \<le> unat sz"
    and "event AND 0xff = 3" "signed_drop_bit 8 event = of_nat n" "m < 2 ^ 32"
  shows "\<exists>f' f''. let d' = d\<lparr>serial_rx := RxFifo f'\<rparr>; bs = dma_bytes sz f'
    in rt_hw_serial_isr u cb event d =
         Some (case dev_rx_indicate d of None \<Rightarrow> d' | Some h \<Rightarrow> cb_rx_indicate cb h (of_nat (length bs)) d') \<and>
       bs = newest (unat sz) (dma_bytes sz f @ cyc (rx_buffer f) (unat (put_index f)) n) \<and>
       serial_dma_rx u buffer m d' = Some (min m (length bs), take m bs, d\<lparr>serial_rx := RxFifo f''\<rparr>) \<and>
       dma_bytes sz f'' = drop m bs \<and> dma_ok sz f''"
proof -
  let ?f = "rt_dma_recv_update_put_index sz (of_nat n) f"
  have u: "dma_ok sz ?f" "rx_buffer ?f = rx_buffer f" using update_put_index [OF assms(1,5)] by simp_all
  have "unat (rt_dma_calc_recved_len sz ?f) = length (dma_bytes sz ?f)" using calc_recved_len [OF u(1)] by (simp add: dma_bytes_def)
  then have l: "ucast (rt_dma_calc_recved_len sz ?f) = (of_nat (length (dma_bytes sz ?f)) :: u32)"
    by (metis of_nat_unat)
  have "sz \<noteq> 0" using assms(1) by (auto simp: dma_ok_def)
  then have i: "rt_hw_serial_isr u cb event d = Some (case dev_rx_indicate d of None \<Rightarrow> d\<lparr>serial_rx := RxFifo ?f\<rparr>
      | Some h \<Rightarrow> cb_rx_indicate cb h (of_nat (length (dma_bytes sz ?f))) (d\<lparr>serial_rx := RxFifo ?f\<rparr>))"
    using assms(3,4,6,7) l by (simp add: rt_hw_serial_isr_def serial_rx_dmadone_def Let_def split: option.split)
  have "\<exists>f''. serial_dma_rx u buffer m (d\<lparr>serial_rx := RxFifo ?f\<rparr>) =
      Some (min m (length (dma_bytes sz ?f)), take m (dma_bytes sz ?f), d\<lparr>serial_rx := RxFifo f''\<rparr>) \<and>
      dma_ok sz f'' \<and> rx_buffer f'' = rx_buffer ?f \<and> dma_bytes sz f'' = drop m (dma_bytes sz ?f)"
    using serial_dma_rx_spec [OF u(1), of "d\<lparr>serial_rx := RxFifo ?f\<rparr>" m u buffer] u(2) assms(2,3,8) by simp
  then show ?thesis unfolding Let_def using i dma_bytes_put [OF assms(1,5,2)] by blast
qed


theorem serial_dma_reception_witness:
  "\<exists>f'. let d = demo_serial\<lparr>config := (config demo_serial)\<lparr>bufsz := 4\<rparr>,
        serial_rx := RxFifo \<lparr>rx_buffer = [30, 31, 20, 21], put_index = 3, get_index = 2, is_full = False\<rparr>\<rparr>
      in rt_hw_serial_isr demo_uart \<lparr>cb_rx_indicate = (\<lambda>_ _ d. d), cb_tx_complete = (\<lambda>_ _ d. d)\<rparr> 0x303 d = Some (d\<lparr>serial_rx := RxFifo f'\<rparr>) \<and>
        dma_bytes 4 f' = [20, 21, 30, 31]"
proof -
  let ?f = "\<lparr>rx_buffer = [30, 31, 20, 21], put_index = 3, get_index = 2, is_full = False\<rparr> :: rt_serial_rx_fifo"
  let ?d = "demo_serial\<lparr>config := (config demo_serial)\<lparr>bufsz := 4\<rparr>, serial_rx := RxFifo ?f\<rparr>"
  let ?cb = "\<lparr>cb_rx_indicate = (\<lambda>_ _ d. d), cb_tx_complete = (\<lambda>_ _ d. d)\<rparr> :: rt_serial_device callbacks"
  have b: "newest 4 (dma_bytes 4 ?f @ cyc [30, 31, 20, 21 :: u8] 3 3) = [20, 21, 30, 31]"
    by code_simp
  have "dma_ok 4 ?f" "length (rx_buffer ?f) = unat (4 :: u16)" "bufsz (config ?d) = 4" "serial_rx ?d = RxFifo ?f" "3 \<le> unat (4 :: u16)"
    "(0x303 :: u32) AND 0xff = 3" "signed_drop_bit 8 (0x303 :: u32) = of_nat 3" "0 < (2 ^ 32 :: nat)" by (simp_all add: dma_ok_def)
  note w = serial_dma_reception [OF this, of demo_uart ?cb 0]
  have "dev_rx_indicate ?d = None" by (simp add: demo_serial_def)
  then show ?thesis using w b unfolding Let_def by auto
qed

end
