(* ===== verification/Usb_Core.thy ===== *)
theory Usb_Core
  imports Prelude "HOL-Library.Monad_Syntax"
begin

text \<open>
  The USB device core (\<open>components/drivers/usb/usbdevice/core/core.c\<close>, with the structs of \<open>usb_device.h\<close>
  and \<open>usb_common.h\<close>) for the one device of this firmware. Configurations, functions, interfaces,
  alternate settings and endpoints are found by number in the maps of the record \<open>usb\<close>, as the code
  finds them by pointer. Descriptors are bytes, and the descriptor of an endpoint is a place inside the
  bytes of its alternate setting, so that an address written there appears in what is sent.

  What the code asks of the controller driver is the list \<open>dcd_calls\<close>. A buffer handed to a
  transmission is the bytes at that time, one for reception is a place in memory. The calls into the
  class (enable, disable, interface and endpoint handlers) are the record \<open>class_ops\<close>, the class's own
  state the field \<open>cls\<close>. \<open>None\<close> as a result is a null pointer dereference or an access out of bounds.
\<close>

section \<open>Data\<close>

datatype udevice_state_t =
    USB_STATE_NOTATTACHED | USB_STATE_ATTACHED | USB_STATE_POWERED | USB_STATE_RECONNECTING
  | USB_STATE_UNAUTHENTICATED | USB_STATE_DEFAULT | USB_STATE_ADDRESS | USB_STATE_CONFIGURED | USB_STATE_SUSPENDED

datatype uep0_stage_t =
  STAGE_IDLE | STAGE_SETUP | STAGE_STATUS_IN | STAGE_STATUS_OUT | STAGE_DIN | STAGE_DOUT

datatype uio_request_type = UIO_REQUEST_READ_FULL | UIO_REQUEST_READ_BEST | UIO_REQUEST_WRITE

text \<open>Buffers: none, bytes to send, a place in the buffer of an endpoint, a place in a static variable.\<close>

datatype uptr = PNull | PBytes "u8 list" | PEp nat nat | PStatic nat nat

record urequest =
  request_type :: u8
  bRequest :: u8
  wValue :: u16
  wIndex :: u16
  wLength :: u16

record uio_request =
  req_type :: uio_request_type
  req_buffer :: uptr
  req_size :: u32
  req_remain_size :: u32

text \<open>
  An endpoint: \<open>ep_desc\<close> is the alternate setting and the offset of its descriptor there. The only request
  that is ever put into \<open>request_list\<close> is the endpoint's own, which can be there once.
\<close>

record uendpoint =
  ep_desc :: "nat \<times> nat"
  ep_queued :: bool
  ep_request :: uio_request
  ep_buffer :: "u8 list option"
  ep_stalled :: bool
  ep_id :: "nat option"
  ep_handler :: nat

record ep_id =
  id_addr :: u8
  id_type :: u8
  id_dir :: u8
  id_maxpacket :: u16
  id_assigned :: bool

record ualtsetting =
  as_intf_desc :: "nat option"
  as_desc :: "u8 list"
  as_ep_list :: "nat list"

record uinterface =
  if_num :: u8
  if_curr_setting :: "nat option"
  if_setting_list :: "nat list"
  if_handler :: nat

record ufunction =
  fn_dev_desc :: "u8 list"
  fn_enabled :: bool
  fn_intf_list :: "nat list"

record uconfig =
  cd_wTotalLength :: u16
  cd_bNumInterfaces :: u8
  cd_bConfigurationValue :: u8
  cd_bmAttributes :: u8
  cd_MaxPower :: u8
  cd_data :: "u8 list"
  cf_func_list :: "nat list"

datatype dcd_call =
    SetAddress u8 | SetConfig u8 | EpEnable u8 u16 u8 | EpDisable u8 | EpSetStall u8 | EpClearStall u8
  | EpWrite u8 "u8 list" | EpReadPrepare u8 uptr u32 | Ep0SendStatus

record 'c usb =
  dev_desc :: "u8 list"
  dev_qualifier :: "u8 list option"
  dev_str :: "string list"
  os_func_desc :: "u8 list list"
  usb_comp_id_desc :: "u8 list option"   \<comment> \<open>the static variable of \<open>_vendor_request\<close>\<close>
  dev_state :: udevice_state_t
  cfg_list :: "nat list"
  curr_cfg :: "nat option"
  nr_intf :: u8
  cfgs :: "nat \<Rightarrow> uconfig"
  funcs :: "nat \<Rightarrow> ufunction"
  intfs :: "nat \<Rightarrow> uinterface"
  settings :: "nat \<Rightarrow> ualtsetting"
  eps :: "nat \<Rightarrow> uendpoint"
  statics :: "nat \<Rightarrow> u8 list"
  ep0_request :: uio_request
  ep0_rx_indicate :: "nat option"
  ep0_stage :: uep0_stage_t
  ep_pool :: "ep_id list"                \<comment> \<open>entry 0 is that of endpoint 0\<close>
  device_is_hs :: bool
  dcd_calls :: "dcd_call list"
  cls :: 'c

record 'c class_ops =
  co_enable :: "nat \<Rightarrow> 'c usb \<Rightarrow> (err \<times> 'c usb) option"
  co_disable :: "nat \<Rightarrow> 'c usb \<Rightarrow> 'c usb option"
  co_sof :: "(nat \<Rightarrow> 'c usb \<Rightarrow> 'c usb option) option"
  co_interface :: "nat \<Rightarrow> nat \<Rightarrow> urequest \<Rightarrow> 'c usb \<Rightarrow> (err \<times> 'c usb) option"
  co_endpoint :: "nat \<Rightarrow> nat \<Rightarrow> u32 \<Rightarrow> 'c usb \<Rightarrow> 'c usb option"
  co_rx_indicate :: "nat \<Rightarrow> u32 \<Rightarrow> 'c usb \<Rightarrow> 'c usb option"

abbreviation (input) EP0_IN_ADDR :: u8 where "EP0_IN_ADDR \<equiv> 0x80"
abbreviation (input) EP0_OUT_ADDR :: u8 where "EP0_OUT_ADDR \<equiv> 0"
abbreviation (input) USB_DIR_IN :: u8 where "USB_DIR_IN \<equiv> 0x80"

definition dcd :: "dcd_call \<Rightarrow> 'c usb \<Rightarrow> 'c usb" where
  "dcd c u = u\<lparr>dcd_calls := dcd_calls u @ [c]\<rparr>"

definition upd_ep :: "nat \<Rightarrow> (uendpoint \<Rightarrow> uendpoint) \<Rightarrow> 'c usb \<Rightarrow> 'c usb" where
  "upd_ep e g u = u\<lparr>eps := (eps u)(e := g (eps u e))\<rparr>"

definition upd_request :: "nat \<Rightarrow> (uio_request \<Rightarrow> uio_request) \<Rightarrow> 'c usb \<Rightarrow> 'c usb" where
  "upd_request e g = upd_ep e (\<lambda>x. x\<lparr>ep_request := g (ep_request x)\<rparr>)"

definition upd_fn :: "nat \<Rightarrow> (ufunction \<Rightarrow> ufunction) \<Rightarrow> 'c usb \<Rightarrow> 'c usb" where
  "upd_fn f g u = u\<lparr>funcs := (funcs u)(f := g (funcs u f))\<rparr>"

definition upd_intf :: "nat \<Rightarrow> (uinterface \<Rightarrow> uinterface) \<Rightarrow> 'c usb \<Rightarrow> 'c usb" where
  "upd_intf i g u = u\<lparr>intfs := (intfs u)(i := g (intfs u i))\<rparr>"

definition upd_setting :: "nat \<Rightarrow> (ualtsetting \<Rightarrow> ualtsetting) \<Rightarrow> 'c usb \<Rightarrow> 'c usb" where
  "upd_setting s g u = u\<lparr>settings := (settings u)(s := g (settings u s))\<rparr>"

definition upd_cfg :: "nat \<Rightarrow> (uconfig \<Rightarrow> uconfig) \<Rightarrow> 'c usb \<Rightarrow> 'c usb" where
  "upd_cfg c g u = u\<lparr>cfgs := (cfgs u)(c := g (cfgs u c))\<rparr>"

lemmas usb_upd_defs = dcd_def upd_ep_def upd_request_def upd_fn_def upd_intf_def upd_setting_def upd_cfg_def

text \<open>Fields of descriptors. A 16-bit field is little-endian.\<close>

definition u16_le :: "u8 list \<Rightarrow> nat \<Rightarrow> u16" where
  "u16_le bs i = ucast (bs ! i) OR push_bit 8 (ucast (bs ! (i + 1)))"

definition le_u16 :: "u16 \<Rightarrow> u8 list" where
  "le_u16 w = [ucast w, ucast (drop_bit 8 w)]"

definition ep_desc_field :: "nat \<Rightarrow> nat \<Rightarrow> 'c usb \<Rightarrow> u8" where
  "ep_desc_field k e u = as_desc (settings u (fst (ep_desc (eps u e)))) ! (snd (ep_desc (eps u e)) + k)"

abbreviation EP_ADDRESS :: "nat \<Rightarrow> 'c usb \<Rightarrow> u8" where "EP_ADDRESS \<equiv> ep_desc_field 2"
abbreviation EP_ATTRIBUTES :: "nat \<Rightarrow> 'c usb \<Rightarrow> u8" where "EP_ATTRIBUTES \<equiv> ep_desc_field 3"

definition EP_MAXPACKET :: "nat \<Rightarrow> 'c usb \<Rightarrow> u16" where
  "EP_MAXPACKET e u = u16_le (as_desc (settings u (fst (ep_desc (eps u e))))) (snd (ep_desc (eps u e)) + 4)"

definition bAlternateSetting :: "nat \<Rightarrow> 'c usb \<Rightarrow> u8 option" where
  "bAlternateSetting s u = map_option (\<lambda>p. as_desc (settings u s) ! (p + 3)) (as_intf_desc (settings u s))"

abbreviation bNumConfigurations :: "'c usb \<Rightarrow> u8" where
  "bNumConfigurations u \<equiv> dev_desc u ! 17"

abbreviation ep0_maxpacket :: "'c usb \<Rightarrow> u16" where
  "ep0_maxpacket u \<equiv> id_maxpacket (ep_pool u ! 0)"

text \<open>Reading, advancing and writing through a buffer pointer.\<close>

fun ptr_bytes :: "uptr \<Rightarrow> nat \<Rightarrow> 'c usb \<Rightarrow> u8 list option" where
  "ptr_bytes PNull n u = (if n = 0 then Some [] else None)"
| "ptr_bytes (PBytes bs) n u = (if n \<le> length bs then Some (take n bs) else None)"
| "ptr_bytes (PEp e i) n u =
     (case ep_buffer (eps u e) of None \<Rightarrow> None | Some bs \<Rightarrow> if i + n \<le> length bs then Some (take n (drop i bs)) else None)"
| "ptr_bytes (PStatic s i) n u = (if i + n \<le> length (statics u s) then Some (take n (drop i (statics u s))) else None)"

fun ptr_add :: "uptr \<Rightarrow> nat \<Rightarrow> uptr" where
  "ptr_add PNull n = PNull"
| "ptr_add (PBytes bs) n = PBytes (drop n bs)"
| "ptr_add (PEp e i) n = PEp e (i + n)"
| "ptr_add (PStatic s i) n = PStatic s (i + n)"

fun ptr_store :: "uptr \<Rightarrow> u8 list \<Rightarrow> 'c usb \<Rightarrow> 'c usb option" where
  "ptr_store (PEp e i) xs u =
     (case ep_buffer (eps u e) of
        None \<Rightarrow> None
      | Some bs \<Rightarrow> if i + length xs \<le> length bs then Some (upd_ep e (\<lambda>x. x\<lparr>ep_buffer := Some (blit bs i xs)\<rparr>) u) else None)"
| "ptr_store (PStatic s i) xs u =
     (if i + length xs \<le> length (statics u s) then Some (u\<lparr>statics := (statics u)(s := blit (statics u s) i xs)\<rparr>) else None)"
| "ptr_store _ xs u = (if xs = [] then Some u else None)"

definition dcd_ep_write :: "u8 \<Rightarrow> uptr \<Rightarrow> nat \<Rightarrow> 'c usb \<Rightarrow> 'c usb option" where
  "dcd_ep_write addr p n u = map_option (\<lambda>bs. dcd (EpWrite addr bs) u) (ptr_bytes p n u)"

text \<open>\<open>_ep_read\<close> of the controller driver, \<open>drv_usbd.c\<close>: data has been stored when the core hears of it.\<close>

definition dcd_ep_read :: "u32" where "dcd_ep_read = 0"

fun foldm :: "('x \<Rightarrow> 's \<Rightarrow> 's option) \<Rightarrow> 'x list \<Rightarrow> 's \<Rightarrow> 's option" where
  "foldm f [] s = Some s"
| "foldm f (x # xs) s = Option.bind (f x s) (foldm f xs)"


section \<open>Building the device\<close>

text \<open>Objects come from the heap: \<open>n\<close> is the new object, \<open>None\<close> a failed allocation.\<close>

definition rt_usbd_device_set_string :: "string list \<Rightarrow> 'c usb \<Rightarrow> 'c usb" where
  "rt_usbd_device_set_string ustring u = u\<lparr>dev_str := ustring\<rparr>"

definition rt_usbd_device_set_qualifier :: "u8 list \<Rightarrow> 'c usb \<Rightarrow> 'c usb" where
  "rt_usbd_device_set_qualifier q u = u\<lparr>dev_qualifier := Some q\<rparr>"

definition rt_usbd_device_set_os_comp_id_desc :: "'c usb \<Rightarrow> 'c usb" where
  "rt_usbd_device_set_os_comp_id_desc u = u\<lparr>os_func_desc := []\<rparr>"

definition rt_usbd_device_set_descriptor :: "u8 list \<Rightarrow> 'c usb \<Rightarrow> 'c usb" where
  "rt_usbd_device_set_descriptor d u = u\<lparr>dev_desc := blit (dev_desc u) 0 (take 0x12 d)\<rparr>"

text \<open>A new device with the endpoint pool of its controller: the struct is zeroed, nothing has been added to it.\<close>

definition zero_request :: uio_request where
  "zero_request = \<lparr>req_type = UIO_REQUEST_READ_FULL, req_buffer = PNull, req_size = 0, req_remain_size = 0\<rparr>"

definition rt_usbd_device_new :: "ep_id list \<Rightarrow> bool \<Rightarrow> 'c \<Rightarrow> 'c usb" where
  "rt_usbd_device_new pool hs c =
     \<lparr>dev_desc = replicate 18 0, dev_qualifier = None, dev_str = [], os_func_desc = [], usb_comp_id_desc = None,
      dev_state = USB_STATE_NOTATTACHED, cfg_list = [], curr_cfg = None, nr_intf = 0,
      cfgs = (\<lambda>n. \<lparr>cd_wTotalLength = 0, cd_bNumInterfaces = 0, cd_bConfigurationValue = 0, cd_bmAttributes = 0, cd_MaxPower = 0,
                     cd_data = [], cf_func_list = []\<rparr>),
      funcs = (\<lambda>n. \<lparr>fn_dev_desc = [], fn_enabled = False, fn_intf_list = []\<rparr>),
      intfs = (\<lambda>n. \<lparr>if_num = 0, if_curr_setting = None, if_setting_list = [], if_handler = 0\<rparr>),
      settings = (\<lambda>n. \<lparr>as_intf_desc = None, as_desc = [], as_ep_list = []\<rparr>),
      eps = (\<lambda>n. \<lparr>ep_desc = (0, 0), ep_queued = False, ep_request = zero_request, ep_buffer = None, ep_stalled = False,
                    ep_id = None, ep_handler = 0\<rparr>),
      statics = (\<lambda>n. replicate 128 0), ep0_request = zero_request, ep0_rx_indicate = None, ep0_stage = STAGE_IDLE,
      ep_pool = pool, device_is_hs = hs, dcd_calls = [], cls = c\<rparr>"

definition rt_usbd_config_new :: "nat option \<Rightarrow> 'c usb \<Rightarrow> nat option \<times> 'c usb" where
  "rt_usbd_config_new mem u =
     (case mem of
        None \<Rightarrow> (None, u)
      | Some n \<Rightarrow>
          (Some n, upd_cfg n (\<lambda>_. \<lparr>cd_wTotalLength = 9, cd_bNumInterfaces = 0, cd_bConfigurationValue = 0, cd_bmAttributes = 0xC0,
                                    cd_MaxPower = 0x32, cd_data = replicate 256 0, cf_func_list = []\<rparr>) u))"

definition rt_usbd_interface_new :: "nat \<Rightarrow> nat option \<Rightarrow> 'c usb \<Rightarrow> nat option \<times> 'c usb" where
  "rt_usbd_interface_new handler mem u =
     (case mem of
        None \<Rightarrow> (None, u)
      | Some n \<Rightarrow>
          let u = upd_intf n (\<lambda>_. \<lparr>if_num = nr_intf u, if_curr_setting = None, if_setting_list = [], if_handler = handler\<rparr>) u
          in (Some n, u\<lparr>nr_intf := nr_intf u + 1\<rparr>))"

definition rt_usbd_altsetting_new :: "nat \<Rightarrow> nat option \<Rightarrow> bool \<Rightarrow> 'c usb \<Rightarrow> nat option \<times> 'c usb" where
  "rt_usbd_altsetting_new desc_size mem desc_mem u =
     (case mem of
        None \<Rightarrow> (None, u)
      | Some n \<Rightarrow>
          if \<not> desc_mem then (None, u)
          else (Some n, upd_setting n (\<lambda>_. \<lparr>as_intf_desc = None, as_desc = replicate desc_size 0, as_ep_list = []\<rparr>) u))"

definition rt_usbd_altsetting_config_descriptor :: "nat \<Rightarrow> u8 list \<Rightarrow> nat \<Rightarrow> 'c usb \<Rightarrow> 'c usb" where
  "rt_usbd_altsetting_config_descriptor s desc intf_pos u =
     upd_setting s (\<lambda>x. x\<lparr>as_desc := take (length (as_desc x)) desc, as_intf_desc := Some intf_pos\<rparr>) u"

definition rt_usbd_function_new :: "u8 list \<Rightarrow> nat option \<Rightarrow> 'c usb \<Rightarrow> nat option \<times> 'c usb" where
  "rt_usbd_function_new d mem u =
     (case mem of
        None \<Rightarrow> (None, u)
      | Some n \<Rightarrow> (Some n, upd_fn n (\<lambda>_. \<lparr>fn_dev_desc = d, fn_enabled = False, fn_intf_list = []\<rparr>) u))"

definition rt_usbd_endpoint_new :: "nat \<times> nat \<Rightarrow> nat \<Rightarrow> nat option \<Rightarrow> 'c usb \<Rightarrow> nat option \<times> 'c usb" where
  "rt_usbd_endpoint_new desc handler mem u =
     (case mem of
        None \<Rightarrow> (None, u)
      | Some n \<Rightarrow>
          (Some n, upd_ep n (\<lambda>x. x\<lparr>ep_desc := desc, ep_handler := handler, ep_buffer := None, ep_stalled := False,
                                    ep_queued := False\<rparr>) u))"

definition rt_usbd_config_add_function :: "nat \<Rightarrow> nat \<Rightarrow> 'c usb \<Rightarrow> 'c usb" where
  "rt_usbd_config_add_function c f u = upd_cfg c (\<lambda>x. x\<lparr>cf_func_list := cf_func_list x @ [f]\<rparr>) u"

definition rt_usbd_function_add_interface :: "nat \<Rightarrow> nat \<Rightarrow> 'c usb \<Rightarrow> 'c usb" where
  "rt_usbd_function_add_interface f i u = upd_fn f (\<lambda>x. x\<lparr>fn_intf_list := fn_intf_list x @ [i]\<rparr>) u"

definition rt_usbd_interface_add_altsetting :: "nat \<Rightarrow> nat \<Rightarrow> 'c usb \<Rightarrow> 'c usb option" where
  "rt_usbd_interface_add_altsetting i s u =
     (case as_intf_desc (settings u s) of
        None \<Rightarrow> None
      | Some p \<Rightarrow>
          let u = upd_setting s (\<lambda>x. x\<lparr>as_desc := (as_desc x)[p + 2 := if_num (intfs u i)]\<rparr>) u
          in Some (upd_intf i (\<lambda>x. x\<lparr>if_setting_list := if_setting_list x @ [s]\<rparr>) u))"

definition rt_usbd_altsetting_add_endpoint :: "nat \<Rightarrow> nat \<Rightarrow> 'c usb \<Rightarrow> 'c usb" where
  "rt_usbd_altsetting_add_endpoint s e u = upd_setting s (\<lambda>x. x\<lparr>as_ep_list := as_ep_list x @ [e]\<rparr>) u"

text \<open>Finding. \<open>Some None\<close> is the null pointer as a result; \<open>cfg_intfs\<close> are the functions with their interfaces in
  the order of the two nested loops.\<close>

definition rt_usbd_find_config :: "u8 \<Rightarrow> 'c usb \<Rightarrow> nat option" where
  "rt_usbd_find_config value u = find (\<lambda>c. cd_bConfigurationValue (cfgs u c) = value) (cfg_list u)"

definition cfg_intfs :: "nat \<Rightarrow> 'c usb \<Rightarrow> (nat \<times> nat) list" where
  "cfg_intfs c u = concat (map (\<lambda>f. map (Pair f) (fn_intf_list (funcs u f))) (cf_func_list (cfgs u c)))"

definition rt_usbd_find_interface :: "u8 \<Rightarrow> 'c usb \<Rightarrow> (nat \<times> nat) option option" where
  "rt_usbd_find_interface value u =
     map_option (\<lambda>c. find (\<lambda>(f, i). if_num (intfs u i) = value) (cfg_intfs c u)) (curr_cfg u)"

fun find_altsetting :: "u8 \<Rightarrow> nat list \<Rightarrow> 'c usb \<Rightarrow> nat option option" where
  "find_altsetting value [] u = Some None"
| "find_altsetting value (s # ss) u =
     (case bAlternateSetting s u of
        None \<Rightarrow> None
      | Some b \<Rightarrow> if b = value then Some (Some s) else find_altsetting value ss u)"

definition rt_usbd_find_altsetting :: "nat \<Rightarrow> u8 \<Rightarrow> 'c usb \<Rightarrow> nat option option" where
  "rt_usbd_find_altsetting i value u =
     (case if_curr_setting (intfs u i) of
        None \<Rightarrow> find_altsetting value (if_setting_list (intfs u i)) u
      | Some s \<Rightarrow>
          (case bAlternateSetting s u of
             None \<Rightarrow> None
           | Some b \<Rightarrow> if b = value then Some (Some s) else find_altsetting value (if_setting_list (intfs u i)) u))"

fun find_endpoint :: "u8 \<Rightarrow> (nat \<times> nat) list \<Rightarrow> 'c usb \<Rightarrow> (nat \<times> nat) option option" where
  "find_endpoint addr [] u = Some None"
| "find_endpoint addr ((f, i) # fis) u =
     (case if_curr_setting (intfs u i) of
        None \<Rightarrow> None
      | Some s \<Rightarrow>
          (case find (\<lambda>e. EP_ADDRESS e u = addr) (as_ep_list (settings u s)) of
             Some e \<Rightarrow> Some (Some (e, f))
           | None \<Rightarrow> find_endpoint addr fis u))"

definition rt_usbd_find_endpoint :: "u8 \<Rightarrow> 'c usb \<Rightarrow> (nat \<times> nat) option option" where
  "rt_usbd_find_endpoint addr u = Option.bind (curr_cfg u) (\<lambda>c. find_endpoint addr (cfg_intfs c u) u)"

definition rt_usbd_set_altsetting :: "nat \<Rightarrow> u8 \<Rightarrow> 'c usb \<Rightarrow> 'c usb option" where
  "rt_usbd_set_altsetting i value u =
     map_option (\<lambda>s. upd_intf i (\<lambda>x. x\<lparr>if_curr_setting := s\<rparr>) u) (rt_usbd_find_altsetting i value u)"

definition rt_usbd_set_config :: "u8 \<Rightarrow> 'c usb \<Rightarrow> 'c usb" where
  "rt_usbd_set_config value u = dcd (SetConfig value) (u\<lparr>curr_cfg := rt_usbd_find_config value u\<rparr>)"

text \<open>The search for a free entry of the pool, which ends at the entry with address 0xFF.\<close>

fun ep_assign_loop :: "nat \<Rightarrow> nat \<Rightarrow> ep_id list \<Rightarrow> 'c usb \<Rightarrow> (err \<times> 'c usb) option" where
  "ep_assign_loop e i [] u = None"
| "ep_assign_loop e i (x # xs) u =
     (if id_addr x = 0xFF then Some (- RT_ERROR, u)
      else if \<not> id_assigned x \<and> EP_ATTRIBUTES e u = id_type x \<and> EP_ADDRESS e u AND 0x80 = id_dir x then
        let (s, p) = ep_desc (eps u e);
            u = upd_setting s (\<lambda>y. y\<lparr>as_desc := (as_desc y)[p + 2 := EP_ADDRESS e u OR id_addr x]\<rparr>) u;
            u = upd_ep e (\<lambda>y. y\<lparr>ep_id := Some i\<rparr>) u
        in Some (RT_EOK, u\<lparr>ep_pool := (ep_pool u)[i := x\<lparr>id_assigned := True\<rparr>]\<rparr>)
      else ep_assign_loop e (i + 1) xs u)"

definition rt_usbd_ep_assign :: "nat \<Rightarrow> 'c usb \<Rightarrow> (err \<times> 'c usb) option" where
  "rt_usbd_ep_assign e u = ep_assign_loop e 0 (ep_pool u) u"

definition rt_usbd_ep_unassign :: "nat \<Rightarrow> 'c usb \<Rightarrow> 'c usb option" where
  "rt_usbd_ep_unassign e u =
     map_option (\<lambda>i. u\<lparr>ep_pool := (ep_pool u)[i := (ep_pool u ! i)\<lparr>id_assigned := False\<rparr>]\<rparr>) (ep_id (eps u e))"

definition add_config_intf :: "nat \<Rightarrow> nat \<Rightarrow> 'c usb \<Rightarrow> 'c usb option" where
  "add_config_intf c i u =
     (case if_curr_setting (intfs u i) of
        None \<Rightarrow> None
      | Some s \<Rightarrow> do {
          let u = upd_cfg c (\<lambda>x. x\<lparr>cd_bNumInterfaces := cd_bNumInterfaces x + 1\<rparr>) u;
          u \<leftarrow> foldm (\<lambda>e u. map_option snd (rt_usbd_ep_assign e u)) (as_ep_list (settings u s)) u;
          let d = as_desc (settings u s);
          let p = unat (cd_wTotalLength (cfgs u c)) - 9;
          if p + length d \<le> 256
          then Some (upd_cfg c (\<lambda>x. x\<lparr>cd_data := blit (cd_data x) p d, cd_wTotalLength := cd_wTotalLength x + of_nat (length d)\<rparr>) u)
          else None
        })"

definition rt_usbd_device_add_config :: "nat \<Rightarrow> 'c usb \<Rightarrow> 'c usb option" where
  "rt_usbd_device_add_config c u = do {
     let u = upd_cfg c (\<lambda>x. x\<lparr>cd_bConfigurationValue := bNumConfigurations u + 1\<rparr>) u;
     let u = u\<lparr>dev_desc := (dev_desc u)[17 := bNumConfigurations u + 1]\<rparr>;
     u \<leftarrow> foldm (\<lambda>(f, i). add_config_intf c i) (cfg_intfs c u) u;
     Some (u\<lparr>cfg_list := cfg_list u @ [c]\<rparr>)
   }"

section \<open>Transfers\<close>

definition rt_usbd_ep0_set_stall :: "'c usb \<Rightarrow> 'c usb" where
  "rt_usbd_ep0_set_stall u = dcd (EpSetStall 0) u"

definition rt_usbd_ep0_clear_stall :: "'c usb \<Rightarrow> 'c usb" where
  "rt_usbd_ep0_clear_stall u = dcd (EpClearStall 0) u"

definition rt_usbd_ep_set_stall :: "nat \<Rightarrow> 'c usb \<Rightarrow> 'c usb" where
  "rt_usbd_ep_set_stall e u = upd_ep e (\<lambda>x. x\<lparr>ep_stalled := True\<rparr>) (dcd (EpSetStall (EP_ADDRESS e u)) u)"

definition rt_usbd_ep_clear_stall :: "nat \<Rightarrow> 'c usb \<Rightarrow> 'c usb" where
  "rt_usbd_ep_clear_stall e u = upd_ep e (\<lambda>x. x\<lparr>ep_stalled := False\<rparr>) (dcd (EpClearStall (EP_ADDRESS e u)) u)"

definition rt_usbd_set_feature :: "u16 \<Rightarrow> u16 \<Rightarrow> 'c usb \<Rightarrow> 'c usb" where
  "rt_usbd_set_feature value index u =
     (if value = 1 then u else if value = 0 then dcd (EpSetStall (ucast (index AND 0xFF))) u else u)"

definition rt_usbd_clear_feature :: "u16 \<Rightarrow> u16 \<Rightarrow> 'c usb \<Rightarrow> 'c usb" where
  "rt_usbd_clear_feature value index u =
     (if value = 1 then u else if value = 0 then dcd (EpClearStall (ucast (index AND 0xFF))) u else u)"

text \<open>One packet of a transmission: \<open>rt_usbd_ep_write\<close>.\<close>

definition rt_usbd_ep_write :: "nat \<Rightarrow> 'c usb \<Rightarrow> 'c usb option" where
  "rt_usbd_ep_write e u =
     (let maxpacket = EP_MAXPACKET e u; r = ep_request (eps u e)
      in if req_remain_size r \<ge> ucast maxpacket then
           map_option (upd_request e (\<lambda>r. r\<lparr>req_remain_size := req_remain_size r - ucast maxpacket,
                                             req_buffer := ptr_add (req_buffer r) (unat maxpacket)\<rparr>))
             (dcd_ep_write (EP_ADDRESS e u) (req_buffer r) (unat maxpacket) u)
         else
           map_option (upd_request e (\<lambda>r. r\<lparr>req_remain_size := 0\<rparr>))
             (dcd_ep_write (EP_ADDRESS e u) (req_buffer r) (unat (req_remain_size r)) u))"

definition rt_usbd_ep_read_prepare :: "nat \<Rightarrow> uptr \<Rightarrow> u32 \<Rightarrow> 'c usb \<Rightarrow> 'c usb" where
  "rt_usbd_ep_read_prepare e p sz u =
     dcd (EpReadPrepare (EP_ADDRESS e u) p (if sz > ucast (EP_MAXPACKET e u) then ucast (EP_MAXPACKET e u) else sz)) u"

text \<open>Every caller passes the endpoint's own request.\<close>

definition rt_usbd_io_request :: "nat \<Rightarrow> 'c usb \<Rightarrow> 'c usb option" where
  "rt_usbd_io_request e u =
     (if \<not> ep_stalled (eps u e) then
        let u = upd_request e (\<lambda>r. r\<lparr>req_remain_size := req_size r\<rparr>) u; r = ep_request (eps u e)
        in case req_type r of
             UIO_REQUEST_READ_BEST \<Rightarrow> Some (rt_usbd_ep_read_prepare e (req_buffer r) (req_size r) u)
           | UIO_REQUEST_READ_FULL \<Rightarrow> Some (rt_usbd_ep_read_prepare e (req_buffer r) (req_size r) u)
           | UIO_REQUEST_WRITE \<Rightarrow> rt_usbd_ep_write e u
      else Some (upd_ep e (\<lambda>x. x\<lparr>ep_queued := True\<rparr>) u))"

definition rt_usbd_ep0_write :: "u8 list \<Rightarrow> u32 \<Rightarrow> 'c usb \<Rightarrow> 'c usb option" where
  "rt_usbd_ep0_write bytes sz u =
     (let u = u\<lparr>ep0_request := (ep0_request u)\<lparr>req_size := sz, req_buffer := PBytes bytes, req_remain_size := sz\<rparr>,
                ep0_stage := STAGE_DIN\<rparr>;
          sent = (if sz \<ge> ucast (ep0_maxpacket u) then unat (ep0_maxpacket u) else unat sz)
      in dcd_ep_write EP0_IN_ADDR (PBytes bytes) sent u)"

definition rt_usbd_ep0_read :: "uptr \<Rightarrow> u32 \<Rightarrow> nat option \<Rightarrow> 'c usb \<Rightarrow> 'c usb" where
  "rt_usbd_ep0_read p sz rx_ind u =
     dcd (EpReadPrepare EP0_OUT_ADDR p (if sz \<ge> ucast (ep0_maxpacket u) then ucast (ep0_maxpacket u) else sz))
       (u\<lparr>ep0_request := (ep0_request u)\<lparr>req_buffer := p, req_remain_size := sz\<rparr>, ep0_rx_indicate := rx_ind,
          ep0_stage := STAGE_DOUT\<rparr>)"

text \<open>\<open>remain\<close> is the new \<open>remain_size\<close> as a signed number.\<close>

definition rt_usbd_ep0_in_handler :: "'c usb \<Rightarrow> 'c usb option" where
  "rt_usbd_ep0_in_handler u =
     (if ep0_stage u \<noteq> STAGE_DIN then Some u
      else
        let mps = ucast (ep0_maxpacket u) :: u32;
            u = u\<lparr>ep0_request := (ep0_request u)\<lparr>req_remain_size := req_remain_size (ep0_request u) - mps\<rparr>\<rparr>;
            remain = sint (req_remain_size (ep0_request u))
        in if remain > 0 then
             let n = (if remain \<ge> sint mps then nat (sint mps) else nat remain);
                 u = u\<lparr>ep0_request := (ep0_request u)\<lparr>req_buffer := ptr_add (req_buffer (ep0_request u)) (unat mps)\<rparr>\<rparr>
             in dcd_ep_write EP0_IN_ADDR (req_buffer (ep0_request u)) n u
           else if remain = 0 \<and> req_size (ep0_request u) > 0 then
             let u = u\<lparr>ep0_request := (ep0_request u)\<lparr>req_size := 0\<rparr>\<rparr>
             in dcd_ep_write EP0_IN_ADDR PNull 0 u
           else Some (dcd (EpReadPrepare EP0_OUT_ADDR PNull 0) (u\<lparr>ep0_stage := STAGE_STATUS_OUT\<rparr>)))"


section \<open>Notifications\<close>

definition call_handler :: "'c class_ops \<Rightarrow> nat \<Rightarrow> nat \<Rightarrow> u32 \<Rightarrow> 'c usb \<Rightarrow> 'c usb option" where
  "call_handler ops e f sz u = co_endpoint ops (ep_handler (eps u e)) f sz u"

definition data_notify_in :: "'c class_ops \<Rightarrow> nat \<Rightarrow> nat \<Rightarrow> u32 \<Rightarrow> 'c usb \<Rightarrow> 'c usb option" where
  "data_notify_in ops e f sz u =
     (let r = ep_request (eps u e); mps = EP_MAXPACKET e u
      in if req_remain_size r \<ge> ucast mps then
           map_option (upd_request e (\<lambda>r. r\<lparr>req_remain_size := req_remain_size r - ucast mps,
                                             req_buffer := ptr_add (req_buffer r) (unat mps)\<rparr>))
             (dcd_ep_write (EP_ADDRESS e u) (req_buffer r) (unat mps) u)
         else if req_remain_size r > 0 then
           map_option (upd_request e (\<lambda>r. r\<lparr>req_remain_size := 0\<rparr>))
             (dcd_ep_write (EP_ADDRESS e u) (req_buffer r) (unat (req_remain_size r)) u)
         else call_handler ops e f sz u)"

definition data_notify_out :: "'c class_ops \<Rightarrow> nat \<Rightarrow> nat \<Rightarrow> u32 \<Rightarrow> 'c usb \<Rightarrow> 'c usb option" where
  "data_notify_out ops e f sz u =
     (if req_remain_size (ep_request (eps u e)) = 0 then Some u
      else
        let sz = (if sz = 0 then dcd_ep_read else sz);
            u = upd_request e (\<lambda>r. r\<lparr>req_remain_size := req_remain_size r - sz, req_buffer := ptr_add (req_buffer r) (unat sz)\<rparr>) u;
            r = ep_request (eps u e)
        in if req_type r = UIO_REQUEST_READ_BEST then call_handler ops e f sz u
           else if req_remain_size r = 0 then call_handler ops e f (req_size r) u
           else Some (rt_usbd_ep_read_prepare e (req_buffer r) (req_remain_size r) u))"

definition data_notify :: "'c class_ops \<Rightarrow> u8 \<Rightarrow> u32 \<Rightarrow> 'c usb \<Rightarrow> (err \<times> 'c usb) option" where
  "data_notify ops addr sz u =
     (if dev_state u \<noteq> USB_STATE_CONFIGURED then Some (- RT_ERROR, u)
      else
        case rt_usbd_find_endpoint addr u of
          None \<Rightarrow> None
        | Some None \<Rightarrow> Some (- RT_ERROR, u)
        | Some (Some (e, f)) \<Rightarrow>
            map_option (Pair RT_EOK)
              (if EP_ADDRESS e u AND USB_DIR_IN \<noteq> 0 then data_notify_in ops e f sz u else data_notify_out ops e f sz u))"

definition ep0_out_notify :: "'c class_ops \<Rightarrow> u32 \<Rightarrow> 'c usb \<Rightarrow> 'c usb option" where
  "ep0_out_notify ops sz u =
     (if req_remain_size (ep0_request u) = 0 then Some u
      else
        let sz = (if sz = 0 then dcd_ep_read else sz)
        in if sz = 0 then Some u
           else
             let r = ep0_request u;
                 r = r\<lparr>req_remain_size := req_remain_size r - sz, req_buffer := ptr_add (req_buffer r) (unat sz)\<rparr>;
                 u = u\<lparr>ep0_request := r\<rparr>
             in if req_remain_size r = 0
                then (case ep0_rx_indicate u of None \<Rightarrow> Some u | Some h \<Rightarrow> co_rx_indicate ops h sz u)
                else Some (rt_usbd_ep0_read (req_buffer r) (req_remain_size r) (ep0_rx_indicate u) u))"

definition sof_notify :: "'c class_ops \<Rightarrow> 'c usb \<Rightarrow> 'c usb option" where
  "sof_notify ops u =
     Option.bind (curr_cfg u) (\<lambda>c.
       foldm (\<lambda>f u. case co_sof ops of None \<Rightarrow> Some u | Some g \<Rightarrow> g f u) (cf_func_list (cfgs u c)) u)"

definition FUNC_ENABLE :: "'c class_ops \<Rightarrow> nat \<Rightarrow> 'c usb \<Rightarrow> 'c usb option" where
  "FUNC_ENABLE ops f u =
     (if \<not> fn_enabled (funcs u f) then
        map_option (\<lambda>(r, u). if r = RT_EOK then upd_fn f (\<lambda>x. x\<lparr>fn_enabled := True\<rparr>) u else u) (co_enable ops f u)
      else Some u)"

definition FUNC_DISABLE :: "'c class_ops \<Rightarrow> nat \<Rightarrow> 'c usb \<Rightarrow> 'c usb option" where
  "FUNC_DISABLE ops f u =
     (if fn_enabled (funcs u f) then co_disable ops f (upd_fn f (\<lambda>x. x\<lparr>fn_enabled := False\<rparr>) u) else Some u)"

definition stop_notify :: "'c class_ops \<Rightarrow> 'c usb \<Rightarrow> 'c usb option" where
  "stop_notify ops u = Option.bind (curr_cfg u) (\<lambda>c. foldm (FUNC_DISABLE ops) (cf_func_list (cfgs u c)) u)"

section \<open>Control requests\<close>

definition get_device_descriptor :: "urequest \<Rightarrow> 'c usb \<Rightarrow> 'c usb option" where
  "get_device_descriptor setup u =
     rt_usbd_ep0_write (dev_desc u) (if wLength setup > 0x12 then 0x12 else ucast (wLength setup)) u"

text \<open>The bytes of \<open>struct uconfig_descriptor\<close>.\<close>

definition cfg_desc_bytes :: "uconfig \<Rightarrow> u8 list" where
  "cfg_desc_bytes c =
     [9, 2] @ le_u16 (cd_wTotalLength c) @ [cd_bNumInterfaces c, cd_bConfigurationValue c, 0, cd_bmAttributes c, cd_MaxPower c] @ cd_data c"

definition get_config_descriptor :: "urequest \<Rightarrow> 'c usb \<Rightarrow> 'c usb option" where
  "get_config_descriptor setup u =
     Option.bind (curr_cfg u) (\<lambda>c.
       rt_usbd_ep0_write (cfg_desc_bytes (cfgs u c))
         (if wLength setup > cd_wTotalLength (cfgs u c) then ucast (cd_wTotalLength (cfgs u c)) else ucast (wLength setup)) u)"

text \<open>The string descriptor is built in 64 bytes on the stack; \<open>device->str\<close> is an array.\<close>

definition get_string_descriptor :: "urequest \<Rightarrow> 'c usb \<Rightarrow> (err \<times> 'c usb) option" where
  "get_string_descriptor setup u =
     (let index = ucast (wValue setup AND 0xFF) :: u8;
          index = (if index = 0xEE then 6 else index)
      in if index > 6 then Some (- RT_ERROR, rt_usbd_ep0_set_stall u)
         else
           let d = (if index = 0 then Some (4, [9, 4])
                    else if unat index < length (dev_str u) then
                      let s = dev_str u ! unat index
                      in if 2 * length s \<le> 64
                         then Some (of_nat (2 * length s + 2) :: u8, concat (map (\<lambda>c. [of_char c, 0]) s))
                         else None
                    else None)
           in case d of
                None \<Rightarrow> None
              | Some (bLength, str) \<Rightarrow>
                  let len = (if wLength setup > ucast bLength then ucast bLength else ucast (wLength setup)) :: u32
                  in map_option (Pair RT_EOK) (rt_usbd_ep0_write (bLength # 3 # str) len u))"

definition get_qualifier_descriptor :: "'c usb \<Rightarrow> 'c usb option" where
  "get_qualifier_descriptor u =
     (case dev_qualifier u of
        Some q \<Rightarrow> if device_is_hs u then rt_usbd_ep0_write q 10 u else Some (rt_usbd_ep0_set_stall u)
      | None \<Rightarrow> Some (rt_usbd_ep0_set_stall u))"

definition get_descriptor :: "urequest \<Rightarrow> 'c usb \<Rightarrow> 'c usb option" where
  "get_descriptor setup u =
     (if request_type setup = 0x80 then
        let t = drop_bit 8 (wValue setup)
        in if t = 1 then get_device_descriptor setup u
           else if t = 2 then get_config_descriptor setup u
           else if t = 3 then map_option snd (get_string_descriptor setup u)
           else if t = 6 then (if device_is_hs u then get_qualifier_descriptor u else Some (rt_usbd_ep0_set_stall u))
           else if t = 7 then get_config_descriptor setup u
           else Some (rt_usbd_ep0_set_stall u)
      else Some (rt_usbd_ep0_set_stall u))"

definition get_interface :: "urequest \<Rightarrow> 'c usb \<Rightarrow> 'c usb option" where
  "get_interface setup u =
     (if dev_state u \<noteq> USB_STATE_CONFIGURED then Some (rt_usbd_ep0_set_stall u)
      else do {
        fi \<leftarrow> rt_usbd_find_interface (ucast (wIndex setup AND 0xFF)) u;
        (f, i) \<leftarrow> fi;
        s \<leftarrow> if_curr_setting (intfs u i);
        value \<leftarrow> bAlternateSetting s u;
        rt_usbd_ep0_write [value] 1 u
      })"

definition restart_ep :: "nat \<Rightarrow> 'c usb \<Rightarrow> 'c usb" where
  "restart_ep e u = dcd (EpEnable (EP_ADDRESS e u) (EP_MAXPACKET e u) (EP_ATTRIBUTES e u)) (dcd (EpDisable (EP_ADDRESS e u)) u)"

definition set_interface :: "urequest \<Rightarrow> 'c usb \<Rightarrow> 'c usb option" where
  "set_interface setup u =
     (if dev_state u \<noteq> USB_STATE_CONFIGURED then Some (rt_usbd_ep0_set_stall u)
      else do {
        fi \<leftarrow> rt_usbd_find_interface (ucast (wIndex setup AND 0xFF)) u;
        (f, i) \<leftarrow> fi;
        u \<leftarrow> rt_usbd_set_altsetting i (ucast (wValue setup AND 0xFF)) u;
        s \<leftarrow> if_curr_setting (intfs u i);
        Some (dcd Ep0SendStatus (fold restart_ep (as_ep_list (settings u s)) u))
      })"

definition get_config :: "'c usb \<Rightarrow> 'c usb option" where
  "get_config u =
     (if dev_state u = USB_STATE_CONFIGURED
      then Option.bind (curr_cfg u) (\<lambda>c. rt_usbd_ep0_write [cd_bConfigurationValue (cfgs u c)] 1 u)
      else rt_usbd_ep0_write [0] 1 u)"

text \<open>One function of the configuration: its endpoints, then the function itself.\<close>

definition start_function :: "'c class_ops \<Rightarrow> nat \<Rightarrow> 'c usb \<Rightarrow> 'c usb option" where
  "start_function ops f u = do {
     u \<leftarrow> foldm (\<lambda>i u. map_option (\<lambda>s. fold restart_ep (as_ep_list (settings u s)) u) (if_curr_setting (intfs u i)))
            (fn_intf_list (funcs u f)) u;
     FUNC_ENABLE ops f u
   }"

definition set_config :: "'c class_ops \<Rightarrow> urequest \<Rightarrow> 'c usb \<Rightarrow> (err \<times> 'c usb) option" where
  "set_config ops setup u =
     (if wValue setup > ucast (bNumConfigurations u) then Some (- RT_ERROR, rt_usbd_ep0_set_stall u)
      else if wValue setup = 0 then Some (RT_EOK, dcd Ep0SendStatus (u\<lparr>dev_state := USB_STATE_ADDRESS\<rparr>))
      else do {
        let u = rt_usbd_set_config (ucast (wValue setup)) u;
        c \<leftarrow> curr_cfg u;
        u \<leftarrow> foldm (start_function ops) (cf_func_list (cfgs u c)) u;
        Some (RT_EOK, dcd Ep0SendStatus (u\<lparr>dev_state := USB_STATE_CONFIGURED\<rparr>))
      })"

definition set_address :: "urequest \<Rightarrow> 'c usb \<Rightarrow> 'c usb" where
  "set_address setup u = (dcd Ep0SendStatus (dcd (SetAddress (ucast (wValue setup))) u))\<lparr>dev_state := USB_STATE_ADDRESS\<rparr>"

definition request_interface :: "'c class_ops \<Rightarrow> urequest \<Rightarrow> 'c usb \<Rightarrow> (err \<times> 'c usb) option" where
  "request_interface ops setup u =
     (case rt_usbd_find_interface (ucast (wIndex setup AND 0xFF)) u of
        None \<Rightarrow> None
      | Some None \<Rightarrow> Some (- RT_ERROR, u)
      | Some (Some (f, i)) \<Rightarrow> co_interface ops (if_handler (intfs u i)) f setup u)"

definition device_request :: "'c class_ops \<Rightarrow> urequest \<Rightarrow> 'c usb \<Rightarrow> 'c usb option" where
  "device_request ops setup u =
     (let b = bRequest setup
      in if b = 0 then rt_usbd_ep0_write [0, 0] 2 u
         else if b = 1 then Some (dcd Ep0SendStatus (rt_usbd_clear_feature (wValue setup) (wIndex setup) u))
         else if b = 3 then Some (rt_usbd_set_feature (wValue setup) (wIndex setup) u)
         else if b = 5 then Some (set_address setup u)
         else if b = 6 then get_descriptor setup u
         else if b = 7 then Some (rt_usbd_ep0_set_stall u)
         else if b = 8 then get_config u
         else if b = 9 then map_option snd (set_config ops setup u)
         else Some (rt_usbd_ep0_set_stall u))"

definition interface_request :: "'c class_ops \<Rightarrow> urequest \<Rightarrow> 'c usb \<Rightarrow> (err \<times> 'c usb) option" where
  "interface_request ops setup u =
     (let b = bRequest setup
      in if b = 0x0A then map_option (Pair RT_EOK) (get_interface setup u)
         else if b = 0x0B then map_option (Pair RT_EOK) (set_interface setup u)
         else map_option (\<lambda>(r, u). if r \<noteq> RT_EOK then (- RT_ERROR, rt_usbd_ep0_set_stall u) else (RT_EOK, u))
                (request_interface ops setup u))"

definition clear_ep_halt :: "nat \<Rightarrow> urequest \<Rightarrow> 'c usb \<Rightarrow> 'c usb option" where
  "clear_ep_halt e setup u =
     (if ep_stalled (eps u e) then
        let u = dcd Ep0SendStatus (rt_usbd_clear_feature (wValue setup) (wIndex setup) u);
            u = upd_ep e (\<lambda>x. x\<lparr>ep_stalled := False\<rparr>) u
        in map_option (upd_ep e (\<lambda>x. x\<lparr>ep_queued := False\<rparr>)) (if ep_queued (eps u e) then rt_usbd_io_request e u else Some u)
      else Some u)"

definition endpoint_request :: "urequest \<Rightarrow> 'c usb \<Rightarrow> 'c usb option" where
  "endpoint_request setup u =
     (let b = bRequest setup; addr = ucast (wIndex setup) :: u8
      in if b = 0 then do {
           ef \<leftarrow> rt_usbd_find_endpoint addr u;
           (e, f) \<leftarrow> ef;
           rt_usbd_ep0_write [if ep_stalled (eps u e) then 1 else 0, 0] 2 u
         }
         else if b = 1 then do {
           ef \<leftarrow> rt_usbd_find_endpoint addr u;
           if wValue setup = 0 then do { (e, f) \<leftarrow> ef; clear_ep_halt e setup u } else Some u
         }
         else if b = 3 then
           (if wValue setup = 0 then do {
              ef \<leftarrow> rt_usbd_find_endpoint addr u;
              (e, f) \<leftarrow> ef;
              Some (dcd Ep0SendStatus (rt_usbd_set_feature (wValue setup) (wIndex setup) (upd_ep e (\<lambda>x. x\<lparr>ep_stalled := True\<rparr>) u)))
            } else Some u)
         else if b = 0x0C then Some u
         else Some (rt_usbd_ep0_set_stall u))"

definition standard_request :: "'c class_ops \<Rightarrow> urequest \<Rightarrow> 'c usb \<Rightarrow> (err \<times> 'c usb) option" where
  "standard_request ops setup u =
     (let r = request_type setup AND 0x1f
      in if r = 0 then map_option (Pair RT_EOK) (device_request ops setup u)
         else if r = 1 then interface_request ops setup u
         else if r = 2 then map_option (Pair RT_EOK) (endpoint_request setup u)
         else Some (RT_EOK, rt_usbd_ep0_set_stall u))"

definition function_request :: "'c class_ops \<Rightarrow> urequest \<Rightarrow> 'c usb \<Rightarrow> (err \<times> 'c usb) option" where
  "function_request ops setup u =
     (case curr_cfg u of
        None \<Rightarrow> None
      | Some c \<Rightarrow>
          if wIndex setup > ucast (cd_bNumInterfaces (cfgs u c)) then Some (- RT_ERROR, rt_usbd_ep0_set_stall u)
          else
            let r = request_type setup AND 0x1f
            in if r = 1 then
                 (case rt_usbd_find_interface (ucast (wIndex setup AND 0xFF)) u of
                    None \<Rightarrow> None
                  | Some None \<Rightarrow> Some (RT_EOK, rt_usbd_ep0_set_stall u)
                  | Some (Some (f, i)) \<Rightarrow> map_option (\<lambda>(_, u). (RT_EOK, u)) (co_interface ops (if_handler (intfs u i)) f setup u))
               else if r = 2 then Some (RT_EOK, u)
               else Some (RT_EOK, rt_usbd_ep0_set_stall u))"

text \<open>The compatible-ID descriptor: a header of 16 bytes and 24 bytes for each function, built once.\<close>

definition comp_id_bytes :: "u8 list list \<Rightarrow> u8 list" where
  "comp_id_bytes fs =
     (let n = of_nat (16 + 24 * length fs) :: u32
      in [ucast n, ucast (drop_bit 8 n), ucast (drop_bit 16 n), ucast (drop_bit 24 n)] @ [0, 1, 4, 0, of_nat (length fs)] @
         replicate 7 0 @ concat fs)"

definition vendor_request :: "'c class_ops \<Rightarrow> urequest \<Rightarrow> 'c usb \<Rightarrow> 'c usb option" where
  "vendor_request ops setup u =
     (if bRequest setup = 0x41 then
        if wIndex setup = 4 then
          if os_func_desc u = [] then Some (rt_usbd_ep0_set_stall u)
          else
            let u = (if usb_comp_id_desc u = None then u\<lparr>usb_comp_id_desc := Some (comp_id_bytes (os_func_desc u))\<rparr> else u)
            in rt_usbd_ep0_write (the (usb_comp_id_desc u)) (ucast (wLength setup)) u
        else if wIndex setup = 5 then
          (case rt_usbd_find_interface (ucast (wValue setup AND 0xFF)) u of
             None \<Rightarrow> None
           | Some None \<Rightarrow> Some u
           | Some (Some (f, i)) \<Rightarrow> map_option snd (co_interface ops (if_handler (intfs u i)) f setup u))
        else Some u
      else Some u)"

definition setup_request :: "'c class_ops \<Rightarrow> urequest \<Rightarrow> 'c usb \<Rightarrow> (err \<times> 'c usb) option" where
  "setup_request ops setup u =
     (let t = request_type setup AND 0x60
      in if t = 0 then map_option (\<lambda>(_, u). (RT_EOK, u)) (standard_request ops setup u)
         else if t = 0x20 then map_option (\<lambda>(_, u). (RT_EOK, u)) (function_request ops setup u)
         else if t = 0x40 then map_option (Pair RT_EOK) (vendor_request ops setup u)
         else Some (- RT_ERROR, rt_usbd_ep0_set_stall u))"

section \<open>The device thread\<close>

datatype udev_msg =
    USB_MSG_SETUP_NOTIFY urequest | USB_MSG_DATA_NOTIFY u8 u32 | USB_MSG_EP0_OUT u32 | USB_MSG_SOF
  | USB_MSG_RESET | USB_MSG_PLUG_IN | USB_MSG_PLUG_OUT

text \<open>One turn of the loop of \<open>rt_usbd_thread_entry\<close>, for the message it has received.\<close>

fun rt_usbd_thread_step :: "'c class_ops \<Rightarrow> udev_msg \<Rightarrow> 'c usb \<Rightarrow> 'c usb option" where
  "rt_usbd_thread_step ops (USB_MSG_SETUP_NOTIFY setup) u = map_option snd (setup_request ops setup u)"
| "rt_usbd_thread_step ops (USB_MSG_DATA_NOTIFY addr sz) u = map_option snd (data_notify ops addr sz u)"
| "rt_usbd_thread_step ops (USB_MSG_EP0_OUT sz) u = ep0_out_notify ops sz u"
| "rt_usbd_thread_step ops USB_MSG_SOF u = sof_notify ops u"
| "rt_usbd_thread_step ops USB_MSG_RESET u =
     map_option (\<lambda>u. u\<lparr>dev_state := USB_STATE_NOTATTACHED\<rparr>)
       (if dev_state u = USB_STATE_ADDRESS \<or> dev_state u = USB_STATE_CONFIGURED then stop_notify ops u else Some u)"
| "rt_usbd_thread_step ops USB_MSG_PLUG_IN u = Some (u\<lparr>dev_state := USB_STATE_ATTACHED\<rparr>)"
| "rt_usbd_thread_step ops USB_MSG_PLUG_OUT u = stop_notify ops (u\<lparr>dev_state := USB_STATE_NOTATTACHED\<rparr>)"

fun rt_usbd_thread_run :: "'c class_ops \<Rightarrow> udev_msg list \<Rightarrow> 'c usb \<Rightarrow> 'c usb option" where
  "rt_usbd_thread_run ops [] u = Some u"
| "rt_usbd_thread_run ops (m # ms) u = Option.bind (rt_usbd_thread_step ops m u) (rt_usbd_thread_run ops ms)"

end
