(* ===== verification/Usb_Transfer.thy ===== *)
theory Usb_Transfer
  imports Usb_Core
begin

text \<open>
  Transfers of the USB device core: how data is cut into packets, what a control read on endpoint 0
  sends until its status stage, and what a write request on a data endpoint sends until the class hears of it.
\<close>

section \<open>Cutting data into packets\<close>

text \<open>\<open>chunks\<close>: full packets and a rest; \<open>packets\<close> ends with a packet that is not full, if need be an empty one.\<close>

function chunks :: "nat \<Rightarrow> 'a list \<Rightarrow> 'a list list" where
  "chunks m d = (if m = 0 \<or> length d \<le> m then [d] else take m d # chunks m (drop m d))"
  by pat_completeness auto
termination by (relation "measure (\<lambda>(m, d). length d)") auto

function packets :: "nat \<Rightarrow> 'a list \<Rightarrow> 'a list list" where
  "packets m d = (if m = 0 \<or> length d < m then [d] else take m d # packets m (drop m d))"
  by pat_completeness auto
termination by (relation "measure (\<lambda>(m, d). length d)") auto

declare chunks.simps [simp del] packets.simps [simp del]

lemma chunks_le: "length d \<le> m \<Longrightarrow> chunks m d = [d]"
  by (subst chunks.simps) simp

lemma chunks_gt: "0 < m \<Longrightarrow> m < length d \<Longrightarrow> chunks m d = take m d # chunks m (drop m d)"
  by (subst chunks.simps) simp

lemma packets_lt: "length d < m \<Longrightarrow> packets m d = [d]"
  by (subst packets.simps) simp

lemma packets_ge: "0 < m \<Longrightarrow> m \<le> length d \<Longrightarrow> packets m d = take m d # packets m (drop m d)"
  by (subst packets.simps) simp

lemma packets_not_Nil [simp]: "packets m d \<noteq> []" "chunks m d \<noteq> []"
  by (subst packets.simps, simp) (subst chunks.simps, simp)

lemma packets_induct [consumes 1, case_names short full]:
  assumes "0 < (m :: nat)" "\<And>d. length d < m \<Longrightarrow> P d" "\<And>d. m \<le> length d \<Longrightarrow> P (drop m d) \<Longrightarrow> P d"
  shows "P d"
proof (induction d rule: length_induct)
  case (1 d)
  then show ?case using assms by (cases "length d < m") auto
qed

lemma packets_chunks:
  assumes "0 < m"
  shows "packets m d = chunks m d @ (if d \<noteq> [] \<and> m dvd length d then [[]] else [])"
  using assms
proof (induction d rule: packets_induct)
  case (short d)
  then have "\<not> (d \<noteq> [] \<and> m dvd length d)" by (auto dest: dvd_imp_le)
  then show ?case using short by (simp add: packets_lt chunks_le)
next
  case (full d)
  show ?case
  proof (cases "length d = m")
    case True
    then have "packets m d = [d, []]" using packets_ge [OF assms full.hyps] assms by (simp add: packets_lt)
    then show ?thesis using True assms by (auto simp: chunks_le)
  next
    case False
    then have "m < length d" using full.hyps by simp
    moreover from this have "m dvd length d - m \<longleftrightarrow> m dvd length d" by (simp add: dvd_minus_self)
    ultimately have "chunks m d = take m d # chunks m (drop m d)" "(drop m d \<noteq> [] \<and> m dvd length (drop m d)) = (d \<noteq> [] \<and> m dvd length d)"
      using chunks_gt [OF assms] by auto
    then show ?thesis unfolding packets_ge [OF assms full.hyps] full.IH by (simp only: append_Cons)
  qed
qed

lemma hd_packets: "0 < m \<Longrightarrow> hd (packets m d) = take m d"
  by (cases "length d < m") (simp_all add: packets_lt packets_ge)

lemma packets_props:
  assumes "0 < m"
  shows "concat (packets m d) = d" "length (packets m d) = length d div m + 1"
    "\<forall>p \<in> set (butlast (packets m d)). length p = m" "length (last (packets m d)) < m"
proof -
  have "concat (packets m d) = d \<and> length (packets m d) = length d div m + 1 \<and>
    (\<forall>p \<in> set (butlast (packets m d)). length p = m) \<and> length (last (packets m d)) < m"
    using assms
  proof (induction d rule: packets_induct)
    case (full d)
    have "length d div m = Suc (length (drop m d) div m)" using full.hyps assms by (simp add: le_div_geq)
    then have "length (take m d # packets m (drop m d)) = length d div m + 1" using full.IH by (metis Suc_eq_plus1 length_Cons)
    moreover have "concat (take m d # packets m (drop m d)) = d" using full.IH by simp
    moreover have "length (take m d) = m" using full.hyps by simp
    ultimately show ?case unfolding packets_ge [OF assms full.hyps] using full.IH by simp
  qed (simp add: packets_lt)
  then show "concat (packets m d) = d" "length (packets m d) = length d div m + 1"
    "\<forall>p \<in> set (butlast (packets m d)). length p = m" "length (last (packets m d)) < m" by blast+
qed

section \<open>Reading from the device on endpoint 0\<close>

fun ep0_acks :: "nat \<Rightarrow> 'c usb \<Rightarrow> 'c usb option" where
  "ep0_acks 0 u = Some u"
| "ep0_acks (Suc n) u = Option.bind (rt_usbd_ep0_in_handler u) (ep0_acks n)"

lemma sint_diff:
  fixes a b :: u32
  assumes "unat a = x" "unat b = y" "x < 2 ^ 31" "y < 2 ^ 31"
  shows "sint (a - b) = int x - int y"
proof -
  have "sint (word_of_int z :: u32) = z" if "- (2 ^ 31) \<le> z" "z < 2 ^ 31" for z
    using that by (simp add: signed_of_int signed_take_bit_int_eq_self)
  moreover have "a - b = word_of_int (int x - int y)" using assms(1,2) by (auto simp: of_int_diff)
  ultimately show ?thesis using assms(3,4) by (simp del: of_int_diff)
qed

lemma ep0_simps:
  "dcd_calls (u\<lparr>ep0_request := r\<rparr>) = dcd_calls u" "dcd_calls (u\<lparr>ep0_stage := st\<rparr>) = dcd_calls u"
  "dcd_calls (dcd c u) = dcd_calls u @ [c]" "ep0_request (dcd c u) = ep0_request u" "ep0_stage (dcd c u) = ep0_stage u"
  "ep_pool (dcd c u) = ep_pool u"
  by (simp_all add: dcd_def)

text \<open>
  The acknowledgements after a packet has been written: \<open>b\<close> are the bytes from that packet on, \<open>c\<close> what lies behind
  them in the buffer.
\<close>

lemma ep0_acks_rest:
  assumes "0 < m" "unat (ep0_maxpacket u) = m" "ep0_stage u = STAGE_DIN" "0 < req_size (ep0_request u)"
    "req_buffer (ep0_request u) = PBytes (b @ c)" "unat (req_remain_size (ep0_request u)) = length b" "0 < length b" "length b < 2 ^ 31"
  shows "\<exists>u'. ep0_acks (length b div m + 1) u = Some u' \<and> ep0_stage u' = STAGE_STATUS_OUT \<and>
    dcd_calls u' = dcd_calls u @ map (EpWrite EP0_IN_ADDR) (tl (packets m b)) @ [EpReadPrepare EP0_OUT_ADDR PNull 0]"
  using assms
proof (induction "length b" arbitrary: u b rule: less_induct)
  case less
  let ?q = "ep0_request u" and ?w = "ucast (ep0_maxpacket u) :: u32"
  have w: "unat ?w = m" "m < 2 ^ 31" using less.prems(2) unsigned_less [where 'a = nat, of "ep0_maxpacket u"] by simp_all
  have s: "sint (req_remain_size ?q - ?w) = int (length b) - int m" by (rule sint_diff) (use less.prems w in simp_all)
  have sm: "sint ?w = int m" using sint_diff [of ?w m 0 0] w by simp
  consider "length b < m" | "length b = m" | "m < length b" by linarith
  then show ?case
  proof cases
    case 1
    then show ?thesis using less.prems(3) s by (simp add: rt_usbd_ep0_in_handler_def Let_def packets_lt ep0_simps)
  next
    case 2
    have "packets m b = [b, []]" using 2 less.prems(1) packets_ge [of m b] by (simp add: packets_lt)
    moreover have "sint (- ?w) < 0" using sint_diff [of 0 0 ?w m] w less.prems(1) by simp
    moreover have "req_remain_size ?q = ?w" using 2 less.prems(6) w by (simp add: word_unat_eq_iff)
    ultimately show ?thesis using less.prems(1,3,4) 2
      by (simp add: rt_usbd_ep0_in_handler_def Let_def dcd_ep_write_def ep0_simps)
  next
    case 3
    let ?d = "drop m b"
    let ?q' = "?q\<lparr>req_remain_size := req_remain_size ?q - ?w, req_buffer := PBytes (?d @ c)\<rparr>"
    define u1 where "u1 = dcd (EpWrite EP0_IN_ADDR (take m ?d)) (u\<lparr>ep0_request := ?q'\<rparr>)"
    have n: "nat (int (length b) - int m) = length ?d" by simp
    have h: "rt_usbd_ep0_in_handler u = Some u1"
      using 3 less.prems(2,3,5) s sm n
      by (auto simp: rt_usbd_ep0_in_handler_def Let_def dcd_ep_write_def u1_def)
    have f: "ep0_maxpacket u1 = ep0_maxpacket u" "ep0_stage u1 = STAGE_DIN" "ep0_request u1 = ?q'"
      "dcd_calls u1 = dcd_calls u @ [EpWrite EP0_IN_ADDR (take m ?d)]" using less.prems(3) by (simp_all add: u1_def ep0_simps)
    have rem: "unat (req_remain_size ?q - ?w) = length ?d"
      using 3 less.prems(6) w by (simp add: unat_sub word_le_nat_alt)
    have "length ?d < length b" using 3 less.prems(1) by simp
    then have "\<exists>u'. ep0_acks (length ?d div m + 1) u1 = Some u' \<and> ep0_stage u' = STAGE_STATUS_OUT \<and>
      dcd_calls u' = dcd_calls u1 @ map (EpWrite EP0_IN_ADDR) (tl (packets m ?d)) @ [EpReadPrepare EP0_OUT_ADDR PNull 0]"
      by (rule less.hyps [OF _ less.prems(1)]) (use less.prems(2,4,8) 3 rem f in simp_all)
    then obtain u' where u': "ep0_acks (length ?d div m + 1) u1 = Some u'" "ep0_stage u' = STAGE_STATUS_OUT"
      "dcd_calls u' = dcd_calls u1 @ map (EpWrite EP0_IN_ADDR) (tl (packets m ?d)) @ [EpReadPrepare EP0_OUT_ADDR PNull 0]" by blast
    have "length b div m + 1 = Suc (length ?d div m + 1)" using 3 less.prems(1) by (simp add: le_div_geq)
    moreover have "tl (packets m b) = packets m ?d" using packets_ge [OF less.prems(1), of b] 3 by simp
    moreover have "packets m ?d = take m ?d # tl (packets m ?d)"
      by (cases "length ?d < m") (simp_all add: packets_lt packets_ge [OF less.prems(1), of ?d] del: length_drop)
    ultimately show ?thesis using h u' f(4) by (metis (no_types, lifting) append.assoc append_Cons append_Nil bind.bind_lunit ep0_acks.simps(2) list.simps(9))
  qed
qed


text \<open>
  C23. A control read on endpoint 0: when the core answers a request with \<open>n\<close> bytes, then after the
  host's acknowledgement of each packet (\<open>n div m + 1\<close> of them, for packets of \<open>m\<close> bytes) exactly these
  bytes have been sent, in order, in full packets and one that is shorter (empty if need be), which
  tells the host that the data ends; the core then waits for the status stage. It never reads
  beyond the data.
\<close>

theorem ep0_control_read:
  fixes d :: "u8 list" and n :: nat
  assumes "0 < n" "n \<le> length d" "n < 2 ^ 31" "0 < m" "m = unat (ep0_maxpacket u)"
  shows "\<exists>u1 u2 ps. rt_usbd_ep0_write d (of_nat n) u = Some u1 \<and> ep0_acks (n div m + 1) u1 = Some u2 \<and>
    ep0_stage u2 = STAGE_STATUS_OUT \<and>
    dcd_calls u2 = dcd_calls u @ map (EpWrite EP0_IN_ADDR) ps @ [EpReadPrepare EP0_OUT_ADDR PNull 0] \<and>
    concat ps = take n d \<and> length ps = n div m + 1 \<and>
    (\<forall>p \<in> set (butlast ps). length p = m) \<and> length (last ps) < m"
proof -
  let ?b = "take n d" and ?ps = "packets m (take n d)"
  have n: "unat (of_nat n :: u32) = n" using assms(3) by (simp add: unat_of_nat take_bit_nat_eq_self)
  define q where "q = (ep0_request u)\<lparr>req_size := of_nat n, req_buffer := PBytes d, req_remain_size := of_nat n\<rparr>"
  define u1 where "u1 = dcd (EpWrite EP0_IN_ADDR (take m ?b)) (u\<lparr>ep0_request := q, ep0_stage := STAGE_DIN\<rparr>)"
  have c: "(of_nat n :: u32) \<ge> ucast (ep0_maxpacket u) \<longleftrightarrow> m \<le> n"
    using n assms(5) by (simp add: word_le_nat_alt)
  have w: "rt_usbd_ep0_write d (of_nat n) u = Some u1"
    using assms(2) n unfolding rt_usbd_ep0_write_def Let_def by (cases "m \<le> n")
      (simp_all add: c dcd_ep_write_def u1_def q_def min_absorb1 min_absorb2 flip: assms(5))
  have "0 < (of_nat n :: u32)" using n assms(1) by (metis unat_gt_0 word_neq_0_conv word_gt_0)
  then have "\<exists>u'. ep0_acks (length ?b div m + 1) u1 = Some u' \<and> ep0_stage u' = STAGE_STATUS_OUT \<and>
    dcd_calls u' = dcd_calls u1 @ map (EpWrite EP0_IN_ADDR) (tl ?ps) @ [EpReadPrepare EP0_OUT_ADDR PNull 0]"
    using assms n by (intro ep0_acks_rest [where c = "drop n d"]) (simp_all add: u1_def q_def ep0_simps)
  then obtain u2 where u2: "ep0_acks (n div m + 1) u1 = Some u2" "ep0_stage u2 = STAGE_STATUS_OUT"
    "dcd_calls u2 = dcd_calls u1 @ map (EpWrite EP0_IN_ADDR) (tl ?ps) @ [EpReadPrepare EP0_OUT_ADDR PNull 0]"
    using assms(2) by (auto simp: min_absorb2)
  obtain p ps where ps: "?ps = p # ps" by (cases ?ps) auto
  have "p = take m ?b" using ps hd_packets [OF assms(4), of ?b] by (metis list.sel(1))
  then have "dcd_calls u2 = dcd_calls u @ map (EpWrite EP0_IN_ADDR) ?ps @ [EpReadPrepare EP0_OUT_ADDR PNull 0]"
    using u2(3) ps by (simp add: u1_def ep0_simps)
  moreover have "length ?b = n" using assms(2) by simp
  ultimately show ?thesis using w u2(1,2) packets_props [OF assms(4), of ?b] by (intro exI conjI) (assumption | simp)+
qed

theorem ep0_control_read_witness:
  "let u = rt_usbd_device_new [\<lparr>id_addr = 0, id_type = 0, id_dir = 0x40, id_maxpacket = 64, id_assigned = True\<rparr>] False ()
   in \<exists>u1 u2 ps. rt_usbd_ep0_write (replicate 70 7) 64 u = Some u1 \<and> ep0_acks 2 u1 = Some u2 \<and>
        dcd_calls u2 = map (EpWrite EP0_IN_ADDR) ps @ [EpReadPrepare EP0_OUT_ADDR PNull 0] \<and>
        concat ps = replicate 64 7 \<and> length ps = 2 \<and> length (last ps) < 64"
proof -
  let ?u = "rt_usbd_device_new [\<lparr>id_addr = 0, id_type = 0, id_dir = 0x40, id_maxpacket = 64, id_assigned = True\<rparr>] False ()"
  have u: "64 = unat (ep0_maxpacket ?u)" "dcd_calls ?u = []" by (simp_all add: rt_usbd_device_new_def)
  obtain u1 u2 ps where r: "rt_usbd_ep0_write (replicate 70 7) (of_nat 64) ?u = Some u1" "ep0_acks (64 div 64 + 1) u1 = Some u2"
    "dcd_calls u2 = dcd_calls ?u @ map (EpWrite EP0_IN_ADDR) ps @ [EpReadPrepare EP0_OUT_ADDR PNull 0]"
    "concat ps = take 64 (replicate 70 7)" "length ps = 64 div 64 + 1" "length (last ps) < 64"
    by (rule exE [OF ep0_control_read [OF _ _ _ _ u(1), of 64 "replicate 70 7"]]) (simp_all, blast)
  have n: "64 div 64 + 1 = (2::nat)" "min 70 64 = (64::nat)" by simp_all
  show ?thesis unfolding Let_def
    by (intro exI conjI)
      (rule r(1) [simplified] r(2,5) [unfolded n] r(3) [unfolded u(2) append_Nil] r(4) [unfolded take_replicate n] r(6)
        | simp add: r(4) min_def)+
qed


section \<open>Sending on a data endpoint\<close>

lemma find_endpoint_cong:
  assumes "intfs u' = intfs u" "settings u' = settings u" "\<And>e. ep_desc (eps u' e) = ep_desc (eps u e)"
  shows "find_endpoint addr fis u' = find_endpoint addr fis u"
proof -
  have "ep_desc_field k e u' = ep_desc_field k e u" for k e using assms by (simp add: ep_desc_field_def)
  then show ?thesis using assms(1,2) by (induction fis) (auto split: option.splits)
qed

definition same_tree :: "'c usb \<Rightarrow> 'c usb \<Rightarrow> bool" where
  "same_tree u u' \<longleftrightarrow> curr_cfg u' = curr_cfg u \<and> cfgs u' = cfgs u \<and> funcs u' = funcs u \<and> intfs u' = intfs u \<and>
     settings u' = settings u \<and> (\<forall>e. ep_desc (eps u' e) = ep_desc (eps u e))"

lemma same_tree_simps:
  assumes "same_tree u u'"
  shows "ep_desc_field k e u' = ep_desc_field k e u" "EP_MAXPACKET e u' = EP_MAXPACKET e u"
    "rt_usbd_find_endpoint addr u' = rt_usbd_find_endpoint addr u" "cfg_intfs c u' = cfg_intfs c u"
    "rt_usbd_find_interface b u' = rt_usbd_find_interface b u" "bAlternateSetting s u' = bAlternateSetting s u"
  using assms find_endpoint_cong [of u' u]
  by (simp_all add: same_tree_def ep_desc_field_def EP_MAXPACKET_def rt_usbd_find_endpoint_def cfg_intfs_def rt_usbd_find_interface_def
      bAlternateSetting_def cong: option.map_cong)

lemma same_tree_upd:
  "same_tree u u" "same_tree u (dcd c u)" "same_tree u (upd_request e g u)" "same_tree u (u\<lparr>dcd_calls := cs\<rparr>)"
  "same_tree u (u\<lparr>cls := x\<rparr>)" "same_tree u (u\<lparr>dev_state := st\<rparr>)" "same_tree u (upd_ep e (\<lambda>x. x\<lparr>ep_stalled := b\<rparr>) u)"
  by (simp_all add: same_tree_def usb_upd_defs)

lemma same_tree_trans: "same_tree u v \<Longrightarrow> same_tree v w \<Longrightarrow> same_tree u w"
  by (simp add: same_tree_def)

text \<open>An endpoint of the configured device that sends packets of \<open>m\<close> bytes.\<close>

definition in_endpoint :: "nat \<Rightarrow> nat \<Rightarrow> nat \<Rightarrow> 'c usb \<Rightarrow> bool" where
  "in_endpoint e f m u \<longleftrightarrow> dev_state u = USB_STATE_CONFIGURED \<and> EP_ADDRESS e u AND USB_DIR_IN \<noteq> 0 \<and>
     rt_usbd_find_endpoint (EP_ADDRESS e u) u = Some (Some (e, f)) \<and> m = unat (EP_MAXPACKET e u) \<and> 0 < m"

lemma in_endpoint_cong: "same_tree u u' \<Longrightarrow> dev_state u' = dev_state u \<Longrightarrow> in_endpoint e f m u' = in_endpoint e f m u"
  by (simp add: in_endpoint_def same_tree_simps)

text \<open>What has been sent since \<open>u\<close>: nothing else has changed but the endpoint's request.\<close>

definition sent :: "nat \<Rightarrow> u8 list list \<Rightarrow> uptr \<Rightarrow> u32 \<Rightarrow> 'c usb \<Rightarrow> 'c usb" where
  "sent e ps q r u = (upd_request e (\<lambda>x. x\<lparr>req_buffer := q, req_remain_size := r\<rparr>) u)
     \<lparr>dcd_calls := dcd_calls u @ map (EpWrite (EP_ADDRESS e u)) ps\<rparr>"

lemma sent_tree: "same_tree u (sent e ps q r u)"
  unfolding sent_def by (rule same_tree_trans [OF same_tree_upd(3) same_tree_upd(4)])

lemma sent_simps:
  "ep_request (eps (sent e ps q r u) e) = (ep_request (eps u e))\<lparr>req_buffer := q, req_remain_size := r\<rparr>"
  "dev_state (sent e ps q r u) = dev_state u" "dcd_calls (sent e ps q r u) = dcd_calls u @ map (EpWrite (EP_ADDRESS e u)) ps"
  "ep_handler (eps (sent e ps q r u) e') = ep_handler (eps u e')" "cls (sent e ps q r u) = cls u"
  "ep_stalled (eps (sent e ps q r u) e') = ep_stalled (eps u e')"
  by (simp_all add: sent_def usb_upd_defs)

lemma sent_sent: "sent e ps' q' r' (sent e ps q r u) = sent e (ps @ ps') q' r' u"
proof -
  have "EP_ADDRESS e (sent e ps q r u) = EP_ADDRESS e u" by (rule same_tree_simps(1) [OF sent_tree])
  then show ?thesis unfolding sent_def [of e ps'] sent_def [of e "ps @ ps'"] by (simp add: sent_simps) (simp add: sent_def usb_upd_defs)
qed

lemma sent_none: "ep_request (eps u e) = q \<Longrightarrow> sent e [] (req_buffer q) (req_remain_size q) u = u"
  by (auto simp: sent_def usb_upd_defs)

lemma data_notify_in_endpoint:
  assumes "in_endpoint e f m u"
  shows "rt_usbd_thread_step ops (USB_MSG_DATA_NOTIFY (EP_ADDRESS e u) sz) u = data_notify_in ops e f sz u"
  using assms by (simp add: in_endpoint_def data_notify_def option.map_comp comp_def option.map_ident)

text \<open>What a buffer pointer holds: the bytes \<open>b\<close> can be read through it, in whatever pieces.\<close>

definition holds :: "uptr \<Rightarrow> u8 list \<Rightarrow> 'c usb \<Rightarrow> bool" where
  "holds p b u \<longleftrightarrow> (\<forall>k n. k + n \<le> length b \<longrightarrow> ptr_bytes (ptr_add p k) n u = Some (take n (drop k b)))"

lemma ptr_add_add [simp]: "ptr_add (ptr_add p m) n = ptr_add p (m + n)"
  by (cases p) (simp_all add: ac_simps)

lemma ptr_add_0 [simp]: "ptr_add p 0 = p"
  by (cases p) simp_all

lemma holds_bytes: "holds p b u \<Longrightarrow> n \<le> length b \<Longrightarrow> ptr_bytes p n u = Some (take n b)"
  unfolding holds_def by (metis add_0 drop_0 ptr_add_0)

lemma holds_drop: "holds p b u \<Longrightarrow> m \<le> length b \<Longrightarrow> holds (ptr_add p m) (drop m b) u"
  unfolding holds_def by (auto simp: add.assoc ac_simps)

lemma holds_Nil: "holds p b u \<Longrightarrow> holds p [] u"
  using holds_bytes [of p b u 0] by (simp add: holds_def)

lemma holds_cong:
  assumes "statics u' = statics u" "\<And>e. ep_buffer (eps u' e) = ep_buffer (eps u e)"
  shows "holds p b u' = holds p b u"
proof -
  have "ptr_bytes q n u' = ptr_bytes q n u" for q n using assms by (cases q) simp_all
  then show ?thesis by (simp add: holds_def)
qed

lemma holds_PBytes: "holds (PBytes (b @ c)) b u" and holds_PNull: "holds PNull [] u"
  and holds_PStatic: "take (length b) (drop i (statics u s)) = b \<Longrightarrow> i + length b \<le> length (statics u s) \<Longrightarrow> holds (PStatic s i) b u"
proof -
  show "holds (PBytes (b @ c)) b u" "holds PNull [] u" by (auto simp: holds_def)
  assume b: "take (length b) (drop i (statics u s)) = b" "i + length b \<le> length (statics u s)"
  have "take n (drop (i + k) (statics u s)) = take n (drop k b)" if "k + n \<le> length b" for k n
  proof -
    have "take n (drop k b) = take n (drop k (take (length b) (drop i (statics u s))))" using b(1) by simp
    also have "\<dots> = take n (drop (i + k) (statics u s))" using that by (simp add: drop_take min_def add.commute)
    finally show ?thesis by simp
  qed
  then show "holds (PStatic s i) b u" using b(2) by (auto simp: holds_def add.assoc)
qed

lemma sent_holds [simp]: "holds p b (sent e ps q r u) = holds p b u"
  by (rule holds_cong) (simp_all add: sent_def usb_upd_defs)

lemma notify_next_packet:
  assumes "in_endpoint e f m u" "holds (req_buffer (ep_request (eps u e))) b u" "b \<noteq> []"
    "unat (req_remain_size (ep_request (eps u e))) = length b"
  shows "\<exists>q r. rt_usbd_thread_step ops (USB_MSG_DATA_NOTIFY (EP_ADDRESS e u) sz) u = Some (sent e [take m b] q r u) \<and>
    unat r = length (drop m b) \<and> holds q (drop m b) u"
proof -
  let ?q = "ep_request (eps u e)" and ?w = "ucast (EP_MAXPACKET e u) :: u32"
  have m: "unat ?w = m" "0 < m" "unat (EP_MAXPACKET e u) = m" using assms(1) by (simp_all add: in_endpoint_def)
  have pos: "req_remain_size ?q > 0" using assms(3,4) by (metis length_greater_0_conv unat_gt_0 word_neq_0_conv)
  have s: "upd_request e g (dcd (EpWrite (EP_ADDRESS e u) p) u) = sent e [p] (req_buffer (g ?q)) (req_remain_size (g ?q)) u"
    if "\<And>x. g x = x\<lparr>req_buffer := req_buffer (g x), req_remain_size := req_remain_size (g x)\<rparr>" for g p
    using that [of ?q] by (simp add: sent_def usb_upd_defs)
  show ?thesis
  proof (cases "m \<le> length b")
    case True
    then have ge: "?w \<le> req_remain_size ?q" using m assms(4) by (simp add: word_le_nat_alt)
    have r: "unat (req_remain_size ?q - ?w) = length (drop m b)" using ge m assms(4) by (simp add: unat_sub)
    have "data_notify_in ops e f sz u = Some (upd_request e (\<lambda>r. r\<lparr>req_remain_size := req_remain_size r - ?w,
        req_buffer := ptr_add (req_buffer r) m\<rparr>) (dcd (EpWrite (EP_ADDRESS e u) (take m b)) u))"
      using ge m(3) holds_bytes [OF assms(2) True] by (simp add: data_notify_in_def dcd_ep_write_def)
    then show ?thesis unfolding data_notify_in_endpoint [OF assms(1)]
      by (subst (asm) s) (use holds_drop [OF assms(2) True] r in auto)
  next
    case False
    then have lt: "\<not> ?w \<le> req_remain_size ?q" using m assms(4) by (simp add: word_le_nat_alt)
    have "data_notify_in ops e f sz u = Some (upd_request e (\<lambda>r. r\<lparr>req_remain_size := 0\<rparr>) (dcd (EpWrite (EP_ADDRESS e u) (take m b)) u))"
      using lt pos holds_bytes [OF assms(2) order_refl] assms(4) False by (simp add: data_notify_in_def dcd_ep_write_def)
    then show ?thesis unfolding data_notify_in_endpoint [OF assms(1)]
      by (subst (asm) s) (use False holds_Nil [OF assms(2)] in \<open>auto intro!: exI [of _ 0]\<close>)
  qed
qed

lemma rt_usbd_thread_run_append:
  "rt_usbd_thread_run ops (xs @ ys) u = Option.bind (rt_usbd_thread_run ops xs u) (rt_usbd_thread_run ops ys)"
proof (induction xs arbitrary: u)
  case (Cons m xs)
  then show ?case by (cases "rt_usbd_thread_step ops m u") simp_all
qed simp

lemma chunks_Cons: "0 < m \<Longrightarrow> chunks m d = take m d # (if drop m d = [] then [] else chunks m (drop m d))"
  by (cases "length d \<le> m") (simp_all add: chunks_le chunks_gt)

lemma notify_rest:
  assumes "in_endpoint e f m u" "holds (req_buffer (ep_request (eps u e))) b u"
    "unat (req_remain_size (ep_request (eps u e))) = length b"
  shows "\<exists>q. rt_usbd_thread_run ops (replicate (length (if b = [] then [] else chunks m b)) (USB_MSG_DATA_NOTIFY (EP_ADDRESS e u) sz)) u =
    Some (sent e (if b = [] then [] else chunks m b) q 0 u)"
  using assms
proof (induction "length b" arbitrary: b u rule: less_induct)
  case less
  have m: "0 < m" using less.prems(1) by (simp add: in_endpoint_def)
  show ?case
  proof (cases "b = []")
    case True
    then have "req_remain_size (ep_request (eps u e)) = 0" using less.prems(3) by (simp add: unsigned_eq_0_iff)
    then have "sent e [] (req_buffer (ep_request (eps u e))) 0 u = u" using sent_none [of u e] by metis
    then show ?thesis using True by (intro exI [of _ "req_buffer (ep_request (eps u e))"]) simp
  next
    case False
    obtain q r where s: "rt_usbd_thread_step ops (USB_MSG_DATA_NOTIFY (EP_ADDRESS e u) sz) u = Some (sent e [take m b] q r u)"
      "unat r = length (drop m b)" "holds q (drop m b) u"
      using notify_next_packet [OF less.prems(1,2) False less.prems(3)] by blast
    let ?u = "sent e [take m b] q r u" and ?d = "drop m b"
    have a: "EP_ADDRESS e ?u = EP_ADDRESS e u" by (rule same_tree_simps(1) [OF sent_tree])
    have lt: "length ?d < length b" using False m by (simp add: diff_less)
    have ie: "in_endpoint e f m ?u" using less.prems(1) by (simp add: in_endpoint_cong [OF sent_tree sent_simps(2)])
    have "\<exists>q. rt_usbd_thread_run ops (replicate (length (if ?d = [] then [] else chunks m ?d))
        (USB_MSG_DATA_NOTIFY (EP_ADDRESS e u) sz)) ?u = Some (sent e (if ?d = [] then [] else chunks m ?d) q 0 ?u)"
      by (rule less.hyps [OF lt ie, unfolded a]) (use s(2,3) in \<open>simp_all add: sent_simps\<close>)
    then obtain q' where "rt_usbd_thread_run ops (replicate (length (if ?d = [] then [] else chunks m ?d))
        (USB_MSG_DATA_NOTIFY (EP_ADDRESS e u) sz)) ?u = Some (sent e (if ?d = [] then [] else chunks m ?d) q' 0 ?u)" by blast
    then have "rt_usbd_thread_run ops (replicate (length (take m b # (if ?d = [] then [] else chunks m ?d)))
        (USB_MSG_DATA_NOTIFY (EP_ADDRESS e u) sz)) u = Some (sent e (take m b # (if ?d = [] then [] else chunks m ?d)) q' 0 u)"
      by (simp only: length_Cons replicate_Suc rt_usbd_thread_run.simps s(1) bind.bind_lunit sent_sent append_Cons append_Nil)
    moreover have "(if b = [] then [] else chunks m b) = take m b # (if ?d = [] then [] else chunks m ?d)"
      using False by (subst chunks_Cons [OF m]) simp
    ultimately show ?thesis by (intro exI [of _ q']) (simp only:)
  qed
qed

lemma io_request_write:
  assumes "in_endpoint e f m u" "\<not> ep_stalled (eps u e)" "req_type (ep_request (eps u e)) = UIO_REQUEST_WRITE"
    "holds (req_buffer (ep_request (eps u e))) d u" "unat (req_size (ep_request (eps u e))) = length d"
  shows "\<exists>q r. rt_usbd_io_request e u = Some (sent e [take m d] q r u) \<and> unat r = length (drop m d) \<and> holds q (drop m d) u"
proof -
  let ?q = "ep_request (eps u e)" and ?w = "ucast (EP_MAXPACKET e u) :: u32"
  let ?u = "upd_request e (\<lambda>r. r\<lparr>req_remain_size := req_size r\<rparr>) u"
  have m: "unat ?w = m" "0 < m" "unat (EP_MAXPACKET e u) = m" using assms(1) by (simp_all add: in_endpoint_def)
  note t = same_tree_simps [OF same_tree_upd(3) [of u e "\<lambda>r. r\<lparr>req_remain_size := req_size r\<rparr>"]]
  have rq: "ep_request (eps ?u e) = ?q\<lparr>req_remain_size := req_size ?q\<rparr>" by (simp add: usb_upd_defs)
  have s: "upd_request e g (dcd (EpWrite (EP_ADDRESS e u) p) ?u) =
      sent e [p] (req_buffer (g (?q\<lparr>req_remain_size := req_size ?q\<rparr>))) (req_remain_size (g (?q\<lparr>req_remain_size := req_size ?q\<rparr>))) u"
    if "\<And>x. g x = x\<lparr>req_buffer := req_buffer (g x), req_remain_size := req_remain_size (g x)\<rparr>" for g p
    using that [of "?q\<lparr>req_remain_size := req_size ?q\<rparr>"] by (simp add: sent_def usb_upd_defs)
  have h: "holds p b ?u = holds p b u" for p b by (rule holds_cong) (simp_all add: usb_upd_defs)
  have bytes: "ptr_bytes (req_buffer ?q) n ?u = Some (take n d)" if "n \<le> length d" for n
    using holds_bytes [of "req_buffer ?q" d ?u] assms(4) h that by simp
  have io: "rt_usbd_io_request e u = rt_usbd_ep_write e ?u" using assms(2,3) rq by (simp add: rt_usbd_io_request_def Let_def)
  show ?thesis
  proof (cases "m \<le> length d")
    case True
    then have ge: "?w \<le> req_size ?q" using m assms(5) by (simp add: word_le_nat_alt)
    have r: "unat (req_size ?q - ?w) = length (drop m d)" using ge m assms(5) by (simp add: unat_sub)
    have "rt_usbd_ep_write e ?u = Some (upd_request e (\<lambda>r. r\<lparr>req_remain_size := req_remain_size r - ?w,
        req_buffer := ptr_add (req_buffer r) m\<rparr>) (dcd (EpWrite (EP_ADDRESS e u) (take m d)) ?u))"
      using ge m(3) bytes [OF True] by (simp add: rt_usbd_ep_write_def Let_def dcd_ep_write_def t rq)
    then show ?thesis unfolding io by (subst (asm) s) (use holds_drop [OF assms(4) True] r in auto)
  next
    case False
    then have lt: "\<not> ?w \<le> req_size ?q" using m assms(5) by (simp add: word_le_nat_alt)
    have "rt_usbd_ep_write e ?u = Some (upd_request e (\<lambda>r. r\<lparr>req_remain_size := 0\<rparr>) (dcd (EpWrite (EP_ADDRESS e u) (take m d)) ?u))"
      using lt assms(5) bytes [OF order_refl] False by (simp add: rt_usbd_ep_write_def Let_def dcd_ep_write_def t rq)
    then show ?thesis unfolding io by (subst (asm) s) (use False holds_Nil [OF assms(4)] in \<open>auto intro!: exI [of _ 0]\<close>)
  qed
qed

text \<open>
  A whole transfer: the request is sent in pieces of the packet size, one for each notification, and
  only the notification after the last reaches the class.
\<close>

lemma bulk_in_transfer:
  assumes "in_endpoint e f m u" "\<not> ep_stalled (eps u e)" "req_type (ep_request (eps u e)) = UIO_REQUEST_WRITE"
    "holds (req_buffer (ep_request (eps u e))) d u" "unat (req_size (ep_request (eps u e))) = length d"
  shows "\<exists>q. Option.bind (rt_usbd_io_request e u)
      (rt_usbd_thread_run ops (replicate (length (chunks m d) - 1) (USB_MSG_DATA_NOTIFY (EP_ADDRESS e u) sz))) =
        Some (sent e (chunks m d) q 0 u) \<and>
    rt_usbd_thread_step ops (USB_MSG_DATA_NOTIFY (EP_ADDRESS e u) sz) (sent e (chunks m d) q 0 u) =
      call_handler ops e f sz (sent e (chunks m d) q 0 u)"
proof -
  have m: "0 < m" using assms(1) by (simp add: in_endpoint_def)
  obtain q r where s: "rt_usbd_io_request e u = Some (sent e [take m d] q r u)" "unat r = length (drop m d)"
    "holds q (drop m d) u" using io_request_write [OF assms] by blast
  let ?u = "sent e [take m d] q r u" and ?d = "drop m d"
  have a: "EP_ADDRESS e (sent e ps q r u) = EP_ADDRESS e u" for ps q r by (rule same_tree_simps(1) [OF sent_tree])
  have i: "in_endpoint e f m (sent e ps q r u)" for ps q r
    using assms(1) by (simp add: in_endpoint_cong [OF sent_tree sent_simps(2)])
  have "\<exists>q. rt_usbd_thread_run ops (replicate (length (if ?d = [] then [] else chunks m ?d))
      (USB_MSG_DATA_NOTIFY (EP_ADDRESS e u) sz)) ?u = Some (sent e (if ?d = [] then [] else chunks m ?d) q 0 ?u)"
    by (rule notify_rest [OF i, unfolded a]) (use s(2,3) in \<open>simp_all add: sent_simps\<close>)
  then obtain q' where "rt_usbd_thread_run ops (replicate (length (if ?d = [] then [] else chunks m ?d))
      (USB_MSG_DATA_NOTIFY (EP_ADDRESS e u) sz)) ?u = Some (sent e (if ?d = [] then [] else chunks m ?d) q' 0 ?u)" by blast
  then have "Option.bind (rt_usbd_io_request e u)
      (rt_usbd_thread_run ops (replicate (length (chunks m d) - 1) (USB_MSG_DATA_NOTIFY (EP_ADDRESS e u) sz))) =
        Some (sent e (chunks m d) q' 0 u)"
    using s(1) by (subst (1 2) chunks_Cons [OF m, of d]) (simp add: sent_sent)
  moreover have "\<not> ucast (EP_MAXPACKET e (sent e (chunks m d) q' 0 u)) \<le> (0 :: u32)"
    using i [of "chunks m d" q' 0] by (simp add: in_endpoint_def word_le_nat_alt)
  then have "data_notify_in ops e f sz (sent e (chunks m d) q' 0 u) = call_handler ops e f sz (sent e (chunks m d) q' 0 u)"
    by (simp add: data_notify_in_def sent_simps Let_def)
  ultimately show ?thesis using data_notify_in_endpoint [OF i, of ops "chunks m d" q' 0 sz] a by metis
qed

end
