(* ===== verification/Cdc_Vcom.thy ===== *)
theory Cdc_Vcom
  imports Serial Usb_Transfer Ring_Buffer Ipc_Event
begin

text \<open>
  The virtual COM port (\<open>components/drivers/usb/usbdevice/class/cdc_vcom.c\<close>): a serial device whose hardware is a pair of bulk
  endpoints. Its struct begins with that of a serial device, and so does the record; the USB device
  carries it as the state of its class. Bytes from the host go through a ring of 128 bytes to the serial FIFO; bytes to the
  host go through a ring of 1024 bytes to a thread that sends up to 128 at a time. The buffer \<open>ch\<close> on
  the stack of that thread, which never returns, is a static place of memory.
\<close>

section \<open>Data\<close>

record vcom = rt_serial_device +
  vc_ep_out :: nat
  vc_ep_in :: nat
  vc_ep_cmd :: nat
  connected :: bool
  in_sending :: bool
  vc_wait :: nat
  rx_ringbuffer :: rt_ringbuffer
  tx_ringbuffer :: rt_ringbuffer
  tx_event :: nat

abbreviation (input) CDC_RX_BUFSIZE :: nat where "CDC_RX_BUFSIZE \<equiv> 128"
abbreviation (input) CDC_TX_BUFSIZE :: nat where "CDC_TX_BUFSIZE \<equiv> 1024"
abbreviation (input) CDC_BULKIN_MAXSIZE :: nat where "CDC_BULKIN_MAXSIZE \<equiv> 128"
abbreviation (input) CDC_TX_HAS_DATE :: u32 where "CDC_TX_HAS_DATE \<equiv> 1"
abbreviation (input) VCOM_TX_TIMEOUT :: int where "VCOM_TX_TIMEOUT \<equiv> 1000"

text \<open>Static places: the line coding, and the buffer of the transmit thread.\<close>

abbreviation (input) line_coding :: nat where "line_coding \<equiv> 0"
abbreviation (input) tx_ch :: nat where "tx_ch \<equiv> 1"

definition upd_cls :: "('c \<Rightarrow> 'c) \<Rightarrow> 'c usb \<Rightarrow> 'c usb" where
  "upd_cls g u = u\<lparr>cls := g (cls u)\<rparr>"

definition upd_kern :: "(kernel \<Rightarrow> kernel) \<Rightarrow> 'a rt_device_scheme usb \<Rightarrow> 'a rt_device_scheme usb" where
  "upd_kern g = upd_cls (\<lambda>d. d\<lparr>kern := g (kern d)\<rparr>)"

section \<open>Descriptors\<close>

definition vcom_dev_desc :: "u8 list" where
  "vcom_dev_desc = [0x12, 1, 0x00, 0x02, 2, 0, 0, 64, 0xFE, 0x0F, 0x01, 0x00, 0x00, 0x02, 1, 2, 3, 0]"

definition comm_desc :: "u8 list" where
  "comm_desc =
     [9, 4, 0, 0, 1, 2, 2, 1, 0] @ [5, 0x24, 0, 0x10, 0x01] @ [5, 0x24, 1, 0, 0] @ [4, 0x24, 2, 2] @ [5, 0x24, 6, 0, 0] @
     [7, 5, 0x80, 3, 8, 0, 0xFF]"

definition data_desc :: "u8 list" where
  "data_desc = [9, 4, 0, 0, 2, 0x0A, 0, 0, 0] @ [7, 5, 0, 2, 0x40, 0, 0] @ [7, 5, 0x80, 2, 0x40, 0, 0]"

definition vcom_ustring :: "string list" where
  "vcom_ustring = [''Language'', ''RT-Thread Team.'', ''RTT Virtual Serial'', ''32021919830108'', ''Configuration'', ''Interface'']"

text \<open>The pool of endpoints of the controller, \<open>drv_usbd.c\<close>.\<close>

definition stm_ep_pool :: "ep_id list" where
  "stm_ep_pool =
     [\<lparr>id_addr = 0, id_type = 0, id_dir = 0x40, id_maxpacket = 64, id_assigned = True\<rparr>,
      \<lparr>id_addr = 1, id_type = 2, id_dir = 0x80, id_maxpacket = 64, id_assigned = False\<rparr>,
      \<lparr>id_addr = 1, id_type = 2, id_dir = 0, id_maxpacket = 64, id_assigned = False\<rparr>,
      \<lparr>id_addr = 2, id_type = 3, id_dir = 0x80, id_maxpacket = 64, id_assigned = False\<rparr>,
      \<lparr>id_addr = 2, id_type = 3, id_dir = 0, id_maxpacket = 64, id_assigned = False\<rparr>,
      \<lparr>id_addr = 3, id_type = 2, id_dir = 0x80, id_maxpacket = 64, id_assigned = False\<rparr>,
      \<lparr>id_addr = 3, id_type = 2, id_dir = 0, id_maxpacket = 64, id_assigned = False\<rparr>,
      \<lparr>id_addr = 0xFF, id_type = 3, id_dir = 0x80, id_maxpacket = 0, id_assigned = True\<rparr>]"

section \<open>The serial side\<close>

definition vcom_configure :: "serial_configure \<Rightarrow> vcom \<Rightarrow> err \<times> vcom" where
  "vcom_configure cfg d = (RT_EOK, d)"

definition vcom_control :: "int \<Rightarrow> nat option \<Rightarrow> vcom \<Rightarrow> err \<times> vcom" where
  "vcom_control cmd arg d = (RT_EOK, d)"

definition vcom_getc :: "vcom \<Rightarrow> int \<times> vcom" where
  "vcom_getc d =
     (let (ch, rb) = rt_ringbuffer_getchar (rx_ringbuffer d); d = d\<lparr>rx_ringbuffer := rb\<rparr>
      in (case ch of None \<Rightarrow> - 1 | Some c \<Rightarrow> uint c, d))"

text \<open>\<open>rt_event_send(&data->tx_event, CDC_TX_HAS_DATE)\<close>.\<close>

definition tx_signal :: "vcom \<Rightarrow> vcom" where
  "tx_signal d = d\<lparr>kern := snd (rt_event_send (tx_event d) CDC_TX_HAS_DATE (kern d))\<rparr>"

definition tx_putchar :: "u8 \<Rightarrow> vcom \<Rightarrow> vcom" where
  "tx_putchar c d = d\<lparr>tx_ringbuffer := snd (rt_ringbuffer_putchar_force (tx_ringbuffer d) c)\<rparr>"

definition vcom_putc :: "u8 \<Rightarrow> vcom \<Rightarrow> int \<times> vcom" where
  "vcom_putc c d =
     (1, if connected d then
           let d = (if c = 10 \<and> has (dev_open_flag d) RT_DEVICE_FLAG_STREAM then tx_signal (tx_putchar 13 d) else d)
           in tx_signal (tx_putchar c d)
         else d)"

text \<open>
  \<open>_vcom_tx\<close>, the transfer of a whole buffer. It is reached by DMA writes only, for which the device is not registered in
  this configuration. The outer loop looks for line ends: the result is the number of bytes taken
  and whether it stopped because the ring was full. \<open>dmadone\<close> is the call of the serial interrupt
  routine that gives the buffer back while no host is connected.
\<close>

function vcom_tx_lines :: "u8 list \<Rightarrow> nat \<Rightarrow> nat \<Rightarrow> rt_ringbuffer \<Rightarrow> nat \<times> bool \<times> rt_ringbuffer" where
  "vcom_tx_lines buf ptr sz rb =
     (if ptr < length buf then
        let ptr = ptr + length (takeWhile (\<lambda>c. c \<noteq> 10) (drop ptr buf))
        in if ptr < length buf then
             let (n, rb) = rt_ringbuffer_put_force rb (drop sz buf) (ptr - sz); sz = sz + n
             in if sz = ptr then
                  let (sz, rb) = (if rt_ringbuffer_space_len rb \<ge> 2 then (sz + 1, snd (rt_ringbuffer_put_force rb [13, 10] 2)) else (sz, rb))
                  in if sz = ptr then (sz, True, rb) else vcom_tx_lines buf (ptr + 1) sz rb
                else (sz, True, rb)
           else (sz, False, rb)
      else (sz, False, rb))"
  by pat_completeness auto
termination by (relation "measure (\<lambda>(buf, ptr, sz, rb). length buf - ptr)") auto

definition vcom_tx :: "(vcom \<Rightarrow> vcom) \<Rightarrow> u8 list \<Rightarrow> vcom \<Rightarrow> nat \<times> vcom" where
  "vcom_tx dmadone data d =
     (let buf = take CDC_BULKIN_MAXSIZE data
      in if connected d then
           let (sz, empty, rb) = (if has (dev_open_flag d) RT_DEVICE_FLAG_STREAM then vcom_tx_lines buf 0 0 (tx_ringbuffer d)
                                  else (0, False, tx_ringbuffer d));
               (sz, rb) = (if sz < length buf \<and> \<not> empty
                           then let (n, rb) = rt_ringbuffer_put_force rb (drop sz buf) (length buf - sz) in (sz + n, rb) else (sz, rb));
               d = d\<lparr>tx_ringbuffer := rb\<rparr>
           in (sz, if sz \<noteq> 0 then tx_signal d else d)
         else (length buf, dmadone d))"

definition usb_vcom_ops :: "(nat \<Rightarrow> u32 \<Rightarrow> int \<Rightarrow> vcom \<Rightarrow> vcom) \<Rightarrow> vcom rt_uart_ops" where
  "usb_vcom_ops dma =
     \<lparr>uart_configure = Some vcom_configure, uart_control = vcom_control, uart_putc = vcom_putc, uart_getc = vcom_getc,
      uart_dma_transmit = dma\<rparr>"

section \<open>The USB side\<close>

definition vcom_reset_state :: "vcom \<Rightarrow> vcom" where
  "vcom_reset_state d = d\<lparr>connected := False, in_sending := False\<rparr>"

definition ep_in_handler :: "nat \<Rightarrow> u32 \<Rightarrow> vcom usb \<Rightarrow> vcom usb option" where
  "ep_in_handler f sz u =
     (let e = vc_ep_in (cls u); request_size = req_size (ep_request (eps u e))
      in if request_size \<noteq> 0 \<and> request_size mod ucast (EP_MAXPACKET e u) = 0 then
           let u = upd_cls (\<lambda>d. d\<lparr>in_sending := True\<rparr>) u;
               u = upd_request e (\<lambda>r. r\<lparr>req_buffer := PNull, req_size := 0, req_type := UIO_REQUEST_WRITE\<rparr>) u
           in rt_usbd_io_request e u
         else Some (upd_kern (rt_completion_done (vc_wait (cls u))) u))"

text \<open>The read request: the endpoint's buffer, one packet.\<close>

definition ep_out_request :: "vcom usb \<Rightarrow> vcom usb option" where
  "ep_out_request u =
     (let e = vc_ep_out (cls u);
          p = (case ep_buffer (eps u e) of None \<Rightarrow> PNull | Some _ \<Rightarrow> PEp e 0)
      in rt_usbd_io_request e
           (upd_request e (\<lambda>r. r\<lparr>req_buffer := p, req_size := ucast (EP_MAXPACKET e u), req_type := UIO_REQUEST_READ_BEST\<rparr>) u))"

definition ep_out_handler :: "vcom rt_uart_ops \<Rightarrow> vcom callbacks \<Rightarrow> nat \<Rightarrow> u32 \<Rightarrow> vcom usb \<Rightarrow> vcom usb option" where
  "ep_out_handler uops cb f sz u =
     Option.bind
       (if has (dev_flag (cls u)) RT_DEVICE_FLAG_ACTIVATED \<and> has (dev_open_flag (cls u)) RT_DEVICE_OFLAG_OPEN then
          do {
            bs \<leftarrow> (case ep_buffer (eps u (vc_ep_out (cls u))) of
                    None \<Rightarrow> if sz = 0 then Some [] else None
                  | Some b \<Rightarrow> if unat sz \<le> length b then Some (take (unat sz) b) else None);
            let u = upd_cls (\<lambda>d. d\<lparr>rx_ringbuffer := snd (rt_ringbuffer_put (rx_ringbuffer d) bs (unat sz))\<rparr>) u;
            map_option (\<lambda>d. u\<lparr>cls := d\<rparr>) (rt_hw_serial_isr uops cb 1 (cls u))
          }
        else Some u)
       ep_out_request"

definition ep_cmd_handler :: "nat \<Rightarrow> u32 \<Rightarrow> vcom usb \<Rightarrow> vcom usb option" where
  "ep_cmd_handler f sz u = Some u"

definition cdc_get_line_coding :: "urequest \<Rightarrow> vcom usb \<Rightarrow> vcom usb option" where
  "cdc_get_line_coding setup u =
     rt_usbd_ep0_write [0x00, 0xC2, 0x01, 0x00, 0, 0, 8] (if wLength setup > 7 then 7 else ucast (wLength setup)) u"

definition cdc_set_line_coding_callback :: "u32 \<Rightarrow> vcom usb \<Rightarrow> vcom usb option" where
  "cdc_set_line_coding_callback sz u = Some (dcd Ep0SendStatus u)"

definition cdc_set_line_coding :: "urequest \<Rightarrow> vcom usb \<Rightarrow> vcom usb" where
  "cdc_set_line_coding setup u = rt_usbd_ep0_read (PStatic line_coding 0) 7 (Some 0) u"

definition interface_handler :: "nat \<Rightarrow> urequest \<Rightarrow> vcom usb \<Rightarrow> (err \<times> vcom usb) option" where
  "interface_handler f setup u =
     (let b = bRequest setup
      in if b \<in> {0, 1, 2, 3, 4, 0x23} then Some (RT_EOK, u)
         else if b = 0x20 then Some (RT_EOK, cdc_set_line_coding setup u)
         else if b = 0x21 then map_option (Pair RT_EOK) (cdc_get_line_coding setup u)
         else if b = 0x22 then Some (RT_EOK, dcd Ep0SendStatus (upd_cls (\<lambda>d. d\<lparr>connected := wValue setup AND 1 > 0\<rparr>) u))
         else Some (- RT_ERROR, u))"

text \<open>\<open>mem\<close> is the memory of 128 bytes that \<open>rt_malloc\<close> returns.\<close>

definition function_enable :: "u8 list option \<Rightarrow> nat \<Rightarrow> vcom usb \<Rightarrow> (err \<times> vcom usb) option" where
  "function_enable mem f u =
     (let u = upd_cls vcom_reset_state u;
          u = upd_ep (vc_ep_out (cls u)) (\<lambda>x. x\<lparr>ep_buffer := mem\<rparr>) u
      in map_option (Pair RT_EOK) (ep_out_request u))"

definition function_disable :: "nat \<Rightarrow> vcom usb \<Rightarrow> vcom usb option" where
  "function_disable f u =
     (let u = upd_cls vcom_reset_state u
      in Some (upd_ep (vc_ep_out (cls u)) (\<lambda>x. x\<lparr>ep_buffer := None\<rparr>) u))"

text \<open>The class: endpoint handlers 0, 1 and 2 are those of the bulk-out, the bulk-in and the command endpoint.\<close>

definition vcom_class :: "vcom rt_uart_ops \<Rightarrow> vcom callbacks \<Rightarrow> u8 list option \<Rightarrow> vcom class_ops" where
  "vcom_class uops cb mem =
     \<lparr>co_enable = function_enable mem, co_disable = function_disable, co_sof = None,
      co_interface = (\<lambda>h. interface_handler),
      co_endpoint = (\<lambda>h. if h = 0 then ep_out_handler uops cb else if h = 1 then ep_in_handler else ep_cmd_handler),
      co_rx_indicate = (\<lambda>h. cdc_set_line_coding_callback)\<rparr>"

section \<open>The transmit thread\<close>

text \<open>\<open>if (open_flag & RT_DEVICE_FLAG_INT_TX) rt_hw_serial_isr(.., RT_SERIAL_EVENT_TX_DONE)\<close>.\<close>

definition tx_done :: "vcom rt_uart_ops \<Rightarrow> vcom callbacks \<Rightarrow> vcom usb \<Rightarrow> vcom usb option" where
  "tx_done uops cb u =
     (if has (dev_open_flag (cls u)) RT_DEVICE_FLAG_INT_TX
      then map_option (\<lambda>d. u\<lparr>cls := d\<rparr>) (rt_hw_serial_isr uops cb 2 (cls u)) else Some u)"

definition tx_request :: "u8 list \<Rightarrow> vcom usb \<Rightarrow> vcom usb option" where
  "tx_request bs u =
     (let e = vc_ep_in (cls u);
          u = upd_kern (rt_completion_init (vc_wait (cls u))) u;
          u = upd_request e (\<lambda>r. r\<lparr>req_buffer := PStatic tx_ch 0, req_size := of_nat (length bs), req_type := UIO_REQUEST_WRITE\<rparr>) u
      in rt_usbd_io_request e u)"

text \<open>The inner loop. It ends when the ring is empty, or where the thread waits for the transfer.\<close>

partial_function (option) vcom_tx_loop :: "vcom rt_uart_ops \<Rightarrow> vcom callbacks \<Rightarrow> vcom usb \<Rightarrow> (unit outcome \<times> vcom usb) option" where
  "vcom_tx_loop uops cb u =
     (if rt_ringbuffer_data_len (tx_ringbuffer (cls u)) \<noteq> 0 then
        let (bs, rb) = rt_ringbuffer_get (tx_ringbuffer (cls u)) CDC_BULKIN_MAXSIZE;
            u = upd_cls (\<lambda>d. d\<lparr>tx_ringbuffer := rb\<rparr>) u;
            u = u\<lparr>statics := (statics u)(tx_ch := blit (statics u tx_ch) 0 bs)\<rparr>
        in if bs = [] then vcom_tx_loop uops cb u
           else if \<not> connected (cls u) then Option.bind (tx_done uops cb u) (vcom_tx_loop uops cb)
           else
             Option.bind (tx_request bs u) (\<lambda>u.
               let (oc, k) = rt_completion_wait (vc_wait (cls u)) VCOM_TX_TIMEOUT (kern (cls u));
                   u = upd_kern (\<lambda>_. k) u
               in case oc of
                    Blocked \<Rightarrow> Some (Blocked, u)
                  | Ret _ \<Rightarrow> Option.bind (tx_done uops cb u) (vcom_tx_loop uops cb))
      else Some (Ret (), u))"

definition vcom_tx_resume :: "vcom rt_uart_ops \<Rightarrow> vcom callbacks \<Rightarrow> tid \<Rightarrow> vcom usb \<Rightarrow> (unit outcome \<times> vcom usb) option" where
  "vcom_tx_resume uops cb t u =
     Option.bind (tx_done uops cb (upd_kern (\<lambda>k. snd (rt_completion_wait_resume (vc_wait (cls u)) t k)) u)) (vcom_tx_loop uops cb)"

text \<open>The outer loop: wait for the event, then send. \<open>Inl\<close>: the thread waits for the event; \<open>Inr\<close>: for a transfer.\<close>

partial_function (option) vcom_tx_thread_entry ::
  "vcom rt_uart_ops \<Rightarrow> vcom callbacks \<Rightarrow> vcom usb \<Rightarrow> ((unit + unit) \<times> vcom usb) option" where
  "vcom_tx_thread_entry uops cb u =
     (let (oc, k) = rt_event_recv (tx_event (cls u)) CDC_TX_HAS_DATE 6 RT_WAITING_FOREVER (kern (cls u)); u = upd_kern (\<lambda>_. k) u
      in case oc of
           Blocked \<Rightarrow> Some (Inl (), u)
         | Ret (r, res) \<Rightarrow>
             if r \<noteq> RT_EOK \<or> (case res of None \<Rightarrow> True | Some w \<Rightarrow> w AND CDC_TX_HAS_DATE = 0) then vcom_tx_thread_entry uops cb u
             else Option.bind (vcom_tx_loop uops cb u)
                    (\<lambda>(oc, u). case oc of Blocked \<Rightarrow> Some (Inr (), u) | Ret _ \<Rightarrow> vcom_tx_thread_entry uops cb u))"


section \<open>Creating the device\<close>

text \<open>The union and call management descriptors name the two interfaces.\<close>

definition cdc_descriptor_config :: "nat \<Rightarrow> u8 \<Rightarrow> u8 \<Rightarrow> 'c usb \<Rightarrow> 'c usb" where
  "cdc_descriptor_config comm cintf_nr dintf_nr u =
     upd_setting comm (\<lambda>s. s\<lparr>as_desc := (as_desc s)[18 := dintf_nr, 26 := cintf_nr, 27 := dintf_nr]\<rparr>) u"

definition rt_usb_vcom_init :: "tid \<Rightarrow> nat \<Rightarrow> nat \<Rightarrow> nat \<Rightarrow> vcom \<Rightarrow> vcom" where
  "rt_usb_vcom_init t entry func stack d =
     (let d = d\<lparr>rx_ringbuffer := rt_ringbuffer_init (replicate CDC_RX_BUFSIZE 0) (int CDC_RX_BUFSIZE),
                tx_ringbuffer := rt_ringbuffer_init (replicate CDC_TX_BUFSIZE 0) (int CDC_TX_BUFSIZE)\<rparr>;
          d = d\<lparr>kern := snd (rt_event_init (tx_event d) ''vcom'' RT_IPC_FLAG_FIFO (kern d))\<rparr>;
          d = d\<lparr>serial_rx := RxNull,
                config := \<lparr>baud_rate = 115200, data_bits = 8, stop_bits = 0, parity = 0, bit_order = 0, invert = 0, bufsz = 128\<rparr>\<rparr>;
          d = snd (rt_hw_serial_register ''vcom'' 0x503 d);
          k = snd (rt_thread_init t ''vcom'' entry func stack 2048 16 20 (kern d))
      in d\<lparr>kern := snd (rt_thread_startup t k)\<rparr>)"

text \<open>What the calls of \<open>rt_malloc\<close> in \<open>rt_usbd_function_cdc_create\<close> return, in their order.\<close>

record cdc_mem =
  m_func :: "nat option"
  m_data :: bool
  m_intf_comm :: "nat option"
  m_intf_data :: "nat option"
  m_comm_setting :: "nat option"
  m_data_setting :: "nat option"
  m_ep_cmd :: "nat option"
  m_ep_out :: "nat option"
  m_ep_in :: "nat option"

definition new_altsetting :: "u8 list \<Rightarrow> nat option \<Rightarrow> 'c usb \<Rightarrow> (nat \<times> 'c usb) option" where
  "new_altsetting desc mem u =
     (case rt_usbd_altsetting_new (length desc) mem True u of (None, u) \<Rightarrow> None | (Some s, u) \<Rightarrow> Some (s, u))"

definition new_endpoint :: "nat \<times> nat \<Rightarrow> nat \<Rightarrow> nat option \<Rightarrow> 'c usb \<Rightarrow> (nat \<times> 'c usb) option" where
  "new_endpoint desc handler mem u =
     (case rt_usbd_endpoint_new desc handler mem u of (None, u) \<Rightarrow> None | (Some e, u) \<Rightarrow> Some (e, u))"

definition new_interface :: "nat option \<Rightarrow> 'c usb \<Rightarrow> (nat \<times> 'c usb) option" where
  "new_interface mem u = (case rt_usbd_interface_new 0 mem u of (None, u) \<Rightarrow> None | (Some i, u) \<Rightarrow> Some (i, u))"

definition rt_usbd_function_cdc_create :: "cdc_mem \<Rightarrow> tid \<Rightarrow> nat \<Rightarrow> nat \<Rightarrow> vcom usb \<Rightarrow> (nat \<times> vcom usb) option" where
  "rt_usbd_function_cdc_create m t entry stack u = do {
     let u = rt_usbd_device_set_string vcom_ustring u;
     (f, u) \<leftarrow> (case rt_usbd_function_new vcom_dev_desc (m_func m) u of (None, u) \<Rightarrow> None | (Some f, u) \<Rightarrow> Some (f, u));
     u \<leftarrow> (if m_data m then Some (upd_cls (rt_usb_vcom_init t entry f stack) u) else None);
     (intf_comm, u) \<leftarrow> new_interface (m_intf_comm m) u;
     (intf_data, u) \<leftarrow> new_interface (m_intf_data m) u;
     (comm_setting, u) \<leftarrow> new_altsetting comm_desc (m_comm_setting m) u;
     (data_setting, u) \<leftarrow> new_altsetting data_desc (m_data_setting m) u;
     let u = rt_usbd_altsetting_config_descriptor comm_setting comm_desc 0 u;
     let u = rt_usbd_altsetting_config_descriptor data_setting data_desc 0 u;
     let u = cdc_descriptor_config comm_setting (if_num (intfs u intf_comm)) (if_num (intfs u intf_data)) u;
     (ep_cmd, u) \<leftarrow> new_endpoint (comm_setting, 28) 2 (m_ep_cmd m) u;
     let u = upd_cls (\<lambda>d. d\<lparr>vc_ep_cmd := ep_cmd\<rparr>) u;
     let u = rt_usbd_altsetting_add_endpoint comm_setting ep_cmd u;
     u \<leftarrow> rt_usbd_interface_add_altsetting intf_comm comm_setting u;
     u \<leftarrow> rt_usbd_set_altsetting intf_comm 0 u;
     let u = rt_usbd_function_add_interface f intf_comm u;
     (ep_out, u) \<leftarrow> new_endpoint (data_setting, 9) 0 (m_ep_out m) u;
     (ep_in, u) \<leftarrow> new_endpoint (data_setting, 16) 1 (m_ep_in m) u;
     let u = upd_cls (\<lambda>d. d\<lparr>vc_ep_out := ep_out, vc_ep_in := ep_in\<rparr>) u;
     let u = rt_usbd_altsetting_add_endpoint data_setting ep_in u;
     let u = rt_usbd_altsetting_add_endpoint data_setting ep_out u;
     u \<leftarrow> rt_usbd_interface_add_altsetting intf_data data_setting u;
     u \<leftarrow> rt_usbd_set_altsetting intf_data 0 u;
     Some (f, rt_usbd_function_add_interface f intf_data u)
   }"

text \<open>
  \<open>rt_usb_device_init\<close> of \<open>usbdevice.c\<close> with the one class that is registered, from \<open>rt_usbd_config_new\<close> on; the controller has
  been found, and its initialisation acts on the hardware only.
\<close>

definition rt_usb_device_init :: "nat option \<Rightarrow> cdc_mem \<Rightarrow> tid \<Rightarrow> nat \<Rightarrow> nat \<Rightarrow> vcom usb \<Rightarrow> (err \<times> vcom usb) option" where
  "rt_usb_device_init cfg_mem m t entry stack u = do {
     (c, u) \<leftarrow> (case rt_usbd_config_new cfg_mem u of (None, u) \<Rightarrow> None | (Some c, u) \<Rightarrow> Some (c, u));
     let u = rt_usbd_device_set_os_comp_id_desc u;
     (f, u) \<leftarrow> rt_usbd_function_cdc_create m t entry stack u;
     let u = rt_usbd_config_add_function c f u;
     let u = rt_usbd_device_set_descriptor (fn_dev_desc (funcs u f)) u;
     u \<leftarrow> rt_usbd_device_add_config c u;
     Some (RT_EOK, rt_usbd_set_config 1 u)
   }"

end
