(* ===== verification/Vcom_Device.thy ===== *)
theory Vcom_Device
  imports Cdc_Vcom
begin

text \<open>
  The virtual COM port as it is built and enumerated: what \<open>rt_usb_device_init\<close> makes of the descriptors and of the
  controller's pool of endpoints, and what the host finds.
\<close>

section \<open>Building\<close>

text \<open>The objects that the heap returns, by name: endpoint 0 is the bulk-out, 1 the bulk-in, 2 the command endpoint.\<close>

definition cdc_ids :: cdc_mem where
  "cdc_ids = \<lparr>m_func = Some 0, m_data = True, m_intf_comm = Some 0, m_intf_data = Some 1, m_comm_setting = Some 0,
     m_data_setting = Some 1, m_ep_cmd = Some 2, m_ep_out = Some 0, m_ep_in = Some 1\<rparr>"

text \<open>The descriptors with the interface numbers and the endpoint addresses that have been filled in.\<close>

definition built_comm_desc :: "u8 list" where
  "built_comm_desc = comm_desc[18 := 1, 27 := 1, 30 := 0x82]"

definition built_data_desc :: "u8 list" where
  "built_data_desc = data_desc[2 := 1, 11 := 0x01, 18 := 0x81]"

definition built_ep :: "nat \<times> nat \<Rightarrow> nat \<Rightarrow> nat \<Rightarrow> uendpoint" where
  "built_ep desc i handler =
     \<lparr>ep_desc = desc, ep_queued = False, ep_request = zero_request, ep_buffer = None, ep_stalled = False, ep_id = Some i, ep_handler = handler\<rparr>"

definition built_cfg :: uconfig where
  "built_cfg = \<lparr>cd_wTotalLength = 67, cd_bNumInterfaces = 2, cd_bConfigurationValue = 1, cd_bmAttributes = 0xC0, cd_MaxPower = 0x32,
     cd_data = blit (replicate 256 0) 0 (built_comm_desc @ built_data_desc), cf_func_list = [0]\<rparr>"

definition vcom_device :: "vcom \<Rightarrow> vcom usb" where
  "vcom_device d =
     (let u = rt_usbd_device_new (map (\<lambda>i. if id_addr i \<in> {1, 2} \<and> (id_type i, id_dir i) \<noteq> (3, 0) then i\<lparr>id_assigned := True\<rparr> else i) stm_ep_pool)
                False (d\<lparr>vc_ep_cmd := 2, vc_ep_out := 0, vc_ep_in := 1\<rparr>)
      in u\<lparr>dev_desc := vcom_dev_desc[17 := 1], dev_str := vcom_ustring, cfg_list := [0], curr_cfg := Some 0, nr_intf := 2,
           cfgs := (cfgs u)(0 := built_cfg),
           funcs := (funcs u)(0 := \<lparr>fn_dev_desc = vcom_dev_desc, fn_enabled = False, fn_intf_list = [0, 1]\<rparr>),
           intfs := (intfs u)(0 := \<lparr>if_num = 0, if_curr_setting = Some 0, if_setting_list = [0], if_handler = 0\<rparr>,
                              1 := \<lparr>if_num = 1, if_curr_setting = Some 1, if_setting_list = [1], if_handler = 0\<rparr>),
           settings := (settings u)(0 := \<lparr>as_intf_desc = Some 0, as_desc = built_comm_desc, as_ep_list = [2]\<rparr>,
                                    1 := \<lparr>as_intf_desc = Some 0, as_desc = built_data_desc, as_ep_list = [1, 0]\<rparr>),
           eps := (eps u)(2 := built_ep (0, 28) 3 2, 1 := built_ep (1, 16) 1 1, 0 := built_ep (1, 9) 2 0),
           dcd_calls := [SetConfig 1]\<rparr>)"

lemmas build_defs = rt_usbd_device_set_string_def rt_usbd_device_set_os_comp_id_desc_def rt_usbd_device_set_descriptor_def
  rt_usbd_config_new_def rt_usbd_interface_new_def rt_usbd_altsetting_new_def rt_usbd_altsetting_config_descriptor_def
  rt_usbd_function_new_def rt_usbd_endpoint_new_def rt_usbd_config_add_function_def rt_usbd_function_add_interface_def
  rt_usbd_interface_add_altsetting_def rt_usbd_altsetting_add_endpoint_def rt_usbd_set_altsetting_def rt_usbd_find_altsetting_def
  new_altsetting_def new_endpoint_def new_interface_def cdc_descriptor_config_def upd_cls_def

lemmas config_defs = rt_usbd_config_new_def rt_usbd_device_set_os_comp_id_desc_def rt_usbd_config_add_function_def
  rt_usbd_device_set_descriptor_def rt_usbd_device_add_config_def rt_usbd_set_config_def rt_usbd_device_new_def add_config_intf_def
  rt_usbd_ep_assign_def cfg_intfs_def rt_usbd_find_config_def ep_desc_field_def

lemma cdc_create:
  "rt_usbd_function_cdc_create cdc_ids t entry stack u = Some (0, u\<lparr>dev_str := vcom_ustring, nr_intf := nr_intf u + 1 + 1,
     eps := (eps u)(2 := (eps u 2)\<lparr>ep_desc := (0, 28), ep_handler := 2, ep_buffer := None, ep_stalled := False, ep_queued := False\<rparr>,
       0 := (eps u 0)\<lparr>ep_desc := (1, 9), ep_handler := 0, ep_buffer := None, ep_stalled := False, ep_queued := False\<rparr>,
       1 := (eps u 1)\<lparr>ep_desc := (1, 16), ep_handler := 1, ep_buffer := None, ep_stalled := False, ep_queued := False\<rparr>),
     cls := (rt_usb_vcom_init t entry 0 stack (cls u))\<lparr>vc_ep_cmd := 2, vc_ep_out := 0, vc_ep_in := 1\<rparr>,
     settings := (settings u)
       (0 := \<lparr>as_intf_desc = Some 0, as_desc = comm_desc[2 := nr_intf u, 18 := nr_intf u + 1, 26 := nr_intf u, 27 := nr_intf u + 1], as_ep_list = [2]\<rparr>,
        1 := \<lparr>as_intf_desc = Some 0, as_desc = data_desc[2 := nr_intf u + 1], as_ep_list = [1, 0]\<rparr>),
     intfs := (intfs u)(0 := \<lparr>if_num = nr_intf u, if_curr_setting = Some 0, if_setting_list = [0], if_handler = 0\<rparr>,
       1 := \<lparr>if_num = nr_intf u + 1, if_curr_setting = Some 1, if_setting_list = [1], if_handler = 0\<rparr>),
     funcs := (funcs u)(0 := \<lparr>fn_dev_desc = vcom_dev_desc, fn_enabled = False, fn_intf_list = [0, 1]\<rparr>)\<rparr>)"
  by (simp add: rt_usbd_function_cdc_create_def cdc_ids_def build_defs usb_upd_defs Let_def bAlternateSetting_def comm_desc_def
      data_desc_def cong: option.case_cong)

lemma blit_all: "length ys = length xs \<Longrightarrow> blit xs 0 ys = ys"
  by (simp add: blit_def)

lemma blit_blit: "length ys \<le> length xs \<Longrightarrow> blit (blit xs 0 ys) (length ys) zs = blit xs 0 (ys @ zs)"
  by (simp add: blit_def add.commute)

lemma built_descs: "length built_comm_desc = 35" "length built_data_desc = 23"
  by (simp_all add: built_comm_desc_def built_data_desc_def comm_desc_def data_desc_def)

lemma vcom_build:
  "rt_usb_device_init (Some 0) cdc_ids t entry stack (rt_usbd_device_new stm_ep_pool False d) =
   Some (RT_EOK, vcom_device (rt_usb_vcom_init t entry 0 stack d))"
proof -
  have "blit (blit (replicate 256 0) 0 built_comm_desc) 35 built_data_desc = blit (replicate 256 0) 0 (built_comm_desc @ built_data_desc)"
    using blit_blit [of built_comm_desc "replicate 256 0" built_data_desc] by (simp add: built_descs)
  then show ?thesis
    by (simp add: rt_usb_device_init_def cdc_create config_defs usb_upd_defs stm_ep_pool_def vcom_dev_desc_def comm_desc_def data_desc_def
        Let_def blit_all vcom_device_def built_cfg_def built_ep_def built_comm_desc_def built_data_desc_def cong: option.case_cong)
      (auto simp: fun_eq_iff)
qed


section \<open>Enumeration\<close>

abbreviation set_address_request :: "u16 \<Rightarrow> urequest" where
  "set_address_request a \<equiv> \<lparr>request_type = 0, bRequest = 5, wValue = a, wIndex = 0, wLength = 0\<rparr>"

abbreviation set_config_request :: "u16 \<Rightarrow> urequest" where
  "set_config_request n \<equiv> \<lparr>request_type = 0, bRequest = 9, wValue = n, wIndex = 0, wLength = 0\<rparr>"

abbreviation get_descriptor_request :: "u16 \<Rightarrow> u16 \<Rightarrow> urequest" where
  "get_descriptor_request t n \<equiv> \<lparr>request_type = 0x80, bRequest = 6, wValue = push_bit 8 t, wIndex = 0, wLength = n\<rparr>"

abbreviation restarted :: "u8 \<Rightarrow> u16 \<Rightarrow> u8 \<Rightarrow> dcd_call list" where
  "restarted addr n attr \<equiv> [EpDisable addr, EpEnable addr n attr]"

definition vcom_configured :: "u8 list \<Rightarrow> u16 \<Rightarrow> vcom \<Rightarrow> vcom usb" where
  "vcom_configured buf a d =
     (let u = vcom_device (vcom_reset_state d)
      in u\<lparr>dev_state := USB_STATE_CONFIGURED, funcs := (funcs u)(0 := (funcs u 0)\<lparr>fn_enabled := True\<rparr>),
           eps := (eps u)(0 := (eps u 0)\<lparr>ep_buffer := Some buf,
             ep_request := \<lparr>req_type = UIO_REQUEST_READ_BEST, req_buffer = PEp 0 0, req_size = 64, req_remain_size = 64\<rparr>\<rparr>),
           dcd_calls := [SetConfig 1, SetAddress (ucast a), Ep0SendStatus, SetConfig 1] @ restarted 0x82 8 3 @ restarted 0x81 64 2 @ restarted 1 64 2 @
             [EpReadPrepare 1 (PEp 0 0) 64, Ep0SendStatus]\<rparr>)"

lemmas request_defs = setup_request_def standard_request_def device_request_def set_address_def set_config_def start_function_def
  FUNC_ENABLE_def rt_usbd_set_config_def rt_usbd_find_config_def restart_ep_def

lemma vcom_configure_run:
  "rt_usbd_thread_run (vcom_class uops cb (Some buf))
     [USB_MSG_RESET, USB_MSG_SETUP_NOTIFY (set_address_request a), USB_MSG_SETUP_NOTIFY (set_config_request 1)] (vcom_device d) =
   Some (vcom_configured buf a d)"
  by (simp add: request_defs vcom_device_def rt_usbd_device_new_def Let_def usb_upd_defs vcom_class_def function_enable_def
     ep_out_request_def rt_usbd_io_request_def rt_usbd_ep_read_prepare_def vcom_dev_desc_def built_cfg_def built_ep_def EP_MAXPACKET_def
     u16_le_def ep_desc_field_def built_comm_desc_def built_data_desc_def comm_desc_def data_desc_def upd_cls_def vcom_configured_def
     vcom_reset_state_def zero_request_def)

lemma get_descriptor_step:
  "rt_usbd_thread_step ops (USB_MSG_SETUP_NOTIFY (get_descriptor_request 1 n)) u = rt_usbd_ep0_write (dev_desc u) (ucast (min n 18)) u"
  "curr_cfg u = Some c \<Longrightarrow> rt_usbd_thread_step ops (USB_MSG_SETUP_NOTIFY (get_descriptor_request 2 n)) u =
     rt_usbd_ep0_write (cfg_desc_bytes (cfgs u c)) (ucast (min n (cd_wTotalLength (cfgs u c)))) u"
proof -
  have m: "(if n > m then ucast m else ucast n) = (ucast (min n m) :: u32)" for m by (auto simp: min_def)
  show "rt_usbd_thread_step ops (USB_MSG_SETUP_NOTIFY (get_descriptor_request 1 n)) u = rt_usbd_ep0_write (dev_desc u) (ucast (min n 18)) u"
    by (simp add: request_defs get_descriptor_def get_device_descriptor_def option.map_comp comp_def option.map_ident flip: m)
  show "curr_cfg u = Some c \<Longrightarrow> rt_usbd_thread_step ops (USB_MSG_SETUP_NOTIFY (get_descriptor_request 2 n)) u =
      rt_usbd_ep0_write (cfg_desc_bytes (cfgs u c)) (ucast (min n (cd_wTotalLength (cfgs u c)))) u"
    by (simp add: request_defs get_descriptor_def get_config_descriptor_def option.map_comp comp_def option.map_ident flip: m)
qed

text \<open>An endpoint of the configured device that receives.\<close>

definition out_endpoint :: "nat \<Rightarrow> nat \<Rightarrow> nat \<Rightarrow> 'c usb \<Rightarrow> bool" where
  "out_endpoint e f m u \<longleftrightarrow> dev_state u = USB_STATE_CONFIGURED \<and> EP_ADDRESS e u AND USB_DIR_IN = 0 \<and>
     rt_usbd_find_endpoint (EP_ADDRESS e u) u = Some (Some (e, f)) \<and> m = unat (EP_MAXPACKET e u) \<and> 0 < m"

lemma vcom_configured_simps:
  "cls (vcom_configured buf a d) = (vcom_reset_state d)\<lparr>vc_ep_cmd := 2, vc_ep_out := 0, vc_ep_in := 1\<rparr>"
  "eps (vcom_configured buf a d) 1 = built_ep (1, 16) 1 1"
  "eps (vcom_configured buf a d) 0 = (built_ep (1, 9) 2 0)\<lparr>ep_buffer := Some buf,
     ep_request := \<lparr>req_type = UIO_REQUEST_READ_BEST, req_buffer = PEp 0 0, req_size = 64, req_remain_size = 64\<rparr>\<rparr>"
  "statics (vcom_configured buf a d) n = replicate 128 0"
  by (simp_all add: vcom_configured_def vcom_device_def rt_usbd_device_new_def Let_def)

lemma vcom_endpoints:
  "EP_ADDRESS 0 (vcom_configured buf a d) = 0x01" "EP_ADDRESS 1 (vcom_configured buf a d) = 0x81" "EP_ADDRESS 2 (vcom_configured buf a d) = 0x82"
  "in_endpoint 1 0 64 (vcom_configured buf a d)" "out_endpoint 0 0 64 (vcom_configured buf a d)"
  by (simp_all add: in_endpoint_def out_endpoint_def rt_usbd_find_endpoint_def cfg_intfs_def ep_desc_field_def EP_MAXPACKET_def u16_le_def
    vcom_configured_def vcom_device_def rt_usbd_device_new_def Let_def built_ep_def built_cfg_def built_comm_desc_def built_data_desc_def
    comm_desc_def data_desc_def)

text \<open>
  C5. The device that \<open>rt_usb_device_init\<close> builds enumerates as a communication device with two interfaces. The
  controller's pool gives the command, the bulk-in and the bulk-out endpoint the addresses 0x82,
  0x81 and 0x01; the host reads a device descriptor with one configuration and, for any length it
  asks for, the beginning of a configuration descriptor of 67 bytes in which these addresses and the
  interface numbers are filled in. Reset, address and configuration then start it: every endpoint is
  enabled, the first read is posted, the status is acknowledged, and the endpoints are found under
  their addresses.
\<close>

theorem vcom_enumerates:
  "\<exists>u u'. rt_usb_device_init (Some 0) cdc_ids t entry stack (rt_usbd_device_new stm_ep_pool False d) = Some (RT_EOK, u) \<and>
     rt_usbd_thread_step ops (USB_MSG_SETUP_NOTIFY (get_descriptor_request 1 n)) u =
       rt_usbd_ep0_write (vcom_dev_desc[17 := 1]) (ucast (min n 18)) u \<and>
     (\<exists>pad. rt_usbd_thread_step ops (USB_MSG_SETUP_NOTIFY (get_descriptor_request 2 n)) u =
       rt_usbd_ep0_write ([9, 2, 67, 0, 2, 1, 0, 0xC0, 0x32] @ comm_desc[18 := 1, 27 := 1, 30 := 0x82] @ data_desc[2 := 1, 11 := 0x01, 18 := 0x81] @ pad)
         (ucast (min n 67)) u) \<and>
     rt_usbd_thread_run (vcom_class uops cb (Some buf))
       [USB_MSG_RESET, USB_MSG_SETUP_NOTIFY (set_address_request a), USB_MSG_SETUP_NOTIFY (set_config_request 1)] u = Some u' \<and>
     dev_state u' = USB_STATE_CONFIGURED \<and> fn_enabled (funcs u' 0) \<and>
     dcd_calls u' = dcd_calls u @ [SetAddress (ucast a), Ep0SendStatus, SetConfig 1] @ restarted 0x82 8 3 @ restarted 0x81 64 2 @
       restarted 0x01 64 2 @ [EpReadPrepare 0x01 (PEp (vc_ep_out (cls u')) 0) 64, Ep0SendStatus] \<and>
     rt_usbd_find_endpoint 0x81 u' = Some (Some (vc_ep_in (cls u'), 0)) \<and> rt_usbd_find_endpoint 0x01 u' = Some (Some (vc_ep_out (cls u'), 0))"
proof -
  let ?u = "vcom_device (rt_usb_vcom_init t entry 0 stack d)" and ?u' = "vcom_configured buf a (rt_usb_vcom_init t entry 0 stack d)"
  let ?get = "\<lambda>t. rt_usbd_thread_step ops (USB_MSG_SETUP_NOTIFY (get_descriptor_request t n)) ?u"
  have u: "dev_desc ?u = vcom_dev_desc[17 := 1]" "curr_cfg ?u = Some 0" "cfgs ?u 0 = built_cfg" by (simp_all add: vcom_device_def Let_def)
  have 1: "?get 1 = rt_usbd_ep0_write (vcom_dev_desc[17 := 1]) (ucast (min n 18)) ?u" by (simp only: get_descriptor_step u)
  have "cfg_desc_bytes built_cfg = [9, 2, 67, 0, 2, 1, 0, 0xC0, 0x32] @ cd_data built_cfg" "cd_wTotalLength built_cfg = 67"
    by (simp_all add: cfg_desc_bytes_def built_cfg_def le_u16_def)
  then have "?get 2 = rt_usbd_ep0_write ([9, 2, 67, 0, 2, 1, 0, 0xC0, 0x32] @ cd_data built_cfg) (ucast (min n 67)) ?u"
    using get_descriptor_step(2) [OF u(2)] u(3) by metis
  moreover have "cd_data built_cfg = (comm_desc[18 := 1, 27 := 1, 30 := 0x82] @ data_desc[2 := 1, 11 := 0x01, 18 := 0x81]) @ replicate (256 - 58) 0"
    by (simp add: built_cfg_def blit_def built_descs flip: built_comm_desc_def built_data_desc_def)
  ultimately have 2: "\<exists>pad. ?get 2 = rt_usbd_ep0_write ([9, 2, 67, 0, 2, 1, 0, 0xC0, 0x32] @ comm_desc[18 := 1, 27 := 1, 30 := 0x82] @
      data_desc[2 := 1, 11 := 0x01, 18 := 0x81] @ pad) (ucast (min n 67)) ?u" by (metis append_assoc)
  have 3: "dev_state ?u' = USB_STATE_CONFIGURED" "fn_enabled (funcs ?u' 0)" "dcd_calls ?u = [SetConfig 1]"
    by (simp_all add: vcom_configured_def vcom_device_def Let_def)
  have 4: "dcd_calls ?u' = [SetConfig 1, SetAddress (ucast a), Ep0SendStatus, SetConfig 1] @ restarted 0x82 8 3 @ restarted 0x81 64 2 @
      restarted 1 64 2 @ [EpReadPrepare 1 (PEp 0 0) 64, Ep0SendStatus]"
    by (simp add: vcom_configured_def Let_def)
  have 5: "vc_ep_in (cls ?u') = 1" "vc_ep_out (cls ?u') = 0" by (simp_all add: vcom_configured_simps)
  have 6: "rt_usbd_find_endpoint 0x81 ?u' = Some (Some (1, 0))" "rt_usbd_find_endpoint 0x01 ?u' = Some (Some (0, 0))"
    using vcom_endpoints [of buf a "rt_usb_vcom_init t entry 0 stack d"] by (simp_all add: in_endpoint_def out_endpoint_def)
  show ?thesis
    by (rule exI [of _ ?u], rule exI [of _ ?u'], intro conjI, rule vcom_build, rule 1, rule 2, rule vcom_configure_run)
      (simp_all add: 3 4 5 6)
qed

end
