(* ===== verification/Vcom_Transmit.thy ===== *)
theory Vcom_Transmit
  imports Vcom_Device
begin

text \<open>
  From the application to the host: what \<open>_vcom_putc\<close> stores, what the transmit thread takes, and what the
  notifications of the core send. The steps of these three parties may be interleaved in every way.
\<close>

section \<open>The parts of a step\<close>

lemma upd_kern_simps [simp]:
  "kern (cls (upd_kern g u)) = g (kern (cls u))" "cls (upd_kern g u) = (cls u)\<lparr>kern := g (kern (cls u))\<rparr>"
  "eps (upd_kern g u) = eps u" "statics (upd_kern g u) = statics u" "dcd_calls (upd_kern g u) = dcd_calls u"
  "dev_state (upd_kern g u) = dev_state u" "funcs (upd_kern g u) = funcs u"
  by (simp_all add: upd_kern_def upd_cls_def)

lemma upd_cls_simps [simp]:
  "cls (upd_cls g u) = g (cls u)" "eps (upd_cls g u) = eps u" "statics (upd_cls g u) = statics u"
  "dcd_calls (upd_cls g u) = dcd_calls u" "dev_state (upd_cls g u) = dev_state u" "funcs (upd_cls g u) = funcs u"
  by (simp_all add: upd_cls_def)

lemma upd_request_simps [simp]:
  "ep_request (eps (upd_request e g u) e) = g (ep_request (eps u e))" "cls (upd_request e g u) = cls u"
  "statics (upd_request e g u) = statics u" "dcd_calls (upd_request e g u) = dcd_calls u" "dev_state (upd_request e g u) = dev_state u"
  "ep_handler (eps (upd_request e g u) e') = ep_handler (eps u e')" "ep_stalled (eps (upd_request e g u) e') = ep_stalled (eps u e')"
  "ep_buffer (eps (upd_request e g u) e') = ep_buffer (eps u e')"
  by (simp_all add: usb_upd_defs)

lemma same_tree_cls [simp]: "same_tree u (upd_cls g u)" "same_tree u (upd_kern h u)" "same_tree u (u\<lparr>statics := s\<rparr>)"
  by (simp_all add: upd_kern_def upd_cls_def same_tree_def)

text \<open>When the transmit thread runs: nobody waits for its completion, nor for that of the serial driver.\<close>

definition tx_ready :: "tid \<Rightarrow> vcom \<Rightarrow> bool" where
  "tx_ready t d \<longleftrightarrow> sched_wf (kern d) \<and> may_wait t (kern d) \<and> tlists (kern d) (LCompletion (vc_wait d)) = [] \<and>
     (\<forall>n. serial_tx d = TxFifo n \<longrightarrow> tlists (kern d) (LCompletion n) = [])"

text \<open>The bulk-in endpoint and its buffer, the ring, and the serial driver's transmit structure.\<close>

definition tx_ok :: "nat \<Rightarrow> vcom usb \<Rightarrow> bool" where
  "tx_ok f u \<longleftrightarrow> in_endpoint (vc_ep_in (cls u)) f 64 u \<and> EP_ADDRESS (vc_ep_in (cls u)) u \<noteq> EP0_IN_ADDR \<and>
     ep_handler (eps u (vc_ep_in (cls u))) = 1 \<and> \<not> ep_stalled (eps u (vc_ep_in (cls u))) \<and> length (statics u tx_ch) = 128 \<and>
     rb_wf (tx_ringbuffer (cls u)) \<and> cap (tx_ringbuffer (cls u)) = CDC_TX_BUFSIZE \<and>
     (has (dev_open_flag (cls u)) RT_DEVICE_FLAG_INT_TX \<longrightarrow> (\<exists>n. serial_tx (cls u) = TxFifo n \<and> n \<noteq> vc_wait (cls u)))"

lemma may_wait_completion [simp]: "may_wait t (set_completion n b k) = may_wait t k"
  by (simp add: may_wait_def)

lemma completion_done_nobody: "tlists k (LCompletion n) = [] \<Longrightarrow> rt_completion_done n k = set_completion n True k"
  by (auto simp: rt_completion_done_def set_completion_def Let_def fun_upd_idem)

lemma completion_init_nobody: "tlists k (LCompletion n) = [] \<Longrightarrow> rt_completion_init n k = set_completion n False k"
  by (auto simp: rt_completion_init_def set_completion_def fun_upd_idem)

text \<open>\<open>tx_done\<close> completes the serial driver's completion, for which nobody waits.\<close>

lemma tx_done_spec:
  assumes "tx_ready t (cls u)" "tx_ok f u"
  shows "\<exists>g. tx_done uops cb u = Some (upd_kern g u) \<and> tx_ready t (cls (upd_kern g u)) \<and>
    completions (g (kern (cls u))) (vc_wait (cls u)) = completions (kern (cls u)) (vc_wait (cls u))"
proof (cases "has (dev_open_flag (cls u)) RT_DEVICE_FLAG_INT_TX")
  case True
  then obtain n where n: "serial_tx (cls u) = TxFifo n" "n \<noteq> vc_wait (cls u)" using assms(2) by (auto simp: tx_ok_def)
  then have "tlists (kern (cls u)) (LCompletion n) = []" using assms(1) by (simp add: tx_ready_def)
  then have "tx_done uops cb u = Some (upd_kern (set_completion n True) u)"
    using n True by (simp add: tx_done_def rt_hw_serial_isr_def completion_done_nobody upd_kern_def upd_cls_def)
  then show ?thesis using assms(1) n by (intro exI [of _ "set_completion n True"]) (simp add: tx_ready_def)
next
  case False
  then have "tx_done uops cb u = Some (upd_kern (\<lambda>k. k) u)" by (simp add: tx_done_def upd_kern_def upd_cls_def)
  then show ?thesis using assms(1) by (intro exI [of _ "\<lambda>k. k"]) simp
qed

text \<open>The bytes of the current request that have not been given to the controller.\<close>

abbreviation in_request :: "vcom usb \<Rightarrow> uio_request" where
  "in_request u \<equiv> ep_request (eps u (vc_ep_in (cls u)))"

definition pending :: "u8 list \<Rightarrow> vcom usb \<Rightarrow> bool" where
  "pending b u \<longleftrightarrow> (b \<noteq> [] \<longrightarrow> holds (req_buffer (in_request u)) b u) \<and> unat (req_remain_size (in_request u)) = length b"

text \<open>What has been given to the controller for the endpoint with address \<open>a\<close>, packet by packet.\<close>

fun written :: "u8 \<Rightarrow> dcd_call list \<Rightarrow> u8 list list" where
  "written a [] = []"
| "written a (EpWrite a' bs # cs) = (if a' = a then bs # written a cs else written a cs)"
| "written a (c # cs) = written a cs"

lemma written_append [simp]: "written a (xs @ ys) = written a xs @ written a ys"
  by (induction a xs rule: written.induct) simp_all

lemma written_map [simp]: "written a (map (EpWrite a) ps) = ps"
  by (induction ps) simp_all

abbreviation in_address :: "vcom usb \<Rightarrow> u8" where
  "in_address u \<equiv> EP_ADDRESS (vc_ep_in (cls u)) u"

abbreviation to_host :: "vcom usb \<Rightarrow> u8 list list" where
  "to_host u \<equiv> written (in_address u) (dcd_calls u)"

text \<open>What no step of the transmission changes.\<close>

definition same_port :: "vcom usb \<Rightarrow> vcom usb \<Rightarrow> bool" where
  "same_port u u' \<longleftrightarrow> same_tree u u' \<and> dev_state u' = dev_state u \<and> vc_ep_in (cls u') = vc_ep_in (cls u) \<and> vc_wait (cls u') = vc_wait (cls u) \<and>
     dev_open_flag (cls u') = dev_open_flag (cls u) \<and> serial_tx (cls u') = serial_tx (cls u) \<and>
     (\<forall>e. ep_handler (eps u' e) = ep_handler (eps u e) \<and> ep_stalled (eps u' e) = ep_stalled (eps u e))"

lemma same_portD:
  assumes "same_port u u'"
  shows "in_address u' = in_address u" "vc_ep_in (cls u') = vc_ep_in (cls u)" "vc_wait (cls u') = vc_wait (cls u)"
    "dev_open_flag (cls u') = dev_open_flag (cls u)" "serial_tx (cls u') = serial_tx (cls u)"
  using assms by (simp_all add: same_port_def same_tree_simps)

lemma same_port_trans [trans]: "same_port u v \<Longrightarrow> same_port v w \<Longrightarrow> same_port u w"
  by (auto simp: same_port_def intro: same_tree_trans)

lemma same_port_ok:
  assumes "same_port u u'" "tx_ok f u"
  shows "tx_ok f u' \<longleftrightarrow> length (statics u' tx_ch) = 128 \<and> rb_wf (tx_ringbuffer (cls u')) \<and> cap (tx_ringbuffer (cls u')) = CDC_TX_BUFSIZE"
proof -
  have "in_endpoint e f m u' = in_endpoint e f m u" "EP_ADDRESS e u' = EP_ADDRESS e u" for e m
    using assms(1) in_endpoint_cong [of u u'] same_tree_simps [of u u'] by (simp_all add: same_port_def)
  then show ?thesis using assms by (auto simp: same_port_def tx_ok_def)
qed

lemma same_port_upd [simp]:
  "same_port u (upd_kern g u)" "same_port u (upd_request e h u)" "same_port u (u\<lparr>statics := s\<rparr>)" "same_port u (u\<lparr>dcd_calls := cs\<rparr>)"
  "same_port u (sent e ps q r u)" "same_port u (upd_cls (\<lambda>d. d\<lparr>tx_ringbuffer := rb\<rparr>) u)" "same_port u (upd_cls (\<lambda>d. d\<lparr>in_sending := b\<rparr>) u)"
  using same_tree_upd same_tree_cls sent_tree [of u e ps q r] by (simp_all add: same_port_def sent_simps)

text \<open>
  The loop of the transmit thread. With nothing in the ring it ends. While no host is connected it empties the ring.
  Otherwise it takes up to 128 bytes, posts them as a request, of which the first packet is written
  at once, and waits.
\<close>

lemma tx_loop_empty: "contents (tx_ringbuffer (cls u)) = [] \<Longrightarrow> tx_ok f u \<Longrightarrow> vcom_tx_loop uops cb u = Some (Ret (), u)"
  by (subst vcom_tx_loop.simps) (simp add: tx_ok_def data_len_contents)

lemma tx_loop_take:
  assumes "tx_ok f u" "contents (tx_ringbuffer (cls u)) \<noteq> []" "rt_ringbuffer_get (tx_ringbuffer (cls u)) 128 = (bs, rb)"
  defines "u1 \<equiv> (upd_cls (\<lambda>d. d\<lparr>tx_ringbuffer := rb\<rparr>) u)\<lparr>statics := (statics u)(tx_ch := blit (statics u tx_ch) 0 bs)\<rparr>"
  shows "same_port u u1" "tx_ok f u1" "bs = take 128 (contents (tx_ringbuffer (cls u)))" "contents rb = drop 128 (contents (tx_ringbuffer (cls u)))"
    "bs \<noteq> []" "take (length bs) (statics u1 tx_ch) = bs" "length bs \<le> 128"
    "\<not> connected (cls u) \<Longrightarrow> vcom_tx_loop uops cb u = Option.bind (tx_done uops cb u1) (vcom_tx_loop uops cb)"
    "connected (cls u) \<Longrightarrow> vcom_tx_loop uops cb u = Option.bind (tx_request bs u1) (\<lambda>u.
       let (oc, k) = rt_completion_wait (vc_wait (cls u)) VCOM_TX_TIMEOUT (kern (cls u)); u = upd_kern (\<lambda>_. k) u
       in case oc of Blocked \<Rightarrow> Some (Blocked, u) | Ret _ \<Rightarrow> Option.bind (tx_done uops cb u) (vcom_tx_loop uops cb))"
proof -
  have wf: "rb_wf (tx_ringbuffer (cls u))" using assms(1) by (simp add: tx_ok_def)
  note g = get_spec [OF wf assms(3)]
  show bs: "bs = take 128 (contents (tx_ringbuffer (cls u)))" "contents rb = drop 128 (contents (tx_ringbuffer (cls u)))" using g by simp_all
  then show ne: "bs \<noteq> []" "length bs \<le> 128" using assms(2) by simp_all
  then show "take (length bs) (statics u1 tx_ch) = bs" by (simp add: u1_def blit_def)
  show p: "same_port u u1" unfolding u1_def by (rule same_port_trans [OF same_port_upd(6) same_port_upd(3)])
  then show "tx_ok f u1" using same_port_ok [OF p assms(1)] assms(1) g ne(2) by (simp add: tx_ok_def u1_def)
  have "rt_ringbuffer_data_len (tx_ringbuffer (cls u)) \<noteq> 0" using assms(2) wf by (simp add: data_len_contents)
  then show "connected (cls u) \<Longrightarrow> vcom_tx_loop uops cb u = Option.bind (tx_request bs u1) (\<lambda>u.
       let (oc, k) = rt_completion_wait (vc_wait (cls u)) VCOM_TX_TIMEOUT (kern (cls u)); u = upd_kern (\<lambda>_. k) u
       in case oc of Blocked \<Rightarrow> Some (Blocked, u) | Ret _ \<Rightarrow> Option.bind (tx_done uops cb u) (vcom_tx_loop uops cb))"
    "\<not> connected (cls u) \<Longrightarrow> vcom_tx_loop uops cb u = Option.bind (tx_done uops cb u1) (vcom_tx_loop uops cb)"
    using assms(3) ne(1) by (subst vcom_tx_loop.simps; simp add: u1_def upd_cls_def Let_def)+
qed

lemma tx_loop_offline:
  assumes "tx_ok f u" "tx_ready t (cls u)" "\<not> connected (cls u)"
  shows "\<exists>u'. vcom_tx_loop uops cb u = Some (Ret (), u') \<and> same_port u u' \<and> tx_ok f u' \<and> contents (tx_ringbuffer (cls u')) = [] \<and>
    eps u' = eps u \<and> dcd_calls u' = dcd_calls u \<and> \<not> connected (cls u') \<and> (\<forall>i. length (statics u' i) = length (statics u i)) \<and>
    completions (kern (cls u')) (vc_wait (cls u)) = completions (kern (cls u)) (vc_wait (cls u))"
  using assms
proof (induction "length (contents (tx_ringbuffer (cls u)))" arbitrary: u rule: less_induct)
  case less
  show ?case
  proof (cases "contents (tx_ringbuffer (cls u)) = []")
    case True
    then show ?thesis using tx_loop_empty [OF True less.prems(1)] less.prems by (simp add: same_port_def same_tree_def)
  next
    case False
    obtain bs rb where g: "rt_ringbuffer_get (tx_ringbuffer (cls u)) 128 = (bs, rb)" by fastforce
    let ?u = "(upd_cls (\<lambda>d. d\<lparr>tx_ringbuffer := rb\<rparr>) u)\<lparr>statics := (statics u)(tx_ch := blit (statics u tx_ch) 0 bs)\<rparr>"
    note l = tx_loop_take [OF less.prems(1) False g]
    have r: "tx_ready t (cls ?u)" using less.prems(2) by (simp add: tx_ready_def)
    obtain h where h: "tx_done uops cb ?u = Some (upd_kern h ?u)" "tx_ready t (cls (upd_kern h ?u))"
      "completions (h (kern (cls u))) (vc_wait (cls u)) = completions (kern (cls u)) (vc_wait (cls u))"
      using tx_done_spec [OF r l(2)] by auto
    let ?v = "upd_kern h ?u"
    have p: "same_port u ?v" by (rule same_port_trans [OF l(1) same_port_upd(1)])
    have ok: "tx_ok f ?v" using same_port_ok [OF same_port_upd(1) l(2)] l(2) by (simp add: tx_ok_def)
    have "length (contents (tx_ringbuffer (cls ?v))) < length (contents (tx_ringbuffer (cls u)))"
      using l(4) False by simp
    from less.hyps [OF this ok h(2)] less.prems(3) obtain u' where "vcom_tx_loop uops cb ?v = Some (Ret (), u')" "same_port ?v u'"
      "tx_ok f u'" "contents (tx_ringbuffer (cls u')) = []" "eps u' = eps ?v" "dcd_calls u' = dcd_calls ?v" "\<not> connected (cls u')" "\<forall>i. length (statics u' i) = length (statics ?v i)"
      "completions (kern (cls u')) (vc_wait (cls ?v)) = completions (kern (cls ?v)) (vc_wait (cls ?v))" by auto
    moreover have "length (blit (statics u tx_ch) 0 bs) = length (statics u tx_ch)" using l(7) less.prems(1) by (simp add: blit_def tx_ok_def)
    ultimately show ?thesis using l(8) [OF less.prems(3)] h same_port_trans [OF p] by (intro exI [of _ u']) simp
  qed
qed

lemma tx_loop_online:
  assumes "tx_ok f u" "tx_ready t (cls u)" "connected (cls u)" "contents (tx_ringbuffer (cls u)) \<noteq> []"
  defines "b \<equiv> take 128 (contents (tx_ringbuffer (cls u)))"
  shows "\<exists>u'. vcom_tx_loop uops cb u = Some (Blocked, u') \<and> same_port u u' \<and> tx_ok f u' \<and> connected (cls u') \<and>
    contents (tx_ringbuffer (cls u')) = drop 128 (contents (tx_ringbuffer (cls u))) \<and>
    pending (drop 64 b) u' \<and> to_host u' = to_host u @ [take 64 b] \<and>
    req_size (in_request u') = of_nat (length b) \<and> req_type (in_request u') = UIO_REQUEST_WRITE \<and>
    kern (cls u') = wait_fresh (LCompletion (vc_wait (cls u))) 0 VCOM_TX_TIMEOUT t (set_completion (vc_wait (cls u)) False (kern (cls u)))"
proof -
  obtain bs rb where g: "rt_ringbuffer_get (tx_ringbuffer (cls u)) 128 = (bs, rb)" by fastforce
  let ?e = "vc_ep_in (cls u)" and ?w = "vc_wait (cls u)"
  define u1 where "u1 = (upd_cls (\<lambda>d. d\<lparr>tx_ringbuffer := rb\<rparr>) u)\<lparr>statics := (statics u)(tx_ch := blit (statics u tx_ch) 0 bs)\<rparr>"
  define u2 where "u2 = upd_request ?e (\<lambda>r. r\<lparr>req_buffer := PStatic tx_ch 0, req_size := of_nat (length bs), req_type := UIO_REQUEST_WRITE\<rparr>)
    (upd_kern (rt_completion_init ?w) u1)"
  note l = tx_loop_take [OF assms(1,4) g, folded u1_def]
  have bs: "bs = b" using l(3) by (simp add: b_def)
  have c1: "vc_ep_in (cls u1) = ?e" "vc_wait (cls u1) = ?w" "kern (cls u1) = kern (cls u)" "connected (cls u1)" "dcd_calls u1 = dcd_calls u"
    "tx_ringbuffer (cls u1) = rb" using assms(3) by (simp_all add: u1_def)
  have p2: "same_port u u2" unfolding u2_def by (rule same_port_trans [OF same_port_trans [OF l(1) same_port_upd(1)] same_port_upd(2)])
  have len: "length (statics u1 tx_ch) = 128" using l(2) by (simp add: tx_ok_def)
  have ok2: "tx_ok f u2" using same_port_ok [OF p2 assms(1)] l(2) by (simp add: u2_def tx_ok_def)
  have h2: "holds (PStatic tx_ch 0) bs u2" by (rule holds_PStatic) (use l(6,7) len in \<open>simp_all add: u2_def\<close>)
  have e2: "in_endpoint ?e f 64 u2" "\<not> ep_stalled (eps u2 ?e)" using ok2 p2 by (simp_all add: tx_ok_def same_port_def)
  have sz: "unat (of_nat (length bs) :: u32) = length bs" using l(7) by (simp add: unat_of_nat take_bit_nat_eq_self)
  obtain q r where io: "rt_usbd_io_request ?e u2 = Some (sent ?e [take 64 bs] q r u2)" "unat r = length (drop 64 bs)" "holds q (drop 64 bs) u2"
    using io_request_write [OF e2, of bs] h2 sz by (auto simp: u2_def)
  let ?k = "wait_fresh (LCompletion ?w) 0 VCOM_TX_TIMEOUT t (set_completion ?w False (kern (cls u)))"
  let ?s = "sent ?e [take 64 bs] q r u2" and ?u' = "upd_kern (\<lambda>_. ?k) (sent ?e [take 64 bs] q r u2)"
  have k2: "kern (cls u2) = set_completion ?w False (kern (cls u))" "vc_wait (cls u2) = ?w" "vc_ep_in (cls u2) = ?e"
    using assms(2) completion_init_nobody c1 by (simp_all add: u2_def tx_ready_def)
  have "rt_completion_wait ?w VCOM_TX_TIMEOUT (kern (cls u2)) = (Blocked, ?k)"
    using assms(2) rt_completion_wait_eq [of "kern (cls u2)" t ?w VCOM_TX_TIMEOUT] by (simp add: k2 tx_ready_def)
  moreover have "tx_request bs u1 = Some ?s" using io(1) c1 by (simp add: tx_request_def u2_def Let_def)
  ultimately have run: "vcom_tx_loop uops cb u = Some (Blocked, ?u')" using l(9) [OF assms(3)] k2 by (simp add: sent_simps)
  have p: "same_port u ?u'" by (rule same_port_trans [OF same_port_trans [OF p2 same_port_upd(5)] same_port_upd(1)])
  have ok: "tx_ok f ?u'" using same_port_ok [OF p assms(1)] ok2 by (simp add: tx_ok_def sent_simps) (simp add: sent_def)
  have "pending (drop 64 bs) ?u'"
    using io(2,3) k2 holds_cong [of ?u' u2] unfolding pending_def by (simp add: sent_simps) (simp add: sent_def usb_upd_defs)
  moreover have "to_host ?u' = to_host u @ [take 64 bs]"
    using same_portD(1) [OF p] same_portD(1) [OF p2] k2(3) by (simp add: sent_simps) (simp add: u2_def c1)
  ultimately show ?thesis using run p ok l(4) k2 c1 bs by (intro exI [of _ ?u'] conjI) (simp_all add: sent_simps u2_def)
qed


text \<open>Sending an event does not touch completions.\<close>

lemma completions_event_loop: "completions (fst (event_send_loop e ts k need)) = completions k"
  by (induction ts arbitrary: k need) (simp_all add: Let_def split_def upd_event_def frame_simps)

lemma completions_event_send [simp]: "completions (snd (rt_event_send e evset k)) = completions k"
  by (simp add: rt_event_send_def Let_def split_def completions_event_loop upd_event_def frame_simps)

text \<open>\<open>_vcom_putc\<close>: the ring keeps the newest bytes, a line end is two bytes in stream mode; without a host nothing is kept.\<close>

definition putc_bytes :: "vcom \<Rightarrow> u8 \<Rightarrow> u8 list" where
  "putc_bytes d c = (if c = 10 \<and> has (dev_open_flag d) RT_DEVICE_FLAG_STREAM then [13, 10] else [c])"

lemma tx_putchar_spec:
  assumes "rb_wf (tx_ringbuffer d)"
  shows "rb_wf (tx_ringbuffer (tx_putchar c d))" "cap (tx_ringbuffer (tx_putchar c d)) = cap (tx_ringbuffer d)"
    "contents (tx_ringbuffer (tx_putchar c d)) = newest (cap (tx_ringbuffer d)) (contents (tx_ringbuffer d) @ [c])"
proof -
  obtain n rb where p: "rt_ringbuffer_putchar_force (tx_ringbuffer d) c = (n, rb)" by fastforce
  note w = rt_ringbuffer_putchar_force_window [OF assms p]
  have "newest (cap (tx_ringbuffer d)) (contents (tx_ringbuffer d) @ [c]) =
      (if length (contents (tx_ringbuffer d)) = cap (tx_ringbuffer d) then tl (contents (tx_ringbuffer d)) else contents (tx_ringbuffer d)) @ [c]"
    by (rule newest_snoc [symmetric, OF length_contents_le [OF assms] rb_wfD(2) [OF assms]])
  then show "rb_wf (tx_ringbuffer (tx_putchar c d))" "cap (tx_ringbuffer (tx_putchar c d)) = cap (tx_ringbuffer d)"
    "contents (tx_ringbuffer (tx_putchar c d)) = newest (cap (tx_ringbuffer d)) (contents (tx_ringbuffer d) @ [c])"
    using w p by (simp_all add: tx_putchar_def)
qed

lemma tx_signal_simps [simp]:
  "tx_ringbuffer (tx_signal d) = tx_ringbuffer d" "completions (kern (tx_signal d)) = completions (kern d)"
  "dev_open_flag (tx_signal d) = dev_open_flag d" "connected (tx_signal d) = connected d" "vc_ep_in (tx_signal d) = vc_ep_in d"
  "vc_wait (tx_signal d) = vc_wait d" "serial_tx (tx_signal d) = serial_tx d" "kern (tx_putchar c d) = kern d"
  "dev_open_flag (tx_putchar c d) = dev_open_flag d" "connected (tx_putchar c d) = connected d" "vc_ep_in (tx_putchar c d) = vc_ep_in d"
  "vc_wait (tx_putchar c d) = vc_wait d" "serial_tx (tx_putchar c d) = serial_tx d"
  by (simp_all add: tx_signal_def tx_putchar_def)

lemma vcom_putc_spec:
  fixes c :: u8
  assumes "rb_wf (tx_ringbuffer d)"
  defines "d' \<equiv> snd (vcom_putc c d)"
  shows "fst (vcom_putc c d) = 1" "rb_wf (tx_ringbuffer d')" "cap (tx_ringbuffer d') = cap (tx_ringbuffer d)"
    "contents (tx_ringbuffer d') =
       (if connected d then newest (cap (tx_ringbuffer d)) (contents (tx_ringbuffer d) @ putc_bytes d c) else contents (tx_ringbuffer d))"
    "completions (kern d') = completions (kern d)" "dev_open_flag d' = dev_open_flag d" "connected d' = connected d"
    "vc_ep_in d' = vc_ep_in d" "vc_wait d' = vc_wait d" "serial_tx d' = serial_tx d"
proof -
  note p = tx_putchar_spec [OF assms(1)] and q = tx_putchar_spec [of "tx_signal (tx_putchar 13 d)", simplified, OF tx_putchar_spec(1) [OF assms(1)]]
  show "contents (tx_ringbuffer d') =
       (if connected d then newest (cap (tx_ringbuffer d)) (contents (tx_ringbuffer d) @ putc_bytes d c) else contents (tx_ringbuffer d))"
    using newest_append [of "cap (tx_ringbuffer d)" "contents (tx_ringbuffer d) @ [13]" "[10]"]
    by (auto simp: d'_def vcom_putc_def putc_bytes_def Let_def p q)
qed (use assms(1) tx_putchar_spec [OF assms(1)] tx_putchar_spec [of "tx_signal (tx_putchar 13 d)", simplified, OF tx_putchar_spec(1) [OF assms(1)]]
  in \<open>simp_all add: d'_def vcom_putc_def Let_def\<close>)

text \<open>
  A notification of the bulk-in endpoint: the next packet of the request; after the last one a packet of length
  zero if the request was a multiple of the packet size, otherwise the transfer is complete.
\<close>

lemma in_maxpacket:
  assumes "in_endpoint e f 64 u"
  shows "ucast (EP_MAXPACKET e u) = (64 :: u32)"
proof -
  have "unat (ucast (EP_MAXPACKET e u) :: u32) = 64" using assms by (simp add: in_endpoint_def)
  then show ?thesis by (simp add: word_unat_eq_iff)
qed

lemma notify_packet:
  assumes "tx_ok f u" "pending b u" "b \<noteq> []"
  shows "\<exists>u'. rt_usbd_thread_step (vcom_class uops cb mem) (USB_MSG_DATA_NOTIFY (in_address u) sz) u = Some u' \<and> same_port u u' \<and> tx_ok f u' \<and>
    cls u' = cls u \<and> pending (drop 64 b) u' \<and> to_host u' = to_host u @ [take 64 b] \<and>
    req_size (in_request u') = req_size (in_request u)"
proof -
  let ?e = "vc_ep_in (cls u)"
  have e: "in_endpoint ?e f 64 u" using assms(1) by (simp add: tx_ok_def)
  obtain q r where s: "rt_usbd_thread_step (vcom_class uops cb mem) (USB_MSG_DATA_NOTIFY (in_address u) sz) u = Some (sent ?e [take 64 b] q r u)"
    "unat r = length (drop 64 b)" "holds q (drop 64 b) u"
    using notify_next_packet [OF e, of b "vcom_class uops cb mem" sz] assms(2,3) by (auto simp: pending_def)
  let ?u = "sent ?e [take 64 b] q r u"
  have p: "same_port u ?u" by simp
  have "tx_ok f ?u" using same_port_ok [OF p assms(1)] assms(1) by (simp add: tx_ok_def sent_simps) (simp add: sent_def)
  moreover have "pending (drop 64 b) ?u" using s by (simp add: pending_def sent_simps)
  ultimately show ?thesis using s(1) same_portD(1) [OF p] by (intro exI [of _ ?u]) (simp add: sent_simps)
qed

lemma notify_end:
  assumes "tx_ok f u" "pending [] u"
  defines "n \<equiv> req_size (in_request u)"
  shows "\<exists>u'. rt_usbd_thread_step (vcom_class uops cb mem) (USB_MSG_DATA_NOTIFY (in_address u) sz) u = Some u' \<and> same_port u u' \<and> tx_ok f u' \<and>
    pending [] u' \<and>
    (if n \<noteq> 0 \<and> n mod 64 = 0
     then to_host u' = to_host u @ [[]] \<and> cls u' = (cls u)\<lparr>in_sending := True\<rparr> \<and> req_size (in_request u') = 0
     else u' = upd_kern (rt_completion_done (vc_wait (cls u))) u)"
proof -
  let ?e = "vc_ep_in (cls u)"
  have e: "in_endpoint ?e f 64 u" and h: "ep_handler (eps u ?e) = 1" and st: "\<not> ep_stalled (eps u ?e)" using assms(1) by (simp_all add: tx_ok_def)
  have "req_remain_size (in_request u) = 0" using assms(2) by (simp add: pending_def unat_eq_zero)
  then have s: "rt_usbd_thread_step (vcom_class uops cb mem) (USB_MSG_DATA_NOTIFY (in_address u) sz) u = ep_in_handler f sz u"
    using data_notify_in_endpoint [OF e] in_maxpacket [OF e] h by (simp add: data_notify_in_def call_handler_def vcom_class_def)
  show ?thesis
  proof (cases "n \<noteq> 0 \<and> n mod 64 = 0")
    case True
    define u1 where "u1 = upd_request ?e (\<lambda>r. r\<lparr>req_buffer := PNull, req_size := 0, req_type := UIO_REQUEST_WRITE\<rparr>)
      (upd_cls (\<lambda>d. d\<lparr>in_sending := True\<rparr>) u)"
    have p1: "same_port u u1" unfolding u1_def by (rule same_port_trans [OF same_port_upd(7) same_port_upd(2)])
    then have e1: "in_endpoint ?e f 64 u1" "\<not> ep_stalled (eps u1 ?e)" using e st in_endpoint_cong [of u u1] by (simp_all add: same_port_def)
    obtain q r where io: "rt_usbd_io_request ?e u1 = Some (sent ?e [[]] q r u1)" "unat r = 0"
      using io_request_write [OF e1, of "[]"] holds_PNull by (auto simp: u1_def)
    let ?u = "sent ?e [[]] q r u1"
    have p: "same_port u ?u" by (rule same_port_trans [OF p1 same_port_upd(5)])
    have "tx_ok f ?u" using same_port_ok [OF p assms(1)] assms(1) by (simp add: tx_ok_def sent_simps u1_def) (simp add: sent_def u1_def)
    moreover have "ep_in_handler f sz u = Some ?u" using True io in_maxpacket [OF e] by (simp add: ep_in_handler_def n_def Let_def u1_def)
    moreover have "pending [] ?u" using io(2) by (simp add: pending_def sent_simps u1_def)
    moreover have "to_host ?u = to_host u @ [[]]" using same_portD(1) [OF p] same_portD(1,2) [OF p1] by (simp add: sent_simps) (simp add: u1_def)
    ultimately show ?thesis using s True p by (intro exI [of _ ?u]) (simp add: sent_simps u1_def)
  next
    case False
    let ?u = "upd_kern (rt_completion_done (vc_wait (cls u))) u"
    have p: "same_port u ?u" by simp
    have "ep_in_handler f sz u = Some ?u" using False unfolding ep_in_handler_def Let_def in_maxpacket [OF e] n_def by (simp only: if_False)
    moreover have "tx_ok f ?u" using same_port_ok [OF p assms(1)] assms(1) by (simp add: tx_ok_def)
    ultimately show ?thesis using s p assms(2) unfolding if_not_P [OF False] by (intro exI [of _ ?u] conjI) (simp_all add: pending_def)
  qed
qed

section \<open>Every interleaving\<close>

text \<open>
  The steps of the transmission on a configured port: the application writes a byte; a control request reaches the class; the
  transmit thread runs from its event to its next wait, or resumes after its transfer was completed, or after the wait for it has
  timed out; the controller notifies the core; other threads change the kernel. The flag of the state says
  that the thread waits for its transfer. Bus reset, unplugging and a change of the configuration are no steps.
\<close>

datatype tx_event = Write u8 | Request urequest | Transmit | Resume | Timeout | Notify u32 | Others

inductive tx_step ::
  "vcom rt_uart_ops \<Rightarrow> vcom callbacks \<Rightarrow> u8 list option \<Rightarrow> tid \<Rightarrow> tx_event \<Rightarrow> vcom usb \<times> bool \<Rightarrow> vcom usb \<times> bool \<Rightarrow> bool"
  for uops cb mem t where
  putc: "tx_step uops cb mem t (Write c) (u, w) (upd_cls (\<lambda>d. snd (vcom_putc c d)) u, w)"
| request: "interface_handler h setup u = Some (r, u') \<Longrightarrow> tx_step uops cb mem t (Request setup) (u, w) (u', w)"
| transmit: "tx_ready t (cls u) \<Longrightarrow> vcom_tx_loop uops cb u = Some (oc, u') \<Longrightarrow> tx_step uops cb mem t Transmit (u, False) (u', oc = Blocked)"
| resume: "tx_ready t (cls u) \<Longrightarrow> completions (kern (cls u)) (vc_wait (cls u)) \<Longrightarrow> vcom_tx_resume uops cb t u = Some (oc, u') \<Longrightarrow>
    tx_step uops cb mem t Resume (u, True) (u', oc = Blocked)"
| timeout: "tx_ready t (cls u) \<Longrightarrow> \<not> completions (kern (cls u)) (vc_wait (cls u)) \<Longrightarrow> vcom_tx_resume uops cb t u = Some (oc, u') \<Longrightarrow>
    tx_step uops cb mem t Timeout (u, True) (u', oc = Blocked)"
| notify: "rt_usbd_thread_step (vcom_class uops cb mem) (USB_MSG_DATA_NOTIFY (in_address u) sz) u = Some u' \<Longrightarrow>
    tx_step uops cb mem t (Notify sz) (u, w) (u', w)"
| others: "completions k' = completions (kern (cls u)) \<Longrightarrow> tx_step uops cb mem t Others (u, w) (upd_kern (\<lambda>_. k') u, w)"

inductive tx_run ::
  "vcom rt_uart_ops \<Rightarrow> vcom callbacks \<Rightarrow> u8 list option \<Rightarrow> tid \<Rightarrow> tx_event list \<Rightarrow> vcom usb \<times> bool \<Rightarrow> vcom usb \<times> bool \<Rightarrow> bool"
  for uops cb mem t where
  none: "tx_run uops cb mem t [] s s"
| step: "tx_step uops cb mem t e s s' \<Longrightarrow> tx_run uops cb mem t es s' s'' \<Longrightarrow> tx_run uops cb mem t (e # es) s s''"

inductive_cases tx_run_ConsE: "tx_run uops cb mem t (e # es) s s''"
inductive_cases tx_run_NilE: "tx_run uops cb mem t [] s s''"

text \<open>
  The specification: the bytes the controller has been given, the rest of the request in flight, a queue that keeps
  the newest 1024 bytes, and whether a host listens. A run of the transmit thread turns the front of the queue into
  a new request, of which a packet goes out at once; the rest of the request before, if there is one, is gone. Without a
  host the thread empties the queue through the same array, which may overwrite that rest.
\<close>

record tx_spec =
  sp_sent :: "u8 list"
  sp_rest :: "u8 list"
  sp_queue :: "u8 list"
  sp_online :: bool

fun tx_next :: "bool \<Rightarrow> tx_event \<Rightarrow> tx_spec \<Rightarrow> tx_spec" where
  "tx_next crlf (Write c) s =
     (if sp_online s then s\<lparr>sp_queue := newest CDC_TX_BUFSIZE (sp_queue s @ (if c = 10 \<and> crlf then [13, 10] else [c]))\<rparr> else s)"
| "tx_next crlf (Request setup) s = (if bRequest setup = 0x22 then s\<lparr>sp_online := wValue setup AND 1 > 0\<rparr> else s)"
| "tx_next crlf (Notify sz) s = s\<lparr>sp_sent := sp_sent s @ take 64 (sp_rest s), sp_rest := drop 64 (sp_rest s)\<rparr>"
| "tx_next crlf Others s = s"
| "tx_next crlf _ s =
     (if sp_queue s = [] then s
      else if sp_online s then
        let b = take CDC_BULKIN_MAXSIZE (sp_queue s)
        in s\<lparr>sp_sent := sp_sent s @ take 64 b, sp_rest := drop 64 b, sp_queue := drop CDC_BULKIN_MAXSIZE (sp_queue s)\<rparr>
      else s\<lparr>sp_queue := []\<rparr>)"

inductive tx_spec_step :: "bool \<Rightarrow> tx_event \<Rightarrow> tx_spec \<Rightarrow> tx_spec \<Rightarrow> bool" for crlf where
  exact: "tx_spec_step crlf e s (tx_next crlf e s)"
| overwritten: "e \<in> {Transmit, Resume, Timeout} \<Longrightarrow> \<not> sp_online s \<Longrightarrow> length r = length (sp_rest s) \<Longrightarrow>
    tx_spec_step crlf e s ((tx_next crlf e s)\<lparr>sp_rest := r\<rparr>)"

inductive tx_spec_run :: "bool \<Rightarrow> tx_event list \<Rightarrow> tx_spec \<Rightarrow> tx_spec \<Rightarrow> bool" for crlf where
  none: "tx_spec_run crlf [] s s"
| step: "tx_spec_step crlf e s s' \<Longrightarrow> tx_spec_run crlf es s' s'' \<Longrightarrow> tx_spec_run crlf (e # es) s s''"

inductive_cases tx_spec_stepE: "tx_spec_step crlf e s s'"

definition unsent :: "vcom usb \<Rightarrow> u8 list" where
  "unsent u = (if req_remain_size (in_request u) = 0 then []
     else the (ptr_bytes (req_buffer (in_request u)) (unat (req_remain_size (in_request u))) u))"

definition tx_abs :: "vcom usb \<Rightarrow> tx_spec" where
  "tx_abs u = \<lparr>sp_sent = concat (to_host u), sp_rest = unsent u, sp_queue = contents (tx_ringbuffer (cls u)), sp_online = connected (cls u)\<rparr>"

definition tx_inv :: "nat \<Rightarrow> vcom usb \<Rightarrow> bool" where
  "tx_inv f u \<longleftrightarrow> tx_ok f u \<and> pending (unsent u) u"

text \<open>As long as no wait times out: while bytes of a request are still to be sent the thread waits and its completion is not done.\<close>

definition tx_settled :: "vcom usb \<times> bool \<Rightarrow> bool" where
  "tx_settled = (\<lambda>(u, w). w \<and> \<not> completions (kern (cls u)) (vc_wait (cls u)) \<or> unsent u = [])"

abbreviation crlf_mode :: "vcom usb \<Rightarrow> bool" where
  "crlf_mode u \<equiv> has (dev_open_flag (cls u)) RT_DEVICE_FLAG_STREAM"

lemma pending_unsent: "pending b u \<Longrightarrow> unsent u = b"
  using holds_bytes [of "req_buffer (in_request u)" b u "length b"]
  by (cases "b = []") (auto simp: pending_def unsent_def unat_eq_zero)

lemma pending_overwritten:
  assumes "pending b u" "eps u' = eps u" "vc_ep_in (cls u') = vc_ep_in (cls u)" "\<forall>i. length (statics u' i) = length (statics u i)"
  shows "\<exists>b'. pending b' u' \<and> length b' = length b"
proof (cases "b = []")
  case True
  then show ?thesis using assms by (intro exI [of _ "[]"]) (simp add: pending_def)
next
  case False
  then have h: "holds (req_buffer (in_request u)) b u" using assms(1) by (simp add: pending_def)
  have "\<exists>b'. holds (req_buffer (in_request u)) b' u' \<and> length b' = length b"
  proof (cases "req_buffer (in_request u)")
    case (PStatic s i)
    then have "i + length b \<le> length (statics u' s)" using holds_bytes [OF h, of "length b"] assms(4) by (auto split: if_splits)
    then show ?thesis using holds_PStatic [of "take (length b) (drop i (statics u' s))" i u' s] PStatic
      by (intro exI [of _ "take (length b) (drop i (statics u' s))"]) simp
  next
    case (PEp e i)
    then show ?thesis using h assms(2) by (intro exI [of _ b]) (simp add: holds_def)
  next
    case PNull
    then show ?thesis using h by (intro exI [of _ b]) (simp add: holds_def)
  next
    case (PBytes bs)
    then show ?thesis using h by (intro exI [of _ b]) (simp add: holds_def)
  qed
  then show ?thesis using assms by (auto simp: pending_def)
qed

text \<open>Steps that leave the endpoint and its request alone.\<close>

lemma quiet_step:
  assumes "same_port u u'" "eps u' = eps u" "statics u' = statics u" "written (in_address u) (dcd_calls u') = to_host u"
  shows "pending b u' = pending b u" "unsent u' = unsent u" "to_host u' = to_host u"
proof -
  have e: "vc_ep_in (cls u') = vc_ep_in (cls u)" using assms(1) by (simp add: same_port_def)
  have "ptr_bytes p n u' = ptr_bytes p n u" for p n using assms(2,3) by (cases p) simp_all
  then show "pending b u' = pending b u" "unsent u' = unsent u"
    using e assms holds_cong [of u' u] by (simp_all add: pending_def unsent_def)
  show "to_host u' = to_host u" using assms(4) same_portD(1) [OF assms(1)] by simp
qed

lemma ep0_quiet:
  "same_port u (rt_usbd_ep0_read p n rx u)" "eps (rt_usbd_ep0_read p n rx u) = eps u" "statics (rt_usbd_ep0_read p n rx u) = statics u"
  "cls (rt_usbd_ep0_read p n rx u) = cls u" "written a (dcd_calls (rt_usbd_ep0_read p n rx u)) = written a (dcd_calls u)"
  by (simp_all add: rt_usbd_ep0_read_def dcd_def same_port_def same_tree_def)

lemma ep0_write_quiet:
  "rt_usbd_ep0_write bs n u = Some u' \<Longrightarrow> same_port u u' \<and> eps u' = eps u \<and> statics u' = statics u \<and> cls u' = cls u \<and>
    (a \<noteq> EP0_IN_ADDR \<longrightarrow> written a (dcd_calls u') = written a (dcd_calls u))"
  by (auto simp: rt_usbd_ep0_write_def dcd_ep_write_def Let_def dcd_def same_port_def same_tree_def split: if_splits)

lemma interface_handler_quiet:
  assumes "interface_handler h setup u = Some (r, u')" "tx_ok f u"
  shows "same_port u u' \<and> eps u' = eps u \<and> statics u' = statics u \<and> written (in_address u) (dcd_calls u') = to_host u \<and>
    (\<exists>c. cls u' = (cls u)\<lparr>connected := c\<rparr> \<and> c = (if bRequest setup = 0x22 then wValue setup AND 1 > 0 else connected (cls u)))"
proof -
  consider "bRequest setup = 0x20" | "bRequest setup = 0x21" | "bRequest setup = 0x22" | "bRequest setup \<notin> {0x20, 0x21, 0x22}" by blast
  then show ?thesis
  proof cases
    case 1
    then have "u' = rt_usbd_ep0_read (PStatic line_coding 0) 7 (Some 0) u" using assms(1) by (simp add: interface_handler_def cdc_set_line_coding_def)
    then show ?thesis using 1 by (intro conjI exI [of _ "connected (cls u)"]) (simp_all add: ep0_quiet)
  next
    case 2
    then have "\<exists>n. rt_usbd_ep0_write [0x00, 0xC2, 0x01, 0x00, 0, 0, 8] n u = Some u'"
      using assms(1) by (auto simp: interface_handler_def cdc_get_line_coding_def)
    then obtain n where n: "rt_usbd_ep0_write [0x00, 0xC2, 0x01, 0x00, 0, 0, 8] n u = Some u'" by blast
    have "in_address u \<noteq> EP0_IN_ADDR" using assms(2) by (simp add: tx_ok_def)
    then show ?thesis using 2 ep0_write_quiet [OF n, of "in_address u"] by (intro conjI exI [of _ "connected (cls u)"]) simp_all
  next
    case 3
    then have "u' = dcd Ep0SendStatus (upd_cls (\<lambda>d. d\<lparr>connected := wValue setup AND 1 > 0\<rparr>) u)"
      using assms(1) by (simp add: interface_handler_def)
    then show ?thesis using 3 by (simp add: dcd_def same_port_def same_tree_def upd_cls_def)
  next
    case 4
    then have "u' = u" using assms(1) by (auto simp: interface_handler_def Let_def split: if_splits)
    then show ?thesis using 4 by (auto simp: same_port_def same_tree_def intro!: exI [of _ "connected (cls u)"])
  qed
qed

lemma putc_quiet:
  fixes c :: u8
  assumes "tx_ok f u"
  defines "u' \<equiv> upd_cls (\<lambda>d. snd (vcom_putc c d)) u"
  shows "same_port u u'" "tx_ok f u'" "eps u' = eps u" "statics u' = statics u" "dcd_calls u' = dcd_calls u"
proof -
  have wf: "rb_wf (tx_ringbuffer (cls u))" using assms(1) by (simp add: tx_ok_def)
  note c = vcom_putc_spec [OF wf, of c]
  have "same_tree u u'" by (simp add: u'_def)
  then show p: "same_port u u'" using c by (simp add: same_port_def u'_def)
  show "tx_ok f u'" using same_port_ok [OF p assms(1)] assms(1) c by (simp add: u'_def tx_ok_def)
qed (simp_all add: u'_def)

text \<open>The thread's part, common to the ways it is entered.\<close>

lemma tx_next_thread: "e \<in> {Transmit, Resume, Timeout} \<Longrightarrow> tx_next crlf e s = tx_next crlf Transmit s"
  by auto

lemma tx_thread_refines:
  assumes "tx_inv f u" "tx_ready t (cls u)" "vcom_tx_loop uops cb u = Some (oc, u')" "e \<in> {Transmit, Resume, Timeout}"
  shows "same_port u u' \<and> tx_inv f u' \<and> tx_spec_step crlf e (tx_abs u) (tx_abs u') \<and> (unsent u = [] \<longrightarrow> tx_settled (u', oc = Blocked))"
proof (cases "connected (cls u)")
  case False
  have i: "tx_ok f u" "pending (unsent u) u" using assms(1) by (simp_all add: tx_inv_def)
  obtain v where v: "vcom_tx_loop uops cb u = Some (Ret (), v)" "same_port u v" "tx_ok f v" "contents (tx_ringbuffer (cls v)) = []"
    "eps v = eps u" "dcd_calls v = dcd_calls u" "\<not> connected (cls v)" "\<forall>i. length (statics v i) = length (statics u i)"
    using tx_loop_offline [OF i(1) assms(2) False] by blast
  have u': "u' = v" "oc = Ret ()" using v(1) assms(3) by simp_all
  obtain b where b: "pending b v" "length b = length (unsent u)"
    using pending_overwritten [OF i(2) v(5) same_portD(2) [OF v(2)] v(8)] by blast
  have a: "unsent v = b" "to_host v = to_host u" using pending_unsent [OF b(1)] v(6) same_portD(1) [OF v(2)] by simp_all
  have "tx_abs v = (tx_next crlf e (tx_abs u))\<lparr>sp_rest := b\<rparr>"
    using False v(4,7) a by (simp add: tx_abs_def tx_next_thread [OF assms(4)])
  then have "tx_spec_step crlf e (tx_abs u) (tx_abs v)"
    using tx_spec_step.overwritten [OF assms(4), of "tx_abs u" b crlf] False b(2) by (simp add: tx_abs_def)
  moreover have "unsent u = [] \<Longrightarrow> b = []" using b(2) by simp
  ultimately show ?thesis using v(2,3) a b(1) u' by (simp add: tx_inv_def tx_settled_def)
next
  case c: True
  have i: "tx_ok f u" using assms(1) by (simp add: tx_inv_def)
  show ?thesis
  proof (cases "contents (tx_ringbuffer (cls u)) = []")
    case True
    then have u': "oc = Ret ()" "u' = u" using tx_loop_empty [OF True i, of uops cb] assms(3) by simp_all
    have "tx_spec_step crlf e (tx_abs u) (tx_abs u)"
      using tx_spec_step.exact [of crlf e "tx_abs u"] True by (simp add: tx_next_thread [OF assms(4)] tx_abs_def)
    then show ?thesis using assms(1) u' by (simp add: tx_settled_def same_port_def same_tree_def)
  next
    case False
    let ?q = "contents (tx_ringbuffer (cls u))" and ?w = "vc_wait (cls u)"
    obtain v where v: "vcom_tx_loop uops cb u = Some (Blocked, v)" "same_port u v" "tx_ok f v" "connected (cls v)"
      "contents (tx_ringbuffer (cls v)) = drop 128 ?q" "pending (drop 64 (take 128 ?q)) v" "to_host v = to_host u @ [take 64 (take 128 ?q)]"
      "kern (cls v) = wait_fresh (LCompletion ?w) 0 VCOM_TX_TIMEOUT t (set_completion ?w False (kern (cls u)))"
      using tx_loop_online [OF i assms(2) c False, of uops cb] by (auto simp only:)
    have u': "u' = v" "oc = Blocked" using v(1) assms(3) by simp_all
    have "\<not> completions (kern (cls v)) (vc_wait (cls v))" using v(8) same_portD(3) [OF v(2)] by (simp add: frame_simps)
    moreover have "tx_abs v = tx_next crlf e (tx_abs u)"
      using v(4,5,7) c False pending_unsent [OF v(6)] by (simp add: tx_next_thread [OF assms(4)] tx_abs_def Let_def)
    then have "tx_spec_step crlf e (tx_abs u) (tx_abs v)" using tx_spec_step.exact [of crlf e "tx_abs u"] by simp
    ultimately show ?thesis using v(2,3,6) pending_unsent [OF v(6)] u' by (simp add: tx_inv_def tx_settled_def)
  qed
qed

text \<open>The thread resumes, whether its transfer is complete or not.\<close>

lemma tx_resume_refines:
  assumes "tx_inv f u" "tx_ready t (cls u)" "vcom_tx_resume uops cb t u = Some (oc, u')" "e \<in> {Resume, Timeout}"
  shows "same_port u u' \<and> tx_inv f u' \<and> tx_spec_step crlf e (tx_abs u) (tx_abs u') \<and> (unsent u = [] \<longrightarrow> tx_settled (u', oc = Blocked))"
proof -
  let ?v = "upd_kern (\<lambda>k. snd (rt_completion_wait_resume (vc_wait (cls u)) t k)) u"
  have i: "tx_ok f u" "pending (unsent u) u" using assms(1) by (simp_all add: tx_inv_def)
  have ok: "tx_ok f ?v" using same_port_ok [OF same_port_upd(1) i(1)] i(1) by (simp add: tx_ok_def)
  have r: "tx_ready t (cls ?v)" using assms(2) by (simp add: tx_ready_def rt_completion_wait_resume_def)
  obtain g where g: "tx_done uops cb ?v = Some (upd_kern g ?v)" "tx_ready t (cls (upd_kern g ?v))" using tx_done_spec [OF r ok] by blast
  let ?u = "upd_kern g ?v"
  have p: "same_port u ?u" by (rule same_port_trans [OF same_port_upd(1) same_port_upd(1)])
  have q: "unsent ?u = unsent u" "pending (unsent u) ?u" "to_host ?u = to_host u"
    using quiet_step [OF p] i same_portD(1) [OF p] by simp_all
  have inv: "tx_inv f ?u" using same_port_ok [OF p i(1)] i(1) q by (simp add: tx_inv_def tx_ok_def)
  have run: "vcom_tx_loop uops cb ?u = Some (oc, u')" using assms(3) g(1) by (simp add: vcom_tx_resume_def)
  have "e \<in> {Transmit, Resume, Timeout}" using assms(4) by blast
  from tx_thread_refines [OF inv g(2) run this, of crlf] q
  have "same_port ?u u' \<and> tx_inv f u' \<and> tx_spec_step crlf e (tx_abs ?u) (tx_abs u') \<and> (unsent u = [] \<longrightarrow> tx_settled (u', oc = Blocked))" by simp
  moreover have "tx_abs ?u = tx_abs u" using q by (simp add: tx_abs_def)
  ultimately show ?thesis using same_port_trans [OF p] by simp
qed

text \<open>A step that is not one of the thread's: the invariant, the specification, and what the thread waits for.\<close>

lemma tx_step_refines:
  assumes "tx_step uops cb mem t e (u, w) (u', w')" "tx_inv f u"
  shows "same_port u u' \<and> tx_inv f u' \<and> tx_spec_step (crlf_mode u) e (tx_abs u) (tx_abs u') \<and>
    (e \<noteq> Timeout \<longrightarrow> tx_settled (u, w) \<longrightarrow> tx_settled (u', w'))"
  using assms(1)
proof cases
  case (putc ch)
  have ok: "tx_ok f u" using assms(2) by (simp add: tx_inv_def)
  note p = putc_quiet [OF ok, of ch, folded putc(2)]
  have wf: "rb_wf (tx_ringbuffer (cls u))" "cap (tx_ringbuffer (cls u)) = CDC_TX_BUFSIZE" using ok by (simp_all add: tx_ok_def)
  note c = vcom_putc_spec [OF wf(1), of ch]
  have "written (in_address u) (dcd_calls u') = to_host u" using p(5) by simp
  note q = quiet_step [OF p(1,3,4) this]
  have "tx_abs u' = tx_next (crlf_mode u) e (tx_abs u)" using q c wf putc by (simp add: tx_abs_def putc_bytes_def)
  then have "tx_spec_step (crlf_mode u) e (tx_abs u) (tx_abs u')" by (simp add: tx_spec_step.exact)
  then show ?thesis using assms(2) p q c putc by (simp add: tx_inv_def tx_settled_def)
next
  case (request h st r)
  have ok: "tx_ok f u" using assms(2) by (simp add: tx_inv_def)
  note i = interface_handler_quiet [OF request(3) ok]
  then obtain c where c: "same_port u u'" "eps u' = eps u" "statics u' = statics u" "written (in_address u) (dcd_calls u') = to_host u"
    "cls u' = (cls u)\<lparr>connected := c\<rparr>" "c = (if bRequest st = 0x22 then wValue st AND 1 > 0 else connected (cls u))" by blast
  note q = quiet_step [OF c(1-4)]
  have "tx_abs u' = tx_next (crlf_mode u) e (tx_abs u)" using c q request by (simp add: tx_abs_def)
  then have "tx_spec_step (crlf_mode u) e (tx_abs u) (tx_abs u')" by (simp add: tx_spec_step.exact)
  moreover have "tx_ok f u'" using same_port_ok [OF c(1) ok] ok c(3,5) by (simp add: tx_ok_def)
  ultimately show ?thesis using assms(2) c q request by (simp add: tx_inv_def tx_settled_def)
next
  case (transmit oc)
  have "tx_settled (u, w) \<longrightarrow> unsent u = []" using transmit(2) by (simp add: tx_settled_def)
  then show ?thesis using tx_thread_refines [OF assms(2) transmit(4,5), of Transmit "crlf_mode u"] unfolding transmit(1,3) by blast
next
  case (resume oc)
  have "tx_settled (u, w) \<longrightarrow> unsent u = []" using resume(5) by (simp add: tx_settled_def)
  then show ?thesis using tx_resume_refines [OF assms(2) resume(4,6), of Resume "crlf_mode u"] unfolding resume(1,3) by blast
next
  case (timeout oc)
  then show ?thesis using tx_resume_refines [OF assms(2) timeout(4,6), of Timeout "crlf_mode u"] by blast
next
  case (notify sz)
  have i: "tx_ok f u" "pending (unsent u) u" using assms(2) by (simp_all add: tx_inv_def)
  show ?thesis
  proof (cases "unsent u = []")
    case False
    then obtain v where v: "rt_usbd_thread_step (vcom_class uops cb mem) (USB_MSG_DATA_NOTIFY (in_address u) sz) u = Some v" "same_port u v" "tx_ok f v"
      "cls v = cls u" "pending (drop 64 (unsent u)) v" "to_host v = to_host u @ [take 64 (unsent u)]" using notify_packet [OF i(1,2)] by blast
    have eq: "v = u'" using v(1) notify(3) by (metis option.inject)
    have "tx_abs v = tx_next (crlf_mode u) e (tx_abs u)" using v(4,6) notify(1) pending_unsent [OF v(5)] by (simp add: tx_abs_def)
    then have "tx_spec_step (crlf_mode u) e (tx_abs u) (tx_abs v)" by (simp add: tx_spec_step.exact)
    then show ?thesis using notify(1,2) v(2-5) False pending_unsent [OF v(5)] eq by (simp add: tx_inv_def tx_settled_def)
  next
    case True
    then have "pending [] u" using i(2) by simp
    from notify_end [OF i(1) this, of uops cb mem sz] obtain v where
      v: "rt_usbd_thread_step (vcom_class uops cb mem) (USB_MSG_DATA_NOTIFY (in_address u) sz) u = Some v" "same_port u v" "tx_ok f v" "pending [] v"
      "cls v = (cls u)\<lparr>in_sending := True\<rparr> \<and> to_host v = to_host u @ [[]] \<or> v = upd_kern (rt_completion_done (vc_wait (cls u))) u" by metis
    have eq: "v = u'" using v(1) notify(3) by (metis option.inject)
    have "concat (to_host v) = concat (to_host u)" "tx_ringbuffer (cls v) = tx_ringbuffer (cls u)" "connected (cls v) = connected (cls u)"
      using v(5) same_portD(1) [OF v(2)] by auto
    then have "tx_abs v = tx_next (crlf_mode u) e (tx_abs u)" using notify(1) True pending_unsent [OF v(4)] by (simp add: tx_abs_def)
    then have "tx_spec_step (crlf_mode u) e (tx_abs u) (tx_abs v)" by (simp add: tx_spec_step.exact)
    then show ?thesis using v(2-4) pending_unsent [OF v(4)] eq by (simp add: tx_inv_def tx_settled_def)
  qed
next
  case (others k')
  have p: "same_port u u'" unfolding others by simp
  have q: "unsent u' = unsent u" "pending b u' = pending b u" "to_host u' = to_host u" for b
    using quiet_step [OF p] same_portD(1) [OF p] others by simp_all
  have "tx_abs u' = tx_next (crlf_mode u) e (tx_abs u)" using q others by (simp add: tx_abs_def)
  then have "tx_spec_step (crlf_mode u) e (tx_abs u) (tx_abs u')" by (simp add: tx_spec_step.exact)
  moreover have ok: "tx_ok f u" using assms(2) by (simp add: tx_inv_def)
  have "tx_ok f u'" using same_port_ok [OF p ok] ok others by (simp add: tx_ok_def)
  ultimately show ?thesis using assms(2) p q others by (simp add: tx_inv_def tx_settled_def)
qed

lemma tx_run_refines:
  assumes "tx_run uops cb mem t es s s'" "tx_inv f (fst s)"
  shows "tx_inv f (fst s') \<and> dev_open_flag (cls (fst s')) = dev_open_flag (cls (fst s)) \<and>
    tx_spec_run (crlf_mode (fst s)) es (tx_abs (fst s)) (tx_abs (fst s')) \<and> (Timeout \<notin> set es \<longrightarrow> tx_settled s \<longrightarrow> tx_settled s')"
  using assms
proof (induction rule: tx_run.induct)
  case (none s)
  then show ?case by (simp add: tx_spec_run.none)
next
  case (step e s s' es s'')
  obtain u w u' w' where s: "s = (u, w)" "s' = (u', w')" by (cases s, cases s')
  have r: "same_port u u'" "tx_inv f u'" "tx_spec_step (crlf_mode u) e (tx_abs u) (tx_abs u')"
    "e \<noteq> Timeout \<longrightarrow> tx_settled (u, w) \<longrightarrow> tx_settled (u', w')"
    using tx_step_refines [of uops cb mem t e u w u' w' f] step.hyps(1) step.prems unfolding s by simp_all
  have "tx_spec_run (crlf_mode u) es (tx_abs u') (tx_abs (fst s''))" using step.IH r(1,2) s by (simp add: same_port_def)
  then have "tx_spec_run (crlf_mode u) (e # es) (tx_abs u) (tx_abs (fst s''))" by (rule tx_spec_run.step [OF r(3)])
  then show ?case using step.IH r s by (auto simp: same_port_def)
qed

text \<open>
  C3. The transmission of a configured port refines its specification under every interleaving of writes, control requests,
  runs of the transmit thread, also after a wait of it has timed out, notifications and other threads: the
  ring is a queue of the newest 1024 bytes; what the thread takes from it, 128 bytes at a time, goes to the
  controller in that order, packet by packet, and nothing else does; without a host everything is
  dropped. Only after a timeout is a request given up with bytes left: the next one replaces it, and
  without a host its bytes may be overwritten. As long as no wait times out, the thread is waiting and its
  completion is not done while bytes of a request are still to be sent.
\<close>

theorem vcom_transmit_refines:
  assumes "tx_run uops cb mem t es (u, w) (u', w')" "tx_inv f u"
  shows "tx_inv f u' \<and> tx_spec_run (crlf_mode u) es (tx_abs u) (tx_abs u') \<and>
    (Timeout \<notin> set es \<longrightarrow> tx_settled (u, w) \<longrightarrow> tx_settled (u', w'))"
  using tx_run_refines [OF assms(1)] assms(2) by simp

text \<open>A wait that times out while the ring holds more: the next request takes the place of the bytes not sent yet, which are lost.\<close>

lemma vcom_timeout_loses_rest:
  assumes "tx_inv f u" "tx_ready t (cls u)" "connected (cls u)" "contents (tx_ringbuffer (cls u)) \<noteq> []" "\<not> completions (kern (cls u)) (vc_wait (cls u))"
  defines "b \<equiv> take CDC_BULKIN_MAXSIZE (contents (tx_ringbuffer (cls u)))"
  shows "\<exists>u'. tx_step uops cb mem t Timeout (u, True) (u', True) \<and> to_host u' = to_host u @ [take 64 b] \<and> unsent u' = drop 64 b"
proof -
  let ?v = "upd_kern (\<lambda>k. snd (rt_completion_wait_resume (vc_wait (cls u)) t k)) u"
  have i: "tx_ok f u" using assms(1) by (simp add: tx_inv_def)
  have ok: "tx_ok f ?v" using same_port_ok [OF same_port_upd(1) i] i by (simp add: tx_ok_def)
  have r: "tx_ready t (cls ?v)" using assms(2) by (simp add: tx_ready_def rt_completion_wait_resume_def)
  obtain g where g: "tx_done uops cb ?v = Some (upd_kern g ?v)" "tx_ready t (cls (upd_kern g ?v))" using tx_done_spec [OF r ok] by blast
  let ?u = "upd_kern g ?v"
  have p: "same_port u ?u" by (rule same_port_trans [OF same_port_upd(1) same_port_upd(1)])
  have ok2: "tx_ok f ?u" using same_port_ok [OF p i] i by (simp add: tx_ok_def)
  obtain u' where u': "vcom_tx_loop uops cb ?u = Some (Blocked, u')" "pending (drop 64 b) u'" "to_host u' = to_host ?u @ [take 64 b]"
    using tx_loop_online [OF ok2 g(2), of uops cb] assms(3,4) by (auto simp: b_def)
  have "tx_step uops cb mem t Timeout (u, True) (u', Blocked = (Blocked :: unit outcome))"
    by (rule tx_step.timeout [OF assms(2,5)]) (use g(1) u'(1) in \<open>simp add: vcom_tx_resume_def\<close>)
  then show ?thesis using u'(2,3) pending_unsent [OF u'(2)] same_portD(1) [OF p] by auto
qed

text \<open>The events under which nothing is lost: a host listens, there is room for what is written, and no wait of the thread times out.\<close>

fun tx_lossless :: "bool \<Rightarrow> tx_event list \<Rightarrow> tx_spec \<Rightarrow> bool" where
  "tx_lossless crlf [] s = sp_online s"
| "tx_lossless crlf (e # es) s \<longleftrightarrow> sp_online s \<and>
     (case e of Write c \<Rightarrow> length (sp_queue s) + 2 \<le> CDC_TX_BUFSIZE | Timeout \<Rightarrow> False | _ \<Rightarrow> True) \<and> tx_lossless crlf es (tx_next crlf e s)"

definition stream_bytes :: "bool \<Rightarrow> tx_event list \<Rightarrow> u8 list" where
  "stream_bytes crlf es = concat (map (\<lambda>e. case e of Write c \<Rightarrow> if c = 10 \<and> crlf then [13, 10] else [c] | _ \<Rightarrow> []) es)"

abbreviation sp_stream :: "tx_spec \<Rightarrow> u8 list" where
  "sp_stream s \<equiv> sp_sent s @ sp_rest s @ sp_queue s"

lemma spec_online: "sp_online s \<Longrightarrow> tx_spec_step crlf e s s' \<Longrightarrow> s' = tx_next crlf e s"
  by (auto elim: tx_spec_stepE)

lemma packets_of_queue: "take 64 q @ drop 64 (take 128 q) @ drop 128 q = q"
proof -
  have "take 64 q @ drop 64 (take 128 q) = take 128 q" using append_take_drop_id [of 64 "take 128 q"] by simp
  then show ?thesis by (metis append.assoc append_take_drop_id)
qed

lemma next_lossless:
  assumes "tx_lossless crlf (e # es) s" "e \<in> {Transmit, Resume} \<Longrightarrow> sp_rest s = []"
  shows "sp_stream (tx_next crlf e s) = sp_stream s @ stream_bytes crlf [e]"
proof (cases e)
  case (Write c)
  then show ?thesis using assms(1)
    newest_short [of "sp_queue s @ (if c = 10 \<and> crlf then [13, 10] else [c])" CDC_TX_BUFSIZE] by (simp add: stream_bytes_def)
qed (use assms packets_of_queue [of "sp_queue s"] in \<open>simp_all add: stream_bytes_def Let_def\<close>)

lemma thread_finds_nothing_unsent:
  "tx_step uops cb mem t e (u, w) s' \<Longrightarrow> tx_settled (u, w) \<Longrightarrow> e \<in> {Transmit, Resume} \<Longrightarrow> unsent u = []"
  by (cases rule: tx_step.cases) (auto simp: tx_settled_def)

lemma run_lossless:
  assumes "tx_run uops cb mem t es s s'" "tx_inv f (fst s)" "tx_settled s" "tx_lossless (crlf_mode (fst s)) es (tx_abs (fst s))"
  shows "sp_stream (tx_abs (fst s')) = sp_stream (tx_abs (fst s)) @ stream_bytes (crlf_mode (fst s)) es \<and> tx_settled s'"
  using assms
proof (induction rule: tx_run.induct)
  case (none s)
  then show ?case by (simp add: stream_bytes_def)
next
  case (step e s s' es s'')
  obtain u w u' w' where s: "s = (u, w)" "s' = (u', w')" by (cases s, cases s')
  let ?c = "crlf_mode u"
  have l: "e \<noteq> Timeout" "sp_online (tx_abs u)" "tx_lossless ?c es (tx_next ?c e (tx_abs u))" using step.prems(3) s by auto
  have r: "same_port u u'" "tx_inv f u'" "tx_spec_step ?c e (tx_abs u) (tx_abs u')" "tx_settled (u', w')"
    using tx_step_refines [of uops cb mem t e u w u' w' f] step.hyps(1) step.prems(1,2) l(1) unfolding s by simp_all
  have n: "tx_abs u' = tx_next ?c e (tx_abs u)" by (rule spec_online [OF l(2) r(3)])
  have "e \<in> {Transmit, Resume} \<Longrightarrow> sp_rest (tx_abs u) = []"
    using thread_finds_nothing_unsent [of uops cb mem t e u w s'] step.hyps(1) step.prems(2) s by (simp add: tx_abs_def)
  from next_lossless [OF _ this, where crlf = ?c and es = es] step.prems(3) s
  have "sp_stream (tx_abs u') = sp_stream (tx_abs u) @ stream_bytes ?c [e]" using n by simp
  moreover have "stream_bytes ?c (e # es) = stream_bytes ?c [e] @ stream_bytes ?c es" by (simp add: stream_bytes_def)
  moreover have "sp_stream (tx_abs (fst s'')) = sp_stream (tx_abs u') @ stream_bytes ?c es \<and> tx_settled s''"
    using step.IH r l(3) n s by (simp add: same_port_def)
  ultimately show ?case using s by simp
qed

text \<open>
  C1. Nothing is lost, duplicated or reordered on the way to the host, as long as a host listens, the ring has
  room for what is written and no transfer takes so long that the thread's wait for it times out. Under every
  interleaving of the steps of a configured port, the bytes handed to the controller, followed by the
  unsent part of the request and the contents of the ring, are then the bytes written by the application
  (line ends as CR LF in stream mode) after those of before; and a thread that is not waiting has left
  nothing unsent.
\<close>

theorem vcom_stream_to_host:
  assumes "tx_run uops cb mem t es (u, w) (u', w')" "tx_inv f u" "tx_settled (u, w)" "tx_lossless (crlf_mode u) es (tx_abs u)"
  shows "concat (to_host u') @ unsent u' @ contents (tx_ringbuffer (cls u')) =
      concat (to_host u) @ unsent u @ contents (tx_ringbuffer (cls u)) @ stream_bytes (crlf_mode u) es \<and>
    (\<not> w' \<longrightarrow> unsent u' = [])"
  using run_lossless [OF assms(1)] assms(2-4) by (auto simp: tx_abs_def tx_settled_def)

section \<open>A transfer\<close>

lemma notify_all:
  assumes "tx_ok f u" "pending b u"
  defines "ps \<equiv> (if b = [] then [] else chunks 64 b)"
  shows "\<exists>u'. rt_usbd_thread_run (vcom_class uops cb mem) (replicate (length ps) (USB_MSG_DATA_NOTIFY (in_address u) sz)) u = Some u' \<and>
    same_port u u' \<and> tx_ok f u' \<and> cls u' = cls u \<and> pending [] u' \<and> to_host u' = to_host u @ ps \<and> req_size (in_request u') = req_size (in_request u)"
  using assms(1,2) unfolding ps_def
proof (induction "length b" arbitrary: b u rule: less_induct)
  case less
  show ?case
  proof (cases "b = []")
    case True
    then show ?thesis using less.prems by (simp add: same_port_def same_tree_def)
  next
    case False
    let ?N = "USB_MSG_DATA_NOTIFY (in_address u) sz" and ?b = "drop 64 b"
    obtain v where v: "rt_usbd_thread_step (vcom_class uops cb mem) ?N u = Some v" "same_port u v" "tx_ok f v" "cls v = cls u"
      "pending ?b v" "to_host v = to_host u @ [take 64 b]" "req_size (in_request v) = req_size (in_request u)"
      using notify_packet [OF less.prems False] by blast
    have a: "in_address v = in_address u" using same_portD(1) [OF v(2)] by simp
    have "length ?b < length b" using False by simp
    from less.hyps [OF this v(3,5)] obtain u' where u': "rt_usbd_thread_run (vcom_class uops cb mem)
        (replicate (length (if ?b = [] then [] else chunks 64 ?b)) ?N) v = Some u'" "same_port v u'" "tx_ok f u'" "cls u' = cls v"
      "pending [] u'" "to_host u' = to_host v @ (if ?b = [] then [] else chunks 64 ?b)" "req_size (in_request u') = req_size (in_request v)"
      unfolding a by blast
    have "chunks 64 b = take 64 b # (if ?b = [] then [] else chunks 64 ?b)" by (rule chunks_Cons) simp
    then show ?thesis using u' v same_port_trans [OF v(2) u'(2)] False
      by (intro exI [of _ u'] conjI) (simp_all del: rt_usbd_thread_step.simps)
  qed
qed

text \<open>The end of the transfer: the packet of length zero if it is needed, then the completion.\<close>

lemma notify_finish:
  assumes "tx_ok f u" "pending [] u" "unat (req_size (in_request u)) = n"
  defines "zs \<equiv> (if n \<noteq> 0 \<and> 64 dvd n then [[]] else [])"
  shows "\<exists>u'. rt_usbd_thread_run (vcom_class uops cb mem) (replicate (length zs + 1) (USB_MSG_DATA_NOTIFY (in_address u) sz)) u = Some u' \<and>
    to_host u' = to_host u @ zs \<and> tx_ringbuffer (cls u') = tx_ringbuffer (cls u) \<and>
    kern (cls u') = rt_completion_done (vc_wait (cls u)) (kern (cls u))"
proof -
  let ?N = "USB_MSG_DATA_NOTIFY (in_address u) sz" and ?s = "req_size (in_request u)"
  have m: "?s \<noteq> 0 \<and> ?s mod 64 = 0 \<longleftrightarrow> n \<noteq> 0 \<and> 64 dvd n"
    using assms(3) by (auto simp: word_unat_eq_iff unat_mod)
  obtain v where v: "rt_usbd_thread_step (vcom_class uops cb mem) ?N u = Some v" "same_port u v" "tx_ok f v" "pending [] v"
    and c: "if ?s \<noteq> 0 \<and> ?s mod 64 = 0 then to_host v = to_host u @ [[]] \<and> cls v = (cls u)\<lparr>in_sending := True\<rparr> \<and> req_size (in_request v) = 0
      else v = upd_kern (rt_completion_done (vc_wait (cls u))) u"
    using notify_end [OF assms(1,2), of uops cb mem sz] by metis
  have a: "in_address v = in_address u" using same_portD(1) [OF v(2)] by simp
  show ?thesis
  proof (cases "n \<noteq> 0 \<and> 64 dvd n")
    case True
    then have c: "to_host v = to_host u @ [[]]" "cls v = (cls u)\<lparr>in_sending := True\<rparr>" "req_size (in_request v) = 0" using c m by auto
    from notify_end [OF v(3,4), of uops cb mem sz] c(3) obtain v' where
      v': "rt_usbd_thread_step (vcom_class uops cb mem) ?N v = Some v'" "v' = upd_kern (rt_completion_done (vc_wait (cls v))) v" unfolding a by auto
    have "to_host v' = to_host v" using same_portD(1) [OF same_port_upd(1), of "rt_completion_done (vc_wait (cls v))" v] v'(2) by simp
    then show ?thesis using v(1) v' c True by (intro exI [of _ v']) (simp add: zs_def del: rt_usbd_thread_step.simps)
  next
    case False
    then have "v = upd_kern (rt_completion_done (vc_wait (cls u))) u" using c m by metis
    then show ?thesis using v(1) a False unfolding zs_def if_not_P [OF False] by (intro exI [of _ v]) (simp del: rt_usbd_thread_step.simps)
  qed
qed

text \<open>
  C4. A transfer to the host runs to its end. When the transmit thread finds bytes in the ring and a host is
  connected, it takes up to 128 of them, posts them and is suspended. One notification for each
  packet then sends exactly these bytes as full packets of 64 bytes and one short packet, an empty one
  if need be, so that the host sees the end of the transfer; the last notification makes the thread
  ready, and its wait returns \<open>RT_EOK\<close>. What else is in the ring waits for the next transfer.
\<close>

theorem vcom_transfer_completes:
  assumes "tx_ok f u" "tx_ready t (cls u)" "connected (cls u)" "contents (tx_ringbuffer (cls u)) \<noteq> []"
  defines "b \<equiv> take CDC_BULKIN_MAXSIZE (contents (tx_ringbuffer (cls u)))"
  shows "\<exists>u1 u2. vcom_tx_loop uops cb u = Some (Blocked, u1) \<and> stat (kern (cls u1)) t = RT_THREAD_SUSPEND \<and>
    rt_usbd_thread_run (vcom_class uops cb mem) (replicate (length (packets 64 b)) (USB_MSG_DATA_NOTIFY (in_address u) sz)) u1 = Some u2 \<and>
    to_host u2 = to_host u @ packets 64 b \<and> concat (packets 64 b) = b \<and> length (last (packets 64 b)) < 64 \<and>
    contents (tx_ringbuffer (cls u2)) = drop CDC_BULKIN_MAXSIZE (contents (tx_ringbuffer (cls u))) \<and>
    stat (kern (cls u2)) t = RT_THREAD_READY \<and>
    fst (rt_completion_wait_resume (vc_wait (cls u)) t (kern (cls u2))) = Ret RT_EOK"
proof -
  let ?q = "contents (tx_ringbuffer (cls u))" and ?w = "vc_wait (cls u)" and ?ops = "vcom_class uops cb mem"
  let ?N = "USB_MSG_DATA_NOTIFY (in_address u) sz" and ?k = "set_completion (vc_wait (cls u)) False (kern (cls u))"
  obtain u1 where u1: "vcom_tx_loop uops cb u = Some (Blocked, u1)" "same_port u u1" "tx_ok f u1" "contents (tx_ringbuffer (cls u1)) = drop 128 ?q"
    "pending (drop 64 b) u1" "to_host u1 = to_host u @ [take 64 b]" "req_size (in_request u1) = of_nat (length b)"
    "kern (cls u1) = wait_fresh (LCompletion ?w) 0 VCOM_TX_TIMEOUT t ?k"
    using tx_loop_online [OF assms(1-4), of uops cb] by (auto simp only: b_def)
  have a1: "in_address u1 = in_address u" "vc_wait (cls u1) = ?w" using same_portD [OF u1(2)] by simp_all
  let ?ps = "if drop 64 b = [] then [] else chunks 64 (drop 64 b)"
  obtain u2 where u2: "rt_usbd_thread_run ?ops (replicate (length ?ps) ?N) u1 = Some u2" "same_port u1 u2" "tx_ok f u2" "cls u2 = cls u1"
    "pending [] u2" "to_host u2 = to_host u1 @ ?ps" "req_size (in_request u2) = req_size (in_request u1)"
    using notify_all [OF u1(3,5), of uops cb mem sz] unfolding a1 by blast
  have a2: "in_address u2 = in_address u" using same_portD(1) [OF u2(2)] a1 by simp
  have "length b \<le> 128" "b \<noteq> []" using assms(4) by (simp_all add: b_def)
  then have n: "unat (req_size (in_request u2)) = length b" using u1(7) u2(7) by (simp add: unat_of_nat take_bit_nat_eq_self)
  let ?zs = "if length b \<noteq> 0 \<and> 64 dvd length b then [[]] else [] :: u8 list list"
  obtain u3 where u3: "rt_usbd_thread_run ?ops (replicate (length ?zs + 1) ?N) u2 = Some u3" "to_host u3 = to_host u2 @ ?zs"
    "tx_ringbuffer (cls u3) = tx_ringbuffer (cls u2)" "kern (cls u3) = rt_completion_done (vc_wait (cls u2)) (kern (cls u2))"
    using notify_finish [OF u2(3,5) n, of uops cb mem sz] unfolding a2 by blast
  have pk: "packets 64 b = take 64 b # ?ps @ ?zs" using packets_chunks [of 64 b] chunks_Cons [of 64 b] by simp
  then have "rt_usbd_thread_run ?ops (replicate (length (packets 64 b)) ?N) u1 = Some u3"
    using u2(1) u3(1) rt_usbd_thread_run_append [of ?ops "replicate (length ?ps) ?N" "replicate (length ?zs + 1) ?N" u1]
    by (simp add: replicate_add [symmetric] del: replicate_Suc)
  moreover have "to_host u3 = to_host u @ packets 64 b" using u1(6) u2(6) u3(2) pk by simp
  moreover have "sched_wf ?k" "may_wait t ?k" "tlists ?k (LCompletion ?w) = []" "\<not> completions ?k ?w" using assms(2) by (simp_all add: tx_ready_def)
  note w = completion_wakes [OF this, of VCOM_TX_TIMEOUT]
  have "stat (kern (cls u1)) t = RT_THREAD_SUSPEND" "stat (kern (cls u3)) t = RT_THREAD_READY"
    "fst (rt_completion_wait_resume ?w t (kern (cls u3))) = Ret RT_EOK"
    using w(2,4,6) u1(8) u2(4) u3(4) a1 by simp_all
  ultimately show ?thesis using u1(1,4) u2(4) u3(3) packets_props [of 64 b] by (intro exI [of _ u1] exI [of _ u3]) simp
qed

section \<open>A port with a host\<close>

text \<open>The configured device with \<open>bs\<close> in the ring, its thread running and a host connected.\<close>

definition demo_port :: "u8 list \<Rightarrow> kernel \<Rightarrow> vcom" where
  "demo_port bs k =
     \<lparr>kern = k, dev_id = 0, dev_type = 0, dev_flag = 0, dev_open_flag = 0, dev_ref_count = 0, dev_rx_indicate = None, dev_tx_complete = None,
      config = \<lparr>baud_rate = 115200, data_bits = 8, stop_bits = 0, parity = 0, bit_order = 0, invert = 0, bufsz = 128\<rparr>,
      serial_rx = RxNull, serial_tx = TxNull, vc_ep_out = 0, vc_ep_in = 0, vc_ep_cmd = 0, connected = False, in_sending = False,
      vc_wait = 0, rx_ringbuffer = rt_ringbuffer_init (replicate 128 0) 128,
      tx_ringbuffer = snd (rt_ringbuffer_put (rt_ringbuffer_init (replicate 1024 0) 1024) bs (length bs)), tx_event = 0\<rparr>"

definition demo_vcom :: "u8 list \<Rightarrow> vcom usb" where
  "demo_vcom bs = upd_cls (\<lambda>d. d\<lparr>connected := True\<rparr>) (vcom_configured (replicate 128 0) 5 (demo_port bs (demo_running 2 [3] (LSem 0) [])))"

lemma demo_vcom_ok:
  assumes "length bs \<le> 1024"
  shows "tx_ok 0 (demo_vcom bs)" "contents (tx_ringbuffer (cls (demo_vcom bs))) = bs" "tx_ready 2 (cls (demo_vcom bs))"
    "connected (cls (demo_vcom bs))" "in_address (demo_vcom bs) = 0x81" "tx_inv 0 (demo_vcom bs)" "to_host (demo_vcom bs) = []"
    "unsent (demo_vcom bs) = []" "\<not> crlf_mode (demo_vcom bs)"
proof -
  let ?k = "demo_running 2 [3] (LSem 0) []" and ?rb = "rt_ringbuffer_init (replicate 1024 0) 1024"
  let ?c = "vcom_configured (replicate 128 0) 5 (demo_port bs ?k)"
  have rb: "rb_wf ?rb" "contents ?rb = []" "cap ?rb = 1024" using init_wf [of 1024 "replicate 1024 0"] by simp_all
  obtain n rb where p: "rt_ringbuffer_put ?rb bs (length bs) = (n, rb)" by fastforce
  have r: "rb_wf rb" "contents rb = bs" "cap rb = 1024" using put_spec [OF rb(1) _ _ p] rb assms by simp_all
  have c: "cls (demo_vcom bs) = (demo_port bs ?k)\<lparr>connected := True, vc_ep_cmd := 2, vc_ep_out := 0, vc_ep_in := 1\<rparr>"
    by (simp add: demo_vcom_def vcom_configured_simps vcom_reset_state_def demo_port_def)
  have t: "same_tree ?c (demo_vcom bs)" "dev_state (demo_vcom bs) = dev_state ?c" by (simp_all add: demo_vcom_def)
  have e: "in_endpoint 1 0 64 (demo_vcom bs)" "EP_ADDRESS 1 (demo_vcom bs) = 0x81"
    using in_endpoint_cong [OF t] same_tree_simps(1) [OF t(1)] vcom_endpoints [of "replicate 128 0" 5 "demo_port bs ?k"] by (simp_all del: One_nat_def)
  have s: "eps (demo_vcom bs) 1 = built_ep (1, 16) 1 1" "statics (demo_vcom bs) n = replicate 128 0" for n
    by (simp_all add: demo_vcom_def vcom_configured_simps del: One_nat_def)
  show ok: "tx_ok 0 (demo_vcom bs)" using e s r p by (simp add: tx_ok_def c built_ep_def demo_port_def del: One_nat_def)
  have "sched_wf ?k" by (rule demo_running_wf) simp_all
  moreover have "may_wait 2 ?k" by (auto simp: may_wait_def demo_running_def demo_kernel_def demo_thread_def intro!: exI [of _ 3])
  moreover have "tlists ?k (LCompletion 0) = []" by (simp add: demo_running_def demo_kernel_def)
  ultimately show "tx_ready 2 (cls (demo_vcom bs))" by (simp add: tx_ready_def c demo_port_def)
  show "contents (tx_ringbuffer (cls (demo_vcom bs))) = bs" "connected (cls (demo_vcom bs))" "in_address (demo_vcom bs) = 0x81"
    "\<not> crlf_mode (demo_vcom bs)" using r p e by (simp_all add: c demo_port_def del: One_nat_def)
  have "in_request (demo_vcom bs) = zero_request" using s(1) by (simp add: c built_ep_def del: One_nat_def)
  then show u: "unsent (demo_vcom bs) = []" by (simp add: unsent_def zero_request_def)
  with ok \<open>in_request (demo_vcom bs) = zero_request\<close> show "tx_inv 0 (demo_vcom bs)" by (simp add: tx_inv_def pending_def zero_request_def)
  show "to_host (demo_vcom bs) = []" using e(2) by (simp add: c del: One_nat_def) (simp add: demo_vcom_def vcom_configured_def Let_def)
qed

abbreviation (input) demo_uops :: "vcom rt_uart_ops" where "demo_uops \<equiv> usb_vcom_ops (\<lambda>_ _ _ d. d)"
abbreviation (input) demo_cb :: "vcom callbacks" where "demo_cb \<equiv> \<lparr>cb_rx_indicate = \<lambda>_ _ d. d, cb_tx_complete = \<lambda>_ _ d. d\<rparr>"

theorem vcom_transfer_completes_witness:
  "\<exists>u1 u2. vcom_tx_loop demo_uops demo_cb (demo_vcom (replicate 64 7)) = Some (Blocked, u1) \<and>
     rt_usbd_thread_run (vcom_class demo_uops demo_cb None) [USB_MSG_DATA_NOTIFY 0x81 64, USB_MSG_DATA_NOTIFY 0x81 64] u1 = Some u2 \<and>
     to_host u2 = [replicate 64 7, []] \<and> stat (kern (cls u2)) 2 = RT_THREAD_READY"
proof -
  have pk: "packets 64 (replicate 64 (7 :: u8)) = [replicate 64 7, []]" by (simp add: packets_ge packets_lt)
  note d = demo_vcom_ok [of "replicate 64 7", simplified]
  have "contents (tx_ringbuffer (cls (demo_vcom (replicate 64 7)))) \<noteq> []" using d(2) by simp
  from vcom_transfer_completes [OF d(1,3,4) this, of demo_uops demo_cb None 64] d(2,5,7) pk show ?thesis
    by (auto simp del: rt_usbd_thread_step.simps)
qed

text \<open>The first transfer of 128 bytes times out, and the next one replaces it.\<close>

theorem vcom_transmit_refines_witness:
  "\<exists>u'. tx_run demo_uops demo_cb None 2 [Transmit, Others, Timeout] (demo_vcom (replicate 200 7), False) (u', True) \<and>
     tx_spec_run False [Transmit, Others, Timeout] \<lparr>sp_sent = [], sp_rest = [], sp_queue = replicate 200 7, sp_online = True\<rparr> (tx_abs u')"
proof -
  let ?u = "demo_vcom (replicate 200 7)"
  note d = demo_vcom_ok [of "replicate 200 7", simplified]
  have ne: "contents (tx_ringbuffer (cls ?u)) \<noteq> []" using d(2) by simp
  obtain u1 where u1: "vcom_tx_loop demo_uops demo_cb ?u = Some (Blocked, u1)" "same_port ?u u1" "tx_ok 0 u1" "connected (cls u1)"
    "contents (tx_ringbuffer (cls u1)) = drop 128 (contents (tx_ringbuffer (cls ?u)))"
    "pending (drop 64 (take 128 (contents (tx_ringbuffer (cls ?u))))) u1"
    "kern (cls u1) = wait_fresh (LCompletion (vc_wait (cls ?u))) 0 VCOM_TX_TIMEOUT 2 (set_completion (vc_wait (cls ?u)) False (kern (cls ?u)))"
    using tx_loop_online [OF d(1,3,4) ne, of demo_uops demo_cb] by (auto simp only:)
  have s1: "tx_step demo_uops demo_cb None 2 Transmit (?u, False) (u1, True)" using tx_step.transmit [OF d(3) u1(1)] by simp
  let ?k = "set_completion (vc_wait (cls ?u)) False (kern (cls ?u))" and ?v = "\<lambda>k. upd_kern (\<lambda>_. k) u1"
  have w: "vc_wait (cls u1) = vc_wait (cls ?u)" "serial_tx (cls u1) = serial_tx (cls ?u)" using same_portD [OF u1(2)] by simp_all
  have s2: "tx_step demo_uops demo_cb None 2 Others (u1, True) (?v ?k, True)" by (rule tx_step.others) (simp add: u1(7) frame_simps)
  have p: "same_port u1 (?v ?k)" by simp
  have "pending (unsent u1) u1" using u1(6) pending_unsent [OF u1(6)] by simp
  then have inv: "tx_inv 0 (?v ?k)"
    using quiet_step [OF p] same_port_ok [OF p u1(3)] u1(3) same_portD(1) [OF p] by (simp add: tx_inv_def tx_ok_def)
  have r: "tx_ready 2 (cls (?v ?k))" using d(3) w by (simp add: tx_ready_def)
  have "contents (tx_ringbuffer (cls (?v ?k))) \<noteq> []" "connected (cls (?v ?k))" "\<not> completions (kern (cls (?v ?k))) (vc_wait (cls (?v ?k)))"
    using u1(4,5) d(2) w by simp_all
  then obtain u3 where s3: "tx_step demo_uops demo_cb None 2 Timeout (?v ?k, True) (u3, True)"
    using vcom_timeout_loses_rest [OF inv r, of demo_uops demo_cb None] by blast
  have run: "tx_run demo_uops demo_cb None 2 [Transmit, Others, Timeout] (?u, False) (u3, True)"
    by (intro tx_run.step [OF s1] tx_run.step [OF s2] tx_run.step [OF s3] tx_run.none)
  have "tx_abs ?u = \<lparr>sp_sent = [], sp_rest = [], sp_queue = replicate 200 7, sp_online = True\<rparr>" using d by (simp add: tx_abs_def)
  then show ?thesis using vcom_transmit_refines [OF run d(6)] run d(9) by (intro exI [of _ u3]) simp
qed

theorem vcom_stream_to_host_witness:
  "\<exists>u'. tx_run demo_uops demo_cb None 2 [Transmit, Write 65] (demo_vcom [7, 8], False) (u', True) \<and>
     concat (to_host u') @ unsent u' @ contents (tx_ringbuffer (cls u')) = [7, 8, 65]"
proof -
  note d = demo_vcom_ok [of "[7, 8]", simplified]
  have ne: "contents (tx_ringbuffer (cls (demo_vcom [7, 8]))) \<noteq> []" using d(2) by simp
  obtain u1 where u1: "vcom_tx_loop demo_uops demo_cb (demo_vcom [7, 8]) = Some (Blocked, u1)" using tx_loop_online [OF d(1,3,4) ne] by blast
  let ?u = "upd_cls (\<lambda>d. snd (vcom_putc 65 d)) u1"
  have "tx_step demo_uops demo_cb None 2 Transmit (demo_vcom [7, 8], False) (u1, True)"
    using tx_step.transmit [OF d(3) u1] by simp
  then have run: "tx_run demo_uops demo_cb None 2 [Transmit, Write 65] (demo_vcom [7, 8], False) (?u, True)"
    by (intro tx_run.step [OF _ tx_run.step [OF tx_step.putc tx_run.none]])
  have "tx_lossless (crlf_mode (demo_vcom [7, 8])) [Transmit, Write 65] (tx_abs (demo_vcom [7, 8]))"
    using d(2,4) by (simp add: tx_abs_def Let_def)
  moreover have "tx_settled (demo_vcom [7, 8], False)" using d(8) by (simp add: tx_settled_def)
  ultimately show ?thesis using vcom_stream_to_host [OF run d(6)] run d(2,7-9) by (auto simp: stream_bytes_def)
qed

end
