(* ===== verification/Vcom_Receive.thy ===== *)
theory Vcom_Receive
  imports Vcom_Transmit
begin

text \<open>
  From the host to the application: the port as hardware of the serial framework and as a driver of the device
  layer, and what a reader gets of the packets that arrive on the bulk-out endpoint.
\<close>

section \<open>The port as hardware of the serial framework\<close>

lemma getchar_spec:
  assumes "rb_wf rb" "rt_ringbuffer_getchar rb = (ch, rb')"
  shows "rb_wf rb' \<and> cap rb' = cap rb \<and> ch = (case contents rb of [] \<Rightarrow> None | c # cs \<Rightarrow> Some c) \<and> contents rb' = tl (contents rb)"
proof -
  obtain ys rb1 where g: "rt_ringbuffer_get rb 1 = (ys, rb1)" by fastforce
  note s = get_spec [OF assms(1) g]
  have "rb' = rb1" "ch = (if ys = [] then None else Some (hd ys))" using assms(2) g by (simp_all add: getchar_get [OF assms(1)])
  then show ?thesis using s by (cases "contents rb") simp_all
qed

definition rx_ring_ok :: "vcom \<Rightarrow> bool" where
  "rx_ring_ok d \<longleftrightarrow> rb_wf (rx_ringbuffer d) \<and> cap (rx_ringbuffer d) = CDC_RX_BUFSIZE"

text \<open>Everything but the two receive buffers.\<close>

definition rx_frame :: "vcom \<Rightarrow> vcom" where
  "rx_frame d = d\<lparr>rx_ringbuffer := rt_ringbuffer_init [] 0, serial_rx := RxNull\<rparr>"

interpretation vc_rx: uart_source "usb_vcom_ops dma" rx_ring_ok "\<lambda>d. contents (rx_ringbuffer d)" rx_frame
  for dma
proof unfold_locales
  fix d :: vcom and c cs r
  obtain ch rb where g: "rt_ringbuffer_getchar (rx_ringbuffer d) = (ch, rb)" by fastforce
  have e: "uart_getc (usb_vcom_ops dma) d = (case ch of None \<Rightarrow> - 1 | Some c \<Rightarrow> uint c, d\<lparr>rx_ringbuffer := rb\<rparr>)"
    by (simp add: usb_vcom_ops_def vcom_getc_def g)
  show "\<exists>d'. uart_getc (usb_vcom_ops dma) d = (- 1, d') \<and> rx_ring_ok d' \<and> contents (rx_ringbuffer d') = [] \<and> serial_rx d' = serial_rx d \<and>
      config d' = config d \<and> rx_frame d' = rx_frame d" if "rx_ring_ok d" "contents (rx_ringbuffer d) = []"
    using that getchar_spec [OF _ g] e by (simp add: rx_ring_ok_def rx_frame_def)
  show "\<exists>d'. uart_getc (usb_vcom_ops dma) d = (uint c, d') \<and> rx_ring_ok d' \<and> contents (rx_ringbuffer d') = cs \<and> serial_rx d' = serial_rx d \<and>
      config d' = config d \<and> rx_frame d' = rx_frame d" if "rx_ring_ok d" "contents (rx_ringbuffer d) = c # cs"
    using that getchar_spec [OF _ g] e by (simp add: rx_ring_ok_def rx_frame_def)
qed (simp_all add: rx_ring_ok_def rx_frame_def)

section \<open>The port as a device\<close>

definition port_flags :: "vcom \<Rightarrow> bool" where
  "port_flags d \<longleftrightarrow> has (dev_flag d) RT_DEVICE_FLAG_INT_RX \<and> has (dev_flag d) RT_DEVICE_FLAG_INT_TX"

abbreviation port_modes :: "u16 set" where
  "port_modes \<equiv> {m. \<not> has m RT_DEVICE_FLAG_DMA_RX \<and> \<not> has m RT_DEVICE_FLAG_DMA_TX}"

lemma has_OR_mono: "has w f \<Longrightarrow> has (w OR v) (f :: u16)"
  by (metis bit.conj_disj_distrib2 or_eq_0_iff)

lemma port_open_parts:
  assumes "m \<in> port_modes"
  shows "\<exists>d'. serial_open_rx (usb_vcom_ops dma) \<lparr>rx_mem = True, tx_mem = Some n, dq_mem = dq\<rparr> m d = Some d' \<and>
      dev_ref_count d' = dev_ref_count d \<and> dev_flag d' = dev_flag d"
    "\<exists>d'. serial_open_tx (usb_vcom_ops dma) \<lparr>rx_mem = True, tx_mem = Some n, dq_mem = dq\<rparr> m d = Some d' \<and>
      dev_ref_count d' = dev_ref_count d \<and> dev_flag d' = dev_flag d"
  using assms by (simp_all add: serial_open_rx_def serial_open_tx_def usb_vcom_ops_def vcom_control_def open_flag_or_def)

interpretation vc_dev: device_driver "serial_ops (usb_vcom_ops dma) \<lparr>rx_mem = True, tx_mem = Some n, dq_mem = dq\<rparr> cfg_at" port_flags port_modes
  for dma n dq cfg_at
proof unfold_locales
  fix d :: vcom and f g h m c
  let ?mem = "\<lparr>rx_mem = True, tx_mem = Some n, dq_mem = dq\<rparr>"
  let ?ops = "serial_ops (usb_vcom_ops dma) ?mem cfg_at"
  show "\<exists>d'. f d = Some (RT_EOK, d') \<and> port_flags d' \<and> dev_ref_count d' = dev_ref_count d \<and> dev_open_flag d' = dev_open_flag d \<and> dev_flag d' = dev_flag d"
    if "op_init ?ops = Some f" "port_flags d"
    using that by (auto simp: serial_ops_def rt_serial_init_def usb_vcom_ops_def vcom_configure_def port_flags_def)
  show "\<exists>d'. g m d = Some (RT_EOK, d') \<and> port_flags d' \<and> dev_ref_count d' = dev_ref_count d \<and> dev_flag d' = dev_flag d"
    if op: "op_open ?ops = Some g" and pf: "port_flags d" and md: "m \<in> port_modes"
  proof -
    obtain d1 where d1: "serial_open_rx (usb_vcom_ops dma) ?mem m (d\<lparr>dev_open_flag := m AND 0xff\<rparr>) = Some d1"
      "dev_ref_count d1 = dev_ref_count d" "dev_flag d1 = dev_flag d" using port_open_parts(1) [OF md] by force
    obtain d2 where "serial_open_tx (usb_vcom_ops dma) ?mem m d1 = Some d2" "dev_ref_count d2 = dev_ref_count d1" "dev_flag d2 = dev_flag d1"
      using port_open_parts(2) [OF md] by force
    moreover have "g = rt_serial_open (usb_vcom_ops dma) ?mem" using op by (simp add: serial_ops_def)
    ultimately show ?thesis using pf md d1 by (auto simp: rt_serial_open_def port_flags_def open_flag_or_def)
  qed
  show "\<exists>d'. h d = Some (RT_EOK, d') \<and> port_flags d' \<and> dev_ref_count d' = 0 \<and> dev_flag d' = dev_flag d"
    if "op_close ?ops = Some h" "port_flags d" "dev_ref_count d = 0"
    using that by (auto simp: serial_ops_def rt_serial_close_def usb_vcom_ops_def vcom_control_def port_flags_def open_flag_clear_def Let_def)
  show "port_flags (d\<lparr>dev_flag := dev_flag d OR RT_DEVICE_FLAG_ACTIVATED\<rparr>)" if "port_flags d"
    using that by (auto simp: port_flags_def has_OR_mono)
qed (simp_all add: serial_ops_def port_flags_def)

text \<open>
  C28. Users of the port: after any sequence of opens and closes, of any length, every call has
  returned, the reference count is the number of users, and the device is marked open exactly while
  there is one; an open port is an activated one. This is for a port registered for interrupt-driven
  reads and writes and not as a stand-alone device, opened in modes that use no DMA, with memory for
  the buffers at each open, and with at most 255 users at a time (the count has 8 bits).
\<close>

theorem vcom_users_counted:
  assumes "port_flags d" "count_ok d" "\<not> has (dev_flag d) RT_DEVICE_FLAG_STANDALONE" "\<And>i. users (take i cs) (unat (dev_ref_count d)) \<le> 255"
    and "\<And>m. Open m \<in> set cs \<Longrightarrow> \<not> has m RT_DEVICE_FLAG_DMA_RX \<and> \<not> has m RT_DEVICE_FLAG_DMA_TX"
  shows "\<exists>d'. dev_run (serial_ops (usb_vcom_ops dma) \<lparr>rx_mem = True, tx_mem = Some n, dq_mem = dq\<rparr> cfg_at) cs d = Some d' \<and>
    unat (dev_ref_count d') = users cs (unat (dev_ref_count d)) \<and> (opened d' \<longleftrightarrow> users cs (unat (dev_ref_count d)) \<noteq> 0) \<and>
    (opened d' \<longrightarrow> has (dev_flag d') RT_DEVICE_FLAG_ACTIVATED)"
proof -
  obtain d' where d': "dev_run (serial_ops (usb_vcom_ops dma) \<lparr>rx_mem = True, tx_mem = Some n, dq_mem = dq\<rparr> cfg_at) cs d = Some d'" "count_ok d'"
    "unat (dev_ref_count d') = users cs (unat (dev_ref_count d))"
    using vc_dev.run_counts [OF assms(1-3) _ assms(4), of dma n dq cfg_at] assms(5) by auto
  then have "dev_ref_count d' \<noteq> 0 \<longleftrightarrow> users cs (unat (dev_ref_count d)) \<noteq> 0" by (metis unat_eq_zero)
  then show ?thesis using d' by (auto simp: count_ok_def)
qed

theorem vcom_users_counted_witness:
  "\<exists>d'. dev_run (serial_ops (usb_vcom_ops (\<lambda>_ _ _ d. d)) \<lparr>rx_mem = True, tx_mem = Some 1, dq_mem = None\<rparr> (\<lambda>_. config (demo_port [] demo_kernel)))
      [Open 0x503, Open 3, Close] ((demo_port [] demo_kernel)\<lparr>dev_flag := 0x503\<rparr>) = Some d' \<and> opened d' \<and> unat (dev_ref_count d') = 1"
proof -
  let ?d = "(demo_port [] demo_kernel)\<lparr>dev_flag := 0x503\<rparr>" and ?cs = "[Open 0x503, Open 3, Close]"
  have a: "port_flags ?d" "count_ok ?d" "\<not> has (dev_flag ?d) RT_DEVICE_FLAG_STANDALONE" 
    by (simp_all add: port_flags_def count_ok_def opened_def demo_port_def)
  have u: "users (take i ?cs) (unat (dev_ref_count ?d)) \<le> 255" for i
  proof -
    have "i = 0 \<or> i = 1 \<or> i = 2 \<or> 3 \<le> i" by arith
    then show ?thesis by (auto simp: demo_port_def numeral_2_eq_2)
  qed
  have b: "\<not> has m RT_DEVICE_FLAG_DMA_RX \<and> \<not> has m RT_DEVICE_FLAG_DMA_TX" if "Open m \<in> set ?cs" for m using that by auto
  have c: "users ?cs (unat (dev_ref_count ?d)) = 1" by (simp add: demo_port_def)
  obtain d' where d': "dev_run (serial_ops (usb_vcom_ops (\<lambda>_ _ _ d. d)) \<lparr>rx_mem = True, tx_mem = Some 1, dq_mem = None\<rparr>
      (\<lambda>_. config (demo_port [] demo_kernel))) ?cs ?d = Some d'" "unat (dev_ref_count d') = users ?cs (unat (dev_ref_count ?d))"
    "opened d' \<longleftrightarrow> users ?cs (unat (dev_ref_count ?d)) \<noteq> 0" using vcom_users_counted [OF a u b] by blast
  have "opened d'" using d'(3) c by simp
  then show ?thesis using d'(1) d'(2) [unfolded c] by blast
qed

section \<open>Packets from the host\<close>

text \<open>The callback that tells a reader of new data may do with the kernel what it likes.\<close>

definition callbacks_ok :: "vcom callbacks \<Rightarrow> bool" where
  "callbacks_ok cb \<longleftrightarrow> (\<forall>h n d. \<exists>k. cb_rx_indicate cb h n d = d\<lparr>kern := k\<rparr>)"

lemma rx_frame_kern: "rx_frame (d\<lparr>kern := k\<rparr>) = (rx_frame d)\<lparr>kern := k\<rparr>"
  by (cases d) (simp add: rx_frame_def)

lemma serial_rx_ind_spec:
  assumes "serial_rx d = RxFifo g" "fifo_ok (bufsz (config d)) g" "rx_ring_ok d" "callbacks_ok cb"
  shows "\<exists>d' g' k. serial_rx_ind (usb_vcom_ops dma) cb d = Some d' \<and> serial_rx d' = RxFifo g' \<and> fifo_ok (bufsz (config d)) g' \<and> rx_ring_ok d' \<and>
    contents (rx_ringbuffer d') = [] \<and> rx_frame d' = (rx_frame d)\<lparr>kern := k\<rparr> \<and>
    fifo_bytes (bufsz (config d)) g' = newest (unat (bufsz (config d)) - 1) (fifo_bytes (bufsz (config d)) g @ contents (rx_ringbuffer d))"
proof -
  obtain d1 g1 where d1: "serial_rx_loop (usb_vcom_ops dma) d = Some d1" "serial_rx d1 = RxFifo g1" "fifo_ok (bufsz (config d)) g1" "rx_ring_ok d1"
    "contents (rx_ringbuffer d1) = []" "config d1 = config d" "rx_frame d1 = rx_frame d"
    "fifo_bytes (bufsz (config d)) g1 = newest (unat (bufsz (config d)) - 1) (fifo_bytes (bufsz (config d)) g @ contents (rx_ringbuffer d))"
    using vc_rx.rx_loop [OF assms(1-3), of dma] by blast
  have f: "rx_frame (d1\<lparr>kern := k\<rparr>) = (rx_frame d)\<lparr>kern := k\<rparr>" for k using d1(7) rx_frame_kern [of k d1] by simp
  have "\<exists>k. serial_rx_ind (usb_vcom_ops dma) cb d = Some (d1\<lparr>kern := k\<rparr>)"
  proof (cases "dev_rx_indicate d1")
    case None
    then show ?thesis using d1(1) by (intro exI [of _ "kern d1"]) (simp add: serial_rx_ind_def)
  next
    case (Some h)
    define n where "n = (let p = ucast (put_index g1) :: u32; q = ucast (get_index g1) in if p \<ge> q then p - q else ucast (bufsz (config d1)) - (q - p))"
    obtain k where "cb_rx_indicate cb h n d1 = d1\<lparr>kern := k\<rparr>" using assms(4) unfolding callbacks_ok_def by blast
    then have "serial_rx_ind (usb_vcom_ops dma) cb d = Some (if n \<noteq> 0 then d1\<lparr>kern := k\<rparr> else d1)"
      using Some d1(1,2) by (simp add: serial_rx_ind_def n_def Let_def)
    then show ?thesis by (cases "n = 0") (auto intro: exI [of _ "kern d1"])
  qed
  then obtain k where "serial_rx_ind (usb_vcom_ops dma) cb d = Some (d1\<lparr>kern := k\<rparr>)" ..
  then show ?thesis using d1 f [of k] by (intro exI [of _ "d1\<lparr>kern := k\<rparr>"] exI [of _ g1] exI [of _ k]) (simp add: rx_ring_ok_def)
qed

text \<open>The port while it is open for reading: the next read is posted, the ring is empty, and what has come is in the FIFO.\<close>

abbreviation out_ep :: "vcom usb \<Rightarrow> uendpoint" where
  "out_ep u \<equiv> eps u (vc_ep_out (cls u))"

definition rx_inv :: "nat \<Rightarrow> vcom usb \<Rightarrow> bool" where
  "rx_inv f u \<longleftrightarrow> out_endpoint (vc_ep_out (cls u)) f 64 u \<and> ep_handler (out_ep u) = 0 \<and> \<not> ep_stalled (out_ep u) \<and>
     (\<exists>b. ep_buffer (out_ep u) = Some b \<and> length b = CDC_RX_BUFSIZE) \<and>
     ep_request (out_ep u) = \<lparr>req_type = UIO_REQUEST_READ_BEST, req_buffer = PEp (vc_ep_out (cls u)) 0, req_size = 64, req_remain_size = 64\<rparr> \<and>
     rx_ring_ok (cls u) \<and> contents (rx_ringbuffer (cls u)) = [] \<and> bufsz (config (cls u)) = 128 \<and>
     has (dev_flag (cls u)) RT_DEVICE_FLAG_ACTIVATED \<and> has (dev_open_flag (cls u)) RT_DEVICE_OFLAG_OPEN \<and>
     has (dev_open_flag (cls u)) RT_DEVICE_FLAG_INT_RX \<and> dev_ref_count (cls u) \<noteq> 0 \<and> (\<exists>g. serial_rx (cls u) = RxFifo g \<and> fifo_ok 128 g)"

definition received :: "vcom usb \<Rightarrow> u8 list" where
  "received u = (case serial_rx (cls u) of RxFifo g \<Rightarrow> fifo_bytes 128 g | _ \<Rightarrow> [])"

text \<open>A packet: the controller stores it where the read was posted, then notifies the core.\<close>

definition receive_packet :: "vcom class_ops \<Rightarrow> u8 list \<Rightarrow> vcom usb \<Rightarrow> vcom usb option" where
  "receive_packet ops p u =
     Option.bind (ptr_store (req_buffer (ep_request (out_ep u))) p u)
       (rt_usbd_thread_step ops (USB_MSG_DATA_NOTIFY (EP_ADDRESS (vc_ep_out (cls u)) u) (of_nat (length p))))"

lemma out_endpoint_cong: "same_tree u u' \<Longrightarrow> dev_state u' = dev_state u \<Longrightarrow> out_endpoint e f m u' = out_endpoint e f m u"
  by (simp add: out_endpoint_def same_tree_simps)

lemma rx_frameD:
  assumes "rx_frame d' = (rx_frame d)\<lparr>kern := k\<rparr>"
  shows "config d' = config d" "dev_flag d' = dev_flag d" "dev_open_flag d' = dev_open_flag d" "vc_ep_out d' = vc_ep_out d"
    "dev_ref_count d' = dev_ref_count d"
  using arg_cong [OF assms, of dev_ref_count] arg_cong [OF assms, of config] arg_cong [OF assms, of dev_flag] arg_cong [OF assms, of dev_open_flag] arg_cong [OF assms, of vc_ep_out]
  by (simp_all add: rx_frame_def)

lemma ep_out_request_eq:
  assumes "\<not> ep_stalled (out_ep u)" "ep_buffer (out_ep u) = Some b" "EP_MAXPACKET (vc_ep_out (cls u)) u = 64"
  shows "ep_out_request u = Some (dcd (EpReadPrepare (EP_ADDRESS (vc_ep_out (cls u)) u) (PEp (vc_ep_out (cls u)) 0) 64)
    (upd_request (vc_ep_out (cls u)) (\<lambda>_. \<lparr>req_type = UIO_REQUEST_READ_BEST, req_buffer = PEp (vc_ep_out (cls u)) 0, req_size = 64, req_remain_size = 64\<rparr>) u))"
proof -
  let ?e = "vc_ep_out (cls u)"
  let ?r = "\<lparr>req_type = UIO_REQUEST_READ_BEST, req_buffer = PEp ?e 0, req_size = 64, req_remain_size = 64\<rparr>"
  let ?u = "upd_request ?e (\<lambda>r. r\<lparr>req_remain_size := req_size r\<rparr>)
    (upd_request ?e (\<lambda>r. r\<lparr>req_buffer := PEp ?e 0, req_size := 64, req_type := UIO_REQUEST_READ_BEST\<rparr>) u)"
  have u: "?u = upd_request ?e (\<lambda>_. ?r) u" by (cases "ep_request (out_ep u)") (simp add: usb_upd_defs)
  have "EP_MAXPACKET ?e (upd_request ?e (\<lambda>_. ?r) u) = 64" "EP_ADDRESS ?e (upd_request ?e (\<lambda>_. ?r) u) = EP_ADDRESS ?e u"
    by (simp_all add: assms(3) same_tree_simps(1,2) [OF same_tree_upd(3)])
  then show ?thesis using assms(1,2) unfolding ep_out_request_def rt_usbd_io_request_def Let_def
    by (simp add: assms(3) u rt_usbd_ep_read_prepare_def)
qed

text \<open>A notification of a bulk-out endpoint reaches the class with the size of the packet.\<close>

lemma out_notify:
  assumes "out_endpoint e f m u" "req_remain_size (ep_request (eps u e)) \<noteq> 0" "req_type (ep_request (eps u e)) = UIO_REQUEST_READ_BEST"
  shows "rt_usbd_thread_step ops (USB_MSG_DATA_NOTIFY (EP_ADDRESS e u) sz) u =
    call_handler ops e f sz (upd_request e (\<lambda>r. r\<lparr>req_remain_size := req_remain_size r - sz, req_buffer := ptr_add (req_buffer r) (unat sz)\<rparr>) u)"
proof -
  have "(if sz = 0 then dcd_ep_read else sz) = sz" by (simp add: dcd_ep_read_def)
  then show ?thesis using assms
    by (simp add: out_endpoint_def data_notify_def data_notify_out_def option.map_comp comp_def option.map_ident Let_def)
qed

text \<open>The handler: the bytes go through the ring into the FIFO, and the next read is posted.\<close>

lemma ep_out_handler_spec:
  assumes "rx_ring_ok (cls u)" "contents (rx_ringbuffer (cls u)) = []" "bufsz (config (cls u)) = 128" "serial_rx (cls u) = RxFifo g" "fifo_ok 128 g"
    and "has (dev_flag (cls u)) RT_DEVICE_FLAG_ACTIVATED" "has (dev_open_flag (cls u)) RT_DEVICE_OFLAG_OPEN" "callbacks_ok cb"
    and "ep_buffer (out_ep u) = Some b" "unat sz \<le> length b" "unat sz \<le> 64" "\<not> ep_stalled (out_ep u)" "EP_MAXPACKET (vc_ep_out (cls u)) u = 64"
  shows "\<exists>d g' k. ep_out_handler (usb_vcom_ops dma) cb f sz u =
      Some (dcd (EpReadPrepare (EP_ADDRESS (vc_ep_out (cls u)) u) (PEp (vc_ep_out (cls u)) 0) 64)
        (upd_request (vc_ep_out (cls u)) (\<lambda>_. \<lparr>req_type = UIO_REQUEST_READ_BEST, req_buffer = PEp (vc_ep_out (cls u)) 0, req_size = 64, req_remain_size = 64\<rparr>)
          (u\<lparr>cls := d\<rparr>))) \<and>
    rx_frame d = (rx_frame (cls u))\<lparr>kern := k\<rparr> \<and> rx_ring_ok d \<and> contents (rx_ringbuffer d) = [] \<and> serial_rx d = RxFifo g' \<and> fifo_ok 128 g' \<and>
    fifo_bytes 128 g' = newest 127 (fifo_bytes 128 g @ take (unat sz) b)"
proof -
  let ?bs = "take (unat sz) b"
  obtain n rb where p: "rt_ringbuffer_put (rx_ringbuffer (cls u)) ?bs (unat sz) = (n, rb)" by fastforce
  have r: "contents rb = ?bs" "cap rb = 128" "rb_wf rb"
    using put_spec [OF _ _ _ p] assms(1,2,10,11) by (simp_all add: rx_ring_ok_def)
  let ?d = "(cls u)\<lparr>rx_ringbuffer := rb\<rparr>"
  have fr: "rx_frame ?d = rx_frame (cls u)" by (simp add: rx_frame_def)
  obtain d g' k where d: "serial_rx_ind (usb_vcom_ops dma) cb ?d = Some d" "serial_rx d = RxFifo g'" "fifo_ok 128 g'" "rx_ring_ok d"
    "contents (rx_ringbuffer d) = []" "rx_frame d = (rx_frame (cls u))\<lparr>kern := k\<rparr>" "fifo_bytes 128 g' = newest 127 (fifo_bytes 128 g @ ?bs)"
    using serial_rx_ind_spec [of ?d g cb dma] assms(3,4,5,8) r fr by (auto simp: rx_ring_ok_def)
  have v: "vc_ep_out d = vc_ep_out (cls u)" using rx_frameD(4) [OF d(6)] .
  have t: "EP_MAXPACKET e (u\<lparr>cls := d\<rparr>) = EP_MAXPACKET e u" "EP_ADDRESS e (u\<lparr>cls := d\<rparr>) = EP_ADDRESS e u" for e
    by (simp_all add: same_tree_simps(1,2) [OF same_tree_upd(5)])
  have "ep_out_handler (usb_vcom_ops dma) cb f sz u = ep_out_request (u\<lparr>cls := d\<rparr>)"
    using assms(6,7,9,10) p d(1) by (simp add: ep_out_handler_def rt_hw_serial_isr_def upd_cls_def)
  also have "\<dots> = Some (dcd (EpReadPrepare (EP_ADDRESS (vc_ep_out (cls u)) u) (PEp (vc_ep_out (cls u)) 0) 64)
        (upd_request (vc_ep_out (cls u)) (\<lambda>_. \<lparr>req_type = UIO_REQUEST_READ_BEST, req_buffer = PEp (vc_ep_out (cls u)) 0, req_size = 64, req_remain_size = 64\<rparr>)
          (u\<lparr>cls := d\<rparr>)))"
    using ep_out_request_eq [of "u\<lparr>cls := d\<rparr>" b] assms(9,12,13) v t by simp
  finally show ?thesis using d by blast
qed

lemma packet_step:
  assumes "rx_inv f u" "length p \<le> 64" "callbacks_ok cb"
  shows "\<exists>u'. receive_packet (vcom_class (usb_vcom_ops dma) cb mem) p u = Some u' \<and> rx_inv f u' \<and> received u' = newest 127 (received u @ p) \<and>
    dcd_calls u' = dcd_calls u @ [EpReadPrepare (EP_ADDRESS (vc_ep_out (cls u)) u) (PEp (vc_ep_out (cls u)) 0) 64] \<and> same_tree u u'"
proof -
  let ?e = "vc_ep_out (cls u)" and ?ops = "vcom_class (usb_vcom_ops dma) cb mem"
  let ?sz = "of_nat (length p) :: u32" and ?a = "EP_ADDRESS (vc_ep_out (cls u)) u"
  obtain b where b: "ep_buffer (out_ep u) = Some b" "length b = 128" using assms(1) by (auto simp: rx_inv_def)
  obtain g where g: "serial_rx (cls u) = RxFifo g" "fifo_ok 128 g" using assms(1) by (auto simp: rx_inv_def)
  have i: "out_endpoint ?e f 64 u" "ep_handler (out_ep u) = 0" "\<not> ep_stalled (out_ep u)" "rx_ring_ok (cls u)" "contents (rx_ringbuffer (cls u)) = []"
    "bufsz (config (cls u)) = 128"
    and q: "ep_request (out_ep u) = \<lparr>req_type = UIO_REQUEST_READ_BEST, req_buffer = PEp ?e 0, req_size = 64, req_remain_size = 64\<rparr>"
    using assms(1) by (simp_all add: rx_inv_def)
  have sz: "unat ?sz = length p" using assms(2) by (simp add: unat_of_nat take_bit_nat_eq_self)
  define u1 where "u1 = upd_ep ?e (\<lambda>x. x\<lparr>ep_buffer := Some (blit b 0 p)\<rparr>) u"
  define u2 where "u2 = upd_request ?e (\<lambda>r. r\<lparr>req_remain_size := req_remain_size r - ?sz, req_buffer := ptr_add (req_buffer r) (unat ?sz)\<rparr>) u1"
  have st: "ptr_store (req_buffer (ep_request (out_ep u))) p u = Some u1" using b q assms(2) by (simp add: u1_def)
  have c2: "cls u1 = cls u" "cls u2 = cls u" "dcd_calls u2 = dcd_calls u" "dev_state u2 = dev_state u" "dev_state u1 = dev_state u"
    "ep_handler (eps u2 ?e) = 0" "\<not> ep_stalled (eps u2 ?e)" "ep_buffer (eps u2 ?e) = Some (blit b 0 p)" "req_type (ep_request (eps u2 ?e)) = UIO_REQUEST_READ_BEST"
    using i(2,3) q by (simp_all add: u2_def u1_def usb_upd_defs)
  have t1: "same_tree u u1" "same_tree u u2" by (simp_all add: u2_def u1_def same_tree_def usb_upd_defs)
  have n: "rt_usbd_thread_step ?ops (USB_MSG_DATA_NOTIFY ?a ?sz) u1 = ep_out_handler (usb_vcom_ops dma) cb f ?sz u2"
    using out_notify [of ?e f 64 u1 ?ops ?sz] i(1,2) q out_endpoint_cong [OF t1(1) c2(5)] same_tree_simps(1) [OF t1(1)] c2(6)
    by (simp add: u2_def call_handler_def vcom_class_def) (simp add: u1_def usb_upd_defs)
  have mp: "EP_MAXPACKET ?e u2 = 64" "EP_ADDRESS ?e u2 = ?a" using i(1) same_tree_simps(1,2) [OF t1(2)] by (simp_all add: out_endpoint_def word_unat_eq_iff)
  have tk: "take (unat ?sz) (blit b 0 p) = p" using sz by (simp add: blit_def)
  obtain d g' k where d: "ep_out_handler (usb_vcom_ops dma) cb f ?sz u2 =
      Some (dcd (EpReadPrepare ?a (PEp ?e 0) 64) (upd_request ?e (\<lambda>_. ep_request (out_ep u)) (u2\<lparr>cls := d\<rparr>)))"
    "rx_frame d = (rx_frame (cls u))\<lparr>kern := k\<rparr>" "rx_ring_ok d" "contents (rx_ringbuffer d) = []" "serial_rx d = RxFifo g'" "fifo_ok 128 g'"
    "fifo_bytes 128 g' = newest 127 (fifo_bytes 128 g @ p)"
    using ep_out_handler_spec [of u2 g cb "blit b 0 p" ?sz dma f] assms i g c2 b sz mp tk q by (auto simp: rx_inv_def)
  let ?u' = "dcd (EpReadPrepare ?a (PEp ?e 0) 64) (upd_request ?e (\<lambda>_. ep_request (out_ep u)) (u2\<lparr>cls := d\<rparr>))"
  have t: "same_tree u ?u'" using t1(2) by (simp add: same_tree_def usb_upd_defs)
  have e: "out_endpoint ?e f 64 ?u'" using out_endpoint_cong [OF t] i(1) c2(4) by (simp add: usb_upd_defs)
  note fr = rx_frameD [OF d(2)]
  have "rx_inv f ?u'" using e fr assms(1,2) d(3-6) c2 b q unfolding rx_inv_def by (simp add: usb_upd_defs)
  moreover have "receive_packet ?ops p u = Some ?u'" using st n d(1) by (simp add: receive_packet_def del: rt_usbd_thread_step.simps)
  moreover have "received ?u' = newest 127 (received u @ p)" using d(5,7) g(1) by (simp add: received_def usb_upd_defs)
  ultimately show ?thesis using t c2(3) by (intro exI [of _ ?u']) (simp add: usb_upd_defs)
qed

text \<open>Reading through the device layer takes the oldest bytes of the FIFO.\<close>

abbreviation (input) port_ops :: "(nat \<Rightarrow> u32 \<Rightarrow> int \<Rightarrow> vcom \<Rightarrow> vcom) \<Rightarrow> serial_mem \<Rightarrow> (nat \<Rightarrow> serial_configure) \<Rightarrow> vcom device_ops" where
  "port_ops dma mem cfg_at \<equiv> serial_ops (usb_vcom_ops dma) mem cfg_at"

lemma read_step:
  assumes "rx_inv f u"
  shows "\<exists>d. rt_device_read (port_ops dma sm cfg_at) buf n (cls u) = Some (length (take n (received u)), take n (received u), d) \<and>
    rx_inv f (u\<lparr>cls := d\<rparr>) \<and> received (u\<lparr>cls := d\<rparr>) = drop n (received u)"
proof -
  obtain g where g: "serial_rx (cls u) = RxFifo g" "fifo_ok 128 g" using assms by (auto simp: rx_inv_def)
  obtain g' where g': "serial_int_rx 128 n g = Some (take n (fifo_bytes 128 g), g')" "fifo_ok 128 g'" "fifo_bytes 128 g' = drop n (fifo_bytes 128 g)"
    using serial_int_rx_spec [OF g(2)] by blast
  let ?d = "if n = 0 then cls u else (cls u)\<lparr>serial_rx := RxFifo g'\<rparr>"
  have "rt_device_read (port_ops dma sm cfg_at) buf n (cls u) = Some (length (take n (received u)), take n (received u), ?d)"
    using assms g g'(1) by (auto simp: rt_device_read_def serial_ops_def rt_serial_read_def received_def rx_inv_def)
  moreover have "same_tree u (u\<lparr>cls := ?d\<rparr>)" by (rule same_tree_upd(5))
  then have "out_endpoint (vc_ep_out (cls u)) f 64 (u\<lparr>cls := ?d\<rparr>)" using out_endpoint_cong assms by (fastforce simp: rx_inv_def)
  then have "rx_inv f (u\<lparr>cls := ?d\<rparr>)" using assms g g' by (auto simp: rx_inv_def rx_ring_ok_def)
  moreover have "received (u\<lparr>cls := ?d\<rparr>) = drop n (received u)" using g g' by (auto simp: received_def)
  ultimately show ?thesis by blast
qed

datatype rx_event = Packet "u8 list" | Read nat

fun rx_run :: "vcom class_ops \<Rightarrow> vcom device_ops \<Rightarrow> rx_event list \<Rightarrow> vcom usb \<Rightarrow> (u8 list \<times> vcom usb) option" where
  "rx_run ops dops [] u = Some ([], u)"
| "rx_run ops dops (Packet p # es) u = Option.bind (receive_packet ops p u) (rx_run ops dops es)"
| "rx_run ops dops (Read n # es) u =
     Option.bind (rt_device_read dops 0 n (cls u)) (\<lambda>(_, bs, d). map_option (\<lambda>(out, u). (bs @ out, u)) (rx_run ops dops es (u\<lparr>cls := d\<rparr>)))"

text \<open>The specification: a queue of the newest 127 bytes.\<close>

fun rx_spec :: "rx_event list \<Rightarrow> u8 list \<Rightarrow> u8 list \<times> u8 list" where
  "rx_spec [] q = ([], q)"
| "rx_spec (Packet p # es) q = rx_spec es (newest 127 (q @ p))"
| "rx_spec (Read n # es) q = (let (out, q') = rx_spec es (drop n q) in (take n q @ out, q'))"

fun rx_room :: "rx_event list \<Rightarrow> u8 list \<Rightarrow> bool" where
  "rx_room [] q = True"
| "rx_room (Packet p # es) q \<longleftrightarrow> length q + length p \<le> 127 \<and> rx_room es (q @ p)"
| "rx_room (Read n # es) q = rx_room es (drop n q)"

definition rx_bytes :: "rx_event list \<Rightarrow> u8 list" where
  "rx_bytes es = concat (map (\<lambda>e. case e of Packet p \<Rightarrow> p | _ \<Rightarrow> []) es)"

lemma rx_spec_room: "rx_room es q \<Longrightarrow> rx_spec es q = (out, q') \<Longrightarrow> out @ q' = q @ rx_bytes es"
proof (induction es arbitrary: q out q')
  case (Cons e es)
  show ?case
  proof (cases e)
    case (Packet p)
    then have "newest 127 (q @ p) = q @ p" using Cons.prems(1) by (intro newest_short) simp
    then have "rx_spec es (q @ p) = (out, q')" "rx_room es (q @ p)" using Cons.prems Packet by simp_all
    from Cons.IH [OF this(2,1)] show ?thesis by (simp add: rx_bytes_def Packet)
  next
    case (Read n)
    obtain o1 where o1: "rx_spec es (drop n q) = (o1, q')" "out = take n q @ o1" using Cons.prems(2) Read by (auto split: prod.splits)
    have "rx_room es (drop n q)" using Cons.prems(1) Read by simp
    from Cons.IH [OF this o1(1)] show ?thesis using o1(2) by (simp add: rx_bytes_def Read)
  qed
qed (simp add: rx_bytes_def)

text \<open>
  C2. What the host sends reaches the reader. For any sequence of packets of at most 64 bytes and of reads through the
  device layer, every step returns and the next read of the endpoint is posted again after every
  packet; the bytes read and those still in the FIFO are as in a queue that keeps the newest 127. If
  the reader never lets more than 127 bytes pile up, the bytes read followed by those in the FIFO
  are the earlier contents followed by the packets, nothing lost and in order.
\<close>

theorem vcom_receive_refines:
  assumes "rx_inv f u" "callbacks_ok cb" "\<And>p. Packet p \<in> set es \<Longrightarrow> length p \<le> 64"
  shows "\<exists>out u'. rx_run (vcom_class (usb_vcom_ops dma) cb mem) (port_ops dma sm cfg_at) es u = Some (out, u') \<and>
    rx_inv f u' \<and> (out, received u') = rx_spec es (received u) \<and>
    (rx_room es (received u) \<longrightarrow> out @ received u' = received u @ rx_bytes es)"
proof -
  have "\<exists>out u'. rx_run (vcom_class (usb_vcom_ops dma) cb mem) (port_ops dma sm cfg_at) es u = Some (out, u') \<and>
    rx_inv f u' \<and> (out, received u') = rx_spec es (received u)"
    using assms(1,3)
  proof (induction es arbitrary: u)
    case (Cons e es)
    show ?case
    proof (cases e)
      case (Packet p)
      then obtain v where "receive_packet (vcom_class (usb_vcom_ops dma) cb mem) p u = Some v" "rx_inv f v" "received v = newest 127 (received u @ p)"
        using packet_step [OF Cons.prems(1) _ assms(2), of p dma mem] Cons.prems(2) by auto
      then show ?thesis using Cons.IH [of v] Cons.prems(2) Packet by auto
    next
      case (Read n)
      obtain d where "rt_device_read (port_ops dma sm cfg_at) 0 n (cls u) = Some (length (take n (received u)), take n (received u), d)"
        "rx_inv f (u\<lparr>cls := d\<rparr>)" "received (u\<lparr>cls := d\<rparr>) = drop n (received u)" using read_step [OF Cons.prems(1), of dma sm cfg_at 0 n] by blast
      then show ?thesis using Cons.IH [of "u\<lparr>cls := d\<rparr>"] Cons.prems(2) Read by (auto split: prod.splits)
    qed
  qed simp
  then show ?thesis using rx_spec_room by metis
qed

text \<open>The device of the last section, opened once for reading with interrupts.\<close>

definition demo_open :: "vcom usb" where
  "demo_open = upd_cls (\<lambda>d. d\<lparr>dev_flag := 0x513, dev_open_flag := 0x10B, dev_ref_count := 1, serial_rx := RxFifo (empty_fifo 128)\<rparr>) (demo_vcom [])"

lemma demo_open_ok: "rx_inv 0 demo_open" "received demo_open = []"
proof -
  let ?c = "vcom_configured (replicate 128 0) 5 (demo_port [] (demo_running 2 [3] (LSem 0) []))"
  have c: "cls demo_open = (cls (demo_vcom []))\<lparr>dev_flag := 0x513, dev_open_flag := 0x10B, dev_ref_count := 1, serial_rx := RxFifo (empty_fifo 128)\<rparr>"
    "vc_ep_out (cls (demo_vcom [])) = 0" "config (cls (demo_vcom [])) = config (demo_port [] demo_kernel)"
    "rx_ringbuffer (cls (demo_vcom [])) = rt_ringbuffer_init (replicate 128 0) 128"
    by (simp_all add: demo_open_def demo_vcom_def vcom_configured_simps vcom_reset_state_def demo_port_def)
  have e: "eps demo_open 0 = eps ?c 0" "same_tree ?c demo_open" "dev_state demo_open = dev_state ?c"
    unfolding demo_open_def demo_vcom_def by (simp, rule same_tree_trans [OF same_tree_cls(1) same_tree_cls(1)], simp)
  have "out_endpoint 0 0 64 demo_open" using out_endpoint_cong [OF e(2,3)] vcom_endpoints(5) [of "replicate 128 0" 5] by simp
  moreover have "rb_wf (rt_ringbuffer_init (replicate 128 0) 128)" "cap (rt_ringbuffer_init (replicate 128 0) 128) = 128"
    "contents (rt_ringbuffer_init (replicate 128 0) 128) = []" using init_wf [of 128 "replicate 128 0"] by simp_all
  moreover have "fifo_ok 128 (empty_fifo 128)" by (simp add: fifo_ok_def fifo_len_def)
  ultimately show "rx_inv 0 demo_open"
    unfolding rx_inv_def by (simp add: c e(1) vcom_configured_simps built_ep_def rx_ring_ok_def demo_port_def)
  show "received demo_open = []" by (simp add: received_def c fifo_bytes_def fifo_len_def)
qed

theorem vcom_receive_refines_witness:
  "\<exists>out u'. rx_run (vcom_class demo_uops demo_cb None) (serial_ops demo_uops \<lparr>rx_mem = True, tx_mem = None, dq_mem = None\<rparr> (\<lambda>_. config (demo_port [] demo_kernel)))
      [Packet [1, 2, 3], Read 2, Packet [4]] demo_open = Some (out, u') \<and> out = [1, 2] \<and> received u' = [3, 4]"
proof -
  have "\<exists>k. cb_rx_indicate demo_cb h n d = d\<lparr>kern := k\<rparr>" for h n and d :: vcom by (rule exI [of _ "kern d"]) simp
  then have cb: "callbacks_ok demo_cb" unfolding callbacks_ok_def by blast
  let ?es = "[Packet [1, 2, 3], Read 2, Packet [4]]"
  have l: "length p \<le> 64" if "Packet p \<in> set ?es" for p using that by auto
  obtain out u' where r: "rx_run (vcom_class demo_uops demo_cb None) (serial_ops demo_uops \<lparr>rx_mem = True, tx_mem = None, dq_mem = None\<rparr>
      (\<lambda>_. config (demo_port [] demo_kernel))) ?es demo_open = Some (out, u')" "(out, received u') = rx_spec ?es (received demo_open)"
    using vcom_receive_refines [OF demo_open_ok(1) cb l] by blast
  have "out = [1, 2]" "received u' = [3, 4]" using r(2) demo_open_ok(2) by (simp_all add: newest_def)
  then show ?thesis using r(1) by blast
qed

end
