(* ===== verification/Kservice_Mem.thy ===== *)
theory Kservice_Mem
  imports Prelude "HOL-Library.List_Lexorder" "HOL-Library.Sublist"
begin

text \<open>
  The memory and string routines of \<open>src/kservice.c\<close> on a byte-addressed memory of 32-bit
  addresses. The word-wise fills and copies are shown equal to the byte-wise ones, \<open>rt_memmove\<close>
  right for overlapping areas, the string routines right on NUL-terminated strings. Addresses wrap
  around as the pointers do; a \<open>count\<close> is an unsigned 32-bit value, a loop counter the number it
  stands for. \<open>char\<close> is unsigned, \<open>long\<close> has four bytes and words are little endian, as on the target.
\<close>

section \<open>Memory\<close>

type_synonym memory = "u32 \<Rightarrow> u8"

text \<open>Access to an aligned \<open>long\<close>.\<close>

definition load32 :: "memory \<Rightarrow> u32 \<Rightarrow> u32" where
  "load32 m a = ucast (m a) OR push_bit 8 (ucast (m (a + 1))) OR push_bit 16 (ucast (m (a + 2))) OR push_bit 24 (ucast (m (a + 3)))"

definition store32 :: "u32 \<Rightarrow> u32 \<Rightarrow> memory \<Rightarrow> memory" where
  "store32 a w m = m(a := ucast w, a + 1 := ucast (drop_bit 8 w), a + 2 := ucast (drop_bit 16 w), a + 3 := ucast (drop_bit 24 w))"

text \<open>What the routines are measured against: \<open>n\<close> bytes from \<open>a\<close> on, and a block of bytes stored at \<open>a\<close>.\<close>

definition bytes_at :: "memory \<Rightarrow> u32 \<Rightarrow> nat \<Rightarrow> u8 list" where
  "bytes_at m a n = map (\<lambda>i. m (a + of_nat i)) [0..<n]"

definition store_bytes :: "u32 \<Rightarrow> u8 list \<Rightarrow> memory \<Rightarrow> memory" where
  "store_bytes a bs m = (\<lambda>x. if unat (x - a) < length bs then bs ! unat (x - a) else m x)"

section \<open>rt_memset\<close>

abbreviation (input) LBLOCKSIZE :: nat where "LBLOCKSIZE \<equiv> 4"

fun memset_blocks :: "u32 \<Rightarrow> nat \<Rightarrow> u32 \<Rightarrow> memory \<Rightarrow> u32 \<times> nat \<times> memory" where
  "memset_blocks buffer count a m =
     (if LBLOCKSIZE * 4 \<le> count then
        memset_blocks buffer (count - LBLOCKSIZE * 4) (a + 16)
          (store32 (a + 12) buffer (store32 (a + 8) buffer (store32 (a + 4) buffer (store32 a buffer m))))
      else (a, count, m))"

fun memset_words :: "u32 \<Rightarrow> nat \<Rightarrow> u32 \<Rightarrow> memory \<Rightarrow> u32 \<times> nat \<times> memory" where
  "memset_words buffer count a m =
     (if LBLOCKSIZE \<le> count then memset_words buffer (count - LBLOCKSIZE) (a + 4) (store32 a buffer m)
      else (a, count, m))"

fun memset_bytes :: "u8 \<Rightarrow> nat \<Rightarrow> u32 \<Rightarrow> memory \<Rightarrow> memory" where
  "memset_bytes d 0 a m = m"
| "memset_bytes d (Suc count) a m = memset_bytes d count (a + 1) (m(a := d))"

definition rt_memset :: "u32 \<Rightarrow> u32 \<Rightarrow> u32 \<Rightarrow> memory \<Rightarrow> memory" where
  "rt_memset s c count m =
     (let d = c AND 0xff;
          (a, n, m) =
            (if \<not> unat count < LBLOCKSIZE \<and> s AND 3 = 0 then
               let buffer = push_bit 8 d OR d;
                   buffer = buffer OR push_bit 16 buffer;
                   (a, n, m) = memset_blocks buffer (unat count) s m
               in memset_words buffer n a m
             else (s, unat count, m))
      in memset_bytes (ucast d) n a m)"

section \<open>rt_memcpy and rt_memmove\<close>

abbreviation (input) BIGBLOCKSIZE :: nat where "BIGBLOCKSIZE \<equiv> 16"
abbreviation (input) LITTLEBLOCKSIZE :: nat where "LITTLEBLOCKSIZE \<equiv> 4"

definition copy32 :: "u32 \<Rightarrow> u32 \<Rightarrow> memory \<Rightarrow> memory" where
  "copy32 d s m = store32 d (load32 m s) m"

fun memcpy_blocks :: "nat \<Rightarrow> u32 \<Rightarrow> u32 \<Rightarrow> memory \<Rightarrow> u32 \<times> u32 \<times> nat \<times> memory" where
  "memcpy_blocks len d s m =
     (if BIGBLOCKSIZE \<le> len then
        memcpy_blocks (len - BIGBLOCKSIZE) (d + 16) (s + 16)
          (copy32 (d + 12) (s + 12) (copy32 (d + 8) (s + 8) (copy32 (d + 4) (s + 4) (copy32 d s m))))
      else (d, s, len, m))"

fun memcpy_words :: "nat \<Rightarrow> u32 \<Rightarrow> u32 \<Rightarrow> memory \<Rightarrow> u32 \<times> u32 \<times> nat \<times> memory" where
  "memcpy_words len d s m =
     (if LITTLEBLOCKSIZE \<le> len then memcpy_words (len - LITTLEBLOCKSIZE) (d + 4) (s + 4) (copy32 d s m)
      else (d, s, len, m))"

text \<open>\<open>while (n--) *tmp++ = *s++\<close> and \<open>while (n--) *(--tmp) = *(--s)\<close>.\<close>

fun copy_up :: "nat \<Rightarrow> u32 \<Rightarrow> u32 \<Rightarrow> memory \<Rightarrow> memory" where
  "copy_up 0 d s m = m"
| "copy_up (Suc n) d s m = copy_up n (d + 1) (s + 1) (m(d := m s))"

fun copy_down :: "nat \<Rightarrow> u32 \<Rightarrow> u32 \<Rightarrow> memory \<Rightarrow> memory" where
  "copy_down 0 d s m = m"
| "copy_down (Suc n) d s m = copy_down n (d - 1) (s - 1) (m(d - 1 := m (s - 1)))"

text \<open>\<open>len\<close> is an \<open>int\<close> that is only compared with unsigned sizes and counted down, so it behaves as \<open>count\<close>; for
  counts of \<open>2^31\<close> and more this takes the conversion and the count-down to wrap, as they do on the target.\<close>

definition rt_memcpy :: "u32 \<Rightarrow> u32 \<Rightarrow> u32 \<Rightarrow> memory \<Rightarrow> memory" where
  "rt_memcpy dst src count m =
     (let (d, s, len, m) =
        (if \<not> unat count < BIGBLOCKSIZE \<and> (src AND 3) OR (dst AND 3) = 0 then
           let (d, s, len, m) = memcpy_blocks (unat count) dst src m
           in memcpy_words len d s m
         else (dst, src, unat count, m))
      in copy_up len d s m)"

definition rt_memmove :: "u32 \<Rightarrow> u32 \<Rightarrow> u32 \<Rightarrow> memory \<Rightarrow> memory" where
  "rt_memmove dest src n m =
     (if src < dest \<and> dest < src + n then copy_down (unat n) (dest + n) (src + n) m
      else copy_up (unat n) dest src m)"

section \<open>Comparison\<close>

fun rt_memcmp :: "memory \<Rightarrow> u32 \<Rightarrow> u32 \<Rightarrow> nat \<Rightarrow> int" where
  "rt_memcmp m cs ct 0 = 0"
| "rt_memcmp m cs ct (Suc count) =
     (let res = uint (m cs) - uint (m ct) in if res \<noteq> 0 then res else rt_memcmp m (cs + 1) (ct + 1) count)"

text \<open>The loops that run to a terminator need not end: \<open>None\<close> is not returning.\<close>

partial_function (option) strlen_loop :: "memory \<Rightarrow> u32 \<Rightarrow> u32 option" where
  "strlen_loop m sc = (if m sc \<noteq> 0 then strlen_loop m (sc + 1) else Some sc)"

definition rt_strlen :: "memory \<Rightarrow> u32 \<Rightarrow> u32 option" where
  "rt_strlen m s = map_option (\<lambda>sc. sc - s) (strlen_loop m s)"

function strnlen_loop :: "memory \<Rightarrow> u32 \<Rightarrow> u32 \<Rightarrow> u32 \<Rightarrow> u32" where
  "strnlen_loop m s maxlen sc = (if m sc \<noteq> 0 \<and> sc - s < maxlen then strnlen_loop m s maxlen (sc + 1) else sc)"
  by pat_completeness auto
termination
proof (relation "measure (\<lambda>(m, s, maxlen, sc). unat (maxlen - (sc - s)))")
  fix m :: memory and s maxlen sc :: u32
  assume "m sc \<noteq> 0 \<and> sc - s < maxlen"
  then have "maxlen - (sc - s) \<noteq> 0" by auto
  then have "unat (maxlen - (sc - s) - 1) < unat (maxlen - (sc - s))"
    by (simp add: unat_minus_one unat_gt_0)
  moreover have "maxlen - (sc + 1 - s) = maxlen - (sc - s) - 1" by simp
  ultimately show "((m, s, maxlen, sc + 1), m, s, maxlen, sc) \<in> measure (\<lambda>(m, s, maxlen, sc). unat (maxlen - (sc - s)))"
    by (simp only: in_measure split_conv)
qed simp

declare strnlen_loop.simps [simp del]

definition rt_strnlen :: "memory \<Rightarrow> u32 \<Rightarrow> u32 \<Rightarrow> u32" where
  "rt_strnlen m s maxlen = strnlen_loop m s maxlen s - s"

partial_function (option) rt_strcmp :: "memory \<Rightarrow> u32 \<Rightarrow> u32 \<Rightarrow> int option" where
  "rt_strcmp m cs ct = (if m cs \<noteq> 0 \<and> m cs = m ct then rt_strcmp m (cs + 1) (ct + 1) else Some (uint (m cs) - uint (m ct)))"

definition fold_case :: "u8 \<Rightarrow> int" where
  "fold_case c = (let ca = uint c in if 65 \<le> ca \<and> ca \<le> 90 then ca + (97 - 65) else ca)"

partial_function (option) rt_strcasecmp :: "memory \<Rightarrow> u32 \<Rightarrow> u32 \<Rightarrow> u32 option" where
  "rt_strcasecmp m a b =
     (let ca = fold_case (m a); cb = fold_case (m b)
      in if ca = cb \<and> ca \<noteq> 0 then rt_strcasecmp m (a + 1) (b + 1) else Some (word_of_int (ca - cb)))"

text \<open>The lengths are converted to \<open>int\<close>; no string of the target reaches \<open>2 ^ 31\<close> bytes.\<close>

fun strstr_loop :: "memory \<Rightarrow> u32 \<Rightarrow> u32 \<Rightarrow> nat \<Rightarrow> nat \<Rightarrow> u32 option" where
  "strstr_loop m s1 s2 l2 0 = (if l2 \<le> 0 then Some s1 else None)"
| "strstr_loop m s1 s2 l2 (Suc l1) =
     (if l2 \<le> Suc l1 then if rt_memcmp m s1 s2 l2 = 0 then Some s1 else strstr_loop m (s1 + 1) s2 l2 l1
      else None)"

definition rt_strstr :: "memory \<Rightarrow> u32 \<Rightarrow> u32 \<Rightarrow> u32 option option" where
  "rt_strstr m s1 s2 =
     (case rt_strlen m s2 of
        None \<Rightarrow> None
      | Some l2 \<Rightarrow>
          if l2 = 0 then Some (Some s1)
          else map_option (\<lambda>l1. strstr_loop m s1 s2 (unat l2) (unat l1)) (rt_strlen m s1))"

section \<open>Storing bytes\<close>

lemma store_bytes_Nil [simp]: "store_bytes a [] m = m"
  by (simp add: store_bytes_def)

lemma unat_minus_Suc:
  fixes x a :: u32
  assumes "x \<noteq> a"
  shows "unat (x - a) = Suc (unat (x - (a + 1)))"
proof -
  have nz: "x - a \<noteq> 0" using assms by simp
  have "x - (a + 1) = x - a - 1" by (simp add: algebra_simps)
  then have "unat (x - (a + 1)) = unat (x - a) - 1" using unat_dec [OF nz] by (simp only:)
  moreover have "0 < unat (x - a)" using nz by (simp add: unat_gt_0)
  ultimately show ?thesis by simp
qed

text \<open>Storing the first byte first; the rest must not come round to it.\<close>

lemma store_bytes_Cons:
  assumes "length bs < 2 ^ 32"
  shows "store_bytes a (b # bs) m = store_bytes (a + 1) bs (m(a := b))"
proof
  fix x :: u32
  show "store_bytes a (b # bs) m x = store_bytes (a + 1) bs (m(a := b)) x"
  proof (cases "x = a")
    case True
    have "unat (- 1 :: u32) = 2 ^ 32 - 1" by (simp add: unsigned_minus_1_eq_mask mask_eq_exp_minus_1)
    then show ?thesis using True assms by (simp add: store_bytes_def)
  next
    case False
    then show ?thesis by (simp add: store_bytes_def unat_minus_Suc)
  qed
qed

lemma memset_bytes_store: "n \<le> 2 ^ 32 \<Longrightarrow> memset_bytes d n a m = store_bytes a (replicate n d) m"
  by (induction n arbitrary: a m) (simp_all add: store_bytes_Cons)

lemma memset_bytes_4: "memset_bytes d (4 + n) a m = memset_bytes d n (a + 4) (m(a := d, a + 1 := d, a + 2 := d, a + 3 := d))"
  by (simp add: numeral_eq_Suc add.assoc)

text \<open>The word the fill stores: four times the byte.\<close>

definition fill_word :: "u32 \<Rightarrow> u32" where
  "fill_word c = (let d = c AND 0xff; b = push_bit 8 d OR d in b OR push_bit 16 b)"

lemma bit_low_byte: "bit (c AND 0xff :: u32) n \<longleftrightarrow> n < 8 \<and> bit c n"
proof -
  have "(0xff :: u32) = mask 8" by (simp add: mask_eq_exp_minus_1)
  then have "bit (0xff :: u32) n \<longleftrightarrow> n < 8" by (simp only: bit_mask_iff) auto
  then show ?thesis by (auto simp: bit_and_iff)
qed

lemma ucast_byte: "ucast (c AND 0xff :: u32) = (ucast c :: u8)"
  by (rule bit_word_eqI) (auto simp: bit_unsigned_iff bit_low_byte)

lemma repeat_byte:
  fixes d :: u32
  assumes "\<And>n. bit d n \<Longrightarrow> n < 8"
  defines "b \<equiv> push_bit 8 d OR d"
  shows "ucast (b OR push_bit 16 b) = (ucast d :: u8)" "ucast (drop_bit 8 (b OR push_bit 16 b)) = (ucast d :: u8)"
    "ucast (drop_bit 16 (b OR push_bit 16 b)) = (ucast d :: u8)" "ucast (drop_bit 24 (b OR push_bit 16 b)) = (ucast d :: u8)"
  unfolding b_def by (rule bit_word_eqI; auto simp: bit_unsigned_iff bit_drop_bit_eq bit_push_bit_iff bit_or_iff dest: assms(1))+

lemma fill_word_bytes:
  "ucast (fill_word c) = (ucast c :: u8)" "ucast (drop_bit 8 (fill_word c)) = (ucast c :: u8)"
  "ucast (drop_bit 16 (fill_word c)) = (ucast c :: u8)" "ucast (drop_bit 24 (fill_word c)) = (ucast c :: u8)"
  using repeat_byte [of "c AND 0xff"] unfolding fill_word_def Let_def ucast_byte bit_low_byte by blast+

lemma store32_fill: "store32 a (fill_word c) m = m(a := ucast c, a + 1 := ucast c, a + 2 := ucast c, a + 3 := ucast c)"
  by (simp add: store32_def fill_word_bytes)

lemma memset_words_bytes:
  "memset_words (fill_word c) n a m = (a', n', m') \<Longrightarrow> memset_bytes (ucast c) n' a' m' = memset_bytes (ucast c) n a m"
proof (induction "fill_word c" n a m rule: memset_words.induct)
  case (1 n a m)
  show ?case
  proof (cases "4 \<le> n")
    case True
    then have "memset_bytes (ucast c) n a m = memset_bytes (ucast c) (n - 4) (a + 4) (store32 a (fill_word c) m)"
      using memset_bytes_4 [of "ucast c" "n - 4" a m] by (simp add: store32_fill)
    then show ?thesis using 1 True by simp
  next
    case False
    then show ?thesis using 1(2) by simp
  qed
qed


lemma memset_blocks_bytes:
  "memset_blocks (fill_word c) n a m = (a', n', m') \<Longrightarrow> memset_bytes (ucast c) n' a' m' = memset_bytes (ucast c) n a m"
proof (induction "fill_word c" n a m rule: memset_blocks.induct)
  case (1 n a m)
  show ?case
  proof (cases "16 \<le> n")
    case True
    then obtain k where n: "n = 4 + (4 + (4 + (4 + k)))" by (metis add.assoc le_Suc_ex numeral_Bit0)
    have "memset_bytes (ucast c) n a m = memset_bytes (ucast c) k (a + 16) (store32 (a + 12) (fill_word c)
        (store32 (a + 8) (fill_word c) (store32 (a + 4) (fill_word c) (store32 a (fill_word c) m))))"
      unfolding n memset_bytes_4 store32_fill by (simp add: add.assoc)
    then show ?thesis using 1 True n by simp
  next
    case False
    then show ?thesis using 1(2) by simp
  qed
qed

lemma rt_memset_bytes: "rt_memset s c count m = memset_bytes (ucast c) (unat count) s m"
proof -
  obtain a n m' where b: "memset_blocks (fill_word c) (unat count) s m = (a, n, m')" by (rule prod_cases3)
  obtain a' n' m'' where w: "memset_words (fill_word c) n a m' = (a', n', m'')" by (rule prod_cases3)
  have f: "(let buffer = push_bit 8 (c AND 0xff) OR (c AND 0xff); buffer = buffer OR push_bit 16 buffer in F buffer) = F (fill_word c)" for F :: "u32 \<Rightarrow> u32 \<times> nat \<times> memory"
    by (simp only: fill_word_def Let_def)
  show ?thesis
  proof (cases "\<not> unat count < 4 \<and> s AND 3 = 0")
    case True
    then have "rt_memset s c count m = memset_bytes (ucast c) n' a' m''"
      unfolding rt_memset_def f Let_def [of "c AND 0xff"] ucast_byte by (simp only: if_True simp_thms b w Let_def split_conv)
    then show ?thesis using memset_words_bytes [OF w] memset_blocks_bytes [OF b] by (simp only:)
  next
    case False
    then show ?thesis
      unfolding rt_memset_def f Let_def [of "c AND 0xff"] ucast_byte by (simp only: if_False Let_def split_conv)
  qed
qed


text \<open>A word copied is four bytes copied, as both addresses are aligned: the byte loop cannot read a byte it wrote in the same word.\<close>

lemma load32_bytes:
  "ucast (load32 m a) = m a" "ucast (drop_bit 8 (load32 m a)) = m (a + 1)"
  "ucast (drop_bit 16 (load32 m a)) = m (a + 2)" "ucast (drop_bit 24 (load32 m a)) = m (a + 3)"
  unfolding load32_def
  by (rule bit_word_eqI;
      auto simp: bit_unsigned_iff bit_drop_bit_eq bit_push_bit_iff bit_or_iff dest: bit_imp_le_length)+

lemma copy32_bytes: "copy32 d s m = m(d := m s, d + 1 := m (s + 1), d + 2 := m (s + 2), d + 3 := m (s + 3))"
  by (simp add: copy32_def store32_def load32_bytes)

lemma aligned_iff: "w AND 3 = 0 \<longleftrightarrow> unat w mod 4 = 0" for w :: u32
proof -
  have "w AND 3 = take_bit 2 w" by (simp add: take_bit_eq_mask mask_eq_exp_minus_1)
  then have "unat (w AND 3) = take_bit 2 (unat w)" by (simp only: unsigned_take_bit_eq)
  then have "unat (w AND 3) = unat w mod 4" by (simp add: take_bit_eq_mod)
  then show ?thesis by (metis unat_eq_zero)
qed

lemma unat_add_mod4: "unat (w + of_nat k) mod 4 = (unat w + k) mod 4" for w :: u32
proof -
  have "(4 :: nat) dvd 2 ^ 32" by simp
  then have "(unat w + unat (of_nat k :: u32)) mod 2 ^ 32 mod 4 = (unat w + k mod 2 ^ 32) mod 4"
    by (simp add: mod_mod_cancel unat_of_nat)
  also have "\<dots> = (unat w + k) mod 4" using \<open>4 dvd 2 ^ 32\<close> by (metis mod_add_right_eq mod_mod_cancel)
  finally show ?thesis by (simp add: unat_word_ariths)
qed

lemma aligned_apart:
  fixes s d :: u32
  assumes "s AND 3 = 0" "d AND 3 = 0" "i < 4" "j < 4" "i \<noteq> j"
  shows "s + of_nat i \<noteq> d + of_nat j"
proof
  assume "s + of_nat i = d + of_nat j"
  then have "(unat s + i) mod 4 = (unat d + j) mod 4" by (metis unat_add_mod4)
  moreover have "(unat s + i) mod 4 = i" "(unat d + j) mod 4 = j"
    using assms(1-4) unfolding aligned_iff by presburger+
  ultimately show False using assms(5) by simp
qed

lemma aligned_add4: "w AND 3 = 0 \<Longrightarrow> (w + 4) AND 3 = (0 :: u32)"
  using unat_add_mod4 [of w 4] unfolding aligned_iff by simp

lemma copy32_up:
  assumes "s AND 3 = 0" "d AND 3 = 0"
  shows "copy_up (4 + n) d s m = copy_up n (d + 4) (s + 4) (copy32 d s m)"
proof -
  have "s + 1 \<noteq> d" "s + 2 \<noteq> d" "s + 3 \<noteq> d" "s + 2 \<noteq> d + 1" "s + 3 \<noteq> d + 1" "s + 3 \<noteq> d + 2"
    using aligned_apart [OF assms, of 1 0] aligned_apart [OF assms, of 2 0] aligned_apart [OF assms, of 3 0]
      aligned_apart [OF assms, of 2 1] aligned_apart [OF assms, of 3 1] aligned_apart [OF assms, of 3 2] by simp_all
  then show ?thesis unfolding copy32_bytes by (simp add: numeral_eq_Suc add.assoc)
qed


lemma memcpy_words_up:
  assumes "memcpy_words n d s m = (d', s', n', m')" "s AND 3 = 0" "d AND 3 = 0"
  shows "copy_up n' d' s' m' = copy_up n d s m"
  using assms
proof (induction n d s m rule: memcpy_words.induct)
  case (1 n d s m)
  show ?case
  proof (cases "4 \<le> n")
    case True
    then have "copy_up n d s m = copy_up (n - 4) (d + 4) (s + 4) (copy32 d s m)"
      using copy32_up [OF 1(3,4), of "n - 4" m] by simp
    then show ?thesis using 1 True by (simp add: aligned_add4)
  next
    case False
    then show ?thesis using 1(2) by simp
  qed
qed

lemma memcpy_blocks_up:
  assumes "memcpy_blocks n d s m = (d', s', n', m')" "s AND 3 = 0" "d AND 3 = 0"
  shows "copy_up n' d' s' m' = copy_up n d s m \<and> s' AND 3 = 0 \<and> d' AND 3 = 0"
  using assms
proof (induction n d s m rule: memcpy_blocks.induct)
  case (1 n d s m)
  have a: "(s + 4) AND 3 = 0" "(d + 4) AND 3 = 0" "(s + 8) AND 3 = 0" "(d + 8) AND 3 = 0" "(s + 12) AND 3 = 0" "(d + 12) AND 3 = 0" "(s + 16) AND 3 = 0" "(d + 16) AND 3 = 0"
    using 1(3,4) aligned_add4 [of s] aligned_add4 [of "s + 4"] aligned_add4 [of "s + 8"] aligned_add4 [of "s + 12"]
      aligned_add4 [of d] aligned_add4 [of "d + 4"] aligned_add4 [of "d + 8"] aligned_add4 [of "d + 12"]
    by (simp_all add: add.assoc)
  show ?case
  proof (cases "16 \<le> n")
    case True
    then obtain k where n: "n = 4 + (4 + (4 + (4 + k)))" by (metis add.assoc le_Suc_ex numeral_Bit0)
    have "copy_up n d s m = copy_up k (d + 16) (s + 16)
        (copy32 (d + 12) (s + 12) (copy32 (d + 8) (s + 8) (copy32 (d + 4) (s + 4) (copy32 d s m))))"
      unfolding n using copy32_up [OF 1(3,4), of "4 + (4 + (4 + k))" m] copy32_up [OF a(1,2), of "4 + (4 + k)" "copy32 d s m"]
        copy32_up [OF a(3,4), of "4 + k" "copy32 (d + 4) (s + 4) (copy32 d s m)"]
        copy32_up [OF a(5,6), of k "copy32 (d + 8) (s + 8) (copy32 (d + 4) (s + 4) (copy32 d s m))"] by (simp add: add.assoc)
    then show ?thesis using 1 True n a by simp
  next
    case False
    then show ?thesis using 1 by simp
  qed
qed


lemma rt_memcpy_up: "rt_memcpy dst src count m = copy_up (unat count) dst src m"
proof (cases "\<not> unat count < 16 \<and> (src AND 3) OR (dst AND 3) = 0")
  case True
  then have al: "src AND 3 = 0" "dst AND 3 = 0" by (simp_all add: or_eq_0_iff)
  obtain d s n m' where b: "memcpy_blocks (unat count) dst src m = (d, s, n, m')" by (rule prod_cases4)
  obtain d' s' n' m'' where w: "memcpy_words n d s m' = (d', s', n', m'')" by (rule prod_cases4)
  have "rt_memcpy dst src count m = copy_up n' d' s' m''"
    using True unfolding rt_memcpy_def by (simp only: if_True simp_thms b w Let_def split_conv)
  then show ?thesis using memcpy_blocks_up [OF b al] memcpy_words_up [OF w] by simp
next
  case False
  then show ?thesis unfolding rt_memcpy_def by (simp only: if_False Let_def split_conv)
qed

section \<open>Copying areas\<close>

lemma bytes_at_Suc: "bytes_at m a (Suc n) = m a # bytes_at m (a + 1) n"
  by (simp add: bytes_at_def upt_conv_Cons map_Suc_upt [symmetric] o_def add.assoc del: upt_Suc)

lemma length_bytes_at [simp]: "length (bytes_at m a n) = n"
  by (simp add: bytes_at_def)

lemma nth_bytes_at [simp]: "i < n \<Longrightarrow> bytes_at m a n ! i = m (a + of_nat i)"
  by (simp add: bytes_at_def)

lemma bytes_at_cong: "(\<And>i. i < n \<Longrightarrow> m (a + of_nat i) = m' (a + of_nat i)) \<Longrightarrow> bytes_at m a n = bytes_at m' a n"
  by (simp add: bytes_at_def)


lemma bytes_at_stored:
  assumes "length bs < 2 ^ 32" "n \<le> length bs"
  shows "bytes_at (store_bytes a bs m) a n = take n bs"
  using assms by (intro nth_equalityI) (simp_all add: store_bytes_def unat_of_nat)

text \<open>Upwards, a byte is read before the loop writes to its address when the destination is not ahead of the source within the area.\<close>

lemma copy_up_store:
  assumes "n \<le> 2 ^ 32" "\<And>i j. i < j \<Longrightarrow> j < n \<Longrightarrow> d + of_nat i \<noteq> s + of_nat j"
  shows "copy_up n d s m = store_bytes d (bytes_at m s n) m"
  using assms
proof (induction n arbitrary: d s m)
  case 0
  then show ?case by (simp add: bytes_at_def)
next
  case (Suc n)
  have "d \<noteq> s + 1 + of_nat i" if "i < n" for i using Suc.prems(2) [of 0 "Suc i"] that by (simp add: add.assoc)
  then have b: "bytes_at (m(d := m s)) (s + 1) n = bytes_at m (s + 1) n" by (intro bytes_at_cong) auto
  have "d + 1 + of_nat i \<noteq> s + 1 + of_nat j" if "i < j" "j < n" for i j
    using Suc.prems(2) [of "Suc i" "Suc j"] that by (simp add: add.assoc)
  then have "copy_up n (d + 1) (s + 1) (m(d := m s)) = store_bytes (d + 1) (bytes_at (m(d := m s)) (s + 1) n) (m(d := m s))"
    using Suc.IH [of "d + 1" "s + 1" "m(d := m s)"] Suc.prems(1) by fastforce
  then show ?case using Suc.prems(1) by (simp add: b bytes_at_Suc store_bytes_Cons)
qed

lemma bytes_at_snoc: "bytes_at m a (Suc n) = bytes_at m a n @ [m (a + of_nat n)]"
  by (simp add: bytes_at_def)

lemma store_bytes_snoc:
  assumes "length bs < 2 ^ 32"
  shows "store_bytes a (bs @ [b]) m = store_bytes a bs (m(a + of_nat (length bs) := b))"
proof
  fix x :: u32
  have "unat (x - a) = length bs \<longleftrightarrow> x = a + of_nat (length bs)"
  proof
    assume "unat (x - a) = length bs"
    then have "of_nat (unat (x - a)) = (of_nat (length bs) :: u32)" by simp
    then have "x - a = of_nat (length bs)" by simp
    then show "x = a + of_nat (length bs)" by (simp add: algebra_simps)
  next
    assume "x = a + of_nat (length bs)"
    then show "unat (x - a) = length bs" using assms by (simp add: unat_of_nat)
  qed
  then show "store_bytes a (bs @ [b]) m x = store_bytes a bs (m(a + of_nat (length bs) := b)) x"
    by (auto simp: store_bytes_def nth_append)
qed

text \<open>Downwards, it must not be behind.\<close>

lemma copy_down_store:
  assumes "n \<le> 2 ^ 32" "\<And>i j. i < j \<Longrightarrow> j < n \<Longrightarrow> d + of_nat j \<noteq> s + of_nat i"
  shows "copy_down n (d + of_nat n) (s + of_nat n) m = store_bytes d (bytes_at m s n) m"
  using assms
proof (induction n arbitrary: m)
  case 0
  then show ?case by (simp add: bytes_at_def)
next
  case (Suc n)
  let ?m = "m(d + of_nat n := m (s + of_nat n))"
  have "d + of_nat n \<noteq> s + of_nat i" if "i < n" for i using Suc.prems(2) [of i n] that by simp
  then have "bytes_at ?m s n = bytes_at m s n" by (intro bytes_at_cong) (metis fun_upd_other)
  moreover have "copy_down n (d + of_nat n) (s + of_nat n) ?m = store_bytes d (bytes_at ?m s n) ?m"
    by (rule Suc.IH) (use Suc.prems in auto)
  ultimately show ?case using Suc.prems(1) by (simp add: bytes_at_snoc store_bytes_snoc)
qed


lemma unat_off: "unat a + i < 2 ^ 32 \<Longrightarrow> unat (a + of_nat i) = unat a + i" for a :: u32
  by (simp add: unat_word_ariths unat_of_nat)

lemma rt_memcpy_apart:
  assumes "unat src + unat n < 2 ^ 32" "unat dst + unat n < 2 ^ 32" "unat dst + unat n \<le> unat src \<or> unat src + unat n \<le> unat dst"
  shows "rt_memcpy dst src n m = store_bytes dst (bytes_at m src (unat n)) m"
proof -
  have "dst + of_nat i \<noteq> src + of_nat j" if "i < j" "j < unat n" for i j
    using assms that by (auto simp: unat_off dest!: arg_cong [where f = unat])
  then show ?thesis unfolding rt_memcpy_up using assms by (intro copy_up_store) auto
qed

text \<open>C26. The fill and the copy by words do what the loops over bytes do, for every address, aligned or not,
  every length and overlapping areas as well: \<open>rt_memset\<close> leaves \<open>count\<close> copies of the low byte of \<open>c\<close> at
  \<open>s\<close> and nothing else changed, and \<open>rt_memcpy\<close> is the upward byte copy.\<close>

theorem rt_memset_memcpy_bytewise:
  "rt_memset s c count m = store_bytes s (replicate (unat count) (ucast c)) m \<and>
   rt_memcpy dst src count m = copy_up (unat count) dst src m"
proof -
  have "unat count \<le> 2 ^ 32" using unsigned_less [where 'a = nat, of count] by simp
  then show ?thesis by (simp add: rt_memset_bytes memset_bytes_store rt_memcpy_up)
qed

text \<open>\<open>rt_memmove\<close> leaves at the destination the bytes the source area had before the call, for areas that
  overlap in either direction, and changes nothing else; so does \<open>rt_memcpy\<close> unless the destination starts
  inside the source area behind its start.\<close>

theorem rt_memmove_moves:
  assumes "unat src + unat n < 2 ^ 32" "unat dest + unat n < 2 ^ 32"
  shows "rt_memmove dest src n m = store_bytes dest (bytes_at m src (unat n)) m \<and>
    (\<not> (src < dest \<and> dest < src + n) \<longrightarrow> rt_memcpy dest src n m = store_bytes dest (bytes_at m src (unat n)) m)"
proof (cases "src < dest \<and> dest < src + n")
  case True
  have "dest + of_nat j \<noteq> src + of_nat i" if "i < j" "j < unat n" for i j
  proof -
    have "unat (src + of_nat i) < unat (dest + of_nat j)" using True that assms by (simp add: unat_off word_less_nat_alt)
    then show ?thesis by auto
  qed
  then have "copy_down (unat n) (dest + of_nat (unat n)) (src + of_nat (unat n)) m = store_bytes dest (bytes_at m src (unat n)) m"
    using assms by (intro copy_down_store) auto
  then show ?thesis using True by (simp add: rt_memmove_def)
next
  case False
  have "unat (src + n) = unat src + unat n" using unat_off [of src "unat n"] assms by simp
  then have away: "unat dest \<le> unat src \<or> unat src + unat n \<le> unat dest" using False by (auto simp: word_less_nat_alt)
  have "dest + of_nat i \<noteq> src + of_nat j" if "i < j" "j < unat n" for i j
  proof -
    have "unat (dest + of_nat i) \<noteq> unat (src + of_nat j)" using away that assms by (auto simp: unat_off)
    then show ?thesis by auto
  qed
  then have "copy_up (unat n) dest src m = store_bytes dest (bytes_at m src (unat n)) m"
    using assms by (intro copy_up_store) auto
  then show ?thesis using False by (auto simp: rt_memmove_def rt_memcpy_up)
qed

theorem rt_memmove_moves_witness:
  "rt_memmove 103 100 5 (\<lambda>a. ucast a) = store_bytes 103 [100, 101, 102, 103, 104] (\<lambda>a. ucast a)"
  using rt_memmove_moves [of 100 5 103 "\<lambda>a. ucast a"] by (simp add: bytes_at_def upt_rec)


section \<open>Strings\<close>

text \<open>\<open>cstr m s bs\<close>: at \<open>s\<close> starts the string of the bytes \<open>bs\<close>, closed by a NUL.\<close>

fun cstr :: "memory \<Rightarrow> u32 \<Rightarrow> u8 list \<Rightarrow> bool" where
  "cstr m s [] \<longleftrightarrow> m s = 0"
| "cstr m s (b # bs) \<longleftrightarrow> m s = b \<and> b \<noteq> 0 \<and> cstr m (s + 1) bs"

lemma cstr_drop: "cstr m s bs \<Longrightarrow> i \<le> length bs \<Longrightarrow> cstr m (s + of_nat i) (drop i bs)"
proof (induction bs arbitrary: s i)
  case (Cons b bs)
  then show ?case using Cons.IH [of "s + 1" "i - 1"] by (cases i) (simp_all add: add.assoc)
qed simp

lemma cstr_bytes_at: "cstr m s bs \<Longrightarrow> n \<le> length bs \<Longrightarrow> bytes_at m s n = take n bs"
proof (induction bs arbitrary: s n)
  case Nil
  then show ?case by (simp add: bytes_at_def)
next
  case (Cons b bs)
  then show ?case by (cases n) (simp_all add: bytes_at_Suc, simp add: bytes_at_def)
qed

lemma cstr_bytes_at_all: "cstr m s bs \<Longrightarrow> bytes_at m s (Suc (length bs)) = bs @ [0] \<and> 0 \<notin> set bs"
proof (induction bs arbitrary: s)
  case Nil
  then show ?case by (simp add: bytes_at_def)
next
  case (Cons b bs)
  then show ?case using Cons.IH [of "s + 1"] by (simp add: bytes_at_Suc [of m s])
qed

lemma cstr_iff_bytes: "0 \<notin> set bs \<Longrightarrow> bytes_at m s (Suc (length bs)) = bs @ [0] \<Longrightarrow> cstr m s bs"
proof (induction bs arbitrary: s)
  case Nil
  then show ?case by (simp add: bytes_at_def)
next
  case (Cons b bs)
  then show ?case using Cons.IH [of "s + 1"] by (simp add: bytes_at_Suc [of m s])
qed

lemma strlen_loop_cstr: "cstr m s bs \<Longrightarrow> strlen_loop m s = Some (s + of_nat (length bs))"
  by (induction bs arbitrary: s) (simp_all add: strlen_loop.simps add.assoc)

lemma rt_strlen_cstr: "cstr m s bs \<Longrightarrow> rt_strlen m s = Some (of_nat (length bs))"
  by (simp add: rt_strlen_def strlen_loop_cstr)

text \<open>\<open>rt_strnlen\<close> on a string and, in the limit, on bytes with no terminator among the first \<open>maxlen\<close>.\<close>

lemma strnlen_loop_run:
  assumes "\<And>i. i < k \<Longrightarrow> m (s + of_nat i) \<noteq> 0" "k \<le> unat maxlen" "m (s + of_nat k) = 0 \<or> k = unat maxlen" "j \<le> k"
  shows "strnlen_loop m s maxlen (s + of_nat j) = s + of_nat k"
  using assms(4)
proof (induction "k - j" arbitrary: j)
  case 0
  then have "j = k" by simp
  then show ?case using assms(3) by (subst strnlen_loop.simps) auto
next
  case (Suc n)
  then have j: "j < k" by simp
  have b: "k < 2 ^ 32" using assms(2) unsigned_less [where 'a = nat, of maxlen] by simp
  have "unat (of_nat j :: u32) = j" using j b by (simp add: unat_of_nat)
  then have "(of_nat j :: u32) < maxlen" using j assms(2) by (simp add: word_less_nat_alt)
  then have "strnlen_loop m s maxlen (s + of_nat j) = strnlen_loop m s maxlen (s + of_nat (Suc j))"
    using assms(1) [OF j] by (subst strnlen_loop.simps) (simp add: algebra_simps)
  then show ?case using Suc.hyps(1) [of "Suc j"] Suc.hyps(2) j by simp
qed

lemma rt_strnlen_run:
  assumes "\<And>i. i < k \<Longrightarrow> m (s + of_nat i) \<noteq> 0" "k \<le> unat maxlen" "m (s + of_nat k) = 0 \<or> k = unat maxlen"
  shows "rt_strnlen m s maxlen = of_nat k"
  using strnlen_loop_run [where m = m and s = s and maxlen = maxlen and k = k and j = 0] assms by (simp add: rt_strnlen_def)

lemma rt_memcmp_zero: "rt_memcmp m cs ct n = 0 \<longleftrightarrow> bytes_at m cs n = bytes_at m ct n"
proof (induction n arbitrary: cs ct)
  case 0
  show ?case by (simp add: bytes_at_def)
next
  case (Suc n)
  show ?case using Suc.IH [of "cs + 1" "ct + 1"] by (auto simp: bytes_at_Suc Let_def word_uint_eq_iff)
qed

lemma uint_pos: "0 < uint b \<longleftrightarrow> b \<noteq> 0" "uint b = 0 \<longleftrightarrow> b = 0" for b :: u8
  by (metis uint_0_eq word_gt_0 word_less_def) (simp add: word_uint_eq_iff)

text \<open>\<open>rt_strcmp\<close> returns on every pair of strings, and the sign of the result is the order of the strings
  by their bytes.\<close>

lemma rt_strcmp_order:
  assumes "cstr m cs xs" "cstr m ct ys"
  shows "\<exists>r. rt_strcmp m cs ct = Some r \<and> (r = 0 \<longleftrightarrow> xs = ys) \<and> (r < 0 \<longleftrightarrow> xs < ys)"
  using assms
proof (induction xs arbitrary: cs ct ys)
  case Nil
  then show ?case by (cases ys) (auto simp: rt_strcmp.simps [of m cs] uint_pos)
next
  case (Cons x xs)
  then show ?case
  proof (cases ys)
    case (Cons y ys')
    show ?thesis
    proof (cases "x = y")
      case True
      then show ?thesis using Cons Cons.prems Cons.IH [of "cs + 1" "ct + 1" ys'] by (simp add: rt_strcmp.simps [of m cs])
    next
      case False
      then show ?thesis using Cons Cons.prems by (auto simp: rt_strcmp.simps [of m cs] word_less_def word_uint_eq_iff)
    qed
  qed (auto simp: rt_strcmp.simps [of m cs] uint_pos not_less)
qed


lemma fold_case_zero: "fold_case b = 0 \<longleftrightarrow> b = 0"
  by (auto simp: fold_case_def Let_def uint_pos)

lemma fold_case_0 [simp]: "fold_case 0 = 0"
  by (simp add: fold_case_zero)

lemma fold_case_range: "0 \<le> fold_case b" "fold_case b < 256"
  using unsigned_less [where 'a = int, of b] by (simp_all add: fold_case_def Let_def)

lemma word_of_int_small: "\<bar>i\<bar> < 256 \<Longrightarrow> (word_of_int i :: u32) = 0 \<longleftrightarrow> i = 0"
  by (auto simp: word_of_int_eq_0_iff zdvd_not_zless dest: zdvd_imp_le [of _ "\<bar>i\<bar>"])

text \<open>\<open>rt_strcasecmp\<close> returns, and returns zero for strings that agree up to the case of their letters only.\<close>

lemma rt_strcasecmp_equal:
  assumes "cstr m a xs" "cstr m b ys"
  shows "\<exists>r. rt_strcasecmp m a b = Some r \<and> (r = 0 \<longleftrightarrow> map fold_case xs = map fold_case ys)"
  using assms
proof (induction xs arbitrary: a b ys)
  case Nil
  then show ?case using fold_case_range [of "m b"] word_of_int_small [of "- fold_case (m b)"] by (cases ys)
    (auto simp: rt_strcasecmp.simps [of m a] Let_def fold_case_zero)
next
  case (Cons x xs)
  show ?case
  proof (cases ys)
    case Nil
    then show ?thesis using Cons.prems fold_case_range [of x]
      by (simp add: rt_strcasecmp.simps [of m a] Let_def word_of_int_small fold_case_zero)
  next
    case (Cons y ys')
    show ?thesis
    proof (cases "fold_case x = fold_case y")
      case True
      then show ?thesis using Cons Cons.prems Cons.IH [of "a + 1" "b + 1" ys']
        by (simp add: rt_strcasecmp.simps [of m a] Let_def fold_case_zero)
    next
      case False
      then show ?thesis using Cons Cons.prems fold_case_range [of x] fold_case_range [of y]
          word_of_int_small [of "fold_case x - fold_case y"] by (auto simp: rt_strcasecmp.simps [of m a] Let_def)
    qed
  qed
qed

lemma strstr_loop_spec:
  assumes "cstr m s1 xs" "cstr m s2 ys" "ys \<noteq> []"
  shows "case strstr_loop m s1 s2 (length ys) (length xs) of
      None \<Rightarrow> \<not> sublist ys xs
    | Some p \<Rightarrow> \<exists>i. p = s1 + of_nat i \<and> prefix ys (drop i xs) \<and> (\<forall>j<i. \<not> prefix ys (drop j xs))"
  using assms(1)
proof (induction xs arbitrary: s1)
  case Nil
  then show ?case using assms(3) by simp
next
  case (Cons x xs)
  have cmp: "rt_memcmp m s1 s2 (length ys) = 0 \<longleftrightarrow> prefix ys (x # xs)" if "length ys \<le> Suc (length xs)"
    using cstr_bytes_at [OF Cons.prems, of "length ys"] cstr_bytes_at [OF assms(2), of "length ys"] that
    by (auto simp: rt_memcmp_zero prefix_def append_eq_conv_conj) (metis append_take_drop_id)
  consider (short) "\<not> length ys \<le> Suc (length xs)" | (here) "length ys \<le> Suc (length xs)" "prefix ys (x # xs)"
    | (later) "length ys \<le> Suc (length xs)" "\<not> prefix ys (x # xs)" by blast
  then show ?case
  proof cases
    case short
    then show ?thesis using sublist_length_le [of ys "x # xs"] by auto
  next
    case here
    then show ?thesis by (simp add: cmp) (rule exI [of _ 0], simp)
  next
    case later
    have nx: "(\<exists>i. p = s1 + 1 + of_nat i \<and> prefix ys (drop i xs) \<and> (\<forall>j<i. \<not> prefix ys (drop j xs))) \<Longrightarrow>
      \<exists>i. p = s1 + of_nat i \<and> prefix ys (drop i (x # xs)) \<and> (\<forall>j<i. \<not> prefix ys (drop j (x # xs)))" (is "_ \<Longrightarrow> ?goal p") for p
    proof (elim exE conjE)
      fix i
      assume i: "p = s1 + 1 + of_nat i" "prefix ys (drop i xs)" "\<forall>j<i. \<not> prefix ys (drop j xs)"
      then show "?goal p" using later(2) by (intro exI [of _ "Suc i"]) (auto simp: less_Suc_eq_0_disj)
    qed
    have "cstr m (s1 + 1) xs" using Cons.prems by simp
    from Cons.IH [OF this] show ?thesis using later nx assms(3)
      by (auto simp: cmp sublist_Cons_right split: option.splits simp del: drop_Suc_Cons)
  qed
qed

text \<open>\<open>rt_strstr\<close> returns on every pair of strings: the address of the first place where the second string
  occurs in the first, or no address if it occurs nowhere.\<close>

theorem rt_strstr_first_occurrence:
  assumes "cstr m s1 xs" "cstr m s2 ys" "length xs < 2 ^ 31" "length ys < 2 ^ 31"
  shows "\<exists>r. rt_strstr m s1 s2 = Some r \<and> (case r of
      None \<Rightarrow> \<not> sublist ys xs
    | Some p \<Rightarrow> \<exists>i. p = s1 + of_nat i \<and> prefix ys (drop i xs) \<and> (\<forall>j<i. \<not> prefix ys (drop j xs)))"
proof (cases "ys = []")
  case True
  then show ?thesis using assms by (simp add: rt_strstr_def rt_strlen_cstr [where bs = "[]"]) (rule exI [of _ 0], simp)
next
  case False
  have u: "unat (of_nat (length xs) :: u32) = length xs" "unat (of_nat (length ys) :: u32) = length ys"
    using assms(3,4) by (simp_all add: unat_of_nat)
  then have "(of_nat (length ys) :: u32) \<noteq> 0" using False by (metis length_0_conv unat_eq_zero)
  then show ?thesis using assms(1,2) u strstr_loop_spec [OF assms(1,2) False]
    by (simp add: rt_strstr_def rt_strlen_cstr)
qed

theorem rt_strstr_first_occurrence_witness:
  defines "m \<equiv> store_bytes 100 [97, 98, 97, 98, 99, 0, 98, 99, 0] (\<lambda>_. 0)"
  shows "cstr m 100 [97, 98, 97, 98, 99] \<and> cstr m 106 [98, 99] \<and> rt_strstr m 100 106 = Some (Some 103)"
proof -
  have c: "cstr m 100 [97, 98, 97, 98, 99]" "cstr m 106 [98, 99]" by (simp_all add: m_def store_bytes_def)
  from rt_strstr_first_occurrence [OF this] obtain r where r: "rt_strstr m 100 106 = Some r" "case r of
      None \<Rightarrow> \<not> sublist [98, 99] [97, 98, 97, 98, 99 :: u8]
    | Some p \<Rightarrow> \<exists>i. p = 100 + of_nat i \<and> prefix [98, 99] (drop i [97, 98, 97, 98, 99 :: u8]) \<and>
        (\<forall>j<i. \<not> prefix [98, 99] (drop j [97, 98, 97, 98, 99 :: u8]))" by auto
  have sub: "sublist [98, 99] [97, 98, 97, 98, 99 :: u8]" by (simp add: sublist_Cons_right)
  then obtain p where p: "r = Some p" using r(2) by (cases r) auto
  then obtain i where i: "p = 100 + of_nat i" "prefix [98, 99] (drop i [97, 98, 97, 98, 99 :: u8])"
    "\<forall>j<i. \<not> prefix [98, 99] (drop j [97, 98, 97, 98, 99 :: u8])" using r(2) by auto
  have "\<not> 3 < i" using i(3) by auto
  then have "i \<in> {0, 1, 2, 3}" by auto
  then have "i = 3" using i(2) by auto
  then show ?thesis using c r(1) p i(1) by simp
qed

end
