(* ===== verification/Kservice_Print.thy ===== *)
theory Kservice_Print
  imports Kservice_Mem Device
begin

text \<open>
  The formatted output of \<open>src/kservice.c\<close> as it is configured, with precision, without \<open>0x\<close> prefixes and
  \<open>long long\<close>: \<open>rt_vsnprintf\<close> and the routines over it, and the console routines \<open>rt_kputs\<close> and
  \<open>rt_kprintf\<close>. The output goes into the byte memory of \<open>Kservice_Mem\<close> through a 32-bit pointer. The
  format is the list of its bytes, reading behind the end yields the terminator. A variable argument
  is a 32-bit slot or the string a pointer argument points to (\<open>None\<close> for a null pointer), which does not
  overlap the buffer; taking an argument that is missing or of the other kind is undefined, \<open>None\<close>.
\<close>

section \<open>Numbers\<close>

abbreviation (input) ZEROPAD :: u8 where "ZEROPAD \<equiv> 0x01"
abbreviation (input) SIGN :: u8 where "SIGN \<equiv> 0x02"
abbreviation (input) PLUS :: u8 where "PLUS \<equiv> 0x04"
abbreviation (input) SPACE :: u8 where "SPACE \<equiv> 0x08"
abbreviation (input) LEFT :: u8 where "LEFT \<equiv> 0x10"
abbreviation (input) SPECIAL :: u8 where "SPECIAL \<equiv> 0x20"
abbreviation (input) LARGE :: u8 where "LARGE \<equiv> 0x40"

abbreviation (input) flagged :: "u8 \<Rightarrow> u8 \<Rightarrow> bool" where "flagged w f \<equiv> w AND f \<noteq> 0"

text \<open>A character constant of the source.\<close>

abbreviation (input) chr :: "char \<Rightarrow> u8" where "chr c \<equiv> of_char c"

datatype va_arg = Slot u32 | Str "u8 list option"

definition isdigit :: "u8 \<Rightarrow> bool" where
  "isdigit c \<longleftrightarrow> (ucast c - 48 :: u32) < 10"

definition divide_long :: "u32 \<Rightarrow> u8 \<Rightarrow> nat \<times> u32" where
  "divide_long n base = (if base = 10 then (unat (n mod 10), n div 10) else (unat (n mod 16), n div 16))"

fun skip_atoi :: "u8 list \<Rightarrow> u32 \<Rightarrow> u32 \<times> u8 list" where
  "skip_atoi [] i = (i, [])"
| "skip_atoi (c # s) i = (if isdigit c then skip_atoi s (i * 10 + ucast c - 48) else (i, c # s))"

definition small_digits :: "u8 list" where "small_digits = map of_char ''0123456789abcdef''"
definition large_digits :: "u8 list" where "large_digits = map of_char ''0123456789ABCDEF''"

lemma divide_long_less: "num \<noteq> 0 \<Longrightarrow> divide_long num base = (r, n) \<Longrightarrow> unat n < unat num"
  by (auto simp: divide_long_def unat_div unat_gt_0 intro!: div_less_dividend split: if_splits)

text \<open>The loop that fills \<open>tmp\<close>, least significant digit first.\<close>

function number_loop :: "u8 list \<Rightarrow> u8 \<Rightarrow> u32 \<Rightarrow> u8 list" where
  "number_loop digits base num =
     (if num \<noteq> 0 then (case divide_long num base of (r, n) \<Rightarrow> digits ! r # number_loop digits base n) else [])"
  by pat_completeness auto
termination
  by (relation "measure (\<lambda>(digits, base, num). unat num)") (auto dest: divide_long_less [OF _ sym])

declare number_loop.simps [simp del]

section \<open>Output\<close>

type_synonym out = "memory \<times> u32"

text \<open>\<open>if (buf <= end) *buf = c; ++ buf;\<close>\<close>

definition emit :: "u32 \<Rightarrow> u8 \<Rightarrow> out \<Rightarrow> out" where
  "emit e c st = ((if snd st \<le> e then (fst st)(snd st := c) else fst st), snd st + 1)"

lemma sint_dec: "- (2 ^ 31) < sint w \<Longrightarrow> sint (w - 1) = sint w - 1" for w :: u32
  using sint_range_size [of w] by (simp add: sint_word_ariths word_size signed_take_bit_int_eq_self)

text \<open>\<open>while (size-- > 0)\<close>, \<open>while (--field_width > 0)\<close> and \<open>while (len < field_width--)\<close>, each with the
  counter it leaves.\<close>

function pad_post :: "u32 \<Rightarrow> u8 \<Rightarrow> u32 \<Rightarrow> out \<Rightarrow> u32 \<times> out" where
  "pad_post e c sz st = (if 0 < sint sz then pad_post e c (sz - 1) (emit e c st) else (sz - 1, st))"
  by pat_completeness auto
termination
  by (relation "measure (\<lambda>(e, c, sz, st). nat (sint sz))") (auto simp: sint_dec)

function pad_pre :: "u32 \<Rightarrow> u8 \<Rightarrow> u32 \<Rightarrow> out \<Rightarrow> u32 \<times> out" where
  "pad_pre e c w st = (if 0 < sint (w - 1) then pad_pre e c (w - 1) (emit e c st) else (w - 1, st))"
  by pat_completeness auto
termination
  by (relation "measure (\<lambda>(e, c, w, st). nat (sint (w - 1)))") (use sint_dec [of "_ - 1"] in auto)

function pad_len :: "u32 \<Rightarrow> u8 \<Rightarrow> u32 \<Rightarrow> u32 \<Rightarrow> out \<Rightarrow> u32 \<times> out" where
  "pad_len e c len w st = (if sint len < sint w then pad_len e c len (w - 1) (emit e c st) else (w - 1, st))"
  by pat_completeness auto
termination
proof (relation "measure (\<lambda>(e, c, len, w, st). nat (sint w - sint len))")
  fix e c st and len w :: u32
  assume "sint len < sint w"
  moreover have "- (2 ^ 31) \<le> sint len" using sint_range_size [of len] by (simp add: word_size)
  ultimately show "((e, c, len, w - 1, emit e c st), e, c, len, w, st) \<in> measure (\<lambda>(e, c, len, w, st). nat (sint w - sint len))"
    by (simp add: sint_dec)
qed simp

declare pad_post.simps [simp del] pad_pre.simps [simp del] pad_len.simps [simp del]

text \<open>The sign of a number and what is printed behind it; \<open>-num\<close> wraps for the least number.\<close>

definition number_sign :: "u8 \<Rightarrow> u32 \<Rightarrow> u8 \<times> u32" where
  "number_sign type num =
     (if flagged type SIGN then
        if sint num < 0 then (chr CHR ''-'', - num)
        else if flagged type PLUS then (chr CHR ''+'', num)
        else if flagged type SPACE then (chr CHR '' '', num)
        else (0, num)
      else (0, num))"

text \<open>A number takes at least \<open>precision\<close> digits, the missing ones zeros; \<open>while (i < precision--)\<close> is \<open>pad_len\<close>.\<close>

definition print_number :: "u32 \<Rightarrow> u32 \<Rightarrow> u8 \<Rightarrow> u32 \<Rightarrow> u32 \<Rightarrow> u8 \<Rightarrow> out \<Rightarrow> out" where
  "print_number e num base s precision type st =
     (let digits = (if flagged type LARGE then large_digits else small_digits);
          type = (if flagged type LEFT then type AND NOT ZEROPAD else type);
          c = (if flagged type ZEROPAD then chr CHR ''0'' else chr CHR '' '');
          (sign, num) = number_sign type num;
          tmp = (if num = 0 then [chr CHR ''0''] else number_loop digits base num);
          i = of_nat (length tmp);
          precision = (if sint i > sint precision then i else precision);
          sz = s - precision;
          (sz, st) =
            (if \<not> flagged type (ZEROPAD OR LEFT) then
               let sz = (if sign \<noteq> 0 \<and> 0 < sint sz then sz - 1 else sz) in pad_post e (chr CHR '' '') sz st
             else (sz, st));
          (sz, st) = (if sign \<noteq> 0 then (if snd st \<le> e then sz - 1 else sz, emit e sign st) else (sz, st));
          (sz, st) = (if \<not> flagged type LEFT then pad_post e c sz st else (sz, st));
          (precision, st) = pad_len e (chr CHR ''0'') i precision st;
          st = fold (emit e) (rev tmp) st
      in snd (pad_post e (chr CHR '' '') sz st))"

section \<open>rt_vsnprintf\<close>

fun rd :: "u8 list \<Rightarrow> u8" where
  "rd [] = 0"
| "rd (c # _) = c"

text \<open>The parts of a conversion behind the percent sign: flags, field width, precision, qualifier.\<close>

fun fmt_flags :: "u8 list \<Rightarrow> u8 \<Rightarrow> u8 \<times> u8 list" where
  "fmt_flags [] flags = (flags, [])"
| "fmt_flags (c # fmt) flags =
     (if c = chr CHR ''-'' then fmt_flags fmt (flags OR LEFT)
      else if c = chr CHR ''+'' then fmt_flags fmt (flags OR PLUS)
      else if c = chr CHR '' '' then fmt_flags fmt (flags OR SPACE)
      else if c = chr CHR ''#'' then fmt_flags fmt (flags OR SPECIAL)
      else if c = chr CHR ''0'' then fmt_flags fmt (flags OR ZEROPAD)
      else (flags, c # fmt))"

definition fmt_width :: "u8 \<Rightarrow> u8 list \<Rightarrow> va_arg list \<Rightarrow> (u32 \<times> u8 \<times> u8 list \<times> va_arg list) option" where
  "fmt_width flags fmt args =
     (if isdigit (rd fmt) then let (w, fmt) = skip_atoi fmt 0 in Some (w, flags, fmt, args)
      else if rd fmt = chr CHR ''*'' then
        (case args of
           Slot w # args \<Rightarrow>
             if sint w < 0 then Some (- w, flags OR LEFT, tl fmt, args) else Some (w, flags, tl fmt, args)
         | _ \<Rightarrow> None)
      else Some (- 1, flags, fmt, args))"

definition fmt_precision :: "u8 list \<Rightarrow> va_arg list \<Rightarrow> (u32 \<times> u8 list \<times> va_arg list) option" where
  "fmt_precision fmt args =
     (if rd fmt = chr CHR ''.'' then
        let fmt = tl fmt
        in map_option (\<lambda>(precision, fmt, args). (if sint precision < 0 then 0 else precision, fmt, args))
             (if isdigit (rd fmt) then let (precision, fmt) = skip_atoi fmt 0 in Some (precision, fmt, args)
              else if rd fmt = chr CHR ''*'' then
                (case args of Slot precision # args \<Rightarrow> Some (precision, tl fmt, args) | _ \<Rightarrow> None)
              else Some (- 1, fmt, args))
      else Some (- 1, fmt, args))"

definition fmt_qualifier :: "u8 list \<Rightarrow> u8 \<times> u8 list" where
  "fmt_qualifier fmt = (if rd fmt = chr CHR ''h'' \<or> rd fmt = chr CHR ''l'' then (rd fmt, tl fmt) else (0, fmt))"

text \<open>The conversions that go on to print an integer: base and flags.\<close>

definition int_conversion :: "u8 \<Rightarrow> u8 \<Rightarrow> (u8 \<times> u8) option" where
  "int_conversion c flags =
     (if c = chr CHR ''o'' then Some (8, flags)
      else if c = chr CHR ''X'' then Some (16, flags OR LARGE)
      else if c = chr CHR ''x'' then Some (16, flags)
      else if c = chr CHR ''d'' \<or> c = chr CHR ''i'' then Some (10, flags OR SIGN)
      else if c = chr CHR ''u'' then Some (10, flags)
      else None)"

text \<open>Only the qualifier \<open>h\<close> narrows the argument.\<close>

definition int_arg :: "u8 \<Rightarrow> u8 \<Rightarrow> u32 \<Rightarrow> u32" where
  "int_arg qualifier flags a =
     (if qualifier = chr CHR ''h'' then
        let num = (ucast (ucast a :: u16) :: u32) in if flagged flags SIGN then scast (ucast num :: u16) else num
      else a)"

definition print_char :: "u32 \<Rightarrow> u8 \<Rightarrow> u32 \<Rightarrow> u32 \<Rightarrow> out \<Rightarrow> out" where
  "print_char e flags w a st =
     (let (w, st) = (if \<not> flagged flags LEFT then pad_pre e (chr CHR '' '') w st else (w, st));
          st = emit e (ucast a) st
      in snd (pad_pre e (chr CHR '' '') w st))"

definition print_string :: "u32 \<Rightarrow> u8 \<Rightarrow> u32 \<Rightarrow> u32 \<Rightarrow> u8 list option \<Rightarrow> out \<Rightarrow> out" where
  "print_string e flags w precision a st =
     (let s = (case a of None \<Rightarrow> map of_char ''(NULL)'' | Some s \<Rightarrow> s);
          len = of_nat (length s);
          len = (if 0 < sint precision \<and> sint len > sint precision then precision else len);
          (w, st) = (if \<not> flagged flags LEFT then pad_len e (chr CHR '' '') len w st else (w, st));
          st = fold (emit e) (take (nat (sint len)) s) st
      in snd (pad_len e (chr CHR '' '') len w st))"

text \<open>The switch over the conversion character; the result is the output, the format behind the
  conversion and the arguments left.\<close>

definition conversion ::
  "u32 \<Rightarrow> u8 \<Rightarrow> u32 \<Rightarrow> u32 \<Rightarrow> u8 \<Rightarrow> u8 list \<Rightarrow> va_arg list \<Rightarrow> out \<Rightarrow> (out \<times> u8 list \<times> va_arg list) option" where
  "conversion e flags w precision qualifier fmt args st =
     (if rd fmt = chr CHR ''c'' then
        (case args of Slot a # args \<Rightarrow> Some (print_char e flags w a st, tl fmt, args) | _ \<Rightarrow> None)
      else if rd fmt = chr CHR ''s'' then
        (case args of Str a # args \<Rightarrow> Some (print_string e flags w precision a st, tl fmt, args) | _ \<Rightarrow> None)
      else if rd fmt = chr CHR ''p'' then
        (case args of
           Slot a # args \<Rightarrow>
             let (w, flags) = (if w = - 1 then (8, flags OR ZEROPAD) else (w, flags))
             in Some (print_number e a 16 w precision flags st, tl fmt, args)
         | _ \<Rightarrow> None)
      else if rd fmt = chr CHR ''%'' then Some (emit e (chr CHR ''%'') st, tl fmt, args)
      else
        (case int_conversion (rd fmt) flags of
           Some (base, flags) \<Rightarrow>
             (case args of
                Slot a # args \<Rightarrow> Some (print_number e (int_arg qualifier flags a) base w precision flags st, tl fmt, args)
              | _ \<Rightarrow> None)
         | None \<Rightarrow>
             let st = emit e (chr CHR ''%'') st
             in if rd fmt \<noteq> 0 then Some (emit e (rd fmt) st, tl fmt, args) else Some (st, fmt, args)))"

definition directive :: "u32 \<Rightarrow> u8 list \<Rightarrow> va_arg list \<Rightarrow> out \<Rightarrow> (out \<times> u8 list \<times> va_arg list) option" where
  "directive e fmt args st =
     (let (flags, fmt) = fmt_flags fmt 0
      in case fmt_width flags fmt args of
           None \<Rightarrow> None
         | Some (w, flags, fmt, args) \<Rightarrow>
             (case fmt_precision fmt args of
                None \<Rightarrow> None
              | Some (precision, fmt, args) \<Rightarrow>
                  let (qualifier, fmt) = fmt_qualifier fmt in conversion e flags w precision qualifier fmt args st))"

lemma skip_atoi_length: "skip_atoi s i = (n, s') \<Longrightarrow> length s' \<le> length s"
  by (induction s i rule: skip_atoi.induct) (auto simp: le_Suc_eq split: if_splits)

lemma fmt_flags_length: "fmt_flags s i = (n, s') \<Longrightarrow> length s' \<le> length s"
  by (induction s i rule: fmt_flags.induct) (auto simp: le_Suc_eq split: if_splits)

lemma fmt_width_length: "fmt_width fl s args = Some (w, fl', s', args') \<Longrightarrow> length s' \<le> length s"
  by (auto simp: fmt_width_def skip_atoi_length split: if_splits prod.splits list.splits va_arg.splits)

lemma fmt_precision_length: "fmt_precision s args = Some (p, s', args') \<Longrightarrow> length s' \<le> length s"
  by (auto simp: fmt_precision_def Let_def dest!: skip_atoi_length split: if_splits prod.splits list.splits va_arg.splits)

lemma fmt_qualifier_length: "fmt_qualifier s = (q, s') \<Longrightarrow> length s' \<le> length s"
  by (auto simp: fmt_qualifier_def split: if_splits)

lemma conversion_length: "conversion e fl w p q s args st = Some (st', s', args') \<Longrightarrow> length s' \<le> length s"
  by (auto simp: conversion_def Let_def split: if_splits prod.splits list.splits va_arg.splits option.splits)

lemma directive_length: "directive e s args st = Some (st', s', args') \<Longrightarrow> length s' \<le> length s"
  by (auto simp: directive_def split: prod.splits option.splits
      dest!: fmt_flags_length fmt_width_length fmt_precision_length fmt_qualifier_length conversion_length)

function vsn_loop :: "u32 \<Rightarrow> u8 list \<Rightarrow> va_arg list \<Rightarrow> out \<Rightarrow> out option" where
  "vsn_loop e [] args st = Some st"
| "vsn_loop e (c # fmt) args st =
     (if c = 0 then Some st
      else if c \<noteq> chr CHR ''%'' then vsn_loop e fmt args (emit e c st)
      else case directive e fmt args st of
             None \<Rightarrow> None
           | Some (st, fmt, args) \<Rightarrow> vsn_loop e fmt args st)"
  by pat_completeness auto
termination
  by (relation "measure (\<lambda>(e, fmt, args, st). length fmt)") (auto simp: less_Suc_eq_le dest: directive_length)

definition rt_vsnprintf :: "u32 \<Rightarrow> u32 \<Rightarrow> u8 list \<Rightarrow> va_arg list \<Rightarrow> memory \<Rightarrow> (u32 \<times> memory) option" where
  "rt_vsnprintf buf sz fmt args m =
     (let e = buf + sz - 1;
          e = (if e < buf then - 1 else e)
      in map_option (\<lambda>(m, str). (str - buf, if str \<le> e then m(str := 0) else m(e := 0))) (vsn_loop e fmt args (m, buf)))"

definition rt_snprintf :: "u32 \<Rightarrow> u32 \<Rightarrow> u8 list \<Rightarrow> va_arg list \<Rightarrow> memory \<Rightarrow> (u32 \<times> memory) option" where
  "rt_snprintf buf sz fmt args m = rt_vsnprintf buf sz fmt args m"

definition rt_vsprintf :: "u32 \<Rightarrow> u8 list \<Rightarrow> va_arg list \<Rightarrow> memory \<Rightarrow> (u32 \<times> memory) option" where
  "rt_vsprintf buf fmt args m = rt_vsnprintf buf (- 1) fmt args m"

definition rt_sprintf :: "u32 \<Rightarrow> u8 list \<Rightarrow> va_arg list \<Rightarrow> memory \<Rightarrow> (u32 \<times> memory) option" where
  "rt_sprintf buf fmt args m = rt_vsprintf buf fmt args m"

section \<open>Console\<close>

text \<open>
  The console device is the state of the device and its driver's operations, if one is set;
  without one, \<open>rt_hw_console_output\<close> is the empty weak function. The write runs with the stream flag
  set and the old flags are put back when it returns, not while it blocks.
\<close>

definition console_write ::
  "'a rt_device_scheme device_ops \<Rightarrow> nat \<Rightarrow> u8 list \<Rightarrow> 'a rt_device_scheme \<Rightarrow> (nat outcome \<times> 'a rt_device_scheme) option" where
  "console_write ops buffer data d =
     (let old_flag = dev_open_flag d
      in case rt_device_write ops buffer data (d\<lparr>dev_open_flag := old_flag OR RT_DEVICE_FLAG_STREAM\<rparr>) of
           None \<Rightarrow> None
         | Some (Blocked, _, d) \<Rightarrow> Some (Blocked, d)
         | Some (Ret n, _, d) \<Rightarrow> Some (Ret n, d\<lparr>dev_open_flag := old_flag\<rparr>))"

definition rt_kputs ::
  "'a rt_device_scheme device_ops \<Rightarrow> memory \<Rightarrow> u32 \<Rightarrow> 'a rt_device_scheme option \<Rightarrow> 'a rt_device_scheme option option" where
  "rt_kputs ops m str con =
     (if str = 0 then Some con
      else case con of
             None \<Rightarrow> Some None
           | Some d \<Rightarrow>
               (case rt_strlen m str of
                  None \<Rightarrow> None
                | Some n \<Rightarrow> map_option (\<lambda>(r, d). Some d) (console_write ops (unat str) (bytes_at m str (unat n)) d)))"

abbreviation (input) RT_CONSOLEBUF_SIZE :: u32 where "RT_CONSOLEBUF_SIZE \<equiv> 128"

definition rt_kprintf ::
  "'a rt_device_scheme device_ops \<Rightarrow> u32 \<Rightarrow> u8 list \<Rightarrow> va_arg list \<Rightarrow> memory \<Rightarrow> 'a rt_device_scheme option \<Rightarrow>
     (memory \<times> 'a rt_device_scheme option) option" where
  "rt_kprintf ops rt_log_buf fmt args m con =
     (case rt_vsnprintf rt_log_buf (RT_CONSOLEBUF_SIZE - 1) fmt args m of
        None \<Rightarrow> None
      | Some (len, m) \<Rightarrow>
          let len = (if RT_CONSOLEBUF_SIZE - 1 < len then RT_CONSOLEBUF_SIZE - 1 else len)
          in case con of
               None \<Rightarrow> Some (m, None)
             | Some d \<Rightarrow>
                 map_option (\<lambda>(r, d). (m, Some d)) (console_write ops (unat rt_log_buf) (bytes_at m rt_log_buf (unat len)) d))"

section \<open>What the output should be\<close>

text \<open>The digits of a number, most significant first.\<close>

fun digits_of :: "u8 list \<Rightarrow> nat \<Rightarrow> nat \<Rightarrow> u8 list" where
  "digits_of ds b n = (if b \<le> 1 \<or> n < b then [ds ! n] else digits_of ds b (n div b) @ [ds ! (n mod b)])"

declare digits_of.simps [simp del]

text \<open>A number in its field: left adjusted, or with leading zeros behind the sign, or right adjusted; with at least
  \<open>p\<close> digits. Every base but ten is printed in base sixteen.\<close>

definition number_text :: "u32 \<Rightarrow> u8 \<Rightarrow> int \<Rightarrow> int \<Rightarrow> u8 \<Rightarrow> u8 list" where
  "number_text num base w p type =
     (let sg = (if flagged type SIGN then
                  if sint num < 0 then [chr CHR ''-''] else if flagged type PLUS then [chr CHR ''+'']
                  else if flagged type SPACE then [chr CHR '' ''] else []
                else []);
          mag = (if flagged type SIGN then nat \<bar>sint num\<bar> else unat num);
          ds = digits_of (if flagged type LARGE then large_digits else small_digits) (if base = 10 then 10 else 16) mag;
          ds = replicate (nat (p - int (length ds))) (chr CHR ''0'') @ ds;
          gap = nat (w - int (length sg) - int (length ds))
      in if flagged type LEFT then sg @ ds @ replicate gap (chr CHR '' '')
         else if flagged type ZEROPAD then sg @ replicate gap (chr CHR ''0'') @ ds
         else replicate gap (chr CHR '' '') @ sg @ ds)"

definition field_text :: "u8 \<Rightarrow> int \<Rightarrow> u8 list \<Rightarrow> u8 list" where
  "field_text flags w s =
     (let gap = replicate (nat (w - int (length s))) (chr CHR '' '') in if flagged flags LEFT then s @ gap else gap @ s)"

text \<open>The text of a conversion; none for a width, a precision or a string that overflows an \<open>int\<close>. A precision of zero
  does not shorten a string.\<close>

definition conv_text ::
  "u8 \<Rightarrow> u32 \<Rightarrow> u32 \<Rightarrow> u8 \<Rightarrow> u8 list \<Rightarrow> va_arg list \<Rightarrow> (u8 list \<times> u8 list \<times> va_arg list) option" where
  "conv_text flags w precision qualifier fmt args =
     (if sint w < - 1 \<or> 2 ^ 31 - 16 < sint precision then None
      else if rd fmt = chr CHR ''c'' then
        (case args of Slot a # args \<Rightarrow> Some (field_text flags (sint w) [ucast a], tl fmt, args) | _ \<Rightarrow> None)
      else if rd fmt = chr CHR ''s'' then
        (case args of
           Str a # args \<Rightarrow>
             let s = (case a of None \<Rightarrow> map of_char ''(NULL)'' | Some s \<Rightarrow> s)
             in if length s < 2 ^ 31
                then Some (field_text flags (sint w) (if 0 < sint precision then take (nat (sint precision)) s else s), tl fmt, args)
                else None
         | _ \<Rightarrow> None)
      else if rd fmt = chr CHR ''p'' then
        (case args of
           Slot a # args \<Rightarrow> Some (if w = - 1 then number_text a 16 8 (sint precision) (flags OR ZEROPAD)
                 else number_text a 16 (sint w) (sint precision) flags, tl fmt, args)
         | _ \<Rightarrow> None)
      else if rd fmt = chr CHR ''%'' then Some (map of_char ''%'', tl fmt, args)
      else
        (case int_conversion (rd fmt) flags of
           Some (base, flags) \<Rightarrow>
             (case args of Slot a # args \<Rightarrow> Some (number_text (int_arg qualifier flags a) base (sint w) (sint precision) flags, tl fmt, args) | _ \<Rightarrow> None)
         | None \<Rightarrow>
             if rd fmt \<noteq> 0 then Some ([chr CHR ''%'', rd fmt], tl fmt, args) else Some (map of_char ''%'', fmt, args)))"

definition directive_text :: "u8 list \<Rightarrow> va_arg list \<Rightarrow> (u8 list \<times> u8 list \<times> va_arg list) option" where
  "directive_text fmt args =
     (let (flags, fmt) = fmt_flags fmt 0
      in case fmt_width flags fmt args of
           None \<Rightarrow> None
         | Some (w, flags, fmt, args) \<Rightarrow>
             (case fmt_precision fmt args of
                None \<Rightarrow> None
              | Some (precision, fmt, args) \<Rightarrow> let (qualifier, fmt) = fmt_qualifier fmt in conv_text flags w precision qualifier fmt args))"

lemma conv_text_length: "conv_text fl w p q s args = Some (t, s', args') \<Longrightarrow> length s' \<le> length s"
  by (auto simp: conv_text_def Let_def split: if_splits prod.splits list.splits va_arg.splits option.splits)

lemma directive_text_length: "directive_text s args = Some (t, s', args') \<Longrightarrow> length s' \<le> length s"
  by (auto simp: directive_text_def split: prod.splits option.splits
      dest!: fmt_flags_length fmt_width_length fmt_precision_length fmt_qualifier_length conv_text_length)

function fmt_text :: "u8 list \<Rightarrow> va_arg list \<Rightarrow> u8 list option" where
  "fmt_text [] args = Some []"
| "fmt_text (c # fmt) args =
     (if c = 0 then Some []
      else if c \<noteq> chr CHR ''%'' then map_option (\<lambda>t. c # t) (fmt_text fmt args)
      else case directive_text fmt args of
             None \<Rightarrow> None
           | Some (t, fmt, args) \<Rightarrow> map_option (\<lambda>t'. t @ t') (fmt_text fmt args))"
  by pat_completeness auto
termination
  by (relation "measure (\<lambda>(fmt, args). length fmt)") (auto simp: less_Suc_eq_le dest: directive_text_length)

section \<open>Digits\<close>

lemma number_loop_digits:
  assumes "num \<noteq> 0"
  shows "rev (number_loop ds base num) = digits_of ds (if base = 10 then 10 else 16) (unat num)"
  using assms
proof (induction ds base num rule: number_loop.induct)
  case (1 ds base num)
  let ?b = "if base = 10 then 10 else 16 :: nat"
  obtain r n where d: "divide_long num base = (r, n)" by (cases "divide_long num base")
  then have rn: "r = unat num mod ?b" "unat n = unat num div ?b" by (auto simp: divide_long_def unat_div unat_mod split: if_splits)
  show ?case
  proof (cases "n = 0")
    case True
    then have "unat num < ?b" using rn(2) by (auto simp: div_eq_0_iff split: if_splits)
    then show ?thesis using 1(2) d rn True
      by (simp add: number_loop.simps [of ds base num] number_loop.simps [of ds base 0] digits_of.simps [of ds])
  next
    case False
    then have "\<not> unat num < ?b" using rn(2) by (auto simp: unat_eq_zero split: if_splits)
    moreover have "rev (number_loop ds base n) = digits_of ds ?b (unat num div ?b)"
      using 1(1) [OF 1(2) d [symmetric] False] rn(2) by simp
    ultimately show ?thesis using 1(2) d rn(1)
      by (simp add: number_loop.simps [of ds base num] digits_of.simps [of ds ?b "unat num"])
  qed
qed


section \<open>The output is the text, cut off at the end of the buffer\<close>

text \<open>
  \<open>wrote N buf m t j st\<close>: into the \<open>N\<close> bytes at \<open>buf\<close> of the memory \<open>m\<close> the text \<open>t\<close> was written as far as it
  fits, and the pointer stands behind it; once the buffer is full, the pointer may have run ahead of
  the text by up to \<open>j\<close>, since a sign that was not stored is not counted.
\<close>

definition wrote :: "nat \<Rightarrow> u32 \<Rightarrow> memory \<Rightarrow> u8 list \<Rightarrow> nat \<Rightarrow> out \<Rightarrow> bool" where
  "wrote N buf m t j st \<longleftrightarrow>
     (\<exists>k. st = (store_bytes buf (take N t) m, buf + of_nat k) \<and> length t \<le> k \<and> k \<le> length t + j \<and> (k = length t \<or> N \<le> length t))"

definition last_byte :: "u32 \<Rightarrow> nat \<Rightarrow> u32 \<Rightarrow> bool" where
  "last_byte buf N e \<longleftrightarrow> 0 < N \<and> unat buf + N \<le> 2 ^ 32 \<and> unat e = unat buf + N - 1"

lemma store_bytes_upd: "length bs < 2 ^ 32 \<Longrightarrow> (store_bytes a bs m)(a + of_nat (length bs) := b) = store_bytes a (bs @ [b]) m"
  by (simp only: store_bytes_snoc) (rule ext, auto simp: store_bytes_def unat_of_nat)

lemma wrote_start: "wrote N buf m [] 0 (m, buf)"
  by (auto simp: wrote_def)

lemma wrote_mono: "wrote N buf m t j st \<Longrightarrow> j \<le> j' \<Longrightarrow> wrote N buf m t j' st"
  by (auto simp: wrote_def)

lemma within_iff:
  assumes "last_byte buf N e" "unat buf + k < 2 ^ 32"
  shows "buf + of_nat k \<le> e \<longleftrightarrow> k < N"
  using assms unat_off [of buf k] by (auto simp: last_byte_def word_le_nat_alt)

lemma emit_wrote:
  assumes "last_byte buf N e" "wrote N buf m t j st" "unat buf + length t + j < 2 ^ 32"
  shows "wrote N buf m (t @ [c]) j (emit e c st)"
proof -
  obtain k where k: "st = (store_bytes buf (take N t) m, buf + of_nat k)" "length t \<le> k" "k \<le> length t + j"
    "k = length t \<or> N \<le> length t" using assms(2) by (auto simp: wrote_def)
  have w: "buf + of_nat k \<le> e \<longleftrightarrow> k < N" using within_iff [OF assms(1)] k(3) assms(3) by simp
  show ?thesis
  proof (cases "k < N")
    case True
    then have "k = length t" using k(4) k(2) by linarith
    then show ?thesis using True k(1) w assms(3) store_bytes_upd [of t buf m c]
      by (auto simp: wrote_def emit_def intro!: exI [of _ "Suc (length t)"])
  next
    case False
    then show ?thesis using k w by (auto simp: wrote_def emit_def add.assoc intro!: exI [of _ "Suc k"])
  qed
qed


lemma emit_all_wrote:
  assumes "last_byte buf N e" "wrote N buf m t j st" "unat buf + length t + length cs + j \<le> 2 ^ 32"
  shows "wrote N buf m (t @ cs) j (fold (emit e) cs st)"
  using assms(2,3)
proof (induction cs arbitrary: t st)
  case (Cons c cs)
  have "wrote N buf m (t @ [c]) j (emit e c st)" using Cons.prems by (intro emit_wrote [OF assms(1)]) auto
  then show ?case using Cons.IH [of "t @ [c]" "emit e c st"] Cons.prems(2) by simp
qed simp

text \<open>A byte too many, sent when the buffer is full.\<close>

lemma emit_beyond:
  assumes "last_byte buf N e" "wrote N buf m t j st" "N \<le> length t" "unat buf + length t + j < 2 ^ 32"
  shows "wrote N buf m t (Suc j) (emit e c st)"
proof -
  obtain k where k: "st = (store_bytes buf (take N t) m, buf + of_nat k)" "length t \<le> k" "k \<le> length t + j"
    using assms(2) by (auto simp: wrote_def)
  have "\<not> buf + of_nat k \<le> e" using within_iff [OF assms(1), of k] k(2,3) assms(3,4) by simp
  then show ?thesis using k assms(3) by (auto simp: wrote_def emit_def add.assoc intro!: exI [of _ "Suc k"])
qed

text \<open>The loops in terms of \<open>emit\<close>.\<close>

lemma pad_post_fold:
  "pad_post e c sz st = (if 0 < sint sz then - 1 else sz - 1, fold (emit e) (replicate (nat (sint sz)) c) st)"
proof (induction "nat (sint sz)" arbitrary: sz st)
  case 0
  then show ?case by (simp add: pad_post.simps [of e c sz])
next
  case (Suc n)
  have s: "sint (sz - 1) = sint sz - 1" using Suc(2) by (intro sint_dec) simp
  have "sint sz = 1 \<Longrightarrow> sz - 1 = 0" using s by (metis diff_self signed_eq_0_iff)
  moreover have "nat (sint sz) = Suc (nat (sint (sz - 1)))" using Suc(2) s by simp
  ultimately show ?case using Suc(1) [of "sz - 1"] Suc(2) s by (auto simp: pad_post.simps [of e c sz] not_less)
qed

lemma pad_pre_fold:
  "pad_pre e c w st = (if 0 < sint (w - 1) then 0 else w - 1, fold (emit e) (replicate (nat (sint (w - 1))) c) st)"
proof (induction "nat (sint (w - 1))" arbitrary: w st)
  case 0
  then show ?case by (simp add: pad_pre.simps [of e c w])
next
  case (Suc n)
  have s: "sint (w - 1 - 1) = sint (w - 1) - 1" using Suc(2) by (intro sint_dec) simp
  have "sint (w - 1) = 1 \<Longrightarrow> w - 1 - 1 = 0" using s by (metis diff_self signed_eq_0_iff)
  moreover have "nat (sint (w - 1)) = Suc (nat (sint (w - 1 - 1)))" using Suc(2) s by simp
  ultimately show ?case using Suc(1) [of "w - 1"] Suc(2) s by (auto simp: pad_pre.simps [of e c w] not_less)
qed

lemma pad_len_fold:
  "pad_len e c len w st = (if sint len < sint w then len - 1 else w - 1, fold (emit e) (replicate (nat (sint w - sint len)) c) st)"
proof (induction "nat (sint w - sint len)" arbitrary: w st)
  case 0
  then show ?case by (simp add: pad_len.simps [of e c len w])
next
  case (Suc n)
  have "- (2 ^ 31) \<le> sint len" using sint_range_size [of len] by (simp add: word_size)
  then have s: "sint (w - 1) = sint w - 1" using Suc(2) by (intro sint_dec) simp
  then have "\<not> sint len < sint (w - 1) \<Longrightarrow> sint (w - 1) = sint len" using Suc(2) by simp
  then have e: "\<not> sint len < sint (w - 1) \<Longrightarrow> w - 1 = len" by (blast intro: signed_word_eqI)
  moreover have "nat (sint w - sint len) = Suc (nat (sint (w - 1) - sint len))" using Suc(2) s by simp
  ultimately show ?case using Suc(1) [of "w - 1"] Suc(2) s by (auto simp: pad_len.simps [of e c len w])
qed


lemma not_within_full:
  assumes "last_byte buf N e" "wrote N buf m t j st" "\<not> snd st \<le> e" "unat buf + length t + j < 2 ^ 32"
  shows "N \<le> length t"
  using assms(2-4) within_iff [OF assms(1)] by (fastforce simp: wrote_def)

lemma pad_wrote:
  assumes "last_byte buf N e" "wrote N buf m t j st" "n = g \<or> n = Suc g \<and> N \<le> length t" "unat buf + length t + g + j < 2 ^ 32"
  shows "wrote N buf m (t @ replicate g c) (Suc j) (fold (emit e) (replicate n c) st)"
proof -
  have g: "wrote N buf m (t @ replicate g c) j (fold (emit e) (replicate g c) st)"
    using assms(4) by (intro emit_all_wrote [OF assms(1,2)]) simp
  show ?thesis
  proof (cases "n = g")
    case True
    then show ?thesis using g by (simp add: wrote_mono)
  next
    case False
    then have "replicate n c = replicate g c @ [c]" "N \<le> length (t @ replicate g c)"
      using assms(3) by (auto simp: replicate_append_same)
    then show ?thesis using emit_beyond [OF assms(1) g] assms(4) by simp
  qed
qed

text \<open>\<open>tmp\<close> has room for sixteen digits; ten are used at most.\<close>

lemma digits_of_power: "1 < b \<Longrightarrow> 0 < n \<Longrightarrow> b ^ (length (digits_of ds b n) - 1) \<le> n"
proof (induction ds b n rule: digits_of.induct)
  case (1 ds b n)
  show ?case
  proof (cases "n < b")
    case True
    then show ?thesis using 1(3) by (simp add: digits_of.simps)
  next
    case False
    then have "b ^ (length (digits_of ds b (n div b)) - 1) \<le> n div b" using 1 by (simp add: div_greater_zero_iff)
    moreover have "length (digits_of ds b (n div b)) \<noteq> 0" by (subst digits_of.simps) simp
    ultimately have "b * b ^ (length (digits_of ds b (n div b)) - 1) \<le> n"
      by (metis mult_le_mono2 order_trans times_div_less_eq_dividend)
    then show ?thesis using False 1(2) \<open>length (digits_of ds b (n div b)) \<noteq> 0\<close>
      by (cases "length (digits_of ds b (n div b))") (auto simp: digits_of.simps [of ds b n])
  qed
qed

lemma digits_of_length:
  assumes "n < 2 ^ 32" "10 \<le> b"
  shows "0 < length (digits_of ds b n) \<and> length (digits_of ds b n) \<le> 10"
proof (cases "n = 0")
  case True
  then show ?thesis using assms by (simp add: digits_of.simps)
next
  case False
  have "10 ^ (length (digits_of ds b n) - 1) \<le> b ^ (length (digits_of ds b n) - 1)" by (rule power_mono) (use assms in auto)
  also have "\<dots> \<le> n" using assms False by (intro digits_of_power) auto
  also have "\<dots> < 10 ^ 10" using assms by simp
  finally have "length (digits_of ds b n) - 1 < 10" by (simp only: power_strict_increasing_iff one_less_numeral_iff semiring_norm)
  moreover have "length (digits_of ds b n) \<noteq> 0" by (subst digits_of.simps) simp
  ultimately show ?thesis by linarith
qed

lemma number_sign_spec:
  assumes "number_sign type num = (sign, n)"
  shows "(if sign = 0 then [] else [sign]) =
      (if flagged type SIGN then
         if sint num < 0 then [chr CHR ''-''] else if flagged type PLUS then [chr CHR ''+''] else if flagged type SPACE then [chr CHR '' ''] else []
       else [])"
    and "unat n = (if flagged type SIGN then nat \<bar>sint num\<bar> else unat num)"
proof -
  have u: "0 \<le> uint num" "uint num < 2 ^ 32" using unsigned_less [where 'a = int, of num] by simp_all
  have "uint num = sint num mod 2 ^ 32" using uint_sint [of num] by (simp add: take_bit_eq_mod)
  moreover have "sint num mod 2 ^ 32 = (if sint num < 0 then sint num + 2 ^ 32 else sint num)"
    using sint_range_size [of num] mod_pos_pos_trivial [of "sint num + 2 ^ 32" "2 ^ 32"] by (auto simp: word_size)
  ultimately have m: "sint num < 0 \<Longrightarrow> uint num = sint num + 2 ^ 32" "\<not> sint num < 0 \<Longrightarrow> uint num = sint num" by simp_all
  have neg: "unat (- num) = nat \<bar>sint num\<bar>" if "sint num < 0"
  proof -
    have "uint (- num) = (- uint num) mod 2 ^ 32" by (simp add: uint_word_ariths)
    also have "\<dots> = (2 ^ 32 - uint num) mod 2 ^ 32" using mod_add_self1 [of "2 ^ 32" "- uint num"] by simp
    also have "\<dots> = 2 ^ 32 - uint num"
      using that m(1) u sint_range_size [of num] by (intro mod_pos_pos_trivial) (auto simp: word_size)
    finally show ?thesis using that m(1) by (simp add: unat_eq_nat_uint)
  qed
  have pos: "\<not> sint num < 0 \<Longrightarrow> unat num = nat \<bar>sint num\<bar>" using m(2) by (simp add: unat_eq_nat_uint)
  show "(if sign = 0 then [] else [sign]) =
      (if flagged type SIGN then
         if sint num < 0 then [chr CHR ''-''] else if flagged type PLUS then [chr CHR ''+''] else if flagged type SPACE then [chr CHR '' ''] else []
       else [])" using assms by (auto simp: number_sign_def split: if_splits)
  show "unat n = (if flagged type SIGN then nat \<bar>sint num\<bar> else unat num)"
    using assms neg pos by (auto simp: number_sign_def split: if_splits)
qed


lemma flags_without_zeropad:
  "(type AND - 2) AND 2 = type AND (2 :: u8)" "(type AND - 2) AND 4 = type AND (4 :: u8)" "(type AND - 2) AND 8 = type AND (8 :: u8)"
  "(type AND - 2) AND 16 = type AND (16 :: u8)" "(type AND - 2) AND 1 = (0 :: u8)"
  by (simp_all add: and.assoc)

lemma flagged_or: "type AND 17 = 0 \<longleftrightarrow> type AND 1 = 0 \<and> type AND 16 = (0 :: u8)"
proof -
  have "type AND (1 OR 16) = (type AND 1) OR (type AND 16)" by (rule bit.conj_disj_distrib)
  then show ?thesis by (simp add: or_eq_0_iff)
qed

text \<open>Digits of a printed number, and the field width left of it.\<close>

definition number_tmp :: "u8 list \<Rightarrow> u8 \<Rightarrow> u32 \<Rightarrow> u8 list" where
  "number_tmp ds base num = (if num = 0 then [chr CHR ''0''] else number_loop ds base num)"

lemma number_tmp_digits:
  assumes "ds \<in> {small_digits, large_digits}"
  shows "rev (number_tmp ds base num) = digits_of ds (if base = 10 then 10 else 16) (unat num)"
proof (cases "num = 0")
  case True
  then show ?thesis using assms by (auto simp: number_tmp_def digits_of.simps small_digits_def large_digits_def)
next
  case False
  then show ?thesis using number_loop_digits [OF False] by (simp add: number_tmp_def)
qed

lemma number_tmp_length:
  assumes "ds \<in> {small_digits, large_digits}"
  shows "0 < length (number_tmp ds base num) \<and> length (number_tmp ds base num) \<le> 10"
proof -
  have "unat num < 2 ^ 32" using unsigned_less [where 'a = nat, of num] by simp
  then have "0 < length (rev (number_tmp ds base num)) \<and> length (rev (number_tmp ds base num)) \<le> 10"
    unfolding number_tmp_digits [OF assms] by (intro digits_of_length) simp_all
  then show ?thesis by simp
qed

lemma sint_minus_nat:
  fixes w :: u32
  assumes "- 1 \<le> sint w" "int n \<le> 2 ^ 31 - 16"
  shows "sint (w - of_nat n) = sint w - int n"
  using assms
proof (induction n)
  case (Suc n)
  then show ?case using sint_dec [of "w - of_nat n"] by (simp add: algebra_simps)
qed simp


text \<open>The three layouts of a number.\<close>

lemma number_plain:
  fixes sp sign :: u8
  assumes "last_byte buf N e" "wrote N buf m t j st" "- 1 \<le> sint w" "0 < length ds" "int (length ds) \<le> 2 ^ 31 - 16"
    and "unat buf + length t + nat (sint w - of_bool (sign \<noteq> 0) - int (length ds)) + of_bool (sign \<noteq> 0) + length ds + Suc j < 2 ^ 32"
  defines "sz \<equiv> w - of_nat (length ds)"
  defines "p \<equiv> pad_post e sp (if sign \<noteq> 0 \<and> 0 < sint sz then sz - 1 else sz) st"
  defines "q \<equiv> (if sign \<noteq> 0 then (if snd (snd p) \<le> e then fst p - 1 else fst p, emit e sign (snd p)) else p)"
  defines "r \<equiv> pad_post e sp (fst q) (snd q)"
  defines "sg \<equiv> (if sign = 0 then [] else [sign])"
  shows "wrote N buf m (t @ replicate (nat (sint w - int (length sg) - int (length ds))) sp @ sg @ ds) (Suc j)
    (snd (pad_post e sp (fst r) (fold (emit e) ds (snd r))))"
proof -
  let ?g = "nat (sint w - int (length sg) - int (length ds))"
  let ?sz = "if sign \<noteq> 0 \<and> 0 < sint sz then sz - 1 else sz"
  have s: "sint sz = sint w - int (length ds)" unfolding sz_def using assms(3,5) by (intro sint_minus_nat) auto
  have d: "sint (v - 1) = sint v - 1" if "- (2 ^ 31) < sint v" for v :: u32 using that by (rule sint_dec)
  have g: "nat (sint ?sz) = ?g" using s assms(3,4,5) by (auto simp: d sg_def)
  have p: "fst p = (if 0 < sint ?sz then - 1 else ?sz - 1)" "snd p = fold (emit e) (replicate ?g sp) st"
    unfolding p_def pad_post_fold g by simp_all
  have "sint (fst p) \<le> - 1 \<and> - (2 ^ 31) + 8 < sint (fst p)" unfolding p(1) using s assms(3,4,5) by (auto simp: d)
  then have fq: "sint (fst q) \<le> - 1 \<and> - (2 ^ 31) + 7 < sint (fst q)" unfolding q_def by (auto simp: d)
  have lsg: "length sg = of_bool (sign \<noteq> 0)" by (simp add: sg_def)
  have room: "unat buf + length t + ?g + length sg + length ds + Suc j < 2 ^ 32" using assms(6) by (simp add: lsg)
  have w1: "wrote N buf m (t @ replicate ?g sp) j (snd p)" unfolding p(2)
    using room by (intro emit_all_wrote [OF assms(1,2)]) simp
  have w2: "wrote N buf m ((t @ replicate ?g sp) @ sg) j (snd q)"
    using w1 emit_wrote [OF assms(1) w1, of sign] room by (auto simp: q_def sg_def)
  have r: "snd r = snd q" "sint (fst r) \<le> 0" using fq by (simp_all add: r_def pad_post_fold d)
  have "wrote N buf m (((t @ replicate ?g sp) @ sg) @ ds) j (fold (emit e) ds (snd q))"
    using room by (intro emit_all_wrote [OF assms(1) w2]) auto
  then show ?thesis using r by (simp add: pad_post_fold wrote_mono)
qed


lemma number_signed:
  fixes sign :: u8 and w :: u32
  assumes "last_byte buf N e" "wrote N buf m t j st" "- 1 \<le> sint w" "0 < length ds" "int (length ds) \<le> 2 ^ 31 - 16"
    and "unat buf + length t + nat (sint w - of_bool (sign \<noteq> 0) - int (length ds)) + of_bool (sign \<noteq> 0) + length ds + Suc j < 2 ^ 32"
  defines "sz \<equiv> w - of_nat (length ds)"
  defines "q \<equiv> (if sign \<noteq> 0 then (if snd st \<le> e then sz - 1 else sz, emit e sign st) else (sz, st))"
  defines "sg \<equiv> (if sign = 0 then [] else [sign])"
  defines "g \<equiv> nat (sint w - int (length sg) - int (length ds))"
  shows "wrote N buf m (t @ sg) j (snd q)" "- (2 ^ 31) < sint (fst q)"
    "nat (sint (fst q)) = g \<or> nat (sint (fst q)) = Suc g \<and> N \<le> length (t @ sg)"
    "unat buf + length (t @ sg) + length ds + g + j < 2 ^ 32"
proof -
  have s: "sint sz = sint w - int (length ds)" unfolding sz_def using assms(3,5) by (intro sint_minus_nat) auto
  have d: "sint (v - 1) = sint v - 1" if "- (2 ^ 31) < sint v" for v :: u32 using that by (rule sint_dec)
  show "wrote N buf m (t @ sg) j (snd q)" using assms(2,6) emit_wrote [OF assms(1,2), of sign] by (simp add: q_def sg_def)
  show "- (2 ^ 31) < sint (fst q)" using s assms(3,5) by (auto simp: q_def d)
  have "sign \<noteq> 0 \<Longrightarrow> \<not> snd st \<le> e \<Longrightarrow> N \<le> length (t @ sg)"
    using not_within_full [OF assms(1,2)] assms(6) by simp
  then show "nat (sint (fst q)) = g \<or> nat (sint (fst q)) = Suc g \<and> N \<le> length (t @ sg)"
    using s assms(3,5) by (auto simp: q_def sg_def g_def d)
  show "unat buf + length (t @ sg) + length ds + g + j < 2 ^ 32"
    using assms(4,6) by (auto simp: sg_def g_def)
qed

lemma number_zeropad:
  fixes c sp sign :: u8
  assumes "last_byte buf N e" "wrote N buf m t j st" "- 1 \<le> sint w" "0 < length ds" "int (length ds) \<le> 2 ^ 31 - 16"
    and "unat buf + length t + nat (sint w - of_bool (sign \<noteq> 0) - int (length ds)) + of_bool (sign \<noteq> 0) + length ds + Suc j < 2 ^ 32"
  defines "sz \<equiv> w - of_nat (length ds)"
  defines "q \<equiv> (if sign \<noteq> 0 then (if snd st \<le> e then sz - 1 else sz, emit e sign st) else (sz, st))"
  defines "r \<equiv> pad_post e c (fst q) (snd q)"
  defines "sg \<equiv> (if sign = 0 then [] else [sign])"
  shows "wrote N buf m (t @ sg @ replicate (nat (sint w - int (length sg) - int (length ds))) c @ ds) (Suc j)
    (snd (pad_post e sp (fst r) (fold (emit e) ds (snd r))))"
proof -
  note sg = number_signed [OF assms(1-6), folded sz_def, folded q_def sg_def]
  have d: "sint (v - 1) = sint v - 1" if "- (2 ^ 31) < sint v" for v :: u32 using that by (rule sint_dec)
  have "wrote N buf m ((t @ sg) @ replicate (nat (sint w - int (length sg) - int (length ds))) c) (Suc j) (snd r)"
    unfolding r_def pad_post_fold snd_conv using sg(4) by (intro pad_wrote [OF assms(1) sg(1,3)]) simp
  from emit_all_wrote [OF assms(1) this, of ds]
  have "wrote N buf m (t @ sg @ replicate (nat (sint w - int (length sg) - int (length ds))) c @ ds) (Suc j) (fold (emit e) ds (snd r))"
    using sg(4) by simp
  moreover have "sint (fst r) \<le> 0" using sg(2) by (simp add: r_def pad_post_fold d)
  ultimately show ?thesis by (simp add: pad_post_fold)
qed

lemma number_left:
  fixes sp sign :: u8
  assumes "last_byte buf N e" "wrote N buf m t j st" "- 1 \<le> sint w" "0 < length ds" "int (length ds) \<le> 2 ^ 31 - 16"
    and "unat buf + length t + nat (sint w - of_bool (sign \<noteq> 0) - int (length ds)) + of_bool (sign \<noteq> 0) + length ds + Suc j < 2 ^ 32"
  defines "sz \<equiv> w - of_nat (length ds)"
  defines "q \<equiv> (if sign \<noteq> 0 then (if snd st \<le> e then sz - 1 else sz, emit e sign st) else (sz, st))"
  defines "sg \<equiv> (if sign = 0 then [] else [sign])"
  shows "wrote N buf m (t @ sg @ ds @ replicate (nat (sint w - int (length sg) - int (length ds))) sp) (Suc j)
    (snd (pad_post e sp (fst q) (fold (emit e) ds (snd q))))"
proof -
  note sg = number_signed [OF assms(1-6), folded sz_def, folded q_def sg_def]
  have "wrote N buf m ((t @ sg) @ ds) j (fold (emit e) ds (snd q))"
    using sg(4) by (intro emit_all_wrote [OF assms(1) sg(1)]) simp
  moreover have "nat (sint (fst q)) = nat (sint w - int (length sg) - int (length ds)) \<or>
    nat (sint (fst q)) = Suc (nat (sint w - int (length sg) - int (length ds))) \<and> N \<le> length ((t @ sg) @ ds)" using sg(3) by auto
  ultimately have "wrote N buf m (((t @ sg) @ ds) @ replicate (nat (sint w - int (length sg) - int (length ds))) sp) (Suc j)
    (fold (emit e) (replicate (nat (sint (fst q))) sp) (fold (emit e) ds (snd q)))"
    using sg(4) by (intro pad_wrote [OF assms(1)]) auto
  then show ?thesis by (simp add: pad_post_fold)
qed


lemma number_sign_zeropad: "number_sign (type AND - 2) num = number_sign type num"
  by (simp add: number_sign_def flags_without_zeropad)

text \<open>The digits with the zeros that the precision adds.\<close>

lemma precision_digits:
  fixes p :: u32 and z :: u8 and tmp :: "u8 list"
  assumes "0 < length tmp" "length tmp \<le> 10" "sint p \<le> 2 ^ 31 - 16"
  defines "i \<equiv> of_nat (length tmp) :: u32"
  defines "q \<equiv> (if sint i > sint p then i else p)"
  defines "ds \<equiv> replicate (nat (sint p - int (length tmp))) z @ rev tmp"
  shows "q = of_nat (length ds)" "0 < length ds" "int (length ds) \<le> 2 ^ 31 - 16"
    "fold (emit e) (rev tmp) (snd (pad_len e z i q st)) = fold (emit e) ds st"
proof -
  have i: "sint i = int (length tmp)" using assms(2) by (simp add: i_def signed_of_nat signed_take_bit_int_eq_self)
  have q: "sint q = int (length ds)" "nat (sint q - sint i) = nat (sint p - int (length tmp))" using i by (auto simp: q_def ds_def)
  show "int (length ds) \<le> 2 ^ 31 - 16" using assms(2,3) by (simp add: ds_def)
  then have "sint (of_nat (length ds) :: u32) = int (length ds)" by (simp add: signed_of_nat signed_take_bit_int_eq_self)
  then show "q = of_nat (length ds)" using q(1) by (metis signed_word_eqI)
  show "0 < length ds" using assms(1) by (simp add: ds_def)
  show "fold (emit e) (rev tmp) (snd (pad_len e z i q st)) = fold (emit e) ds st" unfolding pad_len_fold q(2) by (simp add: ds_def)
qed

lemma print_number_wrote:
  assumes "last_byte buf N e" "wrote N buf m t j st" "- 1 \<le> sint w" "sint p \<le> 2 ^ 31 - 16"
    and "unat buf + length t + length (number_text num base (sint w) (sint p) type) + Suc j < 2 ^ 32"
  shows "wrote N buf m (t @ number_text num base (sint w) (sint p) type) (Suc j) (print_number e num base w p type st)"
proof -
  let ?ds = "if flagged type LARGE then large_digits else small_digits"
  obtain sign n where sn: "number_sign type num = (sign, n)" by (cases "number_sign type num")
  have in_ds: "?ds \<in> {small_digits, large_digits}" by simp
  define tmp where "tmp = number_tmp ?ds base n"
  define i :: u32 where "i = of_nat (length tmp)"
  define D where "D = replicate (nat (sint p - int (length tmp))) (chr CHR ''0'') @ rev tmp"
  have len: "0 < length tmp" "length tmp \<le> 10" using number_tmp_length [OF in_ds, of base n] by (simp_all add: tmp_def)
  note pd = precision_digits [OF len assms(4), where z = "chr CHR ''0''", folded i_def D_def]
  have fold_D: "fold (emit e) (rev tmp) (snd (pad_len e 48 i (of_nat (length D)) s)) = fold (emit e) D s" for s
    using pd(4) [of e s, unfolded pd(1)] by simp
  have ds: "digits_of ?ds (if base = 10 then 10 else 16) (if flagged type SIGN then nat \<bar>sint num\<bar> else unat num) = rev tmp"
    using number_tmp_digits [OF in_ds, of base n] number_sign_spec(2) [OF sn] by (simp add: tmp_def)
  note spec = number_text_def [of num base "sint w" "sint p" type, unfolded Let_def, folded number_sign_spec(1) [OF sn], unfolded ds length_rev,
      folded D_def]
  have sn': "number_sign (if flagged type LEFT then type AND NOT ZEROPAD else type) num = (sign, n)" using sn by (simp add: number_sign_zeropad)
  note code = print_number_def [of e num base w p type st, unfolded Let_def sn' prod.case, folded number_tmp_def, folded tmp_def, folded i_def,
      unfolded pd(1)]
  have "length (number_text num base (sint w) (sint p) type) =
      nat (sint w - of_bool (sign \<noteq> 0) - int (length D)) + of_bool (sign \<noteq> 0) + length D" unfolding spec by simp
  then have room: "unat buf + length t + nat (sint w - of_bool (sign \<noteq> 0) - int (length D)) + of_bool (sign \<noteq> 0) + length D + Suc j < 2 ^ 32"
    using assms(5) by linarith
  consider (left) "flagged type LEFT" | (zero) "\<not> flagged type LEFT" "flagged type ZEROPAD"
    | (plain) "\<not> flagged type LEFT" "\<not> flagged type ZEROPAD" by blast
  then show ?thesis
  proof cases
    case left
    then show ?thesis using number_left [OF assms(1-3) pd(2,3) room, where sp = "chr CHR '' ''"]
      by (simp add: spec code fold_D flags_without_zeropad flagged_or case_prod_beta cong: if_cong)
  next
    case zero
    then show ?thesis using number_zeropad [OF assms(1-3) pd(2,3) room, where c = "chr CHR ''0''" and sp = "chr CHR '' ''"]
      by (simp add: spec code fold_D flagged_or case_prod_beta cong: if_cong)
  next
    case plain
    then show ?thesis using number_plain [OF assms(1-3) pd(2,3) room, where sp = "chr CHR '' ''"]
      by (simp add: spec code fold_D flagged_or case_prod_beta cong: if_cong)
  qed
qed


lemma field_text_length: "nat w \<le> length (field_text flags w s)" "length s \<le> length (field_text flags w s)"
  by (auto simp: field_text_def Let_def)

lemma print_char_wrote:
  assumes "last_byte buf N e" "wrote N buf m t j st" "- 1 \<le> sint w" "unat buf + length t + nat (sint w) + 10 + j < 2 ^ 32"
  shows "wrote N buf m (t @ field_text flags (sint w) [ucast a]) j (print_char e flags w a st)"
proof -
  have d: "sint (w - 1) = sint w - 1" using assms(3) by (intro sint_dec) simp
  have d0: "sint (w - 1 - 1) \<le> 0" if "sint (w - 1) \<le> 0" using that d assms(3) sint_dec [of "w - 1"] by simp
  have m1: "sint (- 1 :: u32) \<le> 0" by simp
  let ?sp = "replicate (nat (sint w - 1)) (chr CHR '' '')"
  show ?thesis
  proof (cases "flagged flags LEFT")
    case True
    have "wrote N buf m (t @ [ucast a]) j (emit e (ucast a) st)" using assms(4) by (intro emit_wrote [OF assms(1,2)]) simp
    from emit_all_wrote [OF assms(1) this, of ?sp] show ?thesis
      using True assms(4) by (simp add: print_char_def field_text_def pad_pre_fold d)
  next
    case False
    have "wrote N buf m (t @ ?sp) j (fold (emit e) ?sp st)" using assms(4) by (intro emit_all_wrote [OF assms(1,2)]) simp
    from emit_wrote [OF assms(1) this, of "ucast a"]
    have "wrote N buf m (t @ field_text flags (sint w) [ucast a]) j (emit e (ucast a) (fold (emit e) ?sp st))"
      using False assms(4) by (simp add: field_text_def)
    then show ?thesis using False d0 m1 d by (simp add: print_char_def pad_pre_fold not_less)
  qed
qed

text \<open>The part of a string that the precision leaves, and its length.\<close>

lemma precision_string:
  fixes p :: u32 and s :: "u8 list"
  assumes "length s < 2 ^ 31"
  defines "len \<equiv> of_nat (length s) :: u32"
  defines "len' \<equiv> (if 0 < sint p \<and> sint len > sint p then p else len)"
  defines "s' \<equiv> (if 0 < sint p then take (nat (sint p)) s else s)"
  shows "sint len' = int (length s')" "take (nat (sint len')) s = s'" "length s' < 2 ^ 31"
proof -
  have l: "sint len = int (length s)" using assms(1) by (simp add: len_def signed_of_nat signed_take_bit_int_eq_self)
  show "sint len' = int (length s')" "take (nat (sint len')) s = s'" using l by (auto simp: len'_def s'_def)
  show "length s' < 2 ^ 31" using assms(1) by (simp add: s'_def min_less_iff_disj)
qed

lemma print_string_wrote:
  fixes a :: "u8 list option" and p :: u32
  assumes "last_byte buf N e" "wrote N buf m t j st" "- 1 \<le> sint w"
  defines "s0 \<equiv> (case a of None \<Rightarrow> map of_char ''(NULL)'' | Some s \<Rightarrow> s)"
  defines "s \<equiv> (if 0 < sint p then take (nat (sint p)) s0 else s0)"
  assumes "length s0 < 2 ^ 31" "unat buf + length t + length (field_text flags (sint w) s) + j < 2 ^ 32"
  shows "wrote N buf m (t @ field_text flags (sint w) s) j (print_string e flags w p a st)"
proof -
  define len :: u32 where "len = (if 0 < sint p \<and> sint (of_nat (length s0) :: u32) > sint p then p else of_nat (length s0))"
  note ps = precision_string [OF assms(6), of p, folded len_def s_def]
  note l = ps(1)
  have w1: "sint (w - 1) = sint w - 1" using assms(3) by (intro sint_dec) simp
  have l1: "sint (len - 1) = int (length s) - 1" using l sint_dec [of len] by simp
  let ?sp = "replicate (nat (sint w - int (length s))) (chr CHR '' '')"
  have room: "unat buf + length t + nat (sint w - int (length s)) + length s + j < 2 ^ 32"
    using assms(7) by (simp add: field_text_def Let_def split: if_splits)
  note code = print_string_def [of e flags w p a st, folded s0_def, unfolded Let_def, folded len_def, unfolded ps(2)]
  show ?thesis
  proof (cases "flagged flags LEFT")
    case True
    have "wrote N buf m (t @ s) j (fold (emit e) s st)" using room by (intro emit_all_wrote [OF assms(1,2)]) simp
    from emit_all_wrote [OF assms(1) this, of ?sp] show ?thesis
      using True room l unfolding code by (simp add: field_text_def pad_len_fold)
  next
    case False
    have "wrote N buf m (t @ ?sp) j (fold (emit e) ?sp st)" using room by (intro emit_all_wrote [OF assms(1,2)]) simp
    from emit_all_wrote [OF assms(1) this, of s]
    have "wrote N buf m (t @ field_text flags (sint w) s) j (fold (emit e) s (fold (emit e) ?sp st))"
      using False room by (simp add: field_text_def)
    moreover have "\<not> sint len < sint (if sint len < sint w then len - 1 else w - 1)" using l l1 w1 by simp
    ultimately show ?thesis using False l unfolding code by (simp add: pad_len_fold)
  qed
qed


lemma conversion_wrote:
  assumes "last_byte buf N e" "wrote N buf m t j st" "conv_text flags w p q fmt args = Some (t', fmt', args')"
    and "unat buf + length t + length t' + j + 20 < 2 ^ 32"
  shows "\<exists>st'. conversion e flags w p q fmt args st = Some (st', fmt', args') \<and> wrote N buf m (t @ t') (Suc j) st'"
proof -
  have w: "- 1 \<le> sint w" and p: "sint p \<le> 2 ^ 31 - 16" using assms(3) by (auto simp: conv_text_def split: if_splits)
  note conv = assms(3) [unfolded conv_text_def]
  have number: "wrote N buf m (t @ number_text num base (sint v) (sint p) fl) (Suc j) (print_number e num base v p fl st)"
    if "- 1 \<le> sint v" "t' = number_text num base (sint v) (sint p) fl" for num base v fl
    using that assms(4) p by (intro print_number_wrote [OF assms(1,2)]) auto
  have percent: "wrote N buf m (t @ [37]) j (emit e 37 st)" using emit_wrote [OF assms(1,2), of 37] assms(4) by simp
  consider (c) "rd fmt = chr CHR ''c''" | (s) "rd fmt = chr CHR ''s''" | (ptr) "rd fmt = chr CHR ''p''" | (pc) "rd fmt = chr CHR ''%''"
    | (int) base fl where "rd fmt \<notin> {chr CHR ''c'', chr CHR ''s'', chr CHR ''p'', chr CHR ''%''}" "int_conversion (rd fmt) flags = Some (base, fl)"
    | (other) "rd fmt \<notin> {chr CHR ''c'', chr CHR ''s'', chr CHR ''p'', chr CHR ''%''}" "int_conversion (rd fmt) flags = None"
    by fastforce
  then show ?thesis
  proof cases
    case c
    then obtain a where a: "args = Slot a # args'" "t' = field_text flags (sint w) [ucast a]" "fmt' = tl fmt"
      using conv by (auto split: if_splits list.splits va_arg.splits)
    then show ?thesis using c print_char_wrote [OF assms(1,2) w, of flags a] assms(4) field_text_length(1) [of "sint w" flags "[ucast a]"]
      by (auto simp: conversion_def simp del: split_paired_Ex intro: wrote_mono)
  next
    case s
    then obtain a where a: "args = Str a # args'" "fmt' = tl fmt"
      "t' = field_text flags (sint w) (if 0 < sint p then take (nat (sint p)) (case a of None \<Rightarrow> map of_char ''(NULL)'' | Some s \<Rightarrow> s)
         else (case a of None \<Rightarrow> map of_char ''(NULL)'' | Some s \<Rightarrow> s))"
      "length (case a of None \<Rightarrow> map of_char ''(NULL)'' | Some s \<Rightarrow> s) < 2 ^ 31"
      using conv by (simp add: Let_def split: if_splits list.splits va_arg.splits)
    have "wrote N buf m (t @ t') j (print_string e flags w p a st)"
      unfolding a(3) using a(4) assms(4) by (intro print_string_wrote [OF assms(1,2) w]) (simp_all add: a(3))
    then show ?thesis using s a(1,2) by (auto simp: conversion_def simp del: split_paired_Ex intro: wrote_mono)
  next
    case ptr
    then obtain a where a: "args = Slot a # args'" "fmt' = tl fmt"
      "t' = (if w = - 1 then number_text a 16 8 (sint p) (flags OR ZEROPAD) else number_text a 16 (sint w) (sint p) flags)"
      using conv by (auto split: if_splits list.splits va_arg.splits)
    then show ?thesis using ptr number [of 8 a 16 "flags OR ZEROPAD"] number [OF w, of a 16 flags]
      by (auto simp: conversion_def simp del: split_paired_Ex split: if_splits)
  next
    case pc
    then show ?thesis using conv percent by (auto simp: conversion_def simp del: split_paired_Ex intro: wrote_mono split: if_splits)
  next
    case int
    then obtain a where a: "args = Slot a # args'" "fmt' = tl fmt" "t' = number_text (int_arg q fl a) base (sint w) (sint p) fl"
      using conv by (auto split: if_splits list.splits va_arg.splits)
    then show ?thesis using int number [OF w a(3)] by (auto simp: conversion_def simp del: split_paired_Ex)
  next
    case other
    then have "t' = (if rd fmt \<noteq> 0 then [37, rd fmt] else [37])" "fmt' = (if rd fmt \<noteq> 0 then tl fmt else fmt)" "args' = args"
      using conv by (auto split: if_splits)
    moreover have "wrote N buf m (t @ [37, rd fmt]) j (emit e (rd fmt) (emit e 37 st))" if "rd fmt \<noteq> 0"
      using emit_wrote [OF assms(1) percent, of "rd fmt"] calculation(1) that assms(4) by simp
    ultimately show ?thesis using other percent by (auto simp: conversion_def Let_def simp del: split_paired_Ex intro: wrote_mono)
  qed
qed

lemma directive_wrote:
  assumes "last_byte buf N e" "wrote N buf m t j st" "directive_text fmt args = Some (t', fmt', args')"
    and "unat buf + length t + length t' + j + 20 < 2 ^ 32"
  shows "\<exists>st'. directive e fmt args st = Some (st', fmt', args') \<and> wrote N buf m (t @ t') (Suc j) st'"
proof -
  obtain flags f1 where f: "fmt_flags fmt 0 = (flags, f1)" by (cases "fmt_flags fmt 0")
  obtain w flags' f2 args2 where w: "fmt_width flags f1 args = Some (w, flags', f2, args2)"
    using assms(3) f by (auto simp: directive_text_def split: option.splits)
  obtain p f2' args3 where p: "fmt_precision f2 args2 = Some (p, f2', args3)"
    using assms(3) f w by (auto simp: directive_text_def split: option.splits)
  obtain q f3 where q: "fmt_qualifier f2' = (q, f3)" by (cases "fmt_qualifier f2'")
  have "conv_text flags' w p q f3 args3 = Some (t', fmt', args')" using assms(3) f w p q by (simp add: directive_text_def)
  from conversion_wrote [OF assms(1,2) this assms(4)] show ?thesis using f w p q by (simp add: directive_def del: split_paired_Ex)
qed

lemma vsn_loop_wrote:
  assumes "last_byte buf N e" "fmt_text fmt args = Some t'" "wrote N buf m t j st"
    and "unat buf + length t + length t' + j + length fmt + 20 < 2 ^ 32"
  shows "\<exists>st'. vsn_loop e fmt args st = Some st' \<and> wrote N buf m (t @ t') (j + length fmt) st'"
  using assms(2-4)
proof (induction fmt args arbitrary: t' t j st rule: fmt_text.induct)
  case (1 args)
  then show ?case by (simp del: split_paired_Ex)
next
  case (2 c fmt args)
  consider (stop) "c = 0" | (char) "c \<noteq> 0" "c \<noteq> chr CHR ''%''" | (conv) "c \<noteq> 0" "c = chr CHR ''%''" by blast
  then show ?case
  proof cases
    case stop
    then show ?thesis using 2(3,4) by (auto simp: intro: wrote_mono)
  next
    case char
    then obtain t2 where t2: "fmt_text fmt args = Some t2" "t' = c # t2" using 2(3) by auto
    have "wrote N buf m (t @ [c]) j (emit e c st)" using 2(5) t2 by (intro emit_wrote [OF assms(1) 2(4)]) simp
    from 2(1) [OF char t2(1) this] obtain st' where st': "vsn_loop e fmt args (emit e c st) = Some st'"
      "wrote N buf m ((t @ [c]) @ t2) (j + length fmt) st'" using 2(5) t2 by (auto simp del: split_paired_Ex)
    have "wrote N buf m (t @ t') (j + length (c # fmt)) st'" using st'(2) t2(2) by (auto intro: wrote_mono)
    then show ?thesis using char st'(1) by (simp del: split_paired_Ex)
  next
    case conv
    then obtain t1 fmt' args' t2 where t: "directive_text fmt args = Some (t1, fmt', args')" "fmt_text fmt' args' = Some t2" "t' = t1 @ t2"
      using 2(3) by (auto split: option.splits)
    have le: "length fmt' \<le> length fmt" using directive_text_length [OF t(1)] .
    obtain st1 where st1: "directive e fmt args st = Some (st1, fmt', args')" "wrote N buf m (t @ t1) (Suc j) st1"
      using directive_wrote [OF assms(1) 2(4) t(1)] 2(5) t(3) by auto
    have "unat buf + length (t @ t1) + length t2 + Suc j + length fmt' + 20 < 2 ^ 32" using 2(5) t(3) le by simp
    from 2(2) [OF conv(1) _ t(1) refl refl t(2) st1(2) this] obtain st' where
      st': "vsn_loop e fmt' args' st1 = Some st'" "wrote N buf m ((t @ t1) @ t2) (Suc j + length fmt') st'"
      using conv(2) by (auto simp del: split_paired_Ex)
    have "wrote N buf m (t @ t') (j + length (c # fmt)) st'" using st'(2) t(3) le by (auto intro: wrote_mono)
    then show ?thesis using conv st1(1) st'(1) by (simp del: split_paired_Ex)
  qed
qed

text \<open>Closing the string.\<close>

lemma wrote_close:
  assumes "last_byte buf N e" "wrote N buf m t j st" "unat buf + length t + j < 2 ^ 32"
  shows "(if snd st \<le> e then (fst st)(snd st := 0) else (fst st)(e := 0)) = store_bytes buf (take (N - 1) t @ [0]) m"
    "length t < N \<Longrightarrow> unat (snd st - buf) = length t" "N \<le> length t \<Longrightarrow> N \<le> unat (snd st - buf)"
proof -
  obtain k where k: "st = (store_bytes buf (take N t) m, buf + of_nat k)" "length t \<le> k" "k \<le> length t + j"
    "k = length t \<or> N \<le> length t" using assms(2) by (auto simp: wrote_def)
  have w: "buf + of_nat k \<le> e \<longleftrightarrow> k < N" using within_iff [OF assms(1)] k(3) assms(3) by simp
  have u: "unat (snd st - buf) = k" using k(1,3) assms(3) by (simp add: unat_of_nat)
  show "length t < N \<Longrightarrow> unat (snd st - buf) = length t" "N \<le> length t \<Longrightarrow> N \<le> unat (snd st - buf)"
    using k(2,4) u by auto
  show "(if snd st \<le> e then (fst st)(snd st := 0) else (fst st)(e := 0)) = store_bytes buf (take (N - 1) t @ [0]) m"
  proof (cases "k < N")
    case True
    then have "k = length t" using k(2,4) by linarith
    then show ?thesis using True w k(1) assms(3) store_bytes_upd [of t buf m 0] by simp
  next
    case False
    then have n: "N \<le> length t" using k(4) by auto
    have N: "0 < N" "unat buf + N \<le> 2 ^ 32" "unat e = unat buf + N - 1" using assms(1) by (simp_all add: last_byte_def)
    have "unat (buf + of_nat (N - 1)) = unat e" using unat_off [of buf "N - 1"] N by simp
    then have e: "buf + of_nat (N - 1) = e" by (simp add: word_unat_eq_iff)
    have "take N t = take (N - 1) t @ [t ! (N - 1)]" using n N(1) take_Suc_conv_app_nth [of "N - 1" t] by simp
    moreover have "(store_bytes buf (take (N - 1) t) m)(e := b) = store_bytes buf (take (N - 1) t @ [b]) m" for b
    proof -
      have len: "length (take (N - 1) t) = N - 1" "N - 1 < 2 ^ 32" using n N by auto
      then show ?thesis using store_bytes_upd [of "take (N - 1) t" buf m b] unfolding len(1) e by simp
    qed
    ultimately show ?thesis using False w k(1) by (metis fst_conv fun_upd_upd snd_conv)
  qed
qed

section \<open>The routines\<close>

lemma vsn_refines:
  assumes "last_byte buf N e" "fmt_text fmt args = Some t" "unat buf + length t + length fmt + 20 < 2 ^ 32"
  shows "\<exists>m' str. vsn_loop e fmt args (m, buf) = Some (m', str) \<and>
    (if str \<le> e then m'(str := 0) else m'(e := 0)) = store_bytes buf (take (N - 1) t @ [0]) m \<and>
    (if length t < N then unat (str - buf) = length t else N \<le> unat (str - buf))"
proof -
  obtain m' str where st: "vsn_loop e fmt args (m, buf) = Some (m', str)" "wrote N buf m ([] @ t) (0 + length fmt) (m', str)"
    using vsn_loop_wrote [OF assms(1,2) wrote_start, of m] assms(3) by auto
  then show ?thesis using wrote_close [OF assms(1), of m t "length fmt" "(m', str)"] assms(3) by auto
qed

lemma rt_vsnprintf_text:
  assumes "fmt_text fmt args = Some t" "0 < sz" "unat buf + unat sz \<le> 2 ^ 32" "unat buf + length t + length fmt + 20 < 2 ^ 32"
  shows "\<exists>n. rt_vsnprintf buf sz fmt args m = Some (n, store_bytes buf (take (unat sz - 1) t @ [0]) m) \<and>
    (if length t < unat sz then unat n = length t else unat sz \<le> unat n)"
proof -
  have sz: "0 < unat sz" using assms(2) by (simp add: word_less_nat_alt)
  have "buf + sz - 1 = buf + of_nat (unat sz - 1)" using sz by simp
  then have e: "unat (buf + sz - 1) = unat buf + unat sz - 1" using unat_off [of buf "unat sz - 1"] sz assms(3) by (simp only:)
  then have "\<not> buf + sz - 1 < buf" using sz by (simp add: word_less_nat_alt)
  moreover have "last_byte buf (unat sz) (buf + sz - 1)" using sz assms(3) e by (simp add: last_byte_def)
  then obtain m' str where v: "vsn_loop (buf + sz - 1) fmt args (m, buf) = Some (m', str)"
    "(if str \<le> buf + sz - 1 then m'(str := 0) else m'(buf + sz - 1 := 0)) = store_bytes buf (take (unat sz - 1) t @ [0]) m"
    "if length t < unat sz then unat (str - buf) = length t else unat sz \<le> unat (str - buf)"
    using vsn_refines [OF _ assms(1,4), of "unat sz" "buf + sz - 1" m] by blast
  ultimately have "rt_vsnprintf buf sz fmt args m = Some (str - buf, store_bytes buf (take (unat sz - 1) t @ [0]) m)"
    unfolding rt_vsnprintf_def Let_def by (simp only: if_False simp_thms v(1) option.map split_conv v(2))
  then show ?thesis using v(3) by blast
qed

text \<open>C22. \<open>rt_vsnprintf\<close> with a buffer of \<open>sz > 0\<close> bytes returns for every format that has a text with its arguments:
  each argument is there and of the right kind, and no width, precision or string overflows an \<open>int\<close>. If neither the
  buffer nor the text runs over the end of the address space, the buffer holds the formatted text, cut off
  after \<open>sz - 1\<close> bytes and closed by a NUL, and not a byte outside it has changed; the result is the length of the
  text if it fits and at least \<open>sz\<close> if it was cut off.\<close>

theorem rt_vsnprintf_refines:
  assumes "fmt_text fmt args = Some t" "0 < sz" "unat buf + unat sz \<le> 2 ^ 32" "unat buf + length t + length fmt + 20 < 2 ^ 32"
  shows "\<exists>n. rt_vsnprintf buf sz fmt args m = Some (n, store_bytes buf (take (unat sz - 1) t @ [0]) m) \<and>
    (if length t < unat sz then unat n = length t else unat sz \<le> unat n)"
  using assms by (rule rt_vsnprintf_text)

text \<open>C40. A size of zero does not mean that nothing may be written: for every format that has a text with its
  arguments, and that fits below the end of the address space, \<open>rt_snprintf\<close> with size zero writes the whole text and
  its terminator, as \<open>rt_sprintf\<close> does, which is given no size.\<close>

theorem rt_snprintf_size_zero_unbounded:
  assumes "fmt_text fmt args = Some t" "2 \<le> buf" "unat buf + length t + length fmt + 20 < 2 ^ 32"
  shows "rt_snprintf buf 0 fmt args m = Some (of_nat (length t), store_bytes buf (t @ [0]) m) \<and>
    rt_sprintf buf fmt args m = rt_snprintf buf 0 fmt args m"
proof -
  have b: "2 \<le> unat buf" using assms(2) by (simp add: word_le_nat_alt)
  have u: "unat buf < 2 ^ 32" using assms(3) by simp
  have "unat (buf - 1) = unat buf - 1" "unat (buf - 2) = unat buf - 2" using b by (simp_all add: unat_sub word_le_nat_alt)
  then have wrap: "buf - 1 < buf" "buf - 2 < buf" using b by (simp_all add: word_less_nat_alt)
  have "unat (- 1 :: u32) = 2 ^ 32 - 1" by (simp add: unsigned_minus_1_eq_mask mask_eq_exp_minus_1)
  then have last: "last_byte buf (2 ^ 32 - unat buf) (- 1)" using u by (simp add: last_byte_def)
  obtain m' str where v: "vsn_loop (- 1) fmt args (m, buf) = Some (m', str)"
    "(if str \<le> - 1 then m'(str := 0) else m'(- 1 := 0)) = store_bytes buf (take (2 ^ 32 - unat buf - 1) t @ [0]) m"
    "unat (str - buf) = length t"
    using vsn_refines [OF last assms(1,3), of m] assms(3) by auto
  have "take (2 ^ 32 - unat buf - 1) t = t" using assms(3) by simp
  moreover have "str - buf = of_nat (length t)" using v(3) by (metis of_nat_unat ucast_id)
  ultimately show ?thesis using v(1,2) wrap
    by (simp add: rt_snprintf_def rt_sprintf_def rt_vsprintf_def rt_vsnprintf_def)
qed


lemma number_loop_octal: "number_loop ds 8 n = number_loop ds 16 n"
proof (induction ds "8 :: u8" n rule: number_loop.induct)
  case (1 ds n)
  have "divide_long n 8 = divide_long n 16" by (simp add: divide_long_def)
  then show ?case using 1 by (auto simp: number_loop.simps [of ds _ n] split: prod.splits)
qed

text \<open>The conversion \<open>%o\<close> does not print octal: \<open>divide\<close> knows base ten and otherwise divides by sixteen, so with
  any flags and any width \<open>%o\<close> prints what \<open>%x\<close> prints.\<close>

theorem octal_prints_hexadecimal:
  "print_number e num 8 w p type st = print_number e num 16 w p type st \<and>
   rt_vsnprintf buf sz (map of_char ''%o'') [Slot num] m = rt_vsnprintf buf sz (map of_char ''%x'') [Slot num] m"
proof -
  have "print_number e num 8 w p type st = print_number e num 16 w p type st" for e num w p type st
    by (simp only: print_number_def number_loop_octal)
  then show ?thesis
    by (simp add: rt_vsnprintf_def directive_def fmt_width_def fmt_precision_def isdigit_def fmt_qualifier_def conversion_def int_conversion_def)
qed


text \<open>A precision of zero does not shorten a string: \<open>%.0s\<close> prints all of it.\<close>

lemma precision_zero_prints_all: "length s < 2 ^ 31 \<Longrightarrow> fmt_text (map of_char ''%.0s'') [Str (Some s)] = Some s"
  by (simp add: directive_text_def fmt_width_def fmt_precision_def isdigit_def fmt_qualifier_def conv_text_def field_text_def Let_def)

text \<open>A printed decimal number is read back by \<open>skip_atoi\<close>.\<close>

lemma digit_char:
  assumes "i < 10"
  shows "isdigit (small_digits ! i)" "(ucast (small_digits ! i) :: u32) = 48 + of_nat i"
proof -
  have "i \<in> {0, 1, 2, 3, 4, 5, 6, 7, 8, 9}" using assms by auto
  then show "isdigit (small_digits ! i)" "(ucast (small_digits ! i) :: u32) = 48 + of_nat i"
    by (auto simp: small_digits_def isdigit_def)
qed

lemma skip_atoi_digits:
  "skip_atoi (digits_of small_digits 10 n @ s) a = skip_atoi s (a * 10 ^ length (digits_of small_digits 10 n) + of_nat n)"
proof (induction n arbitrary: s a rule: less_induct)
  case (less n)
  show ?case
  proof (cases "n < 10")
    case True
    then show ?thesis using digit_char [OF True] by (simp add: digits_of.simps algebra_simps)
  next
    case False
    let ?d = "digits_of small_digits 10 (n div 10)"
    have d: "digits_of small_digits 10 n = ?d @ [small_digits ! (n mod 10)]" using False by (simp add: digits_of.simps [of _ _ n])
    have n: "(of_nat n :: u32) = of_nat (n div 10) * 10 + of_nat (n mod 10)"
      by (metis div_mult_mod_eq of_nat_add of_nat_mult of_nat_numeral)
    have "skip_atoi (digits_of small_digits 10 n @ s) a =
        skip_atoi (small_digits ! (n mod 10) # s) (a * 10 ^ length ?d + of_nat (n div 10))"
      using less [of "n div 10" "small_digits ! (n mod 10) # s" a] False d by simp
    also have "\<dots> = skip_atoi s ((a * 10 ^ length ?d + of_nat (n div 10)) * 10 + of_nat (n mod 10))"
      using digit_char [of "n mod 10"] by (simp add: algebra_simps)
    finally show ?thesis using d n by (simp add: algebra_simps)
  qed
qed

lemma fmt_text_u: "fmt_text (map of_char ''%u'') [Slot n] = Some (digits_of small_digits 10 (unat n))"
proof -
  have l: "0 < length (digits_of small_digits 10 (unat n))" by (subst digits_of.simps) simp
  have "nat (- 1 - int (length (digits_of small_digits 10 (unat n)))) = 0" by simp
  then show ?thesis
    by (simp add: directive_text_def fmt_width_def fmt_precision_def isdigit_def fmt_qualifier_def conv_text_def int_conversion_def number_text_def int_arg_def Let_def)
qed

text \<open>A number printed with \<open>%u\<close> into a buffer of at least eleven bytes is read back: the \<open>n\<close> bytes \<open>rt_snprintf\<close> reports
  are at most ten, and \<open>skip_atoi\<close> on them yields the number and leaves nothing.\<close>

theorem printed_number_reads_back:
  assumes "11 \<le> unat sz" "unat buf + unat sz \<le> 2 ^ 32" "unat buf + 40 < 2 ^ 32"
  shows "\<exists>n m'. rt_snprintf buf sz (map of_char ''%u'') [Slot num] m = Some (n, m') \<and> unat n \<le> 10 \<and>
    m' (buf + n) = 0 \<and> skip_atoi (bytes_at m' buf (unat n)) 0 = (num, [])"
proof -
  let ?t = "digits_of small_digits 10 (unat num)"
  have "unat num < 2 ^ 32" using unsigned_less [where 'a = nat, of num] by simp
  then have len: "length ?t \<le> 10" using digits_of_length [of "unat num" 10] by simp
  have "unat buf + length ?t + length (map of_char ''%u'' :: u8 list) + 20 < 2 ^ 32" "0 < sz" "length ?t < unat sz"
    using assms len by (simp_all add: word_less_nat_alt)
  from rt_vsnprintf_text [OF fmt_text_u this(2) assms(2) this(1), of m] this(3)
  obtain n where n: "rt_snprintf buf sz (map of_char ''%u'') [Slot num] m = Some (n, store_bytes buf (take (unat sz - 1) ?t @ [0]) m)"
    "unat n = length ?t" by (auto simp: rt_snprintf_def)
  have tk: "take (unat sz - 1) ?t = ?t" using assms(1) len by simp
  have "bytes_at (store_bytes buf (?t @ [0]) m) buf (length ?t) = ?t"
    using len by (intro nth_equalityI) (simp_all add: store_bytes_def unat_of_nat nth_append)
  moreover have "store_bytes buf (?t @ [0]) m (buf + n) = 0" using n(2) by (simp add: store_bytes_def)
  ultimately show ?thesis using n(1) [unfolded tk] n(2) len skip_atoi_digits [of "unat num" "[]" 0] by simp
qed

theorem printed_number_reads_back_witness:
  "\<exists>n m'. rt_snprintf 0x20000000 16 (map of_char ''%u'') [Slot 4294967295] (\<lambda>_. 0) = Some (n, m') \<and> unat n \<le> 10 \<and>
    m' (0x20000000 + n) = 0 \<and> skip_atoi (bytes_at m' 0x20000000 (unat n)) 0 = (4294967295, [])"
  by (rule printed_number_reads_back) simp_all

text \<open>The byte strings of the witnesses.\<close>

definition demo_fmt :: "u8 list" where "demo_fmt = map of_char ''%-5d|%.4s|%.3x''"

definition demo_args :: "va_arg list" where "demo_args = [Slot (- 42), Str None, Slot 10]"

lemma demo_fmt_text: "fmt_text demo_fmt demo_args = Some (map of_char ''-42  |(NUL|00a'')"
  by (simp add: demo_fmt_def demo_args_def directive_text_def fmt_width_def fmt_precision_def isdigit_def fmt_qualifier_def conv_text_def int_conversion_def
      number_text_def field_text_def int_arg_def Let_def digits_of.simps small_digits_def) (simp add: eval_nat_numeral)

theorem rt_vsnprintf_refines_witness:
  "\<exists>n. rt_vsnprintf 0x20000000 8 demo_fmt demo_args (\<lambda>_. 1) = Some (n, store_bytes 0x20000000 (map of_char ''-42  |('' @ [0]) (\<lambda>_. 1)) \<and> 8 \<le> unat n"
  using rt_vsnprintf_refines [OF demo_fmt_text, of 8 "0x20000000" "\<lambda>_. 1"] by (simp add: demo_fmt_def)

theorem rt_snprintf_size_zero_unbounded_witness:
  "rt_snprintf 0x20000000 0 demo_fmt demo_args (\<lambda>_. 1) = Some (14, store_bytes 0x20000000 (map of_char ''-42  |(NUL|00a'' @ [0]) (\<lambda>_. 1))"
  using rt_snprintf_size_zero_unbounded [OF demo_fmt_text, of "0x20000000" "\<lambda>_. 1"] by (simp add: demo_fmt_def)


section \<open>The console\<close>

lemma rt_kprintf_write:
  assumes "fmt_text fmt args = Some t" "unat rt_log_buf + length t + length fmt + 128 < 2 ^ 32"
  shows "\<exists>m'. rt_kprintf ops rt_log_buf fmt args m (Some d) =
    map_option (\<lambda>(r, d). (m', Some d))
      (console_write ops (unat rt_log_buf) (if length t \<le> 126 then t else take 126 t @ [0]) d)"
proof -
  obtain n where n: "rt_vsnprintf rt_log_buf 127 fmt args m = Some (n, store_bytes rt_log_buf (take 126 t @ [0]) m)"
    "if length t < 127 then unat n = length t else 127 \<le> unat n"
    using rt_vsnprintf_text [OF assms(1), of 127 rt_log_buf m] assms(2) by (auto cong: if_cong)
  let ?n = "if 127 < n then 127 else n"
  have u: "unat ?n = min 127 (length t)" using n(2) by (auto simp: word_less_nat_alt split: if_splits)
  have "bytes_at (store_bytes rt_log_buf (take 126 t @ [0]) m) rt_log_buf (unat ?n) = (if length t \<le> 126 then t else take 126 t @ [0])"
    unfolding u by (subst bytes_at_stored) auto
  then show ?thesis using n(1) by (auto simp: rt_kprintf_def Let_def)
qed

text \<open>\<open>rt_kprintf\<close> calls the write operation of the open console device once, with the stream flag set, and puts the old
  flags back. What it hands over is the formatted text if that has at most 126 bytes. A longer text is cut off after 126
  bytes, and the terminating NUL goes to the device as a byte of its own, for the length is adjusted to 127.\<close>

theorem rt_kprintf_output:
  assumes "fmt_text fmt args = Some t" "unat rt_log_buf + length t + length fmt + 128 < 2 ^ 32"
    and "dev_ref_count d \<noteq> 0" "op_write ops = Some f"
    and "f (unat rt_log_buf) (if length t \<le> 126 then t else take 126 t @ [0]) (d\<lparr>dev_open_flag := dev_open_flag d OR 0x40\<rparr>) = Some (Ret k, bs, d')"
  shows "\<exists>m'. rt_kprintf ops rt_log_buf fmt args m (Some d) = Some (m', Some (d'\<lparr>dev_open_flag := dev_open_flag d\<rparr>))"
proof -
  have "console_write ops (unat rt_log_buf) (if length t \<le> 126 then t else take 126 t @ [0]) d = Some (Ret k, d'\<lparr>dev_open_flag := dev_open_flag d\<rparr>)"
    using assms(3-5) by (simp add: console_write_def rt_device_write_def Let_def)
  then show ?thesis using rt_kprintf_write [OF assms(1,2), of ops m d] by auto
qed

definition demo_console :: rt_device where
  "demo_console = \<lparr>kern = demo_kernel, dev_id = 0, dev_type = 0, dev_flag = 0, dev_open_flag = 0xb, dev_ref_count = 1,
     dev_rx_indicate = None, dev_tx_complete = None\<rparr>"

text \<open>A driver that accepts one particular write only.\<close>

definition demo_sink :: "u8 list \<Rightarrow> rt_device device_ops" where
  "demo_sink expected = \<lparr>op_init = None, op_open = None, op_close = None, op_read = None,
     op_write = Some (\<lambda>pos data d. if data = expected \<and> dev_open_flag d = 0x4b then Some (Ret (length data), data, d) else None),
     op_control = None\<rparr>"

lemma fmt_text_plain: "fmt_text (replicate n 97) args = Some (replicate n 97)"
  by (induction n) simp_all

theorem rt_kprintf_output_witness:
  "\<exists>m'. rt_kprintf (demo_sink (replicate 126 97 @ [0])) 0x20000000 (replicate 130 97) [] (\<lambda>_. 0) (Some demo_console) = Some (m', Some demo_console)"
proof -
  let ?f = "\<lambda>pos data (d :: rt_device). if data = replicate 126 97 @ [0] \<and> dev_open_flag d = 0x4b then Some (Ret (length data), data, d) else None"
  have "\<exists>m'. rt_kprintf (demo_sink (replicate 126 97 @ [0])) 0x20000000 (replicate 130 97) [] (\<lambda>_. 0) (Some demo_console) =
      Some (m', Some (demo_console\<lparr>dev_open_flag := 0x4b, dev_open_flag := dev_open_flag demo_console\<rparr>))"
    by (rule rt_kprintf_output [OF fmt_text_plain, where f = ?f and k = 127 and bs = "replicate 126 97 @ [0]"])
      (simp_all add: demo_console_def demo_sink_def)
  then show ?thesis by (simp add: demo_console_def)
qed

end
