(* ===== verification/Mem_Align.thy ===== *)
theory Mem_Align
  imports Mem Kservice_Mem
begin

text \<open>
  The services of \<open>src/kservice.c\<close> over the heap: aligned allocation, which hides the address of the
  block in the word before the aligned address, and the duplication of a string. Addresses are 32-bit
  words here, as the code computes with their bits.
\<close>

section \<open>Operations\<close>

text \<open>The bytes of the heap as memory, and a pointer stored in it.\<close>

definition heap_bytes :: "heap \<Rightarrow> memory" where
  "heap_bytes h = (\<lambda>a. hdata h (unat a))"

definition set_heap_bytes :: "memory \<Rightarrow> heap \<Rightarrow> heap" where
  "set_heap_bytes m h = h\<lparr>hdata := (\<lambda>a. if a < 2 ^ 32 then m (of_nat a) else hdata h a)\<rparr>"

definition rt_malloc_align :: "u32 \<Rightarrow> u32 \<Rightarrow> heap \<Rightarrow> (u32 option \<times> heap) option" where
  "rt_malloc_align sz align h =
     (let align = (align + 3) AND NOT 3;
          align_size = ((sz + 3) AND NOT 3) + align
      in case rt_malloc (unat align_size) h of
           None \<Rightarrow> None
         | Some (None, h) \<Rightarrow> Some (None, h)
         | Some (Some p, h) \<Rightarrow>
             let ptr = of_nat p :: u32;
                 align_ptr = (if ptr AND (align - 1) = 0 then ptr + align else (ptr + (align - 1)) AND NOT (align - 1))
             in Some (Some align_ptr, set_heap_bytes (store32 (align_ptr - 4) ptr (heap_bytes h)) h))"

definition rt_free_align :: "u32 \<Rightarrow> heap \<Rightarrow> heap" where
  "rt_free_align ptr h =
     (let real_ptr = load32 (heap_bytes h) (ptr - 4) in rt_free (if real_ptr = 0 then None else Some (unat real_ptr)) h)"

definition rt_strdup :: "u32 \<Rightarrow> heap \<Rightarrow> (u32 option \<times> heap) option" where
  "rt_strdup s h =
     (case rt_strlen (heap_bytes h) s of
        None \<Rightarrow> None
      | Some l \<Rightarrow>
          let len = l + 1
          in case rt_malloc (unat len) h of
               None \<Rightarrow> None
             | Some (None, h) \<Rightarrow> Some (None, h)
             | Some (Some p, h) \<Rightarrow>
                 let tmp = of_nat p :: u32 in Some (Some tmp, set_heap_bytes (rt_memcpy tmp s len (heap_bytes h)) h))"

section \<open>The heap's headers do not depend on its bytes\<close>

lemma set_heap_bytes_simps [simp]:
  "heap_ptr (set_heap_bytes m h) = heap_ptr h" "heap_end (set_heap_bytes m h) = heap_end h" "lfree (set_heap_bytes m h) = lfree h"
  "mem_size_aligned (set_heap_bytes m h) = mem_size_aligned h" "used_mem (set_heap_bytes m h) = used_mem h"
  "hmem (set_heap_bytes m h) = hmem h" "heap_bytes (set_heap_bytes m h) = m"
  using unsigned_less [where 'a = nat and 'b = 32] by (simp_all add: set_heap_bytes_def heap_bytes_def fun_eq_iff)

lemma heap_inv_bytes [simp]: "heap_inv (set_heap_bytes m h) bs \<longleftrightarrow> heap_inv h bs"
  by (simp add: heap_inv_def heap_shape_def)

lemma load_store32: "load32 (store32 a w m) a = w"
proof -
  have "a + 1 \<noteq> a" "a + 2 \<noteq> a" "a + 3 \<noteq> a" "a + 2 \<noteq> a + 1" "a + 3 \<noteq> a + 1" "a + 3 \<noteq> a + 2" by simp_all
  then have b: "store32 a w m a = ucast w" "store32 a w m (a + 1) = ucast (drop_bit 8 w)" "store32 a w m (a + 2) = ucast (drop_bit 16 w)"
    "store32 a w m (a + 3) = ucast (drop_bit 24 w)" by (simp_all add: store32_def)
  show ?thesis unfolding load32_def b
  proof (rule bit_word_eqI)
    fix n
    assume "n < LENGTH(32)"
    then consider "n < 8" | "8 \<le> n" "n < 16" | "16 \<le> n" "n < 24" | "24 \<le> n" "n < 32" by fastforce
    then show "bit (ucast (ucast w :: u8) OR push_bit 8 (ucast (ucast (drop_bit 8 w) :: u8)) OR push_bit 16 (ucast (ucast (drop_bit 16 w) :: u8)) OR
        push_bit 24 (ucast (ucast (drop_bit 24 w) :: u8)) :: u32) n = bit w n"
      by cases (auto simp: bit_unsigned_iff bit_drop_bit_eq bit_push_bit_iff bit_or_iff)
  qed
qed

lemma plug_bytes:
  "plug_forward mem (h\<lparr>hdata := x\<rparr>) = (plug_forward mem h)\<lparr>hdata := x\<rparr>"
  "plug_backward mem (h\<lparr>hdata := x\<rparr>) = (plug_backward mem h)\<lparr>hdata := x\<rparr>"
  by (cases h, simp add: plug_forward_def plug_backward_def upd_mem_def Let_def)+

lemma upd_bytes:
  "upd_mem p g (h\<lparr>hdata := x\<rparr>) = (upd_mem p g h)\<lparr>hdata := x\<rparr>" "h\<lparr>hdata := x, lfree := l\<rparr> = h\<lparr>lfree := l, hdata := x\<rparr>"
  "h\<lparr>hdata := x, used_mem := u\<rparr> = h\<lparr>used_mem := u, hdata := x\<rparr>"
  by (cases h, simp add: upd_mem_def)+

lemma rt_free_bytes: "rt_free p (h\<lparr>hdata := x\<rparr>) = (rt_free p h)\<lparr>hdata := x\<rparr>"
  by (cases p) (simp_all add: rt_free_def plug_holes_def plug_bytes upd_bytes Let_def)

lemma rt_free_set_bytes: "\<exists>x. rt_free p (set_heap_bytes m h) = (rt_free p h)\<lparr>hdata := x\<rparr>"
  unfolding set_heap_bytes_def rt_free_bytes by blast

section \<open>Alignment\<close>

lemma unat_pow2: "k < 32 \<Longrightarrow> unat (2 ^ k :: u32) = 2 ^ k"
proof -
  assume "k < 32"
  then have "(2 :: nat) ^ k < 2 ^ 32" by (intro power_strict_increasing) auto
  then have "unat (of_nat (2 ^ k) :: u32) = 2 ^ k" by (simp only: unat_of_nat) simp
  then show ?thesis by simp
qed

lemma unat_align_down:
  fixes x :: u32
  assumes "k < 32"
  shows "unat (x AND NOT (mask k)) = unat x div 2 ^ k * 2 ^ k"
proof -
  have "x AND NOT (mask k) = push_bit k (drop_bit k x)"
    by (rule bit_word_eqI) (auto simp: bit_simps)
  also have "\<dots> = drop_bit k x * 2 ^ k" by (simp add: push_bit_eq_mult)
  finally have "unat (x AND NOT (mask k)) = unat (drop_bit k x) * unat (2 ^ k :: u32) mod 2 ^ 32"
    by (simp only: unat_word_ariths) simp
  moreover have "unat (drop_bit k x) = unat x div 2 ^ k" 
    using unsigned_less [where 'a = nat, of x] by (simp only: unsigned_drop_bit_eq) (simp add: drop_bit_eq_div take_bit_nat_eq_self)
  moreover have "unat x div 2 ^ k * 2 ^ k < 2 ^ 32"
    using unsigned_less [where 'a = nat, of x] by (intro le_less_trans [OF div_times_less_eq_dividend]) simp
  ultimately show ?thesis by (simp add: unat_pow2 [OF assms])
qed

lemma unat_and_mask: "unat (x AND mask k) = unat x mod 2 ^ k" for x :: u32
proof -
  have "unat (take_bit k x) = take_bit k (unat x)" by (rule unsigned_take_bit_eq)
  then show ?thesis unfolding take_bit_eq_mask [of k x] take_bit_eq_mod [of k "unat x"] .
qed

text \<open>The address the code computes: the next multiple of the alignment behind the start of the block.\<close>

lemma next_multiple:
  fixes p a :: nat
  assumes "4 dvd p" "4 dvd a" "0 < a" "p mod a \<noteq> 0"
  defines "q \<equiv> (p + (a - 1)) div a * a"
  shows "a dvd q" "p + 4 \<le> q" "q \<le> p + a"
proof -
  have r: "0 < p mod a" "p mod a < a" using assms(3,4) by auto
  have "p = p div a * a + p mod a" by simp
  then have "p + (a - 1) = (p div a * a + a) + (p mod a - 1)" using r by linarith
  then have "p + (a - 1) = (p div a + 1) * a + (p mod a - 1)" by (simp add: algebra_simps)
  moreover have "p mod a - 1 < a" using assms(3) by (meson less_imp_diff_less mod_less_divisor)
  ultimately have "(p + (a - 1)) div a = p div a + 1" using assms(3) by (simp only: div_mult_self3 div_less)
  then have q: "q = p - p mod a + a" by (simp add: q_def minus_mod_eq_div_mult)
  then show "q \<le> p + a" by simp
  show "a dvd q" by (simp add: q_def)
  have "4 dvd q - p" using assms(1,2) unfolding q_def by (auto intro: dvd_diff_nat)
  moreover have "p < q" using q r(2) mod_less_eq_dividend [of p a] by linarith
  ultimately show "p + 4 \<le> q" by (auto dest: dvd_imp_le)
qed


lemma align_ptr_next:
  fixes ptr :: u32
  assumes "2 \<le> k" "k < 32" "4 dvd unat ptr" "unat ptr + 2 ^ k < 2 ^ 32"
  defines "q \<equiv> (if ptr AND (2 ^ k - 1) = 0 then ptr + 2 ^ k else (ptr + (2 ^ k - 1)) AND NOT (2 ^ k - 1))"
  shows "2 ^ k dvd unat q" "unat ptr + 4 \<le> unat q" "unat q \<le> unat ptr + 2 ^ k"
proof -
  have m: "(2 ^ k - 1 :: u32) = mask k" by (simp add: mask_eq_exp_minus_1)
  have mk: "(mask k :: u32) = of_nat (2 ^ k - 1)" using m by (simp add: of_nat_diff)
  have up: "unat (ptr + 2 ^ k) = unat ptr + 2 ^ k" using unat_off [of ptr "2 ^ k"] assms(4) by simp
  have four: "4 dvd (2 ^ k :: nat)" using le_imp_power_dvd [OF assms(1), of "2 :: nat"] by simp
  then have four_le: "4 \<le> (2 ^ k :: nat)" by (intro dvd_imp_le) simp_all
  have c: "ptr AND mask k = 0 \<longleftrightarrow> unat ptr mod 2 ^ k = 0" using unat_and_mask [of ptr k] by (metis unat_eq_zero)
  have "2 ^ k dvd unat q \<and> unat ptr + 4 \<le> unat q \<and> unat q \<le> unat ptr + 2 ^ k"
  proof (cases "unat ptr mod 2 ^ k = 0")
    case True
    then have "unat q = unat ptr + 2 ^ k" using c up unfolding q_def m by simp
    then show ?thesis using True four_le by (auto simp: dvd_eq_mod_eq_0 mod_add_left_eq)
  next
    case False
    have "unat (ptr + mask k) = unat ptr + (2 ^ k - 1)" unfolding mk using assms(4) by (intro unat_off) simp
    then have "unat q = (unat ptr + (2 ^ k - 1)) div 2 ^ k * 2 ^ k"
      using False c unat_align_down [OF assms(2), of "ptr + mask k"] unfolding q_def m by simp
    then show ?thesis using next_multiple [OF assms(3) four _ False] by simp
  qed
  then show "2 ^ k dvd unat q" "unat ptr + 4 \<le> unat q" "unat q \<le> unat ptr + 2 ^ k" by blast+
qed

lemma align4_word:
  fixes x :: u32
  assumes "unat x + 3 < 2 ^ 32"
  shows "unat ((x + 3) AND NOT 3) = (unat x + 3) div 4 * 4"
proof -
  have "(3 :: u32) = mask 2" by (simp add: mask_eq_exp_minus_1)
  then have "unat ((x + 3) AND NOT 3) = unat (x + 3) div 2 ^ 2 * 2 ^ 2" using unat_align_down [of 2 "x + 3"] by simp
  moreover have "unat (x + 3) = unat x + 3" using unat_off [of x 3] assms by simp
  ultimately show ?thesis by simp
qed

lemma align4_pow2:
  assumes "2 \<le> k" "k < 32"
  shows "((2 ^ k :: u32) + 3) AND NOT 3 = 2 ^ k"
proof -
  have "4 dvd (2 ^ k :: nat)" using le_imp_power_dvd [OF assms(1), of "2 :: nat"] by simp
  then obtain c where c: "(2 ^ k :: nat) = 4 * c" by blast
  have "k \<le> 31" using assms(2) by simp
  then have "(2 :: nat) ^ k \<le> 2 ^ 31" by (rule power_increasing) simp
  then have "unat (2 ^ k :: u32) + 3 < 2 ^ 32" by (simp add: unat_pow2 [OF assms(2)])
  then have "unat (((2 ^ k :: u32) + 3) AND NOT 3) = 2 ^ k" using align4_word [of "2 ^ k"] c by (simp add: unat_pow2 [OF assms(2)])
  then show ?thesis by (simp only: word_unat_eq_iff unat_pow2 [OF assms(2)])
qed

section \<open>Properties\<close>

lemma heap_inv_hdata: "heap_inv (h\<lparr>hdata := x\<rparr>) bs \<longleftrightarrow> heap_inv h bs"
  by (simp add: heap_inv_def heap_shape_def)

lemma store32_other: "(\<And>i. i < 4 \<Longrightarrow> x \<noteq> a + of_nat i) \<Longrightarrow> store32 a w m x = m x"
proof -
  assume n: "\<And>i. i < 4 \<Longrightarrow> x \<noteq> a + of_nat i"
  show ?thesis using n [of 0] n [of 1] n [of 2] n [of 3] by (simp add: store32_def)
qed

lemma word_within:
  fixes q :: u32
  assumes "4 \<le> unat q" "i < 4"
  shows "unat (q - 4 + of_nat i) = unat q - 4 + i"
proof -
  have "unat (q - 4) = unat q - 4" using assms(1) by (simp add: unat_sub word_le_nat_alt)
  moreover have "unat q < 2 ^ 32" using unsigned_less [where 'a = nat, of q] by simp
  ultimately show ?thesis using unat_off [of "q - 4" i] assms by simp
qed

text \<open>The block an allocation of \<open>n\<close> bytes takes, as the facts the clients of the heap need.\<close>

lemma malloc_block:
  assumes "heap_inv h bs" "0 < n" "n + 3 < 2 ^ 32" "12 \<le> mem_size_aligned h" "rt_malloc n h = Some (Some p, h')"
  obtains s m bs' where "p = heap_ptr h + s + 12" "heap_inv h' bs'" "hdata h' = hdata h" "live bs' = insert (s, m) (live bs)"
    "p + n \<le> heap_ptr h + m" "m \<le> heap_end h" "4 dvd s" "\<forall>(s', m') \<in> live bs. m' \<le> s \<or> m \<le> s'"
proof -
  have al: "align_up4 n \<le> mem_size_aligned h" using assms(2,5) by (auto simp: rt_malloc_def Let_def split: if_splits)
  let ?F = "find (\<lambda>(s, e, u). \<not> u \<and> max 12 (align_up4 n) \<le> e - (s + 12) \<and> s < mem_size_aligned h - max 12 (align_up4 n)) bs"
  note fit = rt_malloc_fit [OF assms(1-4) al]
  show thesis
  proof (cases ?F)
    case None
    then show thesis using fit assms(5) by simp
  next
    case (Some b)
    then obtain s e u where "?F = Some (s, e, u)" by (cases b) auto
    then show thesis using fit assms(5) that by auto
  qed
qed

text \<open>C25. \<open>rt_malloc_align\<close> with a power of two of at least four returns an aligned address with \<open>sz\<close> bytes behind it, all inside
  one new block of the heap that overlaps no block in use; it writes inside that block only; and \<open>rt_free_align\<close> of the
  address finds the block again and gives it back: the heap has the blocks it had before.\<close>

theorem rt_malloc_align_roundtrip:
  assumes "heap_inv h bs" "12 \<le> mem_size_aligned h" "4 dvd heap_ptr h" "0 < heap_ptr h" "heap_ptr h + heap_end h < 2 ^ 32"
    and "2 \<le> k" "k < 32" "unat sz + 2 ^ k + 6 < 2 ^ 32" "rt_malloc_align sz (2 ^ k) h = Some (Some q, h')"
  shows "2 ^ k dvd unat q \<and>
    (\<exists>s m bs'. heap_inv h' bs' \<and> live bs' = insert (s, m) (live bs) \<and> (\<forall>(s', m') \<in> live bs. m' \<le> s \<or> m \<le> s') \<and>
       heap_ptr h + s + 12 < unat q \<and> unat q + unat sz \<le> heap_ptr h + m \<and> m \<le> heap_end h \<and>
       (\<forall>a. a < heap_ptr h + s + 12 \<or> heap_ptr h + m \<le> a \<longrightarrow> hdata h' a = hdata h a)) \<and>
    heap_inv (rt_free_align q h') bs"
proof -
  let ?n = "(unat sz + 3) div 4 * 4 + 2 ^ k"
  have sz: "unat sz \<le> (unat sz + 3) div 4 * 4" "(unat sz + 3) div 4 * 4 \<le> unat sz + 3" by presburger+
  have "unat (((sz + 3) AND NOT 3) + 2 ^ k) = ?n"
    using unat_off [of "(sz + 3) AND NOT 3" "2 ^ k"] align4_word [of sz] assms(8) sz(2) by simp
  then obtain p h1 where al: "rt_malloc ?n h = Some (Some p, h1)"
    and q: "q = (if of_nat p AND (2 ^ k - 1) = (0 :: u32) then of_nat p + 2 ^ k else (of_nat p + (2 ^ k - 1)) AND NOT (2 ^ k - 1))"
    and h': "h' = set_heap_bytes (store32 (q - 4) (of_nat p) (heap_bytes h1)) h1"
    using assms(9) unfolding rt_malloc_align_def align4_pow2 [OF assms(6,7)] Let_def by (auto split: option.splits)
  have n: "0 < ?n" "?n + 3 < 2 ^ 32" using assms(8) sz(2) by auto
  obtain s m bs' where b: "p = heap_ptr h + s + 12" "heap_inv h1 bs'" "hdata h1 = hdata h" "live bs' = insert (s, m) (live bs)"
    "p + ?n \<le> heap_ptr h + m" "m \<le> heap_end h" "4 dvd s" "\<forall>(s', m') \<in> live bs. m' \<le> s \<or> m \<le> s'"
    using malloc_block [OF assms(1) n assms(2) al] by blast
  have p32: "p + ?n < 2 ^ 32" using b(5,6) assms(5) by simp
  then have up: "unat (of_nat p :: u32) = p" by (simp add: unat_of_nat)
  have "4 dvd p" using b(1,7) assms(3) by (simp add: dvd_add_left_iff)
  then have qs: "2 ^ k dvd unat q" "p + 4 \<le> unat q" "unat q \<le> p + 2 ^ k"
    using align_ptr_next [OF assms(6,7), of "of_nat p"] p32 unfolding up q by simp_all
  have same: "hdata h' a = hdata h a" if "a < p \<or> heap_ptr h + m \<le> a" for a
  proof (cases "a < 2 ^ 32")
    case True
    then have "(of_nat a :: u32) \<noteq> q - 4 + of_nat i" if "i < 4" for i
      using \<open>a < p \<or> _\<close> word_within [OF _ that, of q] that qs(2,3) b(5) by (auto simp: unat_of_nat dest!: arg_cong [where f = unat])
    then show ?thesis using store32_other [of "of_nat a" "q - 4" "of_nat p" "heap_bytes h1"] True b(3) h'
      by (simp add: set_heap_bytes_def heap_bytes_def unat_of_nat)
  qed (use b(3) h' in \<open>simp add: set_heap_bytes_def\<close>)
  have nz: "(of_nat p :: u32) \<noteq> 0" using up b(1) assms(4) by auto
  have "rt_free_align q h' = rt_free (Some p) h'" using h' nz by (simp add: rt_free_align_def Let_def load_store32 up)
  moreover have "heap_inv (rt_free (Some p) h1) bs" using rt_free_malloc [OF assms(1) n(1) assms(2) al] by blast
  ultimately have "heap_inv (rt_free_align q h') bs"
    using rt_free_set_bytes [of "Some p" _ h1] h' by (metis heap_inv_hdata)
  then show ?thesis using qs b same sz(1) h' by (intro conjI exI [of _ s] exI [of _ m] exI [of _ bs']) auto
qed


theorem rt_malloc_align_roundtrip_witness:
  "\<exists>q h'. rt_malloc_align 50 32 demo_heap = Some (Some q, h') \<and> 32 dvd unat q \<and> heap_inv (rt_free_align q h') [(0, 988, False)]"
proof -
  have f: "find (fits 976 (request 84)) [(0, 988, False)] = Some (0, 988, False)" by (simp add: request_def align_up4_def)
  have "\<exists>h1. rt_malloc 84 demo_heap = Some (Some 536870924, h1)"
    using rt_malloc_spec [OF demo_heap(1), of 84] unfolding demo_heap f by (auto simp: align_up4_def)
  then obtain q h' where a: "rt_malloc_align 50 32 demo_heap = Some (Some q, h')" by (auto simp: rt_malloc_align_def Let_def)
  then show ?thesis using rt_malloc_align_roundtrip [OF demo_heap(1), of 5 50 q h'] by (auto simp: demo_heap)
qed


text \<open>\<open>rt_strdup\<close> of a string outside the heap or in a block in use: if there is memory, a new block holds the same string, and the
  original is as it was.\<close>

lemma rt_strdup_copies:
  assumes "heap_inv h bs" "12 \<le> mem_size_aligned h" "heap_ptr h + heap_end h < 2 ^ 32"
    and "cstr (heap_bytes h) s xs" "length xs + 4 < 2 ^ 32" "unat s + length xs + 1 < 2 ^ 32"
    and "unat s + length xs < heap_ptr h \<or> heap_ptr h + heap_end h \<le> unat s \<or>
      (\<exists>(s', m') \<in> live bs. heap_ptr h + s' \<le> unat s \<and> unat s + length xs < heap_ptr h + m')"
    and "rt_strdup s h = Some (Some q, h')"
  shows "cstr (heap_bytes h') q xs \<and> cstr (heap_bytes h') s xs"
proof -
  let ?n = "Suc (length xs)"
  have len: "unat (of_nat (length xs) + 1 :: u32) = ?n" using unat_off [of "of_nat (length xs)" 1] assms(5) by (simp add: unat_of_nat)
  obtain p h1 where al: "rt_malloc ?n h = Some (Some p, h1)" and q: "q = of_nat p"
    and h': "h' = set_heap_bytes (rt_memcpy q s (of_nat (length xs) + 1) (heap_bytes h1)) h1"
    using assms(8) by (auto simp: rt_strdup_def rt_strlen_cstr [OF assms(4)] Let_def len split: option.splits)
  have n: "0 < ?n" "?n + 3 < 2 ^ 32" using assms(5) by auto
  obtain s0 m where b: "p = heap_ptr h + s0 + 12" "hdata h1 = hdata h" "p + ?n \<le> heap_ptr h + m" "m \<le> heap_end h"
    "\<forall>(s', m') \<in> live bs. m' \<le> s0 \<or> m \<le> s'"
    using malloc_block [OF assms(1) n assms(2) al] by blast
  have up: "unat q = p" using q b(3,4) assms(3) by (simp add: unat_of_nat)
  have apart: "p + ?n \<le> unat s \<or> unat s + ?n \<le> p" using assms(7) b(1,3,4,5) by fastforce
  have m: "heap_bytes h1 = heap_bytes h" using b(2) by (simp add: heap_bytes_def)
  have src: "bytes_at (heap_bytes h) s ?n = xs @ [0]" "0 \<notin> set xs" using cstr_bytes_at_all [OF assms(4)] by auto
  have "rt_memcpy q s (of_nat (length xs) + 1) (heap_bytes h) = store_bytes q (xs @ [0]) (heap_bytes h)"
    using rt_memcpy_apart [of s "of_nat (length xs) + 1" q] apart assms(3,6) b(3,4) src(1) by (simp add: len up)
  then have bytes: "heap_bytes h' = store_bytes q (xs @ [0]) (heap_bytes h)" using h' m by simp
  have "bytes_at (heap_bytes h') q ?n = xs @ [0]" unfolding bytes using bytes_at_stored [of "xs @ [0]" ?n] assms(5) by simp
  moreover have "bytes_at (heap_bytes h') s ?n = xs @ [0]"
  proof -
    have "\<not> unat (s + of_nat i - q) < ?n" if "i < ?n" for i
    proof
      let ?j = "unat (s + of_nat i - q)"
      assume "?j < ?n"
      moreover have "s + of_nat i = q + of_nat ?j" by simp
      moreover have "unat (s + of_nat i) = unat s + i" using that assms(6) by (intro unat_off) simp
      ultimately show False using apart that unat_off [of q ?j] up b(3,4) assms(3) by simp
    qed
    then have "heap_bytes h' (s + of_nat i) = heap_bytes h (s + of_nat i)" if "i < ?n" for i
      using that unfolding bytes store_bytes_def by simp
    then show ?thesis using src(1) bytes_at_cong [of ?n "heap_bytes h'" s "heap_bytes h"] by simp
  qed
  ultimately show ?thesis using src(2) by (simp add: cstr_iff_bytes)
qed

end
