(* ===== verification/Memheap.thy ===== *)
theory Memheap
  imports Mem Rt_List Allocator
begin

text \<open>
  The memory heaps of \<open>src/memheap.c\<close>: a pool of memory, here the core-coupled memory, cut into
  blocks with a header each. The headers are linked twice: all of them, in the order of their
  addresses, in a ring through the tailer block, and the free ones in a ring through the free list
  header. Addresses and sizes are numbers below \<open>2 ^ 32\<close>, null is 0; where the C arithmetic can wrap,
  the wrap is written out. A header is indexed by its address and the bytes behind it are separate. The
  semaphore around each operation is left out, an operation is one step; registration as a kernel
  object is that of \<open>Object\<close>. \<open>None\<close> is a failed assertion, a block of another heap, or a walk that does not end.
\<close>

section \<open>State\<close>

record memheap_item =
  mi_magic :: u32
  mi_pool :: nat
  mi_next :: nat
  mi_prev :: nat
  mi_next_free :: nat
  mi_prev_free :: nat

record memheap =
  mh_self :: nat
  mh_start_addr :: nat
  mh_pool_size :: nat
  mh_available_size :: nat
  mh_max_used_size :: nat
  mh_block_list :: nat
  mh_free_list :: nat
  mh_free_header :: nat
  mh_items :: "nat \<Rightarrow> memheap_item"
  mh_data :: "nat \<Rightarrow> u8"

abbreviation (input) RT_MEMHEAP_MAGIC :: u32 where "RT_MEMHEAP_MAGIC \<equiv> 0x1ea01ea0"
abbreviation (input) RT_MEMHEAP_MASK :: u32 where "RT_MEMHEAP_MASK \<equiv> 0xfffffffe"
abbreviation (input) RT_MEMHEAP_USED :: u32 where "RT_MEMHEAP_USED \<equiv> 1"
abbreviation (input) RT_MEMHEAP_MINIALLOC :: nat where "RT_MEMHEAP_MINIALLOC \<equiv> 12"
abbreviation (input) RT_MEMHEAP_SIZE :: nat where "RT_MEMHEAP_SIZE \<equiv> 24"

definition RT_MEMHEAP_IS_USED :: "nat \<Rightarrow> memheap \<Rightarrow> bool" where
  "RT_MEMHEAP_IS_USED i h \<longleftrightarrow> mi_magic (mh_items h i) AND RT_MEMHEAP_USED \<noteq> 0"

definition MEMITEM_SIZE :: "nat \<Rightarrow> memheap \<Rightarrow> nat" where
  "MEMITEM_SIZE i h = sub32 (sub32 (mi_next (mh_items h i)) i) RT_MEMHEAP_SIZE"

definition upd_item :: "nat \<Rightarrow> (memheap_item \<Rightarrow> memheap_item) \<Rightarrow> memheap \<Rightarrow> memheap" where
  "upd_item i g h = h\<lparr>mh_items := (mh_items h)(i := g (mh_items h i))\<rparr>"

section \<open>Operations\<close>

text \<open>The steps on the free list that the operations share, each statement by statement.\<close>

definition free_insert :: "nat \<Rightarrow> memheap \<Rightarrow> memheap" where
  "free_insert i h =
     (let l = mh_free_list h;
          h = upd_item i (\<lambda>m. m\<lparr>mi_next_free := mi_next_free (mh_items h l)\<rparr>) h;
          h = upd_item i (\<lambda>m. m\<lparr>mi_prev_free := l\<rparr>) h;
          h = upd_item (mi_next_free (mh_items h l)) (\<lambda>m. m\<lparr>mi_prev_free := i\<rparr>) h
      in upd_item l (\<lambda>m. m\<lparr>mi_next_free := i\<rparr>) h)"

definition free_unlink :: "nat \<Rightarrow> memheap \<Rightarrow> memheap" where
  "free_unlink i h =
     (let h = upd_item (mi_next_free (mh_items h i)) (\<lambda>m. m\<lparr>mi_prev_free := mi_prev_free (mh_items h i)\<rparr>) h
      in upd_item (mi_prev_free (mh_items h i)) (\<lambda>m. m\<lparr>mi_next_free := mi_next_free (mh_items h i)\<rparr>) h)"

definition free_clear :: "nat \<Rightarrow> memheap \<Rightarrow> memheap" where
  "free_clear i h = upd_item i (\<lambda>m. m\<lparr>mi_next_free := 0, mi_prev_free := 0\<rparr>) h"

text \<open>A new free header \<open>n\<close> behind the header \<open>i\<close> in the block list.\<close>

definition block_split :: "nat \<Rightarrow> nat \<Rightarrow> memheap \<Rightarrow> memheap" where
  "block_split i n h =
     (let h = upd_item n (\<lambda>m. m\<lparr>mi_magic := RT_MEMHEAP_MAGIC, mi_pool := mh_self h\<rparr>) h;
          h = upd_item n (\<lambda>m. m\<lparr>mi_prev := i, mi_next := mi_next (mh_items h i)\<rparr>) h;
          h = upd_item (mi_next (mh_items h i)) (\<lambda>m. m\<lparr>mi_prev := n\<rparr>) h
      in upd_item i (\<lambda>m. m\<lparr>mi_next := n\<rparr>) h)"

definition max_used :: "memheap \<Rightarrow> memheap" where
  "max_used h =
     (if sub32 (mh_pool_size h) (mh_available_size h) > mh_max_used_size h
      then h\<lparr>mh_max_used_size := sub32 (mh_pool_size h) (mh_available_size h)\<rparr> else h)"

definition rt_memheap_init :: "nat \<Rightarrow> nat \<Rightarrow> memheap \<Rightarrow> memheap" where
  "rt_memheap_init start_addr sz h =
     (let h = h\<lparr>mh_start_addr := start_addr, mh_pool_size := align_down4 sz\<rparr>;
          h = h\<lparr>mh_available_size := sub32 (mh_pool_size h) (2 * RT_MEMHEAP_SIZE)\<rparr>;
          h = h\<lparr>mh_max_used_size := sub32 (mh_pool_size h) (mh_available_size h)\<rparr>;
          item = mh_free_header h;
          h = upd_item item (\<lambda>m. \<lparr>mi_magic = RT_MEMHEAP_MAGIC, mi_pool = mh_self h, mi_next = 0, mi_prev = 0,
                mi_next_free = item, mi_prev_free = item\<rparr>) h;
          h = h\<lparr>mh_free_list := item\<rparr>;
          item = start_addr;
          tail = (item + mh_available_size h + RT_MEMHEAP_SIZE) mod 2 ^ 32;
          h = upd_item item (\<lambda>m. \<lparr>mi_magic = RT_MEMHEAP_MAGIC, mi_pool = mh_self h, mi_next = tail, mi_prev = tail,
                mi_next_free = item, mi_prev_free = item\<rparr>) h;
          h = h\<lparr>mh_block_list := item\<rparr>;
          h = free_insert item h
      in upd_item tail (\<lambda>m. \<lparr>mi_magic = RT_MEMHEAP_MAGIC OR RT_MEMHEAP_USED, mi_pool = mh_self h, mi_next = start_addr, mi_prev = start_addr,
           mi_next_free = 0, mi_prev_free = 0\<rparr>) h)"

text \<open>The search on the free list: the header it stops at and the size of the last block it looked at.\<close>

partial_function (option) memheap_find :: "nat \<Rightarrow> nat \<Rightarrow> nat \<Rightarrow> memheap \<Rightarrow> (nat \<times> nat) option" where
  "memheap_find sz p free_size h =
     (if p \<noteq> mh_free_list h \<and> free_size < sz then
        let free_size = MEMITEM_SIZE p h
        in memheap_find sz (if free_size < sz then mi_next_free (mh_items h p) else p) free_size h
      else Some (p, free_size))"

definition memheap_align :: "nat \<Rightarrow> nat" where
  "memheap_align sz = (let sz = align_up4 sz in if sz < RT_MEMHEAP_MINIALLOC then RT_MEMHEAP_MINIALLOC else sz)"

definition memheap_take :: "nat \<Rightarrow> nat \<Rightarrow> nat \<Rightarrow> memheap \<Rightarrow> memheap" where
  "memheap_take p free_size sz h =
     (let h =
        (if free_size \<ge> (sz + RT_MEMHEAP_SIZE + RT_MEMHEAP_MINIALLOC) mod 2 ^ 32 then
           let new_ptr = (p + sz + RT_MEMHEAP_SIZE) mod 2 ^ 32;
               h = block_split p new_ptr h;
               h = free_clear p (free_unlink p h);
               h = free_insert new_ptr h
           in max_used (h\<lparr>mh_available_size := sub32 (sub32 (mh_available_size h) sz) RT_MEMHEAP_SIZE\<rparr>)
         else
           let h = max_used (h\<lparr>mh_available_size := sub32 (mh_available_size h) free_size\<rparr>)
           in free_clear p (free_unlink p h))
      in upd_item p (\<lambda>m. m\<lparr>mi_magic := mi_magic m OR RT_MEMHEAP_USED\<rparr>) h)"

definition rt_memheap_alloc :: "nat \<Rightarrow> memheap \<Rightarrow> (nat option \<times> memheap) option" where
  "rt_memheap_alloc sz h =
     (let sz = memheap_align sz
      in if sz < mh_available_size h then
           map_option (\<lambda>(p, free_size).
               if free_size \<ge> sz then (Some (p + RT_MEMHEAP_SIZE), memheap_take p free_size sz h) else (None, h))
             (memheap_find sz (mi_next_free (mh_items h (mh_free_list h))) 0 h)
         else Some (None, h))"

definition merge_left :: "nat \<Rightarrow> memheap \<Rightarrow> memheap" where
  "merge_left p h =
     (let h = h\<lparr>mh_available_size := (mh_available_size h + RT_MEMHEAP_SIZE) mod 2 ^ 32\<rparr>;
          h = upd_item (mi_prev (mh_items h p)) (\<lambda>m. m\<lparr>mi_next := mi_next (mh_items h p)\<rparr>) h
      in upd_item (mi_next (mh_items h p)) (\<lambda>m. m\<lparr>mi_prev := mi_prev (mh_items h p)\<rparr>) h)"

text \<open>Taking the free right neighbour \<open>n\<close> into the block \<open>p\<close>.\<close>

definition absorb_next :: "nat \<Rightarrow> nat \<Rightarrow> memheap \<Rightarrow> memheap" where
  "absorb_next p n h =
     (let h = upd_item (mi_next (mh_items h n)) (\<lambda>m. m\<lparr>mi_prev := p\<rparr>) h;
          h = upd_item p (\<lambda>m. m\<lparr>mi_next := mi_next (mh_items h n)\<rparr>) h
      in free_unlink n h)"

definition rt_memheap_free :: "nat option \<Rightarrow> memheap \<Rightarrow> memheap option" where
  "rt_memheap_free ptr h =
     (case ptr of
        None \<Rightarrow> Some h
      | Some r \<Rightarrow>
          let p = sub32 r RT_MEMHEAP_SIZE
          in if mi_magic (mh_items h p) AND RT_MEMHEAP_MASK \<noteq> RT_MEMHEAP_MAGIC \<or> \<not> RT_MEMHEAP_IS_USED p h \<or>
                mi_magic (mh_items h (mi_next (mh_items h p))) AND RT_MEMHEAP_MASK \<noteq> RT_MEMHEAP_MAGIC \<or>
                mi_pool (mh_items h p) \<noteq> mh_self h then None
             else
               let h = upd_item p (\<lambda>m. m\<lparr>mi_magic := mi_magic m AND NOT RT_MEMHEAP_USED\<rparr>) h;
                   h = h\<lparr>mh_available_size := (mh_available_size h + MEMITEM_SIZE p h) mod 2 ^ 32\<rparr>;
                   left = \<not> RT_MEMHEAP_IS_USED (mi_prev (mh_items h p)) h;
                   h0 = h;
                   h = (if left then merge_left p h else h);
                   p = (if left then mi_prev (mh_items h0 p) else p);
                   n = mi_next (mh_items h p);
                   h = (if \<not> RT_MEMHEAP_IS_USED n h
                        then absorb_next p n (h\<lparr>mh_available_size := (mh_available_size h + RT_MEMHEAP_SIZE) mod 2 ^ 32\<rparr>) else h)
               in Some (if left then h else free_insert p h))"

definition block_unlink :: "nat \<Rightarrow> memheap \<Rightarrow> memheap" where
  "block_unlink i h =
     (let h = upd_item (mi_next (mh_items h i)) (\<lambda>m. m\<lparr>mi_prev := mi_prev (mh_items h i)\<rparr>) h
      in upd_item (mi_prev (mh_items h i)) (\<lambda>m. m\<lparr>mi_next := mi_next (mh_items h i)\<rparr>) h)"

text \<open>The part of \<open>rt_memheap_realloc\<close> that grows a block in place into the free block behind it, and the one that cuts
  a block and frees the rest.\<close>

definition realloc_grow :: "nat \<Rightarrow> nat \<Rightarrow> nat \<Rightarrow> nat \<Rightarrow> memheap \<Rightarrow> memheap" where
  "realloc_grow p nx oldsize newsize h =
     (let h = max_used (h\<lparr>mh_available_size := sub32 (mh_available_size h) (sub32 newsize oldsize)\<rparr>);
          h = free_unlink nx h;
          h = block_unlink nx h;
          n = (p + RT_MEMHEAP_SIZE + newsize) mod 2 ^ 32
      in free_insert n (block_split p n h))"

definition realloc_cut :: "nat \<Rightarrow> nat \<Rightarrow> memheap \<Rightarrow> memheap" where
  "realloc_cut p newsize h =
     (let n = (p + newsize + RT_MEMHEAP_SIZE) mod 2 ^ 32;
          h = block_split p n h;
          f = mi_next (mh_items h n);
          h = (if \<not> RT_MEMHEAP_IS_USED f h
               then absorb_next n f (h\<lparr>mh_available_size := sub32 (mh_available_size h) (MEMITEM_SIZE f h)\<rparr>) else h);
          h = free_insert n h
      in h\<lparr>mh_available_size := (mh_available_size h + MEMITEM_SIZE n h) mod 2 ^ 32\<rparr>)"

definition memheap_copy :: "nat \<Rightarrow> nat \<Rightarrow> nat \<Rightarrow> memheap \<Rightarrow> memheap" where
  "memheap_copy dst src n h = h\<lparr>mh_data := (\<lambda>a. if dst \<le> a \<and> a < dst + n then mh_data h (src + (a - dst)) else mh_data h a)\<rparr>"

definition rt_memheap_realloc :: "nat option \<Rightarrow> nat \<Rightarrow> memheap \<Rightarrow> (nat option \<times> memheap) option" where
  "rt_memheap_realloc ptr newsize h =
     (if newsize = 0 then map_option (\<lambda>h. (None, h)) (rt_memheap_free ptr h)
      else
        let newsize = memheap_align newsize
        in case ptr of
             None \<Rightarrow> rt_memheap_alloc newsize h
           | Some r \<Rightarrow>
               let p = sub32 r RT_MEMHEAP_SIZE;
                   oldsize = MEMITEM_SIZE p h;
                   nx = mi_next (mh_items h p)
               in if newsize > oldsize then
                    if \<not> nx > p then None
                    else if \<not> RT_MEMHEAP_IS_USED nx h \<and> (MEMITEM_SIZE nx h + oldsize) mod 2 ^ 32 > (newsize + RT_MEMHEAP_MINIALLOC) mod 2 ^ 32
                    then Some (ptr, realloc_grow p nx oldsize newsize h)
                    else
                      (case rt_memheap_alloc newsize h of
                         None \<Rightarrow> None
                       | Some (None, h) \<Rightarrow> Some (None, h)
                       | Some (Some q, h) \<Rightarrow>
                           map_option (\<lambda>h. (Some q, h))
                             (rt_memheap_free ptr (memheap_copy q r (if oldsize < newsize then oldsize else newsize) h)))
                  else if (newsize + RT_MEMHEAP_SIZE + RT_MEMHEAP_MINIALLOC) mod 2 ^ 32 \<ge> oldsize then Some (ptr, h)
                  else Some (ptr, realloc_cut p newsize h))"

section \<open>Rings\<close>

lemma ring_neighbours:
  assumes "ring h l (xs @ a # ys)"
  shows "nxt h a = hd (ys @ [l])" "prv h a = last (l # xs)"
proof -
  have r: "linked h ((l # xs) @ a # (ys @ [l]))" using assms by (simp add: ring_def)
  have "linked h (a # ys @ [l])" "linked h ((l # xs) @ [a])" using r linked_append [of h "l # xs" a "ys @ [l]"] by simp_all
  moreover have "l # xs = butlast (l # xs) @ [last (l # xs)]" by simp
  ultimately have "linked h (butlast (l # xs) @ [last (l # xs), a] @ [])" by (metis append.assoc append_Cons append_Nil append_Nil2)
  then show "prv h a = last (l # xs)" using linked_last by metis
  show "nxt h a = hd (ys @ [l])" using \<open>linked h (a # ys @ [l])\<close> by (cases ys) auto
qed

lemma ring_head:
  assumes "ring h l xs"
  shows "nxt h l = hd (xs @ [l])" "prv h l = last (l # xs)"
proof -
  have r: "linked h (l # xs @ [l])" using assms by (simp add: ring_def)
  then show "nxt h l = hd (xs @ [l])" by (cases xs) auto
  have "l # xs = butlast (l # xs) @ [last (l # xs)]" by simp
  then have "linked h (butlast (l # xs) @ [last (l # xs), l] @ [])" using r by (metis append.assoc append_Cons append_Nil append_Nil2)
  then show "prv h l = last (l # xs)" using linked_last by metis
qed

lemma ring_cong: "(\<And>a. a \<in> set (l # xs) \<Longrightarrow> nxt h' a = nxt h a \<and> prv h' a = prv h a) \<Longrightarrow> ring h' l xs = ring h l xs"
proof -
  assume c: "\<And>a. a \<in> set (l # xs) \<Longrightarrow> nxt h' a = nxt h a \<and> prv h' a = prv h a"
  have "linked h' (l # xs @ [l]) = linked h (l # xs @ [l])"
    by (rule linked_cong) (use c in \<open>auto simp: butlast_append\<close>)
  then show ?thesis by (simp add: ring_def)
qed

lemma ring_insert:
  assumes "ring h l (xs @ ys)" "n \<notin> set (l # xs @ ys)"
    "nxt h' = (nxt h)(last (l # xs) := n, n := hd (ys @ [l]))" "prv h' = (prv h)(hd (ys @ [l]) := n, n := last (l # xs))"
  shows "ring h' l (xs @ n # ys)"
proof -
  define us p where "us = butlast (l # xs)" and "p = last (l # xs)"
  have lx: "l # xs = us @ [p]" by (simp add: us_def p_def)
  define s vs where "s = hd (ys @ [l])" and "vs = tl (ys @ [l])"
  have ly: "ys @ [l] = s # vs" by (simp add: s_def vs_def)
  have d: "distinct (l # xs @ ys)" using assms(1) by (simp add: ring_def)
  have d2: "distinct ((us @ [p]) @ ys)" using d unfolding lx [symmetric] by simp
  have s: "s \<notin> set xs" "s \<notin> set vs" using d ly by (cases ys; auto)+
  have "tl (us @ [p]) = xs" "butlast (s # vs) = ys" using lx [symmetric] ly [symmetric] by simp_all
  moreover have all: "l # xs @ ys @ [l] = us @ [p, s] @ vs" using lx ly by (metis append.assoc append_Cons append_Nil)
  moreover have "n \<notin> set (us @ [p, s] @ vs)" using assms(2) unfolding all [symmetric] by simp
  ultimately have "linked h' (us @ [p, n, s] @ vs)"
    using assms(1,3,4) d2 s unfolding ring_def p_def [symmetric] s_def [symmetric] by (intro linked_insert [of h us p s vs n h']) auto
  moreover have "us @ [p, n, s] @ vs = l # (xs @ n # ys) @ [l]" using lx ly by (metis append.assoc append_Cons append_Nil)
  ultimately show ?thesis using d assms(2) by (auto simp: ring_def)
qed

lemma ring_delete:
  assumes "ring h l (xs @ n # ys)"
    "\<And>a. a \<noteq> n \<Longrightarrow> nxt h' a = ((nxt h)(last (l # xs) := hd (ys @ [l]))) a"
    "\<And>a. a \<noteq> n \<Longrightarrow> prv h' a = ((prv h)(hd (ys @ [l]) := last (l # xs))) a"
  shows "ring h' l (xs @ ys)"
proof -
  define us p where "us = butlast (l # xs)" and "p = last (l # xs)"
  have lx: "l # xs = us @ [p]" by (simp add: us_def p_def)
  define s vs where "s = hd (ys @ [l])" and "vs = tl (ys @ [l])"
  have ly: "ys @ [l] = s # vs" by (simp add: s_def vs_def)
  have d: "distinct (l # xs @ ys)" "n \<notin> set (l # xs @ ys)" using assms(1) by (auto simp: ring_def)
  have d2: "distinct ((us @ [p]) @ ys)" using d(1) unfolding lx [symmetric] by simp
  have s: "s \<notin> set xs" "s \<notin> set vs" using d ly by (cases ys; auto)+
  define h1 where "h1 = \<lparr>nxt = (nxt h)(p := s, n := n), prv = (prv h)(s := p, n := n)\<rparr>"
  have tb: "tl (us @ [p]) = xs" "butlast (s # vs) = ys" using lx [symmetric] ly [symmetric] by simp_all
  have all: "l # (xs @ n # ys) @ [l] = us @ [p, n, s] @ vs" "l # (xs @ ys) @ [l] = us @ [p, s] @ vs"
    using lx ly by (metis append.assoc append_Cons append_Nil)+
  have n: "n \<notin> set (us @ [p, s] @ vs)" using d(2) unfolding all(2) [symmetric] by simp
  have "linked h1 (us @ [p, s] @ vs)"
    using assms(1) d2 s tb n all(1) unfolding ring_def by (intro linked_remove [of h us p n s vs h1]) (auto simp: h1_def)
  moreover have "linked h' (us @ [p, s] @ vs) = linked h1 (us @ [p, s] @ vs)"
  proof (rule linked_cong)
    have eq: "nxt h' a = nxt h1 a" "prv h' a = prv h1 a" if "a \<noteq> n" for a
      using assms(2,3) [OF that] that by (simp_all add: h1_def p_def s_def)
    have sub: "set (butlast zs) \<subseteq> set zs" "set (tl zs) \<subseteq> set zs" for zs :: "nat list"
      by (auto dest: in_set_butlastD) (cases zs, auto)
    show "\<forall>a \<in> set (butlast (us @ [p, s] @ vs)). nxt h' a = nxt h1 a" using n eq(1) subsetD [OF sub(1)] by metis
    show "\<forall>a \<in> set (tl (us @ [p, s] @ vs)). prv h' a = prv h1 a" using n eq(2) subsetD [OF sub(2)] by metis
  qed
  ultimately have "linked h' (l # (xs @ ys) @ [l])" unfolding all(2) by blast
  then show ?thesis using d(1) by (simp add: ring_def)
qed


section \<open>The two rings of a heap\<close>

definition plinks :: "memheap \<Rightarrow> list_heap" where
  "plinks h = \<lparr>nxt = (\<lambda>a. mi_next (mh_items h a)), prv = (\<lambda>a. mi_prev (mh_items h a))\<rparr>"

definition flinks :: "memheap \<Rightarrow> list_heap" where
  "flinks h = \<lparr>nxt = (\<lambda>a. mi_next_free (mh_items h a)), prv = (\<lambda>a. mi_prev_free (mh_items h a))\<rparr>"

lemma links_simps [simp]:
  "nxt (plinks h) a = mi_next (mh_items h a)" "prv (plinks h) a = mi_prev (mh_items h a)"
  "nxt (flinks h) a = mi_next_free (mh_items h a)" "prv (flinks h) a = mi_prev_free (mh_items h a)"
  by (simp_all add: plinks_def flinks_def)

lemma upd_item_simps [simp]:
  "mh_items (upd_item i g h) j = (if j = i then g (mh_items h i) else mh_items h j)"
  "mh_self (upd_item i g h) = mh_self h" "mh_start_addr (upd_item i g h) = mh_start_addr h" "mh_pool_size (upd_item i g h) = mh_pool_size h"
  "mh_available_size (upd_item i g h) = mh_available_size h" "mh_free_list (upd_item i g h) = mh_free_list h"
  "mh_free_header (upd_item i g h) = mh_free_header h" "mh_data (upd_item i g h) = mh_data h"
  by (simp_all add: upd_item_def)

text \<open>What the operations leave alone: \<open>frame\<close> is everything but the headers, the counters and the block list header.\<close>

definition mh_frame :: "memheap \<Rightarrow> memheap \<Rightarrow> bool" where
  "mh_frame h h' \<longleftrightarrow> mh_self h' = mh_self h \<and> mh_start_addr h' = mh_start_addr h \<and> mh_pool_size h' = mh_pool_size h \<and>
     mh_free_list h' = mh_free_list h \<and> mh_free_header h' = mh_free_header h \<and> mh_data h' = mh_data h"

lemma mh_frame_refl [simp]: "mh_frame h h"
  by (simp add: mh_frame_def)

lemma mh_frame_trans: "mh_frame h1 h2 \<Longrightarrow> mh_frame h2 h3 \<Longrightarrow> mh_frame h1 h3"
  by (simp add: mh_frame_def)

lemma free_insert_frame [simp]:
  "mi_next (mh_items (free_insert i h) a) = mi_next (mh_items h a)" "mi_prev (mh_items (free_insert i h) a) = mi_prev (mh_items h a)"
  "mi_magic (mh_items (free_insert i h) a) = mi_magic (mh_items h a)" "mi_pool (mh_items (free_insert i h) a) = mi_pool (mh_items h a)"
  "mh_available_size (free_insert i h) = mh_available_size h" "mh_frame h (free_insert i h)"
  by (simp_all add: free_insert_def Let_def mh_frame_def)

lemma free_unlink_frame [simp]:
  "mi_next (mh_items (free_unlink i h) a) = mi_next (mh_items h a)" "mi_prev (mh_items (free_unlink i h) a) = mi_prev (mh_items h a)"
  "mi_magic (mh_items (free_unlink i h) a) = mi_magic (mh_items h a)" "mi_pool (mh_items (free_unlink i h) a) = mi_pool (mh_items h a)"
  "mh_available_size (free_unlink i h) = mh_available_size h" "mh_frame h (free_unlink i h)"
  by (simp_all add: free_unlink_def Let_def mh_frame_def)

lemma free_clear_frame [simp]:
  "mi_next (mh_items (free_clear i h) a) = mi_next (mh_items h a)" "mi_prev (mh_items (free_clear i h) a) = mi_prev (mh_items h a)"
  "mi_magic (mh_items (free_clear i h) a) = mi_magic (mh_items h a)" "mi_pool (mh_items (free_clear i h) a) = mi_pool (mh_items h a)"
  "mh_available_size (free_clear i h) = mh_available_size h" "mh_frame h (free_clear i h)"
  by (simp_all add: free_clear_def mh_frame_def)

lemma block_split_frame [simp]:
  "mi_next_free (mh_items (block_split i n h) a) = mi_next_free (mh_items h a)" "mi_prev_free (mh_items (block_split i n h) a) = mi_prev_free (mh_items h a)"
  "mh_available_size (block_split i n h) = mh_available_size h" "mh_frame h (block_split i n h)"
  by (simp_all add: block_split_def Let_def mh_frame_def)

text \<open>The free ring: insertion in front and removal.\<close>

lemma free_insert_ring:
  assumes "ring (flinks h) (mh_free_list h) fs" "i \<notin> set (mh_free_list h # fs)"
  shows "ring (flinks (free_insert i h)) (mh_free_list h) (i # fs)"
proof -
  let ?l = "mh_free_list h"
  note hd = ring_head(1) [OF assms(1), simplified]
  have "hd (fs @ [?l]) \<noteq> i" using assms(2) by (cases fs) auto
  then have "nxt (flinks (free_insert i h)) = (nxt (flinks h))(?l := i, i := hd (fs @ [?l]))"
    "prv (flinks (free_insert i h)) = (prv (flinks h))(hd (fs @ [?l]) := i, i := ?l)"
    using assms(2) hd by (auto simp: free_insert_def Let_def fun_eq_iff)
  then show ?thesis using ring_insert [of "flinks h" ?l "[]" fs i] assms by simp
qed

lemma free_unlink_ring:
  assumes "ring (flinks h) l (xs @ i # ys)"
  shows "ring (flinks (free_unlink i h)) l (xs @ ys)"
proof -
  note nb = ring_neighbours [OF assms, simplified]
  have d: "hd (ys @ [l]) \<noteq> i" "last (l # xs) \<noteq> i" using assms by (cases ys; auto simp: ring_def)+
  show ?thesis by (rule ring_delete [OF assms]) (use nb d in \<open>auto simp: free_unlink_def Let_def\<close>)
qed

lemma free_clear_ring: "i \<notin> set (l # fs) \<Longrightarrow> ring (flinks (free_clear i h)) l fs = ring (flinks h) l fs"
  by (rule ring_cong) (auto simp: free_clear_def)


text \<open>The ring of all headers: a new one behind \<open>i\<close>, and the removal of one.\<close>

lemma block_split_ring:
  assumes "ring (plinks h) e (xs @ i # ys)" "n \<notin> set (e # xs @ i # ys)"
  shows "ring (plinks (block_split i n h)) e (xs @ i # n # ys)"
proof -
  note nb = ring_neighbours [OF assms(1), simplified]
  have d: "hd (ys @ [e]) \<noteq> n" "hd (ys @ [e]) \<noteq> i" "i \<noteq> n" using assms by (cases ys; auto simp: ring_def)+
  have "nxt (plinks (block_split i n h)) = (nxt (plinks h))(i := n, n := hd (ys @ [e]))"
    "prv (plinks (block_split i n h)) = (prv (plinks h))(hd (ys @ [e]) := n, n := i)"
    using nb d by (auto simp: block_split_def Let_def fun_eq_iff)
  then show ?thesis using ring_insert [of "plinks h" e "xs @ [i]" ys n] assms by simp
qed

lemma block_split_magic:
  assumes "i \<noteq> n"
  shows "mi_magic (mh_items (block_split i n h) a) = (if a = n then RT_MEMHEAP_MAGIC else mi_magic (mh_items h a))"
    "mi_pool (mh_items (block_split i n h) a) = (if a = n then mh_self h else mi_pool (mh_items h a))"
  using assms by (auto simp: block_split_def Let_def)

lemma merge_left_ring:
  assumes "ring (plinks h) e (xs @ p # ys)"
  shows "ring (plinks (merge_left p h)) e (xs @ ys)"
proof -
  note nb = ring_neighbours [OF assms, simplified]
  have d: "hd (ys @ [e]) \<noteq> p" "last (e # xs) \<noteq> p" using assms by (cases ys; auto simp: ring_def)+
  show ?thesis by (rule ring_delete [OF assms]) (use nb d in \<open>auto simp: merge_left_def Let_def\<close>)
qed

lemma absorb_next_ring:
  assumes "ring (plinks h) e (xs @ p # n # ys)"
  shows "ring (plinks (absorb_next p n h)) e (xs @ p # ys)"
proof -
  note nb = ring_neighbours [of "plinks h" e "xs @ [p]" n ys, simplified, OF assms]
  have d: "hd (ys @ [e]) \<noteq> n" "p \<noteq> n" "hd (ys @ [e]) \<noteq> p" using assms by (cases ys; auto simp: ring_def)+
  have "ring (plinks (absorb_next p n h)) e ((xs @ [p]) @ ys)"
    by (rule ring_delete [of "plinks h" e "xs @ [p]" n ys]) (use assms nb d in \<open>auto simp: absorb_next_def Let_def\<close>)
  then show ?thesis by simp
qed

lemma merge_left_frame [simp]:
  "mi_next_free (mh_items (merge_left p h) a) = mi_next_free (mh_items h a)" "mi_prev_free (mh_items (merge_left p h) a) = mi_prev_free (mh_items h a)"
  "mi_magic (mh_items (merge_left p h) a) = mi_magic (mh_items h a)" "mi_pool (mh_items (merge_left p h) a) = mi_pool (mh_items h a)"
  "mh_available_size (merge_left p h) = (mh_available_size h + 24) mod 2 ^ 32" "mh_frame h (merge_left p h)"
  by (simp_all add: merge_left_def Let_def mh_frame_def)

lemma absorb_next_frame [simp]:
  "mi_magic (mh_items (absorb_next p n h) a) = mi_magic (mh_items h a)" "mi_pool (mh_items (absorb_next p n h) a) = mi_pool (mh_items h a)"
  "mh_available_size (absorb_next p n h) = mh_available_size h" "mh_frame h (absorb_next p n h)"
  by (simp_all add: absorb_next_def Let_def) (simp add: mh_frame_def free_unlink_def Let_def)

lemma absorb_next_free_ring:
  assumes "ring (flinks h) l (xs @ n # ys)"
  shows "ring (flinks (absorb_next p n h)) l (xs @ ys)"
proof -
  let ?h = "upd_item p (\<lambda>m. m\<lparr>mi_next := mi_next (mh_items (upd_item (mi_next (mh_items h n)) (\<lambda>m. m\<lparr>mi_prev := p\<rparr>) h) n)\<rparr>)
    (upd_item (mi_next (mh_items h n)) (\<lambda>m. m\<lparr>mi_prev := p\<rparr>) h)"
  have "ring (flinks ?h) l (xs @ n # ys) = ring (flinks h) l (xs @ n # ys)" by (rule ring_cong) auto
  then show ?thesis using free_unlink_ring [of ?h l xs n ys] assms by (simp add: absorb_next_def Let_def)
qed

section \<open>The invariant\<close>

text \<open>
  The blocks \<open>(s, n, u)\<close> reach from the header at \<open>s\<close> to the next header at \<open>n\<close>, from \<open>a\<close> up to the tailer at \<open>e\<close>; each has
  at least twelve bytes behind its header.
\<close>

fun spans :: "nat \<Rightarrow> block list \<Rightarrow> nat \<Rightarrow> bool" where
  "spans a [] e \<longleftrightarrow> a = e"
| "spans a ((s, n, u) # bs) e \<longleftrightarrow> a = s \<and> 4 dvd s \<and> s + 36 \<le> n \<and> spans n bs e"

definition free_sum :: "block list \<Rightarrow> nat" where
  "free_sum bs = sum_list (map (\<lambda>(s, n, u). if u then 0 else n - s - 24) bs)"

definition item_ok :: "memheap \<Rightarrow> nat \<Rightarrow> bool \<Rightarrow> bool" where
  "item_ok h s u \<longleftrightarrow> mi_magic (mh_items h s) = (if u then RT_MEMHEAP_MAGIC OR 1 else RT_MEMHEAP_MAGIC) \<and> mi_pool (mh_items h s) = mh_self h"

definition free_starts :: "block list \<Rightarrow> nat set" where
  "free_starts bs = {s. \<exists>n. (s, n, False) \<in> set bs}"

lemma free_starts_simps [simp]:
  "free_starts [] = {}" "free_starts ((s, n, u) # bs) = (if u then free_starts bs else insert s (free_starts bs))"
  "free_starts (xs @ ys) = free_starts xs \<union> free_starts ys"
  by (auto simp: free_starts_def)

lemma free_starts_fst: "free_starts bs \<subseteq> fst ` set bs"
  by (force simp: free_starts_def)

definition memheap_inv :: "memheap \<Rightarrow> block list \<Rightarrow> nat list \<Rightarrow> nat \<Rightarrow> bool" where
  "memheap_inv h bs fs e \<longleftrightarrow>
     ring (plinks h) e (map fst bs) \<and> ring (flinks h) (mh_free_header h) fs \<and> mh_free_list h = mh_free_header h \<and>
     spans (mh_start_addr h) bs e \<and> bs \<noteq> [] \<and> coalesced bs \<and> (\<forall>(s, n, u) \<in> set bs. item_ok h s u) \<and> item_ok h e True \<and>
     set fs = free_starts bs \<and> (mh_free_header h < mh_start_addr h \<or> e < mh_free_header h) \<and>
     0 < mh_start_addr h \<and> e + 24 < 2 ^ 32 \<and> mh_available_size h = free_sum bs"

lemma memheap_invD:
  assumes "memheap_inv h bs fs e"
  shows "ring (plinks h) e (map fst bs)" "ring (flinks h) (mh_free_header h) fs" "mh_free_list h = mh_free_header h"
    "spans (mh_start_addr h) bs e" "bs \<noteq> []" "coalesced bs" "(s, n, u) \<in> set bs \<Longrightarrow> item_ok h s u" "item_ok h e True"
    "set fs = free_starts bs" "mh_free_header h < mh_start_addr h \<or> e < mh_free_header h"
    "0 < mh_start_addr h" "e + 24 < 2 ^ 32" "mh_available_size h = free_sum bs"
  using assms unfolding memheap_inv_def by auto

lemma spans_append: "spans a (xs @ ys) e \<longleftrightarrow> (\<exists>m. spans a xs m \<and> spans m ys e)"
  by (induction a xs e rule: spans.induct) auto

lemma spans_le: "spans a bs e \<Longrightarrow> a \<le> e"
  by (induction a bs e rule: spans.induct) auto

lemma spans_mem: "spans a bs e \<Longrightarrow> (s, n, u) \<in> set bs \<Longrightarrow> a \<le> s \<and> s + 36 \<le> n \<and> n \<le> e \<and> 4 dvd s"
proof (induction a bs e rule: spans.induct)
  case (2 a s' n' u' bs e)
  then show ?case using spans_le [of n' bs e] by auto
qed simp

lemma spans_split:
  assumes "spans a (xs @ (s, n, u) # ys) e"
  shows "spans a xs s" "spans n ys e" "s + 36 \<le> n" "a \<le> s" "n \<le> e" "4 dvd s"
  using assms spans_le [of a xs s] spans_le [of n ys e] by (auto simp: spans_append)

section \<open>Allocation\<close>

lemma memheap_find_spec:
  assumes "ring (flinks h) (mh_free_list h) (pre @ suf)" "f < sz"
  shows "case find (\<lambda>s. sz \<le> MEMITEM_SIZE s h) suf of
      None \<Rightarrow> \<exists>f'. memheap_find sz (hd (suf @ [mh_free_list h])) f h = Some (mh_free_list h, f') \<and> f' < sz
    | Some s \<Rightarrow> memheap_find sz (hd (suf @ [mh_free_list h])) f h = Some (s, MEMITEM_SIZE s h)"
  using assms
proof (induction suf arbitrary: pre f)
  case Nil
  then show ?case by (simp add: memheap_find.simps)
next
  case (Cons s suf)
  let ?l = "mh_free_list h"
  have sl: "s \<noteq> ?l" using Cons.prems(1) by (auto simp: ring_def)
  have nx: "mi_next_free (mh_items h s) = hd (suf @ [?l])" using ring_neighbours(1) [OF Cons.prems(1)] by simp
  show ?case
  proof (cases "sz \<le> MEMITEM_SIZE s h")
    case True
    then have "memheap_find sz s f h = Some (s, MEMITEM_SIZE s h)"
      using sl Cons.prems(2) by (simp add: memheap_find.simps [of sz s f] memheap_find.simps [of sz s "MEMITEM_SIZE s h"])
    then show ?thesis using True by simp
  next
    case False
    then have "memheap_find sz s f h = memheap_find sz (hd (suf @ [?l])) (MEMITEM_SIZE s h) h"
      using sl nx Cons.prems(2) by (simp add: memheap_find.simps [of sz s f])
    then show ?thesis using Cons.IH [of "pre @ [s]" "MEMITEM_SIZE s h"] Cons.prems(1) False by (simp split: option.splits)
  qed
qed

lemma max_used_simps [simp]:
  "mh_items (max_used h) = mh_items h" "mh_available_size (max_used h) = mh_available_size h" "mh_frame h (max_used h)"
  "mh_self (max_used h) = mh_self h" "mh_free_list (max_used h) = mh_free_list h" "mh_free_header (max_used h) = mh_free_header h"
  "mh_start_addr (max_used h) = mh_start_addr h" "mh_data (max_used h) = mh_data h" "mh_pool_size (max_used h) = mh_pool_size h"
  by (simp_all add: max_used_def mh_frame_def)

lemma free_sum_simps [simp]:
  "free_sum [] = 0" "free_sum (xs @ ys) = free_sum xs + free_sum ys" "free_sum ((s, n, u) # bs) = (if u then 0 else n - s - 24) + free_sum bs"
  by (simp_all add: free_sum_def)

lemma free_sum_le: "spans a bs e \<Longrightarrow> free_sum bs \<le> e - a"
proof (induction a bs e rule: spans.induct)
  case (2 a s n u bs e)
  then show ?case using spans_le [of n bs e] by auto
qed simp

lemma links_cong:
  "(\<And>a. mi_next (mh_items h' a) = mi_next (mh_items h a) \<and> mi_prev (mh_items h' a) = mi_prev (mh_items h a)) \<Longrightarrow> plinks h' = plinks h"
  "(\<And>a. mi_next_free (mh_items h' a) = mi_next_free (mh_items h a) \<and> mi_prev_free (mh_items h' a) = mi_prev_free (mh_items h a)) \<Longrightarrow> flinks h' = flinks h"
  by (simp_all add: plinks_def flinks_def)

text \<open>Which headers are where: every header starts in the pool, and the free list header does not.\<close>

lemma header_places:
  assumes "memheap_inv h bs fs e"
  shows "(s, n, u) \<in> set bs \<Longrightarrow> s \<noteq> e \<and> s \<noteq> mh_free_header h" "s \<in> set fs \<Longrightarrow> \<exists>n. (s, n, False) \<in> set bs"
    "mh_free_header h \<noteq> e" "distinct (map fst bs)" "distinct fs"
proof -
  note d = memheap_invD [OF assms]
  show "distinct (map fst bs)" "distinct fs" using d(1,2) by (auto simp: ring_def)
  show "(s, n, u) \<in> set bs \<Longrightarrow> s \<noteq> e \<and> s \<noteq> mh_free_header h" using spans_mem [OF d(4), of s n u] d(10) by auto
  show "mh_free_header h \<noteq> e" using d(10) spans_le [OF d(4)] by auto
  show "s \<in> set fs \<Longrightarrow> \<exists>n. (s, n, False) \<in> set bs" using d(9) by (auto simp: free_starts_def)
qed

lemma block_unique:
  assumes "memheap_inv h bs fs e" "(s, n, u) \<in> set bs" "(s, n', u') \<in> set bs"
  shows "n = n' \<and> u = u'"
  using header_places(4) [OF assms(1)] assms(2,3) eq_key_imp_eq_value [of bs s "(n, u)" "(n', u')"] by (auto)


text \<open>The headers after an operation: a new block list with its free list.\<close>

lemma memheap_invI:
  assumes "memheap_inv h bs fs e" "mh_frame h h'"
    and "ring (plinks h') e (map fst bs')" "ring (flinks h') (mh_free_header h) fs'" "spans (mh_start_addr h) bs' e" "bs' \<noteq> []" "coalesced bs'"
    and "\<And>s n u. (s, n, u) \<in> set bs' \<Longrightarrow> item_ok h' s u" "item_ok h' e True" "set fs' = free_starts bs'"
    and "mh_available_size h' = free_sum bs'"
  shows "memheap_inv h' bs' fs' e"
  using assms memheap_invD(3,10-12) [OF assms(1)] unfolding memheap_inv_def mh_frame_def by auto

lemma free_starts_taken:
  assumes "memheap_inv h (xs @ (s, n, False) # ys) (fa @ s # fb) e"
  shows "set (fa @ fb) = free_starts (xs @ (s, n, True) # ys)"
proof -
  have "s \<notin> fst ` set xs" "s \<notin> fst ` set ys" using header_places(4) [OF assms] by auto
  then have "s \<notin> free_starts xs" "s \<notin> free_starts ys" using free_starts_fst [of xs] free_starts_fst [of ys] by auto
  then show ?thesis using memheap_invD(9) [OF assms] header_places(5) [OF assms] by auto
qed

lemma take_whole:
  assumes inv: "memheap_inv h (xs @ (s, n, False) # ys) (fa @ s # fb) e" and sz: "sz \<le> n - s - 24" "n - s - 24 < sz + 36"
  defines "h' \<equiv> memheap_take s (n - s - 24) sz h"
  shows "memheap_inv h' (xs @ (s, n, True) # ys) (fa @ fb) e" "mh_frame h h'"
proof -
  note d = memheap_invD [OF inv] and sp = spans_split [OF memheap_invD(4) [OF inv]] and hp = header_places [OF inv]
  have "sz + 36 < 2 ^ 32" using sz sp d(11,12) by linarith
  then have h': "h' = upd_item s (\<lambda>m. m\<lparr>mi_magic := mi_magic m OR 1\<rparr>)
      (free_clear s (free_unlink s (max_used (h\<lparr>mh_available_size := sub32 (mh_available_size h) (n - s - 24)\<rparr>))))"
    using sz(2) by (simp add: h'_def memheap_take_def Let_def)
  show fr: "mh_frame h h'" unfolding h' using free_clear_frame(6) free_unlink_frame(6) by (simp add: mh_frame_def)
  show "memheap_inv h' (xs @ (s, n, True) # ys) (fa @ fb) e"
  proof (rule memheap_invI [OF inv fr])
    have "plinks h' = plinks h" unfolding h' by (rule links_cong(1)) simp
    then show "ring (plinks h') e (map fst (xs @ (s, n, True) # ys))" using d(1) by simp
    let ?h = "max_used (h\<lparr>mh_available_size := sub32 (mh_available_size h) (n - s - 24)\<rparr>)"
    have "flinks ?h = flinks h" by (rule links_cong(2)) simp
    then have "ring (flinks (free_unlink s ?h)) (mh_free_header h) (fa @ fb)" using free_unlink_ring [of ?h _ fa s fb] d(2) by simp
    moreover have "s \<notin> set (mh_free_header h # fa @ fb)" using hp(1) [of s n False] hp(5) by auto
    ultimately have "ring (flinks (free_clear s (free_unlink s ?h))) (mh_free_header h) (fa @ fb)" by (simp add: free_clear_ring)
    moreover have "flinks h' = flinks (free_clear s (free_unlink s ?h))" unfolding h' by (rule links_cong(2)) simp
    ultimately show "ring (flinks h') (mh_free_header h) (fa @ fb)" by simp
    show "spans (mh_start_addr h) (xs @ (s, n, True) # ys) e" using d(4) by (simp add: spans_append)
    show "coalesced (xs @ (s, n, True) # ys)" using d(6) by (auto simp: coalesced_append coalesced_Cons)
    have self: "mh_self h' = mh_self h" using fr by (simp add: mh_frame_def)
    have mg: "mi_magic (mh_items h' a) = (if a = s then mi_magic (mh_items h a) OR 1 else mi_magic (mh_items h a))"
      "mi_pool (mh_items h' a) = mi_pool (mh_items h a)" for a unfolding h' by simp_all
    show "item_ok h' e True" using d(8) hp(1) [of s n False] mg self by (auto simp: item_ok_def)
    show "item_ok h' a u" if "(a, b, u) \<in> set (xs @ (s, n, True) # ys)" for a b u
      using that d(7) [of a b u] d(7) [of s n False] hp(4) mg self by (auto simp: item_ok_def image_iff)
    show "set (fa @ fb) = free_starts (xs @ (s, n, True) # ys)" by (rule free_starts_taken [OF inv])
    show "mh_available_size h' = free_sum (xs @ (s, n, True) # ys)"
      using d(12,13) free_sum_le [OF d(4)] by (simp add: h')
  qed simp
qed


text \<open>Headers start outside the bytes of other blocks.\<close>

lemma new_header:
  assumes "memheap_inv h (xs @ (s, n, u) # ys) fs e" "s < m" "m < n"
  shows "m \<notin> set (e # map fst (xs @ (s, n, u) # ys))" "m \<noteq> mh_free_header h" "m \<notin> set fs"
proof -
  note d = memheap_invD [OF assms(1)] and sp = spans_split [OF memheap_invD(4) [OF assms(1)]]
  have "m \<notin> fst ` set xs" using spans_mem [OF sp(1)] assms(2) by force
  moreover have "m \<notin> fst ` set ys" using spans_mem [OF sp(2)] assms(3) by force
  ultimately show n: "m \<notin> set (e # map fst (xs @ (s, n, u) # ys))" using assms(2,3) sp(5) by auto
  show "m \<noteq> mh_free_header h" using d(10) sp(4,5) assms(2,3) by auto
  show "m \<notin> set fs" using header_places(2) [OF assms(1), of m] n by force
qed

lemma take_split:
  assumes inv: "memheap_inv h (xs @ (s, n, False) # ys) (fa @ s # fb) e" and sz: "sz + 36 \<le> n - s - 24" "4 dvd sz" "12 \<le> sz"
  defines "h' \<equiv> memheap_take s (n - s - 24) sz h" and "m \<equiv> s + sz + 24"
  shows "memheap_inv h' (xs @ (s, m, True) # (m, n, False) # ys) (m # fa @ fb) e" "mh_frame h h'"
proof -
  note d = memheap_invD [OF inv] and sp = spans_split [OF memheap_invD(4) [OF inv]] and hp = header_places [OF inv]
  have w: "sz + 36 < 2 ^ 32" "m < 2 ^ 32" "s < m" "m + 36 \<le> n" "m < n" using sz sp d(11,12) unfolding m_def by linarith+
  note new = new_header [OF inv w(3,5)]
  define h1 where "h1 = free_clear s (free_unlink s (block_split s m h))"
  define h2 where "h2 = free_insert m h1"
  have h': "h' = upd_item s (\<lambda>i. i\<lparr>mi_magic := mi_magic i OR 1\<rparr>)
      (max_used (h2\<lparr>mh_available_size := sub32 (sub32 (mh_available_size h2) sz) 24\<rparr>))"
    using w sz(1) by (simp add: h'_def memheap_take_def Let_def h2_def h1_def m_def)
  have fr1: "mh_frame h h1" unfolding h1_def using mh_frame_trans block_split_frame(4) free_unlink_frame(6) free_clear_frame(6) by blast
  have fr2: "mh_frame h h2" unfolding h2_def using mh_frame_trans [OF fr1] free_insert_frame(6) by blast
  show fr: "mh_frame h h'" using fr2 unfolding h' by (simp add: mh_frame_def)
  show "memheap_inv h' (xs @ (s, m, True) # (m, n, False) # ys) (m # fa @ fb) e"
  proof (rule memheap_invI [OF inv fr])
    have "plinks h' = plinks (block_split s m h)" unfolding h' h2_def h1_def by (rule links_cong(1)) simp
    then show "ring (plinks h') e (map fst (xs @ (s, m, True) # (m, n, False) # ys))"
      using block_split_ring [of h e "map fst xs" s "map fst ys" m] d(1) new(1) by simp
    have "flinks (block_split s m h) = flinks h" by (rule links_cong(2)) simp
    then have "ring (flinks (free_unlink s (block_split s m h))) (mh_free_header h) (fa @ fb)"
      using free_unlink_ring [of "block_split s m h" _ fa s fb] d(2) by simp
    moreover have "s \<notin> set (mh_free_header h # fa @ fb)" using hp(1) [of s n False] hp(5) by auto
    ultimately have "ring (flinks h1) (mh_free_list h1) (fa @ fb)" using fr1 d(3) by (simp add: h1_def free_clear_ring mh_frame_def)
    then have "ring (flinks h2) (mh_free_list h1) (m # fa @ fb)" unfolding h2_def
      using new fr1 d(3) by (intro free_insert_ring) (auto simp: mh_frame_def)
    moreover have "flinks h' = flinks h2" unfolding h' by (rule links_cong(2)) simp
    ultimately show "ring (flinks h') (mh_free_header h) (m # fa @ fb)" using fr1 d(3) by (simp add: mh_frame_def)
    have "4 dvd m" using sp(6) sz(2) by (simp add: m_def)
    then show "spans (mh_start_addr h) (xs @ (s, m, True) # (m, n, False) # ys) e" using d(4) w sp(6) sz(3) by (auto simp: spans_append m_def)
    show "coalesced (xs @ (s, m, True) # (m, n, False) # ys)" using d(6) by (auto simp: coalesced_append coalesced_Cons)
    have self: "mh_self h' = mh_self h" using fr by (simp add: mh_frame_def)
    have mg: "mi_magic (mh_items h' a) = (if a = s then mi_magic (mh_items h a) OR 1 else if a = m then 0x1ea01ea0 else mi_magic (mh_items h a))"
      "mi_pool (mh_items h' a) = (if a = m then mh_self h else mi_pool (mh_items h a))" for a
      unfolding h' h2_def h1_def using w(3) by (simp_all add: block_split_magic)
    show "item_ok h' e True" using d(8) hp(1) [of s n False] mg self new(1) by (auto simp: item_ok_def)
    show "item_ok h' a u" if "(a, b, u) \<in> set (xs @ (s, m, True) # (m, n, False) # ys)" for a b u
      using that d(7) [of a b u] d(7) [of s n False] hp(4) mg self new(1) w(3) by (auto simp: item_ok_def image_iff)
    show "set (m # fa @ fb) = free_starts (xs @ (s, m, True) # (m, n, False) # ys)" using free_starts_taken [OF inv] by auto
    show "mh_available_size h' = free_sum (xs @ (s, m, True) # (m, n, False) # ys)"
      using d(12,13) free_sum_le [OF d(4)] sz(1) by (simp add: h' h2_def h1_def m_def)
  qed simp
qed


section \<open>Freeing\<close>

text \<open>While a block is being freed and joined with its neighbours, the rest of the invariant holds: all but the
  relation of the two rings.\<close>

definition memheap_shape :: "memheap \<Rightarrow> block list \<Rightarrow> nat list \<Rightarrow> nat \<Rightarrow> bool" where
  "memheap_shape h bs fs e \<longleftrightarrow>
     ring (plinks h) e (map fst bs) \<and> ring (flinks h) (mh_free_header h) fs \<and> mh_free_list h = mh_free_header h \<and>
     spans (mh_start_addr h) bs e \<and> bs \<noteq> [] \<and> (\<forall>(s, n, u) \<in> set bs. item_ok h s u) \<and> item_ok h e True \<and>
     (mh_free_header h < mh_start_addr h \<or> e < mh_free_header h) \<and>
     0 < mh_start_addr h \<and> e + 24 < 2 ^ 32 \<and> mh_available_size h = free_sum bs"

lemma memheap_inv_shape: "memheap_inv h bs fs e \<longleftrightarrow> memheap_shape h bs fs e \<and> coalesced bs \<and> set fs = free_starts bs"
  by (auto simp: memheap_inv_def memheap_shape_def)

lemma memheap_shapeD:
  assumes "memheap_shape h bs fs e"
  shows "ring (plinks h) e (map fst bs)" "ring (flinks h) (mh_free_header h) fs" "mh_free_list h = mh_free_header h"
    "spans (mh_start_addr h) bs e" "bs \<noteq> []" "(s, n, u) \<in> set bs \<Longrightarrow> item_ok h s u" "item_ok h e True"
    "mh_free_header h < mh_start_addr h \<or> e < mh_free_header h" "0 < mh_start_addr h" "e + 24 < 2 ^ 32" "mh_available_size h = free_sum bs"
  using assms unfolding memheap_shape_def by auto

text \<open>The fields of a header in terms of the blocks.\<close>

lemma item_fields:
  assumes "memheap_shape h (xs @ (s, n, u) # ys) fs e"
  shows "mi_next (mh_items h s) = n" "mi_prev (mh_items h s) = last (e # map fst xs)" "MEMITEM_SIZE s h = n - s - 24"
    "RT_MEMHEAP_IS_USED s h = u"
proof -
  note d = memheap_shapeD [OF assms]
  note nb = ring_neighbours [of "plinks h" e "map fst xs" s "map fst ys", simplified] 
  have r: "ring (plinks h) e (map fst xs @ s # map fst ys)" using d(1) by simp
  note sp = spans_split [OF d(4)]
  have "hd (map fst ys @ [e]) = n" using sp(2) by (cases ys) auto
  then show nx: "mi_next (mh_items h s) = n" using nb(1) [OF r] by simp
  show "mi_prev (mh_items h s) = last (e # map fst xs)" using nb(2) [OF r] by simp
  show "MEMITEM_SIZE s h = n - s - 24" using nx sp(3,5) d(10) by (simp add: MEMITEM_SIZE_def)
  show "RT_MEMHEAP_IS_USED s h = u" using d(6) [of s n u] by (auto simp: item_ok_def RT_MEMHEAP_IS_USED_def)
qed


lemma memheap_shapeI:
  assumes "memheap_shape h bs fs e" "mh_frame h h'"
    and "ring (plinks h') e (map fst bs')" "ring (flinks h') (mh_free_header h) fs'" "spans (mh_start_addr h) bs' e" "bs' \<noteq> []"
    and "\<And>s n u. (s, n, u) \<in> set bs' \<Longrightarrow> item_ok h' s u" "item_ok h' e True" "mh_available_size h' = free_sum bs'"
  shows "memheap_shape h' bs' fs' e"
  using assms memheap_shapeD(3,8-10) [OF assms(1)] unfolding memheap_shape_def mh_frame_def by auto

lemma item_ok_cong:
  "item_ok h s u \<Longrightarrow> mi_magic (mh_items h' s) = mi_magic (mh_items h s) \<Longrightarrow> mi_pool (mh_items h' s) = mi_pool (mh_items h s) \<Longrightarrow>
   mh_frame h h' \<Longrightarrow> item_ok h' s u"
  by (simp add: item_ok_def mh_frame_def)

lemma shape_bound: "memheap_shape h bs fs e \<Longrightarrow> free_sum bs + 24 < 2 ^ 32"
  using free_sum_le memheap_shapeD(4,10) by fastforce

lemma shape_free_insert:
  assumes "memheap_shape h bs fs e" "i \<notin> set (mh_free_header h # fs)"
  shows "memheap_shape (free_insert i h) bs (i # fs) e"
proof (rule memheap_shapeI [OF assms(1)])
  note d = memheap_shapeD [OF assms(1)]
  have "plinks (free_insert i h) = plinks h" by (rule links_cong(1)) simp
  then show "ring (plinks (free_insert i h)) e (map fst bs)" using d(1) by simp
  show "ring (flinks (free_insert i h)) (mh_free_header h) (i # fs)" using free_insert_ring [of h fs i] d(2,3) assms(2) by simp
  have "item_ok (free_insert i h) a u" if "item_ok h a u" for a u by (rule item_ok_cong [OF that]) simp_all
  then show "\<And>s n u. (s, n, u) \<in> set bs \<Longrightarrow> item_ok (free_insert i h) s u" "item_ok (free_insert i h) e True"
    using d(6,7) by blast+
qed (use memheap_shapeD [OF assms(1)] in auto)

lemma shape_mark_free:
  assumes "memheap_shape h (xs @ (s, n, True) # ys) fs e"
  defines "h' \<equiv> (upd_item s (\<lambda>m. m\<lparr>mi_magic := mi_magic m AND NOT 1\<rparr>) h)\<lparr>mh_available_size := (mh_available_size h + (n - s - 24)) mod 2 ^ 32\<rparr>"
  shows "memheap_shape h' (xs @ (s, n, False) # ys) fs e" "mh_frame h h'"
proof -
  note d = memheap_shapeD [OF assms(1)] and sp = spans_split [OF memheap_shapeD(4) [OF assms(1)]]
  have sn: "spans (mh_start_addr h) (xs @ (s, n, False) # ys) e" using d(4) by (simp add: spans_append)
  show fr: "mh_frame h h'" by (simp add: mh_frame_def h'_def)
  have mg: "mi_magic (mh_items h' a) = (if a = s then mi_magic (mh_items h s) AND NOT 1 else mi_magic (mh_items h a))"
    "mi_pool (mh_items h' a) = mi_pool (mh_items h a)" for a by (simp_all add: h'_def)
  have dis: "s \<notin> fst ` set xs" "s \<notin> fst ` set ys" "s \<noteq> e" using d(1) sp(3,5) by (auto simp: ring_def)
  show "memheap_shape h' (xs @ (s, n, False) # ys) fs e"
  proof (rule memheap_shapeI [OF assms(1) fr])
    have "plinks h' = plinks h" "flinks h' = flinks h" by (rule links_cong, simp add: h'_def)+
    then show "ring (plinks h') e (map fst (xs @ (s, n, False) # ys))" "ring (flinks h') (mh_free_header h) fs" using d(1,2) by simp_all
    show "item_ok h' e True" using d(7) fr mg dis(3) by (intro item_ok_cong [OF d(7)]) auto
    show "item_ok h' a u" if "(a, b, u) \<in> set (xs @ (s, n, False) # ys)" for a b u
    proof (cases "a = s")
      case True
      then have "u = False" using that dis by force
      then show ?thesis using True d(6) [of s n True] mg fr by (simp add: item_ok_def mh_frame_def)
    next
      case False
      then show ?thesis using that d(6) [of a b u] mg by (intro item_ok_cong [OF _ _ _ fr, of a u]) auto
    qed
    show "mh_available_size h' = free_sum (xs @ (s, n, False) # ys)"
      using d(11) free_sum_le [OF sn] d(10) by (simp add: h'_def)
  qed (use sn in simp_all)
qed

lemma shape_merge_left:
  assumes "memheap_shape h (zs @ (t, s, False) # (s, n, False) # ys) fs e"
  shows "memheap_shape (merge_left s h) (zs @ (t, n, False) # ys) fs e"
proof (rule memheap_shapeI [OF assms merge_left_frame(6)])
  note d = memheap_shapeD [OF assms]
  have sn: "spans (mh_start_addr h) (zs @ (t, n, False) # ys) e" "t + 36 \<le> s" "s + 36 \<le> n" using d(4) by (auto simp: spans_append)
  show "ring (plinks (merge_left s h)) e (map fst (zs @ (t, n, False) # ys))"
    using merge_left_ring [of h e "map fst zs @ [t]" s "map fst ys"] d(1) by simp
  have "flinks (merge_left s h) = flinks h" by (rule links_cong) simp
  then show "ring (flinks (merge_left s h)) (mh_free_header h) fs" using d(2) by simp
  show "item_ok (merge_left s h) a u" if "(a, b, u) \<in> set (zs @ (t, n, False) # ys)" for a b u
    using that d(6) [of a b u] d(6) [of t s False] by (auto intro: item_ok_cong)
  show "item_ok (merge_left s h) e True" using d(7) by (auto intro: item_ok_cong)
  show "mh_available_size (merge_left s h) = free_sum (zs @ (t, n, False) # ys)"
    using d(11) free_sum_le [OF sn(1)] sn(2,3) d(10) by simp
  show "spans (mh_start_addr h) (zs @ (t, n, False) # ys) e" by (rule sn(1))
qed simp

lemma shape_absorb_next:
  assumes "memheap_shape h (us @ (p, n, False) # (n, n', False) # ys) (fa @ n # fb) e"
  defines "h' \<equiv> absorb_next p n (h\<lparr>mh_available_size := (mh_available_size h + 24) mod 2 ^ 32\<rparr>)"
  shows "memheap_shape h' (us @ (p, n', False) # ys) (fa @ fb) e" "mh_frame h h'"
proof -
  note d = memheap_shapeD [OF assms(1)]
  let ?h = "h\<lparr>mh_available_size := (mh_available_size h + 24) mod 2 ^ 32\<rparr>"
  have eq: "plinks ?h = plinks h" "flinks ?h = flinks h" by (rule links_cong, simp)+
  have sn: "spans (mh_start_addr h) (us @ (p, n', False) # ys) e" "p + 36 \<le> n" "n + 36 \<le> n'" using d(4) by (auto simp: spans_append)
  show fr: "mh_frame h h'" using absorb_next_frame(4) [of ?h p n] by (simp add: h'_def mh_frame_def)
  show "memheap_shape h' (us @ (p, n', False) # ys) (fa @ fb) e"
  proof (rule memheap_shapeI [OF assms(1) fr])
    show "ring (plinks h') e (map fst (us @ (p, n', False) # ys))"
      using absorb_next_ring [of ?h e "map fst us" p n "map fst ys"] d(1) eq by (simp add: h'_def)
    show "ring (flinks h') (mh_free_header h) (fa @ fb)" using absorb_next_free_ring [of ?h _ fa n fb p] d(2) eq by (simp add: h'_def)
    have ok: "item_ok h' a u" if "item_ok h a u" for a u by (rule item_ok_cong [OF that _ _ fr]) (simp_all add: h'_def)
    show "item_ok h' a u" if "(a, b, u) \<in> set (us @ (p, n', False) # ys)" for a b u
      using that ok d(6) [of a b u] d(6) [of p n False] by auto
    show "item_ok h' e True" by (rule ok [OF d(7)])
    show "mh_available_size h' = free_sum (us @ (p, n', False) # ys)" using d(11) free_sum_le [OF sn(1)] sn(2,3) d(10) by (simp add: h'_def)
  qed (use sn(1) in simp_all)
qed


lemma magic_mask: "item_ok h s u \<Longrightarrow> mi_magic (mh_items h s) AND 0xfffffffe = 0x1ea01ea0"
  by (auto simp: item_ok_def)

text \<open>The guards of \<open>rt_memheap_free\<close> hold for a block in use.\<close>

lemma free_guards:
  assumes "memheap_shape h (xs @ (s, n, True) # ys) fs e"
  shows "mi_magic (mh_items h s) AND 0xfffffffe = 0x1ea01ea0" "mi_magic (mh_items h n) AND 0xfffffffe = 0x1ea01ea0"
    "mi_pool (mh_items h s) = mh_self h" "sub32 (s + 24) 24 = s"
proof -
  note d = memheap_shapeD [OF assms] and sp = spans_split [OF memheap_shapeD(4) [OF assms]]
  have s: "item_ok h s True" using d(6) [of s n True] by simp
  then show "mi_magic (mh_items h s) AND 0xfffffffe = 0x1ea01ea0" "mi_pool (mh_items h s) = mh_self h"
    using magic_mask by (auto simp: item_ok_def)
  show "mi_magic (mh_items h n) AND 0xfffffffe = 0x1ea01ea0"
  proof (cases ys)
    case Nil
    then show ?thesis using sp(2) d(7) magic_mask by auto
  next
    case (Cons y ys')
    then obtain n' u where "ys = (n, n', u) # ys'" using sp(2) by (cases y) auto
    then show ?thesis using d(6) [of n n' u] magic_mask by auto
  qed
  show "sub32 (s + 24) 24 = s" using sp(3,5) d(10) by simp
qed

text \<open>Left: the state, the blocks before and the start of the free block after a merge with the left neighbour.\<close>

lemma free_left:
  assumes "memheap_shape h (xs @ (s, n, False) # ys) fs e"
  defines "left \<equiv> \<not> RT_MEMHEAP_IS_USED (mi_prev (mh_items h s)) h"
  defines "h' \<equiv> if left then merge_left s h else h" and "p \<equiv> if left then mi_prev (mh_items h s) else s"
  obtains us where "memheap_shape h' (us @ (p, n, False) # ys) fs e" "mh_frame h h'" "\<not> left \<Longrightarrow> us = xs \<and> (xs = [] \<or> snd (snd (last xs)))"
    "left \<Longrightarrow> xs = us @ [(p, s, False)]"
proof -
  note d = memheap_shapeD [OF assms(1)] and f = item_fields [OF assms(1)] and sp = spans_split [OF memheap_shapeD(4) [OF assms(1)]]
  show thesis
  proof (cases xs rule: rev_cases)
    case Nil
    then have "mi_prev (mh_items h s) = e" using f(2) by simp
    then have "\<not> left" using d(7) by (auto simp: left_def item_ok_def RT_MEMHEAP_IS_USED_def)
    then show thesis using that [of xs] assms(1) Nil by (simp add: h'_def p_def)
  next
    case (snoc zs b)
    obtain t m u where b: "b = (t, m, u)" by (metis prod_cases3)
    have prev: "mi_prev (mh_items h s) = t" using f(2) snoc b by simp
    have "m = s" using sp(1) by (auto simp: snoc b spans_append)
    have sh: "memheap_shape h (zs @ (t, s, u) # (s, n, False) # ys) fs e" using assms(1) \<open>m = s\<close> by (simp add: snoc b)
    have "left \<longleftrightarrow> \<not> u" using item_fields(4) [OF sh] prev by (simp add: left_def)
    show thesis
    proof (cases u)
      case True
      then show thesis using that [of xs] assms(1) \<open>left \<longleftrightarrow> \<not> u\<close> snoc b by (simp add: h'_def p_def)
    next
      case False
      then show thesis using that [of zs] shape_merge_left [of h zs t s n ys fs e] sh \<open>left \<longleftrightarrow> \<not> u\<close> prev snoc b \<open>m = s\<close>
        by (simp add: h'_def p_def)
    qed
  qed
qed

lemma free_right:
  assumes "memheap_shape h (us @ (p, n, False) # ys) fs e" "\<And>n' ys'. ys = (n, n', False) # ys' \<Longrightarrow> n \<in> set fs"
  defines "h' \<equiv> if \<not> RT_MEMHEAP_IS_USED n h then absorb_next p n (h\<lparr>mh_available_size := (mh_available_size h + 24) mod 2 ^ 32\<rparr>) else h"
  obtains fs' where "memheap_shape h' (us @ (p, fst (absorb n ys), False) # snd (absorb n ys)) fs' e" "mh_frame h h'"
    "set fs' = (if snd (absorb n ys) = ys then set fs else set fs - {n})"
proof -
  note d = memheap_shapeD [OF assms(1)] and sp = spans_split [OF memheap_shapeD(4) [OF assms(1)]]
  consider (free) n' ys' where "ys = (n, n', False) # ys'" | (used) "absorb n ys = (n, ys)" "RT_MEMHEAP_IS_USED n h"
  proof (cases ys)
    case Nil
    then show thesis using that(2) sp(2) d(7) by (auto simp: item_ok_def RT_MEMHEAP_IS_USED_def)
  next
    case (Cons y ys')
    then obtain n' u where y: "ys = (n, n', u) # ys'" using sp(2) by (cases y) auto
    show thesis
    proof (cases u)
      case True
      then show thesis using that(2) y d(6) [of n n' u] by (auto simp: item_ok_def RT_MEMHEAP_IS_USED_def)
    next
      case False
      then show thesis using that(1) y by simp
    qed
  qed
  then show thesis
  proof cases
    case free
    have "n \<in> set fs" by (rule assms(2) [OF free])
    then obtain fa fb where fs: "fs = fa @ n # fb" by (meson split_list)
    have "\<not> RT_MEMHEAP_IS_USED n h" using free d(6) [of n n' False] by (auto simp: item_ok_def RT_MEMHEAP_IS_USED_def)
    moreover have "n \<notin> set (fa @ fb)" using d(2) fs by (auto simp: ring_def)
    moreover have "ys \<noteq> ys'" using free by auto
    ultimately show thesis using that [of "fa @ fb"] shape_absorb_next [of h us p n n' ys' fa fb e] assms(1) free fs
      by (auto simp: h'_def)
  next
    case used
    then show thesis using that [of fs] assms(1) by (simp add: h'_def)
  qed
qed


lemma free_starts_joined:
  assumes "spans a (xs @ (s, n, True) # ys) e"
  shows "free_starts (joined xs s n ys) =
    (if xs \<noteq> [] \<and> \<not> snd (snd (last xs)) then id else insert s) (if snd (absorb n ys) = ys then free_starts (xs @ ys) else free_starts (xs @ ys) - {n})"
proof -
  note sp = spans_split [OF assms]
  have xs: "n \<notin> free_starts xs" using spans_mem [OF sp(1)] sp(3) by (force simp: free_starts_def)
  obtain n' ys' where ab: "absorb n ys = (n', ys')" by fastforce
  have ys: "free_starts ys' = (if ys' = ys then free_starts ys else free_starts ys - {n})"
  proof (rule absorb_cases [of ys n])
    fix n2 ys2 x assume y: "ys = (x, n2, False) # ys2" "absorb n ys = (n2, ys2)"
    then have "n \<notin> free_starts ys2" "x = n" using sp(2) spans_mem [of n2 ys2 e n _ False] by (auto simp: free_starts_def)
    then show ?thesis using y ab by auto
  qed (use ab in auto)
  show ?thesis
  proof (cases xs rule: rev_cases)
    case (snoc zs b)
    then show ?thesis using ys ab xs by (cases b) (auto simp: joined_def)
  qed (use ys ab xs in \<open>auto simp: joined_def\<close>)
qed

lemma rt_memheap_free_spec:
  assumes inv: "memheap_inv h (xs @ (s, n, True) # ys) fs e"
  obtains h' fs' where "rt_memheap_free (Some (s + 24)) h = Some h'" "memheap_inv h' (joined xs s n ys) fs' e" "mh_frame h h'"
proof -
  have sh: "memheap_shape h (xs @ (s, n, True) # ys) fs e" and co: "coalesced (xs @ (s, n, True) # ys)"
    and fs: "set fs = free_starts (xs @ (s, n, True) # ys)" using inv by (simp_all add: memheap_inv_shape)
  note g = free_guards [OF sh] and f = item_fields [OF sh] and d = memheap_shapeD [OF sh] and sp = spans_split [OF memheap_shapeD(4) [OF sh]]
  define h1 where "h1 = (upd_item s (\<lambda>m. m\<lparr>mi_magic := mi_magic m AND NOT 1\<rparr>) h)\<lparr>mh_available_size := (mh_available_size h + (n - s - 24)) mod 2 ^ 32\<rparr>"
  have s1: "memheap_shape h1 (xs @ (s, n, False) # ys) fs e" "mh_frame h h1" unfolding h1_def using shape_mark_free [OF sh] by simp_all
  define left where "left = (\<not> RT_MEMHEAP_IS_USED (mi_prev (mh_items h1 s)) h1)"
  define h2 where "h2 = (if left then merge_left s h1 else h1)"
  define p where "p = (if left then mi_prev (mh_items h1 s) else s)"
  obtain us where s2: "memheap_shape h2 (us @ (p, n, False) # ys) fs e" "mh_frame h1 h2" "\<not> left \<Longrightarrow> us = xs \<and> (xs = [] \<or> snd (snd (last xs)))"
    "left \<Longrightarrow> xs = us @ [(p, s, False)]" using free_left [OF s1(1)] unfolding left_def [symmetric] h2_def [symmetric] p_def [symmetric] by blast
  define h3 where "h3 = (if \<not> RT_MEMHEAP_IS_USED n h2 then absorb_next p n (h2\<lparr>mh_available_size := (mh_available_size h2 + 24) mod 2 ^ 32\<rparr>) else h2)"
  have nf: "n \<in> set fs" if "ys = (n, n', False) # ys'" for n' ys' using that fs by simp
  obtain fs2 where s3: "memheap_shape h3 (us @ (p, fst (absorb n ys), False) # snd (absorb n ys)) fs2 e" "mh_frame h2 h3"
    "set fs2 = (if snd (absorb n ys) = ys then set fs else set fs - {n})"
    by (rule free_right [OF s2(1) nf, folded h3_def])
  have jo: "joined xs s n ys = us @ (p, fst (absorb n ys), False) # snd (absorb n ys)"
    using s2(3,4) by (cases left) (auto simp: joined_def p_def split_def Let_def)
  have fr: "mh_frame h h3" using s1(2) s2(2) s3(2) mh_frame_trans by blast
  have nx: "mi_next (mh_items h2 p) = n" by (rule item_fields(1) [OF s2(1)])
  let ?u = "upd_item s (\<lambda>m. m\<lparr>mi_magic := mi_magic m AND NOT 1\<rparr>) h"
  have "MEMITEM_SIZE s ?u = n - s - 24" using f(3) by (simp add: MEMITEM_SIZE_def)
  then have u1: "?u\<lparr>mh_available_size := (mh_available_size ?u + MEMITEM_SIZE s ?u) mod 2 ^ 32\<rparr> = h1" by (simp only: h1_def upd_item_simps)
  have guard: "\<not> (mi_magic (mh_items h s) AND 0xfffffffe \<noteq> 0x1ea01ea0 \<or> \<not> RT_MEMHEAP_IS_USED s h \<or>
      mi_magic (mh_items h (mi_next (mh_items h s))) AND 0xfffffffe \<noteq> 0x1ea01ea0 \<or> mi_pool (mh_items h s) \<noteq> mh_self h)"
    using g(1-3) f(1,4) by simp
  have run: "rt_memheap_free (Some (s + 24)) h = Some (if left then h3 else free_insert p h3)"
    unfolding rt_memheap_free_def option.case Let_def g(4) if_not_P [OF guard] u1 left_def [symmetric] h2_def [symmetric] p_def [symmetric] nx h3_def [symmetric]
    by (rule refl)
  have st: "free_starts (joined xs s n ys) = (if left then set fs2 else insert s (set fs2))"
    using free_starts_joined [OF d(4)] s2(3,4) s3(3) fs by (cases left) auto
  show thesis
  proof (cases left)
    case True
    then show thesis using that [of h3 fs2] run s3(1) fr coalesced_joined [OF co] st by (simp add: memheap_inv_shape jo)
  next
    case False
    have "s \<notin> set fs" using header_places(4) [OF inv] fs free_starts_fst [of xs] free_starts_fst [of ys] by auto
    moreover have "mh_free_header h \<noteq> s" using header_places(1) [OF inv, of s n True] by auto
    ultimately have "p \<notin> set (mh_free_header h3 # fs2)" using False s3(3) fr by (auto simp: p_def mh_frame_def split: if_splits)
    then have "memheap_shape (free_insert p h3) (joined xs s n ys) (p # fs2) e" using shape_free_insert [OF s3(1)] by (simp add: jo)
    then show thesis using that [of "free_insert p h3" "p # fs2"] run False coalesced_joined [OF co] st mh_frame_trans [OF fr free_insert_frame(6)]
      by (simp add: memheap_inv_shape p_def)
  qed
qed


section \<open>The operations on the blocks in use\<close>

lemma memheap_align_simps:
  "12 \<le> memheap_align n" "4 dvd memheap_align n" "n + 3 < 2 ^ 32 \<Longrightarrow> n \<le> memheap_align n"
  using align_up4_simps [of n] by (auto simp: memheap_align_def Let_def)

text \<open>Taking a fitting free block, split or whole, puts one block in use and leaves the others.\<close>

lemma memheap_take_spec:
  assumes inv: "memheap_inv h bs fs e" and s: "s \<in> set fs" and sz: "sz \<le> MEMITEM_SIZE s h" "4 dvd sz" "12 \<le> sz"
  defines "h' \<equiv> memheap_take s (MEMITEM_SIZE s h) sz h"
  obtains n m bs' fs' where "(s, n, False) \<in> set bs" "MEMITEM_SIZE s h = n - s - 24" "memheap_inv h' bs' fs' e" "mh_frame h h'"
    "live bs' = insert (s, m) (live bs)" "s + 24 + sz \<le> m" "m \<le> n" "m < s + sz + 60"
proof -
  obtain n where n: "(s, n, False) \<in> set bs" using header_places(2) [OF inv s] by blast
  then obtain xs ys where bs: "bs = xs @ (s, n, False) # ys" by (meson split_list)
  obtain fa fb where fs: "fs = fa @ s # fb" using s by (meson split_list)
  note i = inv [unfolded bs fs]
  have z: "MEMITEM_SIZE s h = n - s - 24" by (rule item_fields(3) [OF i [unfolded memheap_inv_shape, THEN conjunct1]])
  show thesis
  proof (cases "sz + 36 \<le> n - s - 24")
    case True
    note t = take_split [OF i True sz(2,3), folded z h'_def]
    show thesis by (rule that [OF n z t]) (use True bs in auto)
  next
    case False
    have c: "sz \<le> n - s - 24" "n - s - 24 < sz + 36" using False sz(1) z by simp_all
    note t = take_whole [OF i c, folded z h'_def]
    show thesis by (rule that [OF n z t]) (use c bs sz(3) in auto)
  qed
qed

lemma rt_memheap_alloc_spec:
  assumes inv: "memheap_inv h bs fs e"
  shows "case find (\<lambda>s. memheap_align sz \<le> MEMITEM_SIZE s h) fs of
      None \<Rightarrow> rt_memheap_alloc sz h = Some (None, h)
    | Some s \<Rightarrow> rt_memheap_alloc sz h =
        Some (if memheap_align sz < mh_available_size h
              then (Some (s + 24), memheap_take s (MEMITEM_SIZE s h) (memheap_align sz) h) else (None, h))"
proof -
  have r: "ring (flinks h) (mh_free_list h) ([] @ fs)" using memheap_invD(2,3) [OF inv] by simp
  have hd: "mi_next_free (mh_items h (mh_free_list h)) = hd (fs @ [mh_free_list h])" using ring_head(1) [of "flinks h" _ fs] r by simp
  have "0 < memheap_align sz" using memheap_align_simps(1) [of sz] by linarith
  note f = memheap_find_spec [OF r this]
  show ?thesis
  proof (cases "find (\<lambda>s. memheap_align sz \<le> MEMITEM_SIZE s h) fs")
    case None
    then obtain f' where "memheap_find (memheap_align sz) (hd (fs @ [mh_free_list h])) 0 h = Some (mh_free_list h, f')" "f' < memheap_align sz"
      using f by auto
    then show ?thesis using hd None by (simp add: rt_memheap_alloc_def Let_def)
  next
    case (Some s)
    then have "memheap_align sz \<le> MEMITEM_SIZE s h" by (auto simp: find_Some_iff)
    then show ?thesis using f hd Some by (auto simp: rt_memheap_alloc_def Let_def)
  qed
qed


section \<open>Reallocation\<close>

lemma block_unlink_ring:
  assumes "ring (plinks h) e (xs @ p # ys)"
  shows "ring (plinks (block_unlink p h)) e (xs @ ys)"
proof -
  note nb = ring_neighbours [OF assms, simplified]
  have d: "hd (ys @ [e]) \<noteq> p" "last (e # xs) \<noteq> p" using assms by (cases ys; auto simp: ring_def)+
  show ?thesis by (rule ring_delete [OF assms]) (use nb d in \<open>auto simp: block_unlink_def Let_def\<close>)
qed

lemma block_unlink_frame [simp]:
  "mi_next_free (mh_items (block_unlink p h) a) = mi_next_free (mh_items h a)" "mi_prev_free (mh_items (block_unlink p h) a) = mi_prev_free (mh_items h a)"
  "mi_magic (mh_items (block_unlink p h) a) = mi_magic (mh_items h a)" "mi_pool (mh_items (block_unlink p h) a) = mi_pool (mh_items h a)"
  "mh_available_size (block_unlink p h) = mh_available_size h" "mh_frame h (block_unlink p h)"
  by (simp_all add: block_unlink_def Let_def mh_frame_def)

lemma realloc_grow_spec:
  assumes inv: "memheap_inv h (xs @ (s, n, True) # (n, n2, False) # ys) fs e" and k: "4 dvd k" "n - s - 24 < k" "s + 24 + k + 36 < n2"
  defines "h' \<equiv> realloc_grow s n (n - s - 24) k h" and "m \<equiv> s + 24 + k"
  shows "\<exists>fs'. memheap_inv h' (xs @ (s, m, True) # (m, n2, False) # ys) fs' e" "mh_frame h h'"
proof -
  note d = memheap_invD [OF inv] and hp = header_places [OF inv] and sp = spans_split [OF memheap_invD(4) [OF inv]]
  have i2: "memheap_inv h ((xs @ [(s, n, True)]) @ (n, n2, False) # ys) fs e" using inv by simp
  note sp2 = spans_split [OF memheap_invD(4) [OF i2]]
  have w: "n < m" "m < n2" "m + 36 < n2" "m < 2 ^ 32" "s < m" "k < 2 ^ 32" "s + 36 \<le> n" "n + 36 \<le> n2" "n2 \<le> e"
    using k sp(3) sp2(3,5) d(12) unfolding m_def by linarith+
  note new = new_header [OF i2 w(1,2)]
  have "n \<in> set fs" using d(9) by simp
  then obtain fa fb where fs: "fs = fa @ n # fb" by (meson split_list)
  define h1 where "h1 = max_used (h\<lparr>mh_available_size := sub32 (mh_available_size h) (sub32 k (n - s - 24))\<rparr>)"
  define h2 where "h2 = block_split s m (block_unlink n (free_unlink n h1))"
  have h': "h' = free_insert m h2" using w(4) by (simp add: h'_def realloc_grow_def Let_def h2_def h1_def m_def)
  have "mh_frame h h1" by (simp add: h1_def mh_frame_def)
  then have fr2: "mh_frame h h2" unfolding h2_def using mh_frame_trans block_split_frame(4) block_unlink_frame(6) free_unlink_frame(6) by blast
  show fr: "mh_frame h h'" unfolding h' using mh_frame_trans [OF fr2 free_insert_frame(6)] .
  have l1: "plinks (free_unlink n h1) = plinks h" "flinks h1 = flinks h" by (rule links_cong, simp add: h1_def)+
  have pr: "ring (plinks (block_unlink n (free_unlink n h1))) e (map fst xs @ s # map fst ys)"
    using block_unlink_ring [of "free_unlink n h1" e "map fst xs @ [s]" n "map fst ys"] d(1) l1(1) by simp
  have "memheap_inv h' (xs @ (s, m, True) # (m, n2, False) # ys) (m # fa @ fb) e"
  proof (rule memheap_invI [OF inv fr])
    have "plinks h' = plinks h2" unfolding h' by (rule links_cong(1)) simp
    then show "ring (plinks h') e (map fst (xs @ (s, m, True) # (m, n2, False) # ys))"
      using block_split_ring [OF pr, of m] new(1) by (simp add: h2_def)
    have "flinks h2 = flinks (free_unlink n h1)" unfolding h2_def by (rule links_cong(2)) simp
    then have "ring (flinks h2) (mh_free_list h2) (fa @ fb)"
      using free_unlink_ring [of h1 _ fa n fb] l1(2) d(2,3) fs fr2 by (simp add: mh_frame_def)
    then show "ring (flinks h') (mh_free_header h) (m # fa @ fb)"
      unfolding h' using free_insert_ring [of h2 "fa @ fb" m] new(2,3) fs fr2 d(3) by (simp add: mh_frame_def)
    have "4 dvd m" using sp(6) k(1) by (simp add: m_def)
    then show "spans (mh_start_addr h) (xs @ (s, m, True) # (m, n2, False) # ys) e" using d(4) w by (auto simp: spans_append m_def)
    show "coalesced (xs @ (s, m, True) # (m, n2, False) # ys)" using d(6) by (auto simp: coalesced_append coalesced_Cons)
    have self: "mh_self h' = mh_self h" using fr by (simp add: mh_frame_def)
    have mg: "mi_magic (mh_items h' a) = (if a = m then 0x1ea01ea0 else mi_magic (mh_items h a))"
      "mi_pool (mh_items h' a) = (if a = m then mh_self h else mi_pool (mh_items h a))" for a
      unfolding h' h2_def h1_def using w(5) by (simp_all add: block_split_magic) (simp_all add: block_unlink_def free_unlink_def Let_def)
    show "item_ok h' e True" using d(8) mg self new(1) by (auto simp: item_ok_def)
    show "item_ok h' a u" if "(a, b, u) \<in> set (xs @ (s, m, True) # (m, n2, False) # ys)" for a b u
      using that d(7) [of a b u] d(7) [of s n True] mg self new(1) w(5) by (auto simp: item_ok_def image_iff)
    have "n \<notin> free_starts xs" "n \<notin> free_starts ys" using hp(4) free_starts_fst [of xs] free_starts_fst [of ys] by auto
    then show "set (m # fa @ fb) = free_starts (xs @ (s, m, True) # (m, n2, False) # ys)" using d(9) hp(5) fs by auto
    have "free_sum (xs @ (s, n, True) # (n, n2, False) # ys) < 2 ^ 32" using free_sum_le [OF d(4)] d(12) by linarith
    then show "mh_available_size h' = free_sum (xs @ (s, m, True) # (m, n2, False) # ys)"
      using d(13) w k(2) by (simp add: h' h2_def h1_def m_def)
  qed simp
  then show "\<exists>fs'. memheap_inv h' (xs @ (s, m, True) # (m, n2, False) # ys) fs' e" by blast
qed

text \<open>The state after the rest behind the cut has taken in a free block that follows it; the rest is not in the free list yet.\<close>

lemma cut_absorb:
  assumes inv: "memheap_inv h (xs @ (s, n, True) # ys) fs e" and k: "s < m" "m < n"
  defines "h1 \<equiv> block_split s m h"
  defines "h2 \<equiv> if \<not> RT_MEMHEAP_IS_USED n h1 then absorb_next m n (h1\<lparr>mh_available_size := sub32 (mh_available_size h1) (MEMITEM_SIZE n h1)\<rparr>) else h1"
  obtains fs2 where "ring (plinks h2) e (map fst (xs @ (s, m, True) # (m, fst (absorb n ys), False) # snd (absorb n ys)))"
    "ring (flinks h2) (mh_free_header h) fs2" "set fs2 = free_starts (xs @ snd (absorb n ys))" "mh_frame h h2"
    "mh_available_size h2 = free_sum (xs @ snd (absorb n ys))"
    "\<And>a. mi_magic (mh_items h2 a) = mi_magic (mh_items h1 a)" "\<And>a. mi_pool (mh_items h2 a) = mi_pool (mh_items h1 a)"
proof -
  note d = memheap_invD [OF inv] and hp = header_places [OF inv] and sp = spans_split [OF memheap_invD(4) [OF inv]]
  note new = new_header [OF inv k]
  have r1: "ring (plinks h1) e (map fst xs @ s # m # map fst ys)"
    unfolding h1_def using block_split_ring [of h e "map fst xs" s "map fst ys" m] d(1) new(1) by simp
  have f1: "flinks h1 = flinks h" unfolding h1_def by (rule links_cong(2)) simp
  have mg: "mi_magic (mh_items h1 a) = (if a = m then 0x1ea01ea0 else mi_magic (mh_items h a))" for a
    unfolding h1_def using k(1) by (simp add: block_split_magic)
  have fr1: "mh_frame h h1" "mh_available_size h1 = free_sum (xs @ ys)" using d(13) by (simp_all add: h1_def)
  show thesis
  proof (rule absorb_cases [of ys n])
    fix n2 ys2 x assume y: "ys = (x, n2, False) # ys2" "absorb n ys = (n2, ys2)"
    have x: "x = n" "n + 36 \<le> n2" "n2 \<le> e" using sp(2) y(1) spans_le [of n2 ys2 e] by auto
    have free: "\<not> RT_MEMHEAP_IS_USED n h1" using d(7) [of n n2 False] y(1) x(1) k by (auto simp: mg item_ok_def RT_MEMHEAP_IS_USED_def)
    have nx: "mi_next (mh_items h1 n) = hd (map fst ys2 @ [e])"
      using ring_neighbours(1) [of "plinks h1" e "map fst xs @ [s, m]" n "map fst ys2"] r1 y(1) x(1) by simp
    moreover have "hd (map fst ys2 @ [e]) = n2" using sp(2) y(1) by (cases ys2) auto
    ultimately have sz: "MEMITEM_SIZE n h1 = n2 - n - 24" using x(2,3) d(12) by (simp add: MEMITEM_SIZE_def)
    let ?h = "h1\<lparr>mh_available_size := sub32 (mh_available_size h1) (MEMITEM_SIZE n h1)\<rparr>"
    have h2: "h2 = absorb_next m n ?h" using free by (simp add: h2_def)
    have eq: "plinks ?h = plinks h1" "flinks ?h = flinks h" using f1 links_cong [of ?h h1] by simp_all
    have "n \<in> set fs" using d(9) y(1) x(1) by simp
    then obtain fa fb where fs: "fs = fa @ n # fb" by (meson split_list)
    have "n \<notin> free_starts xs" "n \<notin> free_starts ys2" using hp(4) y(1) x(1) free_starts_fst [of xs] free_starts_fst [of ys2] by auto
    then have "set (fa @ fb) = free_starts (xs @ ys2)" using d(9) hp(5) fs y(1) x(1) by auto
    moreover have "ring (plinks h2) e (map fst xs @ s # m # map fst ys2)"
      using absorb_next_ring [of ?h e "map fst xs @ [s]" m n "map fst ys2"] r1 y(1) x(1) eq(1) by (simp add: h2)
    moreover have "ring (flinks h2) (mh_free_header h) (fa @ fb)"
      using absorb_next_free_ring [of ?h _ fa n fb m] d(2) fs eq(2) by (simp add: h2)
    moreover have "mh_frame h h2" using fr1(1) absorb_next_frame(4) [of ?h m n] by (simp add: h2 mh_frame_def)
    moreover have "free_sum (xs @ ys) < 2 ^ 32" using free_sum_le [OF d(4)] d(12) by simp
    then have "mh_available_size h2 = free_sum (xs @ ys2)" using fr1(2) sz y(1) x(1) by (simp add: h2)
    ultimately show thesis using that [of "fa @ fb"] y(2) by (simp add: h2)
  next
    assume y: "absorb n ys = (n, ys)" "ys = [] \<or> snd (snd (hd ys))"
    have "RT_MEMHEAP_IS_USED n h1"
    proof (cases ys)
      case Nil
      then show ?thesis using sp(2) d(8) new(1) by (auto simp: mg item_ok_def RT_MEMHEAP_IS_USED_def)
    next
      case (Cons b ys2)
      then obtain n2 where "ys = (n, n2, True) # ys2" using sp(2) y(2) by (cases b) auto
      then show ?thesis using d(7) [of n n2 True] k by (auto simp: mg item_ok_def RT_MEMHEAP_IS_USED_def)
    qed
    then have "h2 = h1" by (simp add: h2_def)
    then show thesis using that [of fs] y(1) r1 f1 d(2,9) fr1 by simp
  qed
qed

lemma realloc_cut_spec:
  assumes inv: "memheap_inv h (xs @ (s, n, True) # ys) fs e" and k: "4 dvd k" "12 \<le> k" "s + 24 + k + 36 \<le> n"
  defines "h' \<equiv> realloc_cut s k h" and "m \<equiv> s + 24 + k"
  shows "\<exists>fs'. memheap_inv h' (xs @ (s, m, True) # (m, fst (absorb n ys), False) # snd (absorb n ys)) fs' e" "mh_frame h h'"
proof -
  note d = memheap_invD [OF inv] and sp = spans_split [OF memheap_invD(4) [OF inv]]
  obtain n2 ys2 where ab: "absorb n ys = (n2, ys2)" by fastforce
  have w: "s < m" "m < n" "m < 2 ^ 32" "m + 36 \<le> n" using k sp(3,5) d(12) unfolding m_def by linarith+
  have n2: "n \<le> n2" "n2 \<le> e" "spans n2 ys2 e" "coalesced ys2 \<and> (ys2 = [] \<or> snd (snd (hd ys2)))" "set ys2 \<subseteq> set ys"
    by (rule absorb_cases [of ys n]; use sp(2) ab d(6) spans_le [of n2 ys2 e] in \<open>auto simp: coalesced_append coalesced_Cons\<close>)+
  note new = new_header [OF inv w(1,2)]
  define h1 where "h1 = block_split s m h"
  define h2 where "h2 = (if \<not> RT_MEMHEAP_IS_USED n h1 then absorb_next m n (h1\<lparr>mh_available_size := sub32 (mh_available_size h1) (MEMITEM_SIZE n h1)\<rparr>) else h1)"
  obtain fs2 where c: "ring (plinks h2) e (map fst (xs @ (s, m, True) # (m, n2, False) # ys2))"
    "ring (flinks h2) (mh_free_header h) fs2" "set fs2 = free_starts (xs @ ys2)" "mh_frame h h2"
    "mh_available_size h2 = free_sum (xs @ ys2)"
    "\<And>a. mi_magic (mh_items h2 a) = mi_magic (mh_items h1 a)" "\<And>a. mi_pool (mh_items h2 a) = mi_pool (mh_items h1 a)"
    using cut_absorb [OF inv w(1,2), folded h1_def, folded h2_def] unfolding ab fst_conv snd_conv by blast
  define h3 where "h3 = free_insert m h2"
  have mn: "mi_next (mh_items h1 m) = n"
  proof -
    have "mi_next (mh_items h s) = n" using item_fields(1) [of h xs s n True ys fs e] inv by (simp add: memheap_inv_shape)
    then show ?thesis using w by (auto simp: h1_def block_split_def Let_def)
  qed
  have "mi_next (mh_items h2 m) = hd (map fst ys2 @ [e])"
    using ring_neighbours(1) [of "plinks h2" e "map fst xs @ [s]" m "map fst ys2"] c(1) by simp
  moreover have "hd (map fst ys2 @ [e]) = n2" using n2(3) by (cases ys2) auto
  ultimately have sz: "MEMITEM_SIZE m h3 = n2 - m - 24" using n2(1,2) w d(12) by (simp add: MEMITEM_SIZE_def h3_def)
  have m: "(s + k + 24) mod 2 ^ 32 = m" and av: "mh_available_size h3 = free_sum (xs @ ys2)" using w(3) c(5) by (simp_all add: m_def h3_def)
  have h': "h' = h3\<lparr>mh_available_size := (free_sum (xs @ ys2) + (n2 - m - 24)) mod 2 ^ 32\<rparr>"
    unfolding h'_def realloc_cut_def Let_def m h1_def [symmetric] mn h2_def [symmetric] h3_def [symmetric] sz av by (rule refl)
  have fr3: "mh_frame h h3" unfolding h3_def by (rule mh_frame_trans [OF c(4) free_insert_frame(6)])
  then show fr: "mh_frame h h'" by (simp add: h' mh_frame_def)
  have sn: "spans (mh_start_addr h) (xs @ (s, m, True) # (m, n2, False) # ys2) e"
    using d(4) n2 w k sp(1,6) by (auto simp: spans_append m_def)
  have "memheap_inv h' (xs @ (s, m, True) # (m, n2, False) # ys2) (m # fs2) e"
  proof (rule memheap_invI [OF inv fr _ _ sn])
    have "plinks h' = plinks h2" "flinks h' = flinks h3" unfolding h' h3_def by (rule links_cong, simp)+
    then show "ring (plinks h') e (map fst (xs @ (s, m, True) # (m, n2, False) # ys2))" using c(1) by simp
    have "m \<notin> set fs2" using new(1) c(3) n2(5) free_starts_fst [of xs] free_starts_fst [of ys2] by force
    then show "ring (flinks h') (mh_free_header h) (m # fs2)" unfolding \<open>flinks h' = flinks h3\<close> h3_def
      using free_insert_ring [of h2 fs2 m] c(2,4) d(3) new(2) by (simp add: mh_frame_def)
    show "coalesced (xs @ (s, m, True) # (m, n2, False) # ys2)" using d(6) n2(4) by (auto simp: coalesced_append coalesced_Cons)
    have mg: "mi_magic (mh_items h' a) = (if a = m then 0x1ea01ea0 else mi_magic (mh_items h a))"
      "mi_pool (mh_items h' a) = (if a = m then mh_self h else mi_pool (mh_items h a))" for a
      using c(6,7) [of a] w(1) by (simp_all add: h' h3_def h1_def block_split_magic)
    have self: "mh_self h' = mh_self h" using fr by (simp add: mh_frame_def)
    show "item_ok h' e True" using d(8) mg self new(1) by (auto simp: item_ok_def)
    have "(m, b, u) \<notin> set ys" for b u using new(1) by force
    then show "item_ok h' a u" if "(a, b, u) \<in> set (xs @ (s, m, True) # (m, n2, False) # ys2)" for a b u
      using that subsetD [OF n2(5), of "(a, b, u)"] d(7) [of a b u] d(7) [of s n True] mg self new(1) w(1) by (auto simp: item_ok_def image_iff)
    show "set (m # fs2) = free_starts (xs @ (s, m, True) # (m, n2, False) # ys2)" using c(3) by simp
    show "mh_available_size h' = free_sum (xs @ (s, m, True) # (m, n2, False) # ys2)"
      using free_sum_le [OF sn] d(12) by (simp add: h')
  qed simp
  then show "\<exists>fs'. memheap_inv h' (xs @ (s, m, True) # (m, fst (absorb n ys), False) # snd (absorb n ys)) fs' e" unfolding ab by auto
qed

section \<open>Initialisation\<close>

lemma rt_memheap_init_inv:
  assumes "4 dvd a" "0 < a" "84 \<le> align_down4 sz" "a + align_down4 sz < 2 ^ 32" "mh_free_header h < a \<or> a + align_down4 sz \<le> mh_free_header h"
  defines "h' \<equiv> rt_memheap_init a sz h" and "e \<equiv> a + align_down4 sz - 24"
  shows "memheap_inv h' [(a, e, False)] [a] e" "mh_start_addr h' = a" "mh_pool_size h' = align_down4 sz" "mh_available_size h' = align_down4 sz - 48"
    "mh_data h' = mh_data h" "mh_max_used_size h' = 48"
proof -
  have e: "(a + (align_down4 sz - 48) + 24) mod 4294967296 = e" "a < e" "e + 24 < 2 ^ 32" "a + 36 \<le> e" "e - a - 24 = align_down4 sz - 48"
    "sub32 (align_down4 sz) 48 = align_down4 sz - 48" "sub32 (align_down4 sz) (align_down4 sz - 48) = 48"
    using assms(3,4) by (auto simp: e_def)
  have f: "mh_free_header h \<noteq> a" "mh_free_header h \<noteq> e" "a \<noteq> e" using assms(3,5) e by (auto simp: e_def)
  have i: "mh_items h' = (mh_items h)
      (mh_free_header h := \<lparr>mi_magic = 0x1ea01ea0, mi_pool = mh_self h, mi_next = 0, mi_prev = 0, mi_next_free = a, mi_prev_free = a\<rparr>,
       a := \<lparr>mi_magic = 0x1ea01ea0, mi_pool = mh_self h, mi_next = e, mi_prev = e, mi_next_free = mh_free_header h, mi_prev_free = mh_free_header h\<rparr>,
       e := \<lparr>mi_magic = 0x1ea01ea1, mi_pool = mh_self h, mi_next = a, mi_prev = a, mi_next_free = 0, mi_prev_free = 0\<rparr>)"
    unfolding h'_def rt_memheap_init_def Let_def using f
    by (auto simp: fun_eq_iff free_insert_def Let_def upd_item_def e)
  have fr: "mh_self h' = mh_self h" "mh_start_addr h' = a" "mh_free_list h' = mh_free_header h" "mh_free_header h' = mh_free_header h"
    "mh_available_size h' = align_down4 sz - 48" "mh_pool_size h' = align_down4 sz" "mh_data h' = mh_data h" "mh_max_used_size h' = 48"
    unfolding h'_def rt_memheap_init_def Let_def by (simp_all add: free_insert_def Let_def upd_item_def e)
  then show "mh_start_addr h' = a" "mh_pool_size h' = align_down4 sz" "mh_available_size h' = align_down4 sz - 48"
    "mh_data h' = mh_data h" "mh_max_used_size h' = 48" by simp_all
  have "mh_free_header h < a \<or> e < mh_free_header h" using assms(3,5) by (auto simp: e_def)
  then show "memheap_inv h' [(a, e, False)] [a] e" unfolding memheap_inv_def
    using fr e f assms(1,2) by (auto simp: i ring_def item_ok_def)
qed


section \<open>A heap as an allocator\<close>

definition memheap_holds :: "nat \<Rightarrow> nat \<Rightarrow> memheap \<Rightarrow> (nat \<times> nat) set \<Rightarrow> bool" where
  "memheap_holds a e h L \<longleftrightarrow> (\<exists>bs fs. memheap_inv h bs fs e \<and> mh_start_addr h = a \<and> L = (\<lambda>(s, n). (s + 24, n)) ` live bs)"

lemma live_apart:
  assumes "spans a bs e" "(s, n) \<in> live bs" "(t, m) \<in> live bs" "s \<noteq> t"
  shows "n \<le> t \<or> m \<le> s"
proof -
  obtain xs ys where bs: "bs = xs @ (s, n, True) # ys" using assms(2) by (auto simp: live_def dest: split_list)
  have "(t, m, True) \<in> set (xs @ ys)" using assms(3,4) by (auto simp: live_def bs)
  then show ?thesis using spans_split(1,2) [OF assms(1) [unfolded bs]] spans_mem by fastforce
qed

lemma memheap_free_holds:
  assumes "memheap_inv h bs fs e" "(s, n) \<in> live bs"
  shows "\<exists>h' bs' fs'. rt_memheap_free (Some (s + 24)) h = Some h' \<and> memheap_inv h' bs' fs' e \<and> mh_frame h h' \<and> live bs' = live bs - {(s, n)}"
proof -
  obtain xs ys where bs: "bs = xs @ (s, n, True) # ys" using assms(2) by (auto simp: live_def dest: split_list)
  obtain h' fs' where f: "rt_memheap_free (Some (s + 24)) h = Some h'" "memheap_inv h' (joined xs s n ys) fs' e" "mh_frame h h'"
    using rt_memheap_free_spec [OF assms(1) [unfolded bs]] by blast
  have "distinct (map fst bs)" by (rule header_places(4) [OF assms(1)])
  then have "(s, n) \<notin> live xs" "(s, n) \<notin> live ys" by (force simp: bs live_def)+
  then have "live (joined xs s n ys) = live bs - {(s, n)}" by (auto simp: live_joined bs)
  then show ?thesis using f by blast
qed

lemma memheap_alloc_holds:
  assumes inv: "memheap_inv h bs fs e" and n: "n + 3 < 2 ^ 32"
  shows "rt_memheap_alloc n h = Some (None, h) \<or>
    (\<exists>s m h' bs' fs'. rt_memheap_alloc n h = Some (Some (s + 24), h') \<and> memheap_inv h' bs' fs' e \<and> mh_frame h h' \<and>
       live bs' = insert (s, m) (live bs) \<and> s \<notin> fst ` live bs \<and> s + 24 + n \<le> m)"
proof (cases "find (\<lambda>s. memheap_align n \<le> MEMITEM_SIZE s h) fs")
  case None
  then show ?thesis using rt_memheap_alloc_spec [OF inv, of n] by simp
next
  case (Some s)
  then have s: "s \<in> set fs" "memheap_align n \<le> MEMITEM_SIZE s h" by (auto simp: find_Some_iff)
  let ?h = "memheap_take s (MEMITEM_SIZE s h) (memheap_align n) h"
  obtain k m bs' fs' where t: "(s, k, False) \<in> set bs" "memheap_inv ?h bs' fs' e" "mh_frame h ?h"
    "live bs' = insert (s, m) (live bs)" "s + 24 + memheap_align n \<le> m"
    by (rule memheap_take_spec [OF inv s memheap_align_simps(2,1)])
  have "s \<notin> fst ` live bs" using block_unique [OF inv t(1)] by (force simp: live_def)
  moreover have "s + 24 + n \<le> m" using t(5) memheap_align_simps(3) [OF n] by simp
  moreover have "rt_memheap_alloc n h = Some (None, h) \<or> rt_memheap_alloc n h = Some (Some (s + 24), ?h)"
    using rt_memheap_alloc_spec [OF inv, of n] Some by (simp split: if_splits)
  ultimately show ?thesis using t(2-4) by blast
qed

interpretation mh: allocator "memheap_holds a e" "a + 24" e rt_memheap_alloc "\<lambda>p. rt_memheap_free (Some p)" for a e
proof
  fix h :: memheap and L :: "(nat \<times> nat) set"
  assume "memheap_holds a e h L"
  then obtain bs fs where i: "memheap_inv h bs fs e" "mh_start_addr h = a" and L: "L = (\<lambda>(s, n). (s + 24, n)) ` live bs"
    by (auto simp: memheap_holds_def)
  note sp = memheap_invD(4) [OF i(1)]
  show "rt_memheap_alloc n h = Some (None, h) \<or> (\<exists>p f h'. rt_memheap_alloc n h = Some (Some p, h') \<and>
      memheap_holds a e h' (insert (p, f) L) \<and> p \<notin> fst ` L \<and> p + n \<le> f)" if "0 < n" "n + 3 < 2 ^ 32" for n
    using memheap_alloc_holds [OF i(1) that(2)]
  proof (elim disjE exE conjE)
    fix s m h' bs' fs'
    assume r: "rt_memheap_alloc n h = Some (Some (s + 24), h')" "memheap_inv h' bs' fs' e" "mh_frame h h'" "live bs' = insert (s, m) (live bs)"
      "s \<notin> fst ` live bs" "s + 24 + n \<le> m"
    have "memheap_holds a e h' (insert (s + 24, m) L)"
      unfolding memheap_holds_def using r(2-4) i(2) L by (intro exI [of _ bs'] exI [of _ fs']) (simp add: mh_frame_def)
    moreover have "s + 24 \<notin> fst ` L" using r(5) L by force
    ultimately show ?thesis using r(1,6) by blast
  qed simp
  show "\<exists>h'. rt_memheap_free (Some p) h = Some h' \<and> memheap_holds a e h' (L - {(p, f)})" if "(p, f) \<in> L" for p f
  proof -
    obtain s where s: "p = s + 24" "(s, f) \<in> live bs" using \<open>(p, f) \<in> L\<close> L by auto
    obtain h' bs' fs' where r: "rt_memheap_free (Some p) h = Some h'" "memheap_inv h' bs' fs' e" "mh_frame h h'" "live bs' = live bs - {(s, f)}"
      using memheap_free_holds [OF i(1) s(2)] s(1) by blast
    have "L - {(p, f)} = (\<lambda>(s, n). (s + 24, n)) ` (live bs - {(s, f)})" using L s by auto
    then have "memheap_holds a e h' (L - {(p, f)})"
      unfolding memheap_holds_def using r(2-4) i(2) by (intro exI [of _ bs'] exI [of _ fs']) (simp add: mh_frame_def)
    then show ?thesis using r(1) by blast
  qed
  show "a + 24 \<le> p \<and> f \<le> e" if "(p, f) \<in> L" for p f
    using that L spans_mem [OF sp] i(2) by (fastforce simp: live_def)
  show "f \<le> q \<or> g \<le> p" if "(p, f) \<in> L" "(q, g) \<in> L" "p \<noteq> q" for p f q g
    using that L live_apart [OF sp] by fastforce
qed


lemma all_free: "spans a bs e \<Longrightarrow> coalesced bs \<Longrightarrow> bs \<noteq> [] \<Longrightarrow> live bs = {} \<Longrightarrow> bs = [(a, e, False)]"
  by (cases bs; cases "tl bs") (auto simp: coalesced_Cons live_def split: if_splits)

lemma one_block_size: "memheap_inv h [(s, n, u)] fs e \<Longrightarrow> MEMITEM_SIZE s h = n - s - 24"
  using item_fields(3) [of h "[]" s n u "[]" fs e] by (simp add: memheap_inv_shape)

section \<open>Properties\<close>

text \<open>
  \<open>rt_memheap_alloc\<close> returns, and takes the first block of the free list, newest first, that is
  large enough: the size rounded up to a multiple of 4, at least 12. The block handed out has the bytes
  asked for and at most 35 more, comes out of that free block, and is the only change to the blocks in
  use; contents and invariant are kept. With no such block, or when the request takes all that the heap
  has available, it answers null and changes nothing: a heap whose only free block fits exactly refuses.
\<close>

theorem rt_memheap_alloc_fit:
  fixes n :: nat
  assumes "memheap_inv h bs fs e"
  defines "k \<equiv> memheap_align n"
  shows "case find (\<lambda>s. k \<le> MEMITEM_SIZE s h) fs of
      None \<Rightarrow> rt_memheap_alloc n h = Some (None, h)
    | Some s \<Rightarrow>
        if k < free_sum bs then \<exists>h' bs' fs' m.
          rt_memheap_alloc n h = Some (Some (s + 24), h') \<and> memheap_inv h' bs' fs' e \<and> mh_data h' = mh_data h \<and>
          live bs' = insert (s, m) (live bs) \<and> s + 24 + k \<le> m \<and> m < s + 24 + k + 36 \<and> m \<le> s + 24 + MEMITEM_SIZE s h \<and> (s, m) \<notin> live bs
        else rt_memheap_alloc n h = Some (None, h)"
proof (cases "find (\<lambda>s. k \<le> MEMITEM_SIZE s h) fs")
  case None
  then show ?thesis using rt_memheap_alloc_spec [OF assms(1), of n] by (simp add: k_def)
next
  case (Some s)
  then have s: "s \<in> set fs" "k \<le> MEMITEM_SIZE s h" by (auto simp: find_Some_iff)
  let ?h = "memheap_take s (MEMITEM_SIZE s h) k h"
  obtain x m bs' fs' where t: "(s, x, False) \<in> set bs" "MEMITEM_SIZE s h = x - s - 24" "memheap_inv ?h bs' fs' e" "mh_frame h ?h"
    "live bs' = insert (s, m) (live bs)" "s + 24 + k \<le> m" "m \<le> x" "m < s + k + 60"
    by (rule memheap_take_spec [OF assms(1) s]) (use memheap_align_simps in \<open>simp_all add: k_def\<close>)
  have "(s, m) \<notin> live bs" using block_unique [OF assms(1) t(1)] by (force simp: live_def)
  moreover have "m \<le> s + 24 + MEMITEM_SIZE s h" "mh_data ?h = mh_data h" using t(2,4,6,7) by (simp_all add: mh_frame_def)
  moreover have "rt_memheap_alloc n h = Some (if k < free_sum bs then (Some (s + 24), ?h) else (None, h))"
    using rt_memheap_alloc_spec [OF assms(1), of n] Some memheap_invD(13) [OF assms(1)] by (simp add: k_def)
  moreover have "m < s + 24 + k + 36" using t(8) by simp
  ultimately show ?thesis unfolding Some option.case
    using t(3,5,6) by (cases "k < free_sum bs") (force intro!: exI [of _ ?h] exI [of _ bs'] exI [of _ fs'] exI [of _ m], simp)
qed

text \<open>The heap of the core-coupled memory that \<open>rtthread_startup\<close> initialises, with its control block in the RAM at \<open>0x20000000\<close>.\<close>

definition ccm_mem0 :: memheap where
  "ccm_mem0 = \<lparr>mh_self = 0x20000400, mh_start_addr = 0, mh_pool_size = 0, mh_available_size = 0, mh_max_used_size = 0, mh_block_list = 0,
     mh_free_list = 0, mh_free_header = 0x20000430,
     mh_items = (\<lambda>_. \<lparr>mi_magic = 0, mi_pool = 0, mi_next = 0, mi_prev = 0, mi_next_free = 0, mi_prev_free = 0\<rparr>), mh_data = (\<lambda>_. 0)\<rparr>"

definition ccm_mem :: memheap where
  "ccm_mem = rt_memheap_init 0x10000000 (64 * 1024) ccm_mem0"

lemma ccm_mem: "memheap_inv ccm_mem [(0x10000000, 0x1000FFE8, False)] [0x10000000] 0x1000FFE8"
  using rt_memheap_init_inv(1) [where a = "0x10000000" and sz = "64 * 1024" and h = ccm_mem0] by (simp add: ccm_mem_def ccm_mem0_def align_down4_def)

theorem rt_memheap_alloc_fit_witness:
  "\<exists>h' bs' fs' m. rt_memheap_alloc 100 ccm_mem = Some (Some 0x10000018, h') \<and> memheap_inv h' bs' fs' 0x1000FFE8 \<and> live bs' = {(0x10000000, m)}"
proof -
  have k: "memheap_align 100 = 100" by (simp add: memheap_align_def align_up4_def)
  have z: "MEMITEM_SIZE 0x10000000 ccm_mem = 0xFFD0"
    using one_block_size [OF ccm_mem] by simp
  show ?thesis using rt_memheap_alloc_fit [OF ccm_mem, where n = 100] by (simp add: k z) blast
qed

text \<open>
  C18. The memory heap over its whole life. From \<open>rt_memheap_init\<close> on, any history of allocations, for
  sizes from 1 to \<open>2^32 - 4\<close> (larger ones wrap when they are rounded up), and releases runs to its end, no assertion fails, and the regions held at the end, each with all the bytes
  asked for, lie inside the pool behind its first header and before its tailer and share no byte.
  Once all is released, the heap is one free block again, with all its memory available: neighbours
  are merged, nothing leaks and nothing stays fragmented.
\<close>

theorem rt_memheap_history:
  assumes "4 dvd a" "0 < a" "84 \<le> align_down4 sz" "a + align_down4 sz < 2 ^ 32" "mh_free_header h < a \<or> a + align_down4 sz \<le> mh_free_header h"
    and "\<forall>op \<in> set ops. proper_op op"
  shows "\<exists>h' held. client_run rt_memheap_alloc (\<lambda>p. rt_memheap_free (Some p)) ops (rt_memheap_init a sz h, []) = Some (h', held) \<and>
    apart (a + 24) (a + align_down4 sz - 24) held \<and>
    (held = [] \<longrightarrow> mh_available_size h' = align_down4 sz - 48 \<and> mi_next_free (mh_items h' (mh_free_list h')) = a \<and>
       MEMITEM_SIZE a h' = align_down4 sz - 48)"
proof -
  let ?e = "a + align_down4 sz - 24"
  have "memheap_holds a ?e (rt_memheap_init a sz h) {}"
    unfolding memheap_holds_def using rt_memheap_init_inv(1,2) [OF assms(1-5)] by (intro exI [of _ "[(a, ?e, False)]"] exI [of _ "[a]"]) simp
  from mh.history [OF this assms(6)] obtain h' held where
    c: "client_run rt_memheap_alloc (\<lambda>p. rt_memheap_free (Some p)) ops (rt_memheap_init a sz h, []) = Some (h', held)"
      "apart (a + 24) ?e held" "held = [] \<Longrightarrow> memheap_holds a ?e h' {}" by blast
  have "mh_available_size h' = align_down4 sz - 48 \<and> mi_next_free (mh_items h' (mh_free_list h')) = a \<and> MEMITEM_SIZE a h' = align_down4 sz - 48"
    if "held = []"
  proof -
    have "memheap_holds a ?e h' {}" using c(3) \<open>held = []\<close> by blast
    then obtain bs fs where b: "memheap_inv h' bs fs ?e" "mh_start_addr h' = a" "live bs = {}" by (auto simp: memheap_holds_def)
    have bs: "bs = [(a, ?e, False)]" using all_free [OF memheap_invD(4) [OF b(1)] memheap_invD(6,5) [OF b(1)] b(3)] b(2) by simp
    note d = memheap_invD [OF b(1) [unfolded bs]]
    have "fs = [a]" using d(2,9) by (cases fs; cases "tl fs") (auto simp: ring_def)
    then have "mi_next_free (mh_items h' (mh_free_list h')) = a" using ring_head(1) [OF d(2)] d(3) by simp
    moreover have "MEMITEM_SIZE a h' = align_down4 sz - 48"
      using one_block_size [OF b(1) [unfolded bs]] assms(3) by simp
    ultimately show ?thesis using d(13) assms(3) by simp
  qed
  then show ?thesis using c(1,2) by blast
qed

theorem rt_memheap_history_witness:
  "\<exists>h' held. client_run rt_memheap_alloc (\<lambda>p. rt_memheap_free (Some p)) [Request 100, Request 2000, Release 0, Request 7, Release 1] (ccm_mem, []) = Some (h', held) \<and>
    apart 0x10000018 0x1000FFE8 held"
proof -
  have al: "align_down4 (64 * 1024) = 65536" "mh_free_header ccm_mem0 = 0x20000430" by (simp_all add: align_down4_def ccm_mem0_def)
  have "\<forall>op \<in> set [Request 100, Request 2000, Release 0, Request 7, Release 1]. proper_op op" by simp
  from rt_memheap_history [where a = "0x10000000" and sz = "64 * 1024" and h = ccm_mem0, OF _ _ _ _ _ this, folded ccm_mem_def, unfolded al]
  show ?thesis by (force simp del: client_run.simps)
qed

text \<open>
  The header behind a block: that of a free block, or one in use, the tailer among them.
\<close>

lemma next_block:
  assumes "memheap_inv h (xs @ (s, n, u) # ys) fs e"
  obtains n2 ys2 where "ys = (n, n2, False) # ys2" "\<not> RT_MEMHEAP_IS_USED n h" "MEMITEM_SIZE n h = n2 - n - 24" "n + 36 \<le> n2" "n2 \<le> e"
  | "RT_MEMHEAP_IS_USED n h"
proof -
  have sh: "memheap_shape h (xs @ (s, n, u) # ys) fs e" using assms by (simp add: memheap_inv_shape)
  note d = memheap_shapeD [OF sh] and sp = spans_split [OF memheap_shapeD(4) [OF sh]]
  show thesis
  proof (cases ys)
    case Nil
    then show thesis using that(2) sp(2) d(7) by (auto simp: item_ok_def RT_MEMHEAP_IS_USED_def)
  next
    case (Cons y ys2)
    then obtain n2 v where y: "ys = (n, n2, v) # ys2" using sp(2) by (cases y) auto
    note f = item_fields [of h "xs @ [(s, n, u)]" n n2 v ys2 fs e] and s2 = spans_split [of "mh_start_addr h" "xs @ [(s, n, u)]" n n2 v ys2 e]
    show thesis using that f(3,4) s2(3,5) sh d(4) y by (cases v) auto
  qed
qed

lemma memheap_copy_inv [simp]: "memheap_inv (memheap_copy d s n h) bs fs e = memheap_inv h bs fs e"
  by (simp add: memheap_copy_def memheap_inv_def plinks_def flinks_def item_ok_def)

lemma realloc_moves:
  assumes inv: "memheap_inv h bs fs e" "(s, n) \<in> live bs" and k: "k + 3 < 2 ^ 32" "c \<le> k"
    and run: "rt_memheap_alloc k h = Some (Some q, h1)"
  obtains h' bs' fs' t m where "rt_memheap_free (Some (s + 24)) (memheap_copy q (s + 24) c h1) = Some h'" "q = t + 24" "memheap_inv h' bs' fs' e"
    "live bs' = insert (t, m) (live bs - {(s, n)})" "q + k \<le> m"
    "\<forall>i < c. mh_data h' (q + i) = mh_data h (s + 24 + i)"
    "\<forall>(t', m') \<in> live bs. \<forall>a. t' \<le> a \<and> a < m' \<longrightarrow> mh_data h' a = mh_data h a"
proof -
  obtain t m bs1 fs1 where a: "q = t + 24" "memheap_inv h1 bs1 fs1 e" "mh_frame h h1" "live bs1 = insert (t, m) (live bs)"
    "t \<notin> fst ` live bs" "t + 24 + k \<le> m" using memheap_alloc_holds [OF inv(1) k(1)] run by auto
  let ?h = "memheap_copy q (s + 24) c h1"
  have i1: "memheap_inv ?h bs1 fs1 e" "(s, n) \<in> live bs1" using a(2,4) inv(2) by simp_all
  obtain h' bs' fs' where f: "rt_memheap_free (Some (s + 24)) ?h = Some h'" "memheap_inv h' bs' fs' e" "mh_frame ?h h'" "live bs' = live bs1 - {(s, n)}"
    using memheap_free_holds [OF i1] by blast
  have "(s, n) \<noteq> (t, m)" using a(5) inv(2) by force
  then have L: "live bs' = insert (t, m) (live bs - {(s, n)})" using f(4) a(4) by auto
  have dat: "mh_data h' x = (if q \<le> x \<and> x < q + c then mh_data h (s + 24 + (x - q)) else mh_data h x)" for x
    using f(3) a(3) by (simp add: mh_frame_def memheap_copy_def)
  have "mh_data h' x = mh_data h x" if "(t', m') \<in> live bs" "t' \<le> x" "x < m'" for t' m' x
  proof -
    have "t \<noteq> t'" using that(1) a(5) by force
    then have "m \<le> t' \<or> m' \<le> t" using live_apart [OF memheap_invD(4) [OF a(2)], of t m t' m'] a(4) that(1) by simp
    then have "\<not> (q \<le> x \<and> x < q + c)" using that(2,3) a(1,6) k(2) by linarith
    then show ?thesis unfolding dat by (rule if_not_P)
  qed
  moreover have "mh_data h' (q + i) = mh_data h (s + 24 + i)" if "i < c" for i using that by (simp add: dat)
  moreover have "q + k \<le> m" using a(1,6) by simp
  ultimately show thesis by (intro that [OF f(1) a(1) f(2) L]) blast+
qed

text \<open>
  C19. \<open>rt_memheap_realloc\<close> of a block in use returns, for every size that does not wrap when the code adds
  its 12 bytes. It grows the block into the free one behind it, cuts it and frees the rest, leaves it,
  or moves it: in each case the block that results has the bytes asked for, the contents of the old one
  as far as both reach, takes its place among the blocks in use, and leaves the others and their contents
  alone. If no memory is found it answers null and keeps the old block.
\<close>

theorem rt_memheap_realloc_keeps_contents:
  assumes "memheap_inv h bs fs e" "(s, n) \<in> live bs" "0 < k" "k + 15 < 2 ^ 32"
  shows "\<exists>r h'. rt_memheap_realloc (Some (s + 24)) k h = Some (r, h') \<and>
    (case r of None \<Rightarrow> h' = h
     | Some q \<Rightarrow> \<exists>bs' fs' t m. q = t + 24 \<and> memheap_inv h' bs' fs' e \<and> live bs' = insert (t, m) (live bs - {(s, n)}) \<and> q + k \<le> m \<and>
         (\<forall>i < min (n - s - 24) k. mh_data h' (q + i) = mh_data h (s + 24 + i)) \<and>
         (\<forall>(t', m') \<in> live bs - {(s, n)}. \<forall>a. t' + 24 \<le> a \<and> a < m' \<longrightarrow> mh_data h' a = mh_data h a))"
proof -
  obtain xs ys where bs: "bs = xs @ (s, n, True) # ys" using assms(2) by (auto simp: live_def dest: split_list)
  note inv = assms(1) [unfolded bs]
  have sh: "memheap_shape h (xs @ (s, n, True) # ys) fs e" using inv by (simp add: memheap_inv_shape)
  note f = item_fields [OF sh] and g = free_guards(4) [OF sh] and sp = spans_split [OF memheap_shapeD(4) [OF sh]] and d = memheap_shapeD [OF sh]
  define k' where "k' = memheap_align k"
  have k': "12 \<le> k'" "4 dvd k'" "k \<le> k'" "k' + 12 < 2 ^ 32"
    using memheap_align_simps [of k] align_up4_simps [of k] assms(4) by (auto simp: k'_def memheap_align_def Let_def)
  have "distinct (map fst bs)" by (rule header_places(4) [OF assms(1)])
  then have nl: "(s, n) \<notin> live xs" "(s, n) \<notin> live ys" by (force simp: bs live_def)+
  have stay: "rt_memheap_realloc (Some (s + 24)) k h = Some (Some (s + 24), h') \<Longrightarrow> memheap_inv h' bs' fs' e \<Longrightarrow> mh_frame h h' \<Longrightarrow>
      live bs' = insert (s, m) (live xs \<union> live ys) \<Longrightarrow> s + 24 + k \<le> m \<Longrightarrow> ?thesis" for h' bs' fs' m
    using nl by (intro exI [of _ "Some (s + 24)"] exI [of _ h'])
      (auto simp: bs mh_frame_def intro!: exI [of _ bs'] exI [of _ fs'] exI [of _ s] exI [of _ m])
  have unf: "rt_memheap_realloc (Some (s + 24)) k h =
      (if k' > n - s - 24 then
         if \<not> RT_MEMHEAP_IS_USED n h \<and> (MEMITEM_SIZE n h + (n - s - 24)) mod 2 ^ 32 > k' + 12
         then Some (Some (s + 24), realloc_grow s n (n - s - 24) k' h)
         else (case rt_memheap_alloc k' h of
                 None \<Rightarrow> None
               | Some (None, h) \<Rightarrow> Some (None, h)
               | Some (Some q, h) \<Rightarrow> map_option (\<lambda>h. (Some q, h)) (rt_memheap_free (Some (s + 24)) (memheap_copy q (s + 24) (n - s - 24) h)))
       else if k' + 36 \<ge> n - s - 24 then Some (Some (s + 24), h)
       else Some (Some (s + 24), realloc_cut s k' h))"
    (is "_ = ?rhs")
  proof -
    have "k' \<le> n - s - 24 \<Longrightarrow> (k' + 24 + 12) mod 2 ^ 32 = k' + 36" using sp(5) d(10) by simp
    moreover have "(k' + 12) mod 2 ^ 32 = k' + 12" using k'(4) by simp
    ultimately show ?thesis unfolding rt_memheap_realloc_def Let_def option.case g f(1,3) k'_def [symmetric] using assms(3) sp(3)
      by (auto cong: option.case_cong)
  qed
  show ?thesis
  proof (cases "k' > n - s - 24")
    case False
    show ?thesis
    proof (cases "k' + 36 \<ge> n - s - 24")
      case True
      then show ?thesis using False unf k'(3) sp(3) assms(1) by (intro stay [of h bs fs n]) (auto simp: bs)
    next
      case c: False
      have "s + 24 + k' + 36 \<le> n" using c by linarith
      note r = realloc_cut_spec [OF inv k'(2,1) this]
      obtain fs' where i: "memheap_inv (realloc_cut s k' h) (xs @ (s, s + 24 + k', True) # (s + 24 + k', fst (absorb n ys), False) # snd (absorb n ys)) fs' e"
        using r(1) by blast
      have "live (snd (absorb n ys)) = live ys" by (rule absorb_cases [of ys n]) auto
      then show ?thesis using c False unf k'(3) by (intro stay [OF _ i r(2), of "s + 24 + k'"]) auto
    qed
  next
    case big: True
    show ?thesis
    proof (cases "\<not> RT_MEMHEAP_IS_USED n h \<and> (MEMITEM_SIZE n h + (n - s - 24)) mod 2 ^ 32 > k' + 12")
      case True
      obtain n2 ys2 where y: "ys = (n, n2, False) # ys2" "MEMITEM_SIZE n h = n2 - n - 24" "n + 36 \<le> n2" "n2 \<le> e"
        by (rule next_block [OF inv]) (use True in auto)
      have "(MEMITEM_SIZE n h + (n - s - 24)) mod 2 ^ 32 = n2 - s - 48" using y(2-4) sp(3) d(10) by simp
      then have "s + 24 + k' + 36 < n2" using True by linarith
      note r = realloc_grow_spec [OF inv [unfolded y(1)] k'(2) big this]
      obtain fs' where i: "memheap_inv (realloc_grow s n (n - s - 24) k' h) (xs @ (s, s + 24 + k', True) # (s + 24 + k', n2, False) # ys2) fs' e"
        using r(1) by blast
      show ?thesis using big True unf k'(3) y(1) by (intro stay [OF _ i r(2), of "s + 24 + k'"]) auto
    next
      case False
      have k3: "k' + 3 < 2 ^ 32" "n - s - 24 \<le> k'" using k'(4) big by simp_all
      note move = unf [unfolded if_P [OF big] if_not_P [OF False]]
      show ?thesis using memheap_alloc_holds [OF assms(1) k3(1)]
      proof (elim disjE exE conjE)
        assume "rt_memheap_alloc k' h = Some (None, h)"
        then show ?thesis using move by simp
      next
        fix t0 m0 h1 bs1 fs1 assume run: "rt_memheap_alloc k' h = Some (Some (t0 + 24), h1)"
        obtain h' bs' fs' t m where q: "rt_memheap_free (Some (s + 24)) (memheap_copy (t0 + 24) (s + 24) (n - s - 24) h1) = Some h'" "t0 + 24 = t + 24"
          "memheap_inv h' bs' fs' e" "live bs' = insert (t, m) (live bs - {(s, n)})" "t0 + 24 + k' \<le> m"
          "\<forall>i < n - s - 24. mh_data h' (t0 + 24 + i) = mh_data h (s + 24 + i)"
          "\<forall>(t', m') \<in> live bs. \<forall>a. t' \<le> a \<and> a < m' \<longrightarrow> mh_data h' a = mh_data h a"
          by (rule realloc_moves [OF assms(1,2) k3 run])
        have "rt_memheap_realloc (Some (s + 24)) k h = Some (Some (t0 + 24), h')" using move run q(1) by simp
        moreover have "\<exists>bs' fs' t m. t0 + 24 = t + 24 \<and> memheap_inv h' bs' fs' e \<and> live bs' = insert (t, m) (live bs - {(s, n)}) \<and> t0 + 24 + k \<le> m \<and>
            (\<forall>i < min (n - s - 24) k. mh_data h' (t0 + 24 + i) = mh_data h (s + 24 + i)) \<and>
            (\<forall>(t', m') \<in> live bs - {(s, n)}. \<forall>a. t' + 24 \<le> a \<and> a < m' \<longrightarrow> mh_data h' a = mh_data h a)"
        proof (intro exI conjI)
          show "t0 + 24 = t + 24" "memheap_inv h' bs' fs' e" "live bs' = insert (t, m) (live bs - {(s, n)})" by (fact q(2), fact q(3), fact q(4))
          show "t0 + 24 + k \<le> m" using q(5) k'(3) by linarith
          show "\<forall>i < min (n - s - 24) k. mh_data h' (t0 + 24 + i) = mh_data h (s + 24 + i)" using q(6) by simp
          show "\<forall>(t', m') \<in> live bs - {(s, n)}. \<forall>a. t' + 24 \<le> a \<and> a < m' \<longrightarrow> mh_data h' a = mh_data h a" using q(7) by fastforce
        qed
        ultimately show ?thesis by (intro exI [of _ "Some (t0 + 24)"] exI [of _ h']) simp
      qed
    qed
  qed
qed

text \<open>The heap of the core-coupled memory after an allocation of 100 bytes.\<close>

definition ccm_mem1 :: memheap where
  "ccm_mem1 = memheap_take 0x10000000 0xFFD0 100 ccm_mem"

lemma ccm_mem1: "memheap_inv ccm_mem1 [(0x10000000, 0x1000007C, True), (0x1000007C, 0x1000FFE8, False)] [0x1000007C] 0x1000FFE8"
  using take_split(1) [where h = ccm_mem and xs = "[]" and s = "0x10000000" and n = "0x1000FFE8" and ys = "[]" and fa = "[]" and fb = "[]" and sz = 100] ccm_mem by (simp add: ccm_mem1_def)

theorem rt_memheap_realloc_keeps_contents_witness:
  "\<exists>r h'. rt_memheap_realloc (Some 0x10000018) 200 ccm_mem1 = Some (r, h') \<and>
    (\<forall>q. r = Some q \<longrightarrow> (\<forall>i < 100. mh_data h' (q + i) = mh_data ccm_mem1 (0x10000018 + i)))"
proof -
  have "(0x10000000, 0x1000007C) \<in> live [(0x10000000, 0x1000007C, True), (0x1000007C, 0x1000FFE8, False)]" by simp
  from rt_memheap_realloc_keeps_contents [OF ccm_mem1 this, where k = 200]
  show ?thesis by simp (elim exE conjE, intro exI conjI, assumption, auto split: option.splits)
qed

text \<open>
  C38. A reallocation to nearly \<open>2 ^ 32\<close> bytes: where the code adds its 12 bytes the sum wraps, so that any
  free block behind seems large enough. The call reports success and hands the same pointer back, and the
  header it writes for the rest lies inside the header of the block itself.
\<close>

theorem rt_memheap_realloc_wraps:
  assumes "memheap_inv h (xs @ (s, n, True) # (n, n2, False) # ys) fs e" "2 ^ 32 - 12 \<le> k" "k \<le> 2 ^ 32 - 4" "4 dvd k"
  shows "\<exists>h'. rt_memheap_realloc (Some (s + 24)) k h = Some (Some (s + 24), h') \<and>
    mi_next (mh_items h' s) = s + 24 - (2 ^ 32 - k) \<and> s < mi_next (mh_items h' s) \<and> mi_next (mh_items h' s) < s + 24"
proof -
  have sh: "memheap_shape h (xs @ (s, n, True) # (n, n2, False) # ys) fs e" using assms(1) by (simp add: memheap_inv_shape)
  then have sh2: "memheap_shape h ((xs @ [(s, n, True)]) @ (n, n2, False) # ys) fs e" by simp
  note f = item_fields [OF sh] and g = free_guards(4) [OF sh] and sp = spans_split [OF memheap_shapeD(4) [OF sh]] and d = memheap_shapeD [OF sh]
    and f2 = item_fields(3,4) [OF sh2] and sp2 = spans_split [OF memheap_shapeD(4) [OF sh2]]
  have k: "memheap_align k = k"
  proof -
    obtain j where "k = 4 * j" using assms(4) by (auto elim: dvdE)
    then have "align_up4 k = k" using assms(3) by (simp add: align_up4_def)
    then show ?thesis using assms(2) by (simp add: memheap_align_def)
  qed
  have big: "k > n - s - 24" using sp(5) d(10) assms(2) by linarith
  have "k + 12 = (k + 12 - 2 ^ 32) + 2 ^ 32" "k + 12 - 2 ^ 32 < 2 ^ 32" using assms(2,3) by simp_all
  then have wrap: "(k + 12) mod 2 ^ 32 = k + 12 - 2 ^ 32" by (metis mod_add_self2 mod_less)
  have sum: "(n2 - n - 24 + (n - s - 24)) mod 2 ^ 32 = n2 - s - 48" using sp(3) sp2(3,5) d(10) by simp
  have "k + 12 - 2 ^ 32 < n2 - s - 48" using assms(3) sp(3) sp2(3) by linarith
  then have run: "rt_memheap_realloc (Some (s + 24)) k h = Some (Some (s + 24), realloc_grow s n (n - s - 24) k h)"
    unfolding rt_memheap_realloc_def Let_def option.case g f(1,3) k f2 wrap sum using big assms(2) sp(3) by simp
  have "(s + 24 + k) mod 2 ^ 32 = s + 24 - (2 ^ 32 - k)"
  proof -
    have "s + 24 + k = (s + 24 - (2 ^ 32 - k)) + 2 ^ 32" "s + 24 - (2 ^ 32 - k) < 2 ^ 32" using assms(2,3) sp(3,5) d(10) by linarith+
    then show ?thesis by (metis mod_add_self2 mod_less)
  qed
  then have "mi_next (mh_items (realloc_grow s n (n - s - 24) k h) s) = s + 24 - (2 ^ 32 - k)"
    by (simp add: realloc_grow_def Let_def block_split_def)
  moreover have "s < s + 24 - (2 ^ 32 - k)" "s + 24 - (2 ^ 32 - k) < s + 24" using assms(2,3) by simp_all
  ultimately show ?thesis using run by auto
qed

theorem rt_memheap_realloc_wraps_witness:
  "\<exists>h'. rt_memheap_realloc (Some 0x10000018) 0xFFFFFFF8 ccm_mem1 = Some (Some 0x10000018, h') \<and> mi_next (mh_items h' 0x10000000) = 0x10000010"
proof -
  have i: "memheap_inv ccm_mem1 ([] @ (0x10000000, 0x1000007C, True) # (0x1000007C, 0x1000FFE8, False) # []) [0x1000007C] 0x1000FFE8"
    using ccm_mem1 by simp
  show ?thesis using rt_memheap_realloc_wraps [OF i, where k = "0xFFFFFFF8"] by auto
qed

end
