(* ===== verification/Spec2Isabelle.thy ===== *)
theory Spec2Isabelle
  imports Ring_Buffer Rt_List Kernel_State Ffs Scheduler Object Timer Thread Ipc_Object Ipc_Sem Ipc_Mutex Ipc_Event Ipc_Mailbox Ipc_Mq
    Mem Mempool Kernel_Services Completion Data_Queue Device Serial Usb_Core Usb_Transfer Cdc_Vcom
    Vcom_Device Vcom_Transmit Vcom_Receive Kservice_Mem Kservice_Print Mem_Align Memheap
begin

text \<open>
  Verification of a firmware that makes a board a USB virtual COM port, on the RT-Thread kernel (\<open>src/rt-thread\<close>), as
  \<open>src/rtconfig.h\<close> configures it: one Cortex-M4 core, 32 priorities, 8-character names, 100 ticks per second,
  4-byte alignment, no soft timers, no signals, hooks unset, no POSIX layer, one USB class.

  \<^bold>\<open>Parts and how they interact.\<close> Threads are scheduled by priority (\<open>scheduler.c\<close>, \<open>thread.c\<close>); the tick
  interrupt (\<open>clock.c\<close>) runs time slices and hard timers (\<open>timer.c\<close>), whose timeout functions resume
  sleeping and waiting threads. IPC objects (\<open>ipc.c\<close>), memory pools (\<open>mempool.c\<close>), completions and data queues (of
  the device drivers) suspend threads in their waiting lists, arm the thread's timer and call the
  scheduler. All kernel objects are registered by name (\<open>object.c\<close>). Memory comes from the small allocator (\<open>mem.c\<close>); a memory heap (\<open>memheap.c\<close>)
  serves the core-coupled memory.
  Devices (\<open>device.c\<close>) are structs with operations of a driver; the serial framework (\<open>serial.c\<close>) is such a driver, with
  an FIFO for reception and hardware below it. The USB device core (\<open>core.c\<close>) builds the tree of configurations, interfaces
  and endpoints, answers control requests and runs transfers, message by message; its class, the virtual
  COM port (\<open>cdc_vcom.c\<close>), is hardware to the serial framework: bytes from the host pass through a ring
  buffer (\<open>ringbuffer.c\<close>) to the FIFO, bytes to the host through another to a thread that sends them.

  \<^bold>\<open>Theories.\<close>
  \<^item> \<open>Prelude\<close>: word types, bit and list lemmas, cyclic reads of an array.
  \<^item> \<open>Bounded_Fifo\<close>: the locale of a bounded first-in first-out store with its stream theorem; interpreted by
    the ring buffer and by the mailbox.
  \<^item> \<open>Ring_Buffer\<close>: \<open>ringbuffer.c\<close>; indices with mirror bits, 15- and 16-bit arithmetic written out.
  \<^item> \<open>Rt_List\<close>: \<open>rt_list_*\<close> of \<open>rtservice.h\<close> as pointer updates of a heap, and the refinement to lists. The
    kernel theories use lists, justified by it.
  \<^item> \<open>Kernel_State\<close>: the structs of \<open>rtdef.h\<close> and the globals as one record \<open>kernel\<close>. \<open>tlists\<close> holds every list
    linked through \<open>thread->tlist\<close>: ready lists, waiting lists, and the defunct list.
  \<^item> \<open>Ffs\<close>, \<open>Scheduler\<close>, \<open>Object\<close>, \<open>Timer\<close>, \<open>Thread\<close>: \<open>__rt_ffs\<close>, \<open>scheduler.c\<close>, \<open>object.c\<close>, \<open>timer.c\<close>, and \<open>thread.c\<close>,
    \<open>clock.c\<close>, \<open>irq.c\<close>, \<open>idle.c\<close>. \<open>sched_wf\<close> is the invariant of ready lists, bitmap and thread states, kept by
    every operation.
  \<^item> \<open>Ipc_Object\<close>, \<open>Ipc_Sem\<close>, \<open>Ipc_Mutex\<close>, \<open>Ipc_Event\<close>, \<open>Ipc_Mailbox\<close>, \<open>Ipc_Mq\<close>: \<open>ipc.c\<close>, object by object.
  \<^item> \<open>Allocator\<close>: the locale of what a client of an allocator relies on; over any history of requests and releases the
    regions held share no byte. Interpreted by \<open>Mem\<close> and by \<open>Memheap\<close>.
  \<^item> \<open>Mem\<close>: \<open>mem.c\<close>; headers by offset, the tiling of the heap by blocks as invariant. \<open>Memheap\<close>: \<open>memheap.c\<close>, the heap of the
    core-coupled memory that \<open>rtthread_startup\<close> initialises; its two rings of headers are those of \<open>Rt_List\<close>.
  \<^item> \<open>Mempool\<close>: \<open>mempool.c\<close>.
  \<^item> \<open>Kernel_Services\<close>: all services as one step relation; each keeps the invariants of the others.
  \<^item> \<open>Completion\<close>, \<open>Data_Queue\<close>: \<open>completion.c\<close> and \<open>dataqueue.c\<close> of the device drivers.
  \<^item> \<open>Device\<close>: \<open>device.c\<close>; a driver is a record of operations, its contract the locale \<open>device_driver\<close>, under which the
    reference count is the number of users.
  \<^item> \<open>Serial\<close>: \<open>serial.c\<close>, in polling, interrupt and DMA mode; hardware is a record of operations, and the locale
    \<open>uart_source\<close> says what reception needs of it.
  \<^item> \<open>Usb_Core\<close>: \<open>core.c\<close>, the state of the device with the state of its class as a parameter; what the code asks of the
    controller is recorded as a list of calls. \<open>Usb_Transfer\<close>: control reads and bulk transfers, packet by packet.
  \<^item> \<open>Cdc_Vcom\<close>: \<open>cdc_vcom.c\<close> and the building of the device in \<open>usbdevice.c\<close>. \<open>Vcom_Device\<close>: the device as it is built and
    enumerated. \<open>Vcom_Transmit\<close>: application to host while the port is configured, under every interleaving and with waits
    that time out, as a refinement of a queue; bus reset, unplugging and a change of configuration are no steps of it.
    \<open>Vcom_Receive\<close>: host to application; interpretations of both driver locales on the port.

  \<^item> \<open>Kservice_Mem\<close>: the memory and string routines of \<open>kservice.c\<close> on a byte memory with 32-bit addresses; the word-wise
    routines equal the byte-wise ones. \<open>Kservice_Print\<close>: formatted output, with width and precision, and console; \<open>fmt_text\<close> is what a format means, and
    \<open>rt_vsnprintf\<close> leaves that text in the buffer as far as it fits. \<open>Mem_Align\<close>: \<open>rt_malloc_align\<close>, \<open>rt_free_align\<close> and
    \<open>rt_strdup\<close> over the heap of \<open>Mem\<close>.

  \<^bold>\<open>Conventions.\<close> A call that suspends the caller is split where \<open>rt_schedule()\<close> switches away: the call ends
  with \<open>Blocked\<close>, and \<open>..._resume\<close> is what the thread does when it runs again; \<open>Ret\<close> is a return. Operations
  between disabling and enabling interrupts are atomic; the message queue, which works in several
  such sections, is also modelled section by section, and the port's threads, handlers and writers interleave. \<open>None\<close> as the result of an operation is a loop
  that does not end (waiting with the scheduler locked), a failed assertion or an access outside of memory, as the theory says;
  no fuel is used: loops are structural, have a measure, or are \<open>partial_function\<close> with a lemma that they
  return. Memory from the heap is an argument of the \<open>create\<close> operations, null included. Parameter
  assertions are preconditions of the lemmas. Integers keep their width where they can wrap.

  \<^bold>\<open>Not modelled.\<close> \<open>slab.c\<close> and \<open>signal.c\<close> are not configured; of \<open>memheap.c\<close>, \<open>rt_memheap_detach\<close>; the USB host
  stack and the other USB classes are not configured; pipes, block rings, wait and work queues have no user in this
  firmware; the shell only prints, and setting the console device is not
  modelled; context switch and interrupt
  masking are assembly; the ST HAL and board code access registers.
\<close>

text \<open>
  C6. The services share threads, lists and the scheduler, and each leaves the others intact: from a
  well-formed kernel, after any sequence of semaphore, event, mailbox and message-queue calls, of
  resumed calls, yields, sleeps and time-outs, by any threads, the scheduler's structure is intact
  with a thread running, no thread is in two lists, a semaphore with a positive value has no waiters,
  no thread waits on an event for flags that are already set, each mailbox ring agrees with its
  counters and each message queue's nodes are either queued, in order, or free.
\<close>

theorem kernel_services_keep_invariants:
  assumes "(kernel_step S E M Q)\<^sup>*\<^sup>* k k'" "kernel_ok S E M Q k"
  shows "kernel_ok S E M Q k' \<and> sched_wf k' \<and>
    (\<forall>t l l'. t \<in> set (tlists k' l) \<longrightarrow> t \<in> set (tlists k' l') \<longrightarrow> l = l') \<and>
    (\<forall>n \<in> S. sem_value (sems k' n) > 0 \<longrightarrow> tlists k' (LSem n) = []) \<and>
    (\<forall>n \<in> E. \<forall>t \<in> set (tlists k' (LEvent n)). \<not> th_satisfied (threads k' t) (ev_set (events k' n))) \<and>
    (\<forall>n \<in> M. length (mb_contents (mailboxes k' n)) \<le> unat (mb_size (mailboxes k' n))) \<and>
    (\<forall>n \<in> Q. length (mq_msgs (mqs k' n)) + length (mq_frees (mqs k' n)) = unat (mq_max_msgs (mqs k' n)))"
proof -
  have ok: "kernel_ok S E M Q k'" by (rule kernel_steps_ok [OF assms])
  note d = kernel_okD [OF ok]
  have "l = l'" if "t \<in> set (tlists k' l)" "t \<in> set (tlists k' l')" for t l l'
    using disjoint_listsD [OF sched_wfD(1) [OF d(1)]] that by blast
  moreover have "length (mb_contents (mailboxes k' n)) \<le> unat (mb_size (mailboxes k' n))" if "n \<in> M" for n
    by (rule mbq.bounded) (use d(5) [OF that] in \<open>simp add: mb_wf_def\<close>)
  moreover have "length (mq_msgs (mqs k' n)) + length (mq_frees (mqs k' n)) = unat (mq_max_msgs (mqs k' n))" if "n \<in> Q" for n
    using d(6) [OF that] by (auto simp: mq_wf_def mq_msgs_def dest: mq_invD)
  moreover have "sem_value (sems k' n) > 0 \<longrightarrow> tlists k' (LSem n) = []" if "n \<in> S" for n
    using d(3) [OF that] by (simp add: sem_wf_def)
  moreover have "\<not> th_satisfied (threads k' t) (ev_set (events k' n))" if "n \<in> E" "t \<in> set (tlists k' (LEvent n))" for n t
    using d(4) [OF that(1)] that(2) by (simp add: event_wf_def)
  ultimately show ?thesis using ok d(1) by blast
qed

theorem kernel_services_keep_invariants_witness:
  "let k' = snd (rt_mq_send 0 [7, 8] 2 (snd (rt_sem_release 1 (demo_mq [2]))))
   in sched_wf k' \<and> (\<forall>t \<in> set (tlists k' (LEvent 0)). \<not> th_satisfied (threads k' t) (ev_set (events k' 0)))"
proof -
  let ?k = "demo_mq [2]"
  have "kernel_step {1} {0} {} {0} ?k (snd (rt_sem_release 1 ?k))" by (rule kernel_step.sem_release) simp
  moreover have "kernel_step {1} {0} {} {0} (snd (rt_sem_release 1 ?k)) (snd (rt_mq_send 0 [7, 8] 2 (snd (rt_sem_release 1 ?k))))"
    by (rule kernel_step.mq_send) simp_all
  ultimately have "(kernel_step {1} {0} {} {0})\<^sup>*\<^sup>* ?k (snd (rt_mq_send 0 [7, 8] 2 (snd (rt_sem_release 1 ?k))))" by simp
  moreover have "kernel_ok {1} {0} {} {0} ?k"
    using demo_mq(1,2) [of "[2]"]
    by (auto simp: kernel_ok_def mq_wf_def may_wait_def sem_wf_def event_wf_def demo_mq_def demo_running_def demo_kernel_def upd_mq_def)
  ultimately show ?thesis using kernel_services_keep_invariants [of "{1}" "{0}" "{}" "{0}"] by (auto simp: Let_def)
qed

end
